(* ===== verification/Prelude.thy ===== *)
theory Prelude
  imports Main "HOL-Library.Word"
begin

text \<open>
  The shared ground of the development.

  Conventions of every theory:
  \<^item> an unsigned C integer is a word of its width (\<open>u8\<close>, \<open>u16\<close>, \<open>u32\<close>, \<open>u64\<close>), so that
    wrap-around, masks and shifts are the machine's; a signed one (\<open>int\<close>, \<open>int64_t\<close>
    microseconds) is an \<open>int\<close>: C leaves its overflow undefined, and where it is defined
    it is the mathematical value;
  \<^item> a pointer and a length are one list; where the code tests the pointer against NULL the
    list is an option and \<open>None\<close> is NULL;
  \<^item> an output parameter is a component of the result; where a NULL output pointer makes the
    code fail, the definition takes a flag that says whether the pointer was given;
  \<^item> a C string is a \<open>string\<close> without its terminating NUL; a byte stream is a \<open>u8 list\<close>;
  \<^item> a fixed array of a struct is a list of the array's length, which the invariants state.
\<close>

unbundle bit_operations_syntax

type_synonym u8 = "8 word"
type_synonym u16 = "16 word"
type_synonym u32 = "32 word"
type_synonym u64 = "64 word"
type_synonym bytes = "u8 list"

named_theorems wsimps "bit-level normal forms of the word expressions the code uses"
named_theorems inv_simps "definitions of the component invariants"

section \<open>Bytes and words\<close>

lemmas [wsimps] = bit_simps

text \<open>The code's \<open>w >> (8 * k)\<close>, cut to a byte.\<close>

definition byte_of :: "nat \<Rightarrow> 'a::len word \<Rightarrow> u8" where
  "byte_of k w = ucast (drop_bit (8 * k) w)"

definition le16 :: "u8 \<Rightarrow> u8 \<Rightarrow> u16" where
  "le16 a b = ucast a OR push_bit 8 (ucast b)"

definition le24 :: "u8 \<Rightarrow> u8 \<Rightarrow> u8 \<Rightarrow> u32" where
  "le24 a b c = ucast a OR push_bit 8 (ucast b) OR push_bit 16 (ucast c)"

definition le32 :: "u8 \<Rightarrow> u8 \<Rightarrow> u8 \<Rightarrow> u8 \<Rightarrow> u32" where
  "le32 a b c d = ucast a OR push_bit 8 (ucast b) OR push_bit 16 (ucast c)
     OR push_bit 24 (ucast d)"

lemma bit_sub_add [wsimps]: "bit w (a + (n - a)) = (if a \<le> n then bit w n else bit w a)"
  by simp

lemma bit_bounded:
  assumes "unat (w :: 'a::len word) < 2 ^ k" and "bit w n"
  shows "n < k"
proof -
  from assms(1) have "take_bit k w = w"
    by (simp add: word_unat_eq_iff unsigned_take_bit_eq take_bit_nat_eq_self)
  with assms(2) show ?thesis by (metis bit_take_bit_iff)
qed

lemma le32_byte_of [simp]: "le32 (byte_of 0 w) (byte_of (Suc 0) w) (byte_of 2 w) (byte_of 3 w) = w"
  unfolding le32_def byte_of_def
  by (rule bit_word_eqI) (auto simp: wsimps)

lemma byte_of_le32 [simp]:
  "byte_of 0 (le32 a b c d) = a" "byte_of (Suc 0) (le32 a b c d) = b"
  "byte_of 2 (le32 a b c d) = c" "byte_of 3 (le32 a b c d) = d"
  unfolding le32_def byte_of_def
  by (rule bit_word_eqI; auto simp: wsimps dest: bit_imp_le_length)+

lemma le16_byte_of [simp]: "le16 (byte_of 0 w) (byte_of (Suc 0) w) = (w :: u16)"
  unfolding le16_def byte_of_def
  by (rule bit_word_eqI) (auto simp: wsimps)

lemma mask8 [wsimps]: "(0xFF :: 'a::len word) = mask 8"
  by (simp add: mask_eq_exp_minus_1)

lemma ucast_u8_inverse [simp]: "(ucast (ucast (b :: u8) :: u32) :: u8) = b"
  by (rule bit_word_eqI) (auto simp: bit_simps)

lemma unat_u8_less: "unat (b :: u8) < 256"
  using unsigned_less [of b] by simp

lemma unat_u16_less: "unat (w :: u16) < 65536"
  using unsigned_less [of w] by simp

lemma unat_u32_less: "unat (w :: u32) < 4294967296"
  using unsigned_less [of w] by simp

lemma unat_u8_up [simp]:
  "unat (ucast (b :: u8) :: u32) = unat b" "unat (ucast (b :: u8) :: u16) = unat b"
  "unat (ucast (b :: u8) :: u64) = unat b"
  using unat_u8_less [of b] by (simp_all add: unsigned_ucast_eq take_bit_nat_eq_self)

lemma unat_u16_up [simp]:
  "unat (ucast (w :: u16) :: u32) = unat w" "unat (ucast (w :: u16) :: u64) = unat w"
  using unat_u16_less [of w] by (simp_all add: unsigned_ucast_eq take_bit_nat_eq_self)

lemma unat_u32_up [simp]: "unat (ucast (w :: u32) :: u64) = unat w"
  using unat_u32_less [of w] by (simp add: unsigned_ucast_eq take_bit_nat_eq_self)

lemma unat_to_u8: "unat (ucast (w :: 'a::len word) :: u8) = unat w mod 256"
  by (simp add: unsigned_ucast_eq take_bit_eq_mod)

lemma unat_of_nat_small: "n < 2 ^ LENGTH('a::len) \<Longrightarrow> unat (of_nat n :: 'a word) = n"
  by (simp add: unat_of_nat)

text \<open>Signed reading of a 32-bit word, as the code does for time differences.\<close>

lemma sint_small:
  assumes "unat (w :: u32) < 2147483648"
  shows "sint w = int (unat w)"
proof -
  have "uint w < 2147483648" unfolding uint_nat using assms by linarith
  moreover have "- 2147483648 \<le> uint w" unfolding uint_nat by linarith
  ultimately have "signed_take_bit 31 (uint w) = uint w" by (simp add: signed_take_bit_int_eq_self)
  then have "sint w = uint w" by (simp add: sint_uint)
  then show ?thesis by (simp only: uint_nat)
qed

lemma sint_sub_small:
  assumes "unat (a :: u32) < 2147483648" "unat b < 2147483648"
  shows "sint (a - b) = int (unat a) - int (unat b)"
proof -
  have "- 2147483648 \<le> uint a - uint b" "uint a - uint b < 2147483648"
    unfolding uint_nat using assms by linarith+
  then have "signed_take_bit 31 (uint a - uint b) = uint a - uint b"
    by (simp add: signed_take_bit_int_eq_self)
  moreover have "sint (a - b) = signed_take_bit 31 (sint a - sint b)" by (simp add: sint_word_ariths)
  ultimately show ?thesis using assms by (simp only: sint_small uint_nat)
qed

text \<open>A free-running 32-bit clock: the signed difference of two readings that are less than half its
  range apart is the time between them.\<close>

lemma sint_clock:
  assumes "int a - int b < 2147483648" "int b - int a \<le> 2147483648"
  shows "sint (of_nat a - of_nat b :: u32) = int a - int b"
proof -
  have "(of_nat a - of_nat b :: u32) = word_of_int (int a - int b)" by simp
  moreover have "signed_take_bit 31 (int a - int b) = int a - int b"
    using assms by (intro signed_take_bit_int_eq_self) simp_all
  ultimately show ?thesis by (simp only: sint_sbintrunc') simp
qed

text \<open>The value of a byte sequence, least significant byte first.\<close>

fun le_nat :: "bytes \<Rightarrow> nat" where
  "le_nat [] = 0"
| "le_nat (b # bs) = unat b + 256 * le_nat bs"

lemma le_nat_append: "le_nat (xs @ ys) = le_nat xs + 256 ^ length xs * le_nat ys"
  by (induction xs) (auto simp: algebra_simps)

lemma le_nat_less: "le_nat bs < 256 ^ length bs"
proof (induction bs)
  case Nil
  then show ?case by simp
next
  case (Cons b bs)
  have b: "unat b < 256" by (rule unat_u8_less)
  from Cons have "Suc (le_nat bs) \<le> 256 ^ length bs" by simp
  then have "256 * Suc (le_nat bs) \<le> 256 * 256 ^ length bs" by (rule mult_le_mono2)
  with b show ?case by (simp add: less_le_trans)
qed

lemma le_nat_inject: "length xs = length ys \<Longrightarrow> le_nat xs = le_nat ys \<longleftrightarrow> xs = ys"
proof (induction xs ys rule: list_induct2)
  case Nil
  then show ?case by simp
next
  case (Cons x xs y ys)
  have digits: "a + 256 * m = b + 256 * n \<longleftrightarrow> a = b \<and> m = n"
    if "a < 256" "b < 256" for a b m n :: nat
    using that by (auto dest: arg_cong [where f = "\<lambda>k. k mod 256"])
  from Cons.IH show ?case
    by (simp add: digits [OF unat_u8_less unat_u8_less] word_unat_eq_iff)
qed

text \<open>The bytes of a word, in the order of \<open>byte_of\<close>.\<close>

lemma unat_byte_of: "unat (byte_of k w) = unat w div 256 ^ k mod 256"
proof -
  have "(256 :: nat) ^ k = 2 ^ (8 * k)" by (simp add: power_mult)
  then show ?thesis
    by (simp add: byte_of_def unat_to_u8 unat_drop_bit_eq drop_bit_eq_div [where 'a = nat])
qed

lemma le_nat_bytes_of: "le_nat (map (\<lambda>i. byte_of i w) [0..<k]) = unat w mod 256 ^ k"
proof (induction k)
  case 0
  then show ?case by simp
next
  case (Suc k)
  have "unat w mod 256 ^ Suc k = unat w mod 256 ^ k + 256 ^ k * (unat w div 256 ^ k mod 256)"
    using mod_mult2_eq [of "unat w" "256 ^ k" 256] by (simp add: mult.commute)
  with Suc show ?case by (simp add: le_nat_append unat_byte_of)
qed

section \<open>Lists as arrays\<close>

text \<open>The loop \<open>for (i = 0; i < n; i++) if (P(a[i])) return i;\<close>.\<close>

fun find_idx :: "('a \<Rightarrow> bool) \<Rightarrow> 'a list \<Rightarrow> nat option" where
  "find_idx P [] = None"
| "find_idx P (x # xs) = (if P x then Some 0 else map_option Suc (find_idx P xs))"

lemma find_idx_SomeD:
  "find_idx P xs = Some i \<Longrightarrow> i < length xs \<and> P (xs ! i) \<and> (\<forall>j < i. \<not> P (xs ! j))"
proof (induction xs arbitrary: i)
  case Nil
  then show ?case by simp
next
  case (Cons x xs)
  show ?case
  proof (cases "P x")
    case True
    with Cons.prems show ?thesis by auto
  next
    case False
    with Cons.prems obtain k where k: "find_idx P xs = Some k" "i = Suc k" by auto
    with Cons.IH [of k] False show ?thesis by (auto simp: nth_Cons split: nat.splits)
  qed
qed

lemma find_idx_None_iff: "find_idx P xs = None \<longleftrightarrow> (\<forall>x \<in> set xs. \<not> P x)"
  by (induction xs) auto

lemma find_idx_SomeI:
  assumes "i < length xs" and "P (xs ! i)" and "\<forall>j < i. \<not> P (xs ! j)"
  shows "find_idx P xs = Some i"
proof -
  from assms(1,2) have "find_idx P xs \<noteq> None"
    unfolding find_idx_None_iff using nth_mem by blast
  then obtain k where k: "find_idx P xs = Some k" by blast
  with find_idx_SomeD [OF k] assms have "k = i" by (metis linorder_neqE_nat)
  with k show ?thesis by simp
qed

lemma nth_update_cases:
  "k < length xs \<Longrightarrow> xs[i := x] ! k = (if k = i then x else xs ! k)"
  by (auto simp: nth_list_update)

definition count_if :: "('a \<Rightarrow> bool) \<Rightarrow> 'a list \<Rightarrow> nat" where
  "count_if P xs = length (filter P xs)"

lemma count_if_simps [simp]:
  "count_if P [] = 0"
  "count_if P (x # xs) = (if P x then Suc (count_if P xs) else count_if P xs)"
  by (simp_all add: count_if_def)

lemma count_if_le: "count_if P xs \<le> length xs"
  by (simp add: count_if_def)

lemma count_if_replicate [simp]: "count_if P (replicate n x) = (if P x then n else 0)"
  by (induction n) auto

lemma count_if_update:
  "i < length xs \<Longrightarrow>
     count_if P (xs[i := x]) + (if P (xs ! i) then 1 else 0)
       = count_if P xs + (if P x then 1 else 0)"
  by (induction xs arbitrary: i) (fastforce split: nat.splits)+

lemma count_if_pos: "i < length xs \<Longrightarrow> P (xs ! i) \<Longrightarrow> 0 < count_if P xs"
  by (induction xs arbitrary: i) (auto simp: nth_Cons split: nat.splits)

text \<open>\<open>memcpy\<close> of \<open>xs\<close> into an array at \<open>off\<close>.\<close>

definition blit :: "nat \<Rightarrow> 'a list \<Rightarrow> 'a list \<Rightarrow> 'a list" where
  "blit off xs buf = take off buf @ xs @ drop (off + length xs) buf"

lemma length_blit [simp]: "off + length xs \<le> length buf \<Longrightarrow> length (blit off xs buf) = length buf"
  by (simp add: blit_def)

lemma take_blit [simp]:
  "off \<le> length buf \<Longrightarrow> take (off + length xs) (blit off xs buf) = take off buf @ xs"
  by (simp add: blit_def)

section \<open>Interfaces\<close>

text \<open>
  A component driven by events: every operation keeps an invariant. \<open>ok\<close> is what the
  operation may assume of its arguments.
\<close>

locale machine =
  fixes step :: "'e \<Rightarrow> 's \<Rightarrow> 's"
    and ok :: "'e \<Rightarrow> bool"
    and inv :: "'s \<Rightarrow> bool"
  assumes step_inv: "ok e \<Longrightarrow> inv s \<Longrightarrow> inv (step e s)"
begin

lemma run_inv: "list_all ok es \<Longrightarrow> inv s \<Longrightarrow> inv (fold step es s)"
  by (induction es arbitrary: s) (auto intro: step_inv)

end

text \<open>Such a component with a quantity that a resource event uses up and no event adds to.\<close>

locale metered_machine = machine step ok inv
  for step :: "'e \<Rightarrow> 's \<Rightarrow> 's" and ok :: "'e \<Rightarrow> bool" and inv :: "'s \<Rightarrow> bool" +
  fixes level :: "'s \<Rightarrow> nat"
    and spends :: "'e \<Rightarrow> 's \<Rightarrow> bool"
  assumes spend: "ok e \<Longrightarrow> inv s \<Longrightarrow> spends e s \<Longrightarrow> level (step e s) < level s"
    and no_gain: "ok e \<Longrightarrow> inv s \<Longrightarrow> level (step e s) \<le> level s"
begin

fun spent :: "'e list \<Rightarrow> 's \<Rightarrow> nat" where
  "spent [] s = 0"
| "spent (e # es) s = (if spends e s then 1 else 0) + spent es (step e s)"

lemma spent_bounded: "list_all ok es \<Longrightarrow> inv s \<Longrightarrow> spent es s + level (fold step es s) \<le> level s"
proof (induction es arbitrary: s)
  case Nil
  then show ?case by simp
next
  case (Cons e es)
  then have "spent es (step e s) + level (fold step es (step e s)) \<le> level (step e s)"
    by (simp add: step_inv)
  with Cons.prems spend [of e s] no_gain [of e s] show ?case by (auto split: if_splits)
qed

end

text \<open>A text or byte format: reading what was written gives the value back.\<close>

locale codec =
  fixes enc :: "'a \<Rightarrow> 'c"
    and dec :: "'c \<Rightarrow> 'a option"
    and ok :: "'a \<Rightarrow> bool"
  assumes round_trip: "ok x \<Longrightarrow> dec (enc x) = Some x"
begin

lemma enc_inject: "ok x \<Longrightarrow> ok y \<Longrightarrow> enc x = enc y \<longleftrightarrow> x = y"
  using round_trip by (metis option.inject)

end

text \<open>
  A translator of a byte stream that the transport hands over in pieces of any size, one call
  each: it stops at the first piece it refuses. When reading is chunk by chunk the same as
  reading the whole, the cuts do not matter.
\<close>

fun feed_pieces :: "('c list \<Rightarrow> 's \<Rightarrow> 's \<times> bool) \<Rightarrow> 'c list list \<Rightarrow> 's \<Rightarrow> 's \<times> bool" where
  "feed_pieces feed [] s = (s, True)"
| "feed_pieces feed (p # ps) s = (case feed p s of (s1, ok) \<Rightarrow> if ok then feed_pieces feed ps s1 else (s1, False))"

locale stream_reader =
  fixes feed :: "'c list \<Rightarrow> 's \<Rightarrow> 's \<times> bool"
  assumes feed_Nil: "feed [] s = (s, True)"
    and feed_append: "feed (xs @ ys) s = (case feed xs s of (s1, ok) \<Rightarrow> if ok then feed ys s1 else (s1, False))"
begin

lemma pieces_concat: "feed_pieces feed ps s = feed (concat ps) s"
  by (induction ps arbitrary: s) (simp_all add: feed_Nil feed_append split: prod.split)

lemma cuts_do_not_matter: "concat ps = concat qs \<Longrightarrow> feed_pieces feed ps s = feed_pieces feed qs s"
  by (simp add: pieces_concat)

end

section \<open>Character classes of the C library\<close>

definition isspace :: "char \<Rightarrow> bool" where
  "isspace c \<longleftrightarrow> (let n = of_char c :: nat in n = 32 \<or> 9 \<le> n \<and> n \<le> 13)"

end
