(* ===== verification/J1939_Ident.thy ===== *)
theory J1939_Ident
  imports Prelude
begin

text \<open>
  \<^verbatim>\<open>components/j1939/j1939_core.c\<close>: the 29-bit identifier, what kind of frame an
  identifier makes, the evidence that a bus speaks J1939, the VIN message, and the request
  and acknowledgment messages. Every function is pure in the source; \<open>j1939_bus_note\<close>
  updates the evidence struct, which is passed and returned here.
\<close>

section \<open>Constants\<close>

abbreviation (input) J1939_ADDR_GLOBAL :: u8 where "J1939_ADDR_GLOBAL \<equiv> 0xFF"
abbreviation (input) J1939_ADDR_NULL :: u8 where "J1939_ADDR_NULL \<equiv> 0xFE"

abbreviation (input) J1939_PGN_TP_DT :: u32 where "J1939_PGN_TP_DT \<equiv> 0x00EB00"
abbreviation (input) J1939_PGN_TP_CM :: u32 where "J1939_PGN_TP_CM \<equiv> 0x00EC00"
abbreviation (input) J1939_PGN_CLAIM :: u32 where "J1939_PGN_CLAIM \<equiv> 0x00EE00"
abbreviation (input) PGN_ISO15765_PHYS :: u32 where "PGN_ISO15765_PHYS \<equiv> 0x00DA00"
abbreviation (input) PGN_ISO15765_FUNC :: u32 where "PGN_ISO15765_FUNC \<equiv> 0x00DB00"
abbreviation (input) PGN_ISO15765_MIXED_PHYS :: u32 where "PGN_ISO15765_MIXED_PHYS \<equiv> 0x00CE00"
abbreviation (input) PGN_ISO15765_MIXED_FUNC :: u32 where "PGN_ISO15765_MIXED_FUNC \<equiv> 0x00CD00"

abbreviation (input) PDU1_PF_MAX :: u32 where "PDU1_PF_MAX \<equiv> 239"
abbreviation (input) J1939_MSG_MAX :: nat where "J1939_MSG_MAX \<equiv> 1785"
abbreviation (input) J1939_VIN_LEN :: nat where "J1939_VIN_LEN \<equiv> 17"
abbreviation (input) J1939_REQUEST_LEN :: nat where "J1939_REQUEST_LEN \<equiv> 3"
abbreviation (input) J1939_BUS_MIN_GROUPS :: nat where "J1939_BUS_MIN_GROUPS \<equiv> 2"
abbreviation (input) J1939_BUS_OTHER_AFTER :: u32 where "J1939_BUS_OTHER_AFTER \<equiv> 50"

section \<open>The identifier\<close>

record j1939_id =
  id_prio :: u8
  id_pgn :: u32
  id_sa :: u8
  id_da :: u8

datatype j1939_kind =
    J1939_KIND_FOREIGN
  | J1939_KIND_DIAG
  | J1939_KIND_TP_CM
  | J1939_KIND_TP_DT
  | J1939_KIND_DATA

definition j1939_pgn_is_pdu1 :: "u32 \<Rightarrow> bool" where
  "j1939_pgn_is_pdu1 pgn \<longleftrightarrow> drop_bit 8 pgn AND 0xFF \<le> PDU1_PF_MAX"

definition j1939_id_parse :: "u32 \<Rightarrow> j1939_id" where
  "j1939_id_parse can_id =
     (let raw = drop_bit 8 can_id AND 0x3FFFF;
          prio = ucast (drop_bit 26 can_id AND 0x7);
          sa = ucast (can_id AND 0xFF)
      in if j1939_pgn_is_pdu1 raw
         then \<lparr>id_prio = prio, id_pgn = raw AND 0x3FF00, id_sa = sa, id_da = ucast (raw AND 0xFF)\<rparr>
         else \<lparr>id_prio = prio, id_pgn = raw, id_sa = sa, id_da = J1939_ADDR_GLOBAL\<rparr>)"

definition j1939_id_make :: "u8 \<Rightarrow> u32 \<Rightarrow> u8 \<Rightarrow> u8 \<Rightarrow> u32" where
  "j1939_id_make prio pgn sa da =
     (let pgn1 = pgn AND 0x1FFFF;
          pgn2 = (if j1939_pgn_is_pdu1 pgn1 then (pgn1 AND 0x1FF00) OR ucast da else pgn1)
      in push_bit 26 (ucast (prio AND 0x7)) OR push_bit 8 pgn2 OR ucast sa)"

text \<open>The kind, and the identifier taken apart for every kind but the foreign one.\<close>

definition j1939_classify :: "u32 \<Rightarrow> bool \<Rightarrow> bool \<Rightarrow> j1939_kind \<times> j1939_id option" where
  "j1939_classify can_id ext rtr =
     (if \<not> ext \<or> rtr \<or> can_id AND push_bit 25 1 \<noteq> 0 then (J1939_KIND_FOREIGN, None)
      else
        let d = j1939_id_parse can_id;
            kind =
              (if id_pgn d = PGN_ISO15765_PHYS \<or> id_pgn d = PGN_ISO15765_FUNC \<or>
                  id_pgn d = PGN_ISO15765_MIXED_PHYS \<or> id_pgn d = PGN_ISO15765_MIXED_FUNC
               then J1939_KIND_DIAG
               else if id_pgn d = J1939_PGN_TP_CM then J1939_KIND_TP_CM
               else if id_pgn d = J1939_PGN_TP_DT then J1939_KIND_TP_DT
               else J1939_KIND_DATA)
        in (kind, Some d))"

section \<open>Bus evidence\<close>

definition KNOWN_GROUPS :: "u32 list" where
  "KNOWN_GROUPS =
     [0x00F001, 0x00F002, 0x00F003, 0x00F004, 0x00F005, 0x00FE56, 0x00FE6C, 0x00FEBF,
      0x00FEC1, 0x00FECA, 0x00FEDF, 0x00FEE0, 0x00FEE5, 0x00FEE6, 0x00FEE9, 0x00FEEE,
      0x00FEEF, 0x00FEF1, 0x00FEF2, 0x00FEF5, 0x00FEF6, 0x00FEF7, 0x00FEFC,
      J1939_PGN_CLAIM]"

record j1939_bus_evidence =
  ev_frames :: u32
  ev_known :: u32
  ev_diag :: u32
  ev_foreign :: u32
  ev_known_mask :: u32

datatype j1939_bus = J1939_BUS_UNKNOWN | J1939_BUS_J1939 | J1939_BUS_OTHER

definition j1939_bus_note ::
  "j1939_bus_evidence \<Rightarrow> u32 \<Rightarrow> bool \<Rightarrow> bool \<Rightarrow> u8 \<Rightarrow> j1939_bus_evidence" where
  "j1939_bus_note ev0 can_id ext rtr dlc =
     (let ev = ev0\<lparr>ev_frames := ev_frames ev0 + 1\<rparr> in
      case j1939_classify can_id ext rtr of
        (J1939_KIND_FOREIGN, _) \<Rightarrow> ev\<lparr>ev_foreign := ev_foreign ev + 1\<rparr>
      | (J1939_KIND_DIAG, _) \<Rightarrow> ev\<lparr>ev_diag := ev_diag ev + 1\<rparr>
      | (J1939_KIND_DATA, Some d) \<Rightarrow>
          if dlc \<noteq> 8 then ev
          else (case find_idx (\<lambda>g. g = id_pgn d) KNOWN_GROUPS of
                  None \<Rightarrow> ev
                | Some i \<Rightarrow> ev\<lparr>ev_known := ev_known ev + 1,
                              ev_known_mask := ev_known_mask ev OR push_bit i 1\<rparr>)
      | (_, _) \<Rightarrow> ev)"

text \<open>The loop \<open>for (m = mask; m != 0; m &= m - 1) groups++\<close>.\<close>

lemma and_minus_one_less:
  assumes "m \<noteq> (0 :: u32)"
  shows "m AND (m - 1) < m"
proof -
  have "m AND (m - 1) \<le> m - 1" by (rule word_and_le1)
  also have "m - 1 < m"
    using assms unat_gt_0 [of m] by (simp add: word_less_nat_alt unat_minus_one)
  finally show ?thesis .
qed

function bus_groups :: "u32 \<Rightarrow> nat" where
  "bus_groups m = (if m \<noteq> 0 then Suc (bus_groups (m AND (m - 1))) else 0)"
  by pat_completeness auto
termination
  by (relation "measure unat") (auto simp: and_minus_one_less word_less_nat_alt [symmetric])

declare bus_groups.simps [simp del]

definition j1939_bus_verdict :: "j1939_bus_evidence \<Rightarrow> j1939_bus" where
  "j1939_bus_verdict ev =
     (let groups = bus_groups (ev_known_mask ev) in
      if groups \<ge> J1939_BUS_MIN_GROUPS then J1939_BUS_J1939
      else if groups = 0 \<and> ev_frames ev \<ge> J1939_BUS_OTHER_AFTER then J1939_BUS_OTHER
      else J1939_BUS_UNKNOWN)"

fun j1939_bus_name :: "j1939_bus \<Rightarrow> string" where
  "j1939_bus_name J1939_BUS_J1939 = ''j1939''"
| "j1939_bus_name J1939_BUS_OTHER = ''other''"
| "j1939_bus_name J1939_BUS_UNKNOWN = ''unknown''"

section \<open>Vehicle identification\<close>

definition vin_char_ok :: "u8 \<Rightarrow> bool" where
  "vin_char_ok c \<longleftrightarrow>
     (of_char CHR ''0'' \<le> c \<and> c \<le> of_char CHR ''9'') \<or>
     (of_char CHR ''A'' \<le> c \<and> c \<le> of_char CHR ''Z'' \<and>
      c \<noteq> of_char CHR ''I'' \<and> c \<noteq> of_char CHR ''O'' \<and> c \<noteq> of_char CHR ''Q'')"

definition vin_pad :: "u8 \<Rightarrow> bool" where
  "vin_pad c \<longleftrightarrow> c = of_char CHR '' '' \<or> c = 0x00 \<or> c = 0xFF"

text \<open>The two loops: up to the delimiter, then back over the padding.\<close>

definition vin_text :: "bytes \<Rightarrow> bytes" where
  "vin_text data = rev (dropWhile vin_pad (rev (takeWhile (\<lambda>c. c \<noteq> of_char CHR ''*'') data)))"

definition j1939_vin_parse :: "bytes option \<Rightarrow> bool \<Rightarrow> bytes option" where
  "j1939_vin_parse data out =
     (case data of
        None \<Rightarrow> None
      | Some d \<Rightarrow>
          if \<not> out then None
          else let v = vin_text d in
               if length v \<noteq> J1939_VIN_LEN then None
               else if \<not> list_all vin_char_ok v then None
               else Some v)"

section \<open>Request and acknowledgment\<close>

text \<open>\<open>d[0..2]\<close> of a buffer that holds them.\<close>

definition pgn_le :: "bytes \<Rightarrow> u32" where
  "pgn_le d = le24 (d ! 0) (d ! 1) (d ! 2)"

definition pgn_le_put :: "u32 \<Rightarrow> bytes" where
  "pgn_le_put pgn = [ucast pgn, ucast (drop_bit 8 pgn), ucast (drop_bit 16 pgn AND 0x03)]"

definition j1939_request_build :: "u32 \<Rightarrow> bytes" where
  "j1939_request_build pgn = pgn_le_put pgn"

definition j1939_request_parse :: "bytes option \<Rightarrow> u32 option" where
  "j1939_request_parse d =
     (case d of
        None \<Rightarrow> None
      | Some bs \<Rightarrow> if length bs < J1939_REQUEST_LEN then None else Some (pgn_le bs AND 0x3FFFF))"

record j1939_ackm =
  ack_control :: u8
  ack_group_function :: u8
  ack_address :: u8
  ack_pgn :: u32

definition j1939_ackm_build :: "u8 \<Rightarrow> u8 \<Rightarrow> u32 \<Rightarrow> bytes" where
  "j1939_ackm_build control address pgn = [control, 0xFF, 0xFF, 0xFF, address] @ pgn_le_put pgn"

definition j1939_ackm_parse :: "bytes option \<Rightarrow> j1939_ackm option" where
  "j1939_ackm_parse d =
     (case d of
        None \<Rightarrow> None
      | Some bs \<Rightarrow>
          if length bs < 8 then None
          else Some \<lparr>ack_control = bs ! 0, ack_group_function = bs ! 1, ack_address = bs ! 4,
                     ack_pgn = pgn_le (drop 5 bs) AND 0x3FFFF\<rparr>)"

definition j1939_ack_name :: "u8 \<Rightarrow> string" where
  "j1939_ack_name control =
     (if control = 0 then ''ack'' else if control = 1 then ''nack''
      else if control = 2 then ''denied'' else if control = 3 then ''busy'' else ''?'')"

section \<open>The loop over the mask counts its bits\<close>

lemma nat_bits_double: "{i. bit (2 * q :: nat) i} = Suc ` {i. bit q i}"
proof -
  have "bit (2 * q) i \<longleftrightarrow> (\<exists>j. i = Suc j \<and> bit q j)" for i
    by (cases i) (auto simp: bit_0 bit_Suc)
  then show ?thesis by auto
qed

lemma nat_bits_double_Suc: "{i. bit (Suc (2 * q)) i} = insert 0 (Suc ` {i. bit q i})"
proof -
  have "bit (Suc (2 * q)) i \<longleftrightarrow> i = 0 \<or> (\<exists>j. i = Suc j \<and> bit q j)" for i
    by (cases i) (auto simp: bit_0 bit_Suc)
  then show ?thesis by auto
qed

lemma finite_nat_bits: "finite {i. bit (n :: nat) i}"
proof (induction n rule: less_induct)
  case (less n)
  show ?case
  proof (cases "n = 0")
    case True
    then show ?thesis by simp
  next
    case False
    then have fin: "finite {i. bit (n div 2) i}" by (intro less) simp
    have "n = 2 * (n div 2) \<or> n = Suc (2 * (n div 2))" by presburger
    with fin show ?thesis
      by (metis finite_imageI finite_insert nat_bits_double nat_bits_double_Suc)
  qed
qed

lemma card_nat_bits_clear_lowest:
  "n \<noteq> 0 \<Longrightarrow> card {i. bit (n :: nat) i} = Suc (card {i. bit (n AND (n - 1)) i})"
proof (induction n rule: less_induct)
  case (less n)
  show ?case
  proof (cases "even n")
    case True
    then obtain q where n: "n = 2 * q" by auto
    with less.prems have q: "q \<noteq> 0" "q < n" by auto
    then have "n - 1 = Suc (2 * (q - 1))" using n by simp
    then have "n AND (n - 1) = 2 * (q AND (q - 1))"
      using n by (simp add: and_rec [of "2 * q"])
    with less.IH [of q] q n show ?thesis
      by (simp add: nat_bits_double card_image)
  next
    case False
    then obtain q where n: "n = Suc (2 * q)" by (auto elim: oddE)
    then have "n AND (n - 1) = 2 * q" by (simp add: and_rec [of "Suc (2 * q)"])
    with n show ?thesis
      by (simp add: nat_bits_double nat_bits_double_Suc card_image finite_nat_bits)
  qed
qed

lemma bus_groups_eq: "bus_groups m = card {i. bit m i}"
proof (induction m rule: bus_groups.induct)
  case (1 m)
  show ?case
  proof (cases "m = 0")
    case True
    then show ?thesis by (subst bus_groups.simps) (simp add: bot_fun_def)
  next
    case False
    have bits: "{i. bit w i} = {i. bit (unat w) i}" for w :: u32
      by (auto simp: bit_unsigned_iff dest: bit_imp_le_length)
    have "unat (m AND (m - 1)) = unat m AND (unat m - 1)"
      using False by (simp add: unsigned_and_eq unat_minus_one)
    with False 1 show ?thesis
      by (subst bus_groups.simps)
        (simp add: bits card_nat_bits_clear_lowest [of "unat m"] unat_eq_zero)
  qed
qed

section \<open>The evidence of a sequence of frames\<close>

text \<open>Frames as the evidence sees them: identifier, extended, remote, length.\<close>

type_synonym seen_frame = "u32 \<times> bool \<times> bool \<times> u8"

fun carries_group :: "seen_frame \<Rightarrow> u32 \<Rightarrow> bool" where
  "carries_group (can_id, ext, rtr, dlc) g \<longleftrightarrow>
     dlc = 8 \<and> (\<exists>d. j1939_classify can_id ext rtr = (J1939_KIND_DATA, Some d) \<and> id_pgn d = g)"

definition groups_heard :: "seen_frame list \<Rightarrow> u32 set" where
  "groups_heard fs = {g \<in> set KNOWN_GROUPS. \<exists>f \<in> set fs. carries_group f g}"

fun note_frame :: "seen_frame \<Rightarrow> j1939_bus_evidence \<Rightarrow> j1939_bus_evidence" where
  "note_frame (can_id, ext, rtr, dlc) ev = j1939_bus_note ev can_id ext rtr dlc"

definition no_evidence :: j1939_bus_evidence where
  "no_evidence = \<lparr>ev_frames = 0, ev_known = 0, ev_diag = 0, ev_foreign = 0, ev_known_mask = 0\<rparr>"

lemma distinct_KNOWN_GROUPS: "distinct KNOWN_GROUPS"
  by (simp add: KNOWN_GROUPS_def)

lemma length_KNOWN_GROUPS: "length KNOWN_GROUPS = 24"
  by (simp add: KNOWN_GROUPS_def)

lemma find_group_iff:
  "find_idx (\<lambda>g. g = p) KNOWN_GROUPS = Some i \<longleftrightarrow> i < 24 \<and> KNOWN_GROUPS ! i = p"
proof
  assume "find_idx (\<lambda>g. g = p) KNOWN_GROUPS = Some i"
  then show "i < 24 \<and> KNOWN_GROUPS ! i = p"
    by (auto dest: find_idx_SomeD simp: length_KNOWN_GROUPS)
next
  assume "i < 24 \<and> KNOWN_GROUPS ! i = p"
  then show "find_idx (\<lambda>g. g = p) KNOWN_GROUPS = Some i"
    using distinct_KNOWN_GROUPS
    by (intro find_idx_SomeI) (auto simp: length_KNOWN_GROUPS nth_eq_iff_index_eq)
qed

lemma classify_fst_data:
  "j1939_classify c e r = (J1939_KIND_DATA, o') \<Longrightarrow> \<exists>d. o' = Some d"
  by (auto simp: j1939_classify_def Let_def split: if_splits)

lemma bit_note_mask:
  "bit (ev_known_mask (note_frame f ev)) i \<longleftrightarrow>
     bit (ev_known_mask ev) i \<or> (i < 24 \<and> carries_group f (KNOWN_GROUPS ! i))"
proof (cases f)
  case (fields c e r l)
  show ?thesis
  proof (cases "j1939_classify c e r")
    case (Pair k o')
    show ?thesis
    proof (cases "k = J1939_KIND_DATA \<and> l = 8")
      case True
      with Pair classify_fst_data [of c e r o'] obtain d where d: "o' = Some d" by auto
      show ?thesis
      proof (cases "find_idx (\<lambda>g. g = id_pgn d) KNOWN_GROUPS")
        case None
        then have "\<not> (i < 24 \<and> KNOWN_GROUPS ! i = id_pgn d)"
          using find_group_iff [of "id_pgn d" i] by auto
        with None True Pair d fields show ?thesis by (auto simp: j1939_bus_note_def)
      next
        case (Some j)
        then have "i < 24 \<and> KNOWN_GROUPS ! i = id_pgn d \<longleftrightarrow> i = j"
          using find_group_iff [of "id_pgn d" i] by auto
        moreover have "j < 24" using Some by (simp add: find_group_iff)
        moreover have "ev_known_mask (note_frame f ev) = ev_known_mask ev OR push_bit j 1"
          using Some True Pair d fields by (simp add: j1939_bus_note_def)
        moreover have "carries_group f (KNOWN_GROUPS ! i) \<longleftrightarrow> KNOWN_GROUPS ! i = id_pgn d"
          using True Pair d fields by auto
        ultimately show ?thesis by (auto simp: bit_or_iff bit_exp_iff)
      qed
    next
      case False
      with Pair fields show ?thesis
        by (cases k; cases o') (auto simp: j1939_bus_note_def)
    qed
  qed
qed

lemma bit_fold_mask:
  "bit (ev_known_mask (fold note_frame fs ev)) i \<longleftrightarrow>
     bit (ev_known_mask ev) i \<or> (i < 24 \<and> (\<exists>f \<in> set fs. carries_group f (KNOWN_GROUPS ! i)))"
  by (induction fs arbitrary: ev) (auto simp: bit_note_mask)

lemma note_frames_count: "ev_frames (note_frame f ev) = ev_frames ev + 1"
  by (cases f) (auto simp: j1939_bus_note_def Let_def split: prod.splits option.splits j1939_kind.splits)

lemma fold_frames_count: "ev_frames (fold note_frame fs ev) = ev_frames ev + of_nat (length fs)"
  by (induction fs arbitrary: ev) (auto simp: note_frames_count)

lemma fold_groups: "bus_groups (ev_known_mask (fold note_frame fs no_evidence)) = card (groups_heard fs)"
proof -
  let ?m = "ev_known_mask (fold note_frame fs no_evidence)"
  have "groups_heard fs = (\<lambda>i. KNOWN_GROUPS ! i) ` {i. bit ?m i}"
    by (auto simp: groups_heard_def bit_fold_mask no_evidence_def in_set_conv_nth length_KNOWN_GROUPS)
  moreover have "inj_on (\<lambda>i. KNOWN_GROUPS ! i) {i. bit ?m i}"
    using distinct_KNOWN_GROUPS
    by (auto simp: inj_on_def bit_fold_mask no_evidence_def nth_eq_iff_index_eq length_KNOWN_GROUPS)
  ultimately show ?thesis by (simp add: bus_groups_eq card_image)
qed

theorem bus_verdict_spec:
  fixes fs :: "seen_frame list"
  assumes "length fs < 2 ^ 32"
  defines "ev \<equiv> fold note_frame fs no_evidence"
  shows "(j1939_bus_verdict ev = J1939_BUS_J1939 \<longleftrightarrow> 2 \<le> card (groups_heard fs)) \<and>
         (j1939_bus_verdict ev = J1939_BUS_OTHER \<longleftrightarrow> groups_heard fs = {} \<and> 50 \<le> length fs)"
proof -
  have frames: "50 \<le> ev_frames ev \<longleftrightarrow> 50 \<le> length fs"
    using assms(1) by (simp add: ev_def fold_frames_count no_evidence_def word_le_nat_alt unat_of_nat)
  have "finite (groups_heard fs)" by (simp add: groups_heard_def)
  then have none: "card (groups_heard fs) = 0 \<longleftrightarrow> groups_heard fs = {}" by simp
  show ?thesis
    using frames none by (auto simp: j1939_bus_verdict_def ev_def fold_groups Let_def)
qed

lemma hd_dropWhile_neq: "dropWhile (\<lambda>c. c \<noteq> a) xs = [] \<or> hd (dropWhile (\<lambda>c. c \<noteq> a) xs) = a"
  by (induction xs) auto

lemma vin_text_decomp:
  "\<exists>pads rest. list_all vin_pad pads \<and> data = vin_text data @ pads @ rest \<and> (rest = [] \<or> hd rest = of_char CHR ''*'')"
proof -
  let ?t = "takeWhile (\<lambda>c. c \<noteq> of_char CHR ''*'') data"
  let ?d = "dropWhile (\<lambda>c. c \<noteq> of_char CHR ''*'') data"
  have "rev ?t = takeWhile vin_pad (rev ?t) @ dropWhile vin_pad (rev ?t)" by simp
  then have "rev (rev ?t) = rev (takeWhile vin_pad (rev ?t) @ dropWhile vin_pad (rev ?t))"
    by (rule arg_cong)
  then have "?t = vin_text data @ rev (takeWhile vin_pad (rev ?t))"
    by (simp only: vin_text_def rev_append rev_rev_ident)
  moreover have "list_all vin_pad (rev (takeWhile vin_pad (rev ?t)))"
    by (auto simp: list_all_iff dest: set_takeWhileD)
  moreover have "?d = [] \<or> hd ?d = of_char CHR ''*''"
    by (rule hd_dropWhile_neq)
  moreover from calculation(1) have "data = vin_text data @ rev (takeWhile vin_pad (rev ?t)) @ ?d"
    by (metis append_assoc takeWhile_dropWhile_id [of "\<lambda>c. c \<noteq> of_char CHR ''*''" data])
  ultimately show ?thesis by blast
qed

lemma vin_char_not: "vin_char_ok c \<Longrightarrow> \<not> vin_pad c \<and> c \<noteq> of_char CHR ''*''"
  by (auto simp: vin_char_ok_def vin_pad_def)

lemma vin_text_of:
  assumes v: "list_all vin_char_ok v" and pads: "list_all vin_pad pads"
    and rest: "rest = [] \<or> hd rest = of_char CHR ''*''"
  shows "vin_text (v @ pads @ rest) = v"
proof -
  have "\<forall>c \<in> set (v @ pads). c \<noteq> of_char CHR ''*''"
    using v pads by (auto simp: list_all_iff dest: vin_char_not) (auto simp: vin_pad_def)
  moreover have "takeWhile (\<lambda>c. c \<noteq> of_char CHR ''*'') rest = []"
    using rest by (cases rest) auto
  ultimately have "takeWhile (\<lambda>c. c \<noteq> of_char CHR ''*'') ((v @ pads) @ rest) = v @ pads"
    by (subst takeWhile_append2) auto
  moreover have "dropWhile vin_pad (rev (v @ pads)) = rev v"
  proof -
    have "dropWhile vin_pad (rev v) = rev v"
      using v by (cases "rev v") (auto simp: list_all_iff dest!: vin_char_not split: if_splits)
    moreover have "\<forall>c \<in> set (rev pads). vin_pad c" using pads by (simp add: list_all_iff)
    ultimately show ?thesis
      using dropWhile_append2 [of "rev pads" vin_pad "rev v"] by simp
  qed
  ultimately show ?thesis by (simp add: vin_text_def del: rev_append)
qed

theorem vin_parse_spec:
  "j1939_vin_parse (Some data) True = Some v \<longleftrightarrow>
     length v = 17 \<and> list_all vin_char_ok v \<and>
     (\<exists>pads rest. list_all vin_pad pads \<and> data = v @ pads @ rest \<and>
        (rest = [] \<or> hd rest = of_char CHR ''*''))"
proof
  assume "j1939_vin_parse (Some data) True = Some v"
  then have "vin_text data = v \<and> length v = 17 \<and> list_all vin_char_ok v"
    by (auto simp: j1939_vin_parse_def Let_def split: if_splits)
  then show "length v = 17 \<and> list_all vin_char_ok v \<and>
     (\<exists>pads rest. list_all vin_pad pads \<and> data = v @ pads @ rest \<and>
        (rest = [] \<or> hd rest = of_char CHR ''*''))"
    using vin_text_decomp [of data] by auto
next
  assume "length v = 17 \<and> list_all vin_char_ok v \<and>
     (\<exists>pads rest. list_all vin_pad pads \<and> data = v @ pads @ rest \<and>
        (rest = [] \<or> hd rest = of_char CHR ''*''))"
  moreover from this have "vin_text data = v" by (metis vin_text_of)
  ultimately show "j1939_vin_parse (Some data) True = Some v"
    by (simp add: j1939_vin_parse_def)
qed

section \<open>The identifier round trips\<close>

lemma pdu1_cong: "drop_bit 8 x AND 0xFF = drop_bit 8 y AND (0xFF::u32) \<Longrightarrow> j1939_pgn_is_pdu1 x = j1939_pgn_is_pdu1 y"
  by (simp add: j1939_pgn_is_pdu1_def)

lemma masks:
  "(0x3FFFF :: u32) = mask 18" "(0x1FFFF :: u32) = mask 17" "(0x3FF00 :: u32) = push_bit 8 (mask 10)"
  "(0x1FF00 :: u32) = push_bit 8 (mask 9)" "(7 :: u32) = mask 3" "(7 :: u8) = mask 3"
  "(0x03 :: u32) = mask 2"
  by (simp_all add: mask_eq_exp_minus_1)

theorem id_make_parse:
  "j1939_id_parse (j1939_id_make prio pgn sa da) =
     \<lparr>id_prio = prio AND 0x7,
      id_pgn = (if j1939_pgn_is_pdu1 pgn then pgn AND 0x1FF00 else pgn AND 0x1FFFF),
      id_sa = sa,
      id_da = (if j1939_pgn_is_pdu1 pgn then da else J1939_ADDR_GLOBAL)\<rparr>"
proof -
  define pgn2 where "pgn2 = (if j1939_pgn_is_pdu1 pgn then (pgn AND 0x1FF00) OR ucast da else pgn AND 0x1FFFF)"
  have pf: "j1939_pgn_is_pdu1 (pgn AND 0x1FFFF) = j1939_pgn_is_pdu1 pgn"
    by (rule pdu1_cong, rule bit_word_eqI) (auto simp: wsimps masks)
  have mk: "j1939_id_make prio pgn sa da = push_bit 26 (ucast (prio AND 0x7)) OR push_bit 8 pgn2 OR ucast sa"
    unfolding j1939_id_make_def Let_def pf pgn2_def
    by (rule bit_word_eqI) (auto simp: wsimps masks)
  have raw: "drop_bit 8 (j1939_id_make prio pgn sa da) AND 0x3FFFF = pgn2"
    unfolding mk pgn2_def
    by (rule bit_word_eqI) (auto simp: wsimps masks dest: bit_imp_le_length)
  have sa: "ucast (j1939_id_make prio pgn sa da AND 0xFF) = sa"
    unfolding mk by (rule bit_word_eqI) (auto simp: wsimps masks dest: bit_imp_le_length)
  have prio: "ucast (drop_bit 26 (j1939_id_make prio pgn sa da) AND 0x7) = prio AND 0x7"
    unfolding mk pgn2_def by (rule bit_word_eqI) (auto simp: wsimps masks dest: bit_imp_le_length)
  have pf2: "j1939_pgn_is_pdu1 pgn2 = j1939_pgn_is_pdu1 pgn"
    unfolding pgn2_def
    by (rule pdu1_cong, rule bit_word_eqI) (auto simp: wsimps masks dest: bit_imp_le_length)
  show ?thesis
    unfolding j1939_id_parse_def Let_def raw sa prio pf2
    unfolding pgn2_def
    by auto (rule bit_word_eqI; auto simp: wsimps masks dest: bit_imp_le_length)+
qed

theorem id_parse_make:
  assumes "w < 0x20000000" "w AND push_bit 25 1 = 0"
  shows "j1939_id_make (id_prio (j1939_id_parse w)) (id_pgn (j1939_id_parse w)) (id_sa (j1939_id_parse w)) (id_da (j1939_id_parse w)) = w"
proof -
  have "unat w < 2 ^ 29" using assms(1) by (simp add: word_less_nat_alt)
  then have hi: "n < 29" if "bit w n" for n using that by (rule bit_bounded)
  have "bit (w AND push_bit 25 1) 25 = bit w 25" by (simp add: bit_simps)
  with assms(2) have edp: "\<not> bit w 25" by simp
  have gap: "n < 25 \<or> 26 \<le> n" if "bit w n" for n
    using that edp by (cases "n = 25") auto
  define raw where "raw = drop_bit 8 w AND 0x3FFFF"
  have b: "bit raw n \<longleftrightarrow> n < 17 \<and> bit w (8 + n)" for n
  proof (cases "n = 17")
    case True with edp show ?thesis by (simp add: raw_def wsimps masks)
  next
    case False then show ?thesis by (auto simp add: raw_def wsimps masks)
  qed
  have m17: "raw AND 0x1FFFF = raw" by (rule bit_word_eqI) (auto simp: wsimps masks b)
  have m17': "(raw AND 0x3FF00) AND 0x1FFFF = raw AND 0x3FF00" by (rule bit_word_eqI) (auto simp: wsimps masks b)
  have pf: "j1939_pgn_is_pdu1 (raw AND 0x3FF00) = j1939_pgn_is_pdu1 raw"
    by (rule pdu1_cong, rule bit_word_eqI) (auto simp: wsimps masks)
  have reassemble: "((raw AND 0x3FF00) AND 0x1FF00) OR ucast (ucast (raw AND 0xFF) :: u8) = raw"
    by (rule bit_word_eqI) (auto simp: wsimps masks b)
  have whole: "push_bit 26 (ucast (ucast (drop_bit 26 w AND 0x7) AND 0x7 :: u8)) OR push_bit 8 raw OR ucast (ucast (w AND 0xFF) :: u8) = w"
    by (rule bit_word_eqI) (auto simp: wsimps masks b dest: hi gap)
  show ?thesis
  proof (cases "j1939_pgn_is_pdu1 raw")
    case True
    then show ?thesis
      unfolding j1939_id_parse_def j1939_id_make_def Let_def raw_def [symmetric]
      by (simp only: j1939_id.simps if_True m17' pf reassemble whole)
  next
    case False
    then show ?thesis
      unfolding j1939_id_parse_def j1939_id_make_def Let_def raw_def [symmetric]
      by (simp only: j1939_id.simps if_False m17 whole)
  qed
qed

section \<open>Request and acknowledgment round trips\<close>

lemma pgn_le_put: "pgn_le (pgn_le_put pgn @ rest) AND 0x3FFFF = pgn AND 0x3FFFF"
  unfolding pgn_le_def pgn_le_put_def le24_def
  by (simp, rule bit_word_eqI) (auto simp: wsimps masks)

lemma pgn_le_put0: "pgn_le (pgn_le_put pgn) AND 0x3FFFF = pgn AND 0x3FFFF"
  using pgn_le_put [of pgn "[]"] by simp

theorem request_round_trip:
  "j1939_request_parse (Some (j1939_request_build pgn @ rest)) = Some (pgn AND 0x3FFFF)"
  by (simp add: j1939_request_parse_def j1939_request_build_def pgn_le_put) (simp add: pgn_le_put_def)

theorem ackm_round_trip:
  "j1939_ackm_parse (Some (j1939_ackm_build control address pgn)) =
     Some \<lparr>ack_control = control, ack_group_function = 0xFF, ack_address = address, ack_pgn = pgn AND 0x3FFFF\<rparr>"
  by (simp add: j1939_ackm_parse_def j1939_ackm_build_def pgn_le_put0) (simp add: pgn_le_put_def)

section \<open>Witnesses\<close>

lemma bus_verdict_spec_witness:
  "j1939_bus_verdict (fold note_frame [(0x0CF00400, True, False, 8), (0x18FEF100, True, False, 8)] no_evidence)
     = J1939_BUS_J1939 \<longleftrightarrow>
   2 \<le> card (groups_heard [(0x0CF00400, True, False, 8), (0x18FEF100, True, False, 8)])"
  using bus_verdict_spec [of "[(0x0CF00400, True, False, 8), (0x18FEF100, True, False, 8)]"] by simp

lemma id_parse_make_witness:
  "j1939_id_make (id_prio (j1939_id_parse 0x18FEF100)) (id_pgn (j1939_id_parse 0x18FEF100))
     (id_sa (j1939_id_parse 0x18FEF100)) (id_da (j1939_id_parse 0x18FEF100)) = 0x18FEF100"
  by (rule id_parse_make) (simp_all add: push_bit_eq_mult)

end
