(* ===== verification/J1939_TP.thy ===== *)
theory J1939_TP
  imports J1939_Ident
begin

text \<open>
  \<^verbatim>\<open>components/j1939/j1939_tp_core.c\<close> and \<^verbatim>\<open>j1939_tp_core.h\<close>: the J1939-21 transport
  protocol receiver. A session pointer of the source is an index into the session table;
  the reply queue \<open>reply[0 .. reply_n - 1]\<close> is a list; a frame's data pointer and its
  \<open>dlc\<close> are one list; \<open>size_t\<close> is the target's 32-bit word. \<open>j1939_tp_dt\<close> returns the
  message it completed, and \<open>None\<close> where the code returns false.
\<close>

section \<open>Data\<close>

abbreviation (input) J1939_TP_SESSIONS :: nat where "J1939_TP_SESSIONS \<equiv> 8"
abbreviation (input) J1939_TP_REPLIES :: nat where "J1939_TP_REPLIES \<equiv> 8"
abbreviation (input) J1939_TP_TIMEOUT_US :: int where "J1939_TP_TIMEOUT_US \<equiv> 1250000"
abbreviation (input) J1939_TP_CTRL_RTS :: u8 where "J1939_TP_CTRL_RTS \<equiv> 16"
abbreviation (input) J1939_TP_CTRL_CTS :: u8 where "J1939_TP_CTRL_CTS \<equiv> 17"
abbreviation (input) J1939_TP_CTRL_EOMA :: u8 where "J1939_TP_CTRL_EOMA \<equiv> 19"
abbreviation (input) J1939_TP_CTRL_BAM :: u8 where "J1939_TP_CTRL_BAM \<equiv> 32"
abbreviation (input) J1939_TP_CTRL_ABORT :: u8 where "J1939_TP_CTRL_ABORT \<equiv> 255"
abbreviation (input) J1939_TP_ABORT_BUSY :: u8 where "J1939_TP_ABORT_BUSY \<equiv> 1"
abbreviation (input) J1939_TP_ABORT_TIMEOUT :: u8 where "J1939_TP_ABORT_TIMEOUT \<equiv> 3"
abbreviation (input) J1939_TP_ABORT_SEQUENCE :: u8 where "J1939_TP_ABORT_SEQUENCE \<equiv> 7"
abbreviation (input) TP_MIN_BYTES :: nat where "TP_MIN_BYTES \<equiv> 9"

record tp_stats =
  n_started :: u32
  n_completed :: u32
  n_seq_errors :: u32
  n_timeouts :: u32
  n_aborted :: u32
  n_replaced :: u32
  n_no_session :: u32
  n_orphan_dt :: u32
  n_bad_cm :: u32
  n_to_me :: u32
  n_cts :: u32
  n_eoma :: u32
  n_aborts_out :: u32
  n_reply_lost :: u32

record tp_session =
  s_open :: bool
  s_mine :: bool
  s_sa :: u8
  s_da :: u8
  s_packets :: u8
  s_next :: u8
  s_cts_max :: u8
  s_cts_left :: u8
  s_size :: u16
  s_pgn :: u32
  s_last_us :: int

record tp_reply =
  r_da :: u8
  r_data :: bytes

record j1939_tp =
  tp_s :: "tp_session list"
  tp_buf :: "bytes list"
  tp_st :: tp_stats
  tp_my_sa :: u8
  tp_reply :: "tp_reply list"

record tp_msg =
  m_pgn :: u32
  m_sa :: u8
  m_da :: u8
  m_data :: bytes

section \<open>Replies this node sends\<close>

definition tp_pgn_put :: "u32 \<Rightarrow> bytes" where
  "tp_pgn_put pgn = [ucast pgn, ucast (drop_bit 8 pgn), ucast (drop_bit 16 pgn AND 0x03)]"

definition reply_queue :: "j1939_tp \<Rightarrow> u8 \<Rightarrow> bytes \<Rightarrow> j1939_tp" where
  "reply_queue tp da data =
     (if length (tp_reply tp) \<ge> J1939_TP_REPLIES
      then tp_st_update (n_reply_lost_update (\<lambda>n. n + 1)) tp
      else tp\<lparr>tp_reply := tp_reply tp @ [\<lparr>r_da = da, r_data = data\<rparr>]\<rparr>)"

text \<open>Clear to send: the next window of session \<open>i\<close>.\<close>

definition cts_window :: "tp_session \<Rightarrow> u8" where
  "cts_window s =
     (let left = ucast (s_packets s) - ucast (s_next s) + (1 :: u32)
      in ucast (if left < ucast (s_cts_max s) then left else ucast (s_cts_max s)))"

definition reply_cts :: "j1939_tp \<Rightarrow> nat \<Rightarrow> j1939_tp" where
  "reply_cts tp i =
     (let s = (tp_s tp ! i)\<lparr>s_cts_left := cts_window (tp_s tp ! i)\<rparr>;
          d = [J1939_TP_CTRL_CTS, s_cts_left s, s_next s, 0xFF, 0xFF] @ tp_pgn_put (s_pgn s);
          tp1 = tp\<lparr>tp_s := (tp_s tp)[i := s]\<rparr>;
          tp2 = tp_st_update (n_cts_update (\<lambda>n. n + 1)) tp1
      in reply_queue tp2 (s_sa s) d)"

definition reply_eoma :: "j1939_tp \<Rightarrow> nat \<Rightarrow> j1939_tp" where
  "reply_eoma tp i =
     (let s = tp_s tp ! i;
          d = [J1939_TP_CTRL_EOMA, ucast (s_size s), ucast (drop_bit 8 (s_size s)),
               s_packets s, 0xFF] @ tp_pgn_put (s_pgn s)
      in reply_queue (tp_st_update (n_eoma_update (\<lambda>n. n + 1)) tp) (s_sa s) d)"

definition reply_abort :: "j1939_tp \<Rightarrow> u8 \<Rightarrow> u32 \<Rightarrow> u8 \<Rightarrow> j1939_tp" where
  "reply_abort tp da pgn reason =
     reply_queue (tp_st_update (n_aborts_out_update (\<lambda>n. n + 1)) tp) da
       ([J1939_TP_CTRL_ABORT, reason, 0xFF, 0xFF, 0xFF] @ tp_pgn_put pgn)"

definition for_me :: "j1939_tp \<Rightarrow> u8 \<Rightarrow> bool" where
  "for_me tp da \<longleftrightarrow> tp_my_sa tp \<noteq> J1939_ADDR_NULL \<and> da = tp_my_sa tp"

section \<open>Sessions\<close>

definition session_of :: "u8 \<Rightarrow> u8 \<Rightarrow> tp_session \<Rightarrow> bool" where
  "session_of sa da s \<longleftrightarrow> s_open s \<and> s_sa s = sa \<and> s_da s = da"

definition session_find :: "j1939_tp \<Rightarrow> u8 \<Rightarrow> u8 \<Rightarrow> nat option" where
  "session_find tp sa da = find_idx (session_of sa da) (tp_s tp)"

definition session_free :: "j1939_tp \<Rightarrow> nat option" where
  "session_free tp = find_idx (\<lambda>s. \<not> s_open s) (tp_s tp)"

definition cm_pgn :: "bytes \<Rightarrow> u32" where
  "cm_pgn d = le24 (d ! 5) (d ! 6) (d ! 7)"

text \<open>Session \<open>i\<close> ends here: closed, and counted by the statistic \<open>why\<close>.\<close>

definition session_close :: "nat \<Rightarrow> (tp_stats \<Rightarrow> tp_stats) \<Rightarrow> j1939_tp \<Rightarrow> j1939_tp" where
  "session_close i why tp =
     tp_st_update why (tp\<lparr>tp_s := (tp_s tp)[i := (tp_s tp ! i)\<lparr>s_open := False\<rparr>]\<rparr>)"

text \<open>
  \<open>announce\<close>: a BAM or RTS says that a message of \<open>d[1..2]\<close> bytes in \<open>d[3]\<close> packets is
  coming. The second half is the code from the chosen session on.
\<close>

definition announce_open ::
  "j1939_tp \<Rightarrow> nat \<Rightarrow> bool \<Rightarrow> u8 \<Rightarrow> u8 \<Rightarrow> bytes \<Rightarrow> int \<Rightarrow> j1939_tp" where
  "announce_open tp i mine sa da d now_us =
     (let s = \<lparr>s_open = True, s_mine = mine, s_sa = sa, s_da = da, s_packets = d ! 3,
               s_next = 1, s_cts_max = (if mine \<and> d ! 4 \<noteq> 0 then d ! 4 else 0xFF),
               s_cts_left = 0, s_size = le16 (d ! 1) (d ! 2), s_pgn = cm_pgn d,
               s_last_us = now_us\<rparr>;
          tp1 = tp_st_update (n_started_update (\<lambda>n. n + 1)) (tp\<lparr>tp_s := (tp_s tp)[i := s]\<rparr>)
      in if mine
         then reply_cts (tp_st_update (n_to_me_update (\<lambda>n. n + 1)) tp1) i
         else tp1)"

definition announce :: "j1939_tp \<Rightarrow> u8 \<Rightarrow> u8 \<Rightarrow> bytes \<Rightarrow> int \<Rightarrow> j1939_tp" where
  "announce tp sa da d now_us =
     (let size = le16 (d ! 1) (d ! 2);
          packets = d ! 3;
          mine = (d ! 0 = J1939_TP_CTRL_RTS \<and> for_me tp da)
      in if unat size < TP_MIN_BYTES \<or> unat size > J1939_MSG_MAX \<or>
            unat packets \<noteq> (unat size + 7 - 1) div 7
         then tp_st_update (n_bad_cm_update (\<lambda>n. n + 1)) tp
         else (case session_find tp sa da of
                 Some i \<Rightarrow>
                   announce_open (tp_st_update (n_replaced_update (\<lambda>n. n + 1)) tp) i mine sa da d now_us
               | None \<Rightarrow>
                   (case session_free tp of
                      None \<Rightarrow>
                        (let tp1 = tp_st_update (n_no_session_update (\<lambda>n. n + 1)) tp
                         in if mine then reply_abort tp1 sa (cm_pgn d) J1939_TP_ABORT_BUSY else tp1)
                    | Some i \<Rightarrow> announce_open tp i mine sa da d now_us)))"

section \<open>The receiver's interface\<close>

definition empty_session :: tp_session where
  "empty_session =
     \<lparr>s_open = False, s_mine = False, s_sa = 0, s_da = 0, s_packets = 0, s_next = 0,
      s_cts_max = 0, s_cts_left = 0, s_size = 0, s_pgn = 0, s_last_us = 0\<rparr>"

definition zero_stats :: tp_stats where
  "zero_stats =
     \<lparr>n_started = 0, n_completed = 0, n_seq_errors = 0, n_timeouts = 0, n_aborted = 0,
      n_replaced = 0, n_no_session = 0, n_orphan_dt = 0, n_bad_cm = 0, n_to_me = 0,
      n_cts = 0, n_eoma = 0, n_aborts_out = 0, n_reply_lost = 0\<rparr>"

text \<open>\<open>j1939_tp_init\<close> leaves the buffers as they are.\<close>

definition j1939_tp_init :: "j1939_tp \<Rightarrow> j1939_tp" where
  "j1939_tp_init tp =
     tp\<lparr>tp_s := replicate J1939_TP_SESSIONS empty_session, tp_st := zero_stats,
        tp_my_sa := J1939_ADDR_NULL, tp_reply := []\<rparr>"

definition j1939_tp_set_address :: "j1939_tp \<Rightarrow> u8 \<Rightarrow> j1939_tp" where
  "j1939_tp_set_address tp my_sa = tp\<lparr>tp_my_sa := my_sa\<rparr>"

definition j1939_tp_reply_take :: "j1939_tp \<Rightarrow> j1939_tp \<times> tp_reply option" where
  "j1939_tp_reply_take tp =
     (case tp_reply tp of
        [] \<Rightarrow> (tp, None)
      | r # rs \<Rightarrow> (tp\<lparr>tp_reply := rs\<rparr>, Some r))"

definition j1939_tp_cm :: "j1939_tp \<Rightarrow> u8 \<Rightarrow> u8 \<Rightarrow> bytes \<Rightarrow> int \<Rightarrow> j1939_tp" where
  "j1939_tp_cm tp sa da d now_us =
     (let bad = tp_st_update (n_bad_cm_update (\<lambda>n. n + 1)) tp in
      if length d \<noteq> 8 then bad
      else if d ! 0 = J1939_TP_CTRL_BAM then
        (if da \<noteq> J1939_ADDR_GLOBAL then bad else announce tp sa da d now_us)
      else if d ! 0 = J1939_TP_CTRL_RTS then
        (if da = J1939_ADDR_GLOBAL then bad else announce tp sa da d now_us)
      else if d ! 0 = J1939_TP_CTRL_CTS then
        (case session_find tp da sa of
           None \<Rightarrow> tp
         | Some i \<Rightarrow>
             if s_pgn (tp_s tp ! i) \<noteq> cm_pgn d then tp
             else let s = (tp_s tp ! i)\<lparr>s_last_us := now_us\<rparr>;
                      tp1 = tp\<lparr>tp_s := (tp_s tp)[i := s]\<rparr>
                  in if d ! 1 = 0 then tp1
                     else if d ! 2 \<ge> 1 \<and> d ! 2 \<le> s_next s
                     then tp\<lparr>tp_s := (tp_s tp)[i := s\<lparr>s_next := d ! 2\<rparr>]\<rparr>
                     else session_close i (n_seq_errors_update (\<lambda>n. n + 1)) tp1)
      else if d ! 0 = J1939_TP_CTRL_EOMA then
        (case session_find tp da sa of
           None \<Rightarrow> tp
         | Some i \<Rightarrow>
             if s_pgn (tp_s tp ! i) = cm_pgn d
             then session_close i (n_seq_errors_update (\<lambda>n. n + 1)) tp else tp)
      else if d ! 0 = J1939_TP_CTRL_ABORT then
        (case (case session_find tp sa da of None \<Rightarrow> session_find tp da sa | Some i \<Rightarrow> Some i) of
           None \<Rightarrow> tp
         | Some i \<Rightarrow>
             if s_pgn (tp_s tp ! i) = cm_pgn d
             then session_close i (n_aborted_update (\<lambda>n. n + 1)) tp else tp)
      else bad)"

text \<open>Where packet \<open>next\<close> goes, and how many of its bytes belong to the message.\<close>

definition dt_off :: "tp_session \<Rightarrow> u32" where
  "dt_off s = (ucast (s_next s) - 1) * 7"

definition dt_len :: "tp_session \<Rightarrow> u32" where
  "dt_len s = (let n = ucast (s_size s) - dt_off s in if n > 7 then 7 else n)"

definition j1939_tp_dt ::
  "j1939_tp \<Rightarrow> u8 \<Rightarrow> u8 \<Rightarrow> bytes \<Rightarrow> int \<Rightarrow> j1939_tp \<times> tp_msg option" where
  "j1939_tp_dt tp sa da d now_us =
     (case session_find tp sa da of
        None \<Rightarrow> (tp_st_update (n_orphan_dt_update (\<lambda>n. n + 1)) tp, None)
      | Some i \<Rightarrow>
          let s = tp_s tp ! i in
          if length d \<noteq> 8 \<or> d ! 0 \<noteq> s_next s then
            let tp1 = session_close i (n_seq_errors_update (\<lambda>n. n + 1)) tp
            in (if s_mine s then reply_abort tp1 (s_sa s) (s_pgn s) J1939_TP_ABORT_SEQUENCE
                else tp1, None)
          else
            let data = take (unat (dt_len s)) (drop 1 d);
                s1 = s\<lparr>s_last_us := now_us\<rparr>;
                tp1 = tp\<lparr>tp_buf := (tp_buf tp)[i := blit (unat (dt_off s)) data (tp_buf tp ! i)],
                         tp_s := (tp_s tp)[i := s1]\<rparr>
            in if s_next s < s_packets s then
                 let s2 = s1\<lparr>s_next := s_next s1 + 1\<rparr> in
                 if s_mine s \<and> s_cts_left s > 0 then
                   let s3 = s2\<lparr>s_cts_left := s_cts_left s2 - 1\<rparr>;
                       tp2 = tp1\<lparr>tp_s := (tp_s tp)[i := s3]\<rparr>
                   in (if s_cts_left s3 = 0 then reply_cts tp2 i else tp2, None)
                 else (tp1\<lparr>tp_s := (tp_s tp)[i := s2]\<rparr>, None)
               else
                 let tp2 = session_close i (n_completed_update (\<lambda>n. n + 1)) tp1;
                     tp3 = (if s_mine s then reply_eoma tp2 i else tp2)
                 in (tp3, Some \<lparr>m_pgn = s_pgn s, m_sa = s_sa s, m_da = s_da s,
                               m_data = take (unat (s_size s)) (tp_buf tp3 ! i)\<rparr>))"

text \<open>One turn of the loop of \<open>j1939_tp_expire\<close>, and the loop.\<close>

definition tp_expire_one :: "int \<Rightarrow> nat \<Rightarrow> j1939_tp \<Rightarrow> j1939_tp" where
  "tp_expire_one now_us i tp =
     (let s = tp_s tp ! i in
      if s_open s \<and> now_us - s_last_us s > J1939_TP_TIMEOUT_US then
        let tp1 = session_close i (n_timeouts_update (\<lambda>n. n + 1)) tp
        in if s_mine s then reply_abort tp1 (s_sa s) (s_pgn s) J1939_TP_ABORT_TIMEOUT else tp1
      else tp)"

definition j1939_tp_expire :: "j1939_tp \<Rightarrow> int \<Rightarrow> j1939_tp" where
  "j1939_tp_expire tp now_us = fold (tp_expire_one now_us) [0..<J1939_TP_SESSIONS] tp"

definition j1939_tp_open :: "j1939_tp \<Rightarrow> nat" where
  "j1939_tp_open tp = count_if s_open (tp_s tp)"

section \<open>What the reply functions leave alone\<close>

lemma reply_queue_frame [simp]:
  "tp_s (reply_queue tp da d) = tp_s tp"
  "tp_buf (reply_queue tp da d) = tp_buf tp"
  "tp_my_sa (reply_queue tp da d) = tp_my_sa tp"
  by (simp_all add: reply_queue_def)

lemma reply_frame [simp]:
  "tp_s (reply_eoma tp i) = tp_s tp"
  "tp_buf (reply_eoma tp i) = tp_buf tp"
  "tp_s (reply_abort tp da pgn r) = tp_s tp"
  "tp_buf (reply_abort tp da pgn r) = tp_buf tp"
  "tp_s (reply_cts tp i) = (tp_s tp)[i := (tp_s tp ! i)\<lparr>s_cts_left := cts_window (tp_s tp ! i)\<rparr>]"
  "tp_buf (reply_cts tp i) = tp_buf tp"
  by (simp_all add: reply_eoma_def reply_abort_def reply_cts_def Let_def)

lemma close_frame [simp]:
  "tp_s (session_close i why tp) = (tp_s tp)[i := (tp_s tp ! i)\<lparr>s_open := False\<rparr>]"
  "tp_buf (session_close i why tp) = tp_buf tp"
  "tp_reply (session_close i why tp) = tp_reply tp"
  "tp_st (session_close i why tp) = why (tp_st tp)"
  by (simp_all add: session_close_def)

lemma announce_open_frame [simp]:
  "i < length (tp_s tp) \<Longrightarrow> tp_s (announce_open tp i mine sa da d now) =
     (tp_s tp)[i := (let s = \<lparr>s_open = True, s_mine = mine, s_sa = sa, s_da = da, s_packets = d ! 3,
               s_next = 1, s_cts_max = (if mine \<and> d ! 4 \<noteq> 0 then d ! 4 else 0xFF),
               s_cts_left = 0, s_size = le16 (d ! 1) (d ! 2), s_pgn = cm_pgn d,
               s_last_us = now\<rparr> in if mine then s\<lparr>s_cts_left := cts_window s\<rparr> else s)]"
  "tp_buf (announce_open tp i mine sa da d now) = tp_buf tp"
  by (simp_all add: announce_open_def Let_def)

section \<open>The session table\<close>

definition session_ok :: "tp_session \<Rightarrow> bool" where
  "session_ok s \<longleftrightarrow>
     TP_MIN_BYTES \<le> unat (s_size s) \<and> unat (s_size s) \<le> J1939_MSG_MAX \<and>
     unat (s_packets s) = (unat (s_size s) + 6) div 7 \<and>
     1 \<le> unat (s_next s) \<and> unat (s_next s) \<le> unat (s_packets s) \<and>
     (s_mine s \<longrightarrow> 1 \<le> unat (s_cts_max s) \<and> 1 \<le> unat (s_cts_left s) \<and>
        unat (s_next s) + unat (s_cts_left s) \<le> unat (s_packets s) + 1)"

definition sessions_ok :: "tp_session list \<Rightarrow> bool" where
  "sessions_ok S \<longleftrightarrow>
     length S = J1939_TP_SESSIONS \<and>
     (\<forall>i < length S. s_open (S ! i) \<longrightarrow> session_ok (S ! i)) \<and>
     (\<forall>i < length S. \<forall>j < length S. i \<noteq> j \<longrightarrow> s_open (S ! i) \<longrightarrow> s_open (S ! j) \<longrightarrow>
        (s_sa (S ! i), s_da (S ! i)) \<noteq> (s_sa (S ! j), s_da (S ! j)))"

lemma sessions_ok_close:
  "sessions_ok S \<Longrightarrow> \<not> s_open s' \<Longrightarrow> sessions_ok (S[i := s'])"
  by (auto simp: sessions_ok_def nth_update_cases)

lemma sessions_ok_keep:
  assumes "sessions_ok S" "s_open (S ! i)" "session_ok s'" "s_sa s' = s_sa (S ! i)" "s_da s' = s_da (S ! i)"
  shows "sessions_ok (S[i := s'])"
  using assms by (auto simp: sessions_ok_def nth_update_cases)

lemma sessions_ok_new:
  assumes "sessions_ok S" "session_ok s'"
    and "\<forall>j < length S. j \<noteq> i \<longrightarrow> \<not> session_of (s_sa s') (s_da s') (S ! j)"
  shows "sessions_ok (S[i := s'])"
  using assms unfolding sessions_ok_def session_of_def
  by (simp add: nth_update_cases) metis

lemma sessions_ok_find:
  assumes "sessions_ok S" "find_idx (session_of sa da) S = Some i"
  shows "i < length S \<and> s_open (S ! i) \<and> s_sa (S ! i) = sa \<and> s_da (S ! i) = da \<and> session_ok (S ! i)
     \<and> (\<forall>j < length S. j \<noteq> i \<longrightarrow> \<not> session_of sa da (S ! j))"
  using assms find_idx_SomeD [OF assms(2)] by (auto simp: sessions_ok_def session_of_def)

section \<open>The window a clear-to-send grants\<close>

lemma cts_window_bounds:
  assumes "1 \<le> unat (s_next s)" "unat (s_next s) \<le> unat (s_packets s)" "1 \<le> unat (s_cts_max s)"
  shows "unat (cts_window s) = min (unat (s_packets s) + 1 - unat (s_next s)) (unat (s_cts_max s))"
proof -
  let ?l = "ucast (s_packets s) - ucast (s_next s) + (1 :: u32)"
  have p: "unat (s_packets s) < 256" and m: "unat (s_cts_max s) < 256" by (rule unat_u8_less)+
  have "(ucast (s_next s) :: u32) \<le> ucast (s_packets s)"
    using assms(2) by (simp add: word_le_nat_alt)
  then have "unat (ucast (s_packets s) - ucast (s_next s) :: u32) = unat (s_packets s) - unat (s_next s)"
    by (simp add: unat_sub)
  with p have l: "unat ?l = unat (s_packets s) + 1 - unat (s_next s)"
    using assms(1,2) by (subst unat_add_lem [THEN iffD1]) auto
  have m32: "unat (ucast (s_cts_max s) :: u32) = unat (s_cts_max s)" by simp
  have "unat (ucast w :: u8) = unat w" if "unat w < 256" for w :: u32
    using that by (simp add: unat_to_u8)
  then show ?thesis using l m32 p m assms
    by (auto simp: cts_window_def Let_def word_less_nat_alt min_def)
qed

section \<open>The books\<close>

definition ended :: "tp_stats \<Rightarrow> u32" where
  "ended st = n_completed st + n_seq_errors st + n_timeouts st + n_aborted st + n_replaced st"

definition books_balance :: "j1939_tp \<Rightarrow> bool" where
  "books_balance tp \<longleftrightarrow> n_started (tp_st tp) = of_nat (j1939_tp_open tp) + ended (tp_st tp)"

lemma reply_ledger [simp]:
  "n_started (tp_st (reply_queue tp da d)) = n_started (tp_st tp)"
  "ended (tp_st (reply_queue tp da d)) = ended (tp_st tp)"
  "n_started (tp_st (reply_eoma tp i)) = n_started (tp_st tp)"
  "ended (tp_st (reply_eoma tp i)) = ended (tp_st tp)"
  "n_started (tp_st (reply_abort tp da pgn r)) = n_started (tp_st tp)"
  "ended (tp_st (reply_abort tp da pgn r)) = ended (tp_st tp)"
  "n_started (tp_st (reply_cts tp i)) = n_started (tp_st tp)"
  "ended (tp_st (reply_cts tp i)) = ended (tp_st tp)"
  by (simp_all add: reply_queue_def reply_eoma_def reply_abort_def reply_cts_def ended_def Let_def)

lemma announce_open_ledger [simp]:
  "n_started (tp_st (announce_open tp i mine sa da d now)) = n_started (tp_st tp) + 1"
  "ended (tp_st (announce_open tp i mine sa da d now)) = ended (tp_st tp)"
  by (simp_all add: announce_open_def Let_def) (simp_all add: ended_def)

text \<open>Session \<open>i\<close> goes from one state to another: the count of open ones follows.\<close>

lemma open_update:
  assumes "i < length (tp_s tp)" and "tp_s tp' = (tp_s tp)[i := s']"
  shows "of_nat (j1939_tp_open tp') + (if s_open (tp_s tp ! i) then 1 else 0 :: u32)
       = of_nat (j1939_tp_open tp) + (if s_open s' then 1 else 0)"
proof -
  have "j1939_tp_open tp' + (if s_open (tp_s tp ! i) then 1 else 0)
      = j1939_tp_open tp + (if s_open s' then 1 else 0)"
    using count_if_update [OF assms(1), of s_open s'] assms(2) by (simp add: j1939_tp_open_def)
  from arg_cong [OF this, of "of_nat :: nat \<Rightarrow> u32"] show ?thesis by (simp split: if_splits)
qed

lemma books_close:
  assumes "books_balance tp" "i < length (tp_s tp)" "s_open (tp_s tp ! i)" "\<not> s_open s'"
    and "tp_s tp' = (tp_s tp)[i := s']"
    and "n_started (tp_st tp') = n_started (tp_st tp)" "ended (tp_st tp') = ended (tp_st tp) + 1"
  shows "books_balance tp'"
  using assms open_update [OF assms(2,5)] by (simp add: books_balance_def)

lemma books_keep:
  assumes "books_balance tp" "i < length (tp_s tp)" "s_open s' = s_open (tp_s tp ! i)"
    and "tp_s tp' = (tp_s tp)[i := s']"
    and "n_started (tp_st tp') = n_started (tp_st tp)" "ended (tp_st tp') = ended (tp_st tp)"
  shows "books_balance tp'"
  using assms open_update [OF assms(2,4)] by (simp add: books_balance_def split: if_splits)

lemma books_same:
  assumes "books_balance tp" "tp_s tp' = tp_s tp"
    and "n_started (tp_st tp') = n_started (tp_st tp)" "ended (tp_st tp') = ended (tp_st tp)"
  shows "books_balance tp'"
  using assms by (simp add: books_balance_def j1939_tp_open_def)

section \<open>The invariant of the receiver\<close>

definition tp_buffers_ok :: "j1939_tp \<Rightarrow> bool" where
  "tp_buffers_ok tp \<longleftrightarrow> length (tp_buf tp) = J1939_TP_SESSIONS \<and>
     (\<forall>i < J1939_TP_SESSIONS. length (tp_buf tp ! i) = J1939_MSG_MAX)"

definition tp_replies_ok :: "j1939_tp \<Rightarrow> bool" where
  "tp_replies_ok tp \<longleftrightarrow> length (tp_reply tp) \<le> J1939_TP_REPLIES \<and>
     list_all (\<lambda>r. length (r_data r) = 8) (tp_reply tp)"

definition tp_inv :: "j1939_tp \<Rightarrow> bool" where
  "tp_inv tp \<longleftrightarrow> sessions_ok (tp_s tp) \<and> tp_buffers_ok tp \<and> tp_replies_ok tp \<and> books_balance tp"

lemma replies_ok_intros:
  "tp_replies_ok tp \<Longrightarrow> length d = 8 \<Longrightarrow> tp_replies_ok (reply_queue tp da d)"
  "tp_replies_ok tp \<Longrightarrow> tp_replies_ok (reply_eoma tp i)"
  "tp_replies_ok tp \<Longrightarrow> tp_replies_ok (reply_abort tp da pgn r)"
  "tp_replies_ok tp \<Longrightarrow> tp_replies_ok (reply_cts tp i)"
  "tp_replies_ok tp \<Longrightarrow> tp_replies_ok (session_close i why tp)"
  "tp_replies_ok tp \<Longrightarrow> tp_replies_ok (announce_open tp i mine sa da d' now)"
  by (auto simp: tp_replies_ok_def reply_queue_def reply_eoma_def reply_abort_def reply_cts_def
      tp_pgn_put_def session_close_def announce_open_def Let_def)

lemma buffers_ok_same: "tp_buffers_ok tp \<Longrightarrow> tp_buf tp' = tp_buf tp \<Longrightarrow> tp_buffers_ok tp'"
  by (simp add: tp_buffers_ok_def)

lemma replies_ok_same: "tp_replies_ok tp \<Longrightarrow> tp_reply tp' = tp_reply tp \<Longrightarrow> tp_replies_ok tp'"
  by (simp add: tp_replies_ok_def)

lemma find_ok:
  assumes "tp_inv tp" "session_find tp sa da = Some i"
  shows "i < length (tp_s tp)" "s_open (tp_s tp ! i)" "s_sa (tp_s tp ! i) = sa"
    "s_da (tp_s tp ! i) = da" "session_ok (tp_s tp ! i)"
    "\<forall>j < length (tp_s tp). j \<noteq> i \<longrightarrow> \<not> session_of sa da (tp_s tp ! j)"
  using assms sessions_ok_find [of "tp_s tp" sa da i] by (auto simp: tp_inv_def session_find_def)

lemma find_none:
  "session_find tp sa da = None \<Longrightarrow> j < length (tp_s tp) \<Longrightarrow> \<not> session_of sa da (tp_s tp ! j)"
  by (auto simp: session_find_def find_idx_None_iff)

text \<open>Closing a session, with or without a reply after it, keeps the invariant.\<close>

lemma inv_close:
  assumes "tp_inv tp" "i < length (tp_s tp)" "s_open (tp_s tp ! i)"
    and "\<And>st. n_started (why st) = n_started st" "\<And>st. ended (why st) = ended st + 1"
  shows "tp_inv (session_close i why tp)"
proof -
  have "books_balance (session_close i why tp)"
    by (rule books_close [of tp i "(tp_s tp ! i)\<lparr>s_open := False\<rparr>"])
      (use assms in \<open>auto simp: tp_inv_def\<close>)
  with assms show ?thesis
    by (auto simp: tp_inv_def intro: sessions_ok_close replies_ok_intros elim: buffers_ok_same)
qed

lemma inv_reply:
  "tp_inv tp \<Longrightarrow> tp_inv (reply_abort tp da pgn r)"
  "tp_inv tp \<Longrightarrow> tp_inv (reply_eoma tp i)"
  by (auto simp: tp_inv_def intro: replies_ok_intros elim: buffers_ok_same books_same)

lemma inv_stat:
  assumes "tp_inv tp" "\<And>st. n_started (f st) = n_started st" "\<And>st. ended (f st) = ended st"
  shows "tp_inv (tp_st_update f tp)"
  using assms
  by (auto simp: tp_inv_def elim: buffers_ok_same replies_ok_same books_same)

lemma ended_updates [simp]:
  "ended (n_bad_cm_update f st) = ended st" "ended (n_orphan_dt_update f st) = ended st"
  "ended (n_no_session_update f st) = ended st" "ended (n_to_me_update f st) = ended st"
  "ended (n_seq_errors_update (\<lambda>n. n + 1) st) = ended st + 1"
  "ended (n_completed_update (\<lambda>n. n + 1) st) = ended st + 1"
  "ended (n_timeouts_update (\<lambda>n. n + 1) st) = ended st + 1"
  "ended (n_aborted_update (\<lambda>n. n + 1) st) = ended st + 1"
  "ended (n_replaced_update (\<lambda>n. n + 1) st) = ended st + 1"
  by (simp_all add: ended_def)

text \<open>Rewriting an open session in place.\<close>

lemma inv_keep:
  assumes "tp_inv tp" "i < length (tp_s tp)" "s_open (tp_s tp ! i)"
    and "session_ok s'" "s_open s'" "s_sa s' = s_sa (tp_s tp ! i)" "s_da s' = s_da (tp_s tp ! i)"
  shows "tp_inv (tp\<lparr>tp_s := (tp_s tp)[i := s']\<rparr>)"
proof -
  have "books_balance (tp\<lparr>tp_s := (tp_s tp)[i := s']\<rparr>)"
    by (rule books_keep [of tp i s']) (use assms in \<open>auto simp: tp_inv_def\<close>)
  with assms show ?thesis
    by (auto simp: tp_inv_def intro: sessions_ok_keep elim: buffers_ok_same replies_ok_same)
qed

section \<open>Every operation keeps the invariant\<close>

lemma announced_session_ok:
  assumes "TP_MIN_BYTES \<le> unat (le16 (d ! 1) (d ! 2))" "unat (le16 (d ! 1) (d ! 2)) \<le> J1939_MSG_MAX"
    and "unat (d ! 3) = (unat (le16 (d ! 1) (d ! 2)) + 6) div 7"
  shows "session_ok (let s = \<lparr>s_open = True, s_mine = mine, s_sa = sa, s_da = da, s_packets = d ! 3,
               s_next = 1, s_cts_max = (if mine \<and> d ! 4 \<noteq> 0 then d ! 4 else 0xFF),
               s_cts_left = 0, s_size = le16 (d ! 1) (d ! 2), s_pgn = cm_pgn d,
               s_last_us = now\<rparr> in if mine then s\<lparr>s_cts_left := cts_window s\<rparr> else s)"
    (is "session_ok (let s = ?s in if mine then ?s' s else s)")
proof -
  have p: "2 \<le> unat (d ! 3)" using assms by linarith
  have m: "1 \<le> unat (s_cts_max ?s)" using unat_gt_0 [of "d ! 4"] by (auto simp: Suc_le_eq)
  from p have "unat (cts_window ?s) = min (unat (d ! 3)) (unat (s_cts_max ?s))"
    using cts_window_bounds [of ?s] m by simp
  then have "1 \<le> unat (cts_window ?s)" "unat (cts_window ?s) \<le> unat (d ! 3)"
    using p m by auto
  with assms p m show ?thesis by (auto simp: session_ok_def Let_def)
qed

lemma inv_announce_open:
  assumes ok: "sessions_ok (tp_s tp)" "tp_buffers_ok tp" "tp_replies_ok tp" and i: "i < length (tp_s tp)"
    and size: "TP_MIN_BYTES \<le> unat (le16 (d ! 1) (d ! 2))" "unat (le16 (d ! 1) (d ! 2)) \<le> J1939_MSG_MAX"
      "unat (d ! 3) = (unat (le16 (d ! 1) (d ! 2)) + 6) div 7"
    and other: "\<forall>j < length (tp_s tp). j \<noteq> i \<longrightarrow> \<not> session_of sa da (tp_s tp ! j)"
    and books: "n_started (tp_st tp) + (if s_open (tp_s tp ! i) then 1 else 0)
        = of_nat (j1939_tp_open tp) + ended (tp_st tp)"
  shows "tp_inv (announce_open tp i mine sa da d now)"
proof -
  define s' where "s' = (let s = \<lparr>s_open = True, s_mine = mine, s_sa = sa, s_da = da, s_packets = d ! 3,
               s_next = 1, s_cts_max = (if mine \<and> d ! 4 \<noteq> 0 then d ! 4 else 0xFF),
               s_cts_left = 0, s_size = le16 (d ! 1) (d ! 2), s_pgn = cm_pgn d,
               s_last_us = now\<rparr> in if mine then s\<lparr>s_cts_left := cts_window s\<rparr> else s)"
  have table: "tp_s (announce_open tp i mine sa da d now) = (tp_s tp)[i := s']"
    using i unfolding s'_def by (rule announce_open_frame)
  have s': "session_ok s'" "s_open s'" "s_sa s' = sa" "s_da s' = da"
    using announced_session_ok [OF size, of mine sa da now] by (simp_all add: s'_def Let_def)
  have "books_balance (announce_open tp i mine sa da d now)"
    using open_update [OF i table] books s'(2) by (auto simp: books_balance_def algebra_simps split: if_splits)
  moreover have "sessions_ok ((tp_s tp)[i := s'])"
    using ok(1) s'(1) other by (intro sessions_ok_new) (simp_all add: s')
  ultimately show ?thesis
    using ok by (auto simp: tp_inv_def table intro: replies_ok_intros elim: buffers_ok_same)
qed

lemma inv_announce:
  assumes "tp_inv tp"
  shows "tp_inv (announce tp sa da d now)"
proof -
  let ?size = "le16 (d ! 1) (d ! 2)"
  let ?bad = "unat ?size < TP_MIN_BYTES \<or> unat ?size > J1939_MSG_MAX \<or>
            unat (d ! 3) \<noteq> (unat ?size + 7 - 1) div 7"
  have parts: "sessions_ok (tp_s tp)" "tp_buffers_ok tp" "tp_replies_ok tp" "books_balance tp"
    using assms by (simp_all add: tp_inv_def)
  show ?thesis
  proof (cases ?bad)
    case True
    then show ?thesis using assms by (auto simp: announce_def Let_def intro!: inv_stat)
  next
    case False
    then have size: "TP_MIN_BYTES \<le> unat ?size" "unat ?size \<le> J1939_MSG_MAX"
      "unat (d ! 3) = (unat ?size + 6) div 7" by auto
    show ?thesis
    proof (cases "session_find tp sa da")
      case (Some i)
      note f = find_ok [OF assms Some]
      let ?tp = "tp_st_update (n_replaced_update (\<lambda>n. n + 1)) tp"
      have "tp_inv (announce_open ?tp i mine sa da d now)" for mine
        using parts f(1,2,6) size
        by (intro inv_announce_open) (auto simp: books_balance_def j1939_tp_open_def
            elim: buffers_ok_same replies_ok_same)
      with False Some show ?thesis by (auto simp: announce_def Let_def)
    next
      case None
      show ?thesis
      proof (cases "session_free tp")
        case free: None
        have "tp_inv (tp_st_update (n_no_session_update (\<lambda>n. n + 1)) tp)"
          using assms by (rule inv_stat) simp_all
        with False None free show ?thesis by (auto simp: announce_def Let_def intro: inv_reply)
      next
        case (Some i)
        then have "i < length (tp_s tp)" "\<not> s_open (tp_s tp ! i)"
          using find_idx_SomeD by (fastforce simp: session_free_def)+
        then have "tp_inv (announce_open tp i mine sa da d now)" for mine
          using parts size find_none [OF None] by (intro inv_announce_open) (auto simp: books_balance_def)
        with False None Some show ?thesis by (auto simp: announce_def Let_def)
      qed
    qed
  qed
qed

lemma inv_close_stat:
  assumes "tp_inv tp" "i < length (tp_s tp)" "s_open (tp_s tp ! i)"
  shows "tp_inv (session_close i (n_seq_errors_update (\<lambda>n. n + 1)) tp)"
    "tp_inv (session_close i (n_aborted_update (\<lambda>n. n + 1)) tp)"
    "tp_inv (session_close i (n_completed_update (\<lambda>n. n + 1)) tp)"
    "tp_inv (session_close i (n_timeouts_update (\<lambda>n. n + 1)) tp)"
  using assms by (auto intro: inv_close)

lemma inv_cm:
  assumes "tp_inv tp"
  shows "tp_inv (j1939_tp_cm tp sa da d now)"
proof -
  have bad: "tp_inv (tp_st_update (n_bad_cm_update (\<lambda>n. n + 1)) tp)"
    using assms by (rule inv_stat) simp_all
  have close: "tp_inv (session_close i (n_seq_errors_update (\<lambda>n. n + 1)) tp)"
    "tp_inv (session_close i (n_aborted_update (\<lambda>n. n + 1)) tp)"
    if "session_find tp x y = Some i" for i x y
    using inv_close_stat [OF assms] find_ok [OF assms that] by auto
  have cts: "tp_inv (tp\<lparr>tp_s := (tp_s tp)[i := (tp_s tp ! i)\<lparr>s_last_us := now\<rparr>]\<rparr>)"
    and move: "1 \<le> b \<Longrightarrow> b \<le> s_next (tp_s tp ! i) \<Longrightarrow>
      tp_inv (tp\<lparr>tp_s := (tp_s tp)[i := (tp_s tp ! i)\<lparr>s_last_us := now, s_next := b\<rparr>]\<rparr>)"
    if "session_find tp da sa = Some i" for i b
  proof -
    note f = find_ok [OF assms that]
    show "tp_inv (tp\<lparr>tp_s := (tp_s tp)[i := (tp_s tp ! i)\<lparr>s_last_us := now\<rparr>]\<rparr>)"
      using assms f by (intro inv_keep) (auto simp: session_ok_def)
    assume "1 \<le> b" "b \<le> s_next (tp_s tp ! i)"
    then have "1 \<le> unat b" "unat b \<le> unat (s_next (tp_s tp ! i))"
      by (simp_all add: word_le_nat_alt)
    then show "tp_inv (tp\<lparr>tp_s := (tp_s tp)[i := (tp_s tp ! i)\<lparr>s_last_us := now, s_next := b\<rparr>]\<rparr>)"
      using assms f by (intro inv_keep) (auto simp: session_ok_def)
  qed
  have lost: "tp_inv (session_close i (n_seq_errors_update (\<lambda>n. n + 1))
      (tp\<lparr>tp_s := (tp_s tp)[i := (tp_s tp ! i)\<lparr>s_last_us := now\<rparr>]\<rparr>))"
    if "session_find tp da sa = Some i" for i
    using cts [OF that] find_ok [OF assms that] by (intro inv_close_stat) auto
  show ?thesis
    unfolding j1939_tp_cm_def Let_def
    using assms bad close cts move lost inv_announce [OF assms]
    by (auto split: option.splits)
qed

text \<open>The place of a packet: inside the announced size, hence inside the buffer.\<close>

lemma dt_place:
  assumes "session_ok s"
  shows "unat (dt_off s) = (unat (s_next s) - 1) * 7"
    "unat (dt_len s) = min 7 (unat (s_size s) - (unat (s_next s) - 1) * 7)"
    "(unat (s_next s) - 1) * 7 < unat (s_size s)"
proof -
  have next1: "1 \<le> unat (s_next s)" and nextp: "unat (s_next s) \<le> unat (s_packets s)"
    and p: "unat (s_packets s) = (unat (s_size s) + 6) div 7" and sz: "unat (s_size s) \<le> 1785"
    using assms by (auto simp: session_ok_def)
  have n255: "unat (s_next s) < 256" by (rule unat_u8_less)
  have "(1 :: u32) \<le> ucast (s_next s)" using next1 by (simp add: word_le_nat_alt)
  then have m: "unat (ucast (s_next s) - 1 :: u32) = unat (s_next s) - 1" by (simp add: unat_sub)
  show off: "unat (dt_off s) = (unat (s_next s) - 1) * 7"
    unfolding dt_off_def
    by (subst unat_mult_lem [THEN iffD1]) (use m n255 in simp_all)
  show lt: "(unat (s_next s) - 1) * 7 < unat (s_size s)" using next1 nextp p by linarith
  have "dt_off s \<le> ucast (s_size s)" using off lt by (simp add: word_le_nat_alt)
  then have "unat (ucast (s_size s) - dt_off s) = unat (s_size s) - (unat (s_next s) - 1) * 7"
    using off by (simp add: unat_sub)
  then show "unat (dt_len s) = min 7 (unat (s_size s) - (unat (s_next s) - 1) * 7)"
    by (auto simp: dt_len_def Let_def word_less_nat_alt min_def)
qed

lemma splice_place:
  assumes "session_ok s" "length d = 8" "length b = J1939_MSG_MAX"
  shows "length (blit (unat (dt_off s)) (take (unat (dt_len s)) (drop 1 d)) b) = J1939_MSG_MAX"
proof -
  have "unat (dt_off s) + unat (dt_len s) \<le> unat (s_size s)"
    using dt_place [OF assms(1)] by linarith
  then show ?thesis using assms by (subst length_blit) (auto simp: session_ok_def)
qed

lemma inv_reply_cts:
  assumes "tp_inv tp" "i < length (tp_s tp)" "s_open (tp_s tp ! i)" 
  shows "tp_inv (reply_cts tp i)"
proof -
  let ?s = "(tp_s tp ! i)\<lparr>s_cts_left := cts_window (tp_s tp ! i)\<rparr>"
  have ok: "session_ok (tp_s tp ! i)" using assms by (auto simp: tp_inv_def sessions_ok_def)
  have "session_ok ?s"
  proof (cases "s_mine (tp_s tp ! i)")
    case True
    with ok cts_window_bounds [of "tp_s tp ! i"] show ?thesis by (auto simp: session_ok_def)
  next
    case False
    with ok show ?thesis by (simp add: session_ok_def)
  qed
  with assms have "sessions_ok ((tp_s tp)[i := ?s])"
    by (intro sessions_ok_keep) (auto simp: tp_inv_def)
  moreover have "books_balance (reply_cts tp i)"
    by (rule books_keep [of tp i ?s]) (use assms in \<open>auto simp: tp_inv_def\<close>)
  ultimately show ?thesis
    using assms by (auto simp: tp_inv_def intro: replies_ok_intros elim: buffers_ok_same)
qed

lemma inv_packet:
  assumes "tp_inv tp" "i < length (tp_s tp)" "s_open (tp_s tp ! i)" "length d = 8"
    and "session_ok s'" "s_open s'" "s_sa s' = s_sa (tp_s tp ! i)" "s_da s' = s_da (tp_s tp ! i)"
  shows "tp_inv (tp\<lparr>tp_buf := (tp_buf tp)[i := blit (unat (dt_off (tp_s tp ! i)))
      (take (unat (dt_len (tp_s tp ! i))) (drop 1 d)) (tp_buf tp ! i)],
      tp_s := (tp_s tp)[i := s']\<rparr>)" (is "tp_inv (tp\<lparr>tp_buf := ?b, tp_s := _\<rparr>)")
proof -
  have ok: "session_ok (tp_s tp ! i)" and len: "length (tp_buf tp ! i) = J1939_MSG_MAX"
    using assms by (auto simp: tp_inv_def sessions_ok_def tp_buffers_ok_def)
  have "tp_buffers_ok (tp\<lparr>tp_buf := ?b, tp_s := (tp_s tp)[i := s']\<rparr>)"
    using assms splice_place [OF ok assms(4) len]
    by (auto simp: tp_inv_def tp_buffers_ok_def nth_update_cases)
  with inv_keep [OF assms(1,2,3,5,6,7,8)] show ?thesis
    by (auto simp: tp_inv_def elim: replies_ok_same books_same)
qed

lemma inv_dt:
  assumes inv: "tp_inv tp"
  shows "tp_inv (fst (j1939_tp_dt tp sa da d now))"
proof (cases "session_find tp sa da")
  case None
  with inv show ?thesis by (auto simp: j1939_tp_dt_def intro!: inv_stat)
next
  case (Some i)
  note f = find_ok [OF inv Some]
  let ?s = "tp_s tp ! i"
  show ?thesis
  proof (cases "length d \<noteq> 8 \<or> d ! 0 \<noteq> s_next ?s")
    case True
    with Some inv_close_stat [OF inv f(1,2)] show ?thesis
      by (auto simp: j1939_tp_dt_def Let_def intro: inv_reply)
  next
    case False
    then have d: "length d = 8" "d ! 0 = s_next ?s" by auto
    define tp1 where "tp1 s' = tp\<lparr>tp_buf := (tp_buf tp)[i := blit (unat (dt_off ?s))
      (take (unat (dt_len ?s)) (drop 1 d)) (tp_buf tp ! i)], tp_s := (tp_s tp)[i := s']\<rparr>" for s'
    have keep: "tp_inv (tp1 s')" if "session_ok s'" "s_open s'" "s_sa s' = s_sa ?s" "s_da s' = s_da ?s" for s'
      unfolding tp1_def using inv f(1,2) d(1) that by (intro inv_packet)
    have tab: "tp_s (tp1 s') = (tp_s tp)[i := s']" for s' by (simp add: tp1_def)
    show ?thesis
    proof (cases "s_next ?s < s_packets ?s")
      case more: True
      then have step: "unat (s_next ?s + 1) = unat (s_next ?s) + 1"
        and lt: "unat (s_next ?s) < unat (s_packets ?s)"
        using unat_u8_less [of "s_packets ?s"]
        by (simp_all add: word_less_nat_alt unat_word_ariths(1))
      show ?thesis
      proof (cases "s_mine ?s \<and> s_cts_left ?s > 0")
        case True
        let ?s3 = "?s\<lparr>s_last_us := now, s_next := s_next ?s + 1, s_cts_left := s_cts_left ?s - 1\<rparr>"
        have dec: "unat (s_cts_left ?s - 1) = unat (s_cts_left ?s) - 1"
          using True by (simp add: unat_minus_one word_neq_0_conv)
        show ?thesis
        proof (cases "s_cts_left ?s - 1 = 0")
          case zero: True
          let ?s4 = "?s\<lparr>s_last_us := now, s_next := s_next ?s + 1, s_cts_left := 1\<rparr>"
          have "tp_inv (tp1 ?s4)" using f step lt by (intro keep) (auto simp: session_ok_def)
          then have "tp_inv (reply_cts (tp1 ?s4) i)" using f by (intro inv_reply_cts) (auto simp: tab)
          moreover have "reply_cts (tp1 ?s4) i = reply_cts (tp1 ?s3) i"
            using f(1) by (simp add: tp1_def reply_cts_def cts_window_def Let_def)
          moreover have "fst (j1939_tp_dt tp sa da d now) = reply_cts (tp1 ?s3) i"
            using Some d more True zero by (auto simp: j1939_tp_dt_def Let_def tp1_def)
          ultimately show ?thesis by simp
        next
          case False
          then have "0 < unat (s_cts_left ?s - 1)" using unat_gt_0 by blast
          then have "tp_inv (tp1 ?s3)" using f dec step lt True
            by (intro keep) (auto simp: session_ok_def)
          then show ?thesis
            using Some d more True False by (simp add: j1939_tp_dt_def Let_def tp1_def)
        qed
      next
        case False
        let ?s2 = "?s\<lparr>s_last_us := now, s_next := s_next ?s + 1\<rparr>"
        have idle: "\<not> s_mine ?s" using False f(5) by (auto simp: session_ok_def word_less_nat_alt)
        then have "tp_inv (tp1 ?s2)" using f step lt by (intro keep) (auto simp: session_ok_def)
        then show ?thesis
          using Some d more idle by (simp add: j1939_tp_dt_def Let_def tp1_def)
      qed
    next
      case False
      let ?s1 = "?s\<lparr>s_last_us := now\<rparr>"
      have "tp_inv (tp1 ?s1)" using f by (intro keep) (auto simp: session_ok_def)
      then have "tp_inv (session_close i (n_completed_update (\<lambda>n. n + 1)) (tp1 ?s1))"
        using f by (intro inv_close_stat) (auto simp: tab)
      with Some d False show ?thesis
        by (auto simp: j1939_tp_dt_def Let_def tp1_def intro: inv_reply)
    qed
  qed
qed

lemma inv_expire_one:
  assumes "tp_inv tp" "i < J1939_TP_SESSIONS"
  shows "tp_inv (tp_expire_one now i tp)"
proof -
  have "i < length (tp_s tp)" using assms by (simp add: tp_inv_def sessions_ok_def)
  with assms show ?thesis
    by (auto simp: tp_expire_one_def Let_def intro: inv_reply inv_close_stat)
qed

lemma inv_expire:
  assumes "tp_inv tp"
  shows "tp_inv (j1939_tp_expire tp now)"
proof -
  have "list_all (\<lambda>i. i < J1939_TP_SESSIONS) is \<Longrightarrow> tp_inv (fold (tp_expire_one now) is tp)" for "is"
    using assms by (induction "is" arbitrary: tp) (auto intro: inv_expire_one)
  then show ?thesis by (auto simp: j1939_tp_expire_def list_all_iff)
qed

lemma inv_take: "tp_inv tp \<Longrightarrow> tp_inv (fst (j1939_tp_reply_take tp))"
  by (auto simp: j1939_tp_reply_take_def tp_inv_def tp_replies_ok_def split: list.splits
      elim: buffers_ok_same books_same)

lemma inv_set_address: "tp_inv tp \<Longrightarrow> tp_inv (j1939_tp_set_address tp a)"
  by (auto simp: j1939_tp_set_address_def tp_inv_def elim: buffers_ok_same books_same replies_ok_same)

lemma inv_init: "tp_buffers_ok tp \<Longrightarrow> tp_inv (j1939_tp_init tp)"
  by (auto simp: tp_inv_def j1939_tp_init_def sessions_ok_def tp_replies_ok_def books_balance_def
      j1939_tp_open_def empty_session_def zero_stats_def ended_def elim: buffers_ok_same)

section \<open>Runs\<close>

text \<open>What the caller (\<^verbatim>\<open>j1939.c\<close>) does with the receiver, in any order.\<close>

datatype tp_event =
    TpCm u8 u8 bytes int
  | TpDt u8 u8 bytes int
  | TpExpire int
  | TpTake
  | TpAddress u8

fun tp_step :: "tp_event \<Rightarrow> j1939_tp \<Rightarrow> j1939_tp" where
  "tp_step (TpCm sa da d now) tp = j1939_tp_cm tp sa da d now"
| "tp_step (TpDt sa da d now) tp = fst (j1939_tp_dt tp sa da d now)"
| "tp_step (TpExpire now) tp = j1939_tp_expire tp now"
| "tp_step TpTake tp = fst (j1939_tp_reply_take tp)"
| "tp_step (TpAddress a) tp = j1939_tp_set_address tp a"

interpretation tpm: machine tp_step "\<lambda>_. True" tp_inv
proof
  fix e tp
  assume "tp_inv tp"
  then show "tp_inv (tp_step e tp)"
    by (cases e) (auto intro: inv_cm inv_dt inv_expire inv_take inv_set_address)
qed

definition tp_run :: "j1939_tp \<Rightarrow> tp_event list \<Rightarrow> j1939_tp" where
  "tp_run tp es = fold tp_step es (j1939_tp_init tp)"

lemma tp_run_inv: "tp_buffers_ok tp \<Longrightarrow> tp_inv (tp_run tp es)"
  unfolding tp_run_def by (intro tpm.run_inv inv_init) (simp_all add: list_all_iff)

text \<open>C12. After any sequence of operations every transport session that was started is open or
  was counted exactly once as completed, lost in sequence, timed out, aborted or replaced
  (modulo the counters' width).\<close>

theorem tp_books_balance:
  assumes "tp_buffers_ok tp"
  shows "n_started (tp_st (tp_run tp es)) =
     of_nat (j1939_tp_open (tp_run tp es)) + n_completed (tp_st (tp_run tp es)) +
     n_seq_errors (tp_st (tp_run tp es)) + n_timeouts (tp_st (tp_run tp es)) +
     n_aborted (tp_st (tp_run tp es)) + n_replaced (tp_st (tp_run tp es))"
  using tp_run_inv [OF assms, of es] by (simp add: tp_inv_def books_balance_def ended_def)

text \<open>C11. After any sequence of operations the next packet of every open transport session lies
  inside the announced size and inside the session's 1785-byte buffer, it carries at least
  one byte of the message, and a session addressed to this node has always cleared at least
  one and at most the missing packets.\<close>

theorem tp_sessions_in_bounds:
  assumes "tp_buffers_ok tp" and "i < J1939_TP_SESSIONS" and "s_open (tp_s (tp_run tp es) ! i)"
  defines "s \<equiv> tp_s (tp_run tp es) ! i"
  shows "unat (dt_off s) + unat (dt_len s) \<le> unat (s_size s) \<and> 1 \<le> unat (dt_len s) \<and>
    unat (s_size s) \<le> length (tp_buf (tp_run tp es) ! i) \<and>
    (s_mine s \<longrightarrow> 1 \<le> unat (s_cts_left s) \<and>
       unat (s_next s) + unat (s_cts_left s) \<le> unat (s_packets s) + 1)"
proof -
  have ok: "session_ok s" and b: "length (tp_buf (tp_run tp es) ! i) = J1939_MSG_MAX"
    using tp_run_inv [OF assms(1), of es] assms(2,3)
    by (auto simp: s_def tp_inv_def sessions_ok_def tp_buffers_ok_def)
  have "unat (dt_off s) + unat (dt_len s) \<le> unat (s_size s)" "1 \<le> unat (dt_len s)"
    using dt_place [OF ok] by linarith+
  with ok b show ?thesis by (auto simp: session_ok_def)
qed

section \<open>A broadcast message is put back together\<close>

text \<open>The sender's side of J1939-21: the announce, and packet \<open>k\<close> (from 0) of a message.\<close>

definition packets_of :: "bytes \<Rightarrow> nat" where
  "packets_of m = (length m + 6) div 7"

definition bam_frame :: "bytes \<Rightarrow> u32 \<Rightarrow> bytes" where
  "bam_frame m pgn =
     [J1939_TP_CTRL_BAM, of_nat (length m mod 256), of_nat (length m div 256),
      of_nat (packets_of m), 0xFF] @ tp_pgn_put pgn"

definition dt_frame :: "bytes \<Rightarrow> nat \<Rightarrow> bytes" where
  "dt_frame m k = of_nat (Suc k) # take 7 (drop (7 * k) m @ replicate 7 0xFF)"

text \<open>The frames that concern the pair, and the rest of the bus, which may come in between.\<close>

fun about :: "u8 \<Rightarrow> u8 \<Rightarrow> tp_event \<Rightarrow> bool" where
  "about sa da (TpCm x y d now) \<longleftrightarrow> (x = sa \<and> y = da) \<or> (x = da \<and> y = sa)"
| "about sa da (TpDt x y d now) \<longleftrightarrow> x = sa \<and> y = da"
| "about sa da _ \<longleftrightarrow> False"

fun timely :: "int \<Rightarrow> tp_event \<Rightarrow> bool" where
  "timely t (TpExpire now) \<longleftrightarrow> now - t \<le> J1939_TP_TIMEOUT_US"
| "timely t _ \<longleftrightarrow> True"

text \<open>\<open>transfer sa da m k t es k' t'\<close>: from \<open>k\<close> packets sent, the last at \<open>t\<close>, the events
  \<open>es\<close> bring it to \<open>k'\<close> packets, the last at \<open>t'\<close>; packets come in order, anything else
  that is not about the pair may come between them, and the sender is not timed out.\<close>

inductive transfer :: "u8 \<Rightarrow> u8 \<Rightarrow> bytes \<Rightarrow> nat \<Rightarrow> int \<Rightarrow> tp_event list \<Rightarrow> nat \<Rightarrow> int \<Rightarrow> bool"
  for sa da m where
  stop: "transfer sa da m k t [] k t"
| packet: "Suc k < packets_of m \<Longrightarrow> transfer sa da m (Suc k) now es k' t' \<Longrightarrow>
     transfer sa da m k t (TpDt sa da (dt_frame m k) now # es) k' t'"
| other: "\<not> about sa da e \<Longrightarrow> timely t e \<Longrightarrow> transfer sa da m k t es k' t' \<Longrightarrow>
     transfer sa da m k t (e # es) k' t'"

text \<open>The state of session \<open>i\<close> while the message passes.\<close>

definition carrying ::
  "nat \<Rightarrow> u8 \<Rightarrow> u8 \<Rightarrow> bytes \<Rightarrow> u32 \<Rightarrow> nat \<Rightarrow> int \<Rightarrow> j1939_tp \<Rightarrow> bool" where
  "carrying i sa da m pgn k t tp \<longleftrightarrow>
     tp_inv tp \<and> i < J1939_TP_SESSIONS \<and>
     session_of sa da (tp_s tp ! i) \<and> \<not> s_mine (tp_s tp ! i) \<and>
     s_packets (tp_s tp ! i) = of_nat (packets_of m) \<and> s_next (tp_s tp ! i) = of_nat (Suc k) \<and>
     s_size (tp_s tp ! i) = of_nat (length m) \<and> s_pgn (tp_s tp ! i) = pgn \<and>
     s_last_us (tp_s tp ! i) = t \<and> take (7 * k) (tp_buf tp ! i) = take (7 * k) m"

lemma carrying_find:
  assumes "carrying i sa da m pgn k t tp"
  shows "session_find tp x y = Some i \<longleftrightarrow> x = sa \<and> y = da" "i < length (tp_s tp)"
proof -
  have inv: "tp_inv tp" and i: "i < length (tp_s tp)" and so: "session_of sa da (tp_s tp ! i)"
    using assms by (auto simp: carrying_def tp_inv_def sessions_ok_def)
  then obtain j where j: "session_find tp sa da = Some j"
    unfolding session_find_def by (metis find_idx_None_iff nth_mem not_Some_eq)
  from find_ok(6) [OF inv j] i so have "j = i" by auto
  with j find_ok(3,4) [OF inv, of x y i] so
  show "session_find tp x y = Some i \<longleftrightarrow> x = sa \<and> y = da" by (auto simp: session_of_def)
  from i show "i < length (tp_s tp)" .
qed

text \<open>Whatever is not about the pair leaves its session and its buffer as they are.\<close>

definition still :: "nat \<Rightarrow> j1939_tp \<Rightarrow> j1939_tp \<Rightarrow> bool" where
  "still i tp tp' \<longleftrightarrow> tp_s tp' ! i = tp_s tp ! i \<and> tp_buf tp' ! i = tp_buf tp ! i"

lemma still_branch:
  "still i tp a \<Longrightarrow> still i tp b \<Longrightarrow> still i tp (if c then a else b)"
  "still i tp a \<Longrightarrow> (\<And>j. x = Some j \<Longrightarrow> still i tp (f j)) \<Longrightarrow>
     still i tp (case x of None \<Rightarrow> a | Some j \<Rightarrow> f j)"
  by (simp_all split: option.splits)

lemma still_announce:
  assumes "carrying i sa da m pgn k t tp" "(x, y) \<noteq> (sa, da)"
  shows "still i tp (announce tp x y d now)"
proof -
  have "session_free tp \<noteq> Some i"
    using assms(1) find_idx_SomeD [of _ "tp_s tp" i]
    by (fastforce simp: session_free_def carrying_def session_of_def)
  moreover have "session_find tp x y \<noteq> Some i" using carrying_find(1) [OF assms(1)] assms(2) by auto
  ultimately show ?thesis
    by (auto simp: announce_def Let_def still_def announce_open_def split: option.splits)
qed

lemma still_cm:
  assumes "carrying i sa da m pgn k t tp" "(x, y) \<noteq> (sa, da)" "(y, x) \<noteq> (sa, da)"
  shows "still i tp (j1939_tp_cm tp x y d now)"
proof -
  have n: "session_find tp x y = Some j \<Longrightarrow> j \<noteq> i" "session_find tp y x = Some j \<Longrightarrow> j \<noteq> i" for j
    using carrying_find(1) [OF assms(1)] assms(2,3) by auto
  show ?thesis
    unfolding j1939_tp_cm_def Let_def
    by (intro still_branch still_announce [OF assms(1,2)])
      (use n in \<open>auto simp: still_def split: option.splits\<close>)
qed

lemma still_dt:
  assumes "carrying i sa da m pgn k t tp" "(x, y) \<noteq> (sa, da)"
  shows "still i tp (fst (j1939_tp_dt tp x y d now))"
proof -
  have "session_find tp x y \<noteq> Some i" using carrying_find(1) [OF assms(1)] assms(2) by auto
  then show ?thesis
    by (auto simp: j1939_tp_dt_def Let_def still_def split: option.splits)
qed

lemma still_expire:
  assumes "now - s_last_us (tp_s tp ! i) \<le> J1939_TP_TIMEOUT_US"
  shows "still i tp (j1939_tp_expire tp now)"
proof -
  have one: "still i tp (tp_expire_one now j tp)"
    if "now - s_last_us (tp_s tp ! i) \<le> J1939_TP_TIMEOUT_US" for j tp
    using that by (cases "j = i") (auto simp: tp_expire_one_def still_def Let_def)
  have "still i tp (fold (tp_expire_one now) js tp)" for js
    using assms
  proof (induction js arbitrary: tp)
    case Nil
    then show ?case by (simp add: still_def)
  next
    case (Cons j js)
    with one [OF Cons.prems, of j] show ?case by (auto simp: still_def)
  qed
  then show ?thesis by (simp add: j1939_tp_expire_def)
qed

lemma carrying_other:
  assumes c: "carrying i sa da m pgn k t tp" and e: "\<not> about sa da e" "timely t e"
  shows "carrying i sa da m pgn k t (tp_step e tp)"
proof -
  have "still i tp (tp_step e tp)"
  proof (cases e)
    case (TpCm x y d now)
    with e show ?thesis by (auto intro: still_cm [OF c])
  next
    case (TpDt x y d now)
    with e show ?thesis by (auto intro: still_dt [OF c])
  next
    case (TpExpire now)
    with c e show ?thesis by (auto intro: still_expire simp: carrying_def)
  qed (simp_all add: still_def j1939_tp_reply_take_def j1939_tp_set_address_def split: list.splits)
  moreover have "tp_inv (tp_step e tp)" using c by (auto simp: carrying_def intro: tpm.step_inv)
  ultimately show ?thesis using c by (simp add: carrying_def still_def)
qed

text \<open>A packet of the message: the bytes it adds, and what the machine does with it.\<close>

lemma carrying_place:
  assumes c: "carrying i sa da m pgn k t tp" and m: "length m \<le> J1939_MSG_MAX" and k: "k < packets_of m"
  shows "dt_frame m k ! 0 = s_next (tp_s tp ! i)" "length (dt_frame m k) = 8"
    "blit (unat (dt_off (tp_s tp ! i))) (take (unat (dt_len (tp_s tp ! i))) (drop 1 (dt_frame m k)))
        (tp_buf tp ! i) = blit (7 * k) (take 7 (drop (7 * k) m)) (tp_buf tp ! i)"
    "7 * k + length (take 7 (drop (7 * k) m)) \<le> length (tp_buf tp ! i)"
proof -
  let ?s = "tp_s tp ! i"
  have ok: "session_ok ?s" and b: "length (tp_buf tp ! i) = J1939_MSG_MAX"
    using c by (auto simp: carrying_def tp_inv_def sessions_ok_def session_of_def tp_buffers_ok_def)
  have p: "packets_of m \<le> 255" using m unfolding packets_of_def by linarith
  have "unat (of_nat (Suc k) :: u8) = Suc k"
    by (rule unat_of_nat_small) (use k p in simp)
  then have next1: "unat (s_next ?s) = Suc k" using c by (simp add: carrying_def)
  have "unat (of_nat (length m) :: u16) = length m"
    by (rule unat_of_nat_small) (use m in simp)
  then have size: "unat (s_size ?s) = length m" using c by (simp add: carrying_def)
  show "dt_frame m k ! 0 = s_next ?s" using c by (simp add: dt_frame_def carrying_def)
  show "length (dt_frame m k) = 8" by (simp add: dt_frame_def)
  have off: "unat (dt_off ?s) = 7 * k" and len: "unat (dt_len ?s) = min 7 (length m - 7 * k)"
    using dt_place [OF ok] next1 size by simp_all
  have "take (min 7 (length m - 7 * k)) (drop 1 (dt_frame m k)) = take 7 (drop (7 * k) m)"
    by (simp add: dt_frame_def min_def take_append)
  with off len show "blit (unat (dt_off ?s)) (take (unat (dt_len ?s)) (drop 1 (dt_frame m k)))
      (tp_buf tp ! i) = blit (7 * k) (take 7 (drop (7 * k) m)) (tp_buf tp ! i)" by simp
  have "7 * k < length m" using k by (simp add: packets_of_def)
  then show "7 * k + length (take 7 (drop (7 * k) m)) \<le> length (tp_buf tp ! i)" using b m by simp
qed

lemma carrying_packet:
  assumes c: "carrying i sa da m pgn k t tp" and m: "length m \<le> J1939_MSG_MAX"
    and k: "Suc k < packets_of m"
  shows "carrying i sa da m pgn (Suc k) now (tp_step (TpDt sa da (dt_frame m k) now) tp)"
proof -
  let ?s = "tp_s tp ! i"
  note place = carrying_place [OF c m, of]
  have p: "packets_of m \<le> 255" using m unfolding packets_of_def by linarith
  have u: "unat (of_nat n :: u8) = n" if "n \<le> 255" for n
    by (rule unat_of_nat_small) (use that in simp)
  have "unat (s_next ?s) = Suc k" "unat (s_packets ?s) = packets_of m"
    using c u [of "Suc k"] u [of "packets_of m"] k p by (simp_all add: carrying_def)
  then have more: "s_next ?s < s_packets ?s" using k by (simp add: word_less_nat_alt)
  have full: "take 7 (drop (7 * k) m) = take (7 * Suc k - 7 * k) (drop (7 * k) m)" by simp
  have len: "length (take 7 (drop (7 * k) m)) = 7" using k by (simp add: packets_of_def)
  have find: "session_find tp sa da = Some i" using carrying_find(1) [OF c] by simp
  have "take (7 * k + 7) (blit (7 * k) (take 7 (drop (7 * k) m)) (tp_buf tp ! i)) = take (7 * k + 7) m"
    using take_blit [of "7 * k" "tp_buf tp ! i" "take 7 (drop (7 * k) m)"] place(4) c k len
    by (simp add: carrying_def take_add)
  moreover have "tp_inv (tp_step (TpDt sa da (dt_frame m k) now) tp)"
    using c by (auto simp: carrying_def intro: inv_dt)
  moreover have "length (tp_buf tp) = J1939_TP_SESSIONS" "length (tp_s tp) = J1939_TP_SESSIONS"
    using c by (auto simp: carrying_def tp_inv_def tp_buffers_ok_def sessions_ok_def)
  ultimately show ?thesis
    using c more place k
    by (simp add: carrying_def session_of_def j1939_tp_dt_def find Let_def add.commute)
qed

lemma carrying_transfer:
  assumes "transfer sa da m k t es k' t'" "length m \<le> J1939_MSG_MAX"
    and "carrying i sa da m pgn k t tp"
  shows "carrying i sa da m pgn k' t' (fold tp_step es tp)"
  using assms
proof (induction arbitrary: tp rule: transfer.induct)
  case (stop k t)
  then show ?case by simp
next
  case (packet k now es k' t' t)
  then show ?case using carrying_packet by fastforce
next
  case (other e t k es k' t')
  then show ?case using carrying_other by fastforce
qed

text \<open>The announce opens the session, and the last packet hands the message over.\<close>

lemma tp_pgn_put_read:
  assumes "unat pgn < 2 ^ 18"
  shows "le24 (tp_pgn_put pgn ! 0) (tp_pgn_put pgn ! 1) (tp_pgn_put pgn ! 2) = pgn"
  unfolding le24_def tp_pgn_put_def
  by (rule bit_word_eqI) (auto simp: wsimps masks dest: bit_imp_le_length; drule bit_bounded [OF assms]; simp)

lemma bam_frame_fields:
  assumes "length m \<le> J1939_MSG_MAX" "unat pgn < 2 ^ 18"
  shows "length (bam_frame m pgn) = 8" "bam_frame m pgn ! 0 = J1939_TP_CTRL_BAM"
    "le16 (bam_frame m pgn ! 1) (bam_frame m pgn ! 2) = of_nat (length m)"
    "bam_frame m pgn ! 3 = of_nat (packets_of m)" "cm_pgn (bam_frame m pgn) = pgn"
proof -
  have "le16 (of_nat (length m mod 256)) (of_nat (length m div 256)) = of_nat (length m)"
  proof -
    let ?w = "of_nat (length m) :: u16"
    have w: "unat ?w = length m" by (rule unat_of_nat_small) (use assms(1) in simp)
    have "byte_of 0 ?w = of_nat (length m mod 256)" "byte_of (Suc 0) ?w = of_nat (length m div 256)"
      unfolding byte_of_def using assms(1)
      by (simp_all add: word_unat_eq_iff unat_to_u8 w unat_of_nat unat_drop_bit_eq drop_bit_eq_div [where 'a = nat])
    then show ?thesis using le16_byte_of [of ?w] by simp
  qed
  then show "le16 (bam_frame m pgn ! 1) (bam_frame m pgn ! 2) = of_nat (length m)"
    by (simp add: bam_frame_def)
  show "cm_pgn (bam_frame m pgn) = pgn"
    using tp_pgn_put_read [OF assms(2)] by (simp add: cm_pgn_def bam_frame_def)
qed (simp_all add: bam_frame_def tp_pgn_put_def)

lemma carrying_announce:
  assumes inv: "tp_inv tp" and m: "TP_MIN_BYTES \<le> length m" "length m \<le> J1939_MSG_MAX"
    and pgn: "unat pgn < 2 ^ 18"
    and room: "session_find tp sa J1939_ADDR_GLOBAL \<noteq> None \<or> session_free tp \<noteq> None"
  shows "\<exists>i. carrying i sa J1939_ADDR_GLOBAL m pgn 0 t
     (j1939_tp_cm tp sa J1939_ADDR_GLOBAL (bam_frame m pgn) t)"
proof -
  let ?d = "bam_frame m pgn"
  note fields = bam_frame_fields [OF m(2) pgn, simplified]
  have size: "unat (of_nat (length m) :: u16) = length m"
    by (rule unat_of_nat_small) (use m in simp)
  have "packets_of m < 256" using m(2) unfolding packets_of_def by linarith
  then have packets: "unat (of_nat (packets_of m) :: u8) = (length m + 6) div 7"
    using unat_of_nat_small [of "packets_of m", where 'a = 8] by (simp add: packets_of_def)
  have "tp_inv (j1939_tp_cm tp sa J1939_ADDR_GLOBAL ?d t)" by (rule inv_cm [OF inv])
  moreover obtain i tp' where i: "i < J1939_TP_SESSIONS" and tp': "length (tp_s tp') = J1939_TP_SESSIONS"
    and open_i: "j1939_tp_cm tp sa J1939_ADDR_GLOBAL ?d t
      = announce_open tp' i False sa J1939_ADDR_GLOBAL ?d t"
  proof -
    have cm: "j1939_tp_cm tp sa J1939_ADDR_GLOBAL ?d t = announce tp sa J1939_ADDR_GLOBAL ?d t"
      by (simp add: j1939_tp_cm_def fields)
    have len: "length (tp_s tp) = J1939_TP_SESSIONS" using inv by (simp add: tp_inv_def sessions_ok_def)
    show ?thesis
    proof (cases "session_find tp sa J1939_ADDR_GLOBAL")
      case (Some i)
      with find_ok(1) [OF inv Some] len m show ?thesis
        by (intro that [of i "tp_st_update (n_replaced_update (\<lambda>n. n + 1)) tp"])
          (simp_all add: cm announce_def Let_def fields size packets)
    next
      case None
      with room obtain i where free: "session_free tp = Some i" by auto
      with None find_idx_SomeD len m show ?thesis
        by (intro that [of i tp])
          (fastforce simp: cm announce_def Let_def fields size packets session_free_def)+
    qed
  qed
  ultimately show ?thesis
    by (intro exI [of _ i])
      (simp add: carrying_def announce_open_def Let_def fields session_of_def)
qed

lemma carrying_last:
  assumes c: "carrying i sa da m pgn k t tp" and m: "length m \<le> J1939_MSG_MAX"
    and k: "Suc k = packets_of m"
  shows "snd (j1939_tp_dt tp sa da (dt_frame m k) now) =
     Some \<lparr>m_pgn = pgn, m_sa = sa, m_da = da, m_data = m\<rparr>"
proof -
  let ?s = "tp_s tp ! i"
  have k1: "k < packets_of m" using k by simp
  note place = carrying_place [OF c m k1]
  have size: "unat (of_nat (length m) :: u16) = length m"
    by (rule unat_of_nat_small) (use m in simp)
  have find: "session_find tp sa da = Some i" using carrying_find(1) [OF c] by simp
  have "7 * k + length (take 7 (drop (7 * k) m)) = length m" using k by (auto simp: packets_of_def)
  then have "take (length m) (blit (7 * k) (take 7 (drop (7 * k) m)) (tp_buf tp ! i)) = m"
    using take_blit [of "7 * k" "tp_buf tp ! i" "take 7 (drop (7 * k) m)"] place(4) c
    by (simp add: carrying_def flip: take_add)
  moreover have "length (tp_buf tp) = J1939_TP_SESSIONS" "length (tp_s tp) = J1939_TP_SESSIONS"
    using c by (auto simp: carrying_def tp_inv_def tp_buffers_ok_def sessions_ok_def)
  ultimately show ?thesis
    using c place k size
    by (simp add: carrying_def session_of_def j1939_tp_dt_def find Let_def)
qed

text \<open>C2. A broadcast message of 9 to 1785 bytes whose announce finds room in the session table is
  handed over byte for byte by its last data packet, whatever other sessions, other senders,
  time-out scans and replies come between its packets, as long as its own packets come in
  order and are not timed out.\<close>

theorem tp_broadcast_delivered:
  assumes "tp_buffers_ok tp0" and "TP_MIN_BYTES \<le> length m" and "length m \<le> J1939_MSG_MAX"
    and "unat pgn < 2 ^ 18"
    and "session_find (tp_run tp0 before) sa J1939_ADDR_GLOBAL \<noteq> None \<or>
         session_free (tp_run tp0 before) \<noteq> None"
    and "transfer sa J1939_ADDR_GLOBAL m 0 t es k t'" and "Suc k = packets_of m"
  shows "snd (j1939_tp_dt
       (tp_run tp0 (before @ TpCm sa J1939_ADDR_GLOBAL (bam_frame m pgn) t # es))
       sa J1939_ADDR_GLOBAL (dt_frame m k) now)
     = Some \<lparr>m_pgn = pgn, m_sa = sa, m_da = J1939_ADDR_GLOBAL, m_data = m\<rparr>"
proof -
  obtain i where "carrying i sa J1939_ADDR_GLOBAL m pgn 0 t
      (j1939_tp_cm (tp_run tp0 before) sa J1939_ADDR_GLOBAL (bam_frame m pgn) t)"
    using carrying_announce [OF tp_run_inv [OF assms(1)] assms(2-5)] by blast
  from carrying_transfer [OF assms(6,3) this] show ?thesis
    by (simp add: tp_run_def carrying_last [OF _ assms(3,7)])
qed

section \<open>Witnesses\<close>

definition tp0 :: j1939_tp where
  "tp0 = \<lparr>tp_s = [], tp_buf = replicate J1939_TP_SESSIONS (replicate J1939_MSG_MAX 0),
     tp_st = zero_stats, tp_my_sa = 0, tp_reply = []\<rparr>"

lemma tp0_buffers: "tp_buffers_ok tp0"
  by (simp add: tp0_def tp_buffers_ok_def)

definition tp_wit :: "tp_event list" where
  "tp_wit = [TpAddress 5, TpCm 1 5 [16, 20, 0, 3, 2, 0xCA, 0xFE, 0] 0]"

lemma tp_books_balance_witness:
  "n_started (tp_st (tp_run tp0 tp_wit)) =
     of_nat (j1939_tp_open (tp_run tp0 tp_wit)) + n_completed (tp_st (tp_run tp0 tp_wit)) +
     n_seq_errors (tp_st (tp_run tp0 tp_wit)) + n_timeouts (tp_st (tp_run tp0 tp_wit)) +
     n_aborted (tp_st (tp_run tp0 tp_wit)) + n_replaced (tp_st (tp_run tp0 tp_wit))"
  by (rule tp_books_balance [OF tp0_buffers])

lemma tp_wit_open: "s_open (tp_s (tp_run tp0 tp_wit) ! 0)"
  by code_simp

lemma tp_sessions_in_bounds_witness:
  "unat (dt_off (tp_s (tp_run tp0 tp_wit) ! 0)) + unat (dt_len (tp_s (tp_run tp0 tp_wit) ! 0))
     \<le> unat (s_size (tp_s (tp_run tp0 tp_wit) ! 0))"
  using tp_sessions_in_bounds [OF tp0_buffers, of 0 tp_wit] tp_wit_open by simp

lemma tp_broadcast_delivered_witness:
  "snd (j1939_tp_dt
       (tp_run tp0 ([] @ TpCm 1 J1939_ADDR_GLOBAL (bam_frame [1, 2, 3, 4, 5, 6, 7, 8, 9] 0xFECA) 0
          # [TpTake, TpDt 1 255 (dt_frame [1, 2, 3, 4, 5, 6, 7, 8, 9] 0) 50000]))
       1 J1939_ADDR_GLOBAL (dt_frame [1, 2, 3, 4, 5, 6, 7, 8, 9] 1) 100000)
     = Some \<lparr>m_pgn = 0xFECA, m_sa = 1, m_da = 255, m_data = [1, 2, 3, 4, 5, 6, 7, 8, 9]\<rparr>"
proof (rule tp_broadcast_delivered [OF tp0_buffers, where k = 1 and t' = 50000])
  show "session_find (tp_run tp0 []) 1 J1939_ADDR_GLOBAL \<noteq> None \<or> session_free (tp_run tp0 []) \<noteq> None"
    by code_simp
  show "transfer 1 J1939_ADDR_GLOBAL [1, 2, 3, 4, 5, 6, 7, 8, 9] 0 0
      [TpTake, TpDt 1 255 (dt_frame [1, 2, 3, 4, 5, 6, 7, 8, 9] 0) 50000] 1 50000"
    by (intro transfer.intros) (auto simp: packets_of_def intro: transfer.packet transfer.stop)
qed (simp_all add: packets_of_def)

end
