(* ===== verification/J1939_Claim.thy ===== *)
theory J1939_Claim
  imports J1939_Ident
begin

text \<open>
  \<^verbatim>\<open>components/j1939/j1939_claim_core.c\<close> and \<^verbatim>\<open>j1939_claim_core.h\<close>: the NAME of a node and
  the address claim of J1939-81. A NAME is the list of its eight bytes, least significant
  first. The frame a function may fill is a result: \<open>o_send\<close> says whether there is one.
\<close>

abbreviation (input) J1939_CLAIM_WAIT_US :: int where "J1939_CLAIM_WAIT_US \<equiv> 250000"
abbreviation (input) J1939_CLAIM_DEFEND_HOLD_US :: int where "J1939_CLAIM_DEFEND_HOLD_US \<equiv> 250000"
abbreviation (input) J1939_CLAIM_ADDR_MIN :: u8 where "J1939_CLAIM_ADDR_MIN \<equiv> 128"
abbreviation (input) J1939_CLAIM_ADDR_MAX :: u8 where "J1939_CLAIM_ADDR_MAX \<equiv> 247"
abbreviation (input) J1939_CLAIM_TOOL_2 :: u8 where "J1939_CLAIM_TOOL_2 \<equiv> 250"

section \<open>NAME\<close>

definition j1939_name_build :: "u32 \<Rightarrow> u16 \<Rightarrow> u8 \<Rightarrow> bool \<Rightarrow> bytes" where
  "j1939_name_build identity manufacturer func arbitrary =
     (let n = ucast (identity AND 0x1FFFFF) OR push_bit 21 (ucast (manufacturer AND 0x7FF)) OR
              push_bit 40 (ucast func) OR push_bit 63 (if arbitrary then 1 else 0 :: u64)
      in map (\<lambda>i. byte_of i n) [0..<8])"

text \<open>The loop of \<open>j1939_name_compare\<close>, from the last byte down: its argument are the bytes
  in the order it looks at them.\<close>

fun name_compare_from :: "bytes \<Rightarrow> bytes \<Rightarrow> int" where
  "name_compare_from (a # as) (b # bs) =
     (if a \<noteq> b then (if a < b then -1 else 1) else name_compare_from as bs)"
| "name_compare_from _ _ = 0"

definition j1939_name_compare :: "bytes \<Rightarrow> bytes \<Rightarrow> int" where
  "j1939_name_compare a b = name_compare_from (rev a) (rev b)"

section \<open>The claim\<close>

datatype j1939_claim_state =
    J1939_CLAIM_IDLE
  | J1939_CLAIM_CLAIMING
  | J1939_CLAIM_CLAIMED
  | J1939_CLAIM_CANNOT

record j1939_claim_stats =
  c_claims_sent :: u32
  c_contests :: u32
  c_won :: u32
  c_lost :: u32
  c_held :: u32
  c_requests :: u32
  c_cannot :: u32

record j1939_claim =
  c_state :: j1939_claim_state
  c_name :: bytes
  c_preferred :: u8
  c_sa :: u8
  c_next_dyn :: u8
  c_tried_tool2 :: bool
  c_sent_us :: int
  c_defended_us :: int
  c_stats :: j1939_claim_stats

record j1939_claim_out =
  o_send :: bool
  o_sa :: u8
  o_data :: bytes

definition out_claim :: "j1939_claim \<Rightarrow> u8 \<Rightarrow> j1939_claim_out" where
  "out_claim c sa = \<lparr>o_send = True, o_sa = sa, o_data = c_name c\<rparr>"

definition out_none :: j1939_claim_out where
  "out_none = \<lparr>o_send = False, o_sa = J1939_ADDR_NULL, o_data = replicate 8 0xFF\<rparr>"

definition claim_addr :: "j1939_claim \<Rightarrow> u8 \<Rightarrow> int \<Rightarrow> j1939_claim \<times> j1939_claim_out" where
  "claim_addr c sa now_us =
     (let c1 = c\<lparr>c_state := J1939_CLAIM_CLAIMING, c_sa := sa, c_sent_us := now_us,
                 c_defended_us := 0, c_stats := c_claims_sent_update (\<lambda>n. n + 1) (c_stats c)\<rparr>
      in (c1, out_claim c1 sa))"

definition claim_cannot :: "j1939_claim \<Rightarrow> j1939_claim \<times> j1939_claim_out" where
  "claim_cannot c =
     (let c1 = c\<lparr>c_state := J1939_CLAIM_CANNOT, c_sa := J1939_ADDR_NULL,
                 c_stats := c_cannot_update (\<lambda>n. n + 1) (c_stats c)\<rparr>
      in (c1, out_claim c1 J1939_ADDR_NULL))"

text \<open>The loop of \<open>next_candidate\<close> over the dynamic range: the candidate, and \<open>next_dyn\<close>
  after it.\<close>

function claim_dynamic :: "u8 \<Rightarrow> u8 \<Rightarrow> u8 \<times> u8" where
  "claim_dynamic preferred next_dyn =
     (if next_dyn \<le> J1939_CLAIM_ADDR_MAX
      then (if next_dyn \<noteq> preferred then (next_dyn, next_dyn + 1)
            else claim_dynamic preferred (next_dyn + 1))
      else (J1939_ADDR_NULL, next_dyn))"
  by pat_completeness auto
termination
  by (relation "measure (\<lambda>(_, n). 248 - unat n)") (auto simp: word_le_nat_alt unat_word_ariths(1))

declare claim_dynamic.simps [simp del]

definition next_candidate :: "j1939_claim \<Rightarrow> u8 \<Rightarrow> j1939_claim \<times> u8" where
  "next_candidate c lost =
     (if \<not> c_tried_tool2 c \<and> c_preferred c \<noteq> J1939_CLAIM_TOOL_2 \<and> lost \<noteq> J1939_CLAIM_TOOL_2
      then (c\<lparr>c_tried_tool2 := True\<rparr>, J1939_CLAIM_TOOL_2)
      else let (a, n) = claim_dynamic (c_preferred c) (c_next_dyn c)
           in (c\<lparr>c_tried_tool2 := True, c_next_dyn := n\<rparr>, a))"

definition j1939_claim_init :: "bytes \<Rightarrow> u8 \<Rightarrow> j1939_claim" where
  "j1939_claim_init name preferred =
     \<lparr>c_state = J1939_CLAIM_IDLE, c_name = name, c_preferred = preferred, c_sa = J1939_ADDR_NULL,
      c_next_dyn = J1939_CLAIM_ADDR_MIN, c_tried_tool2 = False, c_sent_us = 0, c_defended_us = 0,
      c_stats = \<lparr>c_claims_sent = 0, c_contests = 0, c_won = 0, c_lost = 0, c_held = 0,
                 c_requests = 0, c_cannot = 0\<rparr>\<rparr>"

definition j1939_claim_start :: "j1939_claim \<Rightarrow> int \<Rightarrow> j1939_claim \<times> j1939_claim_out" where
  "j1939_claim_start c now_us =
     claim_addr (c\<lparr>c_next_dyn := J1939_CLAIM_ADDR_MIN, c_tried_tool2 := False\<rparr>) (c_preferred c) now_us"

definition j1939_claim_tick :: "j1939_claim \<Rightarrow> int \<Rightarrow> j1939_claim" where
  "j1939_claim_tick c now_us =
     (if c_state c = J1939_CLAIM_CLAIMING \<and> now_us - c_sent_us c \<ge> J1939_CLAIM_WAIT_US
      then c\<lparr>c_state := J1939_CLAIM_CLAIMED\<rparr> else c)"

definition j1939_claim_rx ::
  "j1939_claim \<Rightarrow> u8 \<Rightarrow> bytes \<Rightarrow> int \<Rightarrow> j1939_claim \<times> j1939_claim_out" where
  "j1939_claim_rx c sa name now_us =
     (if (c_state c \<noteq> J1939_CLAIM_CLAIMING \<and> c_state c \<noteq> J1939_CLAIM_CLAIMED) \<or>
         sa \<noteq> c_sa c \<or> sa = J1939_ADDR_NULL
      then (c, out_none)
      else
        let c1 = c\<lparr>c_stats := c_contests_update (\<lambda>n. n + 1) (c_stats c)\<rparr> in
        if j1939_name_compare (c_name c1) name \<le> 0 then
          let c2 = c1\<lparr>c_stats := c_won_update (\<lambda>n. n + 1) (c_stats c1)\<rparr> in
          if c_defended_us c2 \<noteq> 0 \<and> now_us - c_defended_us c2 < J1939_CLAIM_DEFEND_HOLD_US
          then (c2\<lparr>c_stats := c_held_update (\<lambda>n. n + 1) (c_stats c2)\<rparr>, out_none)
          else let c3 = c2\<lparr>c_defended_us := now_us,
                            c_stats := c_claims_sent_update (\<lambda>n. n + 1) (c_stats c2)\<rparr>
               in (c3, out_claim c3 (c_sa c3))
        else
          let c2 = c1\<lparr>c_stats := c_lost_update (\<lambda>n. n + 1) (c_stats c1)\<rparr>;
              (c3, next) = next_candidate c2 (c_sa c2)
          in if next = J1939_ADDR_NULL then claim_cannot c3 else claim_addr c3 next now_us)"

definition j1939_claim_request :: "j1939_claim \<Rightarrow> int \<Rightarrow> j1939_claim \<times> j1939_claim_out" where
  "j1939_claim_request c now_us =
     (case c_state c of
        J1939_CLAIM_CANNOT \<Rightarrow>
          (let c1 = c\<lparr>c_stats := (c_requests_update (\<lambda>n. n + 1) \<circ> c_cannot_update (\<lambda>n. n + 1)) (c_stats c)\<rparr>
           in (c1, out_claim c1 J1939_ADDR_NULL))
      | J1939_CLAIM_IDLE \<Rightarrow> (c, out_none)
      | _ \<Rightarrow>
          (let c1 = c\<lparr>c_stats := (c_requests_update (\<lambda>n. n + 1) \<circ> c_claims_sent_update (\<lambda>n. n + 1)) (c_stats c)\<rparr>
           in (c1, out_claim c1 (c_sa c1))))"

definition j1939_claim_ready :: "j1939_claim \<Rightarrow> bool" where
  "j1939_claim_ready c \<longleftrightarrow> c_state c = J1939_CLAIM_CLAIMED"

fun j1939_claim_state_name :: "j1939_claim_state \<Rightarrow> string" where
  "j1939_claim_state_name J1939_CLAIM_CLAIMING = ''claiming''"
| "j1939_claim_state_name J1939_CLAIM_CLAIMED = ''claimed''"
| "j1939_claim_state_name J1939_CLAIM_CANNOT = ''cannot_claim''"
| "j1939_claim_state_name J1939_CLAIM_IDLE = ''idle''"

section \<open>NAMEs are ordered by their number\<close>

typedef j1939_name = "{b :: bytes. length b = 8}"
  morphisms name_bytes Name
  by (rule exI [of _ "replicate 8 0"]) simp

lemma length_name_bytes [simp]: "length (name_bytes x) = 8"
  using name_bytes [of x] by simp

instantiation j1939_name :: linorder
begin

definition less_eq_j1939_name :: "j1939_name \<Rightarrow> j1939_name \<Rightarrow> bool" where
  "x \<le> y \<longleftrightarrow> le_nat (name_bytes x) \<le> le_nat (name_bytes y)"

definition less_j1939_name :: "j1939_name \<Rightarrow> j1939_name \<Rightarrow> bool" where
  "x < y \<longleftrightarrow> le_nat (name_bytes x) < le_nat (name_bytes y)"

instance
proof
  fix x y z :: j1939_name
  show "x < y \<longleftrightarrow> x \<le> y \<and> \<not> y \<le> x" by (auto simp: less_j1939_name_def less_eq_j1939_name_def)
  show "x \<le> x" by (simp add: less_eq_j1939_name_def)
  show "x \<le> y \<Longrightarrow> y \<le> z \<Longrightarrow> x \<le> z" by (simp add: less_eq_j1939_name_def)
  show "x \<le> y \<or> y \<le> x" by (auto simp: less_eq_j1939_name_def)
  assume "x \<le> y" "y \<le> x"
  then have "le_nat (name_bytes x) = le_nat (name_bytes y)"
    unfolding less_eq_j1939_name_def by (rule order.antisym)
  then have "name_bytes x = name_bytes y"
    by (subst (asm) le_nat_inject) simp_all
  then show "x = y" by (rule name_bytes_inject [THEN iffD1])
qed

end

lemma name_compare_from_spec:
  "length as = length bs \<Longrightarrow>
     name_compare_from as bs = (if le_nat (rev as) < le_nat (rev bs) then -1
       else if le_nat (rev bs) < le_nat (rev as) then 1 else 0)"
proof (induction as bs rule: list_induct2)
  case Nil
  then show ?case by simp
next
  case (Cons a as b bs)
  have bound: "le_nat (rev as) < 256 ^ length as" "le_nat (rev bs) < 256 ^ length as"
    using le_nat_less [of "rev as"] le_nat_less [of "rev bs"] Cons.hyps by simp_all
  have digit: "m + K * i < n + K * j" if "m < K" "i < j" for m n K i j :: nat
  proof -
    have "m + K * i < K * Suc i" using that(1) by simp
    also have "\<dots> \<le> K * j" using that(2) by (intro mult_le_mono2) simp
    finally show ?thesis by simp
  qed
  show ?case
  proof (cases "a = b")
    case True
    with Cons show ?thesis by (simp add: le_nat_append)
  next
    case False
    with Cons.hyps digit [OF bound(1), of "unat a" "unat b" "le_nat (rev bs)"]
      digit [OF bound(2), of "unat b" "unat a" "le_nat (rev as)"]
    show ?thesis
      by (auto simp: le_nat_append word_less_nat_alt word_unat_eq_iff neq_iff)
  qed
qed

lemma name_compare_spec:
  "j1939_name_compare (name_bytes x) (name_bytes y) = (if x < y then -1 else if x = y then 0 else 1)"
proof -
  have "x = y \<longleftrightarrow> le_nat (name_bytes x) = le_nat (name_bytes y)"
    by (simp add: le_nat_inject name_bytes_inject)
  then show ?thesis
    by (auto simp: j1939_name_compare_def name_compare_from_spec less_j1939_name_def)
qed

section \<open>The number a NAME is built as\<close>

definition name_number :: "u32 \<Rightarrow> u16 \<Rightarrow> u8 \<Rightarrow> bool \<Rightarrow> nat" where
  "name_number identity manufacturer func arbitrary =
     unat identity mod 2 ^ 21 + 2 ^ 21 * (unat manufacturer mod 2 ^ 11) + 2 ^ 40 * unat func +
     (if arbitrary then 2 ^ 63 else 0)"

lemma name_build_number:
  "le_nat (j1939_name_build identity manufacturer func arbitrary) =
     name_number identity manufacturer func arbitrary"
proof -
  let ?a = "ucast (identity AND 0x1FFFFF) :: u64" and ?b = "push_bit 21 (ucast (manufacturer AND 0x7FF)) :: u64"
    and ?c = "push_bit 40 (ucast func) :: u64" and ?d = "push_bit 63 (if arbitrary then 1 else 0) :: u64"
  have m: "(0x1FFFFF :: u32) = mask 21" "(0x7FF :: u16) = mask 11" by (simp_all add: mask_eq_exp_minus_1)
  have dis: "?a AND ?b = 0" "(?a OR ?b) AND ?c = 0" "((?a OR ?b) OR ?c) AND ?d = 0"
    by (rule bit_word_eqI; auto simp: wsimps m dest: bit_imp_le_length split: if_splits)+
  have f: "unat func < 256" and man: "unat manufacturer mod 2 ^ 11 < 2 ^ 11" by (simp_all add: unat_u8_less)
  have "x AND mask k = take_bit k x" for k and x :: "'a::len word" by (simp add: take_bit_eq_mask)
  note masks = this
  have a: "unat ?a = unat identity mod 2 ^ 21"
    by (simp add: m masks unsigned_ucast_eq unsigned_take_bit_eq take_bit_eq_mod [where 'a = nat])
  have b: "unat ?b = 2 ^ 21 * (unat manufacturer mod 2 ^ 11)"
    using man by (simp add: m masks unsigned_ucast_eq unsigned_take_bit_eq unsigned_push_bit_eq
      take_bit_eq_mod [where 'a = nat] push_bit_eq_mult [where 'a = nat])
  have c: "unat ?c = 2 ^ 40 * unat func"
    using f by (simp add: unsigned_push_bit_eq take_bit_eq_mod [where 'a = nat] push_bit_eq_mult [where 'a = nat])
  have d: "unat ?d = (if arbitrary then 2 ^ 63 else 0)"
    by (simp add: unsigned_push_bit_eq take_bit_eq_mod [where 'a = nat] push_bit_eq_mult [where 'a = nat])
  have add: "unat (x OR y) = unat x + unat y" if "x AND y = 0" "unat x + unat y < 18446744073709551616" for x y :: u64
    using that disjunctive_add_eq_or [of x y] unat_add_lem [of x y] by simp
  have la: "unat ?a < 2097152" unfolding a by simp
  have lb: "unat ?b \<le> 4292870144" unfolding b using man by simp
  have lc: "unat ?c \<le> 280375465082880" unfolding c using f by simp
  have ld: "unat ?d \<le> 9223372036854775808" unfolding d by simp
  have ab: "unat (?a OR ?b) = unat ?a + unat ?b"
    by (rule add [OF dis(1)]) (use la lb in linarith)
  have abc: "unat ((?a OR ?b) OR ?c) = unat (?a OR ?b) + unat ?c"
    by (rule add [OF dis(2)]) (unfold ab, use la lb lc in linarith)
  have "unat (((?a OR ?b) OR ?c) OR ?d) = unat ((?a OR ?b) OR ?c) + unat ?d"
    by (rule add [OF dis(3)]) (unfold abc ab, use la lb lc ld in linarith)
  then have "unat (?a OR ?b OR ?c OR ?d) = unat ?a + unat ?b + unat ?c + unat ?d"
    unfolding abc ab by (simp only: or.assoc)
  moreover have "le_nat (map (\<lambda>i. byte_of i w) [0..<8]) = unat w" for w :: u64
    using unsigned_less [of w, where 'a = nat] by (simp add: le_nat_bytes_of)
  ultimately show ?thesis
    unfolding j1939_name_build_def Let_def name_number_def by (simp only: a b c d)
qed

lemma length_name_build [simp]: "length (j1939_name_build i m f a) = 8"
  by (simp add: j1939_name_build_def Let_def)

theorem name_priority:
  "(j1939_name_compare (j1939_name_build i m f a) (j1939_name_build i' m' f' a') < 0 \<longleftrightarrow>
      name_number i m f a < name_number i' m' f' a') \<and>
   (j1939_name_compare (j1939_name_build i m f a) (j1939_name_build i' m' f' a') = 0 \<longleftrightarrow>
      j1939_name_build i m f a = j1939_name_build i' m' f' a')"
proof -
  have "j1939_name_build i m f a = j1939_name_build i' m' f' a' \<longleftrightarrow>
      name_number i m f a = name_number i' m' f' a'"
    using le_nat_inject [of "j1939_name_build i m f a" "j1939_name_build i' m' f' a'"]
    by (simp add: name_build_number)
  then show ?thesis
    by (simp add: j1939_name_compare_def name_compare_from_spec name_build_number)
qed

section \<open>The addresses in the order they are tried\<close>

datatype claim_event =
    ClaimTick int
  | ClaimRx u8 bytes int
  | ClaimRequest int

fun claim_step :: "claim_event \<Rightarrow> j1939_claim \<Rightarrow> j1939_claim" where
  "claim_step (ClaimTick now) c = j1939_claim_tick c now"
| "claim_step (ClaimRx sa name now) c = fst (j1939_claim_rx c sa name now)"
| "claim_step (ClaimRequest now) c = fst (j1939_claim_request c now)"

text \<open>A node that was started, and what happened to it since.\<close>

definition claim_run :: "bytes \<Rightarrow> u8 \<Rightarrow> int \<Rightarrow> claim_event list \<Rightarrow> j1939_claim" where
  "claim_run name preferred now es =
     fold claim_step es (fst (j1939_claim_start (j1939_claim_init name preferred) now))"

text \<open>The specification: the preferred address, tool 2, then the dynamic range upwards.\<close>

definition claim_dynamics :: "u8 \<Rightarrow> nat \<Rightarrow> u8 list" where
  "claim_dynamics preferred n = filter (\<lambda>a. a \<noteq> preferred) (map of_nat [n..<248])"

definition claim_order :: "u8 \<Rightarrow> u8 list" where
  "claim_order preferred =
     preferred # (if preferred = J1939_CLAIM_TOOL_2 then [] else [J1939_CLAIM_TOOL_2]) @
     claim_dynamics preferred 128"

text \<open>What \<open>next_candidate\<close> still has to offer.\<close>

definition candidates_left :: "j1939_claim \<Rightarrow> u8 list" where
  "candidates_left c =
     (if c_tried_tool2 c \<or> c_preferred c = J1939_CLAIM_TOOL_2 then [] else [J1939_CLAIM_TOOL_2]) @
     claim_dynamics (c_preferred c) (unat (c_next_dyn c))"

lemma claim_dynamic_list:
  "(case claim_dynamics preferred (unat n) of
      [] \<Rightarrow> fst (claim_dynamic preferred n) = J1939_ADDR_NULL \<and>
            claim_dynamics preferred (unat (snd (claim_dynamic preferred n))) = []
    | a # as \<Rightarrow> fst (claim_dynamic preferred n) = a \<and> a \<noteq> J1939_ADDR_NULL \<and>
            claim_dynamics preferred (unat (snd (claim_dynamic preferred n))) = as)"
proof (induction preferred n rule: claim_dynamic.induct)
  case (1 preferred n)
  show ?case
  proof (cases "n \<le> 247")
    case True
    then have lt: "unat n < 248" and suc: "unat (n + 1) = Suc (unat n)"
      by (auto simp: word_le_nat_alt unat_word_ariths(1))
    from True have "n \<noteq> 254" by auto
    with 1 True lt suc show ?thesis
      by (subst (1 2 3 4) claim_dynamic.simps) (auto simp: claim_dynamics_def upt_conv_Cons split: list.splits)
  next
    case False
    then have "\<not> unat n < 248" by (simp add: word_le_nat_alt)
    with False show ?thesis
      by (subst (1 2 3 4) claim_dynamic.simps) (auto simp: claim_dynamics_def)
  qed
qed

lemma next_candidate_list:
  assumes "c_tried_tool2 c \<or> c_preferred c = J1939_CLAIM_TOOL_2 \<or> lost \<noteq> J1939_CLAIM_TOOL_2"
    and "next_candidate c lost = (c', a)"
  shows "case candidates_left c of
      [] \<Rightarrow> a = J1939_ADDR_NULL \<and> candidates_left c' = []
    | x # xs \<Rightarrow> a = x \<and> x \<noteq> J1939_ADDR_NULL \<and> candidates_left c' = xs"
    "c_tried_tool2 c'" "c_preferred c' = c_preferred c"
  using assms claim_dynamic_list [of "c_preferred c" "c_next_dyn c"]
  by (auto simp: next_candidate_def candidates_left_def split: prod.splits if_splits list.splits)

lemma claim_order_facts:
  assumes "preferred \<noteq> J1939_ADDR_NULL"
  shows "distinct (claim_order preferred)" "J1939_ADDR_NULL \<notin> set (claim_order preferred)"
    "length (claim_order preferred) \<le> 122"
proof -
  have small: "unat (of_nat k :: u8) = k" if "k < 248" for k
    by (rule unat_of_nat_small) (use that in simp)
  then have inj: "inj_on (of_nat :: nat \<Rightarrow> u8) {n..<248}" for n
    by (intro inj_on_inverseI [where g = unat]) simp
  have dyn: "distinct (claim_dynamics preferred n)" "length (claim_dynamics preferred n) \<le> 248 - n" for n
    using inj [of n] by (auto simp: claim_dynamics_def distinct_map intro: order.trans [OF length_filter_le])
  have high: "w \<notin> set (claim_dynamics preferred n)" if "248 \<le> unat w" for w n
    using that small by (fastforce simp: claim_dynamics_def)
  have "J1939_CLAIM_TOOL_2 \<notin> set (claim_dynamics preferred 128)"
    "J1939_ADDR_NULL \<notin> set (claim_dynamics preferred 128)" "preferred \<notin> set (claim_dynamics preferred 128)"
    by (rule high, simp)+ (simp only: claim_dynamics_def set_filter, blast)
  with dyn [of 128] assms show "distinct (claim_order preferred)" "J1939_ADDR_NULL \<notin> set (claim_order preferred)"
    "length (claim_order preferred) \<le> 122"
    by (auto simp: claim_order_def)
qed

definition claim_inv :: "bytes \<Rightarrow> u8 \<Rightarrow> j1939_claim \<Rightarrow> bool" where
  "claim_inv name preferred c \<longleftrightarrow>
     c_name c = name \<and> c_preferred c = preferred \<and>
     c_contests (c_stats c) = c_won (c_stats c) + c_lost (c_stats c) \<and>
     (let n = unat (c_lost (c_stats c)) in
        n < length (claim_order preferred) \<and> c_state c \<in> {J1939_CLAIM_CLAIMING, J1939_CLAIM_CLAIMED} \<and>
        c_sa c = claim_order preferred ! n \<and> candidates_left c = drop (Suc n) (claim_order preferred) \<and>
        (c_tried_tool2 c \<or> preferred = J1939_CLAIM_TOOL_2 \<or> c_sa c \<noteq> J1939_CLAIM_TOOL_2)
      \<or> n = length (claim_order preferred) \<and> c_state c = J1939_CLAIM_CANNOT \<and> c_sa c = J1939_ADDR_NULL)"

lemma claim_inv_start:
  "preferred \<noteq> J1939_ADDR_NULL \<Longrightarrow>
     claim_inv name preferred (fst (j1939_claim_start (j1939_claim_init name preferred) now))"
  by (auto simp: claim_inv_def j1939_claim_start_def j1939_claim_init_def claim_addr_def Let_def
      candidates_left_def claim_order_def)

lemma next_candidate_frame:
  "next_candidate c lost = (c', a) \<Longrightarrow> c_stats c' = c_stats c \<and> c_name c' = c_name c"
  by (auto simp: next_candidate_def split: prod.splits if_splits)

lemma claim_inv_lose:
  assumes pref: "preferred \<noteq> J1939_ADDR_NULL" and inv: "claim_inv name preferred c"
    and active: "c_state c = J1939_CLAIM_CLAIMING \<or> c_state c = J1939_CLAIM_CLAIMED"
    and nc: "next_candidate c2 (c_sa c2) = (c3, a)"
    and c2: "c2 = c\<lparr>c_stats := (c_lost_update (\<lambda>n. n + 1) \<circ> c_contests_update (\<lambda>n. n + 1)) (c_stats c)\<rparr>"
  shows "claim_inv name preferred (fst (if a = J1939_ADDR_NULL then claim_cannot c3 else claim_addr c3 a now))"
proof -
  let ?o = "claim_order preferred"
  define n where "n = unat (c_lost (c_stats c))"
  from inv active have n: "n < length ?o" "candidates_left c = drop (Suc n) ?o"
    "c_tried_tool2 c \<or> preferred = J1939_CLAIM_TOOL_2 \<or> c_sa c \<noteq> J1939_CLAIM_TOOL_2"
    and pr: "c_preferred c = preferred" and nm: "c_name c = name"
    and books: "c_contests (c_stats c) = c_won (c_stats c) + c_lost (c_stats c)"
    by (auto simp: claim_inv_def n_def Let_def)
  have lost: "unat (c_lost (c_stats c3)) = Suc n"
    using next_candidate_frame [OF nc] n(1) claim_order_facts(3) [OF pref]
    by (simp add: c2 n_def unat_word_ariths(1))
  have left: "candidates_left c2 = drop (Suc n) ?o"
    using n by (simp add: c2 candidates_left_def)
  have "c_tried_tool2 c2 \<or> c_preferred c2 = J1939_CLAIM_TOOL_2 \<or> c_sa c2 \<noteq> J1939_CLAIM_TOOL_2"
    using n pr by (simp add: c2)
  note cand = next_candidate_list [OF this nc, unfolded left]
  have frame: "c_stats c3 = c_stats c2" "c_name c3 = name" "c_preferred c3 = preferred"
    using next_candidate_frame [OF nc] cand pr nm by (simp_all add: c2)
  show ?thesis
  proof (cases "Suc n < length ?o")
    case True
    then have "drop (Suc n) ?o = ?o ! Suc n # drop (Suc (Suc n)) ?o" by (simp add: Cons_nth_drop_Suc)
    with cand True lost frame books show ?thesis
      by (auto simp: claim_inv_def claim_addr_def Let_def candidates_left_def c2)
  next
    case False
    with n(1) have "Suc n = length ?o" by simp
    with cand lost frame books show ?thesis
      by (auto simp: claim_inv_def claim_cannot_def Let_def c2)
  qed
qed

lemma claim_inv_step:
  assumes pref: "preferred \<noteq> J1939_ADDR_NULL" and inv: "claim_inv name preferred c"
  shows "claim_inv name preferred (claim_step e c)"
proof (cases e)
  case (ClaimTick now)
  with inv show ?thesis
    by (auto simp: claim_inv_def j1939_claim_tick_def candidates_left_def Let_def)
next
  case (ClaimRequest now)
  with inv show ?thesis
    by (auto simp: claim_inv_def j1939_claim_request_def candidates_left_def Let_def
        split: j1939_claim_state.splits)
next
  case (ClaimRx sa nm now)
  have won: "claim_inv name preferred (c\<lparr>c_defended_us := d, c_stats := st\<rparr>)"
    if "c_contests st = c_contests (c_stats c) + 1" "c_won st = c_won (c_stats c) + 1"
      "c_lost st = c_lost (c_stats c)" for d st
  proof -
    have "candidates_left (c\<lparr>c_defended_us := d, c_stats := st\<rparr>) = candidates_left c"
      by (simp add: candidates_left_def)
    with inv that show ?thesis by (simp add: claim_inv_def)
  qed
  have same: "c\<lparr>c_stats := st\<rparr> = c\<lparr>c_defended_us := c_defended_us c, c_stats := st\<rparr>" for st by simp
  have held: "claim_inv name preferred (c\<lparr>c_stats := st\<rparr>)"
    if "c_contests st = c_contests (c_stats c) + 1" "c_won st = c_won (c_stats c) + 1"
      "c_lost st = c_lost (c_stats c)" for st
    unfolding same by (rule won) (use that in simp_all)
  let ?nc = "next_candidate (c\<lparr>c_stats := (c_lost_update (\<lambda>n. n + 1) \<circ> c_contests_update (\<lambda>n. n + 1))
    (c_stats c)\<rparr>) (c_sa c)"
  obtain c3 a where nc: "?nc = (c3, a)" by fastforce
  show ?thesis
  proof (cases "(c_state c = J1939_CLAIM_CLAIMING \<or> c_state c = J1939_CLAIM_CLAIMED) \<and>
      sa = c_sa c \<and> sa \<noteq> J1939_ADDR_NULL")
    case True
    show ?thesis
    proof (cases "j1939_name_compare (c_name c) nm \<le> 0")
      case le: True
      with True ClaimRx show ?thesis
        by (auto simp: j1939_claim_rx_def Let_def intro!: won held)
    next
      case False
      with True ClaimRx claim_inv_lose [OF pref inv _ _ refl, of c3 a now] nc show ?thesis
        by (auto simp: j1939_claim_rx_def Let_def split: if_splits)
    qed
  next
    case False
    with inv ClaimRx show ?thesis by (auto simp: j1939_claim_rx_def)
  qed
qed

text \<open>The claim as a machine with a finite supply of addresses.\<close>

definition addresses_left :: "j1939_claim \<Rightarrow> nat" where
  "addresses_left c = length (claim_order (c_preferred c)) - unat (c_lost (c_stats c))"

definition claim_ok :: "j1939_claim \<Rightarrow> bool" where
  "claim_ok c \<longleftrightarrow> c_preferred c \<noteq> J1939_ADDR_NULL \<and> claim_inv (c_name c) (c_preferred c) c"

lemma claim_ok_step: "claim_ok c \<Longrightarrow> claim_ok (claim_step e c)"
  using claim_inv_step [of "c_preferred c" "c_name c" c e] by (simp add: claim_ok_def claim_inv_def)

definition loses :: "claim_event \<Rightarrow> j1939_claim \<Rightarrow> bool" where
  "loses e c \<longleftrightarrow> c_lost (c_stats (claim_step e c)) \<noteq> c_lost (c_stats c)"

lemma claim_step_preferred: "claim_ok c \<Longrightarrow> c_preferred (claim_step e c) = c_preferred c"
  using claim_inv_step [of "c_preferred c" "c_name c" c e] by (simp add: claim_ok_def claim_inv_def)

lemma claim_step_lost:
  "c_lost (c_stats (claim_step e c)) = c_lost (c_stats c) \<or>
   c_lost (c_stats (claim_step e c)) = c_lost (c_stats c) + 1"
  by (cases e) (auto simp: j1939_claim_tick_def j1939_claim_rx_def j1939_claim_request_def Let_def
      claim_addr_def claim_cannot_def split: j1939_claim_state.splits prod.splits
      dest!: next_candidate_frame)

lemma claim_lost_le: "claim_ok c \<Longrightarrow> unat (c_lost (c_stats c)) \<le> length (claim_order (c_preferred c))"
  by (auto simp: claim_ok_def claim_inv_def Let_def)

interpretation clm: metered_machine claim_step "\<lambda>_. True" claim_ok addresses_left loses
proof
  fix e c
  assume ok: "claim_ok c"
  then show "claim_ok (claim_step e c)" by (rule claim_ok_step)
  have "unat (c_lost (c_stats c)) \<le> 122"
    using claim_lost_le [OF ok] claim_order_facts(3) [of "c_preferred c"] ok
    by (simp add: claim_ok_def)
  then have up: "unat (c_lost (c_stats c) + 1) = Suc (unat (c_lost (c_stats c)))"
    by (simp add: unat_word_ariths(1))
  then show "addresses_left (claim_step e c) \<le> addresses_left c"
    using claim_step_lost [of e c] claim_step_preferred [OF ok, of e] by (auto simp: addresses_left_def)
  assume "loses e c"
  then show "addresses_left (claim_step e c) < addresses_left c"
    using claim_step_lost [of e c] claim_step_preferred [OF ok, of e] up
      claim_lost_le [OF claim_ok_step [OF ok, of e]]
    by (auto simp: addresses_left_def loses_def)
qed

lemma claim_run_inv:
  assumes "preferred \<noteq> J1939_ADDR_NULL"
  shows "claim_inv name preferred (claim_run name preferred now es)"
proof -
  have "claim_inv name preferred c \<Longrightarrow> claim_inv name preferred (fold claim_step es c)" for c
    using claim_inv_step [OF assms] by (induction es arbitrary: c) auto
  then show ?thesis by (simp add: claim_run_def claim_inv_start [OF assms])
qed

theorem claim_follows_order:
  assumes "preferred \<noteq> J1939_ADDR_NULL"
  defines "order \<equiv> claim_order preferred"
  shows "let c = claim_run name preferred now es; n = unat (c_lost (c_stats c)) in
     distinct order \<and> n \<le> length order \<and> length order \<le> 122 \<and>
     (if n < length order
      then c_state c \<in> {J1939_CLAIM_CLAIMING, J1939_CLAIM_CLAIMED} \<and> c_sa c = order ! n
      else c_state c = J1939_CLAIM_CANNOT \<and> c_sa c = J1939_ADDR_NULL) \<and>
     c_contests (c_stats c) = c_won (c_stats c) + c_lost (c_stats c)"
  using claim_run_inv [OF assms(1), of name now es] claim_order_facts [OF assms(1)]
  by (auto simp: claim_inv_def order_def Let_def)

text \<open>C34. A node loses at most as many contests as its list has addresses, however many claims it
  receives, so the contest over addresses ends.\<close>

theorem claim_losses_bounded:
  assumes "preferred \<noteq> J1939_ADDR_NULL"
  shows "clm.spent es (claim_run name preferred now []) \<le> length (claim_order preferred)"
proof -
  let ?c = "claim_run name preferred now []"
  have inv: "claim_inv name preferred ?c" by (rule claim_run_inv [OF assms])
  then have "claim_ok ?c" using assms by (simp add: claim_ok_def claim_inv_def)
  from clm.spent_bounded [OF _ this, of es] inv show ?thesis
    by (simp add: addresses_left_def claim_inv_def list_all_iff)
qed

section \<open>A contest of two nodes\<close>

lemma rx_win:
  assumes "c_state c = J1939_CLAIM_CLAIMING \<or> c_state c = J1939_CLAIM_CLAIMED" "c_sa c \<noteq> J1939_ADDR_NULL"
    and "j1939_name_compare (c_name c) name \<le> 0"
    and "c_defended_us c = 0 \<or> now - c_defended_us c \<ge> J1939_CLAIM_DEFEND_HOLD_US"
  shows "j1939_claim_rx c (c_sa c) name now =
     (c\<lparr>c_defended_us := now, c_stats := (c_claims_sent_update (\<lambda>n. n + 1) \<circ> c_won_update (\<lambda>n. n + 1) \<circ>
        c_contests_update (\<lambda>n. n + 1)) (c_stats c)\<rparr>, out_claim c (c_sa c))"
  using assms by (auto simp: j1939_claim_rx_def Let_def out_claim_def)

lemma rx_lose:
  assumes "c_state c = J1939_CLAIM_CLAIMING \<or> c_state c = J1939_CLAIM_CLAIMED" "c_sa c \<noteq> J1939_ADDR_NULL"
    and "\<not> j1939_name_compare (c_name c) name \<le> 0"
    and "c2 = c\<lparr>c_stats := (c_lost_update (\<lambda>n. n + 1) \<circ> c_contests_update (\<lambda>n. n + 1)) (c_stats c)\<rparr>"
    and "next_candidate c2 (c_sa c2) = (c3, a)"
  shows "j1939_claim_rx c (c_sa c) name now =
     (if a = J1939_ADDR_NULL then claim_cannot c3 else claim_addr c3 a now)"
  using assms by (auto simp: j1939_claim_rx_def Let_def)

text \<open>\<open>y\<close> has claimed the address of \<open>x\<close>; \<open>x\<close> hears it, and \<open>y\<close> hears the answer.\<close>

text \<open>C13. When two nodes that follow the protocol hold one address and the one with the higher
  priority NAME is not holding back its defence, one exchange of their claims settles the
  contest: the node with the lower NAME keeps the address and its state and answers with its
  claim, the other moves away from the address and announces where it went.\<close>

theorem claim_contest:
  fixes nx ny :: j1939_name
  assumes "px \<noteq> J1939_ADDR_NULL" "py \<noteq> J1939_ADDR_NULL" and "nx < ny"
    and "x = claim_run (name_bytes nx) px t1 es1" and "y = claim_run (name_bytes ny) py t2 es2"
    and "c_state x \<noteq> J1939_CLAIM_CANNOT" and "c_sa x = c_sa y"
    and "c_defended_us x = 0 \<or> now - c_defended_us x \<ge> J1939_CLAIM_DEFEND_HOLD_US"
  shows "let (x', f) = j1939_claim_rx x (c_sa y) (c_name y) now;
             (y', g) = j1939_claim_rx y (o_sa f) (o_data f) now'
         in o_send f \<and> c_sa x' = c_sa x \<and> c_state x' = c_state x \<and>
            c_sa y' \<noteq> c_sa x' \<and> o_send g \<and> o_sa g = c_sa y' \<and> o_data g = c_name y"
proof -
  have ix: "claim_inv (name_bytes nx) px x" and iy: "claim_inv (name_bytes ny) py y"
    using assms(1,2,4,5) claim_run_inv by auto
  have nx: "c_name x = name_bytes nx" and ny: "c_name y = name_bytes ny"
    using ix iy by (simp_all add: claim_inv_def)
  have ax: "c_state x = J1939_CLAIM_CLAIMING \<or> c_state x = J1939_CLAIM_CLAIMED"
    and sx: "c_sa x \<in> set (claim_order px)"
    using ix assms(6) by (auto simp: claim_inv_def Let_def)
  have sa: "c_sa x \<noteq> J1939_ADDR_NULL" using sx claim_order_facts(2) [OF assms(1)] by auto
  with iy assms(7) have ay: "c_state y = J1939_CLAIM_CLAIMING \<or> c_state y = J1939_CLAIM_CLAIMED"
    by (auto simp: claim_inv_def Let_def)
  have keep: "j1939_name_compare (c_name x) (c_name y) \<le> 0" "\<not> j1939_name_compare (c_name y) (c_name x) \<le> 0"
    using assms(3) unfolding nx ny by (auto simp: name_compare_spec)
  define y2 where "y2 = y\<lparr>c_stats := (c_lost_update (\<lambda>n. n + 1) \<circ> c_contests_update (\<lambda>n. n + 1)) (c_stats y)\<rparr>"
  obtain y3 a where nc: "next_candidate y2 (c_sa y2) = (y3, a)" by fastforce
  define y' where "y' = fst (if a = J1939_ADDR_NULL then claim_cannot y3 else claim_addr y3 a now')"
  have iy': "claim_inv (name_bytes ny) py y'"
    unfolding y'_def by (rule claim_inv_lose [OF assms(2) iy ay nc y2_def])
  have lost: "unat (c_lost (c_stats y')) = Suc (unat (c_lost (c_stats y)))"
  proof -
    have "unat (c_lost (c_stats y)) \<le> 122"
      using iy claim_order_facts(3) [OF assms(2)] by (auto simp: claim_inv_def Let_def)
    then show ?thesis
      using next_candidate_frame [OF nc]
      by (auto simp: y'_def y2_def claim_cannot_def claim_addr_def Let_def unat_word_ariths(1))
  qed
  have "c_sa y' \<noteq> c_sa y"
    using iy iy' ay lost claim_order_facts(1,2) [OF assms(2)]
    by (auto simp: claim_inv_def Let_def nth_eq_iff_index_eq in_set_conv_nth)
  moreover have "j1939_claim_rx x (c_sa y) (c_name y) now =
     (x\<lparr>c_defended_us := now, c_stats := (c_claims_sent_update (\<lambda>n. n + 1) \<circ> c_won_update (\<lambda>n. n + 1) \<circ>
        c_contests_update (\<lambda>n. n + 1)) (c_stats x)\<rparr>, out_claim x (c_sa x))"
    using rx_win [OF ax sa keep(1) assms(8)] assms(7) by simp
  moreover have "j1939_claim_rx y (c_sa y) (c_name x) now' =
     (if a = J1939_ADDR_NULL then claim_cannot y3 else claim_addr y3 a now')"
    using rx_lose [OF ay _ keep(2) y2_def nc] sa assms(7) by simp
  ultimately show ?thesis
    using assms(7) next_candidate_frame [OF nc]
    by (cases "a = J1939_ADDR_NULL")
      (simp_all add: out_claim_def y'_def y2_def claim_cannot_def claim_addr_def Let_def)
qed

text \<open>
  The defence is held back for whoever contests, not only for the node that was answered:
  a third node that claims the address within the hold time gets no answer, and keeps it.
\<close>

definition node_a :: bytes where "node_a = j1939_name_build 1 0 129 True"
definition node_b :: bytes where "node_b = j1939_name_build 2 0 129 True"
definition node_c :: bytes where "node_c = j1939_name_build 3 0 129 True"

lemma claim_hold_gap:
  "let a = claim_run node_a 249 0 [ClaimTick 250000, ClaimRx 249 node_b 1000000];
       c = claim_run node_c 249 1100000 [];
       (a', f) = j1939_claim_rx a (c_sa c) (c_name c) 1100000;
       c' = j1939_claim_tick c 1350000
   in \<not> o_send f \<and> j1939_claim_ready a' \<and> j1939_claim_ready c' \<and>
      c_sa a' = c_sa c' \<and> c_name a' \<noteq> c_name c'"
  by code_simp

section \<open>Witnesses\<close>

lemma claim_follows_order_witness:
  "c_sa (claim_run node_b 249 0 [ClaimRx 249 node_a 100]) = claim_order 249 ! 1"
proof -
  have "c_lost (c_stats (claim_run node_b 249 0 [ClaimRx 249 node_a 100])) = 1" by code_simp
  then show ?thesis
    using claim_follows_order [of 249 node_b 0 "[ClaimRx 249 node_a 100]"]
    by (simp add: Let_def claim_order_def split: if_splits)
qed

lemma claim_losses_bounded_witness:
  "clm.spent [ClaimRx 249 node_a 100] (claim_run node_b 249 0 []) \<le> length (claim_order 249)"
  by (rule claim_losses_bounded) simp

lemma node_names: "name_bytes (Name node_a) = node_a" "name_bytes (Name node_b) = node_b"
  by (rule Name_inverse, simp add: node_a_def node_b_def)+

lemma claim_contest_witness:
  "let (x', f) = j1939_claim_rx (claim_run node_a 249 0 []) 249 node_b 1000;
       (y', g) = j1939_claim_rx (claim_run node_b 249 500 []) (o_sa f) (o_data f) 1001
   in o_send f \<and> c_sa x' = 249 \<and> c_sa y' \<noteq> 249 \<and> o_send g"
proof -
  have start: "c_state (claim_run n 249 t []) = J1939_CLAIM_CLAIMING" "c_sa (claim_run n 249 t []) = 249"
    "c_defended_us (claim_run n 249 t []) = 0" "c_name (claim_run n 249 t []) = n" for n t
    by (simp_all add: claim_run_def j1939_claim_start_def j1939_claim_init_def claim_addr_def Let_def)
  have "le_nat node_a < le_nat node_b"
    by (simp add: node_a_def node_b_def name_build_number name_number_def)
  then have "Name node_a < Name node_b" by (simp add: less_j1939_name_def node_names)
  from claim_contest [OF _ _ this refl refl, of 249 249 0 "[]" 500 "[]" 1000 1001]
  show ?thesis by (auto simp: node_names start case_prod_beta Let_def)
qed

end
