(* ===== verification/J1939_Cache.thy ===== *)
theory J1939_Cache
  imports J1939_Ident
begin

text \<open>
  \<^verbatim>\<open>components/j1939/j1939_cache_core.c\<close> and \<^verbatim>\<open>j1939_cache_core.h\<close>: the newest message of
  every (group, source, destination) in an open-addressing hash table, and the table of
  sources. A pointer to an entry is its slot; a long buffer's number or owner that may be -1
  is an option, and so is a wildcard address (\<open>J1939_ADDR_ANY\<close> is -1). The loop of
  \<open>slot_remove\<close> has no bound in the source: it gets as many turns as there are slots, and
  \<open>None\<close> says that they were not enough.
\<close>

abbreviation (input) J1939_CACHE_SLOTS :: nat where "J1939_CACHE_SLOTS \<equiv> 512"
abbreviation (input) J1939_CACHE_MAX :: u16 where "J1939_CACHE_MAX \<equiv> 384"
abbreviation (input) J1939_LONG_SLOTS :: nat where "J1939_LONG_SLOTS \<equiv> 12"
abbreviation (input) J1939_FRESH_US :: int where "J1939_FRESH_US \<equiv> 5000000"
abbreviation (input) J1939_EVICT_AGE_US :: int where "J1939_EVICT_AGE_US \<equiv> 30000000"
abbreviation (input) J1939_PGN_FREE :: u32 where "J1939_PGN_FREE \<equiv> 0xFFFFFFFF"
abbreviation (input) UINT32_MAX :: int where "UINT32_MAX \<equiv> 4294967295"

record j1939_entry =
  y_pgn :: u32
  y_sa :: u8
  y_da :: u8
  y_lng :: "nat option"
  y_len :: u16
  y_data :: bytes
  y_count :: u32
  y_period_us :: u32
  y_rx_us :: int

record j1939_cache =
  h_e :: "j1939_entry list"
  h_lng :: "bytes list"
  h_lng_owner :: "nat option list"
  h_used :: u16
  h_seq :: u32
  h_full :: u32
  h_evicted :: u32
  h_lng_evicted :: u32

section \<open>Slots\<close>

definition slot_home :: "u32 \<Rightarrow> u8 \<Rightarrow> u8 \<Rightarrow> nat" where
  "slot_home pgn sa da =
     (let h = pgn * 0x9E3779B1;
          h = h XOR (push_bit 8 (ucast sa) OR ucast da) * 0x85EBCA6B;
          h = h XOR drop_bit 15 h
      in unat (h AND 511))"

definition slot_free :: "j1939_entry \<Rightarrow> bool" where
  "slot_free e \<longleftrightarrow> y_pgn e = J1939_PGN_FREE"

definition slot_key :: "u32 \<Rightarrow> u8 \<Rightarrow> u8 \<Rightarrow> j1939_entry \<Rightarrow> bool" where
  "slot_key pgn sa da e \<longleftrightarrow> y_pgn e = pgn \<and> y_sa e = sa \<and> y_da e = da"

fun slot_find_loop :: "j1939_entry list \<Rightarrow> u32 \<Rightarrow> u8 \<Rightarrow> u8 \<Rightarrow> nat \<Rightarrow> nat \<Rightarrow> nat \<times> bool" where
  "slot_find_loop es pgn sa da 0 i = (i, False)"
| "slot_find_loop es pgn sa da (Suc n) i =
     (if slot_free (es ! i) then (i, False)
      else if slot_key pgn sa da (es ! i) then (i, True)
      else slot_find_loop es pgn sa da n ((i + 1) mod J1939_CACHE_SLOTS))"

definition slot_find :: "j1939_cache \<Rightarrow> u32 \<Rightarrow> u8 \<Rightarrow> u8 \<Rightarrow> nat \<times> bool" where
  "slot_find c pgn sa da =
     slot_find_loop (h_e c) pgn sa da J1939_CACHE_SLOTS (slot_home pgn sa da)"

text \<open>\<open>if (lng >= 0) lng_owner[lng] = x\<close>.\<close>

definition owner_set :: "nat option \<Rightarrow> nat option \<Rightarrow> nat option list \<Rightarrow> nat option list" where
  "owner_set lng x os = (case lng of None \<Rightarrow> os | Some b \<Rightarrow> os[b := x])"

definition slot_stays :: "nat \<Rightarrow> nat \<Rightarrow> nat \<Rightarrow> bool" where
  "slot_stays i j k \<longleftrightarrow> (if i \<le> j then k > i \<and> k \<le> j else k > i \<or> k \<le> j)"

fun slot_remove_loop ::
  "nat \<Rightarrow> j1939_entry list \<Rightarrow> nat option list \<Rightarrow> nat \<Rightarrow> nat \<Rightarrow> (j1939_entry list \<times> nat option list) option" where
  "slot_remove_loop 0 es os i j0 = None"
| "slot_remove_loop (Suc n) es os i j0 =
     (let j = (j0 + 1) mod J1939_CACHE_SLOTS; e = es ! j in
      if slot_free e then Some (es, os)
      else if slot_stays i j (slot_home (y_pgn e) (y_sa e) (y_da e)) then slot_remove_loop n es os i j
      else slot_remove_loop n (es[i := e, j := e\<lparr>y_pgn := J1939_PGN_FREE\<rparr>]) (owner_set (y_lng e) (Some i) os) j j)"

definition slot_remove :: "j1939_cache \<Rightarrow> nat \<Rightarrow> j1939_cache option" where
  "slot_remove c i =
     (let e = h_e c ! i;
          os = owner_set (y_lng e) None (h_lng_owner c);
          es = (h_e c)[i := e\<lparr>y_pgn := J1939_PGN_FREE\<rparr>]
      in map_option (\<lambda>(es', os'). c\<lparr>h_e := es', h_lng_owner := os', h_used := h_used c - 1\<rparr>)
           (slot_remove_loop J1939_CACHE_SLOTS es os i i))"

definition slot_oldest :: "j1939_cache \<Rightarrow> nat option" where
  "slot_oldest c =
     fold (\<lambda>i best.
         if \<not> slot_free (h_e c ! i) \<and>
            (case best of None \<Rightarrow> True | Some b \<Rightarrow> y_rx_us (h_e c ! i) < y_rx_us (h_e c ! b))
         then Some i else best)
       [0..<J1939_CACHE_SLOTS] None"

text \<open>The loop of \<open>lng_take\<close> over the long buffers that are left, with the pick so far.\<close>

fun lng_pick :: "j1939_cache \<Rightarrow> nat option \<Rightarrow> nat list \<Rightarrow> nat option" where
  "lng_pick c pick [] = pick"
| "lng_pick c pick (i # is) =
     (case h_lng_owner c ! i of
        None \<Rightarrow> Some i
      | Some s \<Rightarrow>
          if (case pick of None \<Rightarrow> True
              | Some p \<Rightarrow> y_rx_us (h_e c ! s) < y_rx_us (h_e c ! the (h_lng_owner c ! p)))
          then lng_pick c (Some i) is else lng_pick c pick is)"

definition lng_take :: "j1939_cache \<Rightarrow> nat \<Rightarrow> j1939_cache \<times> nat" where
  "lng_take c slot =
     (case y_lng (h_e c ! slot) of
        Some b \<Rightarrow> (c, b)
      | None \<Rightarrow>
          let pick = the (lng_pick c None [0..<J1939_LONG_SLOTS]);
              c1 = (case h_lng_owner c ! pick of
                      None \<Rightarrow> c
                    | Some l \<Rightarrow> c\<lparr>h_e := (h_e c)[l := (h_e c ! l)\<lparr>y_lng := None, y_len := 0\<rparr>],
                                 h_lng_evicted := h_lng_evicted c + 1\<rparr>)
          in (c1\<lparr>h_lng_owner := (h_lng_owner c1)[pick := Some slot],
                 h_e := (h_e c1)[slot := (h_e c1 ! slot)\<lparr>y_lng := Some pick\<rparr>]\<rparr>, pick))"

section \<open>Interface\<close>

definition empty_entry :: j1939_entry where
  "empty_entry = \<lparr>y_pgn = J1939_PGN_FREE, y_sa = 0, y_da = 0, y_lng = None, y_len = 0,
     y_data = replicate 8 0, y_count = 0, y_period_us = 0, y_rx_us = 0\<rparr>"

definition j1939_cache_init :: j1939_cache where
  "j1939_cache_init =
     \<lparr>h_e = replicate J1939_CACHE_SLOTS empty_entry, h_lng = replicate J1939_LONG_SLOTS (replicate J1939_MSG_MAX 0),
      h_lng_owner = replicate J1939_LONG_SLOTS None, h_used = 0, h_seq = 0, h_full = 0, h_evicted = 0,
      h_lng_evicted = 0\<rparr>"

text \<open>The part of \<open>j1939_cache_put\<close> that makes a new entry in slot \<open>i\<close>.\<close>

definition entry_open :: "j1939_cache \<Rightarrow> nat \<Rightarrow> u32 \<Rightarrow> u8 \<Rightarrow> u8 \<Rightarrow> int \<Rightarrow> j1939_cache" where
  "entry_open c i pgn sa da now_us =
     c\<lparr>h_e := (h_e c)[i := (h_e c ! i)\<lparr>y_pgn := pgn, y_sa := sa, y_da := da, y_lng := None, y_len := 0,
                                    y_count := 0, y_period_us := 0, y_rx_us := now_us\<rparr>],
       h_used := h_used c + 1\<rparr>"

text \<open>The part that updates the entry in slot \<open>i\<close>: its times and its payload.\<close>

definition entry_time :: "j1939_entry \<Rightarrow> int \<Rightarrow> j1939_entry" where
  "entry_time e now_us =
     (let gap = now_us - y_rx_us e;
          e1 = (if y_count e > 0
                then e\<lparr>y_period_us := (if gap < 0 then 0 else if gap > UINT32_MAX then of_int UINT32_MAX
                                      else of_int gap)\<rparr>
                else e)
      in e1\<lparr>y_count := y_count e1 + 1, y_rx_us := now_us\<rparr>)"

definition entry_store :: "j1939_cache \<Rightarrow> nat \<Rightarrow> bytes \<Rightarrow> int \<Rightarrow> j1939_cache" where
  "entry_store c i data now_us =
     (let e1 = entry_time (h_e c ! i) now_us;
          c1 = c\<lparr>h_e := (h_e c)[i := e1]\<rparr>;
          c2 = (if length data \<le> 8
                then c1\<lparr>h_lng_owner := owner_set (y_lng e1) None (h_lng_owner c1),
                        h_e := (h_e c1)[i := e1\<lparr>y_lng := None, y_data := blit 0 data (y_data e1)\<rparr>]\<rparr>
                else let (c', b) = lng_take c1 i
                     in c'\<lparr>h_lng := (h_lng c')[b := blit 0 data (h_lng c' ! b)]\<rparr>)
      in c2\<lparr>h_e := (h_e c2)[i := (h_e c2 ! i)\<lparr>y_len := of_nat (length data)\<rparr>], h_seq := h_seq c2 + 1\<rparr>)"

text \<open>\<open>data\<close> is the pointer with its length; the last component of the result is the entry.\<close>

definition j1939_cache_put ::
  "j1939_cache \<Rightarrow> u32 \<Rightarrow> u8 \<Rightarrow> u8 \<Rightarrow> bytes \<Rightarrow> int \<Rightarrow> (j1939_cache \<times> nat option) option" where
  "j1939_cache_put c pgn sa da data now_us =
     (if pgn = J1939_PGN_FREE \<or> length data > J1939_MSG_MAX then Some (c, None)
      else
        let (i, found) = slot_find c pgn sa da in
        if found then Some (entry_store c i data now_us, Some i)
        else if h_used c \<ge> J1939_CACHE_MAX then
          (case slot_oldest c of
             None \<Rightarrow> Some (c\<lparr>h_full := h_full c + 1\<rparr>, None)
           | Some old \<Rightarrow>
               if now_us - y_rx_us (h_e c ! old) < J1939_EVICT_AGE_US
               then Some (c\<lparr>h_full := h_full c + 1\<rparr>, None)
               else (case slot_remove c old of
                      None \<Rightarrow> None
                    | Some c1 \<Rightarrow>
                        let c2 = c1\<lparr>h_evicted := h_evicted c1 + 1\<rparr>;
                            (i2, _) = slot_find c2 pgn sa da
                        in Some (entry_store (entry_open c2 i2 pgn sa da now_us) i2 data now_us, Some i2)))
        else Some (entry_store (entry_open c i pgn sa da now_us) i data now_us, Some i))"

definition wild :: "u8 option \<Rightarrow> u8 \<Rightarrow> bool" where
  "wild w a \<longleftrightarrow> (case w of None \<Rightarrow> True | Some x \<Rightarrow> x = a)"

text \<open>\<open>e\<close> is picked over \<open>best\<close>: a lower source, or the same one heard later.\<close>

definition better :: "j1939_cache \<Rightarrow> nat \<Rightarrow> nat option \<Rightarrow> bool" where
  "better c i best =
     (case best of
        None \<Rightarrow> True
      | Some b \<Rightarrow> y_sa (h_e c ! i) < y_sa (h_e c ! b) \<or>
                 (y_sa (h_e c ! i) = y_sa (h_e c ! b) \<and> y_rx_us (h_e c ! i) > y_rx_us (h_e c ! b)))"

definition get_scan :: "j1939_cache \<Rightarrow> u32 \<Rightarrow> u8 option \<Rightarrow> u8 option \<Rightarrow> int \<Rightarrow> nat
    \<Rightarrow> nat option \<times> nat option \<Rightarrow> nat option \<times> nat option" where
  "get_scan c pgn sa da now_us i acc =
     (let (fresh, lowest) = acc; e = h_e c ! i in
      if y_pgn e \<noteq> pgn \<or> y_len e = 0 \<or> \<not> wild sa (y_sa e) \<or> \<not> wild da (y_da e) then (fresh, lowest)
      else
        let lowest' = (if better c i lowest then Some i else lowest) in
        if now_us - y_rx_us e > J1939_FRESH_US then (fresh, lowest')
        else (if better c i fresh then Some i else fresh, lowest'))"

definition j1939_cache_get :: "j1939_cache \<Rightarrow> u32 \<Rightarrow> u8 option \<Rightarrow> u8 option \<Rightarrow> int \<Rightarrow> nat option" where
  "j1939_cache_get c pgn sa da now_us =
     (case (sa, da) of
        (Some s, Some d) \<Rightarrow>
          (let (i, found) = slot_find c pgn s d
           in if found \<and> y_len (h_e c ! i) > 0 then Some i else None)
      | _ \<Rightarrow>
          (let (fresh, lowest) = fold (get_scan c pgn sa da now_us) [0..<J1939_CACHE_SLOTS] (None, None)
           in case fresh of None \<Rightarrow> lowest | Some i \<Rightarrow> Some i))"

text \<open>The \<open>len\<close> bytes the returned pointer is read for.\<close>

definition j1939_cache_payload :: "j1939_cache \<Rightarrow> nat \<Rightarrow> bytes" where
  "j1939_cache_payload c i =
     (let e = h_e c ! i in
      take (unat (y_len e)) (case y_lng e of None \<Rightarrow> y_data e | Some b \<Rightarrow> h_lng c ! b))"

definition j1939_cache_at :: "j1939_cache \<Rightarrow> nat \<Rightarrow> nat option" where
  "j1939_cache_at c slot =
     (if slot \<ge> J1939_CACHE_SLOTS \<or> slot_free (h_e c ! slot) then None else Some slot)"

section \<open>Who is on the bus\<close>

record j1939_sources =
  so_frames :: "u32 list"
  so_last_us :: "int list"
  so_name :: "bytes list"
  so_named :: "u8 list"

definition j1939_sources_init :: j1939_sources where
  "j1939_sources_init = \<lparr>so_frames = replicate 256 0, so_last_us = replicate 256 0,
     so_name = replicate 256 (replicate 8 0), so_named = replicate 32 0\<rparr>"

definition j1939_sources_note :: "j1939_sources \<Rightarrow> u8 \<Rightarrow> int \<Rightarrow> j1939_sources" where
  "j1939_sources_note s sa now_us =
     s\<lparr>so_frames := (so_frames s)[unat sa := so_frames s ! unat sa + 1],
       so_last_us := (so_last_us s)[unat sa := now_us]\<rparr>"

definition j1939_sources_claim :: "j1939_sources \<Rightarrow> u8 \<Rightarrow> bytes \<Rightarrow> j1939_sources" where
  "j1939_sources_claim s sa name =
     (let i = unat (drop_bit 3 sa) in
      s\<lparr>so_name := (so_name s)[unat sa := take 8 name],
        so_named := (so_named s)[i := so_named s ! i OR push_bit (unat (sa AND 7)) 1]\<rparr>)"

definition j1939_sources_name :: "j1939_sources \<Rightarrow> u8 \<Rightarrow> bytes option" where
  "j1939_sources_name s sa =
     (if so_named s ! unat (drop_bit 3 sa) AND push_bit (unat (sa AND 7)) 1 = 0 then None
      else Some (so_name s ! unat sa))"

definition j1939_sources_count :: "j1939_sources \<Rightarrow> nat" where
  "j1939_sources_count s = count_if (\<lambda>n. n \<noteq> 0) (so_frames s)"

section \<open>Circular distance\<close>

text \<open>How many steps the probe makes from slot \<open>a\<close> to slot \<open>b\<close>.\<close>

definition cyc :: "nat \<Rightarrow> nat \<Rightarrow> nat" where
  "cyc a b = (if a \<le> b then b - a else b + 512 - a)"

definition next_slot :: "nat \<Rightarrow> nat" where
  "next_slot i = (i + 1) mod 512"

lemma next_slot_eq: "i < 512 \<Longrightarrow> next_slot i = (if i = 511 then 0 else i + 1)"
  by (auto simp: next_slot_def)

lemma next_slot_less [simp]: "next_slot i < 512"
  by (simp add: next_slot_def)

lemma cyc_less: "a < 512 \<Longrightarrow> b < 512 \<Longrightarrow> cyc a b < 512"
  by (auto simp: cyc_def)

lemma cyc_self [simp]: "cyc a a = 0"
  by (simp add: cyc_def)

lemma cyc_0: "a < 512 \<Longrightarrow> b < 512 \<Longrightarrow> cyc a b = 0 \<longleftrightarrow> a = b"
  by (auto simp: cyc_def)

lemma cyc_inj: "a < 512 \<Longrightarrow> b < 512 \<Longrightarrow> c < 512 \<Longrightarrow> cyc a b = cyc a c \<longleftrightarrow> b = c"
  by (auto simp: cyc_def split: if_splits)

lemma cyc_next:
  assumes "a < 512" "b < 512" "a \<noteq> b"
  shows "cyc a b = Suc (cyc (next_slot a) b)"
  using assms by (auto simp: cyc_def next_slot_eq split: if_splits)

lemma cyc_to_next:
  assumes "a < 512" "b < 512" "next_slot b \<noteq> a"
  shows "cyc a (next_slot b) = Suc (cyc a b)"
  using assms by (auto simp: cyc_def next_slot_eq split: if_splits)

lemma slot_stays_cyc:
  assumes "i < 512" "j < 512" "k < 512" "i \<noteq> j"
  shows "slot_stays i j k \<longleftrightarrow> 0 < cyc i k \<and> cyc i k \<le> cyc i j"
  using assms by (auto simp: slot_stays_def cyc_def split: if_splits)

lemma cyc_between:
  assumes "h < 512" "i < 512" "x < 512" "p < 512" and "cyc h i < cyc h p" and "cyc i x < cyc i p"
  shows "cyc h x < cyc h p"
  using assms by (auto simp: cyc_def split: if_splits)

lemma cyc_not_through:
  assumes "h < 512" "i < 512" "p < 512" and "0 < cyc i h" "cyc i h \<le> cyc i p"
  shows "\<not> cyc h i < cyc h p"
  using assms by (auto simp: cyc_def split: if_splits)

lemma cyc_nearer:
  assumes "h < 512" "i < 512" "j < 512" "i \<noteq> j" and "\<not> (0 < cyc i h \<and> cyc i h \<le> cyc i j)"
  shows "cyc h i < cyc h j"
  using assms by (auto simp: cyc_def split: if_splits)

section \<open>Probing\<close>

abbreviation used :: "j1939_entry list \<Rightarrow> nat \<Rightarrow> bool" where
  "used es p \<equiv> \<not> slot_free (es ! p)"

type_synonym cache_key = "u32 \<times> u8 \<times> u8"

definition key_of :: "j1939_entry \<Rightarrow> cache_key" where
  "key_of e = (y_pgn e, y_sa e, y_da e)"

definition home_of :: "j1939_entry \<Rightarrow> nat" where
  "home_of e = slot_home (y_pgn e) (y_sa e) (y_da e)"

lemma slot_home_less [simp]: "slot_home pgn sa da < 512"
proof -
  have "unat (h AND 511) < 512" for h :: u32
    using word_and_le1 [of h 511] by (simp add: word_le_nat_alt)
  then show ?thesis by (simp add: slot_home_def Let_def)
qed

lemma home_of_less [simp]: "home_of e < 512"
  by (simp add: home_of_def)

lemma slot_key_iff: "slot_key pgn sa da e \<longleftrightarrow> key_of e = (pgn, sa, da)"
  by (simp add: slot_key_def key_of_def)

lemma home_of_key: "key_of e = (pgn, sa, da) \<Longrightarrow> home_of e = slot_home pgn sa da"
  by (simp add: key_of_def home_of_def)

lemma find_loop_spec:
  assumes "slot_find_loop es pgn sa da n i = (r, found)" and "i < 512" and "f < 512" and "slot_free (es ! f)"
    and "cyc i f < n" and "n \<le> 512"
  shows "r < 512 \<and> (if found then used es r \<and> key_of (es ! r) = (pgn, sa, da)
     else slot_free (es ! r) \<and>
       (\<forall>x < 512. cyc i x < cyc i r \<longrightarrow> used es x \<and> key_of (es ! x) \<noteq> (pgn, sa, da)))"
  using assms
proof (induction n arbitrary: i)
  case 0
  then show ?case by simp
next
  case (Suc n)
  show ?case
  proof (cases "slot_free (es ! i) \<or> slot_key pgn sa da (es ! i)")
    case True
    with Suc.prems show ?thesis by (auto simp: slot_key_iff split: if_splits)
  next
    case False
    with Suc.prems have ne: "i \<noteq> f" by auto
    have rec: "slot_find_loop es pgn sa da n (next_slot i) = (r, found)"
      using False Suc.prems by (simp add: next_slot_def)
    have "cyc (next_slot i) f < n"
      using Suc.prems ne by (simp add: cyc_next)
    from Suc.IH [OF rec _ Suc.prems(3,4) this] Suc.prems(6)
    have IH: "r < 512 \<and> (if found then used es r \<and> key_of (es ! r) = (pgn, sa, da)
       else slot_free (es ! r) \<and> (\<forall>x < 512. cyc (next_slot i) x < cyc (next_slot i) r \<longrightarrow>
         used es x \<and> key_of (es ! x) \<noteq> (pgn, sa, da)))" by simp
    show ?thesis
    proof (cases found)
      case True
      with IH show ?thesis by simp
    next
      case not_found: False
      with IH False have r: "r < 512" "slot_free (es ! r)" "r \<noteq> i" by auto
      have "used es x \<and> key_of (es ! x) \<noteq> (pgn, sa, da)" if x: "x < 512" "cyc i x < cyc i r" for x
      proof (cases "x = i")
        case True
        with False show ?thesis by (simp add: slot_key_iff)
      next
        case x_ne: False
        with x r Suc.prems(2) have "cyc (next_slot i) x < cyc (next_slot i) r"
          using cyc_next [of i x] cyc_next [of i r] by auto
        with IH not_found x show ?thesis by simp
      qed
      with r not_found show ?thesis by simp
    qed
  qed
qed

text \<open>Nothing interrupts the probe of an entry, the slot \<open>hole\<close> apart.\<close>

definition probes_but :: "nat option \<Rightarrow> j1939_entry list \<Rightarrow> bool" where
  "probes_but hole es \<longleftrightarrow> (\<forall>p < 512. used es p \<longrightarrow> (\<forall>x < 512.
     cyc (home_of (es ! p)) x < cyc (home_of (es ! p)) p \<longrightarrow> used es x \<or> hole = Some x))"

lemma probes_butD:
  assumes "probes_but hole es" "p < 512" "used es p" "x < 512"
    and "cyc (home_of (es ! p)) x < cyc (home_of (es ! p)) p"
  shows "used es x \<or> hole = Some x"
  using assms by (auto simp: probes_but_def)

lemma slot_find_spec:
  assumes "slot_find c pgn sa da = (r, found)" and "probes_but None (h_e c)"
    and "f < 512" "slot_free (h_e c ! f)"
  shows "r < 512" 
    and "found \<Longrightarrow> used (h_e c) r \<and> key_of (h_e c ! r) = (pgn, sa, da)"
    and "\<not> found \<Longrightarrow> slot_free (h_e c ! r) \<and>
      (\<forall>x < 512. used (h_e c) x \<longrightarrow> key_of (h_e c ! x) \<noteq> (pgn, sa, da)) \<and>
      (\<forall>x < 512. cyc (slot_home pgn sa da) x < cyc (slot_home pgn sa da) r \<longrightarrow> used (h_e c) x)"
proof -
  let ?h = "slot_home pgn sa da"
  have spec: "r < 512 \<and> (if found then used (h_e c) r \<and> key_of (h_e c ! r) = (pgn, sa, da)
     else slot_free (h_e c ! r) \<and>
       (\<forall>x < 512. cyc ?h x < cyc ?h r \<longrightarrow> used (h_e c) x \<and> key_of (h_e c ! x) \<noteq> (pgn, sa, da)))"
    by (rule find_loop_spec [OF assms(1) [unfolded slot_find_def] _ assms(3,4)])
      (auto intro: cyc_less assms)
  then show r: "r < 512" by simp
  show "used (h_e c) r \<and> key_of (h_e c ! r) = (pgn, sa, da)" if found using spec that by simp
  assume nf: "\<not> found"
  with spec have fr: "slot_free (h_e c ! r)" by simp
  have "key_of (h_e c ! x) \<noteq> (pgn, sa, da)" if x: "x < 512" "used (h_e c) x" for x
  proof
    assume k: "key_of (h_e c ! x) = (pgn, sa, da)"
    then have h: "home_of (h_e c ! x) = ?h" by (rule home_of_key)
    show False
    proof (cases "cyc ?h x < cyc ?h r")
      case True
      with spec nf x k show False by simp
    next
      case False
      moreover have "x \<noteq> r" using x fr by auto
      ultimately have "cyc ?h r < cyc ?h x" using r x cyc_inj [of ?h x r] by fastforce
      with probes_butD [OF assms(2) x(1,2) r] h fr show False by simp
    qed
  qed
  with spec nf fr show "slot_free (h_e c ! r) \<and>
      (\<forall>x < 512. used (h_e c) x \<longrightarrow> key_of (h_e c ! x) \<noteq> (pgn, sa, da)) \<and>
      (\<forall>x < 512. cyc ?h x < cyc ?h r \<longrightarrow> used (h_e c) x)" by simp
qed

section \<open>Removing a slot\<close>

definition keys_unique :: "j1939_entry list \<Rightarrow> bool" where
  "keys_unique es \<longleftrightarrow>
     (\<forall>p < 512. \<forall>q < 512. used es p \<and> used es q \<and> key_of (es ! p) = key_of (es ! q) \<longrightarrow> p = q)"

definition owners_ok :: "j1939_entry list \<Rightarrow> nat option list \<Rightarrow> bool" where
  "owners_ok es os \<longleftrightarrow> length os = 12 \<and>
     (\<forall>b < 12. \<forall>p. os ! b = Some p \<longrightarrow> p < 512 \<and> used es p \<and> y_lng (es ! p) = Some b) \<and>
     (\<forall>p < 512. \<forall>b. used es p \<and> y_lng (es ! p) = Some b \<longrightarrow> b < 12 \<and> os ! b = Some p)"

definition used_slots :: "j1939_entry list \<Rightarrow> nat set" where
  "used_slots es = {p. p < 512 \<and> used es p}"

definition entries :: "j1939_entry list \<Rightarrow> j1939_entry set" where
  "entries es = (!) es ` used_slots es"

text \<open>The state inside the loop of \<open>slot_remove\<close>: \<open>i\<close> is the hole, \<open>j\<close> the slot looked at last.\<close>

definition removing :: "nat \<Rightarrow> nat \<Rightarrow> j1939_entry list \<Rightarrow> nat option list \<Rightarrow> bool" where
  "removing i j es os \<longleftrightarrow> length es = 512 \<and> i < 512 \<and> j < 512 \<and> slot_free (es ! i) \<and>
     probes_but (Some i) es \<and> keys_unique es \<and> owners_ok es os \<and>
     (\<forall>p < 512. 0 < cyc i p \<and> cyc i p \<le> cyc i j \<longrightarrow>
        used es p \<and> slot_stays i p (home_of (es ! p)))"

lemma removing_end:
  assumes "removing i j es os" and "slot_free (es ! next_slot j)"
  shows "probes_but None es"
proof -
  have "used es x"
    if p: "p < 512" "used es p" and x: "x < 512" "cyc (home_of (es ! p)) x < cyc (home_of (es ! p)) p" for p x
  proof (rule ccontr)
    assume "\<not> used es x"
    with probes_butD [OF _ p x, of "Some i"] assms(1) have xi: "x = i" by (auto simp: removing_def)
    have ij: "i < 512" "j < 512" and ne: "p \<noteq> i" using assms p by (auto simp: removing_def)
    show False
    proof (cases "cyc i p \<le> cyc i j")
      case True
      with ij ne p have st: "0 < cyc i p" using cyc_0 [of i p] by auto
      with True assms(1) p have "slot_stays i p (home_of (es ! p))" by (simp add: removing_def)
      with ij p ne have "0 < cyc i (home_of (es ! p)) \<and> cyc i (home_of (es ! p)) \<le> cyc i p"
        by (simp add: slot_stays_cyc)
      with cyc_not_through [of "home_of (es ! p)" i p] ij p x xi show False by simp
    next
      case False
      have nj: "next_slot j \<noteq> i"
      proof
        assume "next_slot j = i"
        with ij have "cyc i j = 511" by (auto simp: next_slot_eq cyc_def split: if_splits)
        with False cyc_less [of i p] ij p show False by simp
      qed
      with ij p False assms(2) have "cyc i (next_slot j) < cyc i p"
        using cyc_to_next [of i j] cyc_inj [of i "next_slot j" p] by fastforce
      with cyc_between [of "home_of (es ! p)" i "next_slot j" p] ij p x xi
      have "cyc (home_of (es ! p)) (next_slot j) < cyc (home_of (es ! p)) p" by simp
      with probes_butD [OF _ p, of "Some i" "next_slot j"] assms nj show False
        by (auto simp: removing_def)
    qed
  qed
  then show ?thesis by (auto simp: probes_but_def)
qed

lemma removing_stay:
  assumes "removing i j es os" and "used es (next_slot j)"
    and "slot_stays i (next_slot j) (home_of (es ! next_slot j))"
  shows "removing i (next_slot j) es os"
proof -
  have ij: "i < 512" "j < 512" and ne: "next_slot j \<noteq> i" using assms by (auto simp: removing_def)
  have "cyc i p \<le> cyc i (next_slot j) \<longleftrightarrow> cyc i p \<le> cyc i j \<or> p = next_slot j" if "p < 512" for p
    using cyc_to_next [OF ij ne] cyc_inj [of i "next_slot j" p] ij that by auto
  with assms show ?thesis by (auto simp: removing_def)
qed

text \<open>Entry \<open>j\<close> moved into the hole \<open>i\<close>.\<close>

definition moved :: "nat \<Rightarrow> nat \<Rightarrow> j1939_entry list \<Rightarrow> j1939_entry list" where
  "moved i j es = es[i := es ! j, j := (es ! j)\<lparr>y_pgn := J1939_PGN_FREE\<rparr>]"

lemma slot_free_upd [simp]: "slot_free (e\<lparr>y_pgn := J1939_PGN_FREE\<rparr>)"
  by (simp add: slot_free_def)

lemma moved_nth:
  assumes "length es = 512" "i < 512" "j < 512" "i \<noteq> j" "p < 512"
  shows "moved i j es ! p = (if p = j then (es ! j)\<lparr>y_pgn := J1939_PGN_FREE\<rparr> else if p = i then es ! j else es ! p)"
  using assms by (auto simp: moved_def nth_list_update)

lemma removing_move:
  assumes rm: "removing i j0 es os" and j: "j = next_slot j0" and us: "used es j"
    and st: "\<not> slot_stays i j (home_of (es ! j))"
  shows "removing j j (moved i j es) (owner_set (y_lng (es ! j)) (Some i) os) \<and>
     entries (moved i j es) = entries es \<and> card (used_slots (moved i j es)) = card (used_slots es)"
proof -
  let ?es = "moved i j es" and ?k = "home_of (es ! j)"
  have len: "length es = 512" and i: "i < 512" and fi: "slot_free (es ! i)"
    and pr: "probes_but (Some i) es" and ku: "keys_unique es" and ow: "owners_ok es os"
    using rm unfolding removing_def by blast+
  have jl: "j < 512" and ij: "i \<noteq> j" using j us fi by auto
  note nth = moved_nth [OF len i jl ij]
  have used: "used ?es p \<longleftrightarrow> p \<noteq> j \<and> (p = i \<or> used es p)" if "p < 512" for p
    using that us by (simp add: nth)
  have near: "cyc ?k i < cyc ?k j"
    using st slot_stays_cyc [of i j ?k] cyc_nearer [of ?k i j] i jl ij by simp
  have probes: "probes_but (Some j) ?es"
    unfolding probes_but_def
  proof (intro allI impI)
    fix p x
    assume p: "p < 512" "used ?es p" and x: "x < 512" "cyc (home_of (?es ! p)) x < cyc (home_of (?es ! p)) p"
    have old: "used es x \<or> x = i" 
    proof (cases "p = i")
      case True
      with x i ij near have "cyc ?k x < cyc ?k j" by (simp add: nth)
      with probes_butD [OF pr jl us] x show ?thesis by auto
    next
      case False
      with p x have "used es p" "cyc (home_of (es ! p)) x < cyc (home_of (es ! p)) p"
        by (auto simp: nth split: if_splits)
      with probes_butD [OF pr p(1)] x show ?thesis by auto
    qed
    with x used show "used ?es x \<or> Some j = Some x" by auto
  qed
  have slots: "used_slots ?es = insert i (used_slots es - {j})"
    using used i ij by (auto simp: used_slots_def)
  have jS: "j \<in> used_slots es" using us jl by (simp add: used_slots_def)
  have ents: "entries ?es = entries es"
  proof -
    have same: "(!) ?es ` (used_slots es - {j}) = (!) es ` (used_slots es - {j})"
      using fi by (intro image_cong) (auto simp: nth used_slots_def)
    have "?es ! i = es ! j" using i ij by (simp add: nth)
    with same show ?thesis using jS by (auto simp: entries_def slots image_iff)
  qed
  have fin: "finite (used_slots es)" by (simp add: used_slots_def)
  have crd: "card (used_slots ?es) = card (used_slots es)"
  proof -
    have "i \<notin> used_slots es - {j}" using fi by (simp add: used_slots_def)
    then show ?thesis unfolding slots card.remove [OF fin jS] using fin by simp
  qed
  have orig: "?es ! p = es ! (if p = i then j else p) \<and> used es (if p = i then j else p) \<and> p \<noteq> j"
    if "p < 512" "used ?es p" for p
    using that us used [of p] by (auto simp: nth)
  have uniq: "keys_unique ?es"
    unfolding keys_unique_def
  proof (intro allI impI)
    fix p q
    assume pq: "p < 512" "q < 512" "used ?es p \<and> used ?es q \<and> key_of (?es ! p) = key_of (?es ! q)"
    let ?p = "if p = i then j else p" and ?q = "if q = i then j else q"
    have "?p < 512" "?q < 512" using pq jl by auto
    moreover have "used es ?p \<and> used es ?q \<and> key_of (es ! ?p) = key_of (es ! ?q)"
      using orig [of p] orig [of q] pq by metis
    ultimately have "?p = ?q" using ku unfolding keys_unique_def by blast
    with orig [of p] orig [of q] pq show "p = q" by (auto split: if_splits)
  qed
  have own: "owners_ok ?es (owner_set (y_lng (es ! j)) (Some i) os)" (is "owners_ok ?es ?os")
  proof -
    have ol: "length os = 12" using ow by (simp add: owners_ok_def)
    have ofw: "p < 512 \<and> used es p \<and> y_lng (es ! p) = Some b" if "b < 12" "os ! b = Some p" for b p
      using ow that unfolding owners_ok_def by blast
    have obw: "b < 12 \<and> os ! b = Some p" if "p < 512" "used es p" "y_lng (es ! p) = Some b" for b p
      using ow that unfolding owners_ok_def by blast
    have os: "?os ! b = (if y_lng (es ! j) = Some b then Some i else os ! b)" if "b < 12" for b
      using that ol by (auto simp: owner_set_def split: option.splits)
    have "p < 512 \<and> used ?es p \<and> y_lng (?es ! p) = Some b" if b: "b < 12" "?os ! b = Some p" for b p
    proof (cases "y_lng (es ! j) = Some b")
      case True
      with b os have "p = i" by simp
      with True i ij used [of i] show ?thesis by (simp add: nth)
    next
      case False
      with b os have o: "os ! b = Some p" by simp
      from ofw [OF b(1) o] False fi have "p < 512" "used es p" "y_lng (es ! p) = Some b" "p \<noteq> j" "p \<noteq> i" by auto
      with used [of p] show ?thesis by (simp add: nth)
    qed
    moreover have "b < 12 \<and> ?os ! b = Some p" if p: "p < 512" "used ?es p" "y_lng (?es ! p) = Some b" for b p
    proof (cases "p = i")
      case True
      with orig [OF p(1,2)] p have "y_lng (es ! j) = Some b" by simp
      with obw [OF jl us] os True show ?thesis by simp
    next
      case False
      with orig [OF p(1,2)] p have u: "used es p" "y_lng (es ! p) = Some b" "p \<noteq> j" by auto
      from obw [OF p(1) u(1,2)] have ob: "b < 12" "os ! b = Some p" by auto
      have "y_lng (es ! j) \<noteq> Some b"
        using obw [OF jl us, of b] ob u(3) by auto
      with ob os show ?thesis by simp
    qed
    moreover have "length ?os = 12" using ol by (simp add: owner_set_def split: option.split)
    ultimately show ?thesis unfolding owners_ok_def by blast
  qed
  have "slot_free (?es ! j)" "length ?es = 512" using jl len by (simp_all add: nth moved_def)
  with probes uniq own jl ents crd show ?thesis
    unfolding removing_def by auto
qed


lemma remove_loop_spec:
  assumes "removing i j es os" and "f < 512" "slot_free (es ! f)" "f \<noteq> i"
    and "cyc j f \<le> n" "0 < cyc j f"
  shows "\<exists>es' os'. slot_remove_loop n es os i j = Some (es', os') \<and> length es' = 512 \<and>
     probes_but None es' \<and> keys_unique es' \<and> owners_ok es' os' \<and> entries es' = entries es \<and>
     card (used_slots es') = card (used_slots es)"
  using assms
proof (induction n arbitrary: i j es os)
  case 0
  then show ?case by simp
next
  case (Suc n)
  let ?j = "next_slot j" and ?e = "es ! next_slot j"
  have jl: "j < 512" and il: "i < 512" using Suc.prems(1) by (auto simp: removing_def)
  have turn: "slot_remove_loop (Suc n) es os i j =
     (if slot_free ?e then Some (es, os)
      else if slot_stays i ?j (home_of ?e) then slot_remove_loop n es os i ?j
      else slot_remove_loop n (moved i ?j es) (owner_set (y_lng ?e) (Some i) os) ?j ?j)"
    by (simp add: next_slot_def home_of_def moved_def Let_def)
  show ?case
  proof (cases "slot_free ?e")
    case True
    with Suc.prems(1) removing_end [OF Suc.prems(1) True] show ?thesis
      unfolding turn by (auto simp: removing_def)
  next
    case False
    then have us: "used es ?j" by simp
    from us Suc.prems(3) have fj: "f \<noteq> ?j" by auto
    have "cyc j f = Suc (cyc ?j f)" using Suc.prems jl by (intro cyc_next) auto
    with Suc.prems fj cyc_0 [of ?j f] have near: "cyc ?j f \<le> n" "0 < cyc ?j f" by auto
    show ?thesis
    proof (cases "slot_stays i ?j (home_of ?e)")
      case True
      with Suc.IH [OF removing_stay [OF Suc.prems(1) us True] Suc.prems(2-4) near] False
      show ?thesis unfolding turn by simp
    next
      case move: False
      note mv = removing_move [OF Suc.prems(1) refl us move]
      have len: "length es = 512" using Suc.prems(1) by (simp add: removing_def)
      have ij: "i \<noteq> ?j" using us Suc.prems(1) by (auto simp: removing_def)
      have "slot_free (moved i ?j es ! f)"
        using moved_nth [OF len il next_slot_less ij Suc.prems(2)] Suc.prems fj by simp
      from Suc.IH [OF conjunct1 [OF mv] Suc.prems(2) this fj near] mv False move
      show ?thesis unfolding turn by auto
    qed
  qed
qed

lemma remove_loop_data:
  assumes "slot_remove_loop n es os i j = Some (es', os')" and "length es = 512"
    and "\<forall>e \<in> set es. length (y_data e) = 8"
  shows "\<forall>e \<in> set es'. length (y_data e) = 8"
  using assms
proof (induction n arbitrary: es os i j)
  case 0
  then show ?case by simp
next
  case (Suc n)
  let ?j = "next_slot j"
  have "es ! ?j \<in> set es" using Suc.prems(2) by (auto intro: nth_mem)
  with Suc.prems(3) have "\<forall>e \<in> set (moved i ?j es). length (y_data e) = 8"
    by (auto simp: moved_def dest!: subsetD [OF set_update_subset_insert])
  moreover have "length (moved i ?j es) = 512" using Suc.prems(2) by (simp add: moved_def)
  ultimately show ?case using Suc.IH [of es os i ?j] Suc.IH [of "moved i ?j es" _ ?j ?j] Suc.prems
    by (auto simp: next_slot_def [symmetric] home_of_def [symmetric] moved_def [symmetric] Let_def
        simp del: One_nat_def split: if_splits)
qed

text \<open>What the payload of a used entry looks like.\<close>

definition payload_ok :: "j1939_entry \<Rightarrow> bool" where
  "payload_ok e \<longleftrightarrow> (if y_lng e = None then unat (y_len e) \<le> 8 else 8 < unat (y_len e) \<and> unat (y_len e) \<le> 1785)"

definition cache_inv :: "j1939_cache \<Rightarrow> bool" where
  "cache_inv c \<longleftrightarrow> length (h_e c) = 512 \<and> probes_but None (h_e c) \<and> keys_unique (h_e c) \<and>
     owners_ok (h_e c) (h_lng_owner c) \<and> length (h_lng c) = 12 \<and>
     (\<forall>d \<in> set (h_lng c). length d = 1785) \<and> (\<forall>e \<in> set (h_e c). length (y_data e) = 8) \<and>
     (\<forall>e \<in> entries (h_e c). payload_ok e) \<and>
     unat (h_used c) = card (used_slots (h_e c)) \<and> unat (h_used c) \<le> 384"

lemma cache_invD:
  assumes "cache_inv c"
  shows "length (h_e c) = 512" "probes_but None (h_e c)" "keys_unique (h_e c)"
    "owners_ok (h_e c) (h_lng_owner c)" "length (h_lng c) = 12"
    "\<And>d. d \<in> set (h_lng c) \<Longrightarrow> length d = 1785" "\<And>e. e \<in> set (h_e c) \<Longrightarrow> length (y_data e) = 8"
    "\<And>e. e \<in> entries (h_e c) \<Longrightarrow> payload_ok e"
    "unat (h_used c) = card (used_slots (h_e c))" "card (used_slots (h_e c)) \<le> 384"
  using assms by (auto simp: cache_inv_def)

lemma finite_used_slots [simp]: "finite (used_slots es)"
  by (simp add: used_slots_def)

text \<open>A table with at most 384 used slots has a free one besides any given slot.\<close>

lemma free_slot:
  assumes "card (used_slots es) \<le> 384"
  obtains f where "f < 512" "slot_free (es ! f)" "f \<noteq> i"
proof -
  have "\<exists>f \<in> {..<512} - {i}. slot_free (es ! f)"
  proof (rule ccontr)
    assume "\<not> ?thesis"
    then have "{..<512} - {i} \<subseteq> used_slots es" by (auto simp: used_slots_def)
    then have "card ({..<512} - {i}) \<le> 384"
      using card_mono [OF finite_used_slots] assms le_trans by metis
    moreover have "card ({..<512} - {i}) \<ge> 511" by (simp add: card_Diff_singleton_if)
    ultimately show False by simp
  qed
  with that show thesis by auto
qed

lemma slot_remove_spec:
  assumes inv: "cache_inv c" and i: "i < 512" "used (h_e c) i"
  obtains c' where "slot_remove c i = Some c'" "cache_inv c'"
    "entries (h_e c') = entries (h_e c) - {h_e c ! i}" "h_lng c' = h_lng c"
    "unat (h_used c') = unat (h_used c) - 1"
proof -
  note I = cache_invD [OF inv]
  let ?e = "h_e c ! i"
  let ?es = "(h_e c)[i := ?e\<lparr>y_pgn := J1939_PGN_FREE\<rparr>]" and ?os = "owner_set (y_lng ?e) None (h_lng_owner c)"
  have nth: "?es ! p = (if p = i then ?e\<lparr>y_pgn := J1939_PGN_FREE\<rparr> else h_e c ! p)" if "p < 512" for p
    using that I(1) by (simp add: nth_list_update)
  have us: "used ?es p \<longleftrightarrow> used (h_e c) p \<and> p \<noteq> i" if "p < 512" for p
    using that by (simp add: nth)
  have slots: "used_slots ?es = used_slots (h_e c) - {i}"
    using us by (auto simp: used_slots_def)
  have iS: "i \<in> used_slots (h_e c)" using i by (simp add: used_slots_def)
  have same: "(!) ?es ` (used_slots (h_e c) - {i}) = (!) (h_e c) ` (used_slots (h_e c) - {i})"
    by (rule image_cong) (auto simp: used_slots_def)
  have "?e \<notin> (!) (h_e c) ` (used_slots (h_e c) - {i})"
    using I(3) i unfolding keys_unique_def used_slots_def by auto
  with iS have ents: "entries ?es = entries (h_e c) - {?e}"
    unfolding entries_def slots same by (auto simp: image_iff) (metis DiffI singletonD)
  have crd: "card (used_slots ?es) = card (used_slots (h_e c)) - 1"
    using iS by (simp add: slots card_Diff_singleton)
  have "removing i i ?es ?os"
  proof -
    have "probes_but (Some i) ?es"
      using I(2) unfolding probes_but_def by (auto simp: us nth)
    moreover have "keys_unique ?es" using I(3) us nth unfolding keys_unique_def by metis
    moreover have "owners_ok ?es ?os"
    proof -
      have ol: "length (h_lng_owner c) = 12"
        and ofw: "\<And>b p. b < 12 \<Longrightarrow> h_lng_owner c ! b = Some p \<Longrightarrow> p < 512 \<and> used (h_e c) p \<and> y_lng (h_e c ! p) = Some b"
        and obw: "\<And>b p. p < 512 \<Longrightarrow> used (h_e c) p \<Longrightarrow> y_lng (h_e c ! p) = Some b \<Longrightarrow> b < 12 \<and> h_lng_owner c ! b = Some p"
        using I(4) unfolding owners_ok_def by blast+
      have os: "?os ! b = (if y_lng ?e = Some b then None else h_lng_owner c ! b)" if "b < 12" for b
        using that ol by (auto simp: owner_set_def split: option.splits)
      have "p < 512 \<and> used ?es p \<and> y_lng (?es ! p) = Some b" if b: "b < 12" "?os ! b = Some p" for b p
        using ofw [of b p] os [of b] b us [of p] nth [of p] by (auto split: if_splits)
      moreover have "b < 12 \<and> ?os ! b = Some p" if p: "p < 512" "used ?es p" "y_lng (?es ! p) = Some b" for b p
        using obw [of p b] obw [of i b] i os [of b] p us [of p] nth [of p] by auto
      moreover have "length ?os = 12" using ol by (simp add: owner_set_def split: option.split)
      ultimately show ?thesis unfolding owners_ok_def by blast
    qed
    moreover have "slot_free (?es ! i)" using i nth by simp
    ultimately show ?thesis using I(1) i(1) unfolding removing_def by auto
  qed
  moreover obtain f where f: "f < 512" "slot_free (h_e c ! f)" "f \<noteq> i" using free_slot [OF I(10)] .
  moreover have "slot_free (?es ! f)" using f by simp
  moreover have "cyc i f \<le> 512" "0 < cyc i f" using cyc_less [of i f] cyc_0 [of i f] f i by auto
  ultimately obtain es' os' where lp: "slot_remove_loop 512 ?es ?os i i = Some (es', os')"
    and L: "length es' = 512" "probes_but None es'" "keys_unique es'" "owners_ok es' os'" "entries es' = entries ?es"
      "card (used_slots es') = card (used_slots ?es)"
    using remove_loop_spec [of i i ?es ?os f 512] by blast
  have data: "\<forall>e \<in> set es'. length (y_data e) = 8"
  proof (rule remove_loop_data [OF lp])
    have "?e \<in> set (h_e c)" using i I(1) by simp
    then show "\<forall>e \<in> set ?es. length (y_data e) = 8"
      using I(7) by (auto dest!: subsetD [OF set_update_subset_insert])
  qed (simp add: I(1))
  let ?c = "c\<lparr>h_e := es', h_lng_owner := os', h_used := h_used c - 1\<rparr>"
  have pos: "0 < unat (h_used c)" using I(9) iS card_gt_0_iff [of "used_slots (h_e c)"] by auto
  then have u: "unat (h_used c - 1) = unat (h_used c) - 1"
    by (metis One_nat_def Suc_leI unat_1 unat_sub word_le_nat_alt)
  have "slot_remove c i = Some ?c" using lp by (simp add: slot_remove_def Let_def)
  moreover have "cache_inv ?c"
    using L data I u crd ents pos unfolding cache_inv_def by auto
  ultimately show thesis using L(5) ents u by (intro that [of ?c]) simp_all
qed

end
