(* ===== verification/J1939_Cache_Spec.thy ===== *)
theory J1939_Cache_Spec
  imports J1939_Cache
begin

text \<open>
  What the message cache of \<^verbatim>\<open>j1939_cache_core.c\<close> promises: the table as a map from
  (group, source, destination) to the newest payload and its time, the specification
  \<open>abs_put\<close> of a put on that map, and the proof that \<open>j1939_cache_put\<close> refines it and that its
  removal loop ends; the choice of the wildcard lookup; and the table of sources.
\<close>

section \<open>The table as a map\<close>

type_synonym cache_abs = "cache_key \<Rightarrow> (bytes \<times> int) option"

definition payload_of :: "bytes list \<Rightarrow> j1939_entry \<Rightarrow> bytes" where
  "payload_of lng e = take (unat (y_len e)) (case y_lng e of None \<Rightarrow> y_data e | Some b \<Rightarrow> lng ! b)"

definition cache_view :: "j1939_cache \<Rightarrow> cache_abs" where
  "cache_view c k = map_option (\<lambda>i. (j1939_cache_payload c i, y_rx_us (h_e c ! i)))
     (find_idx (\<lambda>e. \<not> slot_free e \<and> key_of e = k) (h_e c))"

lemma payload_entry: "j1939_cache_payload c i = payload_of (h_lng c) (h_e c ! i)"
  by (simp add: j1939_cache_payload_def payload_of_def Let_def)

lemma entriesI: "p < 512 \<Longrightarrow> used es p \<Longrightarrow> es ! p \<in> entries es"
  by (auto simp: entries_def used_slots_def)

lemma entriesE:
  assumes "e \<in> entries es"
  obtains p where "p < 512" "used es p" "e = es ! p"
  using assms by (auto simp: entries_def used_slots_def)

lemma key_of_inj:
  assumes "keys_unique es" "e \<in> entries es" "e' \<in> entries es" "key_of e = key_of e'"
  shows "e = e'"
proof -
  obtain p where p: "p < 512" "used es p" "e = es ! p" using assms(2) by (rule entriesE)
  obtain q where q: "q < 512" "used es q" "e' = es ! q" using assms(3) by (rule entriesE)
  have "p = q" using p q assms(1,4) unfolding keys_unique_def by blast
  with p q show ?thesis by simp
qed

lemma card_entries:
  assumes "keys_unique es"
  shows "card (entries es) = card (used_slots es)"
  unfolding entries_def
  by (rule card_image, rule inj_onI)
    (metis (no_types, lifting) assms keys_unique_def mem_Collect_eq used_slots_def)

lemma view_iff:
  assumes "cache_inv c"
  shows "cache_view c k = Some v \<longleftrightarrow>
    (\<exists>e \<in> entries (h_e c). key_of e = k \<and> v = (payload_of (h_lng c) e, y_rx_us e))"
proof
  assume "cache_view c k = Some v"
  then obtain i where i: "find_idx (\<lambda>e. \<not> slot_free e \<and> key_of e = k) (h_e c) = Some i"
    "v = (payload_of (h_lng c) (h_e c ! i), y_rx_us (h_e c ! i))"
    by (auto simp: cache_view_def payload_entry)
  with find_idx_SomeD [OF i(1)] cache_invD(1) [OF assms]
  show "\<exists>e \<in> entries (h_e c). key_of e = k \<and> v = (payload_of (h_lng c) e, y_rx_us e)"
    by (auto intro!: bexI [of _ "h_e c ! i"] entriesI)
next
  assume "\<exists>e \<in> entries (h_e c). key_of e = k \<and> v = (payload_of (h_lng c) e, y_rx_us e)"
  then obtain e where e: "e \<in> entries (h_e c)" "key_of e = k" "v = (payload_of (h_lng c) e, y_rx_us e)"
    by blast
  from e(1) obtain p where p: "p < 512" "used (h_e c) p" "e = h_e c ! p" by (rule entriesE)
  let ?P = "\<lambda>e. \<not> slot_free e \<and> key_of e = k"
  have "find_idx ?P (h_e c) \<noteq> None"
    using p e cache_invD(1) [OF assms] nth_mem [of p "h_e c"] by (auto simp: find_idx_None_iff simp del: nth_mem)
  then obtain i where i: "find_idx ?P (h_e c) = Some i" by auto
  from find_idx_SomeD [OF this] cache_invD(1) [OF assms] have "h_e c ! i \<in> entries (h_e c)" "key_of (h_e c ! i) = k"
    by (auto intro: entriesI)
  with key_of_inj [OF cache_invD(3) [OF assms] e(1)] e have "h_e c ! i = e" by simp
  with i e show "cache_view c k = Some v" by (simp add: cache_view_def payload_entry)
qed

lemma view_entry:
  assumes "cache_inv c" "e \<in> entries (h_e c)"
  shows "cache_view c (key_of e) = Some (payload_of (h_lng c) e, y_rx_us e)"
  using assms by (auto simp: view_iff)

lemma option_eq_by: "(\<And>v. x = Some v \<longleftrightarrow> y = Some v) \<Longrightarrow> x = y"
  by (metis not_Some_eq)

lemma dom_view:
  assumes "cache_inv c"
  shows "dom (cache_view c) = key_of ` entries (h_e c)"
proof (rule set_eqI)
  fix k
  have "(\<exists>v. cache_view c k = Some v) \<longleftrightarrow> (\<exists>e \<in> entries (h_e c). key_of e = k)"
    unfolding view_iff [OF assms] by blast
  then show "k \<in> dom (cache_view c) \<longleftrightarrow> k \<in> key_of ` entries (h_e c)"
    unfolding dom_def image_iff not_None_eq by blast
qed

lemma card_dom_view:
  assumes "cache_inv c"
  shows "card (dom (cache_view c)) = unat (h_used c)"
proof -
  have "inj_on key_of (entries (h_e c))"
    using key_of_inj [OF cache_invD(3) [OF assms]] by (auto intro: inj_onI)
  then show ?thesis
    using card_entries [OF cache_invD(3) [OF assms]] cache_invD(9) [OF assms]
    by (simp add: dom_view [OF assms] card_image)
qed

lemma length_payload:
  assumes "cache_inv c" "e \<in> entries (h_e c)"
  shows "length (payload_of (h_lng c) e) = unat (y_len e)"
proof -
  note I = cache_invD [OF assms(1)]
  from assms(2) obtain p where p: "p < 512" "used (h_e c) p" "e = h_e c ! p" by (rule entriesE)
  with I(1,7) have d: "length (y_data e) = 8" by simp
  have pk: "payload_ok e" using I(8) assms(2) by blast
  show ?thesis
  proof (cases "y_lng e")
    case None
    with d pk show ?thesis by (simp add: payload_of_def payload_ok_def)
  next
    case (Some b)
    with I(4) p have "b < 12" unfolding owners_ok_def by blast
    with I(5,6) have "length (h_lng c ! b) = 1785" by simp
    with Some pk show ?thesis by (simp add: payload_of_def payload_ok_def)
  qed
qed

lemma long_entry:
  assumes "cache_inv c" "e \<in> entries (h_e c)"
  shows "8 < length (payload_of (h_lng c) e) \<longleftrightarrow> y_lng e \<noteq> None"
  using length_payload [OF assms] cache_invD(8) [OF assms] by (auto simp: payload_ok_def split: if_splits)

text \<open>Two tables with the same entries of a key and the same payloads of them.\<close>

lemma view_cong:
  assumes "cache_inv c" "cache_inv c'"
    and "\<And>e. key_of e = k \<Longrightarrow> e \<in> entries (h_e c') \<longleftrightarrow> e \<in> entries (h_e c)"
    and "\<And>e. key_of e = k \<Longrightarrow> e \<in> entries (h_e c) \<Longrightarrow> payload_of (h_lng c') e = payload_of (h_lng c) e"
  shows "cache_view c' k = cache_view c k"
proof -
  have "(e \<in> entries (h_e c') \<and> key_of e = k \<and> v = (payload_of (h_lng c') e, y_rx_us e)) \<longleftrightarrow>
      (e \<in> entries (h_e c) \<and> key_of e = k \<and> v = (payload_of (h_lng c) e, y_rx_us e))" for e v
    using assms(3,4) [of e] by auto
  then have "cache_view c' k = Some v \<longleftrightarrow> cache_view c k = Some v" for v
    unfolding view_iff [OF assms(1)] view_iff [OF assms(2)] Bex_def by simp
  then show ?thesis by (rule option_eq_by)
qed

lemma view_update:
  assumes "cache_inv c" "cache_inv c'" and "entries (h_e c') = insert e' E" and "E \<subseteq> entries (h_e c)"
    and "\<And>e. e \<in> entries (h_e c) \<Longrightarrow> e \<in> E \<or> key_of e = key_of e'"
    and "\<And>e. e \<in> E \<Longrightarrow> payload_of (h_lng c') e = payload_of (h_lng c) e"
  shows "cache_view c' = (cache_view c)(key_of e' \<mapsto> (payload_of (h_lng c') e', y_rx_us e'))"
proof
  fix k
  show "cache_view c' k = ((cache_view c)(key_of e' \<mapsto> (payload_of (h_lng c') e', y_rx_us e'))) k"
  proof (cases "k = key_of e'")
    case True
    with view_entry [OF assms(2), of e'] assms(3) show ?thesis by simp
  next
    case False
    have "cache_view c' k = cache_view c k"
    proof (rule view_cong [OF assms(1,2)])
      fix e
      assume k: "key_of e = k"
      with False have "e \<noteq> e'" by auto
      with k False assms(3,4) assms(5) [of e] show "e \<in> entries (h_e c') \<longleftrightarrow> e \<in> entries (h_e c)" by auto
    next
      fix e
      assume "key_of e = k" "e \<in> entries (h_e c)"
      with False assms(5,6) [of e] show "payload_of (h_lng c') e = payload_of (h_lng c) e" by auto
    qed
    with False show ?thesis by simp
  qed
qed

lemma view_remove:
  assumes "cache_inv c" "cache_inv c'" and "e \<in> entries (h_e c)" and "entries (h_e c') = entries (h_e c) - {e}"
    and "h_lng c' = h_lng c"
  shows "cache_view c' = (cache_view c)(key_of e := None)"
proof
  fix k
  show "cache_view c' k = ((cache_view c)(key_of e := None)) k"
  proof (cases "k = key_of e")
    case True
    have "cache_view c' (key_of e) \<noteq> Some v" for v
      using assms(3,4) key_of_inj [OF cache_invD(3) [OF assms(1)]] by (auto simp: view_iff [OF assms(2)])
    with True show ?thesis by (cases "cache_view c' (key_of e)") auto
  next
    case False
    then have "cache_view c' k = cache_view c k"
      using assms(4,5) by (intro view_cong [OF assms(1,2)]) auto
    with False show ?thesis by simp
  qed
qed

section \<open>The steps of a put\<close>

lemma slot_oldest_prefix:
  "case fold (\<lambda>i best. if used es i \<and> (case best of None \<Rightarrow> True | Some b \<Rightarrow> y_rx_us (es ! i) < y_rx_us (es ! b))
       then Some i else best) [0..<n] None of
     None \<Rightarrow> (\<forall>p < n. slot_free (es ! p))
   | Some b \<Rightarrow> b < n \<and> used es b \<and> (\<forall>p < n. used es p \<longrightarrow> y_rx_us (es ! b) \<le> y_rx_us (es ! p))"
proof (induction n)
  case 0
  then show ?case by simp
next
  case (Suc n)
  then show ?case by (auto split: option.splits if_splits simp: less_Suc_eq)
qed

lemma slot_oldest_spec:
  assumes "cache_inv c" "h_used c \<ge> 384"
  obtains i where "slot_oldest c = Some i" "i < 512" "used (h_e c) i"
    "\<And>e. e \<in> entries (h_e c) \<Longrightarrow> y_rx_us (h_e c ! i) \<le> y_rx_us e"
proof -
  have "384 \<le> unat (h_used c)" using assms(2) by (simp add: word_le_nat_alt)
  then have "used_slots (h_e c) \<noteq> {}" using cache_invD(9) [OF assms(1)] by auto
  then obtain p where "p < 512" "used (h_e c) p" by (auto simp: used_slots_def)
  with slot_oldest_prefix [where es = "h_e c" and n = 512] that show thesis
    unfolding slot_oldest_def by (auto split: option.splits elim!: entriesE)
qed

abbreviation lng_time :: "j1939_cache \<Rightarrow> nat \<Rightarrow> int" where
  "lng_time c b \<equiv> y_rx_us (h_e c ! the (h_lng_owner c ! b))"

lemma lng_pick_free:
  "\<exists>b \<in> set bs. h_lng_owner c ! b = None \<Longrightarrow>
   \<exists>b \<in> set bs. lng_pick c pick bs = Some b \<and> h_lng_owner c ! b = None"
proof (induction bs arbitrary: pick)
  case Nil
  then show ?case by simp
next
  case (Cons b bs)
  show ?case
  proof (cases "h_lng_owner c ! b")
    case None
    then show ?thesis by simp
  next
    case (Some l)
    with Cons.prems have "\<exists>b \<in> set bs. h_lng_owner c ! b = None" by auto
    from Cons.IH [OF this, of "Some b"] Cons.IH [OF this, of pick] Some show ?thesis by auto
  qed
qed

lemma lng_pick_owned:
  assumes "\<forall>b \<in> set bs. h_lng_owner c ! b \<noteq> None" and "bs \<noteq> [] \<or> pick \<noteq> None"
  shows "\<exists>p \<in> set bs \<union> set_option pick. lng_pick c pick bs = Some p \<and>
    (\<forall>b \<in> set bs \<union> set_option pick. lng_time c p \<le> lng_time c b)"
  using assms
proof (induction bs arbitrary: pick)
  case Nil
  then show ?case by auto
next
  case (Cons b bs)
  from Cons.prems obtain l where l: "h_lng_owner c ! b = Some l" by auto
  have bs: "\<forall>b \<in> set bs. h_lng_owner c ! b \<noteq> None" using Cons.prems by simp
  show ?case
  proof (cases "pick = None \<or> lng_time c b < lng_time c (the pick)")
    case True
    then have "lng_pick c pick (b # bs) = lng_pick c (Some b) bs"
      using l by (auto split: option.splits)
    with Cons.IH [OF bs, of "Some b"] True show ?thesis by (auto split: option.splits)
  next
    case False
    then obtain p where p: "pick = Some p" "lng_time c p \<le> lng_time c b" by auto
    then have "lng_pick c pick (b # bs) = lng_pick c pick bs" using l by auto
    with Cons.IH [OF bs, of pick] p show ?thesis by auto
  qed
qed

lemma owners_okD:
  assumes "owners_ok es os"
  shows "length os = 12"
    and "b < 12 \<Longrightarrow> os ! b = Some p \<Longrightarrow> p < 512 \<and> used es p \<and> y_lng (es ! p) = Some b"
    and "p < 512 \<Longrightarrow> used es p \<Longrightarrow> y_lng (es ! p) = Some b \<Longrightarrow> b < 12 \<and> os ! b = Some p"
  using assms unfolding owners_ok_def by blast+

lemma owners_okI:
  assumes "length os = 12"
    and "\<And>b p. b < 12 \<Longrightarrow> os ! b = Some p \<Longrightarrow> p < 512 \<and> used es p \<and> y_lng (es ! p) = Some b"
    and "\<And>b p. p < 512 \<Longrightarrow> used es p \<Longrightarrow> y_lng (es ! p) = Some b \<Longrightarrow> b < 12 \<and> os ! b = Some p"
  shows "owners_ok es os"
  using assms unfolding owners_ok_def by blast

lemma used_key: "key_of e = key_of e' \<Longrightarrow> slot_free e = slot_free e'"
  by (simp add: key_of_def slot_free_def)

text \<open>Slot \<open>i\<close> gets another entry of the same key.\<close>

lemma replace_entry:
  assumes len: "length es = 512" and i: "i < 512" "used es i" and key: "key_of e' = key_of (es ! i)"
  shows "used (es[i := e']) p \<longleftrightarrow> used es p" 
    and "probes_but None es \<Longrightarrow> probes_but None (es[i := e'])"
    and "keys_unique es \<Longrightarrow> keys_unique (es[i := e'])"
    and "used_slots (es[i := e']) = used_slots es"
    and "keys_unique es \<Longrightarrow> entries (es[i := e']) = insert e' (entries es - {es ! i})"
proof -
  let ?es = "es[i := e']"
  have nth: "?es ! p = (if p = i then e' else es ! p)" for p
    using i len by (simp add: nth_list_update)
  have keys: "key_of (?es ! p) = key_of (es ! p)" for p using key by (simp add: nth)
  show used: "used ?es p \<longleftrightarrow> used es p" for p using used_key [OF keys] by simp
  have home: "home_of (?es ! p) = home_of (es ! p)" for p
    using keys [of p] by (simp add: key_of_def home_of_def)
  show "probes_but None ?es" if "probes_but None es"
    using that unfolding probes_but_def used home by simp
  show "keys_unique ?es" if "keys_unique es"
    using that unfolding keys_unique_def used keys by simp
  show slots: "used_slots ?es = used_slots es" unfolding used_slots_def used by simp
  assume ku: "keys_unique es"
  have "i \<in> used_slots es" using i by (simp add: used_slots_def)
  then have "entries ?es = insert (?es ! i) ((!) ?es ` (used_slots es - {i}))"
    unfolding entries_def slots by (metis image_insert insert_Diff)
  then have "entries ?es = insert e' ((!) ?es ` (used_slots es - {i}))"
    using nth [of i] by simp
  also have "(!) ?es ` (used_slots es - {i}) = (!) es ` (used_slots es - {i})"
    by (rule image_cong) (auto simp: nth)
  also have "\<dots> = entries es - {es ! i}"
    using ku i unfolding entries_def keys_unique_def used_slots_def by (auto simp: image_iff)
  finally show "entries ?es = insert e' (entries es - {es ! i})" .
qed

lemma owners_keep:
  assumes "owners_ok es os" "length es = 512" "i < 512" "used es i" "key_of e' = key_of (es ! i)"
    and "y_lng e' = y_lng (es ! i)"
  shows "owners_ok (es[i := e']) os"
proof (rule owners_okI)
  have nth: "es[i := e'] ! p = (if p = i then e' else es ! p)" for p
    using assms(2,3) by (simp add: nth_list_update)
  note O = owners_okD [OF assms(1)] and R = replace_entry(1) [OF assms(2-5)]
  show "length os = 12" by (rule O)
  show "p < 512 \<and> used (es[i := e']) p \<and> y_lng (es[i := e'] ! p) = Some b"
    if "b < 12" "os ! b = Some p" for b p
    using O(2) [OF that] R [of p] assms(6) by (auto simp: nth)
  show "b < 12 \<and> os ! b = Some p"
    if "p < 512" "used (es[i := e']) p" "y_lng (es[i := e'] ! p) = Some b" for b p
    using O(3) [of p b] that R assms(6) by (simp add: nth split: if_splits)
qed

lemma owners_release:
  assumes "owners_ok es os" "length es = 512" "i < 512" "used es i" "key_of e' = key_of (es ! i)"
    and "y_lng e' = None"
  shows "owners_ok (es[i := e']) (owner_set (y_lng (es ! i)) None os)" (is "owners_ok _ ?os")
proof (rule owners_okI)
  have nth: "es[i := e'] ! p = (if p = i then e' else es ! p)" for p
    using assms(2,3) by (simp add: nth_list_update)
  note O = owners_okD [OF assms(1)] and R = replace_entry(1) [OF assms(2-5)]
  have os: "?os ! b = (if y_lng (es ! i) = Some b then None else os ! b)" if "b < 12" for b
    using that O(1) by (auto simp: owner_set_def split: option.splits)
  show "length ?os = 12" using O(1) by (simp add: owner_set_def split: option.split)
  show "p < 512 \<and> used (es[i := e']) p \<and> y_lng (es[i := e'] ! p) = Some b"
    if "b < 12" "?os ! b = Some p" for b p
  proof -
    have ob: "os ! b = Some p" "y_lng (es ! i) \<noteq> Some b" using that os by (auto split: if_splits)
    with O(2) [OF that(1) ob(1)] R show ?thesis by (auto simp: nth)
  qed
  show "b < 12 \<and> ?os ! b = Some p"
    if p: "p < 512" "used (es[i := e']) p" "y_lng (es[i := e'] ! p) = Some b" for b p
  proof -
    from p assms(6) have pi: "p \<noteq> i" "used es p" "y_lng (es ! p) = Some b"
      using R by (auto simp: nth split: if_splits)
    from O(3) [OF p(1) pi(2,3)] O(3) [OF assms(3,4), of b] pi os show ?thesis by auto
  qed
qed

lemma owners_take:
  assumes "owners_ok es os" "length es = 512" "i < 512" "used es i" "key_of e' = key_of (es ! i)"
    and "y_lng (es ! i) = None" "y_lng e' = Some b" "b < 12" "os ! b = None"
  shows "owners_ok (es[i := e']) (os[b := Some i])"
proof (rule owners_okI)
  have nth: "es[i := e'] ! p = (if p = i then e' else es ! p)" for p
    using assms(2,3) by (simp add: nth_list_update)
  note O = owners_okD [OF assms(1)] and R = replace_entry(1) [OF assms(2-5)]
  have os: "os[b := Some i] ! a = (if a = b then Some i else os ! a)" for a
    using assms(8) O(1) by (simp add: nth_list_update)
  show "length (os[b := Some i]) = 12" using O(1) by simp
  show "p < 512 \<and> used (es[i := e']) p \<and> y_lng (es[i := e'] ! p) = Some a"
    if "a < 12" "os[b := Some i] ! a = Some p" for a p
  proof (cases "a = b")
    case True
    with that os have pi: "p = i" by simp
    from R [of i] assms(3,4,7) True show ?thesis unfolding pi nth by simp
  next
    case False
    with that os have "os ! a = Some p" by simp
    from O(2) [OF that(1) this] R assms(6) show ?thesis by (auto simp: nth)
  qed
  show "a < 12 \<and> os[b := Some i] ! a = Some p"
    if p: "p < 512" "used (es[i := e']) p" "y_lng (es[i := e'] ! p) = Some a" for a p
  proof (cases "p = i")
    case True
    with p assms(7,8) O(1) show ?thesis by (simp add: nth)
  next
    case False
    with p R have "used es p" "y_lng (es ! p) = Some a" by (auto simp: nth)
    from O(3) [OF p(1) this] assms(9) os show ?thesis by auto
  qed
qed

lemma store_replace:
  assumes inv: "cache_inv c" and i: "i < 512" "used (h_e c) i" and key: "key_of e' = key_of (h_e c ! i)"
    and e': "length (y_data e') = 8" "payload_ok e'"
    and c': "h_e c' = (h_e c)[i := e']" "h_used c' = h_used c" "owners_ok (h_e c') (h_lng_owner c')"
      "length (h_lng c') = 12" "\<And>d. d \<in> set (h_lng c') \<Longrightarrow> length d = 1785"
    and others: "\<And>e. e \<in> entries (h_e c) \<Longrightarrow> e \<noteq> h_e c ! i \<Longrightarrow> payload_of (h_lng c') e = payload_of (h_lng c) e"
  shows "cache_inv c' \<and> cache_view c' = (cache_view c)(key_of e' \<mapsto> (payload_of (h_lng c') e', y_rx_us e'))"
proof -
  note I = cache_invD [OF inv]
  note R = replace_entry [OF I(1) i key]
  have inv': "cache_inv c'"
    unfolding cache_inv_def c'(1,2) R(4) R(5) [OF I(3)]
    using R(2) [OF I(2)] R(3) [OF I(3)] c'(3) [unfolded c'(1)] c'(4,5) I e'
    by (auto dest!: subsetD [OF set_update_subset_insert])
  moreover have "cache_view c' = (cache_view c)(key_of e' \<mapsto> (payload_of (h_lng c') e', y_rx_us e'))"
  proof (rule view_update [OF inv inv'])
    show "entries (h_e c') = insert e' (entries (h_e c) - {h_e c ! i})"
      unfolding c'(1) by (rule R(5) [OF I(3)])
  qed (use key others in auto)
  ultimately show ?thesis ..
qed

lemma entry_time_simps [simp]:
  "key_of (entry_time e now) = key_of e" "y_lng (entry_time e now) = y_lng e"
  "y_data (entry_time e now) = y_data e" "y_rx_us (entry_time e now) = now" "y_len (entry_time e now) = y_len e"
  "slot_free (entry_time e now) = slot_free e"
  by (simp_all add: entry_time_def key_of_def slot_free_def Let_def)

lemma key_of_updates [simp]:
  "key_of (e\<lparr>y_lng := l\<rparr>) = key_of e" "key_of (e\<lparr>y_len := n\<rparr>) = key_of e" "key_of (e\<lparr>y_data := d\<rparr>) = key_of e"
  by (simp_all add: key_of_def)

lemma entry_data:
  assumes "cache_inv c" "i < 512"
  shows "length (y_data (h_e c ! i)) = 8"
  using cache_invD(1,7) [OF assms(1)] assms(2) by simp

lemma store_short:
  assumes inv: "cache_inv c" and i: "i < 512" "used (h_e c) i" and len: "length data \<le> 8"
  shows "cache_inv (entry_store c i data now) \<and>
    cache_view (entry_store c i data now) = (cache_view c)(key_of (h_e c ! i) \<mapsto> (data, now))"
proof -
  note I = cache_invD [OF inv]
  let ?e = "h_e c ! i"
  let ?e' = "(entry_time ?e now)\<lparr>y_lng := None, y_data := blit 0 data (y_data ?e), y_len := of_nat (length data)\<rparr>"
  let ?os = "owner_set (y_lng ?e) None (h_lng_owner c)"
  have st: "entry_store c i data now =
      c\<lparr>h_e := (h_e c)[i := ?e'], h_lng_owner := ?os, h_seq := h_seq c + 1\<rparr>"
    using len i I(1) by (simp add: entry_store_def Let_def)
  have u: "unat (of_nat (length data) :: u16) = length data"
    using len by (simp add: unat_of_nat_small)
  have d8: "length (y_data ?e) = 8" by (rule entry_data [OF inv i(1)])
  have pay: "payload_of (h_lng c) ?e' = data"
    using len d8 take_blit [of 0 "y_data ?e" data] by (simp add: payload_of_def u)
  have "cache_inv (entry_store c i data now) \<and> cache_view (entry_store c i data now) =
      (cache_view c)(key_of ?e' \<mapsto> (payload_of (h_lng (entry_store c i data now)) ?e', y_rx_us ?e'))"
  proof (rule store_replace [OF inv i])
    show "owners_ok (h_e (entry_store c i data now)) (h_lng_owner (entry_store c i data now))"
      unfolding st using owners_release [OF I(4,1) i, of ?e'] by simp
  qed (use I len d8 in \<open>simp_all add: st payload_ok_def u\<close>)
  with pay show ?thesis by (simp add: st)
qed

text \<open>A long payload written to the buffer \<open>b\<close> of slot \<open>i\<close>.\<close>

definition store_long :: "j1939_cache \<Rightarrow> nat \<Rightarrow> nat \<Rightarrow> bytes \<Rightarrow> int \<Rightarrow> j1939_cache" where
  "store_long c i b data now =
     c\<lparr>h_e := (h_e c)[i := (entry_time (h_e c ! i) now)\<lparr>y_lng := Some b, y_len := of_nat (length data)\<rparr>],
       h_lng_owner := (h_lng_owner c)[b := Some i],
       h_lng := (h_lng c)[b := blit 0 data (h_lng c ! b)], h_seq := h_seq c + 1\<rparr>"

lemma store_long_view:
  assumes inv: "cache_inv c" and i: "i < 512" "used (h_e c) i" and len: "8 < length data" "length data \<le> 1785"
    and b: "b < 12" and own: "y_lng (h_e c ! i) = Some b \<or> (y_lng (h_e c ! i) = None \<and> h_lng_owner c ! b = None)"
  shows "cache_inv (store_long c i b data now) \<and>
    cache_view (store_long c i b data now) = (cache_view c)(key_of (h_e c ! i) \<mapsto> (data, now))"
proof -
  note I = cache_invD [OF inv]
  let ?e = "h_e c ! i" and ?c = "store_long c i b data now"
  let ?e' = "(entry_time ?e now)\<lparr>y_lng := Some b, y_len := of_nat (length data)\<rparr>"
  have u: "unat (of_nat (length data) :: u16) = length data"
    using len by (simp add: unat_of_nat_small)
  have lb: "length (h_lng c ! b) = 1785" using I(5,6) b by simp
  have pay: "payload_of (h_lng ?c) ?e' = data"
    using len b I(5) lb take_blit [of 0 "h_lng c ! b" data] by (simp add: payload_of_def u store_long_def)
  have "cache_inv ?c \<and> cache_view ?c = (cache_view c)(key_of ?e' \<mapsto> (payload_of (h_lng ?c) ?e', y_rx_us ?e'))"
  proof (rule store_replace [OF inv i])
    show "owners_ok (h_e ?c) (h_lng_owner ?c)"
    proof (cases "y_lng ?e = Some b")
      case True
      with owners_okD(3) [OF I(4) i] have "(h_lng_owner c)[b := Some i] = h_lng_owner c"
        by (metis list_update_id)
      with True owners_keep [OF I(4,1) i, of ?e'] show ?thesis by (simp add: store_long_def)
    next
      case False
      with own owners_take [OF I(4,1) i, of ?e' b] b show ?thesis by (simp add: store_long_def)
    qed
    show "payload_of (h_lng ?c) e = payload_of (h_lng c) e" if e: "e \<in> entries (h_e c)" "e \<noteq> ?e" for e
    proof -
      have "y_lng e \<noteq> Some b"
      proof
        assume lb: "y_lng e = Some b"
        from e(1) obtain p where p: "p < 512" "used (h_e c) p" "e = h_e c ! p" by (rule entriesE)
        from owners_okD(3) [OF I(4) p(1,2)] lb p have "h_lng_owner c ! b = Some p" by simp
        with own owners_okD(3) [OF I(4) i, of b] p e show False by auto
      qed
      then show ?thesis by (auto simp: payload_of_def store_long_def split: option.split)
    qed
    show "length d = 1785" if "d \<in> set (h_lng ?c)" for d
      using that I(6) lb len by (auto simp: store_long_def dest!: subsetD [OF set_update_subset_insert])
  qed (use I len entry_data [OF inv i(1)] in \<open>simp_all add: store_long_def payload_ok_def u\<close>)
  with pay show ?thesis by simp
qed

text \<open>The owner of the long buffer \<open>b\<close> loses it and its payload.\<close>

definition lng_shed :: "j1939_cache \<Rightarrow> nat \<Rightarrow> j1939_cache" where
  "lng_shed c b = (let l = the (h_lng_owner c ! b) in
     c\<lparr>h_e := (h_e c)[l := (h_e c ! l)\<lparr>y_lng := None, y_len := 0\<rparr>],
       h_lng_owner := (h_lng_owner c)[b := None], h_lng_evicted := h_lng_evicted c + 1\<rparr>)"

lemma shed_view:
  assumes inv: "cache_inv c" and b: "b < 12" "h_lng_owner c ! b = Some l"
  shows "cache_inv (lng_shed c b) \<and> cache_view (lng_shed c b) =
      (cache_view c)(key_of (h_e c ! l) \<mapsto> ([], y_rx_us (h_e c ! l)))"
proof -
  note I = cache_invD [OF inv]
  have l: "l < 512" "used (h_e c) l" "y_lng (h_e c ! l) = Some b" using owners_okD(2) [OF I(4) b] by auto
  let ?e' = "(h_e c ! l)\<lparr>y_lng := None, y_len := 0\<rparr>" and ?c = "lng_shed c b"
  have "cache_inv ?c \<and> cache_view ?c = (cache_view c)(key_of ?e' \<mapsto> (payload_of (h_lng ?c) ?e', y_rx_us ?e'))"
  proof (rule store_replace [OF inv l(1,2)])
    show "owners_ok (h_e ?c) (h_lng_owner ?c)"
      using owners_release [OF I(4,1) l(1,2), of ?e'] l(3) b by (simp add: lng_shed_def Let_def owner_set_def)
  qed (use I b entry_data [OF inv l(1)] in \<open>simp_all add: lng_shed_def Let_def payload_ok_def\<close>)
  then show ?thesis by (simp add: payload_of_def)
qed

section \<open>What a put may do to the map\<close>

text \<open>The specification: at most 384 keys, at most twelve of them with more than eight bytes; the
  oldest makes room.\<close>

definition long_keys :: "cache_abs \<Rightarrow> cache_key set" where
  "long_keys V = {k. \<exists>d t. V k = Some (d, t) \<and> 8 < length d}"

definition oldest_in :: "cache_abs \<Rightarrow> cache_key set \<Rightarrow> cache_key \<Rightarrow> bool" where
  "oldest_in V S k \<longleftrightarrow> k \<in> S \<and> (\<exists>v. V k = Some v \<and> (\<forall>k' \<in> S. \<forall>v'. V k' = Some v' \<longrightarrow> snd v \<le> snd v'))"

definition abs_full :: "cache_abs \<Rightarrow> int \<Rightarrow> bool" where
  "abs_full V now \<longleftrightarrow> 384 \<le> card (dom V) \<and> (\<forall>k v. V k = Some v \<longrightarrow> now - snd v < J1939_EVICT_AGE_US)"

definition abs_room :: "cache_abs \<Rightarrow> int \<Rightarrow> cache_abs \<Rightarrow> bool" where
  "abs_room V now V' \<longleftrightarrow>
     (if card (dom V) < 384 then V' = V
      else \<exists>k. oldest_in V (dom V) k \<and> now - snd (the (V k)) \<ge> J1939_EVICT_AGE_US \<and> V' = V(k := None))"

definition abs_long_room :: "cache_abs \<Rightarrow> cache_abs \<Rightarrow> bool" where
  "abs_long_room V V' \<longleftrightarrow>
     (if card (long_keys V) < 12 then V' = V
      else \<exists>k. oldest_in V (long_keys V) k \<and> V' = V(k \<mapsto> ([], snd (the (V k)))))"

definition abs_store :: "cache_abs \<Rightarrow> cache_key \<Rightarrow> bytes \<Rightarrow> int \<Rightarrow> cache_abs \<Rightarrow> bool" where
  "abs_store V k data now V' \<longleftrightarrow>
     (\<exists>V2. (if length data \<le> 8 \<or> k \<in> long_keys V then V2 = V else abs_long_room V V2) \<and>
        V' = V2(k \<mapsto> (data, now)))"

definition abs_put :: "cache_abs \<Rightarrow> cache_key \<Rightarrow> bytes \<Rightarrow> int \<Rightarrow> cache_abs \<Rightarrow> bool \<Rightarrow> bool" where
  "abs_put V k data now V' stored \<longleftrightarrow>
     (if k \<in> dom V then stored \<and> abs_store V k data now V'
      else if abs_full V now then \<not> stored \<and> V' = V
      else stored \<and> (\<exists>V1. abs_room V now V1 \<and> abs_store V1 k data now V'))"

lemma long_keys_view:
  assumes inv: "cache_inv c"
  shows "long_keys (cache_view c) = (\<lambda>b. key_of (h_e c ! the (h_lng_owner c ! b))) ` {b. b < 12 \<and> h_lng_owner c ! b \<noteq> None}"
    (is "?L = ?f ` ?B")
proof (rule set_eqI)
  fix k
  note I = cache_invD [OF inv]
  show "k \<in> ?L \<longleftrightarrow> k \<in> ?f ` ?B"
  proof
    assume "k \<in> ?L"
    then obtain e where e: "e \<in> entries (h_e c)" "key_of e = k" "8 < length (payload_of (h_lng c) e)"
      by (auto simp: long_keys_def view_iff [OF inv])
    with long_entry [OF inv e(1)] obtain b where b: "y_lng e = Some b" by auto
    from e(1) obtain p where p: "p < 512" "used (h_e c) p" "e = h_e c ! p" by (rule entriesE)
    with owners_okD(3) [OF I(4) p(1,2), of b] b e show "k \<in> ?f ` ?B" by (auto intro!: image_eqI [of _ _ b])
  next
    assume "k \<in> ?f ` ?B"
    then obtain b p where b: "b < 12" "h_lng_owner c ! b = Some p" "k = key_of (h_e c ! p)" by auto
    with owners_okD(2) [OF I(4) b(1,2)] have p: "h_e c ! p \<in> entries (h_e c)" "y_lng (h_e c ! p) = Some b"
      by (auto intro: entriesI)
    with long_entry [OF inv p(1)] view_entry [OF inv p(1)] b show "k \<in> ?L" by (auto simp: long_keys_def)
  qed
qed

lemma card_long_keys:
  assumes inv: "cache_inv c"
  shows "card (long_keys (cache_view c)) = card {b. b < 12 \<and> h_lng_owner c ! b \<noteq> None}"
proof -
  note I = cache_invD [OF inv]
  show ?thesis unfolding long_keys_view [OF inv]
  proof (rule card_image, rule inj_onI)
    fix a b
    assume "a \<in> {b. b < 12 \<and> h_lng_owner c ! b \<noteq> None}" "b \<in> {b. b < 12 \<and> h_lng_owner c ! b \<noteq> None}"
      and same: "key_of (h_e c ! the (h_lng_owner c ! a)) = key_of (h_e c ! the (h_lng_owner c ! b))"
    then obtain p q where ab: "a < 12" "h_lng_owner c ! a = Some p" "b < 12" "h_lng_owner c ! b = Some q" by auto
    note pq = owners_okD(2) [OF I(4) ab(1,2)] owners_okD(2) [OF I(4) ab(3,4)]
    have "h_e c ! p = h_e c ! q"
      by (rule key_of_inj [OF I(3)]) (use pq ab same in \<open>auto intro: entriesI\<close>)
    with pq show "a = b" by simp
  qed
qed

lemma card_all_12:
  assumes "B \<subseteq> {..<12 :: nat}"
  shows "card B < 12 \<longleftrightarrow> (\<exists>b < 12. b \<notin> B)"
proof
  assume "card B < 12"
  then have "B \<noteq> {..<12}" by auto
  with assms show "\<exists>b < 12. b \<notin> B" by auto
next
  assume "\<exists>b < 12. b \<notin> B"
  with assms have "B \<subset> {..<12}" by auto
  then show "card B < 12" using psubset_card_mono [of "{..<12}" B] by simp
qed

lemma long_room_left:
  "cache_inv c \<Longrightarrow> card (long_keys (cache_view c)) < 12 \<longleftrightarrow> (\<exists>b < 12. h_lng_owner c ! b = None)"
  using card_all_12 [of "{b. b < 12 \<and> h_lng_owner c ! b \<noteq> None}"] by (auto simp: card_long_keys)

lemma entry_store_own:
  assumes inv: "cache_inv c" and i: "i < 512" "used (h_e c) i" and "8 < length data" and b: "y_lng (h_e c ! i) = Some b"
  shows "entry_store c i data now = store_long c i b data now"
proof -
  note I = cache_invD [OF inv]
  have own: "(h_lng_owner c)[b := Some i] = h_lng_owner c"
    using owners_okD(3) [OF I(4) i b] by (metis list_update_id)
  have upd: "(e\<lparr>y_lng := Some b, y_len := n\<rparr>) = e\<lparr>y_len := n\<rparr>" if "y_lng e = Some b" for e :: j1939_entry and n
    using that by (cases e) simp
  show ?thesis
    using assms(4) b i I(1) own
    by (simp add: entry_store_def store_long_def lng_take_def Let_def upd)
qed

lemma entry_store_take:
  assumes inv: "cache_inv c" and i: "i < 512" "used (h_e c) i" and "8 < length data" and none: "y_lng (h_e c ! i) = None"
  obtains b where "b < 12"
    "if \<exists>b < 12. h_lng_owner c ! b = None then
        h_lng_owner c ! b = None \<and> entry_store c i data now = store_long c i b data now
      else entry_store c i data now = store_long (lng_shed c b) i b data now \<and>
        (\<forall>a < 12. lng_time c b \<le> lng_time c a)"
proof -
  note I = cache_invD [OF inv]
  let ?c1 = "c\<lparr>h_e := (h_e c)[i := entry_time (h_e c ! i) now]\<rparr>"
  have len: "i < length (h_e c)" using i I(1) by simp
  have ni: "p \<noteq> i" if "b < 12" "h_lng_owner c ! b = Some p" for b p
    using owners_okD(2) [OF I(4) that] none by auto
  have time: "lng_time ?c1 b = lng_time c b" if "b < 12" "h_lng_owner c ! b \<noteq> None" for b
    using that ni [of b] by auto
  show thesis
  proof (cases "\<exists>b < 12. h_lng_owner c ! b = None")
    case True
    then have "\<exists>b \<in> set [0..<12]. h_lng_owner ?c1 ! b = None" by auto
    from lng_pick_free [OF this, of None] obtain b where b: "b < 12" "lng_pick ?c1 None [0..<12] = Some b"
      "h_lng_owner c ! b = None" by auto
    have "entry_store c i data now = store_long c i b data now"
      using assms(4) none b len by (simp add: entry_store_def store_long_def lng_take_def Let_def)
    with True b that show thesis by auto
  next
    case False
    then have "\<forall>b \<in> set [0..<12]. h_lng_owner ?c1 ! b \<noteq> None" by auto
    from lng_pick_owned [OF this, of None] obtain b where b: "b < 12" "lng_pick ?c1 None [0..<12] = Some b"
      and old: "\<forall>a < 12. lng_time ?c1 b \<le> lng_time ?c1 a" by auto
    from False b obtain l where l: "h_lng_owner c ! b = Some l" by auto
    with ni b have li: "l \<noteq> i" by blast
    have "entry_store c i data now = store_long (lng_shed c b) i b data now"
      using assms(4) none b l li len
      by (simp add: entry_store_def store_long_def lng_take_def lng_shed_def Let_def
          list_update_swap [of l i])
    moreover have "\<forall>a < 12. lng_time c b \<le> lng_time c a"
      using old False time b by metis
    ultimately show thesis using False b(1) by (intro that [of b]) auto
  qed
qed

lemma store_long_key:
  assumes "cache_inv c" "i < 512"
  shows "key_of (h_e (store_long c i b data now) ! i) = key_of (h_e c ! i)"
  using assms cache_invD(1) [OF assms(1)] by (simp add: store_long_def)

lemma shed_other:
  assumes "cache_inv c" "h_lng_owner c ! b = Some l" "l \<noteq> i"
  shows "h_e (lng_shed c b) ! i = h_e c ! i"
  using assms by (simp add: lng_shed_def Let_def)

lemma shed_owner:
  assumes "cache_inv c" "b < 12"
  shows "h_lng_owner (lng_shed c b) ! b = None"
  using assms owners_okD(1) [OF cache_invD(4) [OF assms(1)]] by (simp add: lng_shed_def Let_def)

lemma entry_store_spec:
  fixes c :: j1939_cache and data :: bytes and now :: int
  assumes inv: "cache_inv c" and i: "i < 512" "used (h_e c) i" and len: "length data \<le> 1785"
  defines "k \<equiv> key_of (h_e c ! i)" and "V \<equiv> cache_view c" and "c' \<equiv> entry_store c i data now"
  shows "cache_inv c' \<and> key_of (h_e c' ! i) = k \<and>
    (\<exists>V2. (if length data \<le> 8 \<or> k \<in> long_keys V then V2 = V else abs_long_room V V2) \<and>
       cache_view c' = V2(k \<mapsto> (data, now)))"
proof -
  note I = cache_invD [OF inv]
  have ent: "h_e c ! i \<in> entries (h_e c)" using i by (rule entriesI)
  have long: "k \<in> long_keys V \<longleftrightarrow> y_lng (h_e c ! i) \<noteq> None"
    using view_entry [OF inv ent] long_entry [OF inv ent] by (auto simp: k_def V_def long_keys_def)
  consider (short) "length data \<le> 8" | (own) b where "8 < length data" "y_lng (h_e c ! i) = Some b"
    | (take) "8 < length data" "y_lng (h_e c ! i) = None" by fastforce
  then show ?thesis
  proof cases
    case short
    have "key_of (h_e c' ! i) = k"
      using short i I(1) by (simp add: c'_def k_def entry_store_def Let_def key_of_def entry_time_def)
    with store_short [OF inv i short, of now] short show ?thesis by (simp add: k_def V_def c'_def)
  next
    case own
    from owners_okD(3) [OF I(4) i own(2)] have "b < 12" by simp
    from store_long_view [OF inv i own(1) len this, of now] own long store_long_key [OF inv i(1)]
    show ?thesis by (simp add: c'_def k_def V_def entry_store_own [OF inv i own])
  next
    case take
    obtain b where b: "b < 12"
      "if \<exists>b < 12. h_lng_owner c ! b = None then
        h_lng_owner c ! b = None \<and> entry_store c i data now = store_long c i b data now
      else entry_store c i data now = store_long (lng_shed c b) i b data now \<and>
        (\<forall>a < 12. lng_time c b \<le> lng_time c a)"
      using entry_store_take [OF inv i take] .
    show ?thesis
    proof (cases "\<exists>b < 12. h_lng_owner c ! b = None")
      case True
      with b have fr: "h_lng_owner c ! b = None" and c': "c' = store_long c i b data now" by (simp_all add: c'_def)
      from store_long_view [OF inv i take(1) len b(1), of now] fr take store_long_key [OF inv i(1), of b data now]
        True long long_room_left [OF inv]
      show ?thesis by (simp add: c' k_def V_def abs_long_room_def)
    next
      case False
      with b have c': "c' = store_long (lng_shed c b) i b data now" and old: "\<forall>a < 12. lng_time c b \<le> lng_time c a"
        unfolding c'_def by meson+
      from False b(1) obtain l where l: "h_lng_owner c ! b = Some l" by auto
      from owners_okD(2) [OF I(4) b(1) l] have lu: "l < 512" "used (h_e c) l" "y_lng (h_e c ! l) = Some b" by auto
      with take have li: "l \<noteq> i" by auto
      let ?k = "key_of (h_e c ! l)"
      have el: "h_e c ! l \<in> entries (h_e c)" using lu by (intro entriesI)
      note vl = view_entry [OF inv el] and sh = shed_view [OF inv b(1) l] and same = shed_other [OF inv l li]
      have u: "used (h_e (lng_shed c b)) i" using i same by simp
      from store_long_view [OF conjunct1 [OF sh] i(1) u take(1) len b(1), of now] take same shed_owner [OF inv b(1)]
      have st: "cache_inv c'" "cache_view c' = (V(?k \<mapsto> ([], y_rx_us (h_e c ! l))))(k \<mapsto> (data, now))"
        using sh by (simp_all add: c' k_def V_def)
      have key: "key_of (h_e c' ! i) = k"
        using store_long_key [OF conjunct1 [OF sh] i(1)] same by (simp add: c' k_def)
      have "oldest_in V (long_keys V) ?k"
        unfolding oldest_in_def
      proof (intro conjI exI ballI allI impI)
        show "?k \<in> long_keys V" using vl long_entry [OF inv el] lu by (auto simp: V_def long_keys_def)
        show "V ?k = Some (payload_of (h_lng c) (h_e c ! l), y_rx_us (h_e c ! l))" using vl by (simp add: V_def)
        fix k' v'
        assume "k' \<in> long_keys V" and v': "V k' = Some v'"
        then obtain a where a: "a < 12" "h_lng_owner c ! a \<noteq> None" "k' = key_of (h_e c ! the (h_lng_owner c ! a))"
          unfolding V_def long_keys_view [OF inv] by auto
        then obtain p where p: "h_lng_owner c ! a = Some p" by auto
        with owners_okD(2) [OF I(4) a(1) p] have "h_e c ! p \<in> entries (h_e c)" by (auto intro: entriesI)
        from view_entry [OF inv this] v' a p have "snd v' = lng_time c a" by (auto simp: V_def)
        with old a(1) l show "snd (payload_of (h_lng c) (h_e c ! l), y_rx_us (h_e c ! l)) \<le> snd v'" by simp
      qed
      then have "abs_long_room V (V(?k \<mapsto> ([], y_rx_us (h_e c ! l))))"
      proof -
        have "\<not> card (long_keys V) < 12" using False long_room_left [OF inv] by (simp add: V_def)
        with \<open>oldest_in V (long_keys V) ?k\<close> vl show ?thesis
          unfolding abs_long_room_def V_def by (simp del: split_paired_Ex) (rule exI [of _ ?k], simp)
      qed
      with st key take long show ?thesis by auto
    qed
  qed
qed

lemma entry_open_spec:
  fixes c :: j1939_cache and now :: int
  assumes inv: "cache_inv c" and fnd: "slot_find c pgn sa da = (i, False)" and pgn: "pgn \<noteq> J1939_PGN_FREE"
    and room: "unat (h_used c) < 384"
  defines "c' \<equiv> entry_open c i pgn sa da now"
  shows "cache_inv c' \<and> i < 512 \<and> used (h_e c') i \<and> key_of (h_e c' ! i) = (pgn, sa, da) \<and>
    (pgn, sa, da) \<notin> dom (cache_view c) \<and> cache_view c' = (cache_view c)((pgn, sa, da) \<mapsto> ([], now))"
proof -
  note I = cache_invD [OF inv]
  obtain f where f: "f < 512" "slot_free (h_e c ! f)" using free_slot [OF I(10)] by blast
  note F = slot_find_spec [OF fnd I(2) f]
  have i: "i < 512" "slot_free (h_e c ! i)" using F(1,3) by auto
  let ?e = "(h_e c ! i)\<lparr>y_pgn := pgn, y_sa := sa, y_da := da, y_lng := None, y_len := 0,
    y_count := 0, y_period_us := 0, y_rx_us := now\<rparr>"
  let ?es = "(h_e c)[i := ?e]"
  have c': "c' = c\<lparr>h_e := ?es, h_used := h_used c + 1\<rparr>" by (simp add: c'_def entry_open_def)
  have key: "key_of ?e = (pgn, sa, da)" and ue: "\<not> slot_free ?e" using pgn by (simp_all add: key_of_def slot_free_def)
  have nth: "?es ! p = (if p = i then ?e else h_e c ! p)" for p using i I(1) by (simp add: nth_list_update)
  have used: "used ?es p \<longleftrightarrow> p = i \<or> used (h_e c) p" for p using ue by (auto simp: nth)
  have fresh: "key_of (h_e c ! x) \<noteq> (pgn, sa, da)" if "x < 512" "used (h_e c) x" for x using F(3) that by simp
  have slots: "used_slots ?es = insert i (used_slots (h_e c))" using i used by (auto simp: used_slots_def)
  have crd: "card (used_slots ?es) = Suc (card (used_slots (h_e c)))"
    unfolding slots using i by (intro card_insert_disjoint) (simp_all add: used_slots_def)
  have "(!) ?es ` used_slots (h_e c) = (!) (h_e c) ` used_slots (h_e c)"
    by (rule image_cong) (use i nth in \<open>auto simp: used_slots_def\<close>)
  then have ents: "entries ?es = insert ?e (entries (h_e c))"
    unfolding entries_def slots by (simp only: image_insert nth refl if_True)
  have u: "unat (h_used c + 1) = Suc (unat (h_used c))"
    using room by (simp add: unat_word_ariths)
  have probes: "probes_but None ?es"
    unfolding probes_but_def
  proof (intro allI impI)
    fix p x
    assume p: "p < 512" "used ?es p" and x: "x < 512" "cyc (home_of (?es ! p)) x < cyc (home_of (?es ! p)) p"
    show "used ?es x \<or> None = Some x"
    proof (cases "p = i")
      case True
      with x F(3) home_of_key [OF key] ue show ?thesis by (simp add: nth)
    next
      case False
      with p x have "used (h_e c) p" "cyc (home_of (h_e c ! p)) x < cyc (home_of (h_e c ! p)) p"
        unfolding used nth by simp_all
      from probes_butD [OF I(2) p(1) this(1) x(1) this(2)] show ?thesis unfolding used by simp
    qed
  qed
  have uniq: "keys_unique ?es"
    unfolding keys_unique_def
  proof (intro allI impI)
    fix p q
    assume "p < 512" "q < 512" "used ?es p \<and> used ?es q \<and> key_of (?es ! p) = key_of (?es ! q)"
    with fresh key I(3) show "p = q"
      unfolding used nth keys_unique_def by (cases "p = i"; cases "q = i") auto
  qed
  have own: "owners_ok ?es (h_lng_owner c)"
  proof (rule owners_okI)
    note O = owners_okD [OF I(4)]
    show "length (h_lng_owner c) = 12" by (rule O)
    show "p < 512 \<and> used ?es p \<and> y_lng (?es ! p) = Some b" if "b < 12" "h_lng_owner c ! b = Some p" for b p
      using O(2) [OF that] i unfolding used nth by auto
    show "b < 12 \<and> h_lng_owner c ! b = Some p" if "p < 512" "used ?es p" "y_lng (?es ! p) = Some b" for b p
      using O(3) [of p b] that unfolding used nth by (auto split: if_splits)
  qed
  have data: "\<forall>e \<in> set ?es. length (y_data e) = 8"
    using I(7) entry_data [OF inv i(1)] by (auto dest!: subsetD [OF set_update_subset_insert])
  have inv': "cache_inv c'"
    using I probes uniq own data crd u room unfolding c' cache_inv_def
    by (auto simp: ents payload_ok_def)
  have nd: "(pgn, sa, da) \<notin> dom (cache_view c)"
    unfolding dom_view [OF inv] using fresh by (metis entriesE imageE)
  have "cache_view c' = (cache_view c)(key_of ?e \<mapsto> (payload_of (h_lng c') ?e, y_rx_us ?e))"
    by (rule view_update [OF inv inv']) (auto simp: c' ents)
  with inv' i key ue nd nth [of i] show ?thesis by (simp add: payload_of_def c')
qed

section \<open>A put refines its specification\<close>

lemma slot_find_view:
  assumes inv: "cache_inv c" and fnd: "slot_find c pgn sa da = (i, found)"
  shows "i < 512" "found \<longleftrightarrow> (pgn, sa, da) \<in> dom (cache_view c)"
    and "found \<Longrightarrow> used (h_e c) i \<and> key_of (h_e c ! i) = (pgn, sa, da)"
proof -
  note I = cache_invD [OF inv]
  obtain f where f: "f < 512" "slot_free (h_e c ! f)" using free_slot [OF I(10)] by blast
  note F = slot_find_spec [OF fnd I(2) f]
  show "i < 512" by (rule F(1))
  show k: "used (h_e c) i \<and> key_of (h_e c ! i) = (pgn, sa, da)" if found using F(2) that .
  show "found \<longleftrightarrow> (pgn, sa, da) \<in> dom (cache_view c)"
  proof
    assume found
    with k F(1) show "(pgn, sa, da) \<in> dom (cache_view c)"
      unfolding dom_view [OF inv] by (metis entriesI image_eqI)
  next
    assume "(pgn, sa, da) \<in> dom (cache_view c)"
    then show found unfolding dom_view [OF inv] using F(3) by (metis entriesE imageE)
  qed
qed

lemma slot_find_at:
  assumes inv: "cache_inv c" and i: "i < 512" "used (h_e c) i" "key_of (h_e c ! i) = (pgn, sa, da)"
  shows "slot_find c pgn sa da = (i, True)"
proof -
  obtain r found where f: "slot_find c pgn sa da = (r, found)" by fastforce
  note F = slot_find_view [OF inv f]
  have "(pgn, sa, da) \<in> dom (cache_view c)"
    unfolding dom_view [OF inv] using i by (metis entriesI image_eqI)
  with F have found and r: "r < 512" "used (h_e c) r \<and> key_of (h_e c ! r) = (pgn, sa, da)" by blast+
  have "r = i" using cache_invD(3) [OF inv] r i unfolding keys_unique_def by metis
  with f \<open>found\<close> show ?thesis by simp
qed

lemma long_room_fresh:
  assumes new: "k \<notin> dom V" and room: "if s \<or> k \<in> long_keys (V(k \<mapsto> ([], t))) then W = V(k \<mapsto> ([], t))
      else abs_long_room (V(k \<mapsto> ([], t))) W"
  shows "\<exists>V2. (if s \<or> k \<in> long_keys V then V2 = V else abs_long_room V V2) \<and> W(k \<mapsto> x) = V2(k \<mapsto> x)"
proof -
  let ?V = "V(k \<mapsto> ([], t))"
  have lk: "long_keys ?V = long_keys V" and nk: "k \<notin> long_keys V"
    using new by (auto simp: long_keys_def)
  show ?thesis
  proof (cases "s \<or> card (long_keys V) < 12")
    case True
    with room nk have "W = ?V" by (auto simp: lk abs_long_room_def split: if_splits)
    with True nk show ?thesis by (intro exI [of _ V]) (auto simp: abs_long_room_def)
  next
    case False
    with room nk obtain l where l: "oldest_in ?V (long_keys V) l" "W = ?V(l \<mapsto> ([], snd (the (?V l))))"
      unfolding lk abs_long_room_def by auto
    then have ne: "l \<noteq> k" using nk by (auto simp: oldest_in_def)
    have same: "(if k' = k then Some ([], t) else V k') = V k'" if "k' \<in> long_keys V" for k'
      using that nk by auto
    have "oldest_in V (long_keys V) l"
      using l(1) ne unfolding oldest_in_def fun_upd_def by (simp del: split_paired_Ex split_paired_All add: same)
    with False have "abs_long_room V (V(l \<mapsto> ([], snd (the (V l)))))"
      unfolding abs_long_room_def by (simp del: split_paired_Ex) blast
    with False nk ne l(2) show ?thesis
      by (intro exI [of _ "V(l \<mapsto> ([], snd (the (V l))))"]) (auto simp: fun_upd_twist)
  qed
qed

lemma open_store_spec:
  fixes c :: j1939_cache and data :: bytes and now :: int
  assumes inv: "cache_inv c" and fnd: "slot_find c pgn sa da = (i, False)" and pgn: "pgn \<noteq> J1939_PGN_FREE"
    and room: "unat (h_used c) < 384" and len: "length data \<le> 1785"
  defines "k \<equiv> (pgn, sa, da)" and "V \<equiv> cache_view c"
    and "c' \<equiv> entry_store (entry_open c i pgn sa da now) i data now"
  shows "cache_inv c' \<and> i < 512 \<and> key_of (h_e c' ! i) = k \<and> k \<notin> dom V \<and>
    abs_store V k data now (cache_view c')"
proof -
  note O = entry_open_spec [OF inv fnd pgn room, of now]
  have nd: "k \<notin> dom V" using O by (simp add: k_def V_def)
  let ?c = "entry_open c i pgn sa da now"
  have O1: "cache_inv ?c" "i < 512" "used (h_e ?c) i" "key_of (h_e ?c ! i) = k"
    "cache_view ?c = V(k \<mapsto> ([], now))"
    using O by (simp_all add: k_def V_def)
  from entry_store_spec [OF O1(1-3) len, of now] obtain W where W: "cache_inv c'" "key_of (h_e c' ! i) = k"
    "if length data \<le> 8 \<or> k \<in> long_keys (V(k \<mapsto> ([], now))) then W = V(k \<mapsto> ([], now))
      else abs_long_room (V(k \<mapsto> ([], now))) W" "cache_view c' = W(k \<mapsto> (data, now))"
    unfolding O1(4,5) c'_def by blast
  from long_room_fresh [OF nd W(3), of "(data, now)"] W nd O1(2) show ?thesis unfolding abs_store_def by simp
qed

lemma cache_evicted [simp]:
  "cache_inv (c\<lparr>h_evicted := n\<rparr>) = cache_inv c" "cache_view (c\<lparr>h_evicted := n\<rparr>) = cache_view c"
  "cache_inv (c\<lparr>h_full := n\<rparr>) = cache_inv c" "cache_view (c\<lparr>h_full := n\<rparr>) = cache_view c"
  by (simp_all add: cache_inv_def cache_view_def payload_entry fun_eq_iff)

lemma abs_put_new:
  assumes "k \<notin> dom V" "\<not> abs_full V now" "abs_room V now W" "abs_store W k data now V'"
  shows "abs_put V k data now V' True"
  using assms by (auto simp: abs_put_def)

lemma cache_put_spec:
  fixes c :: j1939_cache and now :: int
  assumes inv: "cache_inv c" and pgn: "pgn \<noteq> J1939_PGN_FREE" and len: "length data \<le> J1939_MSG_MAX"
  shows "\<exists>c' r. j1939_cache_put c pgn sa da data now = Some (c', r) \<and> cache_inv c' \<and>
     abs_put (cache_view c) (pgn, sa, da) data now (cache_view c') (r \<noteq> None) \<and>
     (\<forall>i. r = Some i \<longrightarrow> i < 512 \<and> key_of (h_e c' ! i) = (pgn, sa, da))"
proof -
  note I = cache_invD [OF inv]
  let ?k = "(pgn, sa, da)" and ?V = "cache_view c"
  obtain i found where f: "slot_find c pgn sa da = (i, found)" by fastforce
  note F = slot_find_view [OF inv f]
  have crd: "card (dom ?V) = unat (h_used c)" by (rule card_dom_view [OF inv])
  show ?thesis
  proof (cases found)
    case True
    with F have "?k \<in> dom ?V" "used (h_e c) i" "key_of (h_e c ! i) = ?k" by auto
    with entry_store_spec [OF inv F(1), of data now] len True f pgn F(1) show ?thesis
      by (simp add: j1939_cache_put_def abs_put_def abs_store_def)
  next
    case nf: False
    with F(2) f have nd: "?k \<notin> dom ?V" and f': "slot_find c pgn sa da = (i, False)" by simp_all
    show ?thesis
    proof (cases "h_used c \<ge> 384")
      case False
      then have room: "unat (h_used c) < 384" by (simp add: word_le_nat_alt not_le)
      have "\<not> abs_full ?V now" using crd room by (simp add: abs_full_def)
      moreover have "abs_room ?V now ?V" using crd room by (simp add: abs_room_def)
      moreover from len have len': "length data \<le> 1785" by simp
      note S = open_store_spec [OF inv f' pgn room len', of now]
      ultimately have "abs_put ?V ?k data now (cache_view (entry_store (entry_open c i pgn sa da now) i data now)) True"
        using S nd by (intro abs_put_new [where V = ?V and W = ?V]) blast+
      with S len nf f pgn False show ?thesis by (simp add: j1939_cache_put_def)
    next
      case True
      then have full: "384 \<le> card (dom ?V)" using crd by (simp add: word_le_nat_alt)
      obtain old where old: "slot_oldest c = Some old" "old < 512" "used (h_e c) old"
        "\<And>e. e \<in> entries (h_e c) \<Longrightarrow> y_rx_us (h_e c ! old) \<le> y_rx_us e"
        by (rule slot_oldest_spec [OF inv True]) (rule that)
      let ?o = "h_e c ! old"
      have oe: "?o \<in> entries (h_e c)" using old by (intro entriesI)
      have times: "y_rx_us ?o \<le> snd v" if "?V k' = Some v" for k' v
        using that old(4) by (auto simp: view_iff [OF inv])
      show ?thesis
      proof (cases "now - y_rx_us ?o < J1939_EVICT_AGE_US")
        case young: True
        have "abs_full ?V now" using full times young unfolding abs_full_def by fastforce
        with nd have "abs_put ?V ?k data now ?V False" by (simp add: abs_put_def)
        with young True nf f old pgn len inv show ?thesis by (simp add: j1939_cache_put_def)
      next
        case aged: False
        obtain c1 where c1: "slot_remove c old = Some c1" "cache_inv c1" "entries (h_e c1) = entries (h_e c) - {?o}"
          "h_lng c1 = h_lng c" "unat (h_used c1) = unat (h_used c) - 1"
          using slot_remove_spec [OF inv old(2,3)] .
        let ?c2 = "c1\<lparr>h_evicted := h_evicted c1 + 1\<rparr>" and ?V1 = "?V(key_of ?o := None)"
        have v2: "cache_inv ?c2" "cache_view ?c2 = ?V1" using view_remove [OF inv c1(2) oe c1(3,4)] c1 by simp_all
        obtain i2 found2 where f2: "slot_find ?c2 pgn sa da = (i2, found2)" by fastforce
        have "\<not> found2" using slot_find_view(2) [OF v2(1) f2] nd v2(2) by auto
        with f2 have f2: "slot_find ?c2 pgn sa da = (i2, False)" by simp
        have room: "unat (h_used ?c2) < 384" using c1(5) full crd I(9,10) by simp
        from len have len': "length data \<le> 1785" by simp
        note S = open_store_spec [OF v2(1) f2 pgn room len', of now, unfolded v2(2)]
        have ov: "?V (key_of ?o) = Some (payload_of (h_lng c) ?o, y_rx_us ?o)" by (rule view_entry [OF inv oe])
        then have "oldest_in ?V (dom ?V) (key_of ?o)" using times unfolding oldest_in_def by fastforce
        with full ov aged have rm: "abs_room ?V now ?V1"
          unfolding abs_room_def by (simp del: split_paired_Ex) (rule exI [of _ "key_of ?o"], simp)
        have nf': "\<not> abs_full ?V now"
          using ov aged unfolding abs_full_def by (metis snd_conv)
        have "j1939_cache_put c pgn sa da data now =
          Some (entry_store (entry_open ?c2 i2 pgn sa da now) i2 data now, Some i2)"
          using True nf f old aged c1 f2 pgn len by (simp add: j1939_cache_put_def)
        moreover have "abs_put ?V ?k data now (cache_view (entry_store (entry_open ?c2 i2 pgn sa da now) i2 data now)) True"
          using S nd nf' rm by (intro abs_put_new [where V = ?V and W = ?V1]) blast+
        ultimately show ?thesis using S len by simp
      qed
    qed
  qed
qed


text \<open>The table after a sequence of puts; \<open>None\<close> would be a removal that never ends.\<close>

type_synonym cache_msg = "u32 \<times> u8 \<times> u8 \<times> bytes \<times> int"

fun cache_run :: "cache_msg list \<Rightarrow> j1939_cache \<Rightarrow> j1939_cache option" where
  "cache_run [] c = Some c"
| "cache_run ((pgn, sa, da, data, now_us) # ms) c =
     (case j1939_cache_put c pgn sa da data now_us of None \<Rightarrow> None | Some (c', _) \<Rightarrow> cache_run ms c')"

lemma cache_init_inv: "cache_inv j1939_cache_init"
proof -
  have "used_slots (replicate 512 empty_entry) = {}"
    by (auto simp: used_slots_def empty_entry_def slot_free_def)
  moreover have "slot_free (replicate 512 empty_entry ! p)" if "p < 512" for p
    using that by (simp add: empty_entry_def slot_free_def)
  moreover have "replicate 12 None ! b = None" if "b < 12" for b using that by simp
  ultimately show ?thesis
    unfolding cache_inv_def j1939_cache_init_def
    by (auto simp: probes_but_def keys_unique_def owners_ok_def entries_def empty_entry_def)
qed

lemma cache_run_inv: "cache_inv c \<Longrightarrow> \<exists>c'. cache_run ms c = Some c' \<and> cache_inv c'"
proof (induction ms arbitrary: c)
  case Nil
  then show ?case by simp
next
  case (Cons m ms)
  obtain pgn sa da data now where m: "m = (pgn, sa, da, data, now)" by (cases m)
  show ?case
  proof (cases "pgn = J1939_PGN_FREE \<or> length data > J1939_MSG_MAX")
    case True
    with Cons show ?thesis by (simp add: m j1939_cache_put_def)
  next
    case False
    with cache_put_spec [OF Cons.prems, of pgn data sa da now]
    obtain c' r where "j1939_cache_put c pgn sa da data now = Some (c', r)" "cache_inv c'" by auto
    with Cons.IH show ?thesis by (simp add: m)
  qed
qed

lemma get_at:
  assumes inv: "cache_inv c" and i: "i < 512" "key_of (h_e c ! i) = (pgn, sa, da)" and pgn: "pgn \<noteq> J1939_PGN_FREE"
    and v: "cache_view c (pgn, sa, da) = Some (data, t)"
  shows "j1939_cache_get c pgn (Some sa) (Some da) now = (if data = [] then None else Some i)"
    and "j1939_cache_payload c i = data"
proof -
  have u: "used (h_e c) i" using i(2) pgn by (auto simp: slot_free_def key_of_def)
  then have e: "h_e c ! i \<in> entries (h_e c)" using i by (intro entriesI)
  from view_entry [OF inv e] v i show p: "j1939_cache_payload c i = data" by (simp add: payload_entry)
  have "0 < y_len (h_e c ! i) \<longleftrightarrow> data \<noteq> []"
    using length_payload [OF inv e] p unfolding payload_entry [symmetric] word_less_nat_alt by (cases data) auto
  then show "j1939_cache_get c pgn (Some sa) (Some da) now = (if data = [] then None else Some i)"
    using slot_find_at [OF inv i(1) u i(2)] by (simp add: j1939_cache_get_def)
qed

text \<open>C7. On the table any sequence of puts leads to, a put ends (its removal loop too) and does
  to the map from (group, source, destination) to the newest payload what the specification
  allows: the payload is stored and read back, other messages stay, a new message finds room
  in the 384 or takes the place of the longest silent one if that is thirty seconds old, a
  long payload takes one of twelve long buffers or that of the longest silent holder, and
  only when nothing is old enough is the message refused.\<close>

theorem cache_put_refines:
  assumes "pgn \<noteq> J1939_PGN_FREE" and "length data \<le> J1939_MSG_MAX"
  shows "\<exists>c c' r. cache_run ms j1939_cache_init = Some c \<and> j1939_cache_put c pgn sa da data now = Some (c', r) \<and>
     abs_put (cache_view c) (pgn, sa, da) data now (cache_view c') (r \<noteq> None) \<and>
     (case r of None \<Rightarrow> True | Some i \<Rightarrow> j1939_cache_payload c' i = data \<and>
        j1939_cache_get c' pgn (Some sa) (Some da) t = (if data = [] then None else Some i))"
proof -
  obtain c where c: "cache_run ms j1939_cache_init = Some c" "cache_inv c"
    using cache_run_inv [OF cache_init_inv] by blast
  obtain c' r where p: "j1939_cache_put c pgn sa da data now = Some (c', r)" "cache_inv c'"
    "abs_put (cache_view c) (pgn, sa, da) data now (cache_view c') (r \<noteq> None)"
    "\<forall>i. r = Some i \<longrightarrow> i < 512 \<and> key_of (h_e c' ! i) = (pgn, sa, da)"
    using cache_put_spec [OF c(2) assms] by blast
  have "cache_view c' (pgn, sa, da) = Some (data, now)" if "r = Some i" for i
    using p(3) that by (auto simp: abs_put_def abs_store_def split: if_splits)
  with get_at [OF p(2) _ _ assms(1)] p c show ?thesis
    by (intro exI [of _ c] exI [of _ c'] exI [of _ r]) (auto split: option.splits)
qed

section \<open>The wildcard scan\<close>

definition get_match :: "j1939_cache \<Rightarrow> u32 \<Rightarrow> u8 option \<Rightarrow> u8 option \<Rightarrow> nat \<Rightarrow> bool" where
  "get_match c pgn sa da i \<longleftrightarrow> y_pgn (h_e c ! i) = pgn \<and> y_len (h_e c ! i) \<noteq> 0 \<and>
     wild sa (y_sa (h_e c ! i)) \<and> wild da (y_da (h_e c ! i))"

definition get_fresh :: "j1939_cache \<Rightarrow> int \<Rightarrow> nat \<Rightarrow> bool" where
  "get_fresh c now_us i \<longleftrightarrow> now_us - y_rx_us (h_e c ! i) \<le> J1939_FRESH_US"

text \<open>\<open>b\<close> may be picked over \<open>j\<close>.\<close>

definition no_worse :: "j1939_cache \<Rightarrow> nat \<Rightarrow> nat \<Rightarrow> bool" where
  "no_worse c b j \<longleftrightarrow> y_sa (h_e c ! b) < y_sa (h_e c ! j) \<or>
     (y_sa (h_e c ! b) = y_sa (h_e c ! j) \<and> y_rx_us (h_e c ! j) \<le> y_rx_us (h_e c ! b))"

definition best_of :: "j1939_cache \<Rightarrow> (nat \<Rightarrow> bool) \<Rightarrow> nat \<Rightarrow> nat option \<Rightarrow> bool" where
  "best_of c P n r = (case r of
       None \<Rightarrow> (\<forall>j < n. \<not> P j)
     | Some b \<Rightarrow> b < n \<and> P b \<and> (\<forall>j < n. P j \<longrightarrow> no_worse c b j))"

lemma best_of_step:
  assumes "best_of c P n r"
  shows "best_of c P (Suc n) (if P n \<and> better c n r then Some n else r)"
proof (cases "P n \<and> better c n r")
  case True
  have trans: "no_worse c n j" if "better c n (Some b)" "no_worse c b j" for b j
    using that by (auto simp: no_worse_def better_def)
  from True assms trans show ?thesis
    by (auto simp: best_of_def no_worse_def less_Suc_eq split: option.splits)
next
  case False
  then have "P n \<Longrightarrow> no_worse c b n" if "r = Some b" for b
    using that by (auto simp: no_worse_def better_def)
  with False assms show ?thesis
    by (auto simp: best_of_def better_def less_Suc_eq split: option.splits)
qed

lemma get_scan_prefix:
  "case fold (get_scan c pgn sa da now) [0..<n] (None, None) of (fresh, lowest) \<Rightarrow>
     best_of c (\<lambda>i. get_match c pgn sa da i \<and> get_fresh c now i) n fresh \<and>
     best_of c (get_match c pgn sa da) n lowest"
proof (induction n)
  case 0
  then show ?case by (simp add: best_of_def)
next
  case (Suc n)
  obtain f l where fl: "fold (get_scan c pgn sa da now) [0..<n] (None, None) = (f, l)" by fastforce
  with Suc have best: "best_of c (\<lambda>i. get_match c pgn sa da i \<and> get_fresh c now i) n f" "best_of c (get_match c pgn sa da) n l"
    by simp_all
  have "get_scan c pgn sa da now n (f, l) =
     (if (get_match c pgn sa da n \<and> get_fresh c now n) \<and> better c n f then Some n else f,
      if get_match c pgn sa da n \<and> better c n l then Some n else l)"
    by (auto simp: get_scan_def get_match_def get_fresh_def Let_def)
  with fl best_of_step [OF best(1)] best_of_step [OF best(2)] show ?case by simp
qed

theorem cache_get_spec:
  assumes "sa = None \<or> da = None"
  shows "case j1939_cache_get c pgn sa da now of
      None \<Rightarrow> \<forall>j < 512. \<not> get_match c pgn sa da j
    | Some i \<Rightarrow> i < 512 \<and> get_match c pgn sa da i \<and>
        (\<forall>j < 512. get_match c pgn sa da j \<longrightarrow>
           (if get_fresh c now i = get_fresh c now j then no_worse c i j else get_fresh c now i))"
proof -
  obtain f l where fl: "fold (get_scan c pgn sa da now) [0..<512] (None, None) = (f, l)" by fastforce
  with assms have get: "j1939_cache_get c pgn sa da now = (case f of None \<Rightarrow> l | Some i \<Rightarrow> Some i)"
    by (auto simp: j1939_cache_get_def split: option.split)
  have best: "best_of c (\<lambda>i. get_match c pgn sa da i \<and> get_fresh c now i) 512 f" "best_of c (get_match c pgn sa da) 512 l"
    using get_scan_prefix [of c pgn sa da now 512] fl by simp_all
  show ?thesis
  proof (cases f)
    case None
    with best get show ?thesis by (auto simp: best_of_def split: option.splits)
  next
    case (Some i)
    with best(1) get show ?thesis by (auto simp: best_of_def)
  qed
qed

section \<open>The table of sources\<close>

datatype src_event = Heard u8 int | Named u8 bytes

fun src_step :: "src_event \<Rightarrow> j1939_sources \<Rightarrow> j1939_sources" where
  "src_step (Heard sa now_us) s = j1939_sources_note s sa now_us"
| "src_step (Named sa name) s = j1939_sources_claim s sa name"

fun last_name :: "u8 \<Rightarrow> src_event list \<Rightarrow> bytes option" where
  "last_name sa [] = None"
| "last_name sa (e # es) = (case last_name sa es of Some n \<Rightarrow> Some n
     | None \<Rightarrow> (case e of Named a n \<Rightarrow> (if a = sa then Some n else None) | Heard _ _ \<Rightarrow> None))"

lemma last_name_snoc: "last_name sa (es @ [e]) = (case e of
     Named a n \<Rightarrow> (if a = sa then Some n else last_name sa es) | Heard _ _ \<Rightarrow> last_name sa es)"
  by (induction es) (auto split: src_event.splits option.splits)

definition heard :: "u8 \<Rightarrow> src_event \<Rightarrow> bool" where
  "heard sa e = (case e of Heard a _ \<Rightarrow> a = sa | Named _ _ \<Rightarrow> False)"

text \<open>The bit of an address in the table of named sources.\<close>

lemma unat_sa_parts: "unat (drop_bit 3 (sa :: u8)) = unat sa div 8" "unat (sa AND 7) = unat sa mod 8"
proof -
  show "unat (drop_bit 3 sa) = unat sa div 8"
    by (simp add: unat_drop_bit_eq drop_bit_eq_div [where 'a = nat])
  have "sa AND 7 = take_bit 3 sa" by (simp add: take_bit_eq_mask mask_eq_exp_minus_1)
  then show "unat (sa AND 7) = unat sa mod 8"
    by (simp add: take_bit_eq_mod unat_mod)
qed

lemma named_bit:
  "(m AND push_bit (unat (sa AND 7)) 1 = 0) \<longleftrightarrow> \<not> bit m (unat (sa :: u8) mod 8)" for m :: u8
  unfolding unat_sa_parts by (simp add: and_exp_eq_0_iff_not_bit)

definition sources_ok :: "j1939_sources \<Rightarrow> bool" where
  "sources_ok s \<longleftrightarrow> length (so_frames s) = 256 \<and> length (so_name s) = 256 \<and> length (so_named s) = 32"

lemma name_claim:
  assumes "sources_ok s"
  shows "j1939_sources_name (j1939_sources_claim s sa name) a =
    (if a = sa then Some (take 8 name) else j1939_sources_name s a)"
proof -
  have d: "unat sa div 8 < 32" "unat a div 8 < 32" using unat_u8_less [of sa] unat_u8_less [of a] by simp_all
  have "bit (so_named (j1939_sources_claim s sa name) ! (unat a div 8)) (unat a mod 8) \<longleftrightarrow>
     a = sa \<or> bit (so_named s ! (unat a div 8)) (unat a mod 8)"
  proof (cases "unat a div 8 = unat sa div 8")
    case True
    have "unat a mod 8 = unat sa mod 8 \<longleftrightarrow> a = sa"
      using True by (metis div_mult_mod_eq word_unat_eq_iff)
    with True d assms show ?thesis
      by (auto simp: j1939_sources_claim_def sources_ok_def unat_sa_parts Let_def bit_simps bit_1_iff)
  next
    case False
    then have "a \<noteq> sa" by auto
    with False show ?thesis by (simp add: j1939_sources_claim_def unat_sa_parts Let_def)
  qed
  moreover have "so_name (j1939_sources_claim s sa name) ! unat a =
      (if a = sa then take 8 name else so_name s ! unat a)"
    using assms unat_u8_less [of sa]
    by (simp add: j1939_sources_claim_def sources_ok_def Let_def nth_list_update word_unat_eq_iff)
  ultimately show ?thesis
    unfolding j1939_sources_name_def named_bit unat_sa_parts(1) by auto
qed

theorem sources_remember:
  "let s = fold src_step es j1939_sources_init in
     j1939_sources_name s sa = map_option (take 8) (last_name sa es) \<and>
     so_frames s ! unat sa = of_nat (length (filter (heard sa) es))"
proof -
  have "sources_ok (fold src_step es j1939_sources_init) \<and>
     j1939_sources_name (fold src_step es j1939_sources_init) sa = map_option (take 8) (last_name sa es) \<and>
     so_frames (fold src_step es j1939_sources_init) ! unat sa = of_nat (length (filter (heard sa) es))"
  proof (induction es rule: rev_induct)
    case Nil
    have "unat sa div 8 < 32" "unat sa < 256" using unat_u8_less [of sa] by simp_all
    then show ?case unfolding j1939_sources_name_def named_bit unat_sa_parts(1)
      by (simp add: sources_ok_def j1939_sources_init_def)
  next
    case (snoc e es)
    show ?case
    proof (cases e)
      case (Heard a t)
      have "unat a = unat sa \<longleftrightarrow> a = sa" by (simp add: word_unat_eq_iff)
      with Heard snoc unat_u8_less [of a] show ?thesis
        by (auto simp: last_name_snoc sources_ok_def j1939_sources_note_def j1939_sources_name_def heard_def
            nth_list_update)
    next
      case (Named a n)
      with snoc show ?thesis
        by (auto simp: last_name_snoc name_claim heard_def)
          (auto simp: sources_ok_def j1939_sources_claim_def Let_def)
    qed
  qed
  then show ?thesis by (simp add: Let_def)
qed

lemma cache_put_refines_witness:
  "\<exists>c c' r. cache_run [(65226, 0, 255, replicate 20 7, 1000)] j1939_cache_init = Some c \<and>
     j1939_cache_put c 65262 0 255 [1, 2, 3] 2000 = Some (c', r) \<and>
     abs_put (cache_view c) (65262, 0, 255) [1, 2, 3] 2000 (cache_view c') (r \<noteq> None) \<and>
     (case r of None \<Rightarrow> True | Some i \<Rightarrow> j1939_cache_payload c' i = [1, 2, 3] \<and>
        j1939_cache_get c' 65262 (Some 0) (Some 255) 3000 = (if [1, 2, 3 :: u8] = [] then None else Some i))"
  by (rule cache_put_refines) simp_all

lemma cache_get_spec_witness:
  "case j1939_cache_get j1939_cache_init 65262 None (Some 255) 3000 of
      None \<Rightarrow> \<forall>j < 512. \<not> get_match j1939_cache_init 65262 None (Some 255) j
    | Some i \<Rightarrow> i < 512 \<and> get_match j1939_cache_init 65262 None (Some 255) i \<and>
        (\<forall>j < 512. get_match j1939_cache_init 65262 None (Some 255) j \<longrightarrow>
           (if get_fresh j1939_cache_init 3000 i = get_fresh j1939_cache_init 3000 j
            then no_worse j1939_cache_init i j else get_fresh j1939_cache_init 3000 i))"
  by (rule cache_get_spec) simp

end
