(* ===== verification/CAN_Autobaud.thy ===== *)
theory CAN_Autobaud
  imports Prelude
begin

text \<open>
  \<^verbatim>\<open>components/can_manager/can_autobaud_core.c\<close> and \<^verbatim>\<open>can_autobaud_core.h\<close>: listen before
  talk. The policy starts listen-only, reads two counters (frames received, receive errors)
  and says when the node may talk. Times and counters are 32-bit words, their differences
  wrap. The \<open>ab == NULL\<close> guards are left out: every caller passes a policy. The last part is the
  caller, \<^verbatim>\<open>can_core_link.c\<close>: what it does to the driver's node and to the transmit gate when
  the policy has decided, with starts of the node that the driver may refuse.
\<close>

abbreviation (input) CAN_AB_MAX_CANDIDATES :: nat where "CAN_AB_MAX_CANDIDATES \<equiv> 8"
abbreviation (input) CAN_AB_OK_FRAMES :: u32 where "CAN_AB_OK_FRAMES \<equiv> 2"
abbreviation (input) CAN_AB_BAD_MIN :: u32 where "CAN_AB_BAD_MIN \<equiv> 8"
abbreviation (input) CAN_AB_SPAN_MS :: u32 where "CAN_AB_SPAN_MS \<equiv> 1000"
abbreviation (input) CAN_AB_SILENT_MS :: u32 where "CAN_AB_SILENT_MS \<equiv> 300"
abbreviation (input) CAN_AB_WATCH_MS :: u32 where "CAN_AB_WATCH_MS \<equiv> 100"
abbreviation (input) CAN_AB_RETRY_MS :: u32 where "CAN_AB_RETRY_MS \<equiv> 2000"
abbreviation (input) CAN_AB_CONFIRM_MS :: u32 where "CAN_AB_CONFIRM_MS \<equiv> 10"

datatype can_ab_state = CAN_AB_LISTENING | CAN_AB_MISMATCH | CAN_AB_RUNNING

record can_ab_cfg =
  g_candidates :: "u16 list"
  g_n_candidates :: u8
  g_want_normal :: bool
  g_retry_ms :: u16

record can_ab_action =
  act_apply :: bool
  act_baud_kbps :: u16
  act_listen_only :: bool

record can_ab =
  a_cfg :: can_ab_cfg
  a_state :: can_ab_state
  a_idx :: u8
  a_normal :: bool
  a_verified :: bool
  a_bitten :: bool
  a_adopted :: bool
  a_misses :: u8
  a_detected_kbps :: u16
  a_enter_ms :: u32
  a_frames0 :: u32
  a_span_ms :: u32
  a_span_frames0 :: u32
  a_span_bad0 :: u32
  a_suspect :: bool
  a_suspect_ms :: u32
  a_switches :: u32
  a_demotions :: u32

text \<open>The counters as a call gets them: time, frames received, receive errors.\<close>

record counters =
  k_now :: u32
  k_frames :: u32
  k_bad :: u32

section \<open>Operations\<close>

definition no_action :: can_ab_action where
  "no_action = \<lparr>act_apply = False, act_baud_kbps = 0, act_listen_only = False\<rparr>"

definition can_ab_baud :: "can_ab \<Rightarrow> u16" where
  "can_ab_baud ab =
     (if g_n_candidates (a_cfg ab) = 0 then 500 else g_candidates (a_cfg ab) ! unat (a_idx ab))"

definition apply_action :: "can_ab \<Rightarrow> bool \<Rightarrow> can_ab_action" where
  "apply_action ab listen_only =
     \<lparr>act_apply = True, act_baud_kbps = can_ab_baud ab, act_listen_only = listen_only\<rparr>"

definition restart_span :: "can_ab \<Rightarrow> counters \<Rightarrow> can_ab" where
  "restart_span ab k =
     ab\<lparr>a_span_ms := k_now k, a_span_frames0 := k_frames k, a_span_bad0 := k_bad k\<rparr>"

definition ab_confirmed :: "can_ab \<Rightarrow> counters \<Rightarrow> can_ab \<times> bool" where
  "ab_confirmed ab k =
     (if a_suspect ab \<and> k_now k - a_suspect_ms ab \<ge> CAN_AB_CONFIRM_MS
      then (ab\<lparr>a_suspect := False\<rparr>, True)
      else let ab1 = (if \<not> a_suspect ab then ab\<lparr>a_suspect := True, a_suspect_ms := k_now k\<rparr> else ab)
           in (restart_span ab1 k, False))"

definition ab_next_candidate :: "can_ab \<Rightarrow> can_ab" where
  "ab_next_candidate ab =
     ab\<lparr>a_idx := ucast ((ucast (a_idx ab) + 1) mod ucast (g_n_candidates (a_cfg ab)) :: u32),
        a_switches := a_switches ab + 1, a_verified := False, a_adopted := False\<rparr>"

definition can_ab_mark :: "can_ab \<Rightarrow> counters \<Rightarrow> can_ab" where
  "can_ab_mark ab k =
     restart_span (ab\<lparr>a_enter_ms := k_now k, a_frames0 := k_frames k, a_suspect := False\<rparr>) k"

fun can_ab_state_name :: "can_ab \<Rightarrow> string" where
  "can_ab_state_name ab =
     (case a_state ab of
        CAN_AB_RUNNING \<Rightarrow> ''running''
      | CAN_AB_MISMATCH \<Rightarrow> ''mismatch''
      | CAN_AB_LISTENING \<Rightarrow> if g_n_candidates (a_cfg ab) > 1 then ''detecting'' else ''listening'')"

text \<open>\<open>None\<close> is the NULL configuration.\<close>

definition can_ab_init :: "can_ab_cfg option \<Rightarrow> counters \<Rightarrow> can_ab \<times> can_ab_action" where
  "can_ab_init cfg k =
     (let listen_500 = \<lparr>g_candidates = 500 # replicate 7 0, g_n_candidates = 1, g_want_normal = False, g_retry_ms = 0\<rparr>;
          cfg1 = (case cfg of
                    None \<Rightarrow> listen_500
                  | Some c \<Rightarrow>
                      if g_n_candidates c > 0
                      then (if g_n_candidates c > 8 then c\<lparr>g_n_candidates := 8\<rparr> else c)
                      else listen_500);
          ab = \<lparr>a_cfg = cfg1, a_state = CAN_AB_LISTENING, a_idx = 0, a_normal = False, a_verified = False,
                a_bitten = False, a_adopted = False, a_misses = 0, a_detected_kbps = 0, a_enter_ms = 0,
                a_frames0 = 0, a_span_ms = 0, a_span_frames0 = 0, a_span_bad0 = 0, a_suspect = False,
                a_suspect_ms = 0, a_switches = 0, a_demotions = 0\<rparr>;
          ab1 = can_ab_mark ab k
      in (ab1, apply_action ab1 True))"

definition can_ab_want_normal :: "can_ab \<Rightarrow> bool \<Rightarrow> counters \<Rightarrow> can_ab \<times> can_ab_action" where
  "can_ab_want_normal ab want_normal k =
     (if g_n_candidates (a_cfg ab) = 0 then (ab, no_action)
      else
        let ab1 = ab\<lparr>a_cfg := (a_cfg ab)\<lparr>g_want_normal := want_normal\<rparr>\<rparr> in
        if \<not> want_normal then
          if \<not> a_normal ab1 then (ab1, no_action)
          else let ab2 = can_ab_mark (ab1\<lparr>a_normal := False\<rparr>) k in (ab2, apply_action ab2 True)
        else if a_state ab1 = CAN_AB_RUNNING \<and> \<not> a_normal ab1 then
          let ab2 = can_ab_mark (ab1\<lparr>a_normal := True\<rparr>) k in (ab2, apply_action ab2 False)
        else (ab1, no_action))"

text \<open>The loop of \<open>can_ab_adopt\<close>: the last candidate with that bitrate, \<open>n\<close> for none.\<close>

definition ab_candidate_of :: "can_ab_cfg \<Rightarrow> u16 \<Rightarrow> u8" where
  "ab_candidate_of cfg kbps =
     fold (\<lambda>i idx. if g_candidates cfg ! i = kbps then of_nat i else idx)
       [0..<unat (g_n_candidates cfg)] (g_n_candidates cfg)"

text \<open>The last component is \<open>*taken\<close>.\<close>

definition can_ab_adopt :: "can_ab \<Rightarrow> u16 \<Rightarrow> counters \<Rightarrow> can_ab \<times> can_ab_action \<times> bool" where
  "can_ab_adopt ab kbps k =
     (if g_n_candidates (a_cfg ab) < 2 \<or> a_state ab = CAN_AB_RUNNING \<or> a_bitten ab
      then (ab, no_action, False)
      else if k_frames k - a_frames0 ab \<noteq> 0 \<or> k_bad k - a_span_bad0 ab \<noteq> 0 \<or>
              k_now k - a_enter_ms ab < CAN_AB_SILENT_MS
      then (ab, no_action, False)
      else
        let idx = ab_candidate_of (a_cfg ab) kbps in
        if idx = g_n_candidates (a_cfg ab) then (ab, no_action, False)
        else
          let ab1 = (if idx \<noteq> a_idx ab then ab\<lparr>a_idx := idx, a_switches := a_switches ab + 1\<rparr> else ab);
              ab2 = can_ab_mark (ab1\<lparr>a_state := CAN_AB_RUNNING, a_verified := False, a_adopted := True,
                                   a_misses := 0, a_normal := g_want_normal (a_cfg ab1)\<rparr>) k
          in (ab2, apply_action ab2 (\<not> g_want_normal (a_cfg ab2)), True))"

definition ab_proven :: "can_ab \<Rightarrow> counters \<Rightarrow> can_ab \<times> can_ab_action" where
  "ab_proven ab k =
     (let ab1 = can_ab_mark (ab\<lparr>a_verified := True, a_misses := 0, a_detected_kbps := can_ab_baud ab,
                               a_state := CAN_AB_RUNNING\<rparr>) k
      in if g_want_normal (a_cfg ab1) \<and> \<not> a_normal ab1
         then let ab2 = ab1\<lparr>a_normal := True\<rparr> in (ab2, apply_action ab2 False)
         else (ab1, no_action))"

definition ab_mismatch :: "can_ab \<Rightarrow> counters \<Rightarrow> can_ab \<times> can_ab_action" where
  "ab_mismatch ab k =
     (let was_normal = a_normal ab;
          ab1 = ab\<lparr>a_bitten := True, a_verified := False, a_adopted := False, a_normal := False\<rparr>;
          ab2 = (if was_normal then ab1\<lparr>a_demotions := a_demotions ab1 + 1\<rparr> else ab1);
          auto = (g_n_candidates (a_cfg ab2) > 1);
          ab3 = (if auto then ab2\<lparr>a_misses := a_misses ab2 + 1\<rparr> else ab2)
      in if auto \<and> a_misses ab3 < g_n_candidates (a_cfg ab3)
         then let ab4 = can_ab_mark ((ab_next_candidate ab3)\<lparr>a_state := CAN_AB_LISTENING\<rparr>) k
              in (ab4, apply_action ab4 True)
         else let ab4 = can_ab_mark (ab3\<lparr>a_state := CAN_AB_MISMATCH\<rparr>) k
              in (ab4, if was_normal then apply_action ab4 True else no_action))"

text \<open>\<open>can_ab_step\<close>: the part for a running node, the part for a listening one, and the whole.\<close>

definition ab_step_running :: "can_ab \<Rightarrow> counters \<Rightarrow> bool \<Rightarrow> u32 \<Rightarrow> u32 \<Rightarrow> can_ab \<times> can_ab_action" where
  "ab_step_running ab k garbage df_enter span_age =
     (if garbage then ab_mismatch ab k
      else
        let ab1 = (if \<not> a_verified ab \<and> df_enter \<ge> CAN_AB_OK_FRAMES
                   then ab\<lparr>a_verified := True, a_detected_kbps := can_ab_baud ab\<rparr> else ab);
            ab2 = (if span_age \<ge> CAN_AB_WATCH_MS then restart_span ab1 k else ab1)
        in (ab2, no_action))"

definition ab_retry_ms :: "can_ab \<Rightarrow> u32" where
  "ab_retry_ms ab = (if g_retry_ms (a_cfg ab) \<noteq> 0 then ucast (g_retry_ms (a_cfg ab)) else CAN_AB_RETRY_MS)"

definition ab_step_listening ::
  "can_ab \<Rightarrow> counters \<Rightarrow> bool \<Rightarrow> u32 \<Rightarrow> u32 \<Rightarrow> u32 \<Rightarrow> u32 \<Rightarrow> u32 \<Rightarrow> can_ab \<times> can_ab_action" where
  "ab_step_listening ab k garbage df_enter df_span db_span age span_age =
     (if df_enter \<ge> CAN_AB_OK_FRAMES then ab_proven ab k
      else if a_state ab = CAN_AB_MISMATCH \<and> g_n_candidates (a_cfg ab) > 1 \<and> age \<ge> ab_retry_ms ab then
        let ab1 = can_ab_mark ((ab_next_candidate (ab\<lparr>a_misses := 0\<rparr>))\<lparr>a_state := CAN_AB_LISTENING\<rparr>) k
        in (ab1, apply_action ab1 True)
      else if garbage then
        (if a_state ab = CAN_AB_MISMATCH then (restart_span ab k, no_action) else ab_mismatch ab k)
      else if a_state ab = CAN_AB_LISTENING \<and> df_enter = 0 \<and> db_span = 0 \<and> age \<ge> CAN_AB_SILENT_MS \<and>
              g_n_candidates (a_cfg ab) = 1 \<and> \<not> a_bitten ab then
        let ab1 = can_ab_mark (ab\<lparr>a_state := CAN_AB_RUNNING\<rparr>) k
        in if g_want_normal (a_cfg ab1)
           then let ab2 = ab1\<lparr>a_normal := True\<rparr> in (ab2, apply_action ab2 False)
           else (ab1, no_action)
      else if span_age \<ge> CAN_AB_SPAN_MS then
        (if a_state ab = CAN_AB_MISMATCH \<and> db_span = 0 \<and> df_span = 0
         then (can_ab_mark (ab\<lparr>a_state := CAN_AB_LISTENING\<rparr>) k, no_action)
         else (restart_span ab k, no_action))
      else (ab, no_action))"

definition can_ab_step :: "can_ab \<Rightarrow> counters \<Rightarrow> can_ab \<times> can_ab_action" where
  "can_ab_step ab k =
     (if g_n_candidates (a_cfg ab) = 0 then (ab, no_action)
      else
        let df_enter = k_frames k - a_frames0 ab;
            df_span = k_frames k - a_span_frames0 ab;
            db_span = k_bad k - a_span_bad0 ab;
            age = k_now k - a_enter_ms ab;
            span_age = k_now k - a_span_ms ab;
            garbage = (db_span \<ge> CAN_AB_BAD_MIN \<and> df_span = 0);
            ab1 = (if df_span \<noteq> 0 then ab\<lparr>a_suspect := False\<rparr> else ab);
            (ab2, garbage2) = (if garbage \<and> \<not> a_normal ab1 then ab_confirmed ab1 k else (ab1, garbage))
        in if a_state ab2 = CAN_AB_RUNNING
           then ab_step_running ab2 k garbage2 df_enter span_age
           else ab_step_listening ab2 k garbage2 df_enter df_span db_span age span_age)"

section \<open>The policy and the node it drives\<close>

text \<open>The policy's own invariant.\<close>

definition ab_inv :: "can_ab \<Rightarrow> bool" where
  "ab_inv ab \<longleftrightarrow>
     length (g_candidates (a_cfg ab)) = CAN_AB_MAX_CANDIDATES \<and>
     1 \<le> unat (g_n_candidates (a_cfg ab)) \<and> unat (g_n_candidates (a_cfg ab)) \<le> CAN_AB_MAX_CANDIDATES \<and>
     a_idx ab < g_n_candidates (a_cfg ab) \<and>
     (a_normal ab \<longrightarrow> a_state ab = CAN_AB_RUNNING \<and> g_want_normal (a_cfg ab)) \<and>
     (a_verified ab \<or> a_adopted ab \<longrightarrow> a_state ab = CAN_AB_RUNNING) \<and>
     (a_state ab = CAN_AB_RUNNING \<longrightarrow>
        a_verified ab \<or> (\<not> a_bitten ab \<and> (a_adopted ab \<or> g_n_candidates (a_cfg ab) = 1))) \<and>
     (a_verified ab \<longrightarrow> a_detected_kbps ab = can_ab_baud ab)"

text \<open>What a node runs at: its bitrate and whether it only listens; and where the policy's actions
  want the node, which is where it is as long as the driver does as told.\<close>

type_synonym can_node = "u16 \<times> bool"

definition node_wanted :: "can_ab_action \<Rightarrow> can_node \<Rightarrow> can_node" where
  "node_wanted a n = (if act_apply a then (act_baud_kbps a, act_listen_only a) else n)"

text \<open>The node is wanted where the policy thinks it is.\<close>

definition ab_agrees :: "can_ab \<times> can_node \<Rightarrow> bool" where
  "ab_agrees s \<longleftrightarrow> ab_inv (fst s) \<and> snd s = (can_ab_baud (fst s), \<not> a_normal (fst s))"

lemma baud_cong:
  "a_cfg ab' = a_cfg ab \<Longrightarrow> a_idx ab' = a_idx ab \<Longrightarrow> can_ab_baud ab' = can_ab_baud ab"
  by (simp add: can_ab_baud_def)

lemma mark_frame [simp]:
  "a_cfg (can_ab_mark ab k) = a_cfg ab" "a_state (can_ab_mark ab k) = a_state ab"
  "a_idx (can_ab_mark ab k) = a_idx ab" "a_normal (can_ab_mark ab k) = a_normal ab"
  "a_verified (can_ab_mark ab k) = a_verified ab" "a_bitten (can_ab_mark ab k) = a_bitten ab"
  "a_adopted (can_ab_mark ab k) = a_adopted ab" "a_misses (can_ab_mark ab k) = a_misses ab"
  "a_detected_kbps (can_ab_mark ab k) = a_detected_kbps ab"
  by (simp_all add: can_ab_mark_def restart_span_def)

lemma span_frame [simp]:
  "a_cfg (restart_span ab k) = a_cfg ab" "a_state (restart_span ab k) = a_state ab"
  "a_idx (restart_span ab k) = a_idx ab" "a_normal (restart_span ab k) = a_normal ab"
  "a_verified (restart_span ab k) = a_verified ab" "a_bitten (restart_span ab k) = a_bitten ab"
  "a_adopted (restart_span ab k) = a_adopted ab" "a_misses (restart_span ab k) = a_misses ab"
  "a_detected_kbps (restart_span ab k) = a_detected_kbps ab"
  by (simp_all add: restart_span_def)

lemma baud_frame [simp]:
  "can_ab_baud (can_ab_mark ab k) = can_ab_baud ab"
  "can_ab_baud (restart_span ab k) = can_ab_baud ab"
  by (simp_all add: can_ab_baud_def)

lemma baud_updates [simp]:
  "can_ab_baud (ab\<lparr>a_state := x0\<rparr>) = can_ab_baud ab"
  "can_ab_baud (ab\<lparr>a_normal := x1\<rparr>) = can_ab_baud ab"
  "can_ab_baud (ab\<lparr>a_verified := x2\<rparr>) = can_ab_baud ab"
  "can_ab_baud (ab\<lparr>a_bitten := x3\<rparr>) = can_ab_baud ab"
  "can_ab_baud (ab\<lparr>a_adopted := x4\<rparr>) = can_ab_baud ab"
  "can_ab_baud (ab\<lparr>a_misses := x5\<rparr>) = can_ab_baud ab"
  "can_ab_baud (ab\<lparr>a_detected_kbps := x6\<rparr>) = can_ab_baud ab"
  "can_ab_baud (ab\<lparr>a_suspect := x7\<rparr>) = can_ab_baud ab"
  "can_ab_baud (ab\<lparr>a_suspect_ms := x8\<rparr>) = can_ab_baud ab"
  "can_ab_baud (ab\<lparr>a_demotions := x9\<rparr>) = can_ab_baud ab"
  "can_ab_baud (ab\<lparr>a_switches := x10\<rparr>) = can_ab_baud ab"
  by (simp_all add: can_ab_baud_def)

text \<open>The core fields decide the invariant.\<close>

lemma ab_inv_cong:
  assumes "ab_inv ab" "a_cfg ab' = a_cfg ab" "a_state ab' = a_state ab" "a_idx ab' = a_idx ab"
    "a_normal ab' = a_normal ab" "a_verified ab' = a_verified ab" "a_bitten ab' = a_bitten ab"
    "a_adopted ab' = a_adopted ab" "a_detected_kbps ab' = a_detected_kbps ab"
  shows "ab_inv ab'"
  using assms baud_cong [of ab' ab] by (simp add: ab_inv_def)

lemma confirmed_frame:
  assumes "ab_confirmed ab k = (ab', b)"
  shows "a_cfg ab' = a_cfg ab" "a_state ab' = a_state ab" "a_idx ab' = a_idx ab"
    "a_normal ab' = a_normal ab" "a_verified ab' = a_verified ab" "a_bitten ab' = a_bitten ab"
    "a_adopted ab' = a_adopted ab" "a_detected_kbps ab' = a_detected_kbps ab"
    "can_ab_baud ab' = can_ab_baud ab"
  using assms by (auto simp: ab_confirmed_def Let_def can_ab_baud_def split: if_splits)

lemma next_candidate_idx:
  assumes "1 \<le> unat (g_n_candidates (a_cfg ab))"
  shows "a_idx (ab_next_candidate ab) < g_n_candidates (a_cfg ab)"
proof -
  let ?n = "g_n_candidates (a_cfg ab)" and ?i = "(ucast (a_idx ab) + 1 :: u32)"
  have "unat (?i mod ucast ?n) < unat ?n"
    using assms by (simp add: unat_mod)
  moreover have "unat ?n < 256" by (rule unat_u8_less)
  ultimately show ?thesis
    by (simp add: ab_next_candidate_def word_less_nat_alt unat_to_u8)
qed

lemma next_candidate_fields [simp]:
  "a_cfg (ab_next_candidate ab) = a_cfg ab" "a_state (ab_next_candidate ab) = a_state ab"
  "a_normal (ab_next_candidate ab) = a_normal ab" "a_bitten (ab_next_candidate ab) = a_bitten ab"
  "\<not> a_verified (ab_next_candidate ab)" "\<not> a_adopted (ab_next_candidate ab)"
  by (simp_all add: ab_next_candidate_def)

lemma node_wanted_simps [simp]:
  "node_wanted (apply_action ab l) n = (can_ab_baud ab, l)" "node_wanted no_action n = n"
  by (simp_all add: node_wanted_def apply_action_def no_action_def)

lemma inv_listening:
  assumes "ab_inv ab" "a_cfg ab' = a_cfg ab" "a_idx ab' < g_n_candidates (a_cfg ab)"
    and "a_state ab' \<noteq> CAN_AB_RUNNING" "\<not> a_normal ab'" "\<not> a_verified ab'" "\<not> a_adopted ab'"
  shows "ab_inv ab'"
  using assms by (simp add: ab_inv_def)

lemma agreesI:
  "ab_inv ab \<Longrightarrow> b = can_ab_baud ab \<Longrightarrow> l = (\<not> a_normal ab) \<Longrightarrow> ab_agrees (ab, b, l)"
  by (simp add: ab_agrees_def)

lemma agrees_keep:
  assumes "ab_agrees (ab, n)" "a_cfg ab' = a_cfg ab" "a_state ab' = a_state ab" "a_idx ab' = a_idx ab"
    "a_normal ab' = a_normal ab" "a_verified ab' = a_verified ab" "a_bitten ab' = a_bitten ab"
    "a_adopted ab' = a_adopted ab" "a_detected_kbps ab' = a_detected_kbps ab"
  shows "ab_agrees (ab', n)"
  using assms ab_inv_cong [of ab ab'] baud_cong [of ab' ab] by (simp add: ab_agrees_def)

text \<open>A mismatch, seen from outside: the node listens, at the next candidate or where it is.\<close>

lemma mismatch_result:
  assumes "ab_mismatch ab k = (ab', a)"
  shows "a_cfg ab' = a_cfg ab \<and> a_state ab' \<noteq> CAN_AB_RUNNING \<and> \<not> a_normal ab' \<and> \<not> a_verified ab' \<and>
    \<not> a_adopted ab' \<and> a_bitten ab' \<and>
    (a = apply_action ab' True \<and> a_idx ab' \<in> {a_idx ab, a_idx (ab_next_candidate ab)} \<or>
     a = no_action \<and> \<not> a_normal ab \<and> a_idx ab' = a_idx ab)"
proof -
  note defs = assms [unfolded ab_mismatch_def Let_def]
  show ?thesis
  proof (cases "a_normal ab")
    case True
    with defs show ?thesis by (auto simp: ab_next_candidate_def split: if_splits)
  next
    case False
    with defs show ?thesis by (auto simp: ab_next_candidate_def split: if_splits)
  qed
qed

text \<open>What an operation returned, for the node \<open>n\<close> it found.\<close>

definition step_ok :: "can_node \<Rightarrow> can_ab \<times> can_ab_action \<Rightarrow> bool" where
  "step_ok n r \<longleftrightarrow> ab_agrees (fst r, node_wanted (snd r) n)"

lemma step_ok_simps [simp]:
  "step_ok n (ab, apply_action ab l) \<longleftrightarrow> ab_inv ab \<and> l = (\<not> a_normal ab)"
  "step_ok n (ab, no_action) \<longleftrightarrow> ab_agrees (ab, n)"
  by (auto simp: step_ok_def ab_agrees_def)

lemma step_ok_if:
  "(c \<Longrightarrow> step_ok n x) \<Longrightarrow> (\<not> c \<Longrightarrow> step_ok n y) \<Longrightarrow> step_ok n (if c then x else y)"
  by simp

lemma ok_mismatch:
  assumes "ab_agrees (ab, n)"
  shows "step_ok n (ab_mismatch ab k)"
proof -
  obtain ab' a where eq: "ab_mismatch ab k = (ab', a)" by fastforce
  have inv: "ab_inv ab" and n: "n = (can_ab_baud ab, \<not> a_normal ab)"
    using assms by (simp_all add: ab_agrees_def)
  note r = mismatch_result [OF eq]
  have "a_idx ab' < g_n_candidates (a_cfg ab)"
    using r inv next_candidate_idx [of ab] by (auto simp: ab_inv_def)
  with inv r have "ab_inv ab'" by (rule_tac inv_listening [of ab]) auto
  with r n baud_cong [of ab' ab] show ?thesis by (auto simp: eq ab_agrees_def)
qed

lemma ok_proven:
  assumes "ab_agrees (ab, n)"
  shows "step_ok n (ab_proven ab k)"
proof -
  define ab1 where "ab1 = can_ab_mark (ab\<lparr>a_verified := True, a_misses := 0,
    a_detected_kbps := can_ab_baud ab, a_state := CAN_AB_RUNNING\<rparr>) k"
  have core: "a_cfg ab1 = a_cfg ab" "a_idx ab1 = a_idx ab" "a_normal ab1 = a_normal ab"
    "a_state ab1 = CAN_AB_RUNNING" "a_verified ab1" "a_detected_kbps ab1 = can_ab_baud ab1"
    by (simp_all add: ab1_def)
  have r: "ab_proven ab k = (if g_want_normal (a_cfg ab1) \<and> \<not> a_normal ab1
      then (ab1\<lparr>a_normal := True\<rparr>, apply_action (ab1\<lparr>a_normal := True\<rparr>) False) else (ab1, no_action))"
    unfolding ab_proven_def Let_def ab1_def by simp
  have "can_ab_baud ab1 = can_ab_baud ab" using core by (intro baud_cong)
  with core assms show ?thesis
    unfolding r by (intro step_ok_if) (simp_all add: ab_agrees_def ab_inv_def)
qed

lemma ok_running:
  assumes ag: "ab_agrees (ab, n)" and st: "a_state ab = CAN_AB_RUNNING"
  shows "step_ok n (ab_step_running ab k garbage df_enter span_age)"
proof -
  define ab1 where "ab1 = (if \<not> a_verified ab \<and> df_enter \<ge> CAN_AB_OK_FRAMES
    then ab\<lparr>a_verified := True, a_detected_kbps := can_ab_baud ab\<rparr> else ab)"
  have ag1: "ab_agrees (ab1, n)"
    using ag st by (auto simp: ab1_def ab_agrees_def ab_inv_def)
  then have "ab_agrees (restart_span ab1 k, n)" by (rule agrees_keep) simp_all
  with ag1 ok_mismatch [OF ag] show ?thesis
    unfolding ab_step_running_def Let_def ab1_def by (intro step_ok_if) simp_all
qed

lemma ok_listening:
  assumes ag: "ab_agrees (ab, n)" and st: "a_state ab \<noteq> CAN_AB_RUNNING"
  shows "step_ok n (ab_step_listening ab k garbage df_enter df_span db_span age span_age)"
proof -
  have inv: "ab_inv ab" and n: "n = (can_ab_baud ab, \<not> a_normal ab)"
    using ag by (simp_all add: ab_agrees_def)
  have idle: "\<not> a_normal ab" "\<not> a_verified ab" "\<not> a_adopted ab" using inv st by (auto simp: ab_inv_def)
  have "1 \<le> unat (g_n_candidates (a_cfg ab))" using inv by (simp add: ab_inv_def)
  then have retry: "ab_inv (can_ab_mark ((ab_next_candidate (ab\<lparr>a_misses := 0\<rparr>))\<lparr>a_state := CAN_AB_LISTENING\<rparr>) k)"
    using idle next_candidate_idx [of "ab\<lparr>a_misses := 0\<rparr>"]
    by (intro inv_listening [OF inv]) simp_all
  have listen: "ab_agrees (can_ab_mark (ab\<lparr>a_state := CAN_AB_LISTENING\<rparr>) k, n)"
    using inv n idle by (simp add: ab_agrees_def ab_inv_def)
  have span: "ab_agrees (restart_span ab k, n)" using ag by (rule agrees_keep) simp_all
  have silent: "ab_inv ((can_ab_mark (ab\<lparr>a_state := CAN_AB_RUNNING\<rparr>) k)\<lparr>a_normal := True\<rparr>)"
    if "g_n_candidates (a_cfg ab) = 1" "\<not> a_bitten ab" "g_want_normal (a_cfg ab)"
    using inv that idle by (simp add: ab_inv_def)
  have quiet: "ab_agrees (can_ab_mark (ab\<lparr>a_state := CAN_AB_RUNNING\<rparr>) k, n)"
    if "g_n_candidates (a_cfg ab) = 1" "\<not> a_bitten ab"
    using inv n that idle by (simp add: ab_agrees_def ab_inv_def)
  show ?thesis
    unfolding ab_step_listening_def Let_def
    by (intro step_ok_if ok_proven ok_mismatch ag)
      (use retry listen span silent quiet ag idle in simp_all)
qed

lemma ok_step:
  assumes "ab_agrees (ab, n)"
  shows "step_ok n (can_ab_step ab k)"
proof -
  define ab1 where "ab1 = (if k_frames k - a_span_frames0 ab \<noteq> 0 then ab\<lparr>a_suspect := False\<rparr> else ab)"
  have ag1: "ab_agrees (ab1, n)" unfolding ab1_def using assms by (auto intro: agrees_keep)
  have conf: "ab_agrees (fst (if g \<and> \<not> a_normal ab1 then ab_confirmed ab1 k else (ab1, g)), n)" for g
    using ag1 confirmed_frame [of ab1 k] by (cases "ab_confirmed ab1 k") (auto intro: agrees_keep)
  have whole: "step_ok n (case p of (ab2, g) \<Rightarrow>
      if a_state ab2 = CAN_AB_RUNNING then ab_step_running ab2 k g e sa
      else ab_step_listening ab2 k g e df db ae sa)" if "ab_agrees (fst p, n)" for p e sa df db ae
    using that by (cases p) (auto intro: ok_running ok_listening)
  show ?thesis
    unfolding can_ab_step_def Let_def ab1_def [symmetric]
    by (rule step_ok_if) (simp add: assms, rule whole, rule conf)
qed

lemma ok_want_normal:
  assumes "ab_agrees (ab, n)"
  shows "step_ok n (can_ab_want_normal ab w k)"
  using assms unfolding can_ab_want_normal_def Let_def
  by (intro step_ok_if) (auto simp: ab_agrees_def ab_inv_def can_ab_baud_def)

lemma candidate_of_less:
  assumes "ab_candidate_of cfg kbps \<noteq> g_n_candidates cfg"
  shows "ab_candidate_of cfg kbps < g_n_candidates cfg \<and>
    g_candidates cfg ! unat (ab_candidate_of cfg kbps) = kbps"
proof -
  define f where "f = (\<lambda>i idx :: u8. if g_candidates cfg ! i = kbps then of_nat i else idx)"
  have "fold f [0..<m] (g_n_candidates cfg) = g_n_candidates cfg \<or>
      (\<exists>i < m. fold f [0..<m] (g_n_candidates cfg) = of_nat i \<and> g_candidates cfg ! i = kbps)" for m
  proof (induction m)
    case 0
    then show ?case by simp
  next
    case (Suc m)
    then show ?case by (auto simp: f_def less_Suc_eq)
  qed
  then obtain i where i: "i < unat (g_n_candidates cfg)" "ab_candidate_of cfg kbps = of_nat i"
    "g_candidates cfg ! i = kbps"
    using assms unfolding ab_candidate_of_def f_def by blast
  then have "unat (of_nat i :: u8) = i"
    using unat_u8_less [of "g_n_candidates cfg"] by (intro unat_of_nat_small) simp
  with i show ?thesis by (simp add: word_less_nat_alt)
qed

lemma ok_adopt:
  assumes "ab_agrees (ab, n)" and eq: "can_ab_adopt ab kbps k = (ab', a, t)"
  shows "step_ok n (ab', a)"
proof (cases t)
  case False
  with eq assms(1) have "(ab', a) = (ab, no_action)"
    by (auto simp: can_ab_adopt_def Let_def split: if_splits)
  with assms(1) show ?thesis by simp
next
  case True
  let ?idx = "ab_candidate_of (a_cfg ab) kbps"
  have bitten: "\<not> a_bitten ab" and idx: "?idx \<noteq> g_n_candidates (a_cfg ab)"
    and ab': "a_cfg ab' = a_cfg ab" "a_idx ab' = ?idx" "a_state ab' = CAN_AB_RUNNING" "\<not> a_verified ab'"
    "a_adopted ab'" "a_normal ab' = g_want_normal (a_cfg ab)" "a_bitten ab' = a_bitten ab"
    and a: "a = apply_action ab' (\<not> g_want_normal (a_cfg ab))"
    using eq True by (auto simp: can_ab_adopt_def Let_def split: if_splits)
  with assms(1) candidate_of_less [OF idx] show ?thesis
    by (simp add: ab_agrees_def ab_inv_def)
qed

section \<open>The link: the node as the driver really has it\<close>

text \<open>
  The caller of the policy (\<^verbatim>\<open>can_core_link.c\<close>): the node of the driver (\<open>None\<close> while there is
  none), the gate that lets transmissions in, and whether the driver refused the last start. A
  start can fail: whether the IDF driver took the node is the argument \<open>up\<close>, and
  \<open>can_drv_create\<close> refuses bitrates out of its range itself. The wait for transmissions that
  are inside the driver (\<open>can_link_tx_close\<close>, two seconds at most) is left out, and so is the early
  return of \<open>can_core_set_silent_mode\<close> for the mode that is already set.
\<close>

record can_link =
  ln_node :: "can_node option"
  ln_tx_open :: bool
  ln_refused :: bool

definition can_drv_create :: "u16 \<Rightarrow> bool \<Rightarrow> bool \<Rightarrow> can_node option" where
  "can_drv_create baud_kbps listen_only up =
     (if baud_kbps < 25 \<or> baud_kbps > 1000 then None
      else if up then Some (baud_kbps, listen_only) else None)"

definition can_drv_start_on_core :: "can_link \<Rightarrow> u16 \<Rightarrow> bool \<Rightarrow> bool \<Rightarrow> can_link" where
  "can_drv_start_on_core l baud_kbps listen_only up =
     (let node = can_drv_create baud_kbps listen_only up in l\<lparr>ln_node := node, ln_refused := (node = None)\<rparr>)"

definition can_drv_stop :: "can_link \<Rightarrow> can_link" where
  "can_drv_stop l = l\<lparr>ln_node := None\<rparr>"

definition link_apply :: "can_link \<Rightarrow> u16 \<Rightarrow> bool \<Rightarrow> bool \<Rightarrow> can_link" where
  "link_apply l baud_kbps listen_only up =
     (let l1 = can_drv_stop (l\<lparr>ln_tx_open := False\<rparr>);
          l2 = can_drv_start_on_core l1 baud_kbps listen_only up
      in if ln_refused l2 then l2
         else if \<not> listen_only then l2\<lparr>ln_tx_open := True\<rparr> else l2)"

text \<open>The part the three callers share: apply the action, then mark the policy (\<open>link_mark\<close>), with
  the counters \<open>km\<close> of that moment.\<close>

definition can_link_act ::
  "can_ab \<times> can_ab_action \<Rightarrow> can_link \<Rightarrow> bool \<Rightarrow> counters \<Rightarrow> can_ab \<times> can_link" where
  "can_link_act r l up km =
     (if act_apply (snd r)
      then (can_ab_mark (fst r) km, link_apply l (act_baud_kbps (snd r)) (act_listen_only (snd r)) up)
      else (fst r, l))"

definition can_link_service ::
  "can_ab \<times> can_link \<Rightarrow> counters \<Rightarrow> bool \<Rightarrow> counters \<Rightarrow> can_ab \<times> can_link" where
  "can_link_service s k up km = can_link_act (can_ab_step (fst s) k) (snd s) up km"

definition can_core_set_silent_mode ::
  "can_ab \<times> can_link \<Rightarrow> bool \<Rightarrow> counters \<Rightarrow> bool \<Rightarrow> counters \<Rightarrow> can_ab \<times> can_link" where
  "can_core_set_silent_mode s silent_mode k up km =
     can_link_act (can_ab_want_normal (fst s) (\<not> silent_mode) k) (snd s) up km"

definition can_core_adopt_baud ::
  "can_ab \<times> can_link \<Rightarrow> u32 \<Rightarrow> counters \<Rightarrow> bool \<Rightarrow> counters \<Rightarrow> can_ab \<times> can_link" where
  "can_core_adopt_baud s baud_kbps k up km =
     (if baud_kbps = 0 \<or> baud_kbps > 0xFFFF then s
      else let (ab, a, taken) = can_ab_adopt (fst s) (ucast baud_kbps) k in can_link_act (ab, a) (snd s) up km)"

definition can_link_start :: "can_link \<Rightarrow> can_ab_cfg option \<Rightarrow> counters \<Rightarrow> bool \<Rightarrow> can_ab \<times> can_link" where
  "can_link_start l cfg k up =
     (let (ab, a) = can_ab_init cfg k
      in (ab, can_drv_start_on_core (l\<lparr>ln_tx_open := False\<rparr>) (act_baud_kbps a) (act_listen_only a) up))"

text \<open>\<open>can_core_set_baud\<close>: an explicit bitrate, what \<open>link_cfg\<close> makes of it, and a fresh start.\<close>

definition link_cfg_fixed :: "u32 \<Rightarrow> bool \<Rightarrow> u16 \<Rightarrow> can_ab_cfg" where
  "link_cfg_fixed baud_kbps silent_mode retry_ms =
     \<lparr>g_candidates = ucast baud_kbps # replicate 7 0, g_n_candidates = 1, g_want_normal = (\<not> silent_mode),
      g_retry_ms = retry_ms\<rparr>"

definition can_core_set_baud ::
  "can_ab \<times> can_link \<Rightarrow> u32 \<Rightarrow> bool \<Rightarrow> u16 \<Rightarrow> counters \<Rightarrow> bool \<Rightarrow> can_ab \<times> can_link" where
  "can_core_set_baud s baud_kbps silent_mode retry_ms k up =
     can_link_start (can_drv_stop ((snd s)\<lparr>ln_tx_open := False\<rparr>))
       (Some (link_cfg_fixed baud_kbps silent_mode retry_ms)) k up"

datatype ab_event =
    AbStep counters bool counters
  | AbWant bool counters bool counters
  | AbAdopt u32 counters bool counters
  | AbSetBaud u32 bool u16 counters bool

fun ab_event_step :: "ab_event \<Rightarrow> can_ab \<times> can_link \<Rightarrow> can_ab \<times> can_link" where
  "ab_event_step (AbStep k up km) s = can_link_service s k up km"
| "ab_event_step (AbWant w k up km) s = can_core_set_silent_mode s (\<not> w) k up km"
| "ab_event_step (AbAdopt kbps k up km) s = can_core_adopt_baud s kbps k up km"
| "ab_event_step (AbSetBaud kbps silent retry k up) s = can_core_set_baud s kbps silent retry k up"

text \<open>The node is where the policy wants it, or the driver refused to start it there.\<close>

definition link_ok :: "can_node \<Rightarrow> can_link \<Rightarrow> bool" where
  "link_ok n l \<longleftrightarrow> ln_node l = (if ln_refused l then None else Some n) \<and>
     ln_tx_open l = (\<not> ln_refused l \<and> \<not> snd n)"

definition ab_link_inv :: "can_ab \<times> can_link \<Rightarrow> bool" where
  "ab_link_inv s \<longleftrightarrow> ab_inv (fst s) \<and> link_ok (can_ab_baud (fst s), \<not> a_normal (fst s)) (snd s)"

lemma link_apply_ok: "link_ok (baud, listen) (link_apply l baud listen up)"
  by (simp add: link_ok_def link_apply_def can_drv_start_on_core_def can_drv_create_def can_drv_stop_def Let_def)

lemma act_ok:
  assumes "ab_link_inv (ab, l)" and "\<And>n. ab_agrees (ab, n) \<Longrightarrow> step_ok n r"
  shows "ab_link_inv (can_link_act r l up km)"
proof -
  define n where "n = (can_ab_baud ab, \<not> a_normal ab)"
  have n: "ab_agrees (ab, n)" "link_ok n l" using assms(1) by (simp_all add: ab_link_inv_def ab_agrees_def n_def)
  then have "ab_agrees (fst r, node_wanted (snd r) n)" using assms(2) by (simp add: step_ok_def)
  moreover have "link_ok (node_wanted (snd r) n) (snd (can_link_act r l up km))"
    using n(2) link_apply_ok by (simp add: can_link_act_def node_wanted_def)
  ultimately show ?thesis by (auto simp: ab_link_inv_def ab_agrees_def can_link_act_def intro: ab_inv_cong)
qed

definition cfg_ok :: "can_ab_cfg option \<Rightarrow> bool" where
  "cfg_ok cfg \<longleftrightarrow> (\<forall>c. cfg = Some c \<longrightarrow> length (g_candidates c) = CAN_AB_MAX_CANDIDATES)"

lemma ab_init_agrees:
  assumes "cfg_ok cfg" and "can_ab_init cfg k = (ab, a)"
  shows "ab_agrees (ab, node_wanted a n) \<and> a = apply_action ab True \<and> \<not> a_normal ab"
proof -
  have "1 \<le> unat (g_n_candidates c)" if "g_n_candidates c > 0" for c :: can_ab_cfg
    using that by (simp add: word_less_nat_alt)
  moreover have "unat (g_n_candidates c) \<le> 8" if "\<not> g_n_candidates c > 8" for c :: can_ab_cfg
    using that by (simp add: word_less_nat_alt)
  ultimately show ?thesis
    using assms
    by (auto simp: can_ab_init_def Let_def cfg_ok_def ab_agrees_def ab_inv_def word_neq_0_conv
        split: option.splits if_splits)
qed

lemma link_start_ok:
  assumes "cfg_ok cfg"
  shows "ab_link_inv (can_link_start l cfg k up)"
proof -
  obtain ab a where i: "can_ab_init cfg k = (ab, a)" by fastforce
  from ab_init_agrees [OF assms i] show ?thesis
    by (auto simp: can_link_start_def i ab_link_inv_def ab_agrees_def apply_action_def link_ok_def
        can_drv_start_on_core_def can_drv_create_def Let_def split: option.splits if_splits)
qed

lemma ab_event_ok:
  assumes "ab_link_inv s"
  shows "ab_link_inv (ab_event_step e s)"
proof -
  obtain ab l where s: "s = (ab, l)" by (rule prod.exhaust)
  with assms have inv: "ab_link_inv (ab, l)" by simp
  show ?thesis
  proof (cases e)
    case (AbStep k up km)
    with s show ?thesis by (simp add: can_link_service_def act_ok [OF inv ok_step])
  next
    case (AbWant w k up km)
    with s show ?thesis by (simp add: can_core_set_silent_mode_def act_ok [OF inv ok_want_normal])
  next
    case (AbAdopt kbps k up km)
    obtain ab' a t where ad: "can_ab_adopt ab (ucast kbps) k = (ab', a, t)" by (rule prod_cases3)
    with AbAdopt s inv act_ok [OF inv ok_adopt [OF _ ad], of up km] show ?thesis
      by (simp add: can_core_adopt_baud_def)
  next
    case (AbSetBaud kbps silent retry k up)
    then show ?thesis by (simp add: can_core_set_baud_def link_start_ok cfg_ok_def link_cfg_fixed_def)
  qed
qed

interpretation abm: machine ab_event_step "\<lambda>_. True" ab_link_inv
  by unfold_locales (rule ab_event_ok)

text \<open>A run: the link is started, then anything happens. (\<open>can_core_init\<close> gives up when the first
  start fails, so the runs that matter begin with a node that is up.)\<close>

definition ab_run :: "can_ab_cfg option \<Rightarrow> counters \<Rightarrow> ab_event list \<Rightarrow> can_ab \<times> can_link" where
  "ab_run cfg k es =
     fold ab_event_step es (can_link_start \<lparr>ln_node = None, ln_tx_open = False, ln_refused = False\<rparr> cfg k True)"

lemma ab_run_inv: "cfg_ok cfg \<Longrightarrow> ab_link_inv (ab_run cfg k es)"
  unfolding ab_run_def by (intro abm.run_inv link_start_ok) (simp_all add: list_all_iff)

text \<open>C35. After any sequence of policy steps, mode changes, adopted and set bitrates, with the
  driver free to refuse any start of the node: unless the driver refused the last start
  (then there is no node) the node runs at the bitrate and in the mode the policy believes;
  the transmit gate is open exactly when a node that may talk is up at that bitrate; the
  candidate is one of the configured ones, and the policy has a node talk only in the state
  RUNNING, when it was asked to, at a bitrate proven by frames, adopted on a silent bus or
  fixed by the settings.\<close>

theorem ab_node_follows_policy:
  assumes "cfg_ok cfg"
  shows "let (ab, l) = ab_run cfg k es in
     (if ln_refused l then ln_node l = None else ln_node l = Some (can_ab_baud ab, \<not> a_normal ab)) \<and>
     (ln_tx_open l \<longleftrightarrow> ln_node l = Some (can_ab_baud ab, False)) \<and>
     a_idx ab < g_n_candidates (a_cfg ab) \<and>
     (\<not> a_normal ab \<or> (a_state ab = CAN_AB_RUNNING \<and> g_want_normal (a_cfg ab) \<and>
        (a_verified ab \<and> a_detected_kbps ab = can_ab_baud ab \<or>
         \<not> a_bitten ab \<and> (a_adopted ab \<or> g_n_candidates (a_cfg ab) = 1))))"
proof -
  obtain ab l where r: "ab_run cfg k es = (ab, l)" by fastforce
  have link: "link_ok (can_ab_baud ab, \<not> a_normal ab) l" and inv: "ab_inv ab"
    using ab_run_inv [OF assms, of k es] by (simp_all add: r ab_link_inv_def)
  have "a_state ab = CAN_AB_RUNNING \<and> g_want_normal (a_cfg ab) \<and>
      (a_verified ab \<and> a_detected_kbps ab = can_ab_baud ab \<or>
       \<not> a_bitten ab \<and> (a_adopted ab \<or> g_n_candidates (a_cfg ab) = 1))" if "a_normal ab"
    using inv that unfolding ab_inv_def by blast
  moreover have "a_idx ab < g_n_candidates (a_cfg ab)" using inv by (simp add: ab_inv_def)
  ultimately show ?thesis using link by (simp add: r link_ok_def)
qed

text \<open>The watchdog of a talking node, in any state a run reaches.\<close>

text \<open>C36. A talking node that has seen the minimum of unreadable traffic and no readable frame in
  its watch span is taken off the bus by the next step: listen-only, marked as bitten and no
  longer verified.\<close>

theorem ab_watchdog:
  assumes "cfg_ok cfg" and "fst (ab_run cfg k0 es) = ab" and "a_normal ab"
    and "k_bad k - a_span_bad0 ab \<ge> CAN_AB_BAD_MIN" and "k_frames k = a_span_frames0 ab"
  shows "let (ab', a) = can_ab_step ab k in
     \<not> a_normal ab' \<and> a = apply_action ab' True \<and> a_bitten ab' \<and> \<not> a_verified ab' \<and>
     a_demotions ab' = a_demotions ab + 1"
proof -
  have inv: "ab_inv ab" using ab_run_inv [OF assms(1), of k0 es] assms(2) by (auto simp: ab_link_inv_def)
  then have st: "a_state ab = CAN_AB_RUNNING" "g_n_candidates (a_cfg ab) \<noteq> 0"
    using assms(3) by (auto simp: ab_inv_def)
  then have step: "can_ab_step ab k = ab_mismatch ab k"
    using assms(3-5) by (simp add: can_ab_step_def ab_step_running_def Let_def)
  obtain ab' a where eq: "ab_mismatch ab k = (ab', a)" by fastforce
  have "a_demotions ab' = a_demotions ab + 1"
    using eq [unfolded ab_mismatch_def Let_def] assms(3)
    by (auto simp: can_ab_mark_def restart_span_def ab_next_candidate_def split: if_splits)
  with mismatch_result [OF eq] assms(3) show ?thesis by (auto simp: step eq)
qed

theorem ab_frames_prove:
  assumes "cfg_ok cfg" and "fst (ab_run cfg k0 es) = ab" and "a_state ab \<noteq> CAN_AB_RUNNING"
    and "k_frames k - a_frames0 ab \<ge> CAN_AB_OK_FRAMES" and "k_frames k \<noteq> a_span_frames0 ab"
  shows "let (ab', a) = can_ab_step ab k in
     a_state ab' = CAN_AB_RUNNING \<and> a_verified ab' \<and> a_detected_kbps ab' = can_ab_baud ab \<and>
     a_normal ab' = g_want_normal (a_cfg ab) \<and>
     a = (if g_want_normal (a_cfg ab) then apply_action ab' False else no_action)"
proof -
  have inv: "ab_inv ab" using ab_run_inv [OF assms(1), of k0 es] assms(2) by (auto simp: ab_link_inv_def)
  then have st: "\<not> a_normal ab" "g_n_candidates (a_cfg ab) \<noteq> 0"
    using assms(3) by (auto simp: ab_inv_def)
  then have "can_ab_step ab k = ab_proven (ab\<lparr>a_suspect := False\<rparr>) k"
    using assms(3-5) by (simp add: can_ab_step_def ab_step_listening_def Let_def)
  then show ?thesis using st by (simp add: ab_proven_def Let_def)
qed

text \<open>
  A fixed bitrate goes to its configured mode after \<open>CAN_AB_SILENT_MS\<close> without a frame and
  without an error. The errors are counted from the start of the current span, so when the
  span is restarted one millisecond is enough.
\<close>

definition fixed_500 :: can_ab_cfg where
  "fixed_500 = \<lparr>g_candidates = 500 # replicate 7 0, g_n_candidates = 1, g_want_normal = True, g_retry_ms = 0\<rparr>"

lemma ab_silence_gap:
  "ln_node (snd (ab_run (Some fixed_500) \<lparr>k_now = 0, k_frames = 0, k_bad = 0\<rparr>
      [AbStep \<lparr>k_now = 100, k_frames = 0, k_bad = 1\<rparr> True \<lparr>k_now = 100, k_frames = 0, k_bad = 1\<rparr>, AbStep \<lparr>k_now = 999, k_frames = 0, k_bad = 1\<rparr> True \<lparr>k_now = 999, k_frames = 0, k_bad = 1\<rparr>,
       AbStep \<lparr>k_now = 1000, k_frames = 0, k_bad = 5\<rparr> True \<lparr>k_now = 1000, k_frames = 0, k_bad = 5\<rparr>, AbStep \<lparr>k_now = 1001, k_frames = 0, k_bad = 5\<rparr> True \<lparr>k_now = 1001, k_frames = 0, k_bad = 5\<rparr>]))
   = Some (500, False)"
  by code_simp

text \<open>
  \<open>can_link_service\<close> drops the error of \<open>link_apply\<close>: when the driver refuses the start that a
  promotion asks for, the policy is in the state RUNNING and normal, there is no node, and the
  steps that follow on a bus that the dead node cannot hear change nothing.
\<close>

lemma link_start_forgotten:
  "let (ab, l) = ab_run (Some fixed_500) \<lparr>k_now = 0, k_frames = 0, k_bad = 0\<rparr>
      [AbStep \<lparr>k_now = 100, k_frames = 4, k_bad = 0\<rparr> False \<lparr>k_now = 100, k_frames = 4, k_bad = 0\<rparr>, AbStep \<lparr>k_now = 300, k_frames = 4, k_bad = 0\<rparr> True \<lparr>k_now = 300, k_frames = 4, k_bad = 0\<rparr>,
       AbStep \<lparr>k_now = 60000, k_frames = 4, k_bad = 0\<rparr> True \<lparr>k_now = 60000, k_frames = 4, k_bad = 0\<rparr>]
   in a_state ab = CAN_AB_RUNNING \<and> a_normal ab \<and> ln_node l = None"
  by code_simp

section \<open>Witnesses\<close>

definition ab_talking :: can_ab where
  "ab_talking = fst (ab_run (Some fixed_500) \<lparr>k_now = 0, k_frames = 0, k_bad = 0\<rparr>
      [AbStep \<lparr>k_now = 100, k_frames = 4, k_bad = 0\<rparr> True \<lparr>k_now = 100, k_frames = 4, k_bad = 0\<rparr>])"

lemma fixed_500_ok: "cfg_ok (Some fixed_500)"
  by (simp add: cfg_ok_def fixed_500_def)

lemma ab_node_follows_policy_witness:
  "let (ab, l) = ab_run (Some fixed_500) \<lparr>k_now = 0, k_frames = 0, k_bad = 0\<rparr>
      [AbStep \<lparr>k_now = 100, k_frames = 4, k_bad = 0\<rparr> True \<lparr>k_now = 100, k_frames = 4, k_bad = 0\<rparr>]
   in a_normal ab \<and> ln_tx_open l \<and> ln_node l = Some (500, False) \<and> a_detected_kbps ab = 500"
proof -
  let ?r = "ab_run (Some fixed_500) \<lparr>k_now = 0, k_frames = 0, k_bad = 0\<rparr> [AbStep \<lparr>k_now = 100, k_frames = 4, k_bad = 0\<rparr> True \<lparr>k_now = 100, k_frames = 4, k_bad = 0\<rparr>]"
  have "can_ab_baud (fst ?r) = 500" "a_normal (fst ?r)" "\<not> ln_refused (snd ?r)" "a_detected_kbps (fst ?r) = 500"
    by code_simp+
  then show ?thesis
    using ab_node_follows_policy [OF fixed_500_ok, of "\<lparr>k_now = 0, k_frames = 0, k_bad = 0\<rparr>"
        "[AbStep \<lparr>k_now = 100, k_frames = 4, k_bad = 0\<rparr> True \<lparr>k_now = 100, k_frames = 4, k_bad = 0\<rparr>]"]
    by (auto simp: Let_def split: prod.splits)
qed

lemma ab_watchdog_witness:
  "\<not> a_normal (fst (can_ab_step ab_talking \<lparr>k_now = 150, k_frames = 4, k_bad = 8\<rparr>))"
proof -
  have "a_normal ab_talking" "a_span_bad0 ab_talking = 0" "a_span_frames0 ab_talking = 4" by code_simp+
  then show ?thesis
    using ab_watchdog [OF fixed_500_ok ab_talking_def [symmetric], of "\<lparr>k_now = 150, k_frames = 4, k_bad = 8\<rparr>"]
    by (auto simp: Let_def split: prod.splits)
qed

lemma ab_frames_prove_witness:
  "a_verified (fst (can_ab_step (fst (ab_run (Some fixed_500) \<lparr>k_now = 0, k_frames = 0, k_bad = 0\<rparr> []))
     \<lparr>k_now = 50, k_frames = 2, k_bad = 0\<rparr>))"
proof -
  let ?ab = "fst (ab_run (Some fixed_500) \<lparr>k_now = 0, k_frames = 0, k_bad = 0\<rparr> [])"
  have "a_state ?ab = CAN_AB_LISTENING" "a_frames0 ?ab = 0" "a_span_frames0 ?ab = 0" by code_simp+
  then show ?thesis
    using ab_frames_prove [OF fixed_500_ok refl, of "\<lparr>k_now = 0, k_frames = 0, k_bad = 0\<rparr>" "[]"
        "\<lparr>k_now = 50, k_frames = 2, k_bad = 0\<rparr>"]
    by (auto simp: Let_def split: prod.splits)
qed

end
