(* ===== verification/Hex.thy ===== *)
theory Hex
  imports Prelude
begin

text \<open>
  What the components use of the C library on hexadecimal text: \<open>isxdigit\<close>, \<open>strtoul\<close> with
  base 16 on a string of hexadecimal digits, and \<open>printf\<close> with \<open>%0kX\<close>.
\<close>

definition hex_char :: "nat \<Rightarrow> char" where
  "hex_char n = ''0123456789ABCDEF'' ! n"

definition hex_value :: "char \<Rightarrow> nat option" where
  "hex_value c =
     (let n = of_char c :: nat in
      if 48 \<le> n \<and> n \<le> 57 then Some (n - 48)
      else if 65 \<le> n \<and> n \<le> 70 then Some (n - 55)
      else if 97 \<le> n \<and> n \<le> 102 then Some (n - 87)
      else None)"

definition isxdigit :: "char \<Rightarrow> bool" where
  "isxdigit c \<longleftrightarrow> hex_value c \<noteq> None"

text \<open>The value of a string of hexadecimal digits.\<close>

definition hex_num :: "string \<Rightarrow> nat" where
  "hex_num s = foldl (\<lambda>a c. 16 * a + the (hex_value c)) 0 s"

text \<open>The \<open>k\<close> last hexadecimal digits of \<open>n\<close>.\<close>

fun hex_fixed :: "nat \<Rightarrow> nat \<Rightarrow> string" where
  "hex_fixed 0 n = []"
| "hex_fixed (Suc k) n = hex_fixed k (n div 16) @ [hex_char (n mod 16)]"

text \<open>\<open>printf\<close> with \<open>%0kx\<close>.\<close>

definition lower_char :: "char \<Rightarrow> char" where
  "lower_char c = (let n = of_char c :: nat in if 65 \<le> n \<and> n \<le> 90 then char_of (n + 32) else c)"

definition hex_lower :: "nat \<Rightarrow> nat \<Rightarrow> string" where
  "hex_lower k n = map lower_char (hex_fixed k n)"

lemma less_16_cases: "n < 16 \<Longrightarrow> n \<in> set [0..<16]" for n :: nat
  by simp

lemma hex_value_char [simp]:
  assumes "n < 16"
  shows "hex_value (hex_char n) = Some n"
proof -
  have "\<forall>n \<in> set [0..<16]. hex_value (hex_char n) = Some n" by code_simp
  with less_16_cases [OF assms] show ?thesis by blast
qed

lemma isxdigit_char [simp]: "n < 16 \<Longrightarrow> isxdigit (hex_char n)"
  by (simp add: isxdigit_def)

lemma hex_value_less: "hex_value c = Some n \<Longrightarrow> n < 16"
  by (auto simp: hex_value_def Let_def split: if_splits)

lemma length_hex_fixed [simp]: "length (hex_fixed k n) = k"
  by (induction k arbitrary: n) auto

lemma hex_fixed_digits: "list_all isxdigit (hex_fixed k n)"
  by (induction k arbitrary: n) auto

lemma hex_num_snoc: "hex_num (s @ [c]) = 16 * hex_num s + the (hex_value c)"
  by (simp add: hex_num_def)

lemma hex_num_fixed [simp]: "hex_num (hex_fixed k n) = n mod 16 ^ k"
proof (induction k arbitrary: n)
  case 0
  then show ?case by (simp add: hex_num_def)
next
  case (Suc k)
  have "n mod 16 ^ Suc k = 16 * (n div 16 mod 16 ^ k) + n mod 16"
    using mod_mult2_eq [of n 16 "16 ^ k"] by simp
  with Suc show ?case by (simp add: hex_num_snoc)
qed

lemma hex_num_bound: "list_all isxdigit s \<Longrightarrow> hex_num s < 16 ^ length s"
proof (induction s rule: rev_induct)
  case Nil
  then show ?case by (simp add: hex_num_def)
next
  case (snoc c s)
  then obtain v where "hex_value c = Some v" "v < 16"
    by (auto simp: isxdigit_def dest: hex_value_less)
  with snoc show ?case by (simp add: hex_num_snoc)
qed

text \<open>The two digits of a byte.\<close>

abbreviation hex2 :: "u8 \<Rightarrow> string" where
  "hex2 b \<equiv> hex_fixed 2 (unat b)"

lemma hex2_simp: "hex2 b = [hex_char (unat b div 16), hex_char (unat b mod 16)]"
  using unat_u8_less [of b] by (simp add: numeral_2_eq_2)

lemma hex_num_two: "hex_num [a, b] = 16 * the (hex_value a) + the (hex_value b)"
  by (simp add: hex_num_def)

lemma hex_num_hex2: "of_nat (hex_num [hex_char (unat b div 16), hex_char (unat b mod 16)]) = (b :: u8)"
proof -
  have "unat b < 256" by (rule unat_u8_less)
  then have "hex_num [hex_char (unat b div 16), hex_char (unat b mod 16)] = unat b"
    by (simp add: hex_num_two)
  then show ?thesis by simp
qed

end
