(* ===== verification/CAN_Filter.thy ===== *)
theory CAN_Filter
  imports Hex
begin

text \<open>
  \<^verbatim>\<open>components/can_manager/can_core_filter.c\<close>: filter and mask, and the text of identifiers
  and payloads. A parser returns \<open>None\<close> where the code returns false; \<open>can_core_parse_bytes\<close>
  leaves bytes behind on failure, so it returns them with its verdict. The NULL guards of the
  output pointers are left out, a NULL string is \<open>None\<close>.
\<close>

definition can_core_filter_match :: "u32 \<Rightarrow> u32 \<Rightarrow> u32 \<Rightarrow> bool" where
  "can_core_filter_match cid filt msk \<longleftrightarrow> cid AND msk = filt AND msk"

definition can_core_format_id_11 :: "u32 \<Rightarrow> string" where
  "can_core_format_id_11 cid = hex_fixed 3 (unat (cid AND 0x7FF))"

definition can_core_format_id_29 :: "u32 \<Rightarrow> string" where
  "can_core_format_id_29 cid = hex_fixed 8 (unat (cid AND 0x1FFFFFFF))"

definition can_core_parse_id :: "string option \<Rightarrow> (u32 \<times> bool) option" where
  "can_core_parse_id str =
     (case str of
        None \<Rightarrow> None
      | Some s \<Rightarrow>
          if \<not> list_all isxdigit s then None
          else if length s = 3 then Some (of_nat (hex_num s) AND 0x7FF, False)
          else if length s = 8 then Some (of_nat (hex_num s) AND 0x1FFFFFFF, True)
          else if length s \<ge> 1 \<and> length s \<le> 7 then
            (if length s \<le> 3 then Some (of_nat (hex_num s) AND 0x7FF, False)
             else Some (of_nat (hex_num s) AND 0x1FFFFFFF, True))
          else None)"

definition can_core_parse_byte :: "string option \<Rightarrow> u8 option" where
  "can_core_parse_byte str =
     (case str of
        None \<Rightarrow> None
      | Some s \<Rightarrow>
          if length s = 0 \<or> length s > 2 then None
          else if \<not> list_all isxdigit s then None
          else Some (of_nat (hex_num s)))"

lemma dropWhile_shorter: "dropWhile P xs = y # ys \<Longrightarrow> length ys < length xs"
  using length_dropWhile_le [of P xs] by simp

text \<open>The loop of \<open>can_core_parse_bytes\<close>: the bytes so far, and false for the early return.\<close>

function parse_bytes_loop :: "nat \<Rightarrow> string \<Rightarrow> bytes \<Rightarrow> bytes \<times> bool" where
  "parse_bytes_loop max_len p out =
     (if p = [] \<or> \<not> length out < max_len then (out, True)
      else case dropWhile (\<lambda>c. c = CHR '' '') p of
             [] \<Rightarrow> (out, True)
           | c # cs \<Rightarrow>
               if \<not> isxdigit c then (out, False)
               else (case cs of
                       d # ds \<Rightarrow>
                         if isxdigit d then parse_bytes_loop max_len ds (out @ [of_nat (hex_num [c, d])])
                         else parse_bytes_loop max_len cs (out @ [of_nat (hex_num [c])])
                     | [] \<Rightarrow> parse_bytes_loop max_len cs (out @ [of_nat (hex_num [c])])))"
  by pat_completeness auto

termination
  by (relation "measure (\<lambda>(_, p, _). length p)") (auto dest: dropWhile_shorter)

declare parse_bytes_loop.simps [simp del]

definition can_core_parse_bytes :: "string option \<Rightarrow> nat \<Rightarrow> bytes \<times> bool" where
  "can_core_parse_bytes str max_len =
     (case str of
        None \<Rightarrow> ([], False)
      | Some s \<Rightarrow>
          let (out, ok) = parse_bytes_loop max_len s [] in (out, ok \<and> length out > 0))"

text \<open>
  The text that \<open>can_core_format_bytes\<close> leaves in a buffer of \<open>buf_sz\<close> bytes. \<open>snprintf\<close>
  into the \<open>buf_sz - pos\<close> bytes that are left keeps one of them for the NUL.
\<close>

fun format_bytes_loop :: "nat \<Rightarrow> bool \<Rightarrow> bool \<Rightarrow> bytes \<Rightarrow> nat \<Rightarrow> string \<Rightarrow> string" where
  "format_bytes_loop buf_sz spaces first [] pos s = s"
| "format_bytes_loop buf_sz spaces first (b # bs) pos s =
     (if pos + 2 < buf_sz then
        let (pos1, s1) = (if spaces \<and> \<not> first \<and> pos + 1 < buf_sz then (pos + 1, s @ '' '') else (pos, s))
        in format_bytes_loop buf_sz spaces False bs (pos1 + 2) (s1 @ take (buf_sz - pos1 - 1) (hex2 b))
      else s)"

definition can_core_format_bytes :: "bytes \<Rightarrow> nat \<Rightarrow> bool \<Rightarrow> string" where
  "can_core_format_bytes data buf_sz spaces = format_bytes_loop buf_sz spaces True data 0 []"

section \<open>Identifiers\<close>

lemma and_mask_11: "unat (cid AND 0x7FF) < 16 ^ 3" "of_nat (unat (cid AND 0x7FF)) AND 0x7FF = (cid AND 0x7FF :: u32)"
  and and_mask_29: "unat (cid AND 0x1FFFFFFF) < 16 ^ 8"
    "of_nat (unat (cid AND 0x1FFFFFFF)) AND 0x1FFFFFFF = (cid AND 0x1FFFFFFF :: u32)" for cid :: u32
proof -
  have "cid AND 0x7FF \<le> 0x7FF" "cid AND 0x1FFFFFFF \<le> 0x1FFFFFFF" by (rule word_and_le1)+
  then show "unat (cid AND 0x7FF) < 16 ^ 3" "unat (cid AND 0x1FFFFFFF) < 16 ^ 8"
    by (simp_all add: word_le_nat_alt)
qed (simp_all add: ac_simps)

theorem can_id_round_trip:
  "can_core_parse_id (Some (can_core_format_id_11 cid)) = Some (cid AND 0x7FF, False) \<and>
   can_core_parse_id (Some (can_core_format_id_29 cid)) = Some (cid AND 0x1FFFFFFF, True)"
  using and_mask_11 [of cid] and_mask_29 [of cid]
  by (simp add: can_core_parse_id_def can_core_format_id_11_def can_core_format_id_29_def hex_fixed_digits)

section \<open>Payloads\<close>

text \<open>What the formatter writes when the buffer holds it all.\<close>

fun hex_text :: "bool \<Rightarrow> bytes \<Rightarrow> string" where
  "hex_text spaces [] = []"
| "hex_text spaces (b # bs) = (if spaces then '' '' else []) @ hex2 b @ hex_text spaces bs"

lemma format_loop_rest:
  "pos + (if spaces then 3 else 2) * length bs < buf_sz \<Longrightarrow>
     format_bytes_loop buf_sz spaces False bs pos s = s @ hex_text spaces bs"
proof (induction bs arbitrary: pos s)
  case Nil
  then show ?case by simp
next
  case (Cons b bs)
  have "take (buf_sz - p - 1) (hex2 b) = hex2 b" if "p + 2 < buf_sz" for p
    using that by (intro take_all) simp
  with Cons show ?case by (auto simp: algebra_simps)
qed

lemma format_bytes_text:
  assumes "(if spaces then 3 else 2) * length (b # bs) < buf_sz + (if spaces then 1 else 0)"
  shows "can_core_format_bytes (b # bs) buf_sz spaces = hex2 b @ hex_text spaces bs"
proof -
  have "take (buf_sz - Suc 0) (hex2 b) = hex2 b"
    using assms by (intro take_all) (auto split: if_splits)
  with assms show ?thesis
    by (auto simp: can_core_format_bytes_def format_loop_rest split: if_splits)
qed

lemma hex_char_not_space: "n < 16 \<Longrightarrow> hex_char n \<noteq> CHR '' ''"
  using isxdigit_char [of n] by (auto simp: isxdigit_def hex_value_def)

lemma parse_loop_byte:
  assumes "length out < max_len"
  shows "parse_bytes_loop max_len ((if spaces then '' '' else []) @ hex2 b @ rest) out
     = parse_bytes_loop max_len rest (out @ [b])"
proof -
  have "unat b div 16 < 16" "unat b mod 16 < 16" using unat_u8_less [of b] by auto
  then show ?thesis
    using assms hex_num_hex2 [of b]
    by (subst parse_bytes_loop.simps) (auto simp: hex2_simp hex_char_not_space)
qed

lemma parse_loop_text:
  "length out + length bs \<le> max_len \<Longrightarrow>
     parse_bytes_loop max_len (hex_text spaces bs) out = (out @ bs, True)"
proof (induction bs arbitrary: out)
  case Nil
  then show ?case by (subst parse_bytes_loop.simps) simp
next
  case (Cons b bs)
  with parse_loop_byte [of out max_len spaces b "hex_text spaces bs"] show ?case by simp
qed

theorem can_bytes_round_trip:
  assumes "data \<noteq> []" and "length data \<le> max_len"
    and "if spaces then 3 * length data \<le> buf_sz else 2 * length data < buf_sz"
  shows "can_core_parse_bytes (Some (can_core_format_bytes data buf_sz spaces)) max_len = (data, True)"
proof -
  obtain b bs where data: "data = b # bs" using assms(1) by (cases data) auto
  have "can_core_format_bytes data buf_sz spaces = hex2 b @ hex_text spaces bs"
    unfolding data by (rule format_bytes_text) (use assms(3) data in \<open>auto split: if_splits\<close>)
  moreover have "parse_bytes_loop max_len (hex2 b @ hex_text spaces bs) [] = (b # bs, True)"
    using parse_loop_byte [of "[]" max_len False b "hex_text spaces bs"] assms(2) data
      parse_loop_text [of "[b]" bs max_len spaces] by simp
  ultimately show ?thesis by (simp add: can_core_parse_bytes_def data)
qed

text \<open>With separators and a buffer one byte short, half of the last byte is printed.\<close>

lemma format_half_byte: "can_core_format_bytes [0xAB, 0xCD] 5 True = ''AB C''"
  by code_simp

lemma can_bytes_round_trip_witness:
  "can_core_parse_bytes (Some (can_core_format_bytes [0xAB, 0x01] 6 True)) 8 = ([0xAB, 0x01], True)"
  by (rule can_bytes_round_trip) simp_all

end
