(* ===== verification/CAN_Wire.thy ===== *)
theory CAN_Wire
  imports Prelude
begin

text \<open>
  The CAN frame (\<^verbatim>\<open>components/can_manager/include/can_core.h\<close>) and its binary form on the
  bridges (\<^verbatim>\<open>can_frame_wire.h\<close>). A frame's \<open>data\<close> is a list of eight bytes. A decoder that
  returns false gives \<open>None\<close>; the frame it may have half filled is not read then.
\<close>

record can_core_frame =
  f_id :: u32
  f_ext :: bool
  f_rtr :: bool
  f_dlc :: u8
  f_data :: bytes
  f_ts_us :: u32

abbreviation (input) CAN_WIRE_HDR :: nat where "CAN_WIRE_HDR \<equiv> 10"
abbreviation (input) CAN_WIRE_FLAG_EXT :: u8 where "CAN_WIRE_FLAG_EXT \<equiv> 1"
abbreviation (input) CAN_WIRE_FLAG_RTR :: u8 where "CAN_WIRE_FLAG_RTR \<equiv> 2"

section \<open>Encode and decode\<close>

definition can_wire_encode :: "can_core_frame \<Rightarrow> bytes" where
  "can_wire_encode f =
     (let dlc = (if f_dlc f > 8 then 8 else f_dlc f) in
      [byte_of 0 (f_id f), byte_of 1 (f_id f), byte_of 2 (f_id f), byte_of 3 (f_id f),
       (if f_ext f then CAN_WIRE_FLAG_EXT else 0) OR (if f_rtr f then CAN_WIRE_FLAG_RTR else 0),
       dlc,
       byte_of 0 (f_ts_us f), byte_of 1 (f_ts_us f), byte_of 2 (f_ts_us f), byte_of 3 (f_ts_us f)] @
      (if \<not> f_rtr f \<and> dlc \<noteq> 0 then take (unat dlc) (f_data f) else []))"

definition can_wire_decode :: "bytes \<Rightarrow> can_core_frame option" where
  "can_wire_decode d =
     (if length d < CAN_WIRE_HDR then None
      else
        let flags = d ! 4; dlc = d ! 5 in
        if dlc > 8 then None
        else
          let f = \<lparr>f_id = le32 (d ! 0) (d ! 1) (d ! 2) (d ! 3),
                   f_ext = (flags AND CAN_WIRE_FLAG_EXT \<noteq> 0), f_rtr = (flags AND CAN_WIRE_FLAG_RTR \<noteq> 0),
                   f_dlc = dlc, f_data = replicate 8 0,
                   f_ts_us = le32 (d ! 6) (d ! 7) (d ! 8) (d ! 9)\<rparr>
          in if \<not> f_rtr f \<and> dlc \<noteq> 0 then
               if length d < CAN_WIRE_HDR + unat dlc then None
               else Some (f\<lparr>f_data := blit 0 (take (unat dlc) (drop CAN_WIRE_HDR d)) (f_data f)\<rparr>)
             else Some f)"

text \<open>The frame at the start of a buffer, and the bytes it takes; \<open>None\<close> is the result 0.\<close>

definition can_wire_decode_next :: "bytes \<Rightarrow> (can_core_frame \<times> nat) option" where
  "can_wire_decode_next d =
     (if length d = 0 then None
      else case can_wire_decode d of
             None \<Rightarrow> None
           | Some f \<Rightarrow> Some (f, CAN_WIRE_HDR + (if f_rtr f then 0 else unat (f_dlc f))))"

section \<open>Round trip\<close>

text \<open>A frame as the decoder makes it: at most eight bytes of payload, nothing behind them.\<close>

definition frame_ok :: "can_core_frame \<Rightarrow> bool" where
  "frame_ok f \<longleftrightarrow>
     unat (f_dlc f) \<le> 8 \<and> length (f_data f) = 8 \<and>
     f_data f = take (if f_rtr f then 0 else unat (f_dlc f)) (f_data f) @
                replicate (8 - (if f_rtr f then 0 else unat (f_dlc f))) 0"

lemma length_wire:
  "frame_ok f \<Longrightarrow> length (can_wire_encode f) = CAN_WIRE_HDR + (if f_rtr f then 0 else unat (f_dlc f))"
  by (auto simp: can_wire_encode_def Let_def frame_ok_def word_less_nat_alt)

lemma wire_decode_append:
  assumes "frame_ok f"
  shows "can_wire_decode (can_wire_encode f @ rest) = Some f"
proof -
  have dlc: "\<not> f_dlc f > 8" using assms by (simp add: frame_ok_def word_less_nat_alt)
  have flags: "(if a then 1 else 0) OR (if b then 2 else 0) AND (1 :: u8) \<noteq> 0 \<longleftrightarrow> a"
    "((if a then 1 else 0) OR (if b then 2 else 0)) AND (1 :: u8) \<noteq> 0 \<longleftrightarrow> a"
    "((if a then 1 else 0) OR (if b then 2 else 0)) AND (2 :: u8) \<noteq> 0 \<longleftrightarrow> b" for a b
    by (cases a; cases b; simp)+
  let ?d = "can_wire_encode f @ rest"
  have head: "?d ! 0 = byte_of 0 (f_id f)" "?d ! 1 = byte_of 1 (f_id f)" "?d ! 2 = byte_of 2 (f_id f)"
    "?d ! 3 = byte_of 3 (f_id f)" "?d ! 4 = (if f_ext f then 1 else 0) OR (if f_rtr f then 2 else 0)"
    "?d ! 5 = f_dlc f" "?d ! 6 = byte_of 0 (f_ts_us f)" "?d ! 7 = byte_of 1 (f_ts_us f)"
    "?d ! 8 = byte_of 2 (f_ts_us f)" "?d ! 9 = byte_of 3 (f_ts_us f)" "10 \<le> length ?d"
    using dlc by (simp_all add: can_wire_encode_def Let_def)
  have body: "take (unat (f_dlc f)) (drop 10 ?d) = take (unat (f_dlc f)) (f_data f)"
    "10 + unat (f_dlc f) \<le> length ?d" if "\<not> f_rtr f" "f_dlc f \<noteq> 0"
    using that dlc assms by (simp_all add: can_wire_encode_def Let_def frame_ok_def)
  have data: "f_data f = (if \<not> f_rtr f \<and> f_dlc f \<noteq> 0
      then blit 0 (take (unat (f_dlc f)) (f_data f)) (replicate 8 0) else replicate 8 0)"
  proof -
    have "blit 0 (take (unat (f_dlc f)) (f_data f)) (replicate 8 0) =
        take (unat (f_dlc f)) (f_data f) @ replicate (8 - unat (f_dlc f)) 0"
      using assms by (simp add: blit_def frame_ok_def)
    then show ?thesis using assms by (auto simp: frame_ok_def split: if_splits)
  qed
  let ?keep = "\<lparr>f_id = f_id f, f_ext = f_ext f, f_rtr = f_rtr f, f_dlc = f_dlc f, f_data = f_data f,
    f_ts_us = f_ts_us f\<rparr>"
  have "can_wire_decode ?d = Some ?keep"
  proof (cases "\<not> f_rtr f \<and> f_dlc f \<noteq> 0")
    case True
    with body data have body': "take (unat (f_dlc f)) (drop 10 ?d) = take (unat (f_dlc f)) (f_data f)"
      "\<not> length ?d < 10 + unat (f_dlc f)" "blit 0 (take (unat (f_dlc f)) (f_data f)) (replicate 8 0) = f_data f"
      by simp_all
    from True head(11) dlc show ?thesis
      unfolding can_wire_decode_def Let_def head(1-10)
      by (simp add: flags body' del: append_assoc drop_append take_append length_append)
  next
    case False
    with data have "f_data f = replicate 8 0" by simp
    with False head(11) dlc show ?thesis
      unfolding can_wire_decode_def Let_def head(1-10)
      by (auto simp: flags simp del: append_assoc length_append)
  qed
  then show ?thesis by simp
qed

interpretation wire: codec can_wire_encode can_wire_decode frame_ok
  using wire_decode_append [where rest = "[]"] by unfold_locales simp

end
