(* ===== verification/CAN_Node.thy ===== *)
theory CAN_Node
  imports CAN_Wire
begin

text \<open>
  The native CAN node of \<^verbatim>\<open>components/can_manager\<close>: the bit timing (\<^verbatim>\<open>can_timing_core.c\<close>),
  the bus-off recovery (\<^verbatim>\<open>can_core_recovery.c\<close>) and the interrupt handlers of
  \<^verbatim>\<open>can_core_driver.c\<close> that decide something: the transmit slots with their retries and the
  error handler with its storm throttle. A transmit is taken apart into its critical sections, with the
  call of the node between them, so that interrupts and the transmits of other tasks come in there. The
  IDF driver is outside the repository: whether \<open>twai_node_transmit\<close> accepted a frame is an argument.
\<close>

section \<open>Bit timing\<close>

abbreviation (input) CAN_TIMING_QUANTA :: u64 where "CAN_TIMING_QUANTA \<equiv> 20"
abbreviation (input) CAN_TIMING_BRP_MIN :: u64 where "CAN_TIMING_BRP_MIN \<equiv> 2"
abbreviation (input) CAN_TIMING_BRP_MAX :: u64 where "CAN_TIMING_BRP_MAX \<equiv> 16384"

record can_timing =
  ti_brp :: u32
  ti_tseg1 :: u8
  ti_tseg2 :: u8
  ti_sjw :: u8
  ti_bitrate :: u32

definition can_timing_nominal_bps :: "u16 \<Rightarrow> u32" where
  "can_timing_nominal_bps kbps =
     (if kbps = 33 then 33333 else if kbps = 83 then 83333 else if kbps = 95 then 95238
      else ucast kbps * 1000)"

text \<open>\<open>src_hz\<close> is promoted to 64 bits before the sums, so nothing wraps.\<close>

definition can_timing_for :: "u32 \<Rightarrow> u16 \<Rightarrow> can_timing option" where
  "can_timing_for src_hz kbps =
     (let bps = can_timing_nominal_bps kbps in
      if src_hz = 0 \<or> bps = 0 then None
      else
        let per_bit = ucast bps * CAN_TIMING_QUANTA;
            brp = (ucast src_hz + per_bit div 2) div per_bit :: u64
        in if brp < CAN_TIMING_BRP_MIN \<or> brp > CAN_TIMING_BRP_MAX \<or> brp AND 1 \<noteq> 0 then None
           else
             let actual = ucast (ucast src_hz div (brp * CAN_TIMING_QUANTA)) :: u32;
                 off = (if actual > bps then actual - bps else bps - actual)
             in if (ucast off :: u64) * 1000 > ucast bps * 5 then None
                else Some \<lparr>ti_brp = ucast brp, ti_tseg1 = 15, ti_tseg2 = 4, ti_sjw = 3, ti_bitrate = actual\<rparr>)"

section \<open>Bus-off recovery\<close>

abbreviation (input) CAN_CORE_RECOVERY_BACKOFF_FIRST_MS :: u32 where "CAN_CORE_RECOVERY_BACKOFF_FIRST_MS \<equiv> 1000"
abbreviation (input) CAN_CORE_RECOVERY_BACKOFF_MAX_MS :: u32 where "CAN_CORE_RECOVERY_BACKOFF_MAX_MS \<equiv> 30000"
abbreviation (input) CAN_CORE_RECOVERY_STABLE_MS :: u32 where "CAN_CORE_RECOVERY_STABLE_MS \<equiv> 60000"

record can_core_recovery =
  v_off_count :: u32
  v_backoff_ms :: u32
  v_last_off_ms :: u32
  v_restart_pending :: bool
  v_restart_due_ms :: u32

text \<open>\<open>(int32_t)(now - due) >= 0\<close>.\<close>

definition time_reached :: "u32 \<Rightarrow> u32 \<Rightarrow> bool" where
  "time_reached now due \<longleftrightarrow> sint (now - due) \<ge> 0"

definition can_core_recovery_reset :: can_core_recovery where
  "can_core_recovery_reset =
     \<lparr>v_off_count = 0, v_backoff_ms = 0, v_last_off_ms = 0, v_restart_pending = False, v_restart_due_ms = 0\<rparr>"

definition can_core_recovery_on_bus_off :: "can_core_recovery \<Rightarrow> u32 \<Rightarrow> can_core_recovery \<times> u32" where
  "can_core_recovery_on_bus_off r now_ms =
     (let rapid = (v_off_count r > 0 \<and> \<not> time_reached now_ms (v_last_off_ms r + CAN_CORE_RECOVERY_STABLE_MS));
          backoff =
            (if \<not> rapid then 0
             else if v_backoff_ms r = 0 then CAN_CORE_RECOVERY_BACKOFF_FIRST_MS
             else if v_backoff_ms r < CAN_CORE_RECOVERY_BACKOFF_MAX_MS then
               (let next = v_backoff_ms r * 2
                in if next < CAN_CORE_RECOVERY_BACKOFF_MAX_MS then next else CAN_CORE_RECOVERY_BACKOFF_MAX_MS)
             else v_backoff_ms r)
      in (r\<lparr>v_backoff_ms := backoff, v_off_count := v_off_count r + 1, v_last_off_ms := now_ms,
            v_restart_pending := False\<rparr>, backoff))"

definition can_core_recovery_on_recovered :: "can_core_recovery \<Rightarrow> u32 \<Rightarrow> can_core_recovery" where
  "can_core_recovery_on_recovered r now_ms =
     (if v_off_count r = 0 then r
      else r\<lparr>v_restart_pending := True, v_restart_due_ms := now_ms + v_backoff_ms r\<rparr>)"

definition can_core_recovery_restart_due :: "can_core_recovery \<Rightarrow> u32 \<Rightarrow> can_core_recovery \<times> bool" where
  "can_core_recovery_restart_due r now_ms =
     (if \<not> v_restart_pending r \<or> \<not> time_reached now_ms (v_restart_due_ms r) then (r, False)
      else (r\<lparr>v_restart_pending := False\<rparr>, True))"

definition can_core_recovery_retry :: "can_core_recovery \<Rightarrow> u32 \<Rightarrow> u32 \<Rightarrow> can_core_recovery" where
  "can_core_recovery_retry r now_ms delay_ms =
     r\<lparr>v_restart_pending := True, v_restart_due_ms := now_ms + delay_ms\<rparr>"

section \<open>The driver's interrupt handlers\<close>

abbreviation (input) CAN_DRV_TX_SLOTS :: nat where "CAN_DRV_TX_SLOTS \<equiv> 16"
abbreviation (input) CAN_DRV_TX_RETRIES :: u8 where "CAN_DRV_TX_RETRIES \<equiv> 3"
abbreviation (input) CAN_DRV_TX_RETRIES_ARB :: u8 where "CAN_DRV_TX_RETRIES_ARB \<equiv> 16"
abbreviation (input) CAN_DRV_STORM_WINDOW_US :: u32 where "CAN_DRV_STORM_WINDOW_US \<equiv> 20000"
abbreviation (input) CAN_DRV_STORM_ERRS :: u32 where "CAN_DRV_STORM_ERRS \<equiv> 400"

record can_drv_counters =
  d_rx_missed :: u32
  d_rx_overrun :: u32
  d_rx_bad :: u32
  d_arb_lost :: u32
  d_err_stuff :: u32
  d_err_form :: u32
  d_err_bit :: u32
  d_err_ack :: u32
  d_err_other :: u32
  d_tx_retries :: u32
  d_tx_lost :: u32
  d_tx_done :: u32
  d_rx_storms :: u32

text \<open>The frame as the slot keeps it for the hardware: header, and the payload that goes with it.\<close>

record tx_slot =
  x_id :: u32
  x_ide :: bool
  x_rtr :: bool
  x_dlc :: u8
  x_payload :: bytes
  x_tries :: u8
  x_arb_at :: u32

record can_drv =
  dv_node :: bool
  dv_listen :: bool
  dv_isr :: can_drv_counters
  dv_tx :: "tx_slot list"
  dv_storm_t0 :: u32
  dv_storm_n :: u32
  dv_storm_masked :: bool
  dv_evt_storm :: bool

record err_flags =
  e_stuff :: bool
  e_form :: bool
  e_bit :: bool
  e_ack :: bool
  e_arb_lost :: bool

datatype elm327_err =
    ELM327_OK | ELM327_ERR_INVALID_ARG | ELM327_ERR_NO_MEM | ELM327_ERR_NVS | ELM327_ERR_CAN
  | ELM327_ERR_TIMEOUT | ELM327_ERR_NOT_INIT | ELM327_ERR_OVERFLOW | ELM327_ERR_BUSY

text \<open>What \<open>twai_node_transmit\<close> returned.\<close>

datatype esp_tx = ESP_OK | ESP_ERR_TIMEOUT | ESP_FAIL

text \<open>
  \<open>can_drv_transmit\<close> is not one step: between the section under \<open>s_tx_lock\<close> that claims a slot,
  the filling of the slot, the call of the node (which may block for its whole timeout) and the
  end of the call, interrupts come and other tasks transmit. The three parts that touch the
  driver's state are a definition each; the node's call stands between the last two.
\<close>

definition can_drv_claim :: "can_drv \<Rightarrow> elm327_err + can_drv \<times> nat" where
  "can_drv_claim dv =
     (if \<not> dv_node dv then Inl ELM327_ERR_CAN
      else case find_idx (\<lambda>s. x_tries s = 0) (dv_tx dv) of
             None \<Rightarrow> Inl ELM327_ERR_BUSY
           | Some i \<Rightarrow> Inr (dv\<lparr>dv_tx := (dv_tx dv)[i := (dv_tx dv ! i)\<lparr>x_tries := 1\<rparr>]\<rparr>, i))"

definition frame_payload :: "can_core_frame \<Rightarrow> bytes" where
  "frame_payload f = (if \<not> f_rtr f \<and> f_dlc f > 0 then take (unat (f_dlc f)) (f_data f) else [])"

definition can_drv_fill :: "can_drv \<Rightarrow> nat \<Rightarrow> can_core_frame \<Rightarrow> can_drv" where
  "can_drv_fill dv i f =
     dv\<lparr>dv_tx := (dv_tx dv)[i := (dv_tx dv ! i)
          \<lparr>x_id := f_id f, x_ide := f_ext f, x_rtr := f_rtr f, x_dlc := f_dlc f,
           x_payload := frame_payload f, x_arb_at := d_arb_lost (dv_isr dv)\<rparr>]\<rparr>"

definition can_drv_end :: "can_drv \<Rightarrow> nat \<Rightarrow> esp_tx \<Rightarrow> can_drv \<times> elm327_err" where
  "can_drv_end dv i ret =
     (if ret \<noteq> ESP_OK
      then (dv\<lparr>dv_tx := (dv_tx dv)[i := (dv_tx dv ! i)\<lparr>x_tries := 0\<rparr>]\<rparr>,
            if ret = ESP_ERR_TIMEOUT then ELM327_ERR_BUSY else ELM327_ERR_CAN)
      else (dv, ELM327_OK))"

text \<open>
  \<open>can_on_tx_done\<close>: \<open>i\<close> is the slot whose frame the event names (the loop looks for it),
  \<open>accepted\<close> whether the driver took the frame again.
\<close>

definition can_on_tx_done :: "can_drv \<Rightarrow> nat \<Rightarrow> bool \<Rightarrow> bool \<Rightarrow> can_drv" where
  "can_on_tx_done dv i success accepted =
     (if i \<ge> CAN_DRV_TX_SLOTS \<or> x_tries (dv_tx dv ! i) = 0 then dv
      else
        let slot = dv_tx dv ! i; isr = dv_isr dv in
        if success then
          dv\<lparr>dv_isr := d_tx_done_update (\<lambda>n. n + 1) isr, dv_tx := (dv_tx dv)[i := slot\<lparr>x_tries := 0\<rparr>]\<rparr>
        else
          let arb = (d_arb_lost isr \<noteq> x_arb_at slot);
              budget = (if arb then CAN_DRV_TX_RETRIES_ARB else CAN_DRV_TX_RETRIES)
          in if x_tries slot \<le> budget \<and> accepted then
               dv\<lparr>dv_isr := d_tx_retries_update (\<lambda>n. n + 1) isr,
                  dv_tx := (dv_tx dv)[i := slot\<lparr>x_arb_at := d_arb_lost isr, x_tries := x_tries slot + 1\<rparr>]\<rparr>
             else
               let slot1 = (if x_tries slot \<le> budget then slot\<lparr>x_arb_at := d_arb_lost isr\<rparr> else slot) in
               dv\<lparr>dv_isr := d_tx_lost_update (\<lambda>n. n + 1) isr,
                  dv_tx := (dv_tx dv)[i := slot1\<lparr>x_tries := 0\<rparr>]\<rparr>)"

text \<open>\<open>can_on_error\<close>: the kinds it counts, and the whole; the result says whether it queued an
  event that wakes the RX task.\<close>

definition isr_count_kind :: "err_flags \<Rightarrow> can_drv_counters \<Rightarrow> can_drv_counters" where
  "isr_count_kind e isr =
     (if e_stuff e then d_err_stuff_update (\<lambda>n. n + 1) isr
      else if e_form e then d_err_form_update (\<lambda>n. n + 1) isr
      else if e_bit e then d_err_bit_update (\<lambda>n. n + 1) isr
      else if e_ack e then d_err_ack_update (\<lambda>n. n + 1) isr
      else if \<not> e_arb_lost e then d_err_other_update (\<lambda>n. n + 1) isr
      else isr)"

definition can_on_error :: "can_drv \<Rightarrow> err_flags \<Rightarrow> u32 \<Rightarrow> can_drv \<times> bool" where
  "can_on_error dv e now =
     (let dv1 = (if now - dv_storm_t0 dv > CAN_DRV_STORM_WINDOW_US
                 then dv\<lparr>dv_storm_t0 := now, dv_storm_n := 0\<rparr> else dv);
          dv2 = dv1\<lparr>dv_storm_n := dv_storm_n dv1 + 1\<rparr>
      in if dv_storm_n dv2 \<ge> CAN_DRV_STORM_ERRS \<and> \<not> dv_storm_masked dv2 then
           (dv2\<lparr>dv_storm_masked := True, dv_isr := d_rx_storms_update (\<lambda>n. n + 1) (dv_isr dv2),
                dv_evt_storm := True\<rparr>, True)
         else
           let isr = isr_count_kind e (dv_isr dv2) in
           if e_arb_lost e then (dv2\<lparr>dv_isr := d_arb_lost_update (\<lambda>n. n + 1) isr\<rparr>, False)
           else if dv_listen dv2 \<or> (\<not> e_ack e \<and> \<not> e_bit e) then
             let isr1 = d_rx_bad_update (\<lambda>n. n + 1) isr
             in (dv2\<lparr>dv_isr := isr1\<rparr>, d_rx_bad isr1 mod 8 = 0)
           else (dv2\<lparr>dv_isr := isr\<rparr>, False))"

section \<open>Timing: the rates the clock divides exactly\<close>

text \<open>A rate that an even prescaler makes exactly is accepted, and made exactly.\<close>

theorem timing_exact:
  assumes "unat src_hz = unat (can_timing_nominal_bps kbps) * 20 * b"
    and "can_timing_nominal_bps kbps \<noteq> 0" and "even b" and "2 \<le> b" and "b \<le> 16384"
  shows "can_timing_for src_hz kbps =
     Some \<lparr>ti_brp = of_nat b, ti_tseg1 = 15, ti_tseg2 = 4, ti_sjw = 3,
           ti_bitrate = can_timing_nominal_bps kbps\<rparr>"
proof -
  let ?bps = "can_timing_nominal_bps kbps"
  define n where "n = unat ?bps"
  have n: "0 < n" "n < 4294967296" using assms(2) unat_gt_0 unat_u32_less by (auto simp: n_def)
  have src: "unat src_hz = n * 20 * b" using assms(1) by (simp add: n_def)
  have src32: "n * 20 * b < 4294967296" using src unat_u32_less [of src_hz] by simp
  then have nz: "src_hz \<noteq> 0" using src n assms(4) by auto
  let ?per = "ucast ?bps * 20 :: u64"
  have per: "unat ?per = n * 20"
    using n by (subst unat_mult_lem [THEN iffD1]) (simp_all add: n_def)
  have half: "unat (?per div 2) = n * 10" by (simp add: unat_div per)
  have sum: "unat (ucast src_hz + ?per div 2) = n * 20 * b + n * 10"
  proof -
    have "n * 20 * b + n * 10 < 18446744073709551616" using src32 n by linarith
    then show ?thesis by (subst unat_add_lem [THEN iffD1]) (simp_all add: half src)
  qed
  define brp where "brp = (ucast src_hz + ?per div 2) div ?per"
  have brp: "unat brp = b"
  proof -
    have "(n * 20 * b + n * 10) div (n * 20) = b" using n by simp
    then show ?thesis unfolding brp_def by (simp only: unat_div sum per)
  qed
  have ev: "brp AND 1 = 0"
  proof -
    have "unat (brp AND 1) = unat brp AND 1" by (simp only: unsigned_and_eq unsigned_1)
    also have "\<dots> = b mod 2" by (simp only: brp and_one_eq)
    finally have "unat (brp AND 1) = b mod 2" .
    with assms(3) have "unat (brp AND 1) = 0" by simp
    then show ?thesis by (simp only: unat_eq_zero)
  qed
  have bq: "unat (brp * 20) = b * 20"
    using assms(5) brp by (subst unat_mult_lem [THEN iffD1]) simp_all
  have "unat (ucast src_hz div (brp * 20) :: u64) = n"
    using assms(4) by (simp only: unat_div bq) (simp add: src)
  then have act: "(ucast (ucast src_hz div (brp * 20) :: u64) :: u32) = ?bps"
    using n by (simp add: word_unat_eq_iff unsigned_ucast_eq take_bit_nat_eq_self n_def)
  have lim: "\<not> brp < 2" "\<not> brp > 16384"
    using assms(4,5) by (simp_all add: word_less_nat_alt brp)
  have "(ucast brp :: u32) = of_nat b"
    using assms(5) by (simp add: word_unat_eq_iff unsigned_ucast_eq brp unat_of_nat take_bit_eq_mod)
  then show ?thesis
    unfolding can_timing_for_def Let_def brp_def [symmetric]
    using assms(2) nz ev lim act by simp
qed

section \<open>The restart delay\<close>

text \<open>Bus-off after bus-off, the gaps between them given.\<close>

definition off_after :: "u32 \<Rightarrow> can_core_recovery \<times> u32 \<Rightarrow> can_core_recovery \<times> u32" where
  "off_after gap rt = (fst (can_core_recovery_on_bus_off (fst rt) (snd rt + gap)), snd rt + gap)"

definition off_run :: "u32 \<Rightarrow> u32 list \<Rightarrow> can_core_recovery \<times> u32" where
  "off_run t gaps = fold off_after gaps (fst (can_core_recovery_on_bus_off can_core_recovery_reset t), t)"

definition restart_delay :: "nat \<Rightarrow> nat" where
  "restart_delay k = (if k = 0 then 0 else min 30000 (1000 * 2 ^ (k - 1)))"

lemma delay_Suc:
  "restart_delay (Suc k) =
     (if restart_delay k = 0 then 1000 else if restart_delay k < 30000 then min 30000 (restart_delay k * 2)
      else restart_delay k)"
  by (cases k) (auto simp: restart_delay_def min_def)

lemma delay_le: "restart_delay k \<le> 30000"
  by (simp add: restart_delay_def)

lemma not_reached:
  assumes "g < CAN_CORE_RECOVERY_STABLE_MS"
  shows "\<not> time_reached (t + g) (t + CAN_CORE_RECOVERY_STABLE_MS)"
proof -
  have "unat g < 60000" using assms by (simp add: word_less_nat_alt)
  then have "sint (g - 60000) = int (unat g) - 60000" using sint_sub_small [of g 60000] by simp
  with \<open>unat g < 60000\<close> have "sint (g - 60000) < 0" by linarith
  then show ?thesis by (simp add: time_reached_def)
qed

lemma off_run_state:
  assumes "list_all (\<lambda>g. g < CAN_CORE_RECOVERY_STABLE_MS) gaps" and "length gaps < 2 ^ 32 - 1"
  shows "unat (v_backoff_ms (fst (off_run t gaps))) = restart_delay (length gaps) \<and>
     v_last_off_ms (fst (off_run t gaps)) = snd (off_run t gaps) \<and>
     unat (v_off_count (fst (off_run t gaps))) = Suc (length gaps)"
  using assms
proof (induction gaps rule: rev_induct)
  case Nil
  then show ?case
    by (simp add: off_run_def can_core_recovery_on_bus_off_def can_core_recovery_reset_def restart_delay_def)
next
  case (snoc g gaps)
  let ?s = "off_run t gaps"
  have IH: "unat (v_backoff_ms (fst ?s)) = restart_delay (length gaps)"
    "v_last_off_ms (fst ?s) = snd ?s" "unat (v_off_count (fst ?s)) = Suc (length gaps)"
    using snoc by simp_all
  have pos: "0 < v_off_count (fst ?s)" using IH(3) by (simp add: word_less_nat_alt)
  have rapid: "\<not> time_reached (snd ?s + g) (snd ?s + 60000)"
    using snoc.prems(1) by (intro not_reached) simp
  have cnt: "unat (v_off_count (fst ?s) + 1) = Suc (Suc (length gaps))"
    using snoc.prems(2) IH(3) by (simp add: unat_word_ariths(1))
  have dbl: "unat (v_backoff_ms (fst ?s) * 2) = restart_delay (length gaps) * 2"
    using delay_le [of "length gaps"] IH(1) by (subst unat_mult_lem [THEN iffD1]) simp_all
  have z: "v_backoff_ms (fst ?s) = 0 \<longleftrightarrow> restart_delay (length gaps) = 0"
    using IH(1) by (simp add: word_unat_eq_iff)
  have "off_run t (gaps @ [g]) = off_after g ?s" by (simp add: off_run_def)
  then show ?case
    using IH pos rapid cnt dbl z
    by (simp add: off_after_def can_core_recovery_on_bus_off_def Let_def delay_Suc word_less_nat_alt min_def)
qed

text \<open>When the bus has recovered at \<open>t\<close>, the restart comes due after the delay and not before.\<close>

text \<open>C37. After a run of bus-off events that come closer together than the stable time, the
  restart becomes due exactly when the delay of that many failures has passed since the
  recovery, across wrap-around of the millisecond clock.\<close>

theorem recovery_restart:
  assumes "list_all (\<lambda>g. g < CAN_CORE_RECOVERY_STABLE_MS) gaps" and "length gaps < 2 ^ 32 - 1"
    and "unat d < 2 ^ 31"
  shows "snd (can_core_recovery_restart_due
       (can_core_recovery_on_recovered (fst (off_run t0 gaps)) t) (t + d))
     \<longleftrightarrow> restart_delay (length gaps) \<le> unat d"
proof -
  let ?r = "fst (off_run t0 gaps)"
  note st = off_run_state [OF assms(1,2), of t0]
  have cnt: "v_off_count ?r \<noteq> 0" using st by auto
  let ?b = "v_backoff_ms ?r"
  have b: "unat ?b = restart_delay (length gaps)" "unat ?b \<le> 30000"
    using st delay_le by simp_all
  have "sint (d - ?b) = int (unat d) - int (unat ?b)"
    using assms(3) b(2) by (intro sint_sub_small) simp_all
  then have "0 \<le> sint (d - ?b) \<longleftrightarrow> unat ?b \<le> unat d" by linarith
  then show ?thesis
    using cnt b by (simp add: can_core_recovery_restart_due_def can_core_recovery_on_recovered_def time_reached_def)
qed

section \<open>Transmit slots\<close>

text \<open>
  Where the call of a task stands, by the slot it works on. After \<open>TxReturned\<close> the node has
  returned, the end of the call is still to come; \<open>TxOver\<close> is what the caller was told.
\<close>

datatype tx_call =
    TxIdle
  | TxClaimed nat can_core_frame
  | TxFilled nat can_core_frame
  | TxReturned nat esp_tx
  | TxOver elm327_err

text \<open>
  What the node and an observer know of a slot: whether the node holds its frame, the frame it
  was handed, how often the frame was repeated after an attempt in which arbitration was lost
  and after one in which it was not, and the number of arbitration losses the node has reported
  since the attempt in progress was prepared.
\<close>

record tx_view =
  g_held :: bool
  g_frame :: can_core_frame
  g_errs :: nat
  g_arbs :: nat
  g_seen :: nat

record drv_world =
  w_dv :: can_drv
  w_call :: "nat \<Rightarrow> tx_call"
  w_view :: "tx_view list"
  w_taken :: nat

definition view_all :: "(tx_view \<Rightarrow> tx_view) \<Rightarrow> drv_world \<Rightarrow> drv_world" where
  "view_all f w = w\<lparr>w_view := List.map f (w_view w)\<rparr>"

definition view_at :: "nat \<Rightarrow> (tx_view \<Rightarrow> tx_view) \<Rightarrow> drv_world \<Rightarrow> drv_world" where
  "view_at i f w = w\<lparr>w_view := (w_view w)[i := f (w_view w ! i)]\<rparr>"

text \<open>
  The steps: a task's call claims a slot, fills it, gets the node's answer, ends; the node reports
  the end of an attempt of a frame it holds (it holds a frame from the moment it has accepted
  it to the report after which the handler does not hand it in again); the node reports an error.
\<close>

datatype drv_event =
    DrvClaim nat can_core_frame
  | DrvFill nat
  | DrvNode nat esp_tx
  | DrvEnd nat
  | DrvTxDone nat bool bool
  | DrvError err_flags u32

definition node_answer :: "nat \<Rightarrow> esp_tx \<Rightarrow> drv_world \<Rightarrow> drv_world" where
  "node_answer t ret w =
     (case w_call w t of
        TxFilled i f \<Rightarrow>
          let w1 = w\<lparr>w_call := (w_call w)(t := TxReturned i ret)\<rparr>
          in if ret = ESP_OK
             then view_at i (\<lambda>g. g\<lparr>g_held := True, g_frame := f, g_errs := 0, g_arbs := 0\<rparr>)
                    (w1\<lparr>w_taken := Suc (w_taken w)\<rparr>)
             else w1
      | _ \<Rightarrow> w)"

definition node_tx_done :: "nat \<Rightarrow> bool \<Rightarrow> bool \<Rightarrow> drv_world \<Rightarrow> drv_world" where
  "node_tx_done i success accepted w =
     (if i < CAN_DRV_TX_SLOTS \<and> g_held (w_view w ! i) then
        let w1 = w\<lparr>w_dv := can_on_tx_done (w_dv w) i success accepted\<rparr>
        in if x_tries (dv_tx (w_dv w1) ! i) = 0 then view_at i (\<lambda>g. g\<lparr>g_held := False\<rparr>) w1
           else view_at i (\<lambda>g. if g_seen g = 0 then g\<lparr>g_errs := Suc (g_errs g)\<rparr>
                               else g\<lparr>g_arbs := Suc (g_arbs g), g_seen := 0\<rparr>) w1
      else w)"

fun drv_step :: "drv_event \<Rightarrow> drv_world \<Rightarrow> drv_world" where
  "drv_step (DrvClaim t f) w =
     (case w_call w t of
        TxIdle \<Rightarrow>
          (case can_drv_claim (w_dv w) of
             Inl e \<Rightarrow> w\<lparr>w_call := (w_call w)(t := TxOver e)\<rparr>
           | Inr (dv, i) \<Rightarrow> w\<lparr>w_dv := dv, w_call := (w_call w)(t := TxClaimed i f)\<rparr>)
      | _ \<Rightarrow> w)"
| "drv_step (DrvFill t) w =
     (case w_call w t of
        TxClaimed i f \<Rightarrow>
          view_at i (\<lambda>g. g\<lparr>g_seen := 0\<rparr>)
            (w\<lparr>w_dv := can_drv_fill (w_dv w) i f, w_call := (w_call w)(t := TxFilled i f)\<rparr>)
      | _ \<Rightarrow> w)"
| "drv_step (DrvNode t ret) w = node_answer t ret w"
| "drv_step (DrvEnd t) w =
     (case w_call w t of
        TxReturned i ret \<Rightarrow>
          (let (dv, e) = can_drv_end (w_dv w) i ret
           in w\<lparr>w_dv := dv, w_call := (w_call w)(t := TxOver e)\<rparr>)
      | TxOver e \<Rightarrow> w\<lparr>w_call := (w_call w)(t := TxIdle)\<rparr>
      | _ \<Rightarrow> w)"
| "drv_step (DrvTxDone i success accepted) w = node_tx_done i success accepted w"
| "drv_step (DrvError e now) w =
     (let w1 = w\<lparr>w_dv := fst (can_on_error (w_dv w) e now)\<rparr>
      in if e_arb_lost e then view_all (\<lambda>g. g\<lparr>g_seen := Suc (g_seen g)\<rparr>) w1 else w1)"

text \<open>The frames the node holds, the slot a call has for itself, and a slot that has the frame.\<close>

definition in_flight :: "drv_world \<Rightarrow> nat" where
  "in_flight w = count_if g_held (w_view w)"

fun call_owns :: "tx_call \<Rightarrow> nat \<Rightarrow> bool" where
  "call_owns (TxClaimed i f) j \<longleftrightarrow> i = j"
| "call_owns (TxFilled i f) j \<longleftrightarrow> i = j"
| "call_owns (TxReturned i ret) j \<longleftrightarrow> i = j \<and> ret \<noteq> ESP_OK"
| "call_owns _ j \<longleftrightarrow> False"

definition slot_has :: "tx_slot \<Rightarrow> can_core_frame \<Rightarrow> bool" where
  "slot_has x f \<longleftrightarrow> x_id x = f_id f \<and> x_ide x = f_ext f \<and> x_rtr x = f_rtr f \<and> x_dlc x = f_dlc f \<and>
     x_payload x = frame_payload f"

text \<open>A frame that the node holds: unchanged in its slot, within both budgets.\<close>

definition held_ok :: "can_drv_counters \<Rightarrow> tx_slot \<Rightarrow> tx_view \<Rightarrow> bool" where
  "held_ok isr x g \<longleftrightarrow> slot_has x (g_frame g) \<and> unat (x_tries x) = Suc (g_errs g + g_arbs g) \<and>
     g_errs g \<le> 3 \<and> g_errs g + g_arbs g \<le> 16 \<and> (g_seen g = 0 \<longrightarrow> x_arb_at x = d_arb_lost isr)"

definition call_ok :: "drv_world \<Rightarrow> nat \<Rightarrow> bool" where
  "call_ok w t \<longleftrightarrow>
     (\<forall>i. call_owns (w_call w t) i \<longrightarrow>
        i < CAN_DRV_TX_SLOTS \<and> x_tries (dv_tx (w_dv w) ! i) = 1 \<and> \<not> g_held (w_view w ! i) \<and>
        (\<forall>t'. call_owns (w_call w t') i \<longrightarrow> t' = t)) \<and>
     (\<forall>i f. w_call w t = TxFilled i f \<longrightarrow>
        slot_has (dv_tx (w_dv w) ! i) f \<and>
        (g_seen (w_view w ! i) = 0 \<longrightarrow> x_arb_at (dv_tx (w_dv w) ! i) = d_arb_lost (dv_isr (w_dv w))))"

definition slot_ok :: "drv_world \<Rightarrow> nat \<Rightarrow> bool" where
  "slot_ok w i \<longleftrightarrow>
     (g_held (w_view w ! i) \<longrightarrow> held_ok (dv_isr (w_dv w)) (dv_tx (w_dv w) ! i) (w_view w ! i)) \<and>
     (x_tries (dv_tx (w_dv w) ! i) \<noteq> 0 \<longrightarrow> g_held (w_view w ! i) \<or> (\<exists>t. call_owns (w_call w t) i))"

definition drv_inv :: "drv_world \<Rightarrow> bool" where
  "drv_inv w \<longleftrightarrow>
     length (dv_tx (w_dv w)) = CAN_DRV_TX_SLOTS \<and> length (w_view w) = CAN_DRV_TX_SLOTS \<and>
     (\<forall>t. call_ok w t) \<and> (\<forall>i < CAN_DRV_TX_SLOTS. slot_ok w i) \<and>
     (of_nat (w_taken w) :: u32) = d_tx_done (dv_isr (w_dv w)) + d_tx_lost (dv_isr (w_dv w)) + of_nat (in_flight w) \<and>
     (\<not> dv_storm_masked (w_dv w) \<longrightarrow> dv_storm_n (w_dv w) < CAN_DRV_STORM_ERRS)"

lemmas drv_inv_defs = drv_inv_def call_ok_def slot_ok_def held_ok_def in_flight_def view_at_def

lemma slot_free_alone:
  assumes "drv_inv w" and "i < CAN_DRV_TX_SLOTS" and "x_tries (dv_tx (w_dv w) ! i) = 0"
  shows "\<not> g_held (w_view w ! i)" "\<not> call_owns (w_call w t) i"
  using assms by (auto simp: drv_inv_defs)

text \<open>A step is checked against the new world's parts, and who owns what in it.\<close>

lemma drv_invI:
  assumes "length (dv_tx (w_dv w)) = CAN_DRV_TX_SLOTS" "length (w_view w) = CAN_DRV_TX_SLOTS"
    and "\<And>t i. call_owns (w_call w t) i \<Longrightarrow> i < CAN_DRV_TX_SLOTS \<and> x_tries (dv_tx (w_dv w) ! i) = 1 \<and>
        \<not> g_held (w_view w ! i)"
    and "\<And>t t' i. call_owns (w_call w t) i \<Longrightarrow> call_owns (w_call w t') i \<Longrightarrow> t' = t"
    and "\<And>t i f. w_call w t = TxFilled i f \<Longrightarrow> slot_has (dv_tx (w_dv w) ! i) f \<and>
        (g_seen (w_view w ! i) = 0 \<longrightarrow> x_arb_at (dv_tx (w_dv w) ! i) = d_arb_lost (dv_isr (w_dv w)))"
    and "\<And>i. i < CAN_DRV_TX_SLOTS \<Longrightarrow> g_held (w_view w ! i) \<Longrightarrow>
        held_ok (dv_isr (w_dv w)) (dv_tx (w_dv w) ! i) (w_view w ! i)"
    and "\<And>i. i < CAN_DRV_TX_SLOTS \<Longrightarrow> x_tries (dv_tx (w_dv w) ! i) \<noteq> 0 \<Longrightarrow>
        g_held (w_view w ! i) \<or> (\<exists>t. call_owns (w_call w t) i)"
    and "(of_nat (w_taken w) :: u32) = d_tx_done (dv_isr (w_dv w)) + d_tx_lost (dv_isr (w_dv w)) + of_nat (in_flight w)"
    and "\<not> dv_storm_masked (w_dv w) \<Longrightarrow> dv_storm_n (w_dv w) < CAN_DRV_STORM_ERRS"
  shows "drv_inv w"
  using assms unfolding drv_inv_def call_ok_def slot_ok_def by blast

lemma drv_invD:
  assumes "drv_inv w"
  shows "length (dv_tx (w_dv w)) = CAN_DRV_TX_SLOTS" "length (w_view w) = CAN_DRV_TX_SLOTS"
    and "call_owns (w_call w t) i \<Longrightarrow> i < CAN_DRV_TX_SLOTS \<and> x_tries (dv_tx (w_dv w) ! i) = 1 \<and>
        \<not> g_held (w_view w ! i)"
    and "call_owns (w_call w t) i \<Longrightarrow> call_owns (w_call w t') i \<Longrightarrow> t' = t"
    and "w_call w t = TxFilled i f \<Longrightarrow> slot_has (dv_tx (w_dv w) ! i) f \<and>
        (g_seen (w_view w ! i) = 0 \<longrightarrow> x_arb_at (dv_tx (w_dv w) ! i) = d_arb_lost (dv_isr (w_dv w)))"
    and "i < CAN_DRV_TX_SLOTS \<Longrightarrow> g_held (w_view w ! i) \<Longrightarrow>
        held_ok (dv_isr (w_dv w)) (dv_tx (w_dv w) ! i) (w_view w ! i)"
    and "i < CAN_DRV_TX_SLOTS \<Longrightarrow> x_tries (dv_tx (w_dv w) ! i) \<noteq> 0 \<Longrightarrow>
        g_held (w_view w ! i) \<or> (\<exists>t. call_owns (w_call w t) i)"
    and "(of_nat (w_taken w) :: u32) = d_tx_done (dv_isr (w_dv w)) + d_tx_lost (dv_isr (w_dv w)) + of_nat (in_flight w)"
    and "\<not> dv_storm_masked (w_dv w) \<Longrightarrow> dv_storm_n (w_dv w) < CAN_DRV_STORM_ERRS"
  using assms unfolding drv_inv_def call_ok_def slot_ok_def by blast+

lemma drv_inv_claim:
  assumes inv: "drv_inv w"
  shows "drv_inv (drv_step (DrvClaim t f) w)"
proof (cases "w_call w t = TxIdle")
  case idle: True
  show ?thesis
  proof (cases "can_drv_claim (w_dv w)")
    case (Inl e)
    define w' where "w' = w\<lparr>w_call := (w_call w)(t := TxOver e)\<rparr>"
    have w': "w_dv w' = w_dv w" "w_view w' = w_view w" "w_taken w' = w_taken w" "in_flight w' = in_flight w"
      by (simp_all add: w'_def in_flight_def)
    have own: "call_owns (w_call w' t') i \<longleftrightarrow> call_owns (w_call w t') i" for t' i
      using idle by (simp add: w'_def)
    have fil: "w_call w' t' = TxFilled i g \<longleftrightarrow> w_call w t' = TxFilled i g" for t' i g
      using idle by (auto simp: w'_def)
    have "drv_inv w'" by (rule drv_invI; unfold w' own fil; rule drv_invD [OF inv]; assumption)
    with idle Inl show ?thesis by (simp add: w'_def)
  next
    case (Inr r)
    obtain dv i where r: "r = (dv, i)" by (cases r)
    with Inr have i: "i < CAN_DRV_TX_SLOTS" "x_tries (dv_tx (w_dv w) ! i) = 0"
      and dv: "dv = (w_dv w)\<lparr>dv_tx := (dv_tx (w_dv w))[i := (dv_tx (w_dv w) ! i)\<lparr>x_tries := 1\<rparr>]\<rparr>"
      using drv_invD(1) [OF inv] by (auto simp: can_drv_claim_def dest: find_idx_SomeD split: if_splits option.splits)
    note free = slot_free_alone [OF inv i]
    define w' where "w' = w\<lparr>w_dv := dv, w_call := (w_call w)(t := TxClaimed i f)\<rparr>"
    have w': "w_view w' = w_view w" "w_taken w' = w_taken w" "in_flight w' = in_flight w"
      "dv_isr (w_dv w') = dv_isr (w_dv w)" "dv_storm_masked (w_dv w') = dv_storm_masked (w_dv w)"
      "dv_storm_n (w_dv w') = dv_storm_n (w_dv w)" "length (dv_tx (w_dv w')) = length (dv_tx (w_dv w))"
      by (simp_all add: w'_def in_flight_def dv)
    have tx: "dv_tx (w_dv w') ! j = (if j = i then (dv_tx (w_dv w) ! i)\<lparr>x_tries := 1\<rparr> else dv_tx (w_dv w) ! j)" for j
      using i drv_invD(1) [OF inv] by (simp add: w'_def dv)
    have own: "call_owns (w_call w' t') j \<longleftrightarrow> (if t' = t then j = i else call_owns (w_call w t') j)" for t' j
      by (auto simp: w'_def)
    have idl: "\<not> call_owns (w_call w t) j" for j using idle by simp
    have fil: "w_call w' t' = TxFilled j g \<longleftrightarrow> w_call w t' = TxFilled j g" for t' j g
      using idle by (auto simp: w'_def)
    have ofil: "call_owns (w_call w t') j" if "w_call w t' = TxFilled j g" for t' j g using that by simp
    note D = drv_invD [OF inv]
    have "drv_inv w'"
    proof (rule drv_invI)
      show "i' < 16 \<and> x_tries (dv_tx (w_dv w') ! i') = 1 \<and> \<not> g_held (w_view w' ! i')"
        if "call_owns (w_call w' t') i'" for t' i'
        using that D(3) i free unfolding own tx w' by (auto split: if_splits)
      show "t'' = t'" if "call_owns (w_call w' t') i'" "call_owns (w_call w' t'') i'" for t' t'' i'
        using that D(4) free unfolding own by (auto split: if_splits)
      show "slot_has (dv_tx (w_dv w') ! j) g \<and> (g_seen (w_view w' ! j) = 0 \<longrightarrow>
          x_arb_at (dv_tx (w_dv w') ! j) = d_arb_lost (dv_isr (w_dv w')))"
        if "w_call w' t' = TxFilled j g" for t' j g
      proof -
        have f: "w_call w t' = TxFilled j g" using that by (simp add: fil)
        with ofil free(2) have "j \<noteq> i" by blast
        then show ?thesis using D(5) [OF f] by (simp add: tx w')
      qed
      show "held_ok (dv_isr (w_dv w')) (dv_tx (w_dv w') ! j) (w_view w' ! j)"
        if "j < 16" "g_held (w_view w' ! j)" for j
        using that D(6) free unfolding tx w' by auto
      show "g_held (w_view w' ! j) \<or> (\<exists>t. call_owns (w_call w' t) j)"
        if "j < 16" "x_tries (dv_tx (w_dv w') ! j) \<noteq> 0" for j
        using that D(7) [of j] idl unfolding tx w' own by (metis (full_types))
    qed (use D in \<open>simp_all add: w'\<close>)
    with idle Inr r show ?thesis by (simp add: w'_def)
  qed
next
  case False
  with inv show ?thesis by (auto split: tx_call.splits)
qed

text \<open>A step of a call that changes only the slot and the view of the slot it owns.\<close>

lemma drv_inv_own_step:
  assumes inv: "drv_inv w" and own: "call_owns (w_call w t) i"
    and w': "w_dv w' = (w_dv w)\<lparr>dv_tx := (dv_tx (w_dv w))[i := x]\<rparr>" "w_view w' = (w_view w)[i := g]"
      "w_call w' = (w_call w)(t := c)" 
      "of_nat (w_taken w') = (of_nat (w_taken w) + (if g_held g then 1 else 0) :: u32)"
    and c: "\<And>j. call_owns c j \<Longrightarrow> j = i \<and> x_tries x = 1 \<and> \<not> g_held g"
      "\<And>j f. c = TxFilled j f \<Longrightarrow> j = i \<and> slot_has x f \<and> (g_seen g = 0 \<longrightarrow> x_arb_at x = d_arb_lost (dv_isr (w_dv w)))"
      "g_held g \<Longrightarrow> held_ok (dv_isr (w_dv w)) x g"
      "x_tries x \<noteq> 0 \<Longrightarrow> g_held g \<or> call_owns c i"
  shows "drv_inv w'"
proof -
  note D = drv_invD [OF inv]
  have i: "i < 16" "x_tries (dv_tx (w_dv w) ! i) = 1" "\<not> g_held (w_view w ! i)" using D(3) [OF own] by simp_all
  have tx: "dv_tx (w_dv w') ! j = (if j = i then x else dv_tx (w_dv w) ! j)" for j
    using i D(1) by (simp add: w')
  have vw: "w_view w' ! j = (if j = i then g else w_view w ! j)" for j
    using i D(2) by (simp add: w')
  have others: "call_owns (w_call w' t') j \<longleftrightarrow> call_owns (w_call w t') j" "w_call w' t' = w_call w t'" if "t' \<noteq> t" for t' j
    using that by (simp_all add: w')
  have apart: "j \<noteq> i" if "t' \<noteq> t" "call_owns (w_call w t') j" for t' j
    using that D(4) [OF own] by blast
  have mine: "w_call w' t = c" by (simp add: w')
  have isr: "dv_isr (w_dv w') = dv_isr (w_dv w)" by (simp add: w')
  show ?thesis
  proof (rule drv_invI)
    show "j < 16 \<and> x_tries (dv_tx (w_dv w') ! j) = 1 \<and> \<not> g_held (w_view w' ! j)"
      if "call_owns (w_call w' t') j" for t' j
    proof (cases "t' = t")
      case True
      with that mine c(1) [of j] i show ?thesis by (simp add: tx vw)
    next
      case False
      with that have "call_owns (w_call w t') j" using others by simp
      then show ?thesis using D(3) apart [OF False] by (simp add: tx vw)
    qed
    show "t'' = t'" if "call_owns (w_call w' t') j" "call_owns (w_call w' t'') j" for t' t'' j
      using that D(4) c(1) apart others mine by metis
    show "slot_has (dv_tx (w_dv w') ! j) f \<and>
        (g_seen (w_view w' ! j) = 0 \<longrightarrow> x_arb_at (dv_tx (w_dv w') ! j) = d_arb_lost (dv_isr (w_dv w')))"
      if "w_call w' t' = TxFilled j f" for t' j f
    proof (cases "t' = t")
      case True
      with that mine c(2) show ?thesis by (auto simp: tx vw isr)
    next
      case False
      with that have f: "w_call w t' = TxFilled j f" using others by simp
      then have "j \<noteq> i" using apart [OF False] by simp
      then show ?thesis using D(5) [OF f] by (simp add: tx vw isr)
    qed
    show "held_ok (dv_isr (w_dv w')) (dv_tx (w_dv w') ! j) (w_view w' ! j)"
      if "j < 16" "g_held (w_view w' ! j)" for j
      using that D(6) c(3) by (auto simp: tx vw isr)
    show "g_held (w_view w' ! j) \<or> (\<exists>t. call_owns (w_call w' t) j)"
      if "j < 16" "x_tries (dv_tx (w_dv w') ! j) \<noteq> 0" for j
    proof (cases "j = i")
      case True
      with that c(4) mine show ?thesis by (auto simp: tx vw)
    next
      case False
      with that D(7) [of j] have "g_held (w_view w ! j) \<or> (\<exists>t. call_owns (w_call w t) j)" by (simp add: tx)
      moreover have "t' \<noteq> t" if "call_owns (w_call w t') j" for t'
        using that False own by (cases "w_call w t") auto
      ultimately show ?thesis using False others(1) by (metis vw)
    qed
    have "of_nat (in_flight w') = (of_nat (in_flight w) + (if g_held g then 1 else 0) :: u32)"
    proof -
      have "in_flight w' = in_flight w + (if g_held g then 1 else 0)"
        using count_if_update [of i "w_view w" g_held g] i D(2) by (simp add: in_flight_def w' split: if_splits)
      then show ?thesis by simp
    qed
    then show "of_nat (w_taken w') = d_tx_done (dv_isr (w_dv w')) + d_tx_lost (dv_isr (w_dv w')) + of_nat (in_flight w')"
      using D(8) w'(4) by (simp add: isr)
  qed (use D in \<open>simp_all add: w'\<close>)
qed

lemma drv_inv_fill:
  assumes inv: "drv_inv w"
  shows "drv_inv (drv_step (DrvFill t) w)"
proof (cases "w_call w t")
  case (TxClaimed i f)
  then have own: "call_owns (w_call w t) i" by simp
  note D = drv_invD(1,2) [OF inv] drv_invD(3) [OF inv own]
  show ?thesis
    by (rule drv_inv_own_step [OF inv own])
      (use TxClaimed D in \<open>auto simp: view_at_def can_drv_fill_def slot_has_def\<close>)
qed (use inv in auto)

lemma drv_inv_node:
  assumes inv: "drv_inv w"
  shows "drv_inv (drv_step (DrvNode t ret) w)"
proof (cases "w_call w t")
  case (TxFilled i f)
  then have own: "call_owns (w_call w t) i" by simp
  note D = drv_invD(1,2) [OF inv] drv_invD(3) [OF inv own] drv_invD(5) [OF inv TxFilled]
  show ?thesis
  proof (cases "ret = ESP_OK")
    case True
    show ?thesis
      by (rule drv_inv_own_step [OF inv own])
        (use TxFilled D True in \<open>auto simp: view_at_def node_answer_def held_ok_def\<close>)
  next
    case False
    show ?thesis
      by (rule drv_inv_own_step [OF inv own, where x = "dv_tx (w_dv w) ! i" and g = "w_view w ! i"])
        (use TxFilled D False in \<open>auto simp: view_at_def node_answer_def\<close>)
  qed
qed (use inv in \<open>auto simp: node_answer_def\<close>)

lemma drv_inv_end:
  assumes inv: "drv_inv w"
  shows "drv_inv (drv_step (DrvEnd t) w)"
proof -
  have quiet: "drv_inv (w\<lparr>w_call := (w_call w)(t := c)\<rparr>)" if "\<And>i. \<not> call_owns (w_call w t) i" "\<And>i. \<not> call_owns c i" for c
  proof -
    define w' where "w' = w\<lparr>w_call := (w_call w)(t := c)\<rparr>"
    have w': "w_dv w' = w_dv w" "w_view w' = w_view w" "w_taken w' = w_taken w" "in_flight w' = in_flight w"
      by (simp_all add: w'_def in_flight_def)
    have own: "call_owns (w_call w' t') i \<longleftrightarrow> call_owns (w_call w t') i" for t' i
      using that by (simp add: w'_def)
    have "c \<noteq> TxFilled i g" "w_call w t \<noteq> TxFilled i g" for i g using that by fastforce+
    then have fil: "w_call w' t' = TxFilled i g \<longleftrightarrow> w_call w t' = TxFilled i g" for t' i g
      by (simp add: w'_def)
    show ?thesis unfolding w'_def [symmetric]
      by (rule drv_invI; unfold w' own fil; rule drv_invD [OF inv]; assumption)
  qed
  show ?thesis
  proof (cases "w_call w t")
    case (TxReturned i ret)
    show ?thesis
    proof (cases "ret = ESP_OK")
      case True
      with TxReturned quiet [of "TxOver ELM327_OK"] show ?thesis by (simp add: can_drv_end_def)
    next
      case False
      with TxReturned have own: "call_owns (w_call w t) i" by simp
      note D = drv_invD(1,2) [OF inv] drv_invD(3) [OF inv own]
      show ?thesis
        by (rule drv_inv_own_step [OF inv own, where x = "(dv_tx (w_dv w) ! i)\<lparr>x_tries := 0\<rparr>" and g = "w_view w ! i"])
          (use TxReturned D False in \<open>auto simp: can_drv_end_def\<close>)
    qed
  next
    case (TxOver e)
    with quiet [of TxIdle] show ?thesis by simp
  qed (use inv in auto)
qed

text \<open>A report of the node about a frame that it holds.\<close>

lemma drv_inv_held_step:
  assumes inv: "drv_inv w" and i: "i < CAN_DRV_TX_SLOTS" "g_held (w_view w ! i)"
    and w': "w_dv w' = (w_dv w)\<lparr>dv_isr := k, dv_tx := (dv_tx (w_dv w))[i := x]\<rparr>" "w_view w' = (w_view w)[i := g]"
      "w_call w' = w_call w" "w_taken w' = w_taken w"
    and k: "d_arb_lost k = d_arb_lost (dv_isr (w_dv w))"
    and on: "g_held g \<Longrightarrow> held_ok k x g \<and> d_tx_done k + d_tx_lost k = d_tx_done (dv_isr (w_dv w)) + d_tx_lost (dv_isr (w_dv w))"
    and off: "\<not> g_held g \<Longrightarrow> x_tries x = 0 \<and>
      d_tx_done k + d_tx_lost k = d_tx_done (dv_isr (w_dv w)) + d_tx_lost (dv_isr (w_dv w)) + 1"
  shows "drv_inv w'"
proof -
  note D = drv_invD [OF inv]
  have tx: "dv_tx (w_dv w') ! j = (if j = i then x else dv_tx (w_dv w) ! j)" for j
    using i D(1) by (simp add: w')
  have vw: "w_view w' ! j = (if j = i then g else w_view w ! j)" for j
    using i D(2) by (simp add: w')
  have apart: "j \<noteq> i" if "call_owns (w_call w t) j" for t j
    using that D(3) i by blast
  have isr: "dv_isr (w_dv w') = k" by (simp add: w')
  show ?thesis
  proof (rule drv_invI)
    show "j < 16 \<and> x_tries (dv_tx (w_dv w') ! j) = 1 \<and> \<not> g_held (w_view w' ! j)"
      if "call_owns (w_call w' t) j" for t j
      using that D(3) [of t j] apart [of t j] by (simp add: tx vw w'(3))
    show "t' = t" if "call_owns (w_call w' t) j" "call_owns (w_call w' t') j" for t t' j
      using that D(4) by (simp add: w'(3))
    show "slot_has (dv_tx (w_dv w') ! j) f \<and>
        (g_seen (w_view w' ! j) = 0 \<longrightarrow> x_arb_at (dv_tx (w_dv w') ! j) = d_arb_lost (dv_isr (w_dv w')))"
      if "w_call w' t = TxFilled j f" for t j f
    proof -
      have f: "w_call w t = TxFilled j f" using that by (simp add: w'(3))
      then have "j \<noteq> i" using apart [of t j] by simp
      then show ?thesis using D(5) [OF f] by (simp add: tx vw isr k)
    qed
    show "held_ok (dv_isr (w_dv w')) (dv_tx (w_dv w') ! j) (w_view w' ! j)"
      if "j < 16" "g_held (w_view w' ! j)" for j
      using that D(6) [of j] on by (auto simp: tx vw isr k held_ok_def split: if_splits)
    show "g_held (w_view w' ! j) \<or> (\<exists>t. call_owns (w_call w' t) j)"
      if "j < 16" "x_tries (dv_tx (w_dv w') ! j) \<noteq> 0" for j
      using that D(7) [of j] off by (auto simp: tx vw w'(3) split: if_splits)
    have "in_flight w' + (if g_held g then 0 else 1) = in_flight w"
      using count_if_update [of i "w_view w" g_held g] i D(2) by (simp add: in_flight_def w' split: if_splits)
    from arg_cong [OF this, of "of_nat :: nat \<Rightarrow> u32"]
    have "of_nat (in_flight w') + (if g_held g then 0 else 1) = (of_nat (in_flight w) :: u32)" by (simp split: if_splits)
    then show "of_nat (w_taken w') = d_tx_done (dv_isr (w_dv w')) + d_tx_lost (dv_isr (w_dv w')) + of_nat (in_flight w')"
      using D(8) on off by (cases "g_held g") (simp_all add: isr w'(4) algebra_simps)
  qed (use D in \<open>simp_all add: w'\<close>)
qed

lemma drv_inv_tx_done:
  assumes inv: "drv_inv w"
  shows "drv_inv (drv_step (DrvTxDone i success accepted) w)"
proof (cases "i < CAN_DRV_TX_SLOTS \<and> g_held (w_view w ! i)")
  case False
  with inv show ?thesis by (auto simp: node_tx_done_def)
next
  case True
  then have i: "i < CAN_DRV_TX_SLOTS" "g_held (w_view w ! i)" by simp_all
  note D = drv_invD [OF inv]
  let ?x = "dv_tx (w_dv w) ! i" and ?g = "w_view w ! i" and ?isr = "dv_isr (w_dv w)"
  have ok: "held_ok ?isr ?x ?g" using D(6) i by simp
  then have busy: "x_tries ?x \<noteq> 0" by (auto simp: held_ok_def)
  have len: "i < length (dv_tx (w_dv w))" "i < length (w_view w)" using i D(1,2) by simp_all
  let ?budget = "if d_arb_lost ?isr \<noteq> x_arb_at ?x then CAN_DRV_TX_RETRIES_ARB else CAN_DRV_TX_RETRIES"
  have step: "drv_step (DrvTxDone i success accepted) w = node_tx_done i success accepted w" by simp
  show ?thesis
  proof (cases "\<not> success \<and> x_tries ?x \<le> ?budget \<and> accepted")
    case again: True
    let ?x' = "?x\<lparr>x_arb_at := d_arb_lost ?isr, x_tries := x_tries ?x + 1\<rparr>"
    let ?g' = "if g_seen ?g = 0 then ?g\<lparr>g_errs := Suc (g_errs ?g)\<rparr> else ?g\<lparr>g_arbs := Suc (g_arbs ?g), g_seen := 0\<rparr>"
    have le: "unat (x_tries ?x) \<le> 16" using again by (auto simp: word_le_nat_alt split: if_splits)
    have suc: "unat (x_tries ?x + 1) = Suc (unat (x_tries ?x))"
      using le by (simp add: unat_word_ariths(1))
    then have nz: "x_tries ?x + 1 \<noteq> 0" by (metis nat.distinct(1) unat_0)
    have le3: "unat (x_tries ?x) \<le> 3" if "g_seen ?g = 0"
      using again ok that by (simp add: held_ok_def word_le_nat_alt)
    have ok': "held_ok (d_tx_retries_update (\<lambda>n. n + 1) ?isr) ?x' ?g'"
      using ok le le3 suc by (auto simp: held_ok_def slot_has_def)
    have dv: "can_on_tx_done (w_dv w) i success accepted =
        (w_dv w)\<lparr>dv_isr := d_tx_retries_update (\<lambda>n. n + 1) ?isr, dv_tx := (dv_tx (w_dv w))[i := ?x']\<rparr>"
      using again i busy by (simp add: can_on_tx_done_def Let_def)
    define g' where "g' = ?g'"
    have held': "g_held g'" using i by (simp add: g'_def)
    have "node_tx_done i success accepted w = w\<lparr>w_dv := (w_dv w)\<lparr>dv_isr := d_tx_retries_update (\<lambda>n. n + 1) ?isr,
        dv_tx := (dv_tx (w_dv w))[i := ?x']\<rparr>, w_view := (w_view w)[i := g']\<rparr>" (is "_ = ?w'")
      using i len nz by (simp add: node_tx_done_def dv view_at_def g'_def)
    moreover have "drv_inv ?w'"
      by (rule drv_inv_held_step [OF inv i, where x = ?x' and g = g' and k = "d_tx_retries_update (\<lambda>n. n + 1) ?isr"])
        (use i ok' held' in \<open>simp_all flip: g'_def\<close>)
    ultimately show ?thesis by (simp add: step)
  next
    case end_it: False
    obtain k x where dv: "can_on_tx_done (w_dv w) i success accepted =
        (w_dv w)\<lparr>dv_isr := k, dv_tx := (dv_tx (w_dv w))[i := x]\<rparr>"
      and x: "x_tries x = 0" "d_arb_lost k = d_arb_lost ?isr"
        "d_tx_done k + d_tx_lost k = d_tx_done ?isr + d_tx_lost ?isr + 1"
    proof (cases success)
      case True
      then show ?thesis using i busy by (intro that [where k = "d_tx_done_update (\<lambda>n. n + 1) ?isr" and x = "?x\<lparr>x_tries := 0\<rparr>"])
          (simp_all add: can_on_tx_done_def Let_def)
    next
      case False
      with end_it have "\<not> (x_tries ?x \<le> ?budget \<and> accepted)" by simp
      with False show ?thesis using i busy
        by (intro that [where k = "d_tx_lost_update (\<lambda>n. n + 1) ?isr"
              and x = "(if x_tries ?x \<le> ?budget then ?x\<lparr>x_arb_at := d_arb_lost ?isr\<rparr> else ?x)\<lparr>x_tries := 0\<rparr>"])
          (simp_all only: can_on_tx_done_def Let_def, simp_all)
    qed
    show ?thesis unfolding step
      by (rule drv_inv_held_step [OF inv i, where x = x and g = "?g\<lparr>g_held := False\<rparr>"])
        (use i len x in \<open>simp_all add: node_tx_done_def dv view_at_def\<close>)
  qed
qed

lemma can_on_error_parts:
  "dv_tx (fst (can_on_error dv e now)) = dv_tx dv"
  "d_tx_done (dv_isr (fst (can_on_error dv e now))) = d_tx_done (dv_isr dv)"
  "d_tx_lost (dv_isr (fst (can_on_error dv e now))) = d_tx_lost (dv_isr dv)"
  "\<not> e_arb_lost e \<Longrightarrow> d_arb_lost (dv_isr (fst (can_on_error dv e now))) = d_arb_lost (dv_isr dv)"
  by (simp_all add: can_on_error_def Let_def isr_count_kind_def)

lemma can_on_error_storm:
  "(\<not> dv_storm_masked dv \<longrightarrow> dv_storm_n dv < CAN_DRV_STORM_ERRS) \<Longrightarrow>
   \<not> dv_storm_masked (fst (can_on_error dv e now)) \<Longrightarrow>
   dv_storm_n (fst (can_on_error dv e now)) < CAN_DRV_STORM_ERRS"
  by (auto simp: can_on_error_def Let_def not_le split: if_splits)

lemma count_held_map: "(\<And>g. g_held (f g) = g_held g) \<Longrightarrow> count_if g_held (List.map f gs) = count_if g_held gs"
  by (induction gs) simp_all

lemma drv_inv_error:
  assumes inv: "drv_inv w"
  shows "drv_inv (drv_step (DrvError e now) w)"
proof -
  note D = drv_invD [OF inv]
  define v where "v = drv_step (DrvError e now) w"
  have w': "w_dv v = fst (can_on_error (w_dv w) e now)" "w_call v = w_call w" "w_taken v = w_taken w"
    by (simp_all add: v_def Let_def view_all_def)
  have vw: "i < 16 \<Longrightarrow> w_view v ! i = (if e_arb_lost e then (w_view w ! i)\<lparr>g_seen := Suc (g_seen (w_view w ! i))\<rparr>
      else w_view w ! i)" for i
    using D(2) by (simp add: v_def Let_def view_all_def)
  have own: "t16 < 16" if "w_call w t = TxFilled t16 f" for t t16 f
    using D(3) [of t t16] that by simp
  have len: "length (w_view v) = 16" using D(2) by (simp add: v_def Let_def view_all_def)
  have fl: "in_flight v = in_flight w"
    by (simp add: in_flight_def v_def Let_def view_all_def count_held_map)
  note parts = can_on_error_parts [where dv = "w_dv w" and e = e and now = now]
  have "drv_inv v"
  proof (rule drv_invI)
    show "i < 16 \<and> x_tries (dv_tx (w_dv v) ! i) = 1 \<and> \<not> g_held (w_view v ! i)"
      if "call_owns (w_call v t) i" for t i
      using that D(3) [of t i] unfolding w' parts by (simp add: vw)
    show "slot_has (dv_tx (w_dv v) ! j) f \<and>
        (g_seen (w_view v ! j) = 0 \<longrightarrow> x_arb_at (dv_tx (w_dv v) ! j) = d_arb_lost (dv_isr (w_dv v)))"
      if "w_call v t = TxFilled j f" for t j f
      using that D(5) [of t j f] own [of t j f] parts(4) unfolding w' parts(1) by (simp add: vw)
    show "held_ok (dv_isr (w_dv v)) (dv_tx (w_dv v) ! j) (w_view v ! j)"
      if "j < 16" "g_held (w_view v ! j)" for j
      using that D(6) [of j] parts(4) unfolding w' parts(1) by (auto simp: vw held_ok_def split: if_splits)
    show "g_held (w_view v ! j) \<or> (\<exists>t. call_owns (w_call v t) j)"
      if "j < 16" "x_tries (dv_tx (w_dv v) ! j) \<noteq> 0" for j
      using that D(7) [of j] unfolding w' parts(1) by (auto simp: vw)
    show "t' = t" if "call_owns (w_call v t) i" "call_owns (w_call v t') i" for t t' i
      using that D(4) unfolding w' by blast
    show "of_nat (w_taken v) = d_tx_done (dv_isr (w_dv v)) + d_tx_lost (dv_isr (w_dv v)) + of_nat (in_flight v)"
      using D(8) unfolding w' parts fl .
    show "dv_storm_n (w_dv v) < 400" if "\<not> dv_storm_masked (w_dv v)"
      using can_on_error_storm [of "w_dv w" e now] D(9) that unfolding w' by blast
    show "length (dv_tx (w_dv v)) = 16" unfolding w' parts using D(1) .
  qed (rule len)
  then show ?thesis by (simp only: v_def)
qed

interpretation drv: machine drv_step "\<lambda>_. True" drv_inv
proof
  fix e w
  assume "drv_inv w"
  then show "drv_inv (drv_step e w)"
    by (cases e) (auto simp only: intro: drv_inv_claim drv_inv_fill drv_inv_node drv_inv_end drv_inv_tx_done drv_inv_error)
qed

text \<open>A node that has just come up: no call in the driver, every slot free, no storm.\<close>

definition drv_fresh :: "drv_world \<Rightarrow> bool" where
  "drv_fresh w \<longleftrightarrow>
     length (dv_tx (w_dv w)) = CAN_DRV_TX_SLOTS \<and> (\<forall>x \<in> set (dv_tx (w_dv w)). x_tries x = 0) \<and>
     length (w_view w) = CAN_DRV_TX_SLOTS \<and> (\<forall>g \<in> set (w_view w). \<not> g_held g) \<and> w_call w = (\<lambda>_. TxIdle) \<and>
     w_taken w = 0 \<and> d_tx_done (dv_isr (w_dv w)) = 0 \<and> d_tx_lost (dv_isr (w_dv w)) = 0 \<and>
     dv_storm_n (w_dv w) = 0 \<and> \<not> dv_storm_masked (w_dv w)"

lemma fresh_inv:
  assumes "drv_fresh w"
  shows "drv_inv w"
proof -
  have "in_flight w = 0" using assms by (simp add: in_flight_def count_if_def drv_fresh_def filter_empty_conv)
  with assms show ?thesis by (auto simp: drv_inv_def call_ok_def slot_ok_def drv_fresh_def)
qed

text \<open>C38. For every interleaving of the transmit calls of any number of tasks (each split into
  the claim of a slot, its filling, the answer of the node and the end of the call) with the
  node's reports and error interrupts, in the life of one node that reports only frames it
  holds: every frame the node accepted is held in a slot or was counted as sent or as lost;
  a slot is busy exactly when the node holds its frame or a call in progress owns it, and no
  slot has two owners; the slot of a held frame contains the frame its caller handed over; a
  held frame was repeated at most 3 times after attempts in which no arbitration loss was
  reported and at most 16 times in all; and the error interrupt is masked before a storm of
  errors gets longer than its limit.\<close>

theorem tx_frames_accounted:
  assumes "drv_fresh w0" and "w = fold drv_step es w0"
  shows "of_nat (w_taken w) = d_tx_done (dv_isr (w_dv w)) + d_tx_lost (dv_isr (w_dv w)) + of_nat (in_flight w) \<and>
     (\<forall>i < CAN_DRV_TX_SLOTS. g_held (w_view w ! i) \<longrightarrow>
        slot_has (dv_tx (w_dv w) ! i) (g_frame (w_view w ! i)) \<and>
        g_errs (w_view w ! i) \<le> 3 \<and> g_errs (w_view w ! i) + g_arbs (w_view w ! i) \<le> 16) \<and>
     (\<forall>i < CAN_DRV_TX_SLOTS. x_tries (dv_tx (w_dv w) ! i) \<noteq> 0 \<longleftrightarrow>
        g_held (w_view w ! i) \<or> (\<exists>t. call_owns (w_call w t) i)) \<and>
     (\<forall>t i. call_owns (w_call w t) i \<longrightarrow>
        \<not> g_held (w_view w ! i) \<and> (\<forall>t'. call_owns (w_call w t') i \<longrightarrow> t' = t)) \<and>
     (dv_storm_masked (w_dv w) \<or> dv_storm_n (w_dv w) < CAN_DRV_STORM_ERRS)"
proof -
  have "drv_inv (fold drv_step es w0)"
    using fresh_inv [OF assms(1)] by (intro drv.run_inv) (simp_all add: list_all_iff)
  then have inv: "drv_inv w" by (simp add: assms(2))
  note D = drv_invD [OF inv]
  have held: "slot_has (dv_tx (w_dv w) ! i) (g_frame (w_view w ! i)) \<and> x_tries (dv_tx (w_dv w) ! i) \<noteq> 0 \<and>
      g_errs (w_view w ! i) \<le> 3 \<and> g_errs (w_view w ! i) + g_arbs (w_view w ! i) \<le> 16"
    if "i < CAN_DRV_TX_SLOTS" "g_held (w_view w ! i)" for i
    using D(6) [OF that] by (auto simp: held_ok_def)
  show ?thesis
  proof (intro conjI allI impI)
    fix i :: nat
    assume i: "i < CAN_DRV_TX_SLOTS"
    show "x_tries (dv_tx (w_dv w) ! i) \<noteq> 0 \<longleftrightarrow> g_held (w_view w ! i) \<or> (\<exists>t. call_owns (w_call w t) i)"
      using held D(3) [of _ i] D(7) [OF i] i by fastforce
  qed (use held D in \<open>blast+\<close>)
qed

text \<open>A frame that lost arbitration five times is given up at its first error: the two retry
  budgets share one count.\<close>

lemma tx_budgets_shared:
  assumes "x_tries (dv_tx dv ! i) = 5" "x_arb_at (dv_tx dv ! i) = d_arb_lost (dv_isr dv)" "i < CAN_DRV_TX_SLOTS"
    and "length (dv_tx dv) = CAN_DRV_TX_SLOTS"
  shows "x_tries (dv_tx (can_on_tx_done dv i False True) ! i) = 0"
  using assms by (simp add: can_on_tx_done_def Let_def)

section \<open>Witnesses\<close>

definition drv0 :: can_drv where
  "drv0 = \<lparr>dv_node = True, dv_listen = False,
     dv_isr = \<lparr>d_rx_missed = 0, d_rx_overrun = 0, d_rx_bad = 0, d_arb_lost = 0, d_err_stuff = 0, d_err_form = 0,
       d_err_bit = 0, d_err_ack = 0, d_err_other = 0, d_tx_retries = 0, d_tx_lost = 0, d_tx_done = 0, d_rx_storms = 0\<rparr>,
     dv_tx = replicate 16 \<lparr>x_id = 0, x_ide = False, x_rtr = False, x_dlc = 0, x_payload = [], x_tries = 0, x_arb_at = 0\<rparr>,
     dv_storm_t0 = 0, dv_storm_n = 0, dv_storm_masked = False, dv_evt_storm = False\<rparr>"

text \<open>Two tasks transmit at once: one frame is repeated after an error and is still in its slot, the
  other is repeated after a lost arbitration and then sent.\<close>

definition sent_frame :: "u32 \<Rightarrow> can_core_frame" where
  "sent_frame k = \<lparr>f_id = k, f_ext = False, f_rtr = False, f_dlc = 2, f_data = [1, 2], f_ts_us = 0\<rparr>"

definition world0 :: drv_world where
  "world0 = \<lparr>w_dv = drv0, w_call = (\<lambda>_. TxIdle),
     w_view = replicate 16 \<lparr>g_held = False, g_frame = sent_frame 0, g_errs = 0, g_arbs = 0, g_seen = 0\<rparr>, w_taken = 0\<rparr>"

definition two_senders :: "drv_event list" where
  "two_senders =
     [DrvClaim 0 (sent_frame 16), DrvClaim 1 (sent_frame 17), DrvFill 1, DrvFill 0, DrvNode 1 ESP_OK,
      DrvTxDone 1 False True, DrvNode 0 ESP_OK,
      DrvError \<lparr>e_stuff = False, e_form = False, e_bit = False, e_ack = False, e_arb_lost = True\<rparr> 5000,
      DrvTxDone 0 False True, DrvTxDone 0 True True, DrvEnd 0, DrvEnd 1]"

lemma two_senders_run:
  "w_taken (fold drv_step two_senders world0) = 2"
  "g_held (w_view (fold drv_step two_senders world0) ! 1)"
  "g_frame (w_view (fold drv_step two_senders world0) ! 1) = sent_frame 17"
  "in_flight (fold drv_step two_senders world0) = 1"
  by code_simp+

lemma tx_frames_accounted_witness:
  "let w = fold drv_step two_senders world0 in
     w_taken w = 2 \<and> in_flight w = 1 \<and> (2 :: u32) = d_tx_done (dv_isr (w_dv w)) + d_tx_lost (dv_isr (w_dv w)) + 1 \<and>
     slot_has (dv_tx (w_dv w) ! 1) (sent_frame 17) \<and> g_errs (w_view w ! 1) \<le> 3"
proof -
  have fresh: "drv_fresh world0" by (simp add: drv_fresh_def world0_def drv0_def)
  note T = tx_frames_accounted [OF fresh refl, of two_senders]
  from conjunct1 [OF conjunct2 [OF T], rule_format, of 1] conjunct1 [OF T] two_senders_run
  show ?thesis by (simp add: Let_def)
qed

lemma timing_exact_witness: "can_timing_for 80000000 500 =
    Some \<lparr>ti_brp = 8, ti_tseg1 = 15, ti_tseg2 = 4, ti_sjw = 3, ti_bitrate = 500000\<rparr>"
  using timing_exact [of 80000000 500 8] by (simp add: can_timing_nominal_bps_def)

lemma recovery_restart_witness:
  "snd (can_core_recovery_restart_due
     (can_core_recovery_on_recovered (fst (off_run 100 [5000, 59999])) 70000) (70000 + 2000))
   \<longleftrightarrow> restart_delay (Suc (Suc 0)) \<le> 2000"
  using recovery_restart [of "[5000, 59999]" 2000 100 70000] by simp

end
