(* ===== verification/SLCAN.thy ===== *)
theory SLCAN
  imports CAN_Wire Hex
begin

text \<open>
  \<^verbatim>\<open>components/translator_slcan/translator_slcan_codec.c\<close>: the slcan translator of a bridge.
  \<open>decode\<close> turns chunks of binary frames into text lines, \<open>encode\<close> turns the client's text
  into binary frames. The text side is a \<open>string\<close> (one character per byte). The sink and the
  bitrate hook belong to the caller: they are functions on a state \<open>'k\<close> that is threaded
  through, a sink says whether it took the bytes. The context is the line so far.
\<close>

abbreviation CR :: char where "CR \<equiv> CHR 0x0D"
abbreviation LF :: char where "LF \<equiv> CHR 0x0A"

type_synonym 'k text_sink = "string \<Rightarrow> 'k \<Rightarrow> 'k \<times> bool"
type_synonym 'k byte_sink = "bytes \<Rightarrow> 'k \<Rightarrow> 'k \<times> bool"
type_synonym 'k bitrate_hook = "(u16 \<Rightarrow> 'k \<Rightarrow> 'k) option"

section \<open>Frames to lines\<close>

definition up_hex :: "u8 \<Rightarrow> char" where
  "up_hex n = hex_char (unat (n AND 0xF))"

definition slcan_format_line :: "can_core_frame \<Rightarrow> string" where
  "slcan_format_line f =
     (let id_len = (if f_ext f then 8 else 3);
          dlc = (if f_dlc f > 8 then 8 else f_dlc f)
      in [if f_ext f then (if f_rtr f then CHR ''R'' else CHR ''T'')
          else (if f_rtr f then CHR ''r'' else CHR ''t'')] @
         map (\<lambda>k. up_hex (ucast (drop_bit (4 * k) (f_id f)))) (rev [0..<id_len]) @
         [char_of (48 + unat dlc)] @
         (if \<not> f_rtr f
          then concat (map (\<lambda>b. [up_hex (drop_bit 4 b), up_hex (b AND 0xF)]) (take (unat dlc) (f_data f)))
          else []) @ [CR])"

function slcan_decode_loop :: "'k text_sink \<Rightarrow> bytes \<Rightarrow> string \<Rightarrow> 'k \<Rightarrow> 'k \<times> bool" where
  "slcan_decode_loop sink d batch st =
     (case can_wire_decode_next d of
        None \<Rightarrow> if length batch > 0 then sink batch st else (st, True)
      | Some (f, n) \<Rightarrow>
          if length batch + 32 > 512 then
            (case sink batch st of
               (st1, ok) \<Rightarrow> if \<not> ok then (st1, False)
                           else slcan_decode_loop sink (drop n d) (slcan_format_line f) st1)
          else slcan_decode_loop sink (drop n d) (batch @ slcan_format_line f) st)"
  by pat_completeness auto
termination
  by (relation "measure (\<lambda>(_, d, _). length d)")
    (auto simp: can_wire_decode_next_def split: if_splits option.splits)

declare slcan_decode_loop.simps [simp del]

definition slcan_decode :: "'k text_sink \<Rightarrow> bytes \<Rightarrow> 'k \<Rightarrow> 'k \<times> bool" where
  "slcan_decode sink d st = slcan_decode_loop sink d [] st"

section \<open>Lines to frames\<close>

definition slcan_bitrate_kbps :: "char \<Rightarrow> u16" where
  "slcan_bitrate_kbps code =
     (let n = of_char code :: nat in
      if n < 48 \<or> n > 57 then 0
      else [10, 20, 50, 100, 125, 250, 500, 800, 1000, 83] ! (n - 48))"

text \<open>\<open>parse_id\<close> on the characters of the identifier.\<close>

fun slcan_parse_id :: "u32 \<Rightarrow> string \<Rightarrow> u32 option" where
  "slcan_parse_id v [] = Some v"
| "slcan_parse_id v (c # cs) =
     (case hex_value c of None \<Rightarrow> None | Some n \<Rightarrow> slcan_parse_id (push_bit 4 v OR of_nat n) cs)"

fun slcan_parse_data :: "nat \<Rightarrow> string \<Rightarrow> bytes option" where
  "slcan_parse_data 0 s = Some []"
| "slcan_parse_data (Suc k) (h # l # s) =
     (case (hex_value h, hex_value l) of
        (Some hi, Some lo) \<Rightarrow> map_option ((#) (of_nat (push_bit 4 hi OR lo))) (slcan_parse_data k s)
      | _ \<Rightarrow> None)"
| "slcan_parse_data (Suc k) _ = None"

definition emit_frame :: "'k bitrate_hook \<Rightarrow> 'k byte_sink \<Rightarrow> string \<Rightarrow> 'k \<Rightarrow> 'k \<times> bool" where
  "emit_frame hook sink line st =
     (let type = line ! 0; n = length line in
      if type = CHR ''t'' \<or> type = CHR ''r'' \<or> type = CHR ''T'' \<or> type = CHR ''R'' then
        let ext = (type = CHR ''T'' \<or> type = CHR ''R'');
            id_len = (if ext then 8 else 3);
            rtr = (type = CHR ''r'' \<or> type = CHR ''R'')
        in if n < 1 + id_len + 1 then (st, True)
           else case slcan_parse_id 0 (take id_len (drop 1 line)) of
                  None \<Rightarrow> (st, True)
                | Some cid \<Rightarrow>
                    (case hex_value (line ! (1 + id_len)) of
                       None \<Rightarrow> (st, True)
                     | Some dlc \<Rightarrow>
                         if dlc > 8 then (st, True)
                         else
                           let f = \<lparr>f_id = cid, f_ext = ext, f_rtr = rtr, f_dlc = of_nat dlc,
                                    f_data = replicate 8 0, f_ts_us = 0\<rparr>
                           in if \<not> rtr then
                                (if n < 2 + id_len + dlc * 2 then (st, True)
                                 else case slcan_parse_data dlc (drop (2 + id_len) line) of
                                        None \<Rightarrow> (st, True)
                                      | Some bs \<Rightarrow> sink (can_wire_encode (f\<lparr>f_data := blit 0 bs (f_data f)\<rparr>)) st)
                              else sink (can_wire_encode f) st)
      else if type = CHR ''S'' \<and> n = 2 then
        let kbps = slcan_bitrate_kbps (line ! 1)
        in (if kbps \<noteq> 0 then (case hook of None \<Rightarrow> st | Some h \<Rightarrow> h kbps st) else st, True)
      else (st, True))"

text \<open>\<open>slcan_encode\<close>: the line so far and the caller's state, and whether every sink call
  succeeded.\<close>

fun slcan_encode ::
  "'k bitrate_hook \<Rightarrow> 'k byte_sink \<Rightarrow> string \<Rightarrow> string \<times> 'k \<Rightarrow> (string \<times> 'k) \<times> bool" where
  "slcan_encode hook sink [] (line, st) = ((line, st), True)"
| "slcan_encode hook sink (c # cs) (line, st) =
     (if c = CR then
        (if length line > 0 then
           (case emit_frame hook sink line st of
              (st1, ok) \<Rightarrow> if \<not> ok then (([], st1), False) else slcan_encode hook sink cs ([], st1))
         else slcan_encode hook sink cs (line, st))
      else if c = LF then slcan_encode hook sink cs (line, st)
      else if length line < 47 then slcan_encode hook sink cs (line @ [c], st)
      else slcan_encode hook sink cs ([], st))"

section \<open>Reading back a line\<close>

lemma nibble_join:
  assumes "n < 16"
  shows "push_bit 4 v OR of_nat n = v * 16 + (of_nat n :: 'a::len word)"
proof -
  have "take_bit 4 n = n" using assms by (simp add: take_bit_nat_eq_self)
  then have small: "i < 4" if "bit n i" for i using that by (metis bit_take_bit_iff)
  have "push_bit 4 v AND of_nat n = 0" by (intro bit_word_eqI) (auto simp: bit_simps dest: small)
  from disjunctive_add_eq_or [OF this] show ?thesis by (simp add: push_bit_eq_mult mult.commute)
qed

lemma parse_id_digits:
  "list_all isxdigit s \<Longrightarrow> slcan_parse_id v s = Some (v * 16 ^ length s + of_nat (hex_num s))"
proof (induction s rule: rev_induct)
  case Nil
  then show ?case by (simp add: hex_num_def)
next
  case (snoc c s)
  have app: "slcan_parse_id v (s @ t) = (case slcan_parse_id v s of None \<Rightarrow> None | Some w \<Rightarrow> slcan_parse_id w t)" for t
    by (induction s arbitrary: v) (auto split: option.splits)
  from snoc.prems obtain n where "hex_value c = Some n" "n < 16"
    by (auto simp: isxdigit_def dest: hex_value_less)
  with snoc show ?case
    by (simp add: app nibble_join hex_num_snoc algebra_simps)
qed

lemma map_id_digits:
  "map (\<lambda>k. up_hex (ucast (drop_bit (4 * k) w))) (rev [0..<m]) = hex_fixed m (unat (w :: u32))"
proof (induction m arbitrary: w)
  case 0
  then show ?case by simp
next
  case (Suc m)
  have digit: "up_hex (ucast w) = hex_char (unat w mod 16)"
  proof -
    have "x AND 15 = x mod 16" for x :: nat
      using take_bit_eq_mask [of 4 x] by (simp add: mask_eq_exp_minus_1 take_bit_eq_mod)
    then show ?thesis
      by (simp add: up_hex_def unsigned_and_eq unat_to_u8 mod_mod_cancel)
  qed
  have "unat (drop_bit 4 w) = unat w div 16" by (simp add: unat_drop_bit_eq drop_bit_eq_div [where 'a = nat])
  moreover have "map (\<lambda>k. up_hex (ucast (drop_bit (4 * k) w))) (rev [0..<Suc m])
      = map (\<lambda>k. up_hex (ucast (drop_bit (4 * k) (drop_bit 4 w)))) (rev [0..<m]) @ [up_hex (ucast w)]"
    by (simp add: upt_conv_Cons map_Suc_upt [symmetric] rev_map [symmetric] comp_def add.commute del: upt_Suc)
  ultimately show ?case using Suc [of "drop_bit 4 w"] digit by simp
qed

lemma up_hex_pair: "[up_hex (drop_bit 4 b), up_hex (b AND 0xF)] = hex2 b"
proof -
  have a: "x AND 15 = x mod 16" for x :: nat
    using take_bit_eq_mask [of 4 x] by (simp add: mask_eq_exp_minus_1 take_bit_eq_mod)
  have "unat b div 16 < 16" using unat_u8_less [of b] by simp
  then show ?thesis
    by (simp add: up_hex_def unsigned_and_eq a unat_drop_bit_eq drop_bit_eq_div [where 'a = nat] hex2_simp)
qed

lemma parse_data_text:
  "slcan_parse_data (length bs) (concat (map hex2 bs) @ rest) = Some bs"
proof (induction bs)
  case Nil
  then show ?case by simp
next
  case (Cons b bs)
  have b: "unat b div 16 < 16" "unat b mod 16 < 16" using unat_u8_less [of b] by auto
  have "of_nat (push_bit 4 (unat b div 16) OR unat b mod 16) = b"
  proof -
    have "of_nat (unat b div 16) * 16 + of_nat (unat b mod 16) = (of_nat (unat b div 16 * 16 + unat b mod 16) :: u8)"
      by (simp only: of_nat_add of_nat_mult of_nat_numeral)
    then show ?thesis
      using nibble_join [OF b(2), of "of_nat (unat b div 16) :: u8"]
      by (simp add: of_nat_or_eq of_nat_push_bit)
  qed
  with Cons b show ?case by (simp add: hex2_simp)
qed

lemma char_digit:
  assumes "n \<le> 8"
  shows "hex_value (char_of (48 + n)) = Some n"
proof -
  have "\<forall>n \<in> set [0..<9]. hex_value (char_of (48 + n)) = Some n" by code_simp
  moreover have "n \<in> set [0..<9]" using assms by simp
  ultimately show ?thesis by blast
qed

text \<open>A frame that the text carries: what the decoder of the binary form makes, with an
  identifier of three digits when it is a standard one, and no time.\<close>

definition text_frame :: "can_core_frame \<Rightarrow> bool" where
  "text_frame f \<longleftrightarrow> frame_ok f \<and> (\<not> f_ext f \<longrightarrow> unat (f_id f) < 16 ^ 3)"

lemma format_line_parts:
  assumes "frame_ok f"
  shows "slcan_format_line f =
     [if f_ext f then (if f_rtr f then CHR ''R'' else CHR ''T'') else (if f_rtr f then CHR ''r'' else CHR ''t'')] @
     hex_fixed (if f_ext f then 8 else 3) (unat (f_id f)) @ [char_of (48 + unat (f_dlc f))] @
     (if f_rtr f then [] else concat (map hex2 (take (unat (f_dlc f)) (f_data f)))) @ [CR]"
proof -
  have "\<not> f_dlc f > 8" using assms by (simp add: frame_ok_def word_less_nat_alt)
  then show ?thesis
    by (simp add: slcan_format_line_def Let_def map_id_digits up_hex_pair)
qed

lemma frame_text_rebuild:
  assumes "frame_ok f"
  shows "\<lparr>f_id = f_id f, f_ext = f_ext f, f_rtr = f_rtr f, f_dlc = f_dlc f,
     f_data = (if f_rtr f then replicate 8 0 else blit 0 (take (unat (f_dlc f)) (f_data f)) (replicate 8 0)),
     f_ts_us = 0\<rparr> = f\<lparr>f_ts_us := 0\<rparr>"
  using assms by (intro can_core_frame.equality) (auto simp: frame_ok_def blit_def)

lemma emit_line:
  assumes f: "text_frame f"
  shows "emit_frame hook sink (butlast (slcan_format_line f)) st = sink (can_wire_encode (f\<lparr>f_ts_us := 0\<rparr>)) st"
proof -
  let ?m = "if f_ext f then 8 else 3 :: nat"
  let ?t = "if f_ext f then (if f_rtr f then CHR ''R'' else CHR ''T'') else (if f_rtr f then CHR ''r'' else CHR ''t'')"
  let ?id = "hex_fixed ?m (unat (f_id f))"
  let ?body = "if f_rtr f then [] else concat (map hex2 (take (unat (f_dlc f)) (f_data f)))"
  have ok: "frame_ok f" and dlc: "unat (f_dlc f) \<le> 8" and len: "length (f_data f) = 8"
    using f by (simp_all add: text_frame_def frame_ok_def)
  have line: "butlast (slcan_format_line f) = ?t # ?id @ char_of (48 + unat (f_dlc f)) # ?body"
    using format_line_parts [OF ok] by (simp add: butlast_append)
  have idlen: "length ?id = ?m" by simp
  have "unat (f_id f) < 16 ^ ?m"
    using f unat_u32_less [of "f_id f"] by (simp add: text_frame_def)
  then have pid: "slcan_parse_id 0 ?id = Some (f_id f)"
    using hex_fixed_digits by (subst parse_id_digits) simp_all
  have blen: "length (concat (map hex2 (take (unat (f_dlc f)) (f_data f)))) = 2 * unat (f_dlc f)"
    using dlc len by (simp add: length_concat comp_def sum_list_triv)
  have pdata: "slcan_parse_data (unat (f_dlc f)) (concat (map hex2 (take (unat (f_dlc f)) (f_data f))))
      = Some (take (unat (f_dlc f)) (f_data f))"
    using parse_data_text [of "take (unat (f_dlc f)) (f_data f)" "[]"] dlc len by simp
  have pick: "take ?m (drop 1 (?t # ?id @ char_of (48 + unat (f_dlc f)) # ?body)) = ?id"
    "(?t # ?id @ char_of (48 + unat (f_dlc f)) # ?body) ! (1 + ?m) = char_of (48 + unat (f_dlc f))"
    "drop (2 + ?m) (?t # ?id @ char_of (48 + unat (f_dlc f)) # ?body) = ?body"
    "length (?t # ?id @ char_of (48 + unat (f_dlc f)) # ?body) = 2 + ?m + length ?body"
    using idlen by (simp_all add: nth_append)
  have type: "?t = CHR ''t'' \<or> ?t = CHR ''r'' \<or> ?t = CHR ''T'' \<or> ?t = CHR ''R''"
    "(?t = CHR ''T'' \<or> ?t = CHR ''R'') = f_ext f" "(?t = CHR ''r'' \<or> ?t = CHR ''R'') = f_rtr f"
    by auto
  show ?thesis
    unfolding line emit_frame_def Let_def nth_Cons_0
    unfolding type(2,3) pick pid
    using type(1) dlc frame_text_rebuild [OF ok] pdata blen
    by (simp add: char_digit split: if_splits)
qed

section \<open>The streams\<close>

lemma encode_append:
  "slcan_encode hook sink (xs @ ys) s =
     (case slcan_encode hook sink xs s of (s1, ok) \<Rightarrow> if ok then slcan_encode hook sink ys s1 else (s1, False))"
proof (induction xs arbitrary: s)
  case Nil
  then show ?case by (cases s) simp
next
  case (Cons x xs)
  then show ?case by (cases s) (auto split: prod.splits)
qed

interpretation sl: stream_reader "slcan_encode hook sink" for hook sink
proof
  show "slcan_encode hook sink [] s = (s, True)" for s by (cases s) simp
qed (rule encode_append)

lemma encode_collect:
  "list_all (\<lambda>c. c \<noteq> CR \<and> c \<noteq> LF) cs \<Longrightarrow> length line + length cs \<le> 47 \<Longrightarrow>
     slcan_encode hook sink cs (line, st) = ((line @ cs, st), True)"
  by (induction cs arbitrary: line) auto

lemma hex_char_line: "n < 16 \<Longrightarrow> hex_char n \<noteq> CR \<and> hex_char n \<noteq> LF"
  using isxdigit_char [of n] by (auto simp: isxdigit_def hex_value_def)

lemma isxdigit_line: "isxdigit c \<Longrightarrow> c \<noteq> CR \<and> c \<noteq> LF"
  by (auto simp: isxdigit_def hex_value_def)

lemma format_line_shape:
  assumes "frame_ok f"
  shows "slcan_format_line f = butlast (slcan_format_line f) @ [CR]"
    "list_all (\<lambda>c. c \<noteq> CR \<and> c \<noteq> LF) (butlast (slcan_format_line f))"
    "0 < length (butlast (slcan_format_line f))" "length (slcan_format_line f) \<le> 27"
proof -
  have dlc: "unat (f_dlc f) \<le> 8" and len: "length (f_data f) = 8" using assms by (simp_all add: frame_ok_def)
  have blen: "length (concat (map hex2 (take (unat (f_dlc f)) (f_data f)))) = 2 * unat (f_dlc f)"
    using dlc len by (simp add: length_concat comp_def sum_list_triv)
  note parts = format_line_parts [OF assms]
  show "slcan_format_line f = butlast (slcan_format_line f) @ [CR]" "0 < length (butlast (slcan_format_line f))"
    unfolding parts by (simp_all add: butlast_append)
  show "length (slcan_format_line f) \<le> 27" unfolding parts using dlc blen by simp
  have "isxdigit (char_of (48 + unat (f_dlc f)))" using char_digit [OF dlc] by (simp add: isxdigit_def)
  moreover have "list_all isxdigit (concat (map hex2 bs))" for bs
    using hex_fixed_digits by (induction bs) auto
  ultimately show "list_all (\<lambda>c. c \<noteq> CR \<and> c \<noteq> LF) (butlast (slcan_format_line f))"
    unfolding parts using hex_fixed_digits
    by (auto simp: butlast_append list_all_iff dest!: isxdigit_line)
qed

lemma encode_line:
  assumes "text_frame f"
  shows "slcan_encode hook sink (slcan_format_line f) ([], st) =
     (case sink (can_wire_encode (f\<lparr>f_ts_us := 0\<rparr>)) st of (st1, ok) \<Rightarrow> (([], st1), ok))"
proof -
  have ok: "frame_ok f" using assms by (simp add: text_frame_def)
  note shape = format_line_shape [OF ok]
  have "length (butlast (slcan_format_line f)) \<le> 47" using shape(4) by simp
  then have "slcan_encode hook sink (butlast (slcan_format_line f)) ([], st) = ((butlast (slcan_format_line f), st), True)"
    using encode_collect [OF shape(2), of "[]"] by simp
  then have "slcan_encode hook sink (butlast (slcan_format_line f) @ [CR]) ([], st) =
      (case sink (can_wire_encode (f\<lparr>f_ts_us := 0\<rparr>)) st of (st1, ok) \<Rightarrow> (([], st1), ok))"
    using shape(3) emit_line [OF assms, of hook sink st] by (simp add: encode_append split: prod.splits)
  then show ?thesis using shape(1) by simp
qed

text \<open>A sink that keeps what it gets.\<close>

definition keep :: "'a \<Rightarrow> 'a list \<Rightarrow> 'a list \<times> bool" where
  "keep x xs = (xs @ [x], True)"

lemma encode_lines:
  "list_all text_frame fs \<Longrightarrow>
     slcan_encode None keep (concat (map slcan_format_line fs)) ([], out) =
       (([], out @ map (\<lambda>f. can_wire_encode (f\<lparr>f_ts_us := 0\<rparr>)) fs), True)"
  by (induction fs arbitrary: out) (simp_all add: encode_append encode_line keep_def)

lemma decode_next_wire:
  assumes "frame_ok f"
  shows "can_wire_decode_next (can_wire_encode f @ rest) = Some (f, length (can_wire_encode f))"
  using wire_decode_append [OF assms, of rest] length_wire [OF assms]
  by (simp add: can_wire_decode_next_def can_wire_encode_def Let_def)

lemma decode_loop_wire:
  "list_all frame_ok fs \<Longrightarrow> length batch \<le> 512 \<Longrightarrow>
     \<exists>out'. slcan_decode_loop keep (concat (map can_wire_encode fs)) batch out = (out', True) \<and>
            concat out' = concat out @ batch @ concat (map slcan_format_line fs) \<and>
            (list_all (\<lambda>t. length t \<le> 512) out \<longrightarrow> list_all (\<lambda>t. length t \<le> 512) out')"
proof (induction fs arbitrary: batch out)
  case Nil
  then show ?case
    by (subst slcan_decode_loop.simps) (auto simp: can_wire_decode_next_def keep_def)
next
  case (Cons f fs)
  let ?l = "slcan_format_line f"
  have ok: "frame_ok f" using Cons.prems by simp
  have len: "length ?l \<le> 27" using format_line_shape(4) [OF ok] .
  note next1 = decode_next_wire [OF ok, of "concat (map can_wire_encode fs)"]
  show ?case
  proof (cases "length batch + 32 > 512")
    case True
    have "slcan_decode_loop keep (concat (map can_wire_encode (f # fs))) batch out
        = slcan_decode_loop keep (concat (map can_wire_encode fs)) ?l (out @ [batch])"
      using True next1 by (subst slcan_decode_loop.simps) (simp add: keep_def)
    with Cons.IH [of ?l "out @ [batch]"] Cons.prems len show ?thesis by auto
  next
    case False
    have "slcan_decode_loop keep (concat (map can_wire_encode (f # fs))) batch out
        = slcan_decode_loop keep (concat (map can_wire_encode fs)) (batch @ ?l) out"
      using False next1 by (subst slcan_decode_loop.simps) simp
    moreover have "length (batch @ ?l) \<le> 512" using False len by simp
    ultimately show ?thesis using Cons.IH [of "batch @ ?l" out] Cons.prems by auto
  qed
qed

text \<open>C8. Frames that are translated to SLCAN lines, carried in pieces of any size and translated
  back are the frames that were sent, in order and without their time stamps; every piece
  handed to the sink fits the batch buffer.\<close>

theorem slcan_transparent:
  assumes "list_all text_frame fs"
    and "slcan_decode keep (concat (map can_wire_encode fs)) [] = (lines, ok)"
    and "concat pieces = concat lines"
  shows "ok \<and> list_all (\<lambda>t. length t \<le> 512) lines \<and>
     feed_pieces (slcan_encode None keep) pieces ([], []) =
       (([], map (\<lambda>f. can_wire_encode (f\<lparr>f_ts_us := 0\<rparr>)) fs), True)"
proof -
  have "list_all frame_ok fs" using assms(1) by (auto simp: list_all_iff text_frame_def)
  from decode_loop_wire [OF this, of "[]" "[]"] assms(2)
  have "ok" "list_all (\<lambda>t. length t \<le> 512) lines" "concat lines = concat (map slcan_format_line fs)"
    by (auto simp: slcan_decode_def)
  with encode_lines [OF assms(1), of "[]"] assms(3) show ?thesis by (simp add: sl.pieces_concat)
qed

text \<open>A line that is too long is dropped up to the overflow; its rest is read as a line of its
  own, and can be a frame.\<close>

lemma slcan_overflow_tail:
  "slcan_encode None keep (replicate 48 CHR ''x'' @ ''t12300'' @ [CR]) ([], [])
     = (([], [[0x23, 1, 0, 0, 0, 0, 0, 0, 0, 0]]), True)"
  by code_simp

section \<open>Witness\<close>

definition frame_7e8 :: can_core_frame where
  "frame_7e8 = \<lparr>f_id = 0x7E8, f_ext = False, f_rtr = False, f_dlc = 2, f_data = [0x41, 0x0C, 0, 0, 0, 0, 0, 0],
     f_ts_us = 77\<rparr>"

lemma slcan_transparent_witness:
  "feed_pieces (slcan_encode None keep) (fst (slcan_decode keep (concat (map can_wire_encode [frame_7e8])) [])) ([], [])
     = (([], map (\<lambda>f. can_wire_encode (f\<lparr>f_ts_us := 0\<rparr>)) [frame_7e8]), True)"
proof -
  have "list_all text_frame [frame_7e8]" by code_simp
  from slcan_transparent [OF this surjective_pairing refl] show ?thesis by simp
qed

end
