(* ===== verification/UDS.thy ===== *)
theory UDS
  imports Hex
begin

text \<open>
  The pure parts of \<^verbatim>\<open>components/uds_manager\<close>: \<^verbatim>\<open>uds_proto.c\<close> (kinds of response, hexadecimal
  payloads) and \<^verbatim>\<open>uds_dtc_codec.c\<close> (trouble codes: requests, records, text). A response that
  may be NULL is an option. Output pointers that may be NULL without making a call fail are
  results here; a C string is read up to its NUL, \<open>code ! i\<close> at the length being that NUL.
\<close>

section \<open>Responses\<close>

abbreviation (input) UDS_NR_SID :: u8 where "UDS_NR_SID \<equiv> 0x7F"
abbreviation (input) UDS_NRC_PENDING :: u8 where "UDS_NRC_PENDING \<equiv> 0x78"
abbreviation (input) UDS_POS_OFFSET :: u8 where "UDS_POS_OFFSET \<equiv> 0x40"

fun uds_is_negative :: "bytes option \<Rightarrow> bool" where
  "uds_is_negative None = False"
| "uds_is_negative (Some r) = (length r \<ge> 3 \<and> r ! 0 = UDS_NR_SID)"

definition uds_is_pending :: "bytes option \<Rightarrow> bool" where
  "uds_is_pending resp \<longleftrightarrow> uds_is_negative resp \<and> the resp ! 2 = UDS_NRC_PENDING"

fun uds_is_positive_for :: "u8 \<Rightarrow> bytes option \<Rightarrow> bool" where
  "uds_is_positive_for req_sid None = False"
| "uds_is_positive_for req_sid (Some r) = (length r \<ge> 1 \<and> r ! 0 = req_sid + UDS_POS_OFFSET)"

definition uds_response_matches :: "u8 \<Rightarrow> bytes option \<Rightarrow> bool" where
  "uds_response_matches req_sid resp \<longleftrightarrow>
     uds_is_positive_for req_sid resp \<or> (uds_is_negative resp \<and> the resp ! 1 = req_sid)"

definition uds_nrc_of :: "bytes option \<Rightarrow> u8" where
  "uds_nrc_of resp = (if uds_is_negative resp then the resp ! 2 else 0)"

text \<open>The table of \<open>uds_nrc_name\<close>.\<close>

definition nrc_names :: "(u8 \<times> string) list" where
  "nrc_names =
     [(0x10, ''generalReject''), (0x11, ''serviceNotSupported''), (0x12, ''subFunctionNotSupported''),
      (0x13, ''incorrectMessageLengthOrInvalidFormat''), (0x14, ''responseTooLong''),
      (0x21, ''busyRepeatRequest''), (0x22, ''conditionsNotCorrect''), (0x24, ''requestSequenceError''),
      (0x25, ''noResponseFromSubnetComponent''), (0x26, ''failurePreventsExecutionOfRequestedAction''),
      (0x31, ''requestOutOfRange''), (0x33, ''securityAccessDenied''), (0x35, ''invalidKey''),
      (0x36, ''exceedNumberOfAttempts''), (0x37, ''requiredTimeDelayNotExpired''),
      (0x70, ''uploadDownloadNotAccepted''), (0x71, ''transferDataSuspended''),
      (0x72, ''generalProgrammingFailure''), (0x73, ''wrongBlockSequenceCounter''),
      (0x78, ''requestCorrectlyReceived-ResponsePending''),
      (0x7E, ''subFunctionNotSupportedInActiveSession''), (0x7F, ''serviceNotSupportedInActiveSession''),
      (0x81, ''rpmTooHigh''), (0x82, ''rpmTooLow''), (0x83, ''engineIsRunning''), (0x84, ''engineIsNotRunning''),
      (0x85, ''engineRunTimeTooLow''), (0x86, ''temperatureTooHigh''), (0x87, ''temperatureTooLow''),
      (0x88, ''vehicleSpeedTooHigh''), (0x89, ''vehicleSpeedTooLow''), (0x8A, ''throttle/PedalTooHigh''),
      (0x8B, ''throttle/PedalTooLow''), (0x8C, ''transmissionRangeNotInNeutral''),
      (0x8D, ''transmissionRangeNotInGear''), (0x8F, ''brakeSwitch(es)NotClosed''),
      (0x90, ''shifterLeverNotInPark''), (0x91, ''torqueConverterClutchLocked''),
      (0x92, ''voltageTooHigh''), (0x93, ''voltageTooLow'')]"

definition uds_nrc_name :: "u8 \<Rightarrow> string" where
  "uds_nrc_name nrc = (case map_of nrc_names nrc of None \<Rightarrow> ''unknown'' | Some s \<Rightarrow> s)"

section \<open>Hexadecimal payloads\<close>

definition uds_separator :: "char \<Rightarrow> bool" where
  "uds_separator c \<longleftrightarrow> c \<in> {CHR '' '', CHR '':'', CHR ''-'', CHR 0x09, CHR 0x0D, CHR 0x0A, CHR '',''}"

text \<open>The loop of \<open>uds_hex_to_bytes\<close>: the bytes so far and the pending high nibble.\<close>

fun uds_hex_loop :: "nat \<Rightarrow> bytes \<Rightarrow> nat option \<Rightarrow> string \<Rightarrow> bytes option" where
  "uds_hex_loop cap out hi [] = (if hi \<noteq> None then None else Some out)"
| "uds_hex_loop cap out hi (c # cs) =
     (if uds_separator c then uds_hex_loop cap out hi cs
      else if hi = None \<and> c = CHR ''0'' \<and> cs \<noteq> [] \<and> (hd cs = CHR ''x'' \<or> hd cs = CHR ''X'')
      then uds_hex_loop cap out hi (tl cs)
      else (case hex_value c of
              None \<Rightarrow> None
            | Some v \<Rightarrow>
                (case hi of
                   None \<Rightarrow> uds_hex_loop cap out (Some v) cs
                 | Some h \<Rightarrow>
                     if length out \<ge> cap then None
                     else uds_hex_loop cap (out @ [of_nat (push_bit 4 h OR v)]) None cs)))"

definition uds_hex_to_bytes :: "string option \<Rightarrow> nat \<Rightarrow> bytes option" where
  "uds_hex_to_bytes str cap = (case str of None \<Rightarrow> None | Some s \<Rightarrow> uds_hex_loop cap [] None s)"

text \<open>The text left in \<open>out\<close>; the function returns its length.\<close>

fun uds_hex_join :: "bytes \<Rightarrow> string" where
  "uds_hex_join [] = []"
| "uds_hex_join (b # bs) =
     [hex_char (unat (drop_bit 4 b)), hex_char (unat (b AND 0x0F))] @
     (if bs \<noteq> [] then '' '' else []) @ uds_hex_join bs"

definition uds_bytes_to_hex :: "bytes option \<Rightarrow> nat \<Rightarrow> string" where
  "uds_bytes_to_hex bs cap =
     (if cap = 0 then []
      else case bs of
             None \<Rightarrow> []
           | Some b \<Rightarrow> if length b = 0 \<or> length b * 3 > cap then [] else uds_hex_join b)"

section \<open>Trouble codes\<close>

record uds_dtc =
  u_hi :: u8
  u_mid :: u8
  u_ftb :: u8
  u_status :: u8

record uds_wwh_dtc =
  w_severity :: u8
  w_dtc :: bytes
  w_status :: u8

definition uds_dtc_req_count :: "u8 \<Rightarrow> bytes" where
  "uds_dtc_req_count status_mask = [0x19, 0x01, status_mask]"

definition uds_dtc_req_by_status :: "u8 \<Rightarrow> bytes" where
  "uds_dtc_req_by_status status_mask = [0x19, 0x02, status_mask]"

definition uds_dtc_req_supported :: bytes where
  "uds_dtc_req_supported = [0x19, 0x0A]"

definition uds_dtc_req_clear :: "bytes option \<Rightarrow> bytes" where
  "uds_dtc_req_clear grp =
     (case grp of None \<Rightarrow> [0x14, 0xFF, 0xFF, 0xFF] | Some g \<Rightarrow> [0x14, g ! 0, g ! 1, g ! 2])"

text \<open>Mask of available status bits, and the count.\<close>

definition uds_dtc_parse_count :: "bytes option \<Rightarrow> (u8 \<times> u16) option" where
  "uds_dtc_parse_count resp =
     (case resp of
        None \<Rightarrow> None
      | Some r \<Rightarrow>
          if length r < 6 \<or> r ! 0 \<noteq> 0x59 \<or> r ! 1 \<noteq> 0x01 then None
          else Some (r ! 2, push_bit 8 (ucast (r ! 4)) OR ucast (r ! 5)))"

text \<open>The loop over the records: \<open>room\<close> is \<open>max - n\<close>.\<close>

fun dtc_records :: "bytes \<Rightarrow> nat \<Rightarrow> uds_dtc list" where
  "dtc_records (a # b # c # d # rest) (Suc room) =
     \<lparr>u_hi = a, u_mid = b, u_ftb = c, u_status = d\<rparr> # dtc_records rest room"
| "dtc_records _ _ = []"

text \<open>\<open>None\<close> is the result -1.\<close>

definition uds_dtc_parse_list :: "bytes option \<Rightarrow> nat \<Rightarrow> (u8 \<times> uds_dtc list) option" where
  "uds_dtc_parse_list resp max_n =
     (case resp of
        None \<Rightarrow> None
      | Some r \<Rightarrow>
          if length r < 3 \<or> r ! 0 \<noteq> 0x59 \<or> (r ! 1 \<noteq> 0x02 \<and> r ! 1 \<noteq> 0x0A) then None
          else Some (r ! 2, dtc_records (drop 3 r) max_n))"

definition uds_dtc_clear_ok :: "bytes option \<Rightarrow> bool" where
  "uds_dtc_clear_ok resp \<longleftrightarrow> (case resp of None \<Rightarrow> False | Some r \<Rightarrow> length r \<ge> 1 \<and> r ! 0 = 0x54)"

definition uds_dtc_format :: "u8 \<Rightarrow> u8 \<Rightarrow> u8 \<Rightarrow> string" where
  "uds_dtc_format hi mid ftb =
     [''PCBU'' ! unat (drop_bit 6 hi AND 0x3), hex_char (unat (drop_bit 4 hi AND 0x3)),
      hex_char (unat (hi AND 0x0F))] @ hex_fixed 2 (unat mid) @
     (if ftb \<noteq> 0 then ''-'' @ hex_fixed 2 (unat ftb) else [])"

definition uds_wwh_req_by_mask :: "u8 \<Rightarrow> u8 \<Rightarrow> u8 \<Rightarrow> bytes" where
  "uds_wwh_req_by_mask grp status_mask severity_mask = [0x19, 0x42, grp, status_mask, severity_mask]"

definition uds_wwh_req_permanent :: "u8 \<Rightarrow> bytes" where
  "uds_wwh_req_permanent grp = [0x19, 0x55, grp]"

definition uds_wwh_req_clear :: "u8 \<Rightarrow> bytes" where
  "uds_wwh_req_clear grp = [0x14, 0xFF, 0xFF, grp]"

text \<open>\<open>wwh_records\<close> on the bytes behind the header.\<close>

fun wwh_records :: "bool \<Rightarrow> bytes \<Rightarrow> nat \<Rightarrow> uds_wwh_dtc list" where
  "wwh_records with_severity r 0 = []"
| "wwh_records True (s # a # b # c # d # rest) (Suc room) =
     \<lparr>w_severity = s, w_dtc = [a, b, c], w_status = d\<rparr> # wwh_records True rest room"
| "wwh_records False (a # b # c # d # rest) (Suc room) =
     \<lparr>w_severity = 0, w_dtc = [a, b, c], w_status = d\<rparr> # wwh_records False rest room"
| "wwh_records _ _ _ = []"

text \<open>The format and the records.\<close>

definition uds_wwh_parse_by_mask :: "bytes option \<Rightarrow> u8 \<Rightarrow> nat \<Rightarrow> (u8 \<times> uds_wwh_dtc list) option" where
  "uds_wwh_parse_by_mask resp grp max_n =
     (case resp of
        None \<Rightarrow> None
      | Some r \<Rightarrow>
          if length r < 6 \<or> r ! 0 \<noteq> 0x59 \<or> r ! 1 \<noteq> 0x42 \<or> r ! 2 \<noteq> grp then None
          else Some (r ! 5, wwh_records True (drop 6 r) max_n))"

definition uds_wwh_parse_permanent :: "bytes option \<Rightarrow> u8 \<Rightarrow> nat \<Rightarrow> (u8 \<times> uds_wwh_dtc list) option" where
  "uds_wwh_parse_permanent resp grp max_n =
     (case resp of
        None \<Rightarrow> None
      | Some r \<Rightarrow>
          if length r < 5 \<or> r ! 0 \<noteq> 0x59 \<or> r ! 1 \<noteq> 0x55 \<or> r ! 2 \<noteq> grp then None
          else Some (r ! 4, wwh_records False (drop 5 r) max_n))"

text \<open>\<open>printf\<close> with \<open>%u\<close>.\<close>

fun dec_text :: "nat \<Rightarrow> string" where
  "dec_text n = (if n < 10 then [hex_char n] else dec_text (n div 10) @ [hex_char (n mod 10)])"

declare dec_text.simps [simp del]

definition uds_wwh_dtc_text :: "u8 \<Rightarrow> uds_wwh_dtc \<Rightarrow> string" where
  "uds_wwh_dtc_text format d =
     (let d0 = w_dtc d ! 0; d1 = w_dtc d ! 1; d2 = w_dtc d ! 2 in
      if format = 2 then
        let spn = ucast d0 OR push_bit 8 (ucast d1) OR push_bit 16 (ucast (drop_bit 5 d2)) :: u32
        in ''SPN'' @ dec_text (unat spn) @ ''-'' @ dec_text (unat (d2 AND 0x1F))
      else uds_dtc_format d0 d1 d2)"

definition dtc_letter :: "char \<Rightarrow> nat option" where
  "dtc_letter c =
     (if c = CHR ''P'' \<or> c = CHR ''p'' then Some 0 else if c = CHR ''C'' \<or> c = CHR ''c'' then Some 1
      else if c = CHR ''B'' \<or> c = CHR ''b'' then Some 2 else if c = CHR ''U'' \<or> c = CHR ''u'' then Some 3
      else None)"

definition uds_dtc_unformat :: "string option \<Rightarrow> (u8 \<times> u8 \<times> u8) option" where
  "uds_dtc_unformat code_opt =
     (case code_opt of
        None \<Rightarrow> None
      | Some code \<Rightarrow>
          if length code < 5 then None
          else (case dtc_letter (code ! 0) of
            None \<Rightarrow> None
          | Some letter \<Rightarrow>
              if code ! 1 \<notin> {CHR ''0'', CHR ''1'', CHR ''2'', CHR ''3''} \<or>
                 \<not> isxdigit (code ! 2) \<or> \<not> isxdigit (code ! 3) \<or> \<not> isxdigit (code ! 4) then None
              else
                let d1 = hex_num [code ! 1]; h2 = hex_num [code ! 2]; h3 = hex_num [code ! 3]; h4 = hex_num [code ! 4];
                    hi = of_nat (push_bit 6 letter OR push_bit 4 d1 OR h2) :: u8;
                    mid = of_nat (push_bit 4 h3 OR h4) :: u8;
                    rest = drop 5 code
                in if rest = [] then Some (hi, mid, 0)
                   else if rest ! 0 = CHR ''-'' then
                     (if length rest = 3 \<and> isxdigit (rest ! 1) \<and> isxdigit (rest ! 2)
                      then Some (hi, mid, of_nat (hex_num [rest ! 1, rest ! 2])) else None)
                   else None))"

section \<open>Payload text\<close>

lemma nibbles: "unat (drop_bit 4 (b :: u8)) = unat b div 16" "unat (b AND 0x0F) = unat b mod 16"
proof -
  have "x AND 15 = x mod 16" for x :: nat
    using take_bit_eq_mask [of 4 x] by (simp add: mask_eq_exp_minus_1 take_bit_eq_mod)
  then show "unat (b AND 0x0F) = unat b mod 16" by (simp add: unsigned_and_eq)
  show "unat (drop_bit 4 b) = unat b div 16"
    by (simp add: unat_drop_bit_eq drop_bit_eq_div [where 'a = nat])
qed

lemma or_add_nat:
  assumes "y < 2 ^ k"
  shows "push_bit k x OR y = x * 2 ^ k + (y :: nat)"
proof -
  have small: "i < k" if "bit y i" for i using assms that by (metis bit_take_bit_iff take_bit_nat_eq_self)
  have "push_bit k x AND y = 0" by (intro bit_eqI) (auto simp: bit_simps dest: small)
  from disjunctive_add_eq_or [OF this] show ?thesis by (simp add: push_bit_eq_mult)
qed

lemma of_nibbles: "of_nat (push_bit 4 (unat b div 16) OR unat b mod 16) = (b :: u8)"
  using or_add_nat [of "unat b mod 16" 4 "unat b div 16"] by simp

lemma hex_char_plain:
  assumes "n < 16"
  shows "\<not> uds_separator (hex_char n)" "hex_char n \<noteq> CHR ''x''" "hex_char n \<noteq> CHR ''X''"
proof -
  have "\<forall>n \<in> set [0..<16]. \<not> uds_separator (hex_char n) \<and> hex_char n \<noteq> CHR ''x'' \<and> hex_char n \<noteq> CHR ''X''"
    by code_simp
  with less_16_cases [OF assms]
  show "\<not> uds_separator (hex_char n)" "hex_char n \<noteq> CHR ''x''" "hex_char n \<noteq> CHR ''X''" by blast+
qed

lemma hex_loop_byte:
  assumes "length out < cap"
  shows "uds_hex_loop cap out None (hex_char (unat b div 16) # hex_char (unat b mod 16) # cs)
    = uds_hex_loop cap (out @ [b]) None cs"
proof -
  have "unat b div 16 < 16" "unat b mod 16 < 16" using unat_u8_less [of b] by auto
  with assms show ?thesis by (simp add: hex_char_plain of_nibbles)
qed

lemma hex_loop_join:
  "length out + length bs \<le> cap \<Longrightarrow> uds_hex_loop cap out None (uds_hex_join bs) = Some (out @ bs)"
proof (induction bs arbitrary: out)
  case Nil
  then show ?case by simp
next
  case (Cons b bs)
  have "uds_separator CHR '' ''" by (simp add: uds_separator_def)
  then have "uds_hex_loop cap (out @ [b]) None ((if bs \<noteq> [] then '' '' else []) @ uds_hex_join bs)
      = uds_hex_loop cap (out @ [b]) None (uds_hex_join bs)" by simp
  with Cons hex_loop_byte [of out cap b] show ?case by (simp add: nibbles)
qed

theorem uds_hex_round_trip:
  assumes "bs \<noteq> []" and "length bs * 3 \<le> cap" and "length bs \<le> cap'"
  shows "uds_hex_to_bytes (Some (uds_bytes_to_hex (Some bs) cap)) cap' = Some bs"
  using assms hex_loop_join [of "[]" bs cap']
  by (cases bs) (auto simp: uds_hex_to_bytes_def uds_bytes_to_hex_def)

lemma hex_loop_bounds:
  "uds_hex_loop cap out hi s = Some r \<Longrightarrow> length out \<le> cap \<Longrightarrow>
     length out \<le> length r \<and> length r \<le> cap \<and> 2 * length r \<le> 2 * length out + length s + (if hi = None then 0 else 1)"
proof (induction cap out hi s rule: uds_hex_loop.induct)
  case (1 cap out hi)
  then show ?case by (auto split: if_splits)
next
  case (2 cap out hi c cs)
  let ?prefix = "hi = None \<and> c = CHR ''0'' \<and> cs \<noteq> [] \<and> (hd cs = CHR ''x'' \<or> hd cs = CHR ''X'')"
  show ?case
  proof (cases "uds_separator c")
    case True
    with 2 show ?thesis by auto
  next
    case sep: False
    show ?thesis
    proof (cases ?prefix)
      case True
      with sep 2(2) 2(5,6) show ?thesis by (cases cs) auto
    next
      case False
      with sep 2(5) obtain v where v: "hex_value c = Some v" by (auto split: option.splits)
      show ?thesis
      proof (cases hi)
        case None
        with False sep v 2(3) [OF sep False v None] 2(5,6) show ?thesis by auto
      next
        case (Some h)
        with sep v 2(5) have room: "\<not> cap \<le> length out"
          "uds_hex_loop cap (out @ [of_nat (push_bit 4 h OR v)]) None cs = Some r"
          by (auto split: if_splits)
        from 2(4) [OF sep False v Some room(1) room(2)] room(1) Some show ?thesis by auto
      qed
    qed
  qed
qed

theorem uds_hex_bounds:
  "uds_hex_to_bytes str cap = Some r \<Longrightarrow> length r \<le> cap \<and> 2 * length r \<le> length (the str)"
  using hex_loop_bounds [of cap "[]" None] by (auto simp: uds_hex_to_bytes_def split: option.splits)

section \<open>Trouble code text\<close>

lemma dtc_fields:
  fixes hi :: u8
  defines "l \<equiv> unat (drop_bit 6 hi AND 0x3)" and "d \<equiv> unat (drop_bit 4 hi AND 0x3)" and "h \<equiv> unat (hi AND 0x0F)"
  shows "l < 4" "d < 4" "h < 16" "of_nat (push_bit 6 l OR push_bit 4 d OR h) = hi"
proof -
  have m: "x AND 3 = x mod 4" for x :: nat
    using take_bit_eq_mask [of 2 x] by (simp add: mask_eq_exp_minus_1 take_bit_eq_mod)
  have l: "l = unat hi div 64 mod 4" and d: "d = unat hi div 16 mod 4" and h: "h = unat hi mod 16"
    using m by (simp_all add: l_def d_def unsigned_and_eq unat_drop_bit_eq drop_bit_eq_div [where 'a = nat])
      (simp only: h_def nibbles)
  show "l < 4" "d < 4" "h < 16" by (simp_all add: l d h)
  have "push_bit 4 d OR h = d * 16 + h" using or_add_nat [of h 4 d] \<open>h < 16\<close> by simp
  moreover have "push_bit 6 l OR (d * 16 + h) = l * 64 + (d * 16 + h)"
    using or_add_nat [of "d * 16 + h" 6 l] \<open>d < 4\<close> \<open>h < 16\<close> by simp
  moreover have "l * 64 + (d * 16 + h) = unat hi"
  proof -
    have "unat hi mod 64 = 16 * (unat hi div 16 mod 4) + unat hi mod 16"
      using mod_mult2_eq [of "unat hi" 16 4] by simp
    moreover have "unat hi div 64 mod 4 = unat hi div 64" using unat_u8_less [of hi] by simp
    ultimately show ?thesis
      using div_mult_mod_eq [of "unat hi" 64] unfolding l d h by linarith
  qed
  ultimately show "of_nat (push_bit 6 l OR push_bit 4 d OR h) = hi" by simp
qed

lemma dtc_letter_char: "l < 4 \<Longrightarrow> dtc_letter (''PCBU'' ! l) = Some l"
proof -
  assume "l < 4"
  then have "l \<in> set [0..<4]" by simp
  moreover have "\<forall>l \<in> set [0..<4]. dtc_letter (''PCBU'' ! l) = Some l" by code_simp
  ultimately show ?thesis by blast
qed

lemma first_digit: "d < 4 \<Longrightarrow> hex_char d \<in> {CHR ''0'', CHR ''1'', CHR ''2'', CHR ''3''}"
proof -
  assume "d < 4"
  then have "d \<in> set [0..<4]" by simp
  moreover have "\<forall>d \<in> set [0..<4]. hex_char d \<in> {CHR ''0'', CHR ''1'', CHR ''2'', CHR ''3''}" by code_simp
  ultimately show ?thesis by blast
qed

lemma unformat_format:
  "uds_dtc_unformat (Some (uds_dtc_format hi mid ftb)) = Some (hi, mid, ftb)"
proof -
  note f = dtc_fields [of hi]
  have n: "unat mid div 16 < 16" "unat mid mod 16 < 16" "unat ftb div 16 < 16"
    using unat_u8_less [of mid] unat_u8_less [of ftb] by auto
  have one: "hex_num [hex_char n] = n" if "n < 16" for n using that by (simp add: hex_num_def)
  have d16: "unat (drop_bit 4 hi AND 0x3) < 16" using f(2) by simp
  show ?thesis
    unfolding uds_dtc_unformat_def uds_dtc_format_def Let_def hex2_simp
    using f n d16 first_digit [OF f(2)] hex_num_hex2 [of ftb] of_nibbles [of mid]
    by (simp add: dtc_letter_char one)
qed

interpretation dtc: codec "\<lambda>(hi, mid, ftb). uds_dtc_format hi mid ftb" "\<lambda>s. uds_dtc_unformat (Some s)" "\<lambda>_. True"
  by unfold_locales (auto simp: unformat_format)

theorem dtc_text_round_trip:
  "uds_dtc_unformat (Some (uds_dtc_format hi mid ftb)) = Some (hi, mid, ftb) \<and>
   (uds_dtc_format hi mid ftb = uds_dtc_format hi' mid' ftb' \<longleftrightarrow> hi = hi' \<and> mid = mid' \<and> ftb = ftb')"
  using unformat_format dtc.enc_inject [of "(hi, mid, ftb)" "(hi', mid', ftb')"] by simp

section \<open>Records\<close>

lemma dtc_records_spec:
  "length (dtc_records r room) = min room (length r div 4) \<and>
   (\<forall>i < length (dtc_records r room). dtc_records r room ! i =
      \<lparr>u_hi = r ! (4 * i), u_mid = r ! (4 * i + 1), u_ftb = r ! (4 * i + 2), u_status = r ! (4 * i + 3)\<rparr>)"
proof (induction r room rule: dtc_records.induct)
  case (1 a b c d rest room)
  have shift: "(a # b # c # d # rest) ! (4 * Suc j + k) = rest ! (4 * j + k)" for j k
  proof -
    have "4 * Suc j + k = Suc (Suc (Suc (Suc (4 * j + k))))" by simp
    then show ?thesis by (simp only: nth_Cons_Suc)
  qed
  show ?case
  proof (intro conjI allI impI)
    show "length (dtc_records (a # b # c # d # rest) (Suc room)) = min (Suc room) (length (a # b # c # d # rest) div 4)"
      using 1 by simp
    fix i
    assume i: "i < length (dtc_records (a # b # c # d # rest) (Suc room))"
    show "dtc_records (a # b # c # d # rest) (Suc room) ! i =
      \<lparr>u_hi = (a # b # c # d # rest) ! (4 * i), u_mid = (a # b # c # d # rest) ! (4 * i + 1),
       u_ftb = (a # b # c # d # rest) ! (4 * i + 2), u_status = (a # b # c # d # rest) ! (4 * i + 3)\<rparr>"
    proof (cases i)
      case 0
      then show ?thesis by (simp add: numeral_eq_Suc)
    next
      case (Suc j)
      with 1 i shift [of j 0] shift [of j 1] shift [of j 2] shift [of j 3] show ?thesis by simp
    qed
  qed
qed auto

theorem dtc_list_spec:
  assumes "uds_dtc_parse_list (Some r) max_n = Some (avail, ds)"
  shows "avail = r ! 2 \<and> length ds = min max_n ((length r - 3) div 4) \<and>
    (\<forall>i < length ds. 4 * i + 6 < length r \<and> ds ! i =
       \<lparr>u_hi = r ! (4 * i + 3), u_mid = r ! (4 * i + 4), u_ftb = r ! (4 * i + 5), u_status = r ! (4 * i + 6)\<rparr>)"
proof -
  have r: "3 \<le> length r" "avail = r ! 2" "ds = dtc_records (drop 3 r) max_n"
    using assms by (auto simp: uds_dtc_parse_list_def split: if_splits)
  have at: "drop 3 r ! k = r ! (k + 3)" for k using r(1) by (simp add: add.commute)
  have room: "4 * i + 6 < length r" if "i < (length r - 3) div 4" for i
    using that r(1) by linarith
  from dtc_records_spec [of "drop 3 r" max_n] r room show ?thesis by (auto simp: at add.commute)
qed

section \<open>Witnesses\<close>

lemma uds_hex_round_trip_witness:
  "uds_hex_to_bytes (Some (uds_bytes_to_hex (Some [0x22, 0xF1, 0x90]) 9)) 3 = Some [0x22, 0xF1, 0x90]"
  by (rule uds_hex_round_trip) simp_all

lemma uds_hex_bounds_witness: "length [0x3E, 0 :: u8] \<le> 4"
proof -
  have "uds_hex_to_bytes (Some ''0x3E 0x00'') 4 = Some [0x3E, 0]" by code_simp
  from uds_hex_bounds [OF this] show ?thesis by simp
qed

lemma dtc_list_spec_witness:
  "\<exists>ds. uds_dtc_parse_list (Some [0x59, 0x02, 0xFF, 0x01, 0x43, 0x11, 0x2F]) 8 = Some (0xFF, ds) \<and> length ds = 1"
proof -
  have p: "uds_dtc_parse_list (Some [0x59, 0x02, 0xFF, 0x01, 0x43, 0x11, 0x2F]) 8 =
      Some (0xFF, [\<lparr>u_hi = 0x01, u_mid = 0x43, u_ftb = 0x11, u_status = 0x2F\<rparr>])" by code_simp
  from dtc_list_spec [OF p] show ?thesis using p by simp
qed

end
