(* ===== verification/Sleep.thy ===== *)
theory Sleep
  imports Complex_Main Prelude
begin

text \<open>
  \<^verbatim>\<open>components/sleep_manager/sleep_manager_policy.c\<close>: the voltage ladder, the critical battery
  floor, the holds that push a countdown out and the word it is published in, and from
  \<^verbatim>\<open>sleep_manager.c\<close> the sections under \<^verbatim>\<open>s_lock\<close> that put them together: one pass of the state
  task, a hold and a log read. A voltage is the exact value of its \<open>float\<close>, which the code only
  compares; NaN is left out. Milliseconds are 32-bit words that wrap.
\<close>

text \<open>\<open>11.90f\<close>, and the \<open>float\<close> sum \<open>11.90f + 0.05f\<close>.\<close>

definition SM_CRITICAL_V :: rat where "SM_CRITICAL_V = 12478054 / 1048576"
definition SM_CRITICAL_RECOVER_V :: rat where "SM_CRITICAL_RECOVER_V = 12530483 / 1048576"

abbreviation (input) SM_CRITICAL_DELAY_MS :: u32 where "SM_CRITICAL_DELAY_MS \<equiv> 300000"
abbreviation (input) SM_WAKE_DELAY_MS :: int where "SM_WAKE_DELAY_MS \<equiv> 500"
abbreviation (input) SM_PENDING_MS_MASK :: u32 where "SM_PENDING_MS_MASK \<equiv> 0x3FFFFFFF"
abbreviation (input) SM_HOLD_MAX :: nat where "SM_HOLD_MAX \<equiv> 3"
abbreviation (input) SM_HOLD_MIN_MIN :: u32 where "SM_HOLD_MIN_MIN \<equiv> 1"
abbreviation (input) SM_HOLD_MAX_MIN :: u32 where "SM_HOLD_MAX_MIN \<equiv> 30"
abbreviation (input) SM_ACTIVITY_CAP_MS :: u32 where "SM_ACTIVITY_CAP_MS \<equiv> 600000"

section \<open>Settings\<close>

text \<open>\<open>volts_of\<close> is the conversion \<open>(float)mv / 1000.0f\<close>.\<close>

definition sm_resolve_thresholds :: "(int \<Rightarrow> rat) \<Rightarrow> int \<Rightarrow> int \<Rightarrow> rat \<times> rat \<times> bool" where
  "sm_resolve_thresholds volts_of sleep_mv wake_mv =
     (let min_wake_mv = sleep_mv + 100;
          (wake, clamped) = (if wake_mv < min_wake_mv then (min_wake_mv, True) else (wake_mv, False))
      in (volts_of sleep_mv, volts_of wake, clamped))"

definition sm_migrated_wake_delay_ms :: "u32 \<Rightarrow> bool \<Rightarrow> int" where
  "sm_migrated_wake_delay_ms from_version present =
     (if from_version < 4 \<and> \<not> present then SM_WAKE_DELAY_MS else 0)"

definition sm_migrated_wake_mv :: "int \<Rightarrow> int \<Rightarrow> int \<Rightarrow> int" where
  "sm_migrated_wake_mv sleep_mv lo hi =
     (let wake_mv = sleep_mv + 100 in
      if wake_mv < lo then lo else if wake_mv > hi then hi else wake_mv)"

section \<open>The critical floor\<close>

definition sm_reached :: "u32 \<Rightarrow> u32 \<Rightarrow> bool" where
  "sm_reached deadline now \<longleftrightarrow> sint (now - deadline) \<ge> 0"

record sm_critical =
  sc_armed :: bool
  sc_t_trip :: u32

definition sm_critical_init :: sm_critical where
  "sm_critical_init = \<lparr>sc_armed = False, sc_t_trip = 0\<rparr>"

definition sm_critical_eval :: "sm_critical \<Rightarrow> rat \<Rightarrow> u32 \<Rightarrow> sm_critical \<times> bool" where
  "sm_critical_eval c volts now_ms =
     (if volts \<ge> SM_CRITICAL_RECOVER_V then (c\<lparr>sc_armed := False\<rparr>, False)
      else if \<not> sc_armed c then
        (if volts < SM_CRITICAL_V
         then (c\<lparr>sc_armed := True, sc_t_trip := now_ms + SM_CRITICAL_DELAY_MS\<rparr>, False)
         else (c, False))
      else if sm_reached (sc_t_trip c) now_ms then (c\<lparr>sc_armed := False\<rparr>, True)
      else (c, False))"

definition sm_ms_left :: "u32 \<Rightarrow> u32 \<Rightarrow> u32" where
  "sm_ms_left deadline now = (let left = deadline - now in if sint left > 0 then left else 0)"

section \<open>The ladder\<close>

datatype sleep_manager_state =
    SLEEP_MANAGER_NORMAL | SLEEP_MANAGER_LOW_VOLTAGE | SLEEP_MANAGER_SLEEPING | SLEEP_MANAGER_WAKE_PENDING

datatype sm_action = SM_ACT_NONE | SM_ACT_ENTER_SLEEP | SM_ACT_WAKE_REBOOT | SM_ACT_PERIODIC_WAKE

record sm_cfg =
  sg_sleep_v :: rat
  sg_wake_v :: rat
  sg_wake_hold_ms :: u32
  sg_delay_ms :: u32
  sg_periodic :: bool
  sg_interval_ms :: u32

record sm_policy =
  sp_state :: sleep_manager_state
  sp_t_low :: u32
  sp_t_stable :: u32
  sp_t_periodic :: u32

definition sm_policy_init :: sm_policy where
  "sm_policy_init = \<lparr>sp_state = SLEEP_MANAGER_NORMAL, sp_t_low = 0, sp_t_stable = 0, sp_t_periodic = 0\<rparr>"

definition sm_policy_eval :: "sm_policy \<Rightarrow> sm_cfg \<Rightarrow> rat \<Rightarrow> u32 \<Rightarrow> sm_policy \<times> sm_action" where
  "sm_policy_eval p cfg volts now_ms =
     (case sp_state p of
        SLEEP_MANAGER_NORMAL \<Rightarrow>
          (if volts < sg_sleep_v cfg
           then (p\<lparr>sp_state := SLEEP_MANAGER_LOW_VOLTAGE, sp_t_low := now_ms + sg_delay_ms cfg\<rparr>, SM_ACT_NONE)
           else (p, SM_ACT_NONE))
      | SLEEP_MANAGER_LOW_VOLTAGE \<Rightarrow>
          (if volts \<ge> sg_wake_v cfg then (p\<lparr>sp_state := SLEEP_MANAGER_NORMAL\<rparr>, SM_ACT_NONE)
           else if sm_reached (sp_t_low p) now_ms
           then (p\<lparr>sp_state := SLEEP_MANAGER_SLEEPING, sp_t_periodic := now_ms + sg_interval_ms cfg\<rparr>, SM_ACT_ENTER_SLEEP)
           else (p, SM_ACT_NONE))
      | SLEEP_MANAGER_SLEEPING \<Rightarrow>
          (if volts \<ge> sg_wake_v cfg
           then (p\<lparr>sp_state := SLEEP_MANAGER_WAKE_PENDING, sp_t_stable := now_ms + sg_wake_hold_ms cfg\<rparr>, SM_ACT_NONE)
           else if sg_periodic cfg \<and> volts > SM_CRITICAL_V \<and> sm_reached (sp_t_periodic p) now_ms
           then (p, SM_ACT_PERIODIC_WAKE)
           else (p, SM_ACT_NONE))
      | SLEEP_MANAGER_WAKE_PENDING \<Rightarrow>
          (if volts < sg_wake_v cfg then (p\<lparr>sp_state := SLEEP_MANAGER_SLEEPING\<rparr>, SM_ACT_NONE)
           else if sm_reached (sp_t_stable p) now_ms then (p, SM_ACT_WAKE_REBOOT)
           else (p, SM_ACT_NONE)))"

definition sm_asleep :: "sm_policy \<Rightarrow> bool" where
  "sm_asleep p \<longleftrightarrow> sp_state p = SLEEP_MANAGER_SLEEPING \<or> sp_state p = SLEEP_MANAGER_WAKE_PENDING"

section \<open>The countdown and what pushes it out\<close>

datatype sleep_manager_pending =
    SLEEP_MANAGER_PENDING_NONE | SLEEP_MANAGER_PENDING_DELAY | SLEEP_MANAGER_PENDING_CRITICAL

text \<open>\<open>None\<close> leaves the caller's deadline as it is.\<close>

definition sm_pending_eval :: "sm_policy \<Rightarrow> bool \<Rightarrow> sm_critical \<Rightarrow> u32 \<Rightarrow> sleep_manager_pending \<times> u32 option" where
  "sm_pending_eval p ladder_on c now_ms =
     (if sm_asleep p then (SLEEP_MANAGER_PENDING_NONE, None)
      else
        let (cause, d) = (if ladder_on \<and> sp_state p = SLEEP_MANAGER_LOW_VOLTAGE
                          then (SLEEP_MANAGER_PENDING_DELAY, Some (sp_t_low p))
                          else (SLEEP_MANAGER_PENDING_NONE, None))
        in if sc_armed c \<and> (cause = SLEEP_MANAGER_PENDING_NONE \<or>
                            sm_ms_left (sc_t_trip c) now_ms \<le> sm_ms_left (sp_t_low p) now_ms)
           then (SLEEP_MANAGER_PENDING_CRITICAL, Some (sc_t_trip c)) else (cause, d))"

definition push_out :: "u32 \<Rightarrow> u32 \<Rightarrow> u32" where
  "push_out deadline until = (if sint (until - deadline) > 0 then until else deadline)"

definition sm_hold_apply :: "sm_policy \<Rightarrow> bool \<Rightarrow> sm_critical \<Rightarrow> u32 \<Rightarrow> u32 \<Rightarrow> sm_policy \<times> sm_critical \<times> bool" where
  "sm_hold_apply p ladder_on c now_ms hold_ms =
     (let until = now_ms + hold_ms in
      if sm_asleep p then (p, c, False)
      else
        let ladder = ladder_on \<and> sp_state p = SLEEP_MANAGER_LOW_VOLTAGE in
        (if ladder then p\<lparr>sp_t_low := push_out (sp_t_low p) until\<rparr> else p,
         if sc_armed c then c\<lparr>sc_t_trip := push_out (sc_t_trip c) until\<rparr> else c,
         ladder \<or> sc_armed c))"

record sm_activity =
  sa_active :: bool
  sa_cap_until :: u32
  sa_until :: u32

definition sm_activity_init :: sm_activity where
  "sm_activity_init = \<lparr>sa_active = False, sa_cap_until = 0, sa_until = 0\<rparr>"

definition sm_activity_apply :: "sm_policy \<Rightarrow> bool \<Rightarrow> sm_critical \<Rightarrow> sm_activity \<Rightarrow> u32 \<Rightarrow> u32 \<Rightarrow> u32
    \<Rightarrow> sm_policy \<times> sm_critical \<times> sm_activity \<times> bool" where
  "sm_activity_apply p ladder_on c a now_ms hold_ms cap_ms =
     (let ladder = ladder_on \<and> sp_state p = SLEEP_MANAGER_LOW_VOLTAGE in
      if sm_asleep p \<or> (\<not> ladder \<and> \<not> sc_armed c) then (p, c, a\<lparr>sa_active := False\<rparr>, False)
      else
        let a1 = (if \<not> sa_active a then a\<lparr>sa_active := True, sa_cap_until := now_ms + cap_ms\<rparr> else a);
            until0 = now_ms + hold_ms;
            until = (if sint (until0 - sa_cap_until a1) > 0 then sa_cap_until a1 else until0)
        in (if ladder then p\<lparr>sp_t_low := push_out (sp_t_low p) until\<rparr> else p,
            if sc_armed c then c\<lparr>sc_t_trip := push_out (sc_t_trip c) until\<rparr> else c,
            a1\<lparr>sa_until := until\<rparr>, True))"

text \<open>The enumeration's numbers.\<close>

fun pending_code :: "sleep_manager_pending \<Rightarrow> u32" where
  "pending_code SLEEP_MANAGER_PENDING_NONE = 0"
| "pending_code SLEEP_MANAGER_PENDING_DELAY = 1"
| "pending_code SLEEP_MANAGER_PENDING_CRITICAL = 2"

definition sm_pending_pack :: "sleep_manager_pending \<Rightarrow> u32 \<Rightarrow> u32" where
  "sm_pending_pack cause deadline_ms = push_bit 30 (pending_code cause) OR (deadline_ms AND SM_PENDING_MS_MASK)"

text \<open>The cause comes back as its number.\<close>

definition sm_pending_unpack :: "u32 \<Rightarrow> u32 \<Rightarrow> u32 \<times> u32" where
  "sm_pending_unpack word now_ms =
     (let cause = drop_bit 30 word;
          left = (word - now_ms) AND SM_PENDING_MS_MASK;
          left = (if cause = pending_code SLEEP_MANAGER_PENDING_NONE \<or> left > SM_PENDING_MS_MASK div 2 then 0 else left)
      in (cause, (left + 999) div 1000))"

section \<open>The task and its requests\<close>

text \<open>What \<^verbatim>\<open>sleep_manager.c\<close> keeps under the lock: the policy, the floor, the activity, the
  published word, the hold and whether the ladder runs.\<close>

record sleep_manager =
  sl_policy :: sm_policy
  sl_crit :: sm_critical
  sl_activity :: sm_activity
  sl_pending :: u32
  sl_hold_active :: bool
  sl_hold_until :: u32
  sl_holds_used :: nat
  sl_run :: bool

definition publish_pending :: "sleep_manager \<Rightarrow> u32 \<Rightarrow> sleep_manager" where
  "publish_pending s now =
     (let (cause, d) = sm_pending_eval (sl_policy s) (sl_run s) (sl_crit s) now;
          deadline = (case d of None \<Rightarrow> now | Some x \<Rightarrow> x);
          s1 = s\<lparr>sl_pending := sm_pending_pack cause deadline\<rparr>;
          s2 = (if sl_hold_active s1 \<and> (cause = SLEEP_MANAGER_PENDING_NONE \<or> sint (now - sl_hold_until s1) \<ge> 0)
                then s1\<lparr>sl_hold_active := False\<rparr> else s1)
      in if cause = SLEEP_MANAGER_PENDING_NONE
         then s2\<lparr>sl_activity := (sl_activity s2)\<lparr>sa_active := False\<rparr>\<rparr> else s2)"

text \<open>One pass of the task: the voltage when it could be read, whether the boot loop guard trips,
  the time. The result is the action the task carries out; \<open>SM_ACT_ENTER_SLEEP\<close> stands for the
  entry sequence of all three ways into sleep.\<close>

definition sm_force_sleep :: "sleep_manager \<Rightarrow> sm_cfg \<Rightarrow> u32 \<Rightarrow> sleep_manager" where
  "sm_force_sleep s cfg now =
     s\<lparr>sl_policy := (sl_policy s)\<lparr>sp_state := SLEEP_MANAGER_SLEEPING, sp_t_periodic := now + sg_interval_ms cfg\<rparr>,
       sl_hold_active := False, sl_activity := (sl_activity s)\<lparr>sa_active := False\<rparr>\<rparr>"

definition sm_pass :: "sleep_manager \<Rightarrow> sm_cfg \<Rightarrow> rat option \<Rightarrow> bool \<Rightarrow> u32 \<Rightarrow> sleep_manager \<times> sm_action list" where
  "sm_pass s cfg volts guard now =
     (let in_sleep_states = sm_asleep (sl_policy s);
          (s1, acts) = (if volts \<noteq> None \<and> guard
                        then ((sm_force_sleep s cfg now)\<lparr>sl_run := True\<rparr>, [SM_ACT_ENTER_SLEEP]) else (s, []))
      in case volts of
           None \<Rightarrow> (publish_pending s1 now, acts)
         | Some v \<Rightarrow>
             let (c, trip) = (if in_sleep_states then (sl_crit s1, False) else sm_critical_eval (sl_crit s1) v now);
                 s2 = s1\<lparr>sl_crit := c\<rparr>
             in if trip
                then ((sm_force_sleep (s2\<lparr>sl_pending := sm_pending_pack SLEEP_MANAGER_PENDING_CRITICAL now\<rparr>) cfg now)
                        \<lparr>sl_run := True\<rparr>, acts @ [SM_ACT_ENTER_SLEEP])
                else
                  let s3 = publish_pending s2 now in
                  if sl_run s3 then
                    let (p, act) = sm_policy_eval (sl_policy s3) cfg v now
                    in (publish_pending (s3\<lparr>sl_policy := p\<rparr>) now, acts @ [act])
                  else (s3, acts))"

datatype esp_err = ESP_OK | ESP_ERR_INVALID_ARG | ESP_ERR_INVALID_STATE | ESP_ERR_NOT_ALLOWED

text \<open>The task has been started before either request, whose test for it is left out.\<close>

definition sleep_manager_activity :: "sleep_manager \<Rightarrow> u32 \<Rightarrow> u32 \<Rightarrow> sleep_manager \<times> esp_err" where
  "sleep_manager_activity s seconds now =
     (if seconds < 1 \<or> seconds > 600 then (s, ESP_ERR_INVALID_ARG)
      else
        let (p, c, a, counting) = sm_activity_apply (sl_policy s) (sl_run s) (sl_crit s) (sl_activity s) now
              (seconds * 1000) SM_ACTIVITY_CAP_MS;
            s1 = s\<lparr>sl_policy := p, sl_crit := c, sl_activity := a\<rparr>
        in if counting then (publish_pending s1 now, ESP_OK) else (s1, ESP_ERR_INVALID_STATE))"

definition sleep_manager_hold :: "sleep_manager \<Rightarrow> u32 \<Rightarrow> u32 \<Rightarrow> sleep_manager \<times> esp_err" where
  "sleep_manager_hold s minutes now =
     (if minutes < SM_HOLD_MIN_MIN \<or> minutes > SM_HOLD_MAX_MIN then (s, ESP_ERR_INVALID_ARG)
      else if sl_holds_used s \<ge> SM_HOLD_MAX then (s, ESP_ERR_NOT_ALLOWED)
      else
        let (p, c, counting) = sm_hold_apply (sl_policy s) (sl_run s) (sl_crit s) now (minutes * 60000);
            s1 = s\<lparr>sl_policy := p, sl_crit := c\<rparr>
        in if \<not> counting then (s1, ESP_ERR_INVALID_STATE)
           else (publish_pending (s1\<lparr>sl_holds_used := sl_holds_used s1 + 1, sl_hold_active := True,
                                     sl_hold_until := now + minutes * 60000\<rparr>) now, ESP_OK))"

section \<open>A flat battery puts the device to sleep\<close>

text \<open>Events on a time line of milliseconds that does not wrap: a pass with a reading, and whether
  the boot loop guard trips; a log read for some seconds; a hold of some minutes.\<close>

datatype sleep_event = Sm_Pass rat bool nat | Sm_Read u32 nat | Sm_Hold u32 nat

fun sleep_step :: "sm_cfg \<Rightarrow> sleep_event \<Rightarrow> sleep_manager \<Rightarrow> sleep_manager" where
  "sleep_step cfg (Sm_Pass v g t) s = fst (sm_pass s cfg (Some v) g (of_nat t))"
| "sleep_step cfg (Sm_Read sec t) s = fst (sleep_manager_activity s sec (of_nat t))"
| "sleep_step cfg (Sm_Hold m t) s = fst (sleep_manager_hold s m (of_nat t))"

text \<open>The readings are under the floor and no two passes are more than \<open>P\<close> apart; \<open>q\<close> is the time
  of the last pass and \<open>t\<close> of the last event.\<close>

fun flat_events :: "nat \<Rightarrow> nat \<Rightarrow> nat \<Rightarrow> sleep_event list \<Rightarrow> bool" where
  "flat_events P q t [] \<longleftrightarrow> True"
| "flat_events P q t (Sm_Pass v g u # es) \<longleftrightarrow> t \<le> u \<and> u \<le> q + P \<and> v < SM_CRITICAL_V \<and> flat_events P u u es"
| "flat_events P q t (Sm_Read _ u # es) \<longleftrightarrow> t \<le> u \<and> u \<le> q + P \<and> flat_events P q u es"
| "flat_events P q t (Sm_Hold _ u # es) \<longleftrightarrow> t \<le> u \<and> u \<le> q + P \<and> flat_events P q u es"

fun last_pass :: "nat \<Rightarrow> sleep_event list \<Rightarrow> nat" where
  "last_pass q [] = q"
| "last_pass q (Sm_Pass _ _ u # es) = last_pass u es"
| "last_pass q (_ # es) = last_pass q es"

text \<open>The latest deadline of a countdown that started at \<open>T\<close>, with the holds used and when the log
  is being read.\<close>

definition flat_bound :: "nat \<Rightarrow> nat \<Rightarrow> nat \<Rightarrow> bool \<Rightarrow> nat" where
  "flat_bound T P h reads = T + 300000 + h * (1800000 + P) + (if reads then 600000 + P else 0)"

definition flat_inv :: "nat \<Rightarrow> nat \<Rightarrow> nat \<Rightarrow> sleep_manager \<Rightarrow> bool" where
  "flat_inv T P q s \<longleftrightarrow> sl_holds_used s \<le> 3 \<and> T \<le> q \<and> sc_armed (sl_crit s) \<and>
     (\<exists>d. sc_t_trip (sl_crit s) = of_nat d \<and> q < d \<and>
        d \<le> flat_bound T P (sl_holds_used s) (sa_active (sl_activity s))) \<and>
     (sa_active (sl_activity s) \<longrightarrow>
        (\<exists>c. sa_cap_until (sl_activity s) = of_nat c \<and> T \<le> c \<and> c \<le> flat_bound T P (sl_holds_used s) True))"

lemma flat_bound_le: "h \<le> 3 \<Longrightarrow> flat_bound T P h b \<le> flat_bound T P 3 True"
  using mult_le_mono1 [of h 3 "1800000 + P"] by (auto simp: flat_bound_def)

lemma flat_bound_True: "flat_bound T P h b \<le> flat_bound T P h True"
  by (simp add: flat_bound_def)

lemma reached_clock:
  assumes "d \<le> u + 2147483648" "u < d + 2147483648"
  shows "sm_reached (of_nat d) (of_nat u) \<longleftrightarrow> d \<le> u"
  using sint_clock [of u d] assms by (simp add: sm_reached_def)

lemma push_out_clock:
  assumes "d \<le> u + 2147483648" "u < d + 2147483648"
  shows "push_out (of_nat d) (of_nat u) = of_nat (max d u)"
  using sint_clock [of u d] assms by (simp add: push_out_def max_def)

lemma publish_simps [simp]:
  "sl_policy (publish_pending s now) = sl_policy s" "sl_crit (publish_pending s now) = sl_crit s"
  "sl_holds_used (publish_pending s now) = sl_holds_used s" "sl_run (publish_pending s now) = sl_run s"
  by (simp_all add: publish_pending_def Let_def split: prod.splits option.splits)

lemma publish_activity:
  assumes "sc_armed (sl_crit s)" "\<not> sm_asleep (sl_policy s)"
  shows "sl_activity (publish_pending s now) = sl_activity s"
  using assms by (auto simp: publish_pending_def sm_pending_eval_def Let_def split: prod.splits if_splits)

lemma asleep_low [simp]: "sm_asleep (p\<lparr>sp_t_low := x\<rparr>) = sm_asleep p"
  by (simp add: sm_asleep_def)

lemma flat_small:
  assumes "P \<le> 60000" "h \<le> 3"
  shows "flat_bound T P h b \<le> T + 7000000"
proof -
  have "flat_bound T P h b \<le> flat_bound T P 3 True" by (rule flat_bound_le [OF assms(2)])
  also have "\<dots> \<le> T + 7000000" using assms(1) by (simp add: flat_bound_def)
  finally show ?thesis .
qed

lemma flat_hold:
  assumes inv: "flat_inv T P q s" and aw: "\<not> sm_asleep (sl_policy s)" and P: "P \<le> 60000" and u: "q \<le> u" "u \<le> q + P"
  shows "flat_inv T P q (sleep_step cfg (Sm_Hold m u) s) \<and>
    sp_state (sl_policy (sleep_step cfg (Sm_Hold m u) s)) = sp_state (sl_policy s)"
proof (cases "m < 1 \<or> m > 30 \<or> sl_holds_used s \<ge> 3")
  case True
  with inv show ?thesis by (auto simp: sleep_manager_hold_def)
next
  case False
  obtain d where d: "sc_t_trip (sl_crit s) = of_nat d" "q < d"
    "d \<le> flat_bound T P (sl_holds_used s) (sa_active (sl_activity s))" and arm: "sc_armed (sl_crit s)"
    using inv by (auto simp: flat_inv_def)
  have T: "T \<le> q" using inv by (simp add: flat_inv_def)
  have m30: "unat m \<le> 30" using False by (simp add: word_le_nat_alt not_less)
  define n where "n = unat m * 60000"
  have n: "n \<le> 1800000" using m30 by (simp add: n_def)
  have hold: "of_nat u + m * 60000 = (of_nat (u + n) :: u32)" by (simp add: n_def)
  let ?n = "u + n" and ?s = "sleep_step cfg (Sm_Hold m u) s"
  have "d \<le> T + 7000000" using d(3) flat_small [OF P] False order_trans by (metis less_imp_le_nat not_le)
  then have push: "push_out (of_nat d) (of_nat ?n) = of_nat (max d ?n)"
    using T u P n d(2) by (intro push_out_clock) simp_all
  have ap: "sm_hold_apply (sl_policy s) (sl_run s) (sl_crit s) (of_nat u) (m * 60000) =
     (if sl_run s \<and> sp_state (sl_policy s) = SLEEP_MANAGER_LOW_VOLTAGE
        then (sl_policy s)\<lparr>sp_t_low := push_out (sp_t_low (sl_policy s)) (of_nat ?n)\<rparr> else sl_policy s,
      (sl_crit s)\<lparr>sc_t_trip := of_nat (max d ?n)\<rparr>, True)"
    unfolding sm_hold_apply_def Let_def hold d(1) push using aw arm by simp
  have crit: "sl_crit ?s = (sl_crit s)\<lparr>sc_t_trip := of_nat (max d ?n)\<rparr>"
    and used: "sl_holds_used ?s = Suc (sl_holds_used s)" and pol: "sp_state (sl_policy ?s) = sp_state (sl_policy s)"
    using False ap by (simp_all add: sleep_manager_hold_def)
  have act: "sl_activity ?s = sl_activity s"
    using False aw arm by (simp add: sleep_manager_hold_def ap publish_activity)
  have "?n \<le> d + P + 1800000" using u d(2) n by simp
  then have "max d ?n \<le> flat_bound T P (Suc (sl_holds_used s)) (sa_active (sl_activity s))"
    using d(3) by (auto simp: flat_bound_def)
  moreover have "flat_bound T P (sl_holds_used s) True \<le> flat_bound T P (Suc (sl_holds_used s)) True"
    by (simp add: flat_bound_def)
  ultimately have "\<exists>d'. (of_nat (max d ?n) :: u32) = of_nat d' \<and> q < d' \<and>
      d' \<le> flat_bound T P (Suc (sl_holds_used s)) (sa_active (sl_activity s))"
    and "sa_active (sl_activity s) \<longrightarrow> (\<exists>c. sa_cap_until (sl_activity s) = of_nat c \<and> T \<le> c \<and>
      c \<le> flat_bound T P (Suc (sl_holds_used s)) True)"
    using d(2) inv unfolding flat_inv_def by (auto intro: order_trans)
  then show ?thesis
    using False T arm unfolding flat_inv_def crit used act pol by simp
qed

lemma flat_read:
  assumes inv: "flat_inv T P q s" and aw: "\<not> sm_asleep (sl_policy s)" and P: "P \<le> 60000" and u: "q \<le> u" "u \<le> q + P"
  shows "flat_inv T P q (sleep_step cfg (Sm_Read sec u) s) \<and>
    sp_state (sl_policy (sleep_step cfg (Sm_Read sec u) s)) = sp_state (sl_policy s)"
proof (cases "sec < 1 \<or> sec > 600")
  case True
  with inv show ?thesis by (auto simp: sleep_manager_activity_def)
next
  case False
  let ?h = "sl_holds_used s" and ?a = "sl_activity s" and ?s = "sleep_step cfg (Sm_Read sec u) s"
  obtain d where d: "sc_t_trip (sl_crit s) = of_nat d" "q < d" "d \<le> flat_bound T P ?h (sa_active ?a)"
    and arm: "sc_armed (sl_crit s)" and h: "?h \<le> 3" and T: "T \<le> q"
    using inv by (auto simp: flat_inv_def)
  define c where "c = (if sa_active ?a then (SOME c. sa_cap_until ?a = of_nat c \<and> T \<le> c \<and> c \<le> flat_bound T P ?h True)
      else u + 600000)"
  have c: "(if sa_active ?a then sa_cap_until ?a else of_nat u + 600000) = of_nat c" "T \<le> c" "c \<le> flat_bound T P ?h True"
  proof -
    have "sa_cap_until ?a = of_nat c \<and> T \<le> c \<and> c \<le> flat_bound T P ?h True" if "sa_active ?a"
      using inv that unfolding flat_inv_def c_def by (auto intro: someI2_ex)
    moreover have "u + 600000 \<le> flat_bound T P ?h True" if "\<not> sa_active ?a"
      using d u that by (simp add: flat_bound_def)
    ultimately show "(if sa_active ?a then sa_cap_until ?a else of_nat u + 600000) = of_nat c" "T \<le> c"
      "c \<le> flat_bound T P ?h True"
      using T u by (auto simp: c_def)
  qed
  have s600: "unat sec \<le> 600" using False by (simp add: word_le_nat_alt not_less)
  define n where "n = unat sec * 1000"
  have n: "n \<le> 600000" using s600 by (simp add: n_def)
  have hold: "of_nat u + sec * 1000 = (of_nat (u + n) :: u32)" by (simp add: n_def)
  let ?n = "u + n" and ?m = "min c (u + n)"
  have small: "d \<le> T + 7000000" "c \<le> T + 7000000"
    using d(3) c(3) flat_small [OF P h] order_trans by blast+
  have "sint (of_nat ?n - of_nat c :: u32) = int ?n - int c"
    using small u P n T c(2) d(2) by (intro sint_clock) linarith+
  then have until: "(if sint (of_nat ?n - of_nat c :: u32) > 0 then of_nat c else of_nat ?n) = (of_nat ?m :: u32)"
    by (cases "c < ?n") (simp_all add: min_absorb1 min_absorb2)
  have push: "push_out (of_nat d) (of_nat ?m) = of_nat (max d ?m)"
    using small u P n T c(2) d(2) by (intro push_out_clock) (auto simp: min_def)
  let ?a1 = "?a\<lparr>sa_active := True, sa_cap_until := of_nat c\<rparr>"
  have a1: "(if \<not> sa_active ?a then ?a\<lparr>sa_active := True, sa_cap_until := of_nat u + 600000\<rparr> else ?a) = ?a1"
    using c(1) by (cases "sa_active ?a") simp_all
  have cap: "sa_cap_until ?a1 = of_nat c" by simp
  have ap: "sm_activity_apply (sl_policy s) (sl_run s) (sl_crit s) ?a (of_nat u) (sec * 1000) 600000 =
     (if sl_run s \<and> sp_state (sl_policy s) = SLEEP_MANAGER_LOW_VOLTAGE
        then (sl_policy s)\<lparr>sp_t_low := push_out (sp_t_low (sl_policy s)) (of_nat ?m)\<rparr> else sl_policy s,
      (sl_crit s)\<lparr>sc_t_trip := of_nat (max d ?m)\<rparr>, ?a1\<lparr>sa_until := of_nat ?m\<rparr>, True)"
    unfolding sm_activity_apply_def Let_def a1 hold cap until d(1) push
    using aw arm by simp
  have crit: "sl_crit ?s = (sl_crit s)\<lparr>sc_t_trip := of_nat (max d ?m)\<rparr>" and used: "sl_holds_used ?s = ?h"
    and pol: "sp_state (sl_policy ?s) = sp_state (sl_policy s)"
    using False ap by (simp_all add: sleep_manager_activity_def)
  have act: "sl_activity ?s = ?a1\<lparr>sa_until := of_nat ?m\<rparr>"
    using False aw arm by (simp add: sleep_manager_activity_def ap publish_activity)
  have "max d ?m \<le> flat_bound T P ?h True" using d(3) c(3) flat_bound_True [of T P ?h "sa_active ?a"] by auto
  with d(2) have "\<exists>d'. (of_nat (max d ?m) :: u32) = of_nat d' \<and> q < d' \<and> d' \<le> flat_bound T P ?h True" by auto
  with c T arm h show ?thesis
    unfolding flat_inv_def crit used act pol by auto
qed

lemma critical_below: "v < SM_CRITICAL_V \<Longrightarrow> \<not> SM_CRITICAL_RECOVER_V \<le> v"
  by (simp add: SM_CRITICAL_V_def SM_CRITICAL_RECOVER_V_def)

lemma eval_asleep: "sm_asleep p \<Longrightarrow> sm_asleep (fst (sm_policy_eval p cfg v now))"
  by (auto simp: sm_asleep_def sm_policy_eval_def)

lemma publish_inactive: "\<not> sa_active (sl_activity s) \<Longrightarrow> \<not> sa_active (sl_activity (publish_pending s now))"
  by (auto simp: publish_pending_def Let_def split: prod.splits option.splits)

lemma pass_guard: "sm_asleep (sl_policy (fst (sm_pass s cfg (Some v) True now)))"
proof -
  let ?s = "(sm_force_sleep s cfg now)\<lparr>sl_run := True\<rparr>"
  have a: "sm_asleep (sl_policy ?s)" "sm_asleep (sl_policy (sm_force_sleep x cfg now))" for x
    by (simp_all add: sm_force_sleep_def sm_asleep_def)
  obtain c trip where ce: "(if sm_asleep (sl_policy s) then (sl_crit ?s, False)
      else sm_critical_eval (sl_crit ?s) v now) = (c, trip)" by fastforce
  obtain p act where p: "sm_policy_eval (sl_policy ?s) cfg v now = (p, act)" by fastforce
  with eval_asleep [OF a(1), of cfg v now] have "sm_asleep p" by simp
  with a ce p show ?thesis by (cases trip) (simp_all add: sm_pass_def Let_def)
qed

lemma pass_awake:
  fixes cfg :: sm_cfg
  assumes "\<not> sm_asleep (sl_policy s)" and "sm_critical_eval (sl_crit s) v now = (c, trip)"
  defines "s' \<equiv> fst (sm_pass s cfg (Some v) False now)"
  shows "sm_asleep (sl_policy s') \<or> (\<not> trip \<and> sl_crit s' = c \<and> sl_holds_used s' = sl_holds_used s \<and>
    (sc_armed c \<longrightarrow> sl_activity s' = sl_activity s) \<and>
    (\<not> sa_active (sl_activity s) \<longrightarrow> \<not> sa_active (sl_activity s')))"
proof (cases trip)
  case True
  then show ?thesis using assms by (simp add: sm_pass_def sm_force_sleep_def sm_asleep_def)
next
  case False
  let ?s3 = "publish_pending (s\<lparr>sl_crit := c\<rparr>) now"
  show ?thesis
  proof (cases "sl_run s")
    case False
    with assms \<open>\<not> trip\<close> publish_inactive [of "s\<lparr>sl_crit := c\<rparr>" now] show ?thesis
      by (simp add: sm_pass_def publish_activity)
  next
    case True
    obtain p act where p: "sm_policy_eval (sl_policy s) cfg v now = (p, act)" by fastforce
    have s': "s' = publish_pending (?s3\<lparr>sl_policy := p\<rparr>) now"
      using assms True False p by (simp add: sm_pass_def)
    show ?thesis
    proof (cases "sm_asleep p")
      case True
      then show ?thesis by (simp add: s')
    next
      case awake: False
      have "sl_activity s' = sl_activity s" if "sc_armed c"
        using that awake assms(1) by (simp add: s' publish_activity)
      moreover have "\<not> sa_active (sl_activity s')" if "\<not> sa_active (sl_activity s)"
        unfolding s' using that by (intro publish_inactive) (simp add: publish_inactive)
      ultimately show ?thesis using False by (simp add: s')
    qed
  qed
qed

lemma flat_pass:
  assumes inv: "flat_inv T P q s" and aw: "\<not> sm_asleep (sl_policy s)" and P: "P \<le> 60000"
    and u: "q \<le> u" "u \<le> q + P" and v: "v < SM_CRITICAL_V"
  shows "sm_asleep (sl_policy (sleep_step cfg (Sm_Pass v g u) s)) \<or> flat_inv T P u (sleep_step cfg (Sm_Pass v g u) s)"
proof (cases g)
  case True
  then show ?thesis by (simp add: pass_guard)
next
  case g: False
  let ?h = "sl_holds_used s" and ?b = "sa_active (sl_activity s)"
  obtain d where d: "sc_t_trip (sl_crit s) = of_nat d" "q < d" "d \<le> flat_bound T P ?h ?b"
    and arm: "sc_armed (sl_crit s)" and h: "?h \<le> 3" and T: "T \<le> q"
    using inv by (auto simp: flat_inv_def)
  have "d \<le> T + 7000000" using d(3) flat_small [OF P h] order_trans by blast
  then have reached: "sm_reached (of_nat d) (of_nat u) \<longleftrightarrow> d \<le> u"
    using T u P d(2) by (intro reached_clock) simp_all
  show ?thesis
  proof (cases "d \<le> u")
    case True
    then obtain c where "sm_critical_eval (sl_crit s) v (of_nat u) = (c, True)"
      using d(1) arm reached critical_below [OF v] by (simp add: sm_critical_eval_def)
    from pass_awake [OF aw this, of cfg] g show ?thesis by simp
  next
    case False
    then have "sm_critical_eval (sl_crit s) v (of_nat u) = (sl_crit s, False)"
      using d(1) arm reached critical_below [OF v] by (simp add: sm_critical_eval_def)
    from pass_awake [OF aw this, of cfg] g arm have
      "sm_asleep (sl_policy (sleep_step cfg (Sm_Pass v g u) s)) \<or>
       (sl_crit (sleep_step cfg (Sm_Pass v g u) s) = sl_crit s \<and>
        sl_holds_used (sleep_step cfg (Sm_Pass v g u) s) = ?h \<and>
        sl_activity (sleep_step cfg (Sm_Pass v g u) s) = sl_activity s)" by auto
    moreover have "\<exists>d. sc_t_trip (sl_crit s) = of_nat d \<and> u < d \<and> d \<le> flat_bound T P ?h ?b"
      using d False by auto
    ultimately show ?thesis using inv u(1) unfolding flat_inv_def by auto
  qed
qed

lemma flat_start:
  assumes "\<not> sm_asleep (sl_policy s)" "\<not> sc_armed (sl_crit s)" "\<not> sa_active (sl_activity s)" "sl_holds_used s \<le> 3"
    and v: "v < SM_CRITICAL_V"
  shows "sm_asleep (sl_policy (sleep_step cfg (Sm_Pass v g T) s)) \<or> flat_inv T P T (sleep_step cfg (Sm_Pass v g T) s)"
proof (cases g)
  case True
  then show ?thesis by (simp add: pass_guard)
next
  case g: False
  let ?c = "\<lparr>sc_armed = True, sc_t_trip = of_nat T + 300000\<rparr>"
  have "sm_critical_eval (sl_crit s) v (of_nat T) = ((sl_crit s)\<lparr>sc_armed := True, sc_t_trip := of_nat T + 300000\<rparr>, False)"
    using assms critical_below [OF v] by (simp add: sm_critical_eval_def)
  from pass_awake [OF assms(1) this, of cfg] g assms(3,4) show ?thesis
    by (auto simp: flat_inv_def flat_bound_def intro!: exI [of _ "T + 300000"])
qed

lemma flat_run:
  assumes "flat_inv T P q s" "P \<le> 60000" "flat_events P q t es" "q \<le> t" "flat_bound T P 3 True \<le> last_pass q es"
  shows "\<exists>n \<le> length es. sm_asleep (sl_policy (fold (sleep_step cfg) (take n es) s))"
  using assms
proof (induction es arbitrary: q t s)
  case Nil
  then have "q < flat_bound T P 3 True"
    unfolding flat_inv_def using flat_bound_le [of "sl_holds_used s" T P] by (metis order_less_le_trans)
  with Nil show ?case by simp
next
  case (Cons e es)
  show ?case
  proof (cases "sm_asleep (sl_policy s) \<or> sm_asleep (sl_policy (sleep_step cfg e s))")
    case True
    then show ?thesis
      by (elim disjE) (auto intro: exI [of _ 0] exI [of _ "Suc 0"])
  next
    case False
    define s' where "s' = sleep_step cfg e s"
    have "\<exists>q' t'. flat_inv T P q' s' \<and> flat_events P q' t' es \<and> q' \<le> t' \<and> last_pass q' es = last_pass q (e # es)"
    proof (cases e)
      case (Sm_Pass v g u)
      with Cons.prems False flat_pass [of T P q s u v cfg g] show ?thesis
        by (intro exI [of _ u]) (auto simp: s'_def)
    next
      case (Sm_Read sec u)
      with Cons.prems False flat_read [of T P q s u cfg sec] show ?thesis
        by (intro exI [of _ q] exI [of _ u]) (auto simp: s'_def)
    next
      case (Sm_Hold m u)
      with Cons.prems False flat_hold [of T P q s u cfg m] show ?thesis
        by (intro exI [of _ q] exI [of _ u]) (auto simp: s'_def)
    qed
    then obtain q' t' where q': "flat_inv T P q' s'" "flat_events P q' t' es" "q' \<le> t'" "last_pass q' es = last_pass q (e # es)"
      by blast
    with Cons.IH [OF q'(1) Cons.prems(2) q'(2,3)] Cons.prems(5)
    obtain n where "n \<le> length es" "sm_asleep (sl_policy (fold (sleep_step cfg) (take n es) s'))" by auto
    then show ?thesis by (intro exI [of _ "Suc n"]) (simp add: s'_def)
  qed
qed

text \<open>C14. A device whose battery reads under the critical floor at every pass is asleep at the
  latest the floor's five minutes, three holds of thirty minutes and ten minutes of log
  reading (and the time between two passes for each) after the first such reading, whatever
  holds and log reads come in between and whether sleep is enabled or not.\<close>

theorem flat_battery_sleeps:
  assumes "\<not> sm_asleep (sl_policy s)" "\<not> sc_armed (sl_crit s)" "\<not> sa_active (sl_activity s)" "sl_holds_used s \<le> 3"
    and "v < SM_CRITICAL_V" and "P \<le> 60000" and "flat_events P T T es"
    and "T + 300000 + 3 * (1800000 + P) + (600000 + P) \<le> last_pass T es"
  shows "\<exists>n \<le> Suc (length es). sm_asleep (sl_policy (fold (sleep_step cfg) (take n (Sm_Pass v g T # es)) s))"
proof (cases "sm_asleep (sl_policy (sleep_step cfg (Sm_Pass v g T) s))")
  case True
  then show ?thesis by (intro exI [of _ 1]) simp
next
  case False
  with flat_start [OF assms(1-5), of cfg g T P] have "flat_inv T P T (sleep_step cfg (Sm_Pass v g T) s)" by simp
  from flat_run [OF this assms(6,7), of cfg] assms(8) obtain n where
    "n \<le> length es" "sm_asleep (sl_policy (fold (sleep_step cfg) (take n es) (sleep_step cfg (Sm_Pass v g T) s)))"
    by (auto simp: flat_bound_def)
  then show ?thesis by (intro exI [of _ "Suc n"]) simp
qed

section \<open>The published countdown\<close>

lemma mask_30: "(SM_PENDING_MS_MASK :: u32) = mask 30"
  by (simp add: mask_eq_exp_minus_1)

lemma pending_code_small: "drop_bit 30 (sm_pending_pack cause d) = pending_code cause"
proof -
  have "unat (pending_code cause) < 2 ^ 2" by (cases cause) simp_all
  note small = bit_bounded [OF this]
  show ?thesis unfolding sm_pending_pack_def mask_30
    by (rule bit_word_eqI) (auto simp: bit_simps dest: small)
qed

lemma take_pending: "take_bit 30 (sm_pending_pack cause d) = take_bit 30 d"
  unfolding sm_pending_pack_def mask_30
  by (rule bit_word_eqI) (auto simp: bit_simps)

lemma take_bit_sub_cong:
  assumes "take_bit 30 (a :: u32) = take_bit 30 b"
  shows "take_bit 30 (a - c) = take_bit 30 (b - c)"
proof -
  have *: "take_bit 30 (uint (x - c)) = take_bit 30 (take_bit 30 (uint x) - take_bit 30 (uint c))" for x
    by (simp add: uint_word_ariths take_bit_eq_mod mod_mod_cancel mod_diff_eq)
  have "take_bit 30 (uint a) = take_bit 30 (uint b)" using assms by (metis unsigned_take_bit_eq)
  then have "take_bit 30 (uint (a - c)) = take_bit 30 (uint (b - c))" by (simp only: *)
  then show ?thesis by (simp only: word_uint_eq_iff unsigned_take_bit_eq)
qed

theorem pending_word_read:
  assumes "cause \<noteq> SLEEP_MANAGER_PENDING_NONE" and "now \<le> d" "d - now < 536870912"
  shows "sm_pending_unpack (sm_pending_pack cause (of_nat d)) (of_nat now) =
    (pending_code cause, of_nat ((d - now + 999) div 1000))"
proof -
  let ?w = "sm_pending_pack cause (of_nat d)" and ?n = "of_nat now :: u32"
  have "(?w - ?n) AND SM_PENDING_MS_MASK = take_bit 30 (?w - ?n)" by (simp only: mask_30 take_bit_eq_mask)
  also have "\<dots> = take_bit 30 (of_nat d - ?n)" by (rule take_bit_sub_cong [OF take_pending])
  also have "of_nat d - ?n = (of_nat (d - now) :: u32)" using assms(2) by (simp add: of_nat_diff)
  also have "take_bit 30 (of_nat (d - now) :: u32) = of_nat (d - now)"
    using assms(3) by (simp add: word_unat_eq_iff unsigned_take_bit_eq unat_of_nat take_bit_nat_eq_self)
  finally have left: "(?w - ?n) AND SM_PENDING_MS_MASK = of_nat (d - now)" .
  have nz: "pending_code cause \<noteq> 0" using assms(1) by (cases cause) simp_all
  have u: "unat (of_nat (d - now) :: u32) = d - now" using assms(3) by (simp add: unat_of_nat_small)
  have "\<not> SM_PENDING_MS_MASK div 2 < (of_nat (d - now) :: u32)"
    using assms(3) by (simp add: word_less_nat_alt u not_less)
  moreover have "(of_nat (d - now) + 999) div 1000 = (of_nat ((d - now + 999) div 1000) :: u32)"
  proof -
    have "unat (of_nat (d - now) + 999 :: u32) = d - now + 999"
      using assms(3) u by (simp add: unat_word_ariths)
    then show ?thesis using assms(3)
      by (simp add: word_unat_eq_iff unat_div unat_of_nat_small del: of_nat_add)
  qed
  ultimately show ?thesis
    using nz by (simp add: sm_pending_unpack_def left pending_code_small Let_def)
qed

section \<open>The ladder\<close>

text \<open>Readings of one countdown: below the wake voltage, after the first one below the sleep voltage.\<close>

text \<open>C39. From the first reading under the sleep voltage the ladder puts the device to sleep
  exactly when the delay has passed, not before, when no reading in between reached the wake
  voltage, across wrap-around of the clock.\<close>

theorem ladder_sleeps_on_time:
  assumes "v < sg_sleep_v cfg" and "sp_state p = SLEEP_MANAGER_NORMAL" and "list_all (\<lambda>(w, t). w < sg_wake_v cfg \<and> T \<le> t \<and> t < T + unat (sg_delay_ms cfg)) rs"
    and "w < sg_wake_v cfg" "T \<le> t" "t \<le> T + 2147483647" "unat (sg_delay_ms cfg) < 2147483648"
  shows "snd (sm_policy_eval (fold (\<lambda>(w, t) p. fst (sm_policy_eval p cfg w (of_nat t))) ((v, T) # rs) p) cfg w (of_nat t)) =
    (if t < T + unat (sg_delay_ms cfg) then SM_ACT_NONE else SM_ACT_ENTER_SLEEP)"
proof -
  let ?d = "T + unat (sg_delay_ms cfg)" and ?f = "\<lambda>(w, t) p. fst (sm_policy_eval p cfg w (of_nat t))"
  have d: "of_nat T + sg_delay_ms cfg = (of_nat ?d :: u32)" by simp
  have r: "sm_reached (of_nat ?d) (of_nat u) \<longleftrightarrow> ?d \<le> u" if "T \<le> u" "u \<le> T + 2147483647" for u
    using that assms(7) by (intro reached_clock) linarith+
  have "sp_state (fold ?f rs q) = SLEEP_MANAGER_LOW_VOLTAGE \<and> sp_t_low (fold ?f rs q) = of_nat ?d"
    if "sp_state q = SLEEP_MANAGER_LOW_VOLTAGE" "sp_t_low q = of_nat ?d" for q
    using assms(3) that
  proof (induction rs arbitrary: q)
    case Nil
    then show ?case by simp
  next
    case (Cons x rs)
    obtain w u where x: "x = (w, u)" by fastforce
    with Cons.prems have "w < sg_wake_v cfg" "T \<le> u" "u < ?d" by simp_all
    moreover from this assms(7) have "\<not> sm_reached (of_nat ?d) (of_nat u)" using r [of u] by simp
    ultimately have "?f x q = q" using Cons.prems x by (simp add: sm_policy_eval_def)
    with Cons show ?case by simp
  qed
  moreover have "?f (v, T) p = p\<lparr>sp_state := SLEEP_MANAGER_LOW_VOLTAGE, sp_t_low := of_nat ?d\<rparr>"
    using assms(1,2) by (simp add: sm_policy_eval_def)
  ultimately have "sp_state (fold ?f ((v, T) # rs) p) = SLEEP_MANAGER_LOW_VOLTAGE"
    "sp_t_low (fold ?f ((v, T) # rs) p) = of_nat ?d" by (simp_all del: of_nat_add)
  then show ?thesis using assms(4) r [OF assms(5,6)] by (simp add: sm_policy_eval_def del: of_nat_add)
qed

definition sleep_boot :: sleep_manager where
  "sleep_boot = \<lparr>sl_policy = sm_policy_init, sl_crit = sm_critical_init, sl_activity = sm_activity_init,
     sl_pending = 0, sl_hold_active = False, sl_hold_until = 0, sl_holds_used = 0, sl_run = False\<rparr>"

definition cfg_12v :: sm_cfg where
  "cfg_12v = \<lparr>sg_sleep_v = 13, sg_wake_v = 131 / 10, sg_wake_hold_ms = 500, sg_delay_ms = 300000, sg_periodic = False, sg_interval_ms = 0\<rparr>"

fun ticks :: "nat \<Rightarrow> nat \<Rightarrow> sleep_event list" where
  "ticks 0 q = []"
| "ticks (Suc n) q = Sm_Pass 11 False (q + 60000) # ticks n (q + 60000)"

lemma ticks_facts: "flat_events 60000 q q (ticks n q)" "last_pass q (ticks n q) = q + n * 60000"
  by (induction n arbitrary: q) (simp_all add: SM_CRITICAL_V_def)

lemma flat_battery_sleeps_witness:
  "\<exists>n \<le> Suc (length (ticks 110 5)). sm_asleep (sl_policy (fold (sleep_step cfg_12v)
     (take n (Sm_Pass 11 False 5 # ticks 110 5)) sleep_boot))"
  by (rule flat_battery_sleeps [of _ _ 60000 5])
    (simp_all add: ticks_facts sleep_boot_def sm_policy_init_def sm_critical_init_def sm_activity_init_def
      sm_asleep_def SM_CRITICAL_V_def)

lemma pending_word_read_witness:
  "sm_pending_unpack (sm_pending_pack SLEEP_MANAGER_PENDING_CRITICAL (of_nat 4294967300)) (of_nat 4294917295) =
    (pending_code SLEEP_MANAGER_PENDING_CRITICAL, of_nat ((4294967300 - 4294917295 + 999) div 1000))"
  by (rule pending_word_read) simp_all

lemma ladder_sleeps_on_time_witness:
  "snd (sm_policy_eval (fold (\<lambda>(w, t) p. fst (sm_policy_eval p cfg_12v w (of_nat t))) ((12, 7) # [(125 / 10, 1007)])
     sm_policy_init) cfg_12v 12 (of_nat 300007)) =
    (if 300007 < 7 + unat (sg_delay_ms cfg_12v) then SM_ACT_NONE else SM_ACT_ENTER_SLEEP)"
  by (rule ladder_sleeps_on_time) (simp_all add: cfg_12v_def sm_policy_init_def)

end
