(* ===== verification/Crc.thy ===== *)
theory Crc
  imports Prelude
begin

text \<open>
  The checksum of IEEE 802.3, bit by bit, as several components spell it out: the restart tracker, the
  ring of the log, and with a table the RealDash translator. A changed byte changes it.
\<close>

definition crc_bit :: "u32 \<Rightarrow> u32" where
  "crc_bit crc = drop_bit 1 crc XOR (0xEDB88320 AND (0 - (crc AND 1)))"

definition crc_byte :: "u32 \<Rightarrow> u8 \<Rightarrow> u32" where
  "crc_byte crc b = (crc_bit ^^ 8) (crc XOR ucast b)"

definition crc32 :: "bytes \<Rightarrow> u32" where
  "crc32 data = NOT (foldl crc_byte 0xFFFFFFFF data)"

lemma xor_cancel: "a XOR x = b XOR x \<longleftrightarrow> a = b" "x XOR a = x XOR b \<longleftrightarrow> a = b" for a b x :: u32
  by (auto simp: bit_eq_iff bit_xor_iff)

lemma crc_bit_inject: "crc_bit a = crc_bit b \<longleftrightarrow> a = b"
proof
  assume eq: "crc_bit a = crc_bit b"
  have m: "(0 - (x AND 1) :: u32) = (if bit x 0 then - 1 else 0)" for x
    by (auto simp: and_one_eq mod_2_eq_odd bit_0)
  have top: "bit (crc_bit x) 31 = bit x 0" for x
    unfolding crc_bit_def m by (auto simp: bit_simps dest: bit_imp_le_length)
  have low: "bit a 0 = bit b 0" using eq top by metis
  then have "drop_bit 1 a = drop_bit 1 b"
    using eq unfolding crc_bit_def m by (simp add: xor_cancel)
  then have "bit a n = bit b n" if "n < 32" for n
  proof (cases n)
    case 0
    with low show ?thesis by simp
  next
    case (Suc k)
    have "bit (drop_bit 1 a) k = bit (drop_bit 1 b) k" using \<open>drop_bit 1 a = drop_bit 1 b\<close> by simp
    with Suc show ?thesis by (simp add: bit_drop_bit_eq)
  qed
  then show "a = b" by (auto intro: bit_word_eqI)
qed simp

lemma crc_bits_inject: "(crc_bit ^^ n) a = (crc_bit ^^ n) b \<longleftrightarrow> a = b"
  by (induction n) (simp_all add: crc_bit_inject)

lemma ucast_u8_inject: "(ucast x :: u32) = ucast y \<longleftrightarrow> x = y" for x y :: u8
  by (metis ucast_u8_inverse)

lemma crc_byte_inject: "crc_byte a x = crc_byte b x \<longleftrightarrow> a = b" "crc_byte a x = crc_byte a y \<longleftrightarrow> x = y"
  by (simp_all only: crc_byte_def crc_bits_inject xor_cancel ucast_u8_inject)

lemma crc_fold_inject: "foldl crc_byte a ys = foldl crc_byte b ys \<longleftrightarrow> a = b"
  by (induction ys arbitrary: a b) (simp_all add: crc_byte_inject)

lemma crc_one_byte: "crc32 (xs @ a # ys) = crc32 (xs @ b # ys) \<longleftrightarrow> a = b"
  by (simp add: crc32_def crc_fold_inject crc_byte_inject)

lemma crc_update:
  assumes "i < length xs" "x \<noteq> xs ! i"
  shows "crc32 (xs[i := x]) \<noteq> crc32 xs"
proof -
  have "xs = take i xs @ xs ! i # drop (Suc i) xs" using assms(1) by (rule id_take_nth_drop)
  moreover have "xs[i := x] = take i xs @ x # drop (Suc i) xs" using assms(1) by (rule upd_conv_take_nth_drop)
  ultimately show ?thesis using crc_one_byte assms(2) by metis
qed

end
