(* ===== verification/Restart.thy ===== *)
theory Restart
  imports Crc
begin

text \<open>
  \<^verbatim>\<open>components/restart_tracker/restart_tracker_core.c\<close> and \<^verbatim>\<open>restart_tracker_brake_core.c\<close>: the
  record of every boot in memory that survives a reset, under a checksum, and the brake that
  parks a device whose firmware keeps crashing. Times are mathematical integers or 64-bit words
  as the struct has them. The bytes a checksum spans are written out for the layout of the
  32-bit target: little endian, 64-bit members on multiples of eight, padding zero as the
  \<open>memset\<close> of the structs leaves it.
\<close>

abbreviation (input) RT_MAGIC :: u32 where "RT_MAGIC \<equiv> 0x5254524B"
abbreviation (input) RT_VERSION :: u32 where "RT_VERSION \<equiv> 1"
abbreviation (input) RT_MIN_VALID_UNIX_TIME :: "64 word" where "RT_MIN_VALID_UNIX_TIME \<equiv> 1704067200"
abbreviation (input) RESTART_TRACKER_HISTORY_LEN :: nat where "RESTART_TRACKER_HISTORY_LEN \<equiv> 8"
abbreviation (input) RT_REPORT_BUDGET :: u8 where "RT_REPORT_BUDGET \<equiv> 4"
abbreviation (input) RT_BRAKE_RF_SETTLED :: u8 where "RT_BRAKE_RF_SETTLED \<equiv> 1"
abbreviation (input) RT_BRAKE_RF_RETRY :: u8 where "RT_BRAKE_RF_RETRY \<equiv> 2"
abbreviation (input) RESTART_TRACKER_BRAKE_STREAK :: u8 where "RESTART_TRACKER_BRAKE_STREAK \<equiv> 3"
abbreviation (input) RESTART_TRACKER_BOOT_NORMAL :: u8 where "RESTART_TRACKER_BOOT_NORMAL \<equiv> 0"
abbreviation (input) RESTART_TRACKER_BOOT_PARK :: u8 where "RESTART_TRACKER_BOOT_PARK \<equiv> 1"
abbreviation (input) RESTART_TRACKER_BOOT_PARK_BARE :: u8 where "RESTART_TRACKER_BOOT_PARK_BARE \<equiv> 2"
abbreviation (input) RESTART_TRACKER_BOOT_SAFE :: u8 where "RESTART_TRACKER_BOOT_SAFE \<equiv> 3"
abbreviation (input) RT_PARK_RETRY :: u16 where "RT_PARK_RETRY \<equiv> 10"

section \<open>The checksum\<close>

definition rt_crc32_bytes :: "bytes \<Rightarrow> u32" where
  "rt_crc32_bytes data = crc32 data"

section \<open>The record of the boots\<close>

record rt_record =
  r_sequence :: u32
  r_boot_timestamp :: u64
  r_request_timestamp :: u64
  r_request_uptime_ms :: u64
  r_actual_reset_reason :: u32
  r_flags :: u32
  r_planned_reason :: u16
  r_source :: u16
  r_was_planned :: u8
  r_time_valid :: u8
  r_settled :: u8
  r_boot_mode :: u8

record rt_pending =
  g_requested_timestamp :: u64
  g_requested_uptime_ms :: u64
  g_flags :: u32
  g_planned_reason :: u16
  g_source :: u16
  g_valid :: u8
  g_time_valid :: u8

record rt_state =
  t_magic :: u32
  t_version :: u32
  t_history_len :: u32
  t_boot_count :: u32
  t_unexpected :: u32
  t_record_sequence :: u32
  t_latest :: u32
  t_next :: u32
  t_pending :: rt_pending
  t_history :: "rt_record list"
  t_crc32 :: u32

record rt_inputs =
  i_now_unix :: u64
  i_uptime_ms :: u64
  i_reset_reason :: u32

definition le_bytes :: "nat \<Rightarrow> 'a::len word \<Rightarrow> bytes" where
  "le_bytes n w = map (\<lambda>k. byte_of k w) [0..<n]"

definition record_bytes :: "rt_record \<Rightarrow> bytes" where
  "record_bytes r = le_bytes 4 (r_sequence r) @ replicate 4 0 @ le_bytes 8 (r_boot_timestamp r) @
     le_bytes 8 (r_request_timestamp r) @ le_bytes 8 (r_request_uptime_ms r) @ le_bytes 4 (r_actual_reset_reason r) @
     le_bytes 4 (r_flags r) @ le_bytes 2 (r_planned_reason r) @ le_bytes 2 (r_source r) @
     [r_was_planned r, r_time_valid r, r_settled r, r_boot_mode r]"

definition pending_bytes :: "rt_pending \<Rightarrow> bytes" where
  "pending_bytes g = le_bytes 8 (g_requested_timestamp g) @ le_bytes 8 (g_requested_uptime_ms g) @
     le_bytes 4 (g_flags g) @ le_bytes 2 (g_planned_reason g) @ le_bytes 2 (g_source g) @
     [g_valid g, g_time_valid g, 0, 0] @ replicate 4 0"

text \<open>The bytes from \<open>magic\<close> to the checksum.\<close>

definition rt_crc32 :: "rt_state \<Rightarrow> u32" where
  "rt_crc32 st = rt_crc32_bytes
     (le_bytes 4 (t_magic st) @ le_bytes 4 (t_version st) @ le_bytes 4 (t_history_len st) @ le_bytes 4 (t_boot_count st) @
      le_bytes 4 (t_unexpected st) @ le_bytes 4 (t_record_sequence st) @ le_bytes 4 (t_latest st) @ le_bytes 4 (t_next st) @
      pending_bytes (t_pending st) @ concat (map record_bytes (t_history st)))"

definition rt_state_is_valid :: "rt_state \<Rightarrow> bool" where
  "rt_state_is_valid st \<longleftrightarrow> t_magic st = RT_MAGIC \<and> t_version st = RT_VERSION \<and>
     t_history_len st = of_nat RESTART_TRACKER_HISTORY_LEN \<and> rt_crc32 st = t_crc32 st"

definition zero_record :: rt_record where
  "zero_record = \<lparr>r_sequence = 0, r_boot_timestamp = 0, r_request_timestamp = 0, r_request_uptime_ms = 0,
     r_actual_reset_reason = 0, r_flags = 0, r_planned_reason = 0, r_source = 0, r_was_planned = 0,
     r_time_valid = 0, r_settled = 0, r_boot_mode = 0\<rparr>"

definition zero_pending :: rt_pending where
  "zero_pending = \<lparr>g_requested_timestamp = 0, g_requested_uptime_ms = 0, g_flags = 0, g_planned_reason = 0,
     g_source = 0, g_valid = 0, g_time_valid = 0\<rparr>"

definition rt_state_reset :: rt_state where
  "rt_state_reset = \<lparr>t_magic = RT_MAGIC, t_version = RT_VERSION, t_history_len = of_nat RESTART_TRACKER_HISTORY_LEN,
     t_boot_count = 0, t_unexpected = 0, t_record_sequence = 0, t_latest = 0, t_next = 0, t_pending = zero_pending,
     t_history = replicate RESTART_TRACKER_HISTORY_LEN zero_record, t_crc32 = 0\<rparr>"

definition rt_reset_reason_is_unexpected :: "u32 \<Rightarrow> bool" where
  "rt_reset_reason_is_unexpected reason \<longleftrightarrow> reason \<notin> {1, 2, 3, 8, 11, 12}"

definition time_is_valid :: "u64 \<Rightarrow> bool" where
  "time_is_valid now_unix \<longleftrightarrow> sint now_unix \<ge> sint RT_MIN_VALID_UNIX_TIME"

definition rt_record_boot :: "rt_state \<Rightarrow> rt_inputs \<Rightarrow> rt_state \<times> bool" where
  "rt_record_boot st0 inp =
     (let (st, was_reset) = (if rt_state_is_valid st0 then (st0, False) else (rt_state_reset, True));
          slot = t_next st mod of_nat RESTART_TRACKER_HISTORY_LEN;
          seq = t_record_sequence st + 1;
          time_ok = time_is_valid (i_now_unix inp);
          r0 = zero_record\<lparr>r_sequence := seq, r_boot_timestamp := if time_ok then i_now_unix inp else 0,
                 r_time_valid := if time_ok then 1 else 0, r_actual_reset_reason := i_reset_reason inp\<rparr>;
          g = t_pending st;
          r = (if g_valid g \<noteq> 0
               then r0\<lparr>r_request_timestamp := g_requested_timestamp g, r_request_uptime_ms := g_requested_uptime_ms g,
                      r_planned_reason := g_planned_reason g, r_source := g_source g, r_flags := g_flags g,
                      r_was_planned := 1\<rparr>
               else r0);
          st1 = st\<lparr>t_record_sequence := seq, t_history := (t_history st)[unat slot := r],
                   t_boot_count := t_boot_count st + 1,
                   t_unexpected := (if r_was_planned r = 0 \<and> rt_reset_reason_is_unexpected (i_reset_reason inp)
                                    then t_unexpected st + 1 else t_unexpected st),
                   t_latest := slot, t_next := (slot + 1) mod of_nat RESTART_TRACKER_HISTORY_LEN,
                   t_pending := zero_pending\<rparr>
      in (st1\<lparr>t_crc32 := rt_crc32 st1\<rparr>, was_reset))"

definition rt_record_set :: "(rt_record \<Rightarrow> rt_record) \<Rightarrow> rt_state \<Rightarrow> rt_state" where
  "rt_record_set f st =
     (if \<not> rt_state_is_valid st \<or> t_boot_count st = 0 then st
      else
        let i = unat (t_latest st mod of_nat RESTART_TRACKER_HISTORY_LEN);
            st1 = st\<lparr>t_history := (t_history st)[i := f (t_history st ! i)]\<rparr>
        in st1\<lparr>t_crc32 := rt_crc32 st1\<rparr>)"

definition rt_record_set_mode :: "rt_state \<Rightarrow> u8 \<Rightarrow> rt_state" where
  "rt_record_set_mode st mode = rt_record_set (r_boot_mode_update (\<lambda>_. mode)) st"

definition rt_record_set_settled :: "rt_state \<Rightarrow> rt_state" where
  "rt_record_set_settled st = rt_record_set (r_settled_update (\<lambda>_. 1)) st"

definition rt_mark_planned :: "rt_state \<Rightarrow> rt_inputs \<Rightarrow> u16 \<Rightarrow> u16 \<Rightarrow> u32 \<Rightarrow> rt_state" where
  "rt_mark_planned st0 inp reason source flags =
     (let st = (if rt_state_is_valid st0 then st0 else rt_state_reset);
          time_ok = time_is_valid (i_now_unix inp);
          st1 = st\<lparr>t_pending := \<lparr>g_requested_timestamp = (if time_ok then i_now_unix inp else 0),
                    g_requested_uptime_ms = i_uptime_ms inp, g_flags = flags, g_planned_reason = reason,
                    g_source = source, g_valid = 1, g_time_valid = (if time_ok then 1 else 0)\<rparr>\<rparr>
      in st1\<lparr>t_crc32 := rt_crc32 st1\<rparr>)"

section \<open>The names\<close>

definition reset_reason_names :: "(u32 \<times> string) list" where
  "reset_reason_names =
     [(0, ''unknown''), (1, ''poweron''), (2, ''external''), (3, ''software''), (4, ''panic''), (5, ''interrupt_wdt''),
      (6, ''task_wdt''), (7, ''wdt''), (8, ''deepsleep''), (9, ''brownout''), (10, ''sdio''), (11, ''usb''),
      (12, ''jtag''), (13, ''efuse''), (14, ''power_glitch''), (15, ''cpu_lockup'')]"

definition planned_reason_names :: "(u32 \<times> string) list" where
  "planned_reason_names =
     [(0, ''none''), (1, ''user_request''), (2, ''config_apply''), (3, ''config_recovery''), (4, ''ota_apply''),
      (5, ''factory_reset''), (6, ''safe_mode''), (7, ''power_wake''), (8, ''internal_recovery''),
      (9, ''periodic_wake''), (10, ''park_retry''), (11, ''partition_migrate''), (12, ''ota_rollback'')]"

definition source_names :: "(u32 \<times> string) list" where
  "source_names =
     [(0, ''unknown''), (1, ''web_ui''), (2, ''cmdline''), (3, ''console''), (4, ''mqtt''), (5, ''ota''),
      (6, ''safe_mode''), (7, ''config_server''), (8, ''sleep_mode''), (9, ''button''), (10, ''pairing''),
      (11, ''park''), (12, ''boot'')]"

definition name_in :: "(u32 \<times> string) list \<Rightarrow> u32 \<Rightarrow> string" where
  "name_in names n = (case map_of names n of None \<Rightarrow> ''invalid'' | Some s \<Rightarrow> s)"

definition restart_tracker_reset_reason_to_str :: "u32 \<Rightarrow> string" where
  "restart_tracker_reset_reason_to_str n = name_in reset_reason_names n"

definition restart_tracker_planned_reason_to_str :: "u32 \<Rightarrow> string" where
  "restart_tracker_planned_reason_to_str n = name_in planned_reason_names n"

definition restart_tracker_source_to_str :: "u32 \<Rightarrow> string" where
  "restart_tracker_source_to_str n = name_in source_names n"

definition restart_tracker_boot_mode_to_str :: "u8 \<Rightarrow> string" where
  "restart_tracker_boot_mode_to_str mode =
     (if mode = RESTART_TRACKER_BOOT_NORMAL then ''normal''
      else if mode = RESTART_TRACKER_BOOT_PARK then ''park''
      else if mode = RESTART_TRACKER_BOOT_PARK_BARE then ''park_bare''
      else if mode = RESTART_TRACKER_BOOT_SAFE then ''safe''
      else ''invalid'')"

section \<open>The hooks before a restart\<close>

datatype rt_err = RT_OK | RT_INVALID_ARG | RT_NO_MEM

text \<open>A hook is compared as a pointer; the table is the list of the slots in use.\<close>

definition rt_hooks_add :: "'f list \<Rightarrow> 'f option \<Rightarrow> 'f list \<times> rt_err" where
  "rt_hooks_add h fn =
     (case fn of
        None \<Rightarrow> (h, RT_INVALID_ARG)
      | Some f \<Rightarrow>
          if f \<in> set h then (h, RT_OK)
          else if length h \<ge> 4 then (h, RT_NO_MEM)
          else (h @ [f], RT_OK))"

definition rt_hooks_run :: "('f \<Rightarrow> 'w \<Rightarrow> 'w) \<Rightarrow> 'f list \<Rightarrow> 'w \<Rightarrow> 'w" where
  "rt_hooks_run call h w = fold call (take 4 h) w"

section \<open>The brake\<close>

record rt_brake =
  b_streak :: u8
  b_parks :: u8
  b_run_mode :: u8
  b_run_flags :: u8
  b_budget :: u8
  b_reserved :: u8
  b_test_retry_s :: u16
  b_crc :: u32

record rt_verdict =
  v_verdict :: u8
  v_streak :: u8
  v_parks :: u8
  v_report_budget :: u8
  v_settled :: bool
  v_retry_after_s :: u32

definition rt_reset_reason_is_crash :: "u32 \<Rightarrow> bool" where
  "rt_reset_reason_is_crash reason \<longleftrightarrow> reason \<in> {4, 5, 6, 7, 15}"

definition rt_brake_crc :: "rt_brake \<Rightarrow> u32" where
  "rt_brake_crc st = rt_crc32_bytes
     ([b_streak st, b_parks st, b_run_mode st, b_run_flags st, b_budget st, b_reserved st] @ le_bytes 2 (b_test_retry_s st))"

definition rt_brake_seal :: "rt_brake \<Rightarrow> rt_brake" where
  "rt_brake_seal st = st\<lparr>b_crc := rt_brake_crc st\<rparr>"

definition rt_brake_valid :: "rt_brake \<Rightarrow> bool" where
  "rt_brake_valid st \<longleftrightarrow> b_run_mode st \<le> RESTART_TRACKER_BOOT_SAFE \<and> b_budget st \<le> RT_REPORT_BUDGET \<and>
     rt_brake_crc st = b_crc st"

definition rt_brake_reset :: rt_brake where
  "rt_brake_reset = rt_brake_seal \<lparr>b_streak = 0, b_parks = 0, b_run_mode = 0, b_run_flags = 0,
     b_budget = RT_REPORT_BUDGET, b_reserved = 0, b_test_retry_s = 0, b_crc = 0\<rparr>"

definition bump :: "u8 \<Rightarrow> u8" where
  "bump v = (if v < 255 then v + 1 else v)"

definition rt_brake_boot :: "rt_brake \<Rightarrow> bool \<Rightarrow> u32 \<Rightarrow> rt_brake \<times> rt_verdict" where
  "rt_brake_boot st crash_reset retry_s =
     (let before = b_run_mode st;
          settled = (b_run_flags st AND RT_BRAKE_RF_SETTLED \<noteq> 0);
          retry = (b_run_flags st AND RT_BRAKE_RF_RETRY \<noteq> 0);
          (st1, verdict) =
            (if crash_reset then
               (if before = RESTART_TRACKER_BOOT_PARK \<or> before = RESTART_TRACKER_BOOT_PARK_BARE
                then (st, RESTART_TRACKER_BOOT_PARK_BARE)
                else if before = RESTART_TRACKER_BOOT_NORMAL \<and> \<not> settled then
                  let st' = st\<lparr>b_streak := bump (b_streak st)\<rparr>
                  in (st', if b_streak st' \<ge> RESTART_TRACKER_BRAKE_STREAK then RESTART_TRACKER_BOOT_PARK
                           else RESTART_TRACKER_BOOT_NORMAL)
                else if before = RESTART_TRACKER_BOOT_SAFE
                then (st\<lparr>b_streak := 0, b_parks := 0\<rparr>, RESTART_TRACKER_BOOT_NORMAL)
                else (st, RESTART_TRACKER_BOOT_NORMAL))
             else if \<not> retry then (st\<lparr>b_streak := 0, b_parks := 0\<rparr>, RESTART_TRACKER_BOOT_NORMAL)
             else (st, RESTART_TRACKER_BOOT_NORMAL));
          (st2, after) =
            (if verdict \<noteq> RESTART_TRACKER_BOOT_NORMAL
             then (st1\<lparr>b_parks := bump (b_parks st1), b_test_retry_s := 0\<rparr>,
                   if b_test_retry_s st1 \<noteq> 0 then ucast (b_test_retry_s st1) else retry_s)
             else (st1, 0))
      in (rt_brake_seal (st2\<lparr>b_run_mode := RESTART_TRACKER_BOOT_NORMAL, b_run_flags := 0\<rparr>),
          \<lparr>v_verdict = verdict, v_streak = b_streak st2, v_parks = b_parks st2, v_report_budget = b_budget st2,
           v_settled = False, v_retry_after_s = after\<rparr>))"

definition rt_brake_settle :: "rt_brake \<Rightarrow> rt_brake" where
  "rt_brake_settle st = rt_brake_seal (st\<lparr>b_run_flags := b_run_flags st OR RT_BRAKE_RF_SETTLED,
     b_streak := 0, b_parks := 0, b_budget := RT_REPORT_BUDGET\<rparr>)"

definition rt_brake_set_mode :: "rt_brake \<Rightarrow> u8 \<Rightarrow> rt_brake" where
  "rt_brake_set_mode st mode = rt_brake_seal
     (st\<lparr>b_run_mode := if mode \<le> RESTART_TRACKER_BOOT_SAFE then mode else RESTART_TRACKER_BOOT_NORMAL\<rparr>)"

definition rt_brake_mark_retry :: "rt_brake \<Rightarrow> rt_brake" where
  "rt_brake_mark_retry st = rt_brake_seal (st\<lparr>b_run_flags := b_run_flags st OR RT_BRAKE_RF_RETRY\<rparr>)"

definition rt_brake_spend :: "rt_brake \<Rightarrow> rt_brake \<times> bool" where
  "rt_brake_spend st =
     (if b_budget st = 0 then (st, False) else (rt_brake_seal (st\<lparr>b_budget := b_budget st - 1\<rparr>), True))"

definition rt_brake_set_test_retry :: "rt_brake \<Rightarrow> u16 \<Rightarrow> rt_brake" where
  "rt_brake_set_test_retry st seconds = rt_brake_seal (st\<lparr>b_test_retry_s := seconds\<rparr>)"

section \<open>The tracker\<close>

text \<open>What \<^verbatim>\<open>restart_tracker.c\<close> does to the two stores under its lock.\<close>

record rt_tracker =
  k_state :: rt_state
  k_brake :: rt_brake

definition restart_tracker_init :: "rt_tracker \<Rightarrow> rt_inputs \<Rightarrow> u32 \<Rightarrow> rt_tracker \<times> rt_verdict" where
  "restart_tracker_init k inp retry_s =
     (let (st, fresh) = rt_record_boot (k_state k) inp;
          rec = t_history st ! unat (t_latest st);
          crash_reset = (r_was_planned rec = 0 \<and> rt_reset_reason_is_crash (r_actual_reset_reason rec));
          (b, out) = rt_brake_boot (k_brake k) crash_reset retry_s
      in (\<lparr>k_state = st, k_brake = b\<rparr>, out))"

definition restart_tracker_set_boot_mode :: "rt_tracker \<Rightarrow> u8 \<Rightarrow> rt_tracker" where
  "restart_tracker_set_boot_mode k mode =
     (if mode > RESTART_TRACKER_BOOT_SAFE then k
      else k\<lparr>k_brake := rt_brake_set_mode (k_brake k) mode, k_state := rt_record_set_mode (k_state k) mode\<rparr>)"

definition restart_tracker_settle :: "rt_tracker \<Rightarrow> rt_tracker" where
  "restart_tracker_settle k =
     k\<lparr>k_brake := rt_brake_settle (k_brake k), k_state := rt_record_set_settled (k_state k)\<rparr>"

definition restart_tracker_mark_planned_restart :: "rt_tracker \<Rightarrow> rt_inputs \<Rightarrow> u16 \<Rightarrow> u16 \<Rightarrow> u32 \<Rightarrow> rt_tracker" where
  "restart_tracker_mark_planned_restart k inp reason source flags =
     k\<lparr>k_state := rt_mark_planned (k_state k) inp reason source flags,
       k_brake := (if reason = RT_PARK_RETRY then rt_brake_mark_retry (k_brake k) else k_brake k)\<rparr>"

section \<open>The brake's state stays valid\<close>

definition brake_ok :: "rt_brake \<Rightarrow> bool" where
  "brake_ok st \<longleftrightarrow> b_run_mode st \<le> RESTART_TRACKER_BOOT_SAFE \<and> b_budget st \<le> RT_REPORT_BUDGET"

lemma crc_of_crc [simp]: "rt_brake_crc (st\<lparr>b_crc := x\<rparr>) = rt_brake_crc st"
  by (simp add: rt_brake_crc_def)

lemma seal_valid [simp]: "rt_brake_valid (rt_brake_seal st) \<longleftrightarrow> brake_ok st"
  by (simp add: rt_brake_valid_def brake_ok_def rt_brake_seal_def)

lemma seal_fields [simp]:
  "b_streak (rt_brake_seal st) = b_streak st" "b_parks (rt_brake_seal st) = b_parks st"
  "b_run_mode (rt_brake_seal st) = b_run_mode st" "b_run_flags (rt_brake_seal st) = b_run_flags st"
  "b_budget (rt_brake_seal st) = b_budget st" "brake_ok (rt_brake_seal st) = brake_ok st"
  by (simp_all add: rt_brake_seal_def brake_ok_def)

lemma valid_ok: "rt_brake_valid st \<Longrightarrow> brake_ok st"
  by (simp add: rt_brake_valid_def brake_ok_def)

lemma boot_frame [simp]:
  "b_run_mode (fst (rt_brake_boot st c r)) = 0" "b_run_flags (fst (rt_brake_boot st c r)) = 0"
  "b_budget (fst (rt_brake_boot st c r)) = b_budget st"
  "rt_brake_crc (fst (rt_brake_boot st c r)) = b_crc (fst (rt_brake_boot st c r))"
  by (simp_all add: rt_brake_boot_def rt_brake_seal_def Let_def split: prod.split)

datatype brake_op = B_Boot bool u32 | B_Settle | B_Mode u8 | B_Retry | B_Spend | B_Test u16

fun brake_step :: "brake_op \<Rightarrow> rt_brake \<Rightarrow> rt_brake" where
  "brake_step (B_Boot c r) st = fst (rt_brake_boot st c r)"
| "brake_step B_Settle st = rt_brake_settle st"
| "brake_step (B_Mode m) st = rt_brake_set_mode st m"
| "brake_step B_Retry st = rt_brake_mark_retry st"
| "brake_step B_Spend st = fst (rt_brake_spend st)"
| "brake_step (B_Test s) st = rt_brake_set_test_retry st s"

lemma brake_step_valid: "rt_brake_valid st \<Longrightarrow> rt_brake_valid (brake_step e st)"
proof (induction e st rule: brake_step.induct)
  case (1 c r st)
  then show ?case by (simp add: rt_brake_valid_def)
next
  case (5 st)
  then show ?case
    using valid_ok [OF 5]
    by (auto simp: rt_brake_spend_def brake_ok_def word_le_nat_alt unat_minus_one)
qed (auto dest: valid_ok simp: rt_brake_settle_def rt_brake_set_mode_def rt_brake_mark_retry_def
    rt_brake_set_test_retry_def brake_ok_def)

interpretation brake: machine brake_step "\<lambda>_. True" rt_brake_valid
  by unfold_locales (rule brake_step_valid)

definition brake_bytes :: "rt_brake \<Rightarrow> bytes" where
  "brake_bytes st = [b_streak st, b_parks st, b_run_mode st, b_run_flags st, b_budget st, b_reserved st] @ le_bytes 2 (b_test_retry_s st)"

text \<open>C40. After any sequence of operations the brake's store is valid, and with any one of the
  bytes under its checksum changed it is rejected.\<close>

theorem brake_store_checked:
  fixes es :: "brake_op list"
  defines "st \<equiv> fold brake_step es rt_brake_reset"
  assumes "brake_bytes damaged = (brake_bytes st)[i := x]" "i < 8" "x \<noteq> brake_bytes st ! i" "b_crc damaged = b_crc st"
  shows "rt_brake_valid st \<and> \<not> rt_brake_valid damaged"
proof -
  have "rt_brake_valid rt_brake_reset" by (simp add: rt_brake_reset_def brake_ok_def)
  then have v: "rt_brake_valid st" unfolding st_def by (intro brake.run_inv) (simp_all add: list_all_iff)
  have "length (brake_bytes st) = 8" by (simp add: brake_bytes_def le_bytes_def)
  moreover have "b_crc st = rt_crc32_bytes (brake_bytes st)"
    using v by (simp add: rt_brake_valid_def rt_brake_crc_def brake_bytes_def)
  moreover have "rt_brake_valid damaged \<Longrightarrow> b_crc damaged = rt_crc32_bytes (brake_bytes damaged)"
    by (simp add: rt_brake_valid_def rt_brake_crc_def brake_bytes_def)
  ultimately show ?thesis using v assms crc_update [of i "brake_bytes st" x] by (auto simp: rt_crc32_bytes_def)
qed

section \<open>Crash loops\<close>

text \<open>A run: whether it settled, was in safe mode, what restart it announced, and the boot that
  ended it.\<close>

record run =
  n_settle :: bool
  n_safe :: bool
  n_plan :: "(u16 \<times> u16 \<times> u32) option"
  n_inp :: rt_inputs

definition tracker_run :: "u32 \<Rightarrow> run \<Rightarrow> rt_tracker \<times> rt_verdict \<Rightarrow> rt_tracker \<times> rt_verdict" where
  "tracker_run retry_s r s =
     (let (k, v) = s;
          k1 = (if v_verdict v \<noteq> RESTART_TRACKER_BOOT_NORMAL then restart_tracker_set_boot_mode k (v_verdict v)
                else if n_safe r then restart_tracker_set_boot_mode k RESTART_TRACKER_BOOT_SAFE else k);
          k2 = (if n_settle r then restart_tracker_settle k1 else k1);
          k3 = (case n_plan r of None \<Rightarrow> k2
                | Some (reason, source, flags) \<Rightarrow> restart_tracker_mark_planned_restart k2 (n_inp r) reason source flags)
      in restart_tracker_init k3 (n_inp r) retry_s)"

definition first_verdict :: rt_verdict where
  "first_verdict = \<lparr>v_verdict = RESTART_TRACKER_BOOT_NORMAL, v_streak = 0, v_parks = 0, v_report_budget = RT_REPORT_BUDGET,
     v_settled = False, v_retry_after_s = 0\<rparr>"

text \<open>The device from its first boot: the brake's store is new, the memory of the records may hold
  anything.\<close>

definition tracker_runs :: "u32 \<Rightarrow> rt_state \<Rightarrow> rt_inputs \<Rightarrow> run list \<Rightarrow> rt_tracker \<times> rt_verdict" where
  "tracker_runs retry_s st inp rs =
     fold (tracker_run retry_s) rs (\<lparr>k_state = fst (rt_record_boot st inp), k_brake = rt_brake_reset\<rparr>, first_verdict)"

definition quick_crash :: "run \<Rightarrow> bool" where
  "quick_crash r \<longleftrightarrow> \<not> n_settle r \<and> \<not> n_safe r \<and> n_plan r = None \<and> rt_reset_reason_is_crash (i_reset_reason (n_inp r))"

lemma crc32_of_crc [simp]: "rt_crc32 (st\<lparr>t_crc32 := x\<rparr>) = rt_crc32 st"
  by (simp add: rt_crc32_def)

lemma state_sealed:
  "rt_state_is_valid (st\<lparr>t_crc32 := rt_crc32 st\<rparr>) \<longleftrightarrow> t_magic st = RT_MAGIC \<and> t_version st = RT_VERSION \<and>
     t_history_len st = of_nat RESTART_TRACKER_HISTORY_LEN"
  by (simp add: rt_state_is_valid_def)

lemma reset_fields:
  "t_magic rt_state_reset = RT_MAGIC" "t_version rt_state_reset = RT_VERSION"
  "t_history_len rt_state_reset = of_nat RESTART_TRACKER_HISTORY_LEN" "length (t_history rt_state_reset) = 8"
  "t_pending rt_state_reset = zero_pending"
  by (simp_all add: rt_state_reset_def)

lemma valid_fields:
  "rt_state_is_valid st \<Longrightarrow> t_magic st = RT_MAGIC" "rt_state_is_valid st \<Longrightarrow> t_version st = RT_VERSION"
  "rt_state_is_valid st \<Longrightarrow> t_history_len st = of_nat RESTART_TRACKER_HISTORY_LEN"
  by (simp_all add: rt_state_is_valid_def)

definition records_ok :: "rt_state \<Rightarrow> bool" where
  "records_ok st \<longleftrightarrow> length (t_history st) = 8 \<and> (rt_state_is_valid st \<longrightarrow> t_pending st = zero_pending)"

text \<open>What the records tell the brake.\<close>

definition planned_before :: "rt_state \<Rightarrow> bool" where
  "planned_before st \<longleftrightarrow> rt_state_is_valid st \<and> g_valid (t_pending st) \<noteq> 0"

lemma record_boot_facts:
  fixes inp :: rt_inputs
  assumes "length (t_history st) = 8"
  defines "st' \<equiv> fst (rt_record_boot st inp)"
  shows "records_ok st'" "rt_state_is_valid st'"
    and "r_was_planned (t_history st' ! unat (t_latest st')) = (if planned_before st then 1 else 0)"
    and "r_actual_reset_reason (t_history st' ! unat (t_latest st')) = i_reset_reason inp"
proof -
  have mod8: "unat (w mod 8) < 8" for w :: u32 by (simp add: unat_mod)
  have h: "length (t_history (if rt_state_is_valid st then st else rt_state_reset)) = 8"
    using assms(1) by (simp add: reset_fields)
  note defs = st'_def rt_record_boot_def Let_def
  show "records_ok st'" using assms(1) by (simp add: defs records_ok_def reset_fields)
  show "rt_state_is_valid st'"
    by (simp add: defs state_sealed reset_fields valid_fields)
  show "r_was_planned (t_history st' ! unat (t_latest st')) = (if planned_before st then 1 else 0)"
    using assms(1) mod8 by (simp add: defs planned_before_def zero_record_def reset_fields zero_pending_def)
  show "r_actual_reset_reason (t_history st' ! unat (t_latest st')) = i_reset_reason inp"
    using assms(1) mod8 by (simp add: defs reset_fields)
qed

lemma records_ok_set: "records_ok st \<Longrightarrow> records_ok (rt_record_set f st)"
  by (auto simp: records_ok_def rt_record_set_def Let_def)

lemma records_ok_planned: "records_ok st \<Longrightarrow> \<not> planned_before st"
  by (auto simp: records_ok_def planned_before_def zero_pending_def)

lemma mark_planned_before: "planned_before (rt_mark_planned st inp reason source flags)"
  by (simp add: planned_before_def rt_mark_planned_def state_sealed reset_fields valid_fields Let_def)

lemma length_mark_planned: "length (t_history st) = 8 \<Longrightarrow> length (t_history (rt_mark_planned st inp reason source flags)) = 8"
  by (simp add: rt_mark_planned_def reset_fields Let_def)

lemma tracker_init_facts:
  fixes inp :: rt_inputs
  assumes "length (t_history (k_state k)) = 8"
  defines "crash \<equiv> \<not> planned_before (k_state k) \<and> rt_reset_reason_is_crash (i_reset_reason inp)"
  shows "restart_tracker_init k inp retry_s =
    (\<lparr>k_state = fst (rt_record_boot (k_state k) inp), k_brake = fst (rt_brake_boot (k_brake k) crash retry_s)\<rparr>,
     snd (rt_brake_boot (k_brake k) crash retry_s))"
  using record_boot_facts(3,4) [OF assms(1), of inp]
  by (simp add: restart_tracker_init_def crash_def split_def Let_def)

definition brake_fresh :: "rt_tracker \<times> rt_verdict \<Rightarrow> bool" where
  "brake_fresh s \<longleftrightarrow> records_ok (k_state (fst s)) \<and> b_run_mode (k_brake (fst s)) = 0 \<and> b_run_flags (k_brake (fst s)) = 0 \<and>
     v_verdict (snd s) \<in> {0, 1, 2}"

lemma boot_verdict: "v_verdict (snd (rt_brake_boot b c r)) \<in> {0, 1, 2}"
  by (simp add: rt_brake_boot_def Let_def split: prod.split)

text \<open>The brake's state when a run ends, and what its boot says.\<close>

lemma tracker_run_fresh:
  assumes "brake_fresh s"
  shows "brake_fresh (tracker_run retry_s r s)"
    and "\<exists>b. b_streak b = (if n_settle r then 0 else b_streak (k_brake (fst s))) \<and>
      b_run_mode b = (if v_verdict (snd s) \<noteq> 0 then v_verdict (snd s) else if n_safe r then 3 else 0) \<and>
      (b_run_flags b AND 1 \<noteq> 0 \<longleftrightarrow> n_settle r) \<and>
      (let c = (n_plan r = None \<and> rt_reset_reason_is_crash (i_reset_reason (n_inp r))) in
       k_brake (fst (tracker_run retry_s r s)) = fst (rt_brake_boot b c retry_s) \<and>
       snd (tracker_run retry_s r s) = snd (rt_brake_boot b c retry_s))"
proof -
  obtain k v where s: "s = (k, v)" by fastforce
  define k1 where "k1 = (if v_verdict v \<noteq> 0 then restart_tracker_set_boot_mode k (v_verdict v)
      else if n_safe r then restart_tracker_set_boot_mode k 3 else k)"
  define k2 where "k2 = (if n_settle r then restart_tracker_settle k1 else k1)"
  define k3 where "k3 = (case n_plan r of None \<Rightarrow> k2
      | Some (reason, source, flags) \<Rightarrow> restart_tracker_mark_planned_restart k2 (n_inp r) reason source flags)"
  have run: "tracker_run retry_s r s = restart_tracker_init k3 (n_inp r) retry_s"
    by (simp only: tracker_run_def s k3_def k2_def k1_def Let_def prod.case)
  have "records_ok (k_state k)" and v: "v_verdict v \<in> {0, 1, 2}" and fresh: "b_run_mode (k_brake k) = 0" "b_run_flags (k_brake k) = 0"
    using assms by (simp_all add: brake_fresh_def s)
  then have ok: "records_ok (k_state k2)"
    by (auto simp: k1_def k2_def restart_tracker_set_boot_mode_def restart_tracker_settle_def rt_record_set_mode_def
        rt_record_set_settled_def records_ok_set)
  have len: "length (t_history (k_state k3)) = 8"
    using ok by (auto simp: k3_def records_ok_def restart_tracker_mark_planned_restart_def length_mark_planned split: option.split)
  have planned: "planned_before (k_state k3) \<longleftrightarrow> n_plan r \<noteq> None"
    using ok by (auto simp: k3_def records_ok_planned restart_tracker_mark_planned_restart_def mark_planned_before split: option.split)
  then have pl: "\<not> planned_before (k_state k3) \<longleftrightarrow> n_plan r = None" by blast
  note init = tracker_init_facts [OF len, of "n_inp r" retry_s]
  note run' = run [unfolded init pl]
  show "brake_fresh (tracker_run retry_s r s)"
    unfolding run init using boot_verdict record_boot_facts(1) [OF len] by (simp add: brake_fresh_def)
  have b1: "b_streak (k_brake k1) = b_streak (k_brake k)" "b_run_flags (k_brake k1) = 0"
    "b_run_mode (k_brake k1) = (if v_verdict v \<noteq> 0 then v_verdict v else if n_safe r then 3 else 0)"
    using v fresh by (auto simp: k1_def restart_tracker_set_boot_mode_def rt_brake_set_mode_def)
  have b3: "b_streak (k_brake k3) = (if n_settle r then 0 else b_streak (k_brake k))"
    "b_run_mode (k_brake k3) = b_run_mode (k_brake k1)" "b_run_flags (k_brake k3) AND 1 \<noteq> 0 \<longleftrightarrow> n_settle r"
    using b1 by (auto simp: k2_def k3_def restart_tracker_settle_def rt_brake_settle_def rt_brake_mark_retry_def
        restart_tracker_mark_planned_restart_def split: option.split)
  show "\<exists>b. b_streak b = (if n_settle r then 0 else b_streak (k_brake (fst s))) \<and>
      b_run_mode b = (if v_verdict (snd s) \<noteq> 0 then v_verdict (snd s) else if n_safe r then 3 else 0) \<and>
      (b_run_flags b AND 1 \<noteq> 0 \<longleftrightarrow> n_settle r) \<and>
      (let c = (n_plan r = None \<and> rt_reset_reason_is_crash (i_reset_reason (n_inp r))) in
       k_brake (fst (tracker_run retry_s r s)) = fst (rt_brake_boot b c retry_s) \<and>
       snd (tracker_run retry_s r s) = snd (rt_brake_boot b c retry_s))"
    using b1 b3 run' by (intro exI [of _ "k_brake k3"]) (simp add: s Let_def)
qed


lemma quick_crash_boot:
  assumes "brake_fresh s" "quick_crash r" and "v_verdict (snd s) \<noteq> 0 \<or> n \<le> unat (b_streak (k_brake (fst s)))" and "n < 255"
  shows "v_verdict (snd (tracker_run retry_s r s)) \<noteq> 0 \<or>
    (Suc n \<le> unat (b_streak (k_brake (fst (tracker_run retry_s r s)))) \<and> Suc n < 3)"
proof -
  from tracker_run_fresh(2) [OF assms(1), of r retry_s] assms(2) obtain b where b:
    "b_streak b = b_streak (k_brake (fst s))" "b_run_mode b = v_verdict (snd s)" "b_run_flags b AND 1 = 0"
    "k_brake (fst (tracker_run retry_s r s)) = fst (rt_brake_boot b True retry_s)"
    "snd (tracker_run retry_s r s) = snd (rt_brake_boot b True retry_s)"
    by (auto simp: quick_crash_def)
  have v: "v_verdict (snd s) \<in> {0, 1, 2}" using assms(1) by (simp add: brake_fresh_def)
  show ?thesis
  proof (cases "v_verdict (snd s) = 0")
    case False
    with v b show ?thesis by (auto simp: rt_brake_boot_def Let_def)
  next
    case True
    then have n: "n \<le> unat (b_streak b)" using assms(3) b by simp
    have bump: "Suc n \<le> unat (bump (b_streak b))"
    proof (cases "b_streak b < 255")
      case True
      then have "unat (b_streak b) < 255" by (simp add: word_less_nat_alt)
      then have "unat (b_streak b + 1) = Suc (unat (b_streak b))" by (simp add: unat_word_ariths)
      with n True show ?thesis by (simp add: bump_def)
    next
      case False
      then have "255 \<le> unat (b_streak b)" by (simp add: word_le_nat_alt not_less)
      with assms(4) False show ?thesis by (simp add: bump_def)
    qed
    show ?thesis
    proof (cases "3 \<le> bump (b_streak b)")
      case True
      with b \<open>v_verdict (snd s) = 0\<close> show ?thesis by (simp add: rt_brake_boot_def Let_def)
    next
      case False
      then have "unat (bump (b_streak b)) < 3" by (simp add: word_le_nat_alt not_le)
      with b bump False \<open>v_verdict (snd s) = 0\<close> show ?thesis by (simp add: rt_brake_boot_def Let_def)
    qed
  qed
qed

lemma runs_fresh:
  assumes "length (t_history st) = 8"
  shows "brake_fresh (tracker_runs retry_s st inp rs)"
proof -
  have "brake_fresh s \<Longrightarrow> brake_fresh (fold (tracker_run retry_s) rs s)" for s
    by (induction rs arbitrary: s) (simp_all add: tracker_run_fresh(1))
  moreover have "brake_fresh (\<lparr>k_state = fst (rt_record_boot st inp), k_brake = rt_brake_reset\<rparr>, first_verdict)"
    using record_boot_facts(1) [OF assms] by (simp add: brake_fresh_def rt_brake_reset_def first_verdict_def)
  ultimately show ?thesis by (simp add: tracker_runs_def)
qed

lemma quick_crashes_park:
  assumes "brake_fresh s" "list_all quick_crash qs" and "v_verdict (snd s) \<noteq> 0 \<or> n \<le> unat (b_streak (k_brake (fst s)))"
    and "n < 3" "3 \<le> n + length qs"
  shows "v_verdict (snd (fold (tracker_run retry_s) qs s)) \<noteq> 0"
  using assms
proof (induction qs arbitrary: s n)
  case Nil
  then show ?case by simp
next
  case (Cons q qs)
  note fresh = tracker_run_fresh(1) [OF Cons.prems(1), of retry_s q]
  have q: "quick_crash q" and qs: "list_all quick_crash qs" using Cons.prems(2) by simp_all
  have "n < 255" using Cons.prems(4) by simp
  from quick_crash_boot [OF Cons.prems(1) q Cons.prems(3) this, of retry_s]
  show ?case
  proof
    assume v: "v_verdict (snd (tracker_run retry_s q s)) \<noteq> 0"
    show ?thesis
    proof (cases "qs = []")
      case True
      with v show ?thesis by simp
    next
      case False
      then have "3 \<le> 2 + length qs" by (cases qs) auto
      with Cons.IH [OF fresh qs, of 2] v show ?thesis by simp
    qed
  next
    assume "Suc n \<le> unat (b_streak (k_brake (fst (tracker_run retry_s q s)))) \<and> Suc n < 3"
    with Cons.IH [OF fresh qs, of "Suc n"] Cons.prems(5) show ?thesis by simp
  qed
qed

text \<open>C15. Three or more runs in a row that crash unannounced before they settle, and without the
  user's safe mode, make the next boot park, whatever runs came before.\<close>

theorem brake_parks_crash_loops:
  assumes "length (t_history st) = 8" and "3 \<le> length qs" "list_all quick_crash qs"
  shows "v_verdict (snd (tracker_runs retry_s st inp (rs @ qs))) \<in> {RESTART_TRACKER_BOOT_PARK, RESTART_TRACKER_BOOT_PARK_BARE}"
proof -
  have "v_verdict (snd (fold (tracker_run retry_s) qs (tracker_runs retry_s st inp rs))) \<noteq> 0"
    by (rule quick_crashes_park [where n = 0, OF runs_fresh [OF assms(1)] assms(3)]) (use assms(2) in simp_all)
  then have "v_verdict (snd (tracker_runs retry_s st inp (rs @ qs))) \<noteq> 0" by (simp add: tracker_runs_def)
  with runs_fresh [OF assms(1), of retry_s inp "rs @ qs"] show ?thesis by (simp add: brake_fresh_def)
qed

theorem brake_spares_others:
  assumes "length (t_history st) = 8"
    and "v_verdict (snd (tracker_runs retry_s st inp (rs @ [r]))) \<noteq> RESTART_TRACKER_BOOT_NORMAL"
  shows "rt_reset_reason_is_crash (i_reset_reason (n_inp r)) \<and> n_plan r = None \<and>
    (v_verdict (snd (tracker_runs retry_s st inp rs)) = RESTART_TRACKER_BOOT_NORMAL \<longrightarrow> \<not> n_settle r \<and> \<not> n_safe r)"
proof -
  let ?s = "tracker_runs retry_s st inp rs"
  from tracker_run_fresh(2) [where r = r and retry_s = retry_s, OF runs_fresh [where retry_s = retry_s and inp = inp and rs = rs, OF assms(1)]] obtain b where b:
    "b_run_mode b = (if v_verdict (snd ?s) \<noteq> 0 then v_verdict (snd ?s) else if n_safe r then 3 else 0)"
    "b_run_flags b AND 1 \<noteq> 0 \<longleftrightarrow> n_settle r"
    "snd (tracker_run retry_s r ?s) =
      snd (rt_brake_boot b (n_plan r = None \<and> rt_reset_reason_is_crash (i_reset_reason (n_inp r))) retry_s)"
    by (auto simp: Let_def)
  have "v_verdict (snd (rt_brake_boot b (n_plan r = None \<and> rt_reset_reason_is_crash (i_reset_reason (n_inp r))) retry_s)) \<noteq> 0"
    using assms(2) b(3) by (simp add: tracker_runs_def)
  with b(1,2) show ?thesis
    by (auto simp: rt_brake_boot_def Let_def split: if_splits)
qed

definition crash_run :: run where
  "crash_run = \<lparr>n_settle = False, n_safe = False, n_plan = None,
     n_inp = \<lparr>i_now_unix = 0, i_uptime_ms = 0, i_reset_reason = 4\<rparr>\<rparr>"

lemma brake_parks_crash_loops_witness:
  "v_verdict (snd (tracker_runs 600 rt_state_reset (n_inp crash_run) ([crash_run\<lparr>n_settle := True\<rparr>] @ [crash_run, crash_run, crash_run])))
     \<in> {RESTART_TRACKER_BOOT_PARK, RESTART_TRACKER_BOOT_PARK_BARE}"
  by (rule brake_parks_crash_loops)
    (simp_all add: reset_fields quick_crash_def crash_run_def rt_reset_reason_is_crash_def)

lemma parked_after_three:
  "v_verdict (snd (tracker_runs 600 rt_state_reset (n_inp crash_run) ([crash_run, crash_run] @ [crash_run]))) \<noteq> RESTART_TRACKER_BOOT_NORMAL"
proof -
  have "v_verdict (snd (fold (tracker_run 600) [crash_run, crash_run, crash_run] (tracker_runs 600 rt_state_reset (n_inp crash_run) []))) \<noteq> 0"
    by (rule quick_crashes_park [where n = 0, OF runs_fresh])
      (simp_all add: reset_fields quick_crash_def crash_run_def rt_reset_reason_is_crash_def)
  then show ?thesis by (simp add: tracker_runs_def)
qed

lemma quick_crash_counts:
  assumes "brake_fresh s" "quick_crash r" "v_verdict (snd s) = 0" "b_streak (k_brake (fst s)) = n" "n < 2"
  shows "v_verdict (snd (tracker_run retry_s r s)) = 0 \<and> b_streak (k_brake (fst (tracker_run retry_s r s))) = n + 1"
proof -
  from tracker_run_fresh(2) [OF assms(1), of r retry_s] assms(2-4) obtain b where b:
    "b_streak b = n" "b_run_mode b = 0" "b_run_flags b AND 1 = 0"
    "k_brake (fst (tracker_run retry_s r s)) = fst (rt_brake_boot b True retry_s)"
    "snd (tracker_run retry_s r s) = snd (rt_brake_boot b True retry_s)"
    by (auto simp: quick_crash_def)
  have "unat n = 0 \<or> unat n = 1" using assms(5) by (auto simp: word_less_nat_alt)
  then have "n = 0 \<or> n = 1" by (simp add: word_unat_eq_iff)
  then show ?thesis using b by (auto simp: rt_brake_boot_def bump_def word_le_nat_alt word_less_nat_alt Let_def)
qed

lemma not_parked_after_two:
  "v_verdict (snd (tracker_runs 600 rt_state_reset (n_inp crash_run) [crash_run, crash_run])) = RESTART_TRACKER_BOOT_NORMAL"
proof -
  note f = runs_fresh [where st = rt_state_reset and retry_s = 600 and inp = "n_inp crash_run"]
  have q: "quick_crash crash_run" by (simp add: quick_crash_def crash_run_def rt_reset_reason_is_crash_def)
  have r: "length (t_history rt_state_reset) = 8" by (simp add: reset_fields)
  have s0: "v_verdict (snd (tracker_runs 600 rt_state_reset (n_inp crash_run) [])) = 0"
    "b_streak (k_brake (fst (tracker_runs 600 rt_state_reset (n_inp crash_run) []))) = 0"
    by (simp_all add: tracker_runs_def first_verdict_def rt_brake_reset_def)
  have s1: "v_verdict (snd (tracker_runs 600 rt_state_reset (n_inp crash_run) [crash_run])) = 0 \<and>
      b_streak (k_brake (fst (tracker_runs 600 rt_state_reset (n_inp crash_run) [crash_run]))) = 1"
    using quick_crash_counts [OF f [OF r, of "[]"] q s0] by (simp add: tracker_runs_def)
  from quick_crash_counts [OF f [OF r, of "[crash_run]"] q, of 1] s1 show ?thesis
    by (simp add: tracker_runs_def)
qed

lemma brake_spares_others_witness:
  "rt_reset_reason_is_crash (i_reset_reason (n_inp crash_run)) \<and> n_plan crash_run = None \<and>
    \<not> n_settle crash_run \<and> \<not> n_safe crash_run"
  using brake_spares_others [OF _ parked_after_three] not_parked_after_two by (simp add: reset_fields)

lemma brake_store_checked_witness:
  "rt_brake_valid (fold brake_step [B_Boot True 60, B_Spend] rt_brake_reset) \<and>
   \<not> rt_brake_valid ((fold brake_step [B_Boot True 60, B_Spend] rt_brake_reset)\<lparr>b_streak := 3\<rparr>)"
  by (rule brake_store_checked [where i = 0 and x = 3])
    (simp_all add: brake_bytes_def rt_brake_boot_def rt_brake_spend_def rt_brake_reset_def rt_brake_seal_def bump_def Let_def)

end
