(* ===== verification/Decimal.thy ===== *)
theory Decimal
  imports Prelude
begin

text \<open>What the components use of the C library on decimal text: \<open>isdigit\<close> and \<open>printf\<close> with \<open>%u\<close>.\<close>

definition isdigit :: "char \<Rightarrow> bool" where
  "isdigit c \<longleftrightarrow> (let n = of_char c :: nat in 48 \<le> n \<and> n \<le> 57)"

definition digit_value :: "char \<Rightarrow> nat" where
  "digit_value c = of_char c - 48"

fun dec_text :: "nat \<Rightarrow> string" where
  "dec_text n = (if n < 10 then [char_of (48 + n)] else dec_text (n div 10) @ [char_of (48 + n mod 10)])"

declare dec_text.simps [simp del]

definition dec_value :: "string \<Rightarrow> nat" where
  "dec_value s = foldl (\<lambda>v c. v * 10 + digit_value c) 0 s"

lemma digit_char [simp]: "n < 10 \<Longrightarrow> isdigit (char_of (48 + n))" "n < 10 \<Longrightarrow> digit_value (char_of (48 + n)) = n"
  by (simp_all add: isdigit_def digit_value_def)

lemma dec_text_digits: "list_all isdigit (dec_text n) \<and> dec_text n \<noteq> [] \<and> dec_value (dec_text n) = n"
proof (induction n rule: dec_text.induct)
  case (1 n)
  show ?case
  proof (cases "n < 10")
    case True
    then show ?thesis by (simp add: dec_text.simps [of n] dec_value_def)
  next
    case False
    then show ?thesis using 1 by (subst (1 2 3) dec_text.simps) (simp add: dec_value_def)
  qed
qed

lemma length_dec_text: "n < 10 ^ k \<Longrightarrow> 0 < k \<Longrightarrow> length (dec_text n) \<le> k"
proof (induction k arbitrary: n)
  case (Suc k)
  show ?case
  proof (cases "n < 10")
    case True
    then show ?thesis by (simp add: dec_text.simps [of n])
  next
    case False
    with Suc.prems have "n div 10 < 10 ^ k" "0 < k" by (auto intro: gr0I)
    with Suc.IH [of "n div 10"] False show ?thesis by (subst dec_text.simps) simp
  qed
qed simp

lemma dec_text_inject [simp]: "dec_text m = dec_text n \<longleftrightarrow> m = n"
  using dec_text_digits by metis

end
