(* ===== verification/Expression.thy ===== *)
theory Expression
  imports Decimal
begin

text \<open>
  \<^verbatim>\<open>components/expression_parser/expression_parser.c\<close>: the evaluator of parameter expressions, a
  shunting-yard over two stacks of 64 entries. The arithmetic of \<open>double\<close> is an argument: the
  record \<open>dbl\<close> has one operation for each the code uses. An index is a 32-bit \<open>size_t\<close> that
  wraps, a stack is a list with its top first, the text still to be read is a list that the code's
  index \<open>i\<close> walks over. \<open>None\<close> is a call that does not return. The payload pointer NULL with a
  length other than 0 is left out.
\<close>

abbreviation (input) EP_STACK_MAX :: nat where "EP_STACK_MAX \<equiv> 64"
abbreviation (input) SIZE_MAX :: u32 where "SIZE_MAX \<equiv> 0xFFFFFFFF"

datatype ep_err = EP_OK | EP_INVALID_ARG | EP_INVALID_SIZE | EP_FAIL

text \<open>\<open>d_zero\<close> is \<open>== 0\<close>, \<open>d_int\<close> the conversion from an integer type, \<open>d_trunc\<close> the cast
  to \<open>int\<close>, \<open>d_dec\<close> the value of a decimal numeral, \<open>d_shift\<close> what a shift gives where C does
  not define it (the flag is set for a left shift).\<close>

record 'd dbl =
  d_add :: "'d \<Rightarrow> 'd \<Rightarrow> 'd"
  d_sub :: "'d \<Rightarrow> 'd \<Rightarrow> 'd"
  d_mul :: "'d \<Rightarrow> 'd \<Rightarrow> 'd"
  d_div :: "'d \<Rightarrow> 'd \<Rightarrow> 'd"
  d_zero :: "'d \<Rightarrow> bool"
  d_int :: "int \<Rightarrow> 'd"
  d_trunc :: "'d \<Rightarrow> u32"
  d_dec :: "string \<Rightarrow> 'd"
  d_shift :: "bool \<Rightarrow> u32 \<Rightarrow> u32 \<Rightarrow> u32"

record 'd ep_env =
  e_dbl :: "'d dbl"
  e_data :: bytes
  e_v :: 'd
  e_dry :: bool

record 'd ep_ctx =
  x_operands :: "'d list"
  x_operators :: string
  x_expect :: bool
  x_unary :: bool
  x_max :: u32
  x_any :: bool
  x_err :: ep_err
  x_msg :: string

section \<open>The stacks\<close>

definition ep_fail :: "ep_err \<Rightarrow> string \<Rightarrow> 'd ep_ctx \<Rightarrow> 'd ep_ctx" where
  "ep_fail e msg c = (if x_err c = EP_OK then c\<lparr>x_err := e, x_msg := msg\<rparr> else c)"

definition push_operand :: "'d \<Rightarrow> 'd ep_ctx \<Rightarrow> 'd ep_ctx" where
  "push_operand value c =
     (if length (x_operands c) \<ge> EP_STACK_MAX then ep_fail EP_INVALID_ARG ''expression too deep'' c
      else c\<lparr>x_operands := value # x_operands c, x_expect := False, x_unary := False\<rparr>)"

text \<open>The byte itself: the code converts it to \<open>double\<close> and, where it needs it, back.\<close>

definition read_byte :: "'d ep_env \<Rightarrow> u32 \<Rightarrow> 'd ep_ctx \<Rightarrow> 'd ep_ctx \<times> u8" where
  "read_byte env index c =
     (let c1 = (if \<not> x_any c \<or> index > x_max c then c\<lparr>x_max := index, x_any := True\<rparr> else c) in
      if e_dry env then (c1, 0)
      else if unat index \<ge> length (e_data env)
      then (ep_fail EP_INVALID_SIZE ''byte reference beyond payload'' c1, 0)
      else (c1, e_data env ! unat index))"

definition precedence :: "char \<Rightarrow> nat" where
  "precedence op =
     (if op = CHR ''|'' \<or> op = CHR ''^'' then 1
      else if op = CHR ''&'' then 2
      else if op = CHR ''<'' \<or> op = CHR ''>'' then 3
      else if op = CHR ''+'' \<or> op = CHR ''-'' then 4
      else if op = CHR ''*'' \<or> op = CHR ''/'' then 5
      else 0)"

text \<open>\<open>int\<close> arithmetic on the words of two casts.\<close>

definition int_shift :: "'d dbl \<Rightarrow> bool \<Rightarrow> u32 \<Rightarrow> u32 \<Rightarrow> u32" where
  "int_shift D left a b =
     (if unat b < 32 then (if left then push_bit (unat b) a else signed_drop_bit (unat b) a)
      else d_shift D left a b)"

text \<open>The value of \<open>a op b\<close>, or the failure.\<close>

definition ep_binary :: "'d ep_env \<Rightarrow> char \<Rightarrow> 'd \<Rightarrow> 'd \<Rightarrow> ep_err \<times> string + 'd" where
  "ep_binary env op a b =
     (let D = e_dbl env; bits = (\<lambda>f. Inr (d_int D (sint (f (d_trunc D a) (d_trunc D b) :: u32)))) in
      if op = CHR ''+'' then Inr (d_add D a b)
      else if op = CHR ''-'' then Inr (d_sub D a b)
      else if op = CHR ''*'' then Inr (d_mul D a b)
      else if op = CHR ''/'' then
        (if d_zero D b then
           (if \<not> e_dry env then Inl (EP_FAIL, ''division by zero'') else Inr (d_div D a (d_int D 1)))
         else Inr (d_div D a b))
      else if op = CHR ''&'' then bits (AND)
      else if op = CHR ''|'' then bits (OR)
      else if op = CHR ''^'' then bits (XOR)
      else if op = CHR ''<'' then bits (int_shift D True)
      else if op = CHR ''>'' then bits (int_shift D False)
      else Inl (EP_INVALID_ARG, ''internal operator error''))"

definition apply_top :: "'d ep_env \<Rightarrow> 'd ep_ctx \<Rightarrow> 'd ep_ctx" where
  "apply_top env c =
     (let op = hd (x_operators c); c1 = c\<lparr>x_operators := tl (x_operators c)\<rparr> in
      case x_operands c1 of
        b # a # rest \<Rightarrow>
          (let c2 = c1\<lparr>x_operands := rest\<rparr> in
           case ep_binary env op a b of
             Inl (e, msg) \<Rightarrow> ep_fail e msg c2
           | Inr r \<Rightarrow> c2\<lparr>x_operands := r # rest\<rparr>)
      | _ \<Rightarrow> ep_fail EP_INVALID_ARG ''operator is missing an operand'' c1)"

lemma apply_top_operators [simp]: "x_operators (apply_top env c) = tl (x_operators c)"
  by (simp add: apply_top_def ep_fail_def Let_def split: list.split sum.split)

text \<open>The three loops over the operators: apply the top while it satisfies a test.\<close>

function apply_while :: "'d ep_env \<Rightarrow> (char \<Rightarrow> bool) \<Rightarrow> 'd ep_ctx \<Rightarrow> 'd ep_ctx" where
  "apply_while env P c =
     (if x_err c = EP_OK \<and> x_operators c \<noteq> [] \<and> P (hd (x_operators c))
      then apply_while env P (apply_top env c) else c)"
  by pat_completeness auto
termination
  by (relation "measure (\<lambda>(_, _, c). length (x_operators c))") auto

declare apply_while.simps [simp del]

definition push_operator :: "'d ep_env \<Rightarrow> char \<Rightarrow> 'd ep_ctx \<Rightarrow> 'd ep_ctx" where
  "push_operator env op c =
     (let c1 = apply_while env (\<lambda>x. precedence x \<ge> precedence op) c in
      if length (x_operators c1) \<ge> EP_STACK_MAX then ep_fail EP_INVALID_ARG ''expression too deep'' c1
      else c1\<lparr>x_operators := op # x_operators c1, x_expect := True\<rparr>)"

section \<open>Reading the text\<close>

definition next_is :: "char \<Rightarrow> string \<Rightarrow> bool" where
  "next_is c s \<longleftrightarrow> s \<noteq> [] \<and> hd s = c"

text \<open>The numeral \<open>strtod\<close> reads where a digit or a point starts. (After an exponent or a \<open>0x\<close>
  it would read on; the letter that follows makes the expression invalid.)\<close>

definition decimal_prefix :: "string \<Rightarrow> string" where
  "decimal_prefix s =
     (let whole = takeWhile isdigit s; rest = dropWhile isdigit s in
      if next_is (CHR ''.'') rest then whole @ CHR ''.'' # takeWhile isdigit (tl rest) else whole)"

definition parse_index :: "string \<Rightarrow> (u32 \<times> string) option" where
  "parse_index s =
     (if s = [] \<or> \<not> isdigit (hd s) then None
      else Some (foldl (\<lambda>v c. v * 10 + of_nat (digit_value c)) 0 (takeWhile isdigit s), dropWhile isdigit s))"

partial_function (option) range_loop :: "'d ep_env \<Rightarrow> u32 \<Rightarrow> u32 \<Rightarrow> u64 \<Rightarrow> 'd ep_ctx \<Rightarrow> ('d ep_ctx \<times> u64) option" where
  "range_loop env j end value c =
     (if j \<le> end \<and> x_err c = EP_OK
      then (case read_byte env j c of (c1, b) \<Rightarrow> range_loop env (j + 1) end (push_bit 8 value OR ucast b) c1)
      else Some (c, value))"

declare range_loop.simps [code]

definition range_value :: "char \<Rightarrow> u32 \<Rightarrow> u64 \<Rightarrow> int" where
  "range_value kind span value =
     (if kind = CHR ''B'' then uint value
      else if span = 1 then sint (ucast value :: u8)
      else if span = 2 then sint (ucast value :: u16)
      else if span \<le> 4 then sint (ucast value :: u32)
      else sint value)"

text \<open>A range and a reference start at the head of the text; the text after them is returned, or
  the same text when they fail.\<close>

definition parse_range :: "'d ep_env \<Rightarrow> string \<Rightarrow> 'd ep_ctx \<Rightarrow> (string \<times> 'd ep_ctx) option" where
  "parse_range env s c =
     (let bad = (\<lambda>msg. Some (s, ep_fail EP_INVALID_ARG msg c)); kind = hd (tl s) in
      if tl s = [] \<or> kind \<noteq> CHR ''B'' \<and> kind \<noteq> CHR ''S'' then bad ''range must be [B..] or [S..]''
      else
        (case parse_index (tl (tl s)) of
           None \<Rightarrow> bad ''bad range syntax''
         | Some (start, p1) \<Rightarrow>
             if \<not> next_is (CHR '':'') p1 \<or> \<not> next_is kind (tl p1) then bad ''bad range syntax''
             else
               (case parse_index (tl (tl p1)) of
                  None \<Rightarrow> bad ''bad range syntax''
                | Some (end, p2) \<Rightarrow>
                    if \<not> next_is (CHR '']'') p2 then bad ''bad range syntax''
                    else if end < start then bad ''inverted range''
                    else if end - start > 7 then bad ''range wider than 8 bytes''
                    else Option.bind (range_loop env start end 0 c) (\<lambda>(c1, value).
                      Some (if x_err c1 \<noteq> EP_OK then (s, c1)
                            else (tl p2, push_operand (d_int (e_dbl env) (range_value kind (end - start + 1) value)) c1))))))"

definition parse_byte_ref :: "'d ep_env \<Rightarrow> string \<Rightarrow> 'd ep_ctx \<Rightarrow> string \<times> 'd ep_ctx" where
  "parse_byte_ref env s c =
     (let kind = hd s in
      case parse_index (tl s) of
        None \<Rightarrow> (s, ep_fail EP_INVALID_ARG ''byte reference needs an index'' c)
      | Some (index, p) \<Rightarrow>
          (case read_byte env index c of
             (c1, b) \<Rightarrow>
               if kind \<noteq> CHR ''S'' \<and> next_is (CHR '':'') p \<and>
                  (tl p = [] \<or> \<not> isdigit (hd (tl p)) \<or> digit_value (hd (tl p)) > 7)
               then (s, ep_fail EP_INVALID_ARG ''bit index must be 0..7'' c1)
               else
                 let (value, p1) =
                   (if kind = CHR ''S'' then (sint b, p)
                    else if next_is (CHR '':'') p
                    then (uint (drop_bit (digit_value (hd (tl p))) b AND 1), tl (tl p))
                    else (uint b, p))
                 in if x_err c1 \<noteq> EP_OK then (s, c1) else (p1, push_operand (d_int (e_dbl env) value) c1)))"

section \<open>The evaluator\<close>

definition is_operator :: "string \<Rightarrow> bool" where
  "is_operator s \<longleftrightarrow> hd s \<in> set ''+-*/&|^'' \<or>
     hd s = CHR ''<'' \<and> next_is (CHR ''<'') (tl s) \<or> hd s = CHR ''>'' \<and> next_is (CHR ''>'') (tl s)"

definition close_paren :: "'d ep_env \<Rightarrow> 'd ep_ctx \<Rightarrow> 'd ep_ctx" where
  "close_paren env c =
     (let c1 = apply_while env (\<lambda>x. x \<noteq> CHR ''('') c;
          c2 = (if x_err c1 = EP_OK \<and> (x_operators c1 = [] \<or> hd (x_operators c1) \<noteq> CHR ''('')
                then ep_fail EP_INVALID_ARG ''mismatched parentheses'' c1 else c1)
      in if x_err c2 = EP_OK then c2\<lparr>x_operators := tl (x_operators c2)\<rparr> else c2)"

definition open_paren :: "'d ep_ctx \<Rightarrow> 'd ep_ctx" where
  "open_paren c =
     (if length (x_operators c) \<ge> EP_STACK_MAX then ep_fail EP_INVALID_ARG ''expression too deep'' c
      else c\<lparr>x_operators := CHR ''('' # x_operators c, x_expect := True, x_unary := True\<rparr>)"

definition ep_negate :: "'d ep_env \<Rightarrow> 'd ep_ctx \<Rightarrow> 'd ep_ctx" where
  "ep_negate env c = push_operator env (CHR ''-'') ((push_operand (d_int (e_dbl env) 0) c)\<lparr>x_expect := True\<rparr>)"

partial_function (option) ep_loop :: "'d ep_env \<Rightarrow> string \<Rightarrow> 'd ep_ctx \<Rightarrow> 'd ep_ctx option" where
  "ep_loop env s c =
     (if s = [] \<or> x_err c \<noteq> EP_OK then Some c
      else if isspace (hd s) then ep_loop env (tl s) c
      else if isdigit (hd s) \<or> hd s = CHR ''.'' then
        ep_loop env (dropWhile (\<lambda>x. isdigit x \<or> x = CHR ''.'') s) (push_operand (d_dec (e_dbl env) (decimal_prefix s)) c)
      else if hd s = CHR ''V'' then ep_loop env (tl s) (push_operand (e_v env) c)
      else if hd s = CHR ''['' then
        Option.bind (parse_range env s c) (\<lambda>(s1, c1). ep_loop env s1 c1)
      else if hd s = CHR ''B'' \<or> hd s = CHR ''S'' then
        (case parse_byte_ref env s c of (s1, c1) \<Rightarrow> ep_loop env s1 c1)
      else if hd s = CHR ''('' then ep_loop env (tl s) (open_paren c)
      else if hd s = CHR '')'' then ep_loop env (tl s) (close_paren env c)
      else if hd s = CHR ''-'' \<and> x_unary c then ep_loop env (tl s) (ep_negate env c)
      else if is_operator s then
        (if x_expect c then Some (ep_fail EP_INVALID_ARG ''operator where a value was expected'' c)
         else ep_loop env (if hd s = CHR ''<'' \<or> hd s = CHR ''>'' then tl (tl s) else tl s) (push_operator env (hd s) c))
      else Some (ep_fail EP_INVALID_ARG ''invalid character'' c))"

declare ep_loop.simps [code]

definition ep_start :: "'d ep_ctx" where
  "ep_start = \<lparr>x_operands = [], x_operators = [], x_expect = True, x_unary = True, x_max = 0, x_any = False,
     x_err = EP_OK, x_msg = []\<rparr>"

definition ep_finish :: "'d ep_env \<Rightarrow> 'd ep_ctx \<Rightarrow> 'd ep_ctx" where
  "ep_finish env c =
     (let c1 = apply_while env (\<lambda>x. x \<noteq> CHR ''('') c;
          c2 = (if x_err c1 = EP_OK \<and> x_operators c1 \<noteq> []
                then ep_fail EP_INVALID_ARG ''mismatched parentheses'' c1 else c1)
      in if x_err c2 = EP_OK \<and> length (x_operands c2) \<noteq> 1
         then ep_fail EP_INVALID_ARG ''expression yields no single value'' c2 else c2)"

definition ep_evaluate :: "'d ep_env \<Rightarrow> string \<Rightarrow> 'd ep_ctx option" where
  "ep_evaluate env s = map_option (ep_finish env) (ep_loop env s ep_start)"

text \<open>The error and the result that is written with \<open>ESP_OK\<close>; the flag says whether the result
  pointer was given.\<close>

definition expression_parser_eval ::
    "'d dbl \<Rightarrow> string option \<Rightarrow> bytes \<Rightarrow> 'd \<Rightarrow> bool \<Rightarrow> (ep_err \<times> 'd option) option" where
  "expression_parser_eval D expr data v has_result =
     (case expr of
        None \<Rightarrow> Some (EP_INVALID_ARG, None)
      | Some s \<Rightarrow>
          if \<not> has_result then Some (EP_INVALID_ARG, None)
          else map_option (\<lambda>c. (x_err c, if x_err c = EP_OK then Some (hd (x_operands c)) else None))
            (ep_evaluate \<lparr>e_dbl = D, e_data = data, e_v = v, e_dry = False\<rparr> s))"

text \<open>The error, the highest index, and what is written into a message buffer of \<open>err_len\<close> bytes.\<close>

definition expression_parser_check ::
    "'d dbl \<Rightarrow> string option \<Rightarrow> nat \<Rightarrow> (ep_err \<times> u32 \<times> string option) option" where
  "expression_parser_check D expr err_len =
     (let say = (\<lambda>msg. if err_len > 0 then Some (take (err_len - 1) msg) else None) in
      case expr of
        None \<Rightarrow> Some (EP_INVALID_ARG, SIZE_MAX, say ''no expression'')
      | Some s \<Rightarrow>
          map_option (\<lambda>c. if x_err c \<noteq> EP_OK then (EP_INVALID_ARG, SIZE_MAX, say (x_msg c))
                          else (EP_OK, if x_any c then x_max c else SIZE_MAX, None))
            (ep_evaluate \<lparr>e_dbl = D, e_data = [], e_v = d_int D 0, e_dry = True\<rparr> s))"

end
