(* ===== verification/Expression_Spec.thy ===== *)
theory Expression_Spec
  imports Complex_Main Expression
begin

text \<open>
  The grammar of the parameter expressions with its five levels of precedence, the value of an
  expression, and that the evaluator of \<^verbatim>\<open>Expression\<close> computes it.
\<close>

section \<open>Expressions and their values\<close>

datatype ep_expr =
    E_Num string | E_V | E_Byte nat | E_Bit nat nat | E_Signed nat | E_Range bool nat nat
  | E_Neg ep_expr | E_Bin char ep_expr ep_expr

definition big_endian :: "bytes \<Rightarrow> int" where
  "big_endian bs = foldl (\<lambda>v b. v * 256 + uint b) 0 bs"

text \<open>Two's complement of \<open>k\<close> bits.\<close>

definition as_signed :: "nat \<Rightarrow> int \<Rightarrow> int" where
  "as_signed k n = (if n < 2 ^ (k - 1) then n else n - 2 ^ k)"

definition container_bits :: "nat \<Rightarrow> nat" where
  "container_bits w = (if w = 1 then 8 else if w = 2 then 16 else if w \<le> 4 then 32 else 64)"

definition range_int :: "bytes \<Rightarrow> bool \<Rightarrow> nat \<Rightarrow> nat \<Rightarrow> int" where
  "range_int data sg lo hi =
     (let n = big_endian (drop lo (take (Suc hi) data)) in
      if sg then as_signed (container_bits (Suc hi - lo)) n else n)"

definition byte_or_error :: "bytes \<Rightarrow> nat \<Rightarrow> 'd \<Rightarrow> ep_err + 'd" where
  "byte_or_error data n x = (if n < length data then Inr x else Inl EP_INVALID_SIZE)"

fun ep_value :: "'d dbl \<Rightarrow> bytes \<Rightarrow> 'd \<Rightarrow> ep_expr \<Rightarrow> ep_err + 'd" where
  "ep_value D data v (E_Num s) = Inr (d_dec D s)"
| "ep_value D data v E_V = Inr v"
| "ep_value D data v (E_Byte n) = byte_or_error data n (d_int D (uint (data ! n)))"
| "ep_value D data v (E_Bit n k) = byte_or_error data n (d_int D (uint (data ! n) div 2 ^ k mod 2))"
| "ep_value D data v (E_Signed n) = byte_or_error data n (d_int D (as_signed 8 (uint (data ! n))))"
| "ep_value D data v (E_Range sg lo hi) = byte_or_error data hi (d_int D (range_int data sg lo hi))"
| "ep_value D data v (E_Neg e) =
     (case ep_value D data v e of Inl y \<Rightarrow> Inl y | Inr b \<Rightarrow> Inr (d_sub D (d_int D 0) b))"
| "ep_value D data v (E_Bin op l r) =
     (case ep_value D data v l of
        Inl y \<Rightarrow> Inl y
      | Inr a \<Rightarrow>
          (case ep_value D data v r of
             Inl y \<Rightarrow> Inl y
           | Inr b \<Rightarrow>
               (case ep_binary \<lparr>e_dbl = D, e_data = data, e_v = v, e_dry = False\<rparr> op a b of
                  Inl (y, _) \<Rightarrow> Inl y
                | Inr x \<Rightarrow> Inr x)))"

section \<open>The grammar\<close>

definition decimal :: "string \<Rightarrow> nat \<Rightarrow> bool" where
  "decimal ds n \<longleftrightarrow> ds \<noteq> [] \<and> list_all isdigit ds \<and> n = foldl (\<lambda>v c. v * 10 + digit_value c) 0 ds \<and> n < 4294967295"

inductive ep_leaf :: "ep_expr \<Rightarrow> string \<Rightarrow> bool" where
  num: "s \<noteq> [] \<Longrightarrow> list_all (\<lambda>c. isdigit c \<or> c = CHR ''.'') s \<Longrightarrow> ep_leaf (E_Num (decimal_prefix s)) s"
| volt: "ep_leaf E_V ''V''"
| byte: "decimal ds n \<Longrightarrow> ep_leaf (E_Byte n) (CHR ''B'' # ds)"
| bit: "decimal ds n \<Longrightarrow> isdigit k \<Longrightarrow> digit_value k \<le> 7 \<Longrightarrow>
    ep_leaf (E_Bit n (digit_value k)) (CHR ''B'' # ds @ CHR '':'' # [k])"
| signed: "decimal ds n \<Longrightarrow> ep_leaf (E_Signed n) (CHR ''S'' # ds)"
| range: "decimal ds lo \<Longrightarrow> decimal es hi \<Longrightarrow> lo \<le> hi \<Longrightarrow> hi \<le> lo + 7 \<Longrightarrow> kind = (if sg then CHR ''S'' else CHR ''B'') \<Longrightarrow>
    ep_leaf (E_Range sg lo hi) (CHR ''['' # kind # ds @ CHR '':'' # kind # es @ '']'')"

inductive ep_op :: "char \<Rightarrow> string \<Rightarrow> bool" where
  one: "op \<in> set ''+-*/&|^'' \<Longrightarrow> ep_op op [op]"
| two: "op = CHR ''<'' \<or> op = CHR ''>'' \<Longrightarrow> ep_op op [op, op]"

text \<open>\<open>ep_text first p d e s\<close>: the text \<open>s\<close> denotes \<open>e\<close>, its operators outside parentheses bind at
  least as tight as \<open>p\<close>, its parentheses are nested at most \<open>d\<close> deep. \<open>first\<close> says that it stands
  at the start of the expression or after a parenthesis, where a sign may stand.\<close>

inductive ep_text :: "bool \<Rightarrow> nat \<Rightarrow> nat \<Rightarrow> ep_expr \<Rightarrow> string \<Rightarrow> bool" where
  leaf: "ep_leaf e s \<Longrightarrow> ep_text first 6 d e s"
| paren: "ep_text True 1 d e s \<Longrightarrow> ep_text first 6 (Suc d) e (CHR ''('' # s @ '')'')"
| bin: "ep_text first p d l s \<Longrightarrow> ep_text False (Suc p) d r s' \<Longrightarrow> ep_op op t \<Longrightarrow> precedence op = p \<Longrightarrow>
    ep_text first p d (E_Bin op l r) (s @ t @ s')"
| neg: "ep_text False 5 d e s \<Longrightarrow> ep_text True 4 d (E_Neg e) (CHR ''-'' # s)"
| up: "ep_text first (Suc p) d e s \<Longrightarrow> 1 \<le> p \<Longrightarrow> ep_text first p d e s"
| space_before: "ep_text first p d e s \<Longrightarrow> isspace c \<Longrightarrow> ep_text first p d e (c # s)"
| space_after: "ep_text first p d e s \<Longrightarrow> isspace c \<Longrightarrow> ep_text first p d e (s @ [c])"

section \<open>The loops over the operators\<close>

lemma fail_sel [simp]:
  "x_err c \<noteq> EP_OK \<Longrightarrow> ep_fail e m c = c" "x_err c = EP_OK \<Longrightarrow> x_err (ep_fail e m c) = e"
  by (simp_all add: ep_fail_def)

lemma apply_while_stop [simp]:
  "x_err c \<noteq> EP_OK \<Longrightarrow> apply_while env P c = c"
  "x_operators c = [] \<Longrightarrow> apply_while env P c = c"
  "\<not> P (hd (x_operators c)) \<Longrightarrow> apply_while env P c = c"
  by (simp_all add: apply_while.simps [of env P c])

lemma apply_while_step:
  "x_err c = EP_OK \<Longrightarrow> x_operators c = x # xs \<Longrightarrow> P x \<Longrightarrow> apply_while env P c = apply_while env P (apply_top env c)"
  by (subst apply_while.simps) simp

lemma apply_while_twice:
  assumes "\<And>x. P x \<Longrightarrow> Q x"
  shows "apply_while env Q (apply_while env P c) = apply_while env Q c"
  using assms
proof (induction env P c rule: apply_while.induct)
  case (1 env P c)
  show ?case
  proof (cases "x_err c = EP_OK \<and> x_operators c \<noteq> [] \<and> P (hd (x_operators c))")
    case True
    then have "Q (hd (x_operators c))" using "1.prems" by blast
    with True 1 show ?thesis by (simp add: apply_while.simps [of env P c] apply_while.simps [of env Q c])
  next
    case False
    then have "apply_while env P c = c" by (subst apply_while.simps) auto
    then show ?thesis by simp
  qed
qed

lemma apply_top_flags [simp]:
  "x_expect (apply_top env c) = x_expect c" "x_unary (apply_top env c) = x_unary c"
  "x_max (apply_top env c) = x_max c" "x_any (apply_top env c) = x_any c"
  by (simp_all add: apply_top_def ep_fail_def Let_def split: list.split sum.split)

lemma apply_while_flags [simp]:
  "x_expect (apply_while env P c) = x_expect c" "x_unary (apply_while env P c) = x_unary c"
  "x_max (apply_while env P c) = x_max c" "x_any (apply_while env P c) = x_any c"
  by (induction env P c rule: apply_while.induct; subst apply_while.simps; simp)+

section \<open>One step of the evaluator\<close>

lemma loop_done [simp]: "x_err c \<noteq> EP_OK \<Longrightarrow> ep_loop env s c = Some c" "ep_loop env [] c = Some c"
  by (simp_all add: ep_loop.simps)

lemma loop_space [simp]: "isspace ch \<Longrightarrow> ep_loop env (ch # s) c = ep_loop env s c"
  by (cases "x_err c = EP_OK") (simp_all add: ep_loop.simps [of env "ch # s"])

definition boundary :: "string \<Rightarrow> bool" where
  "boundary s \<longleftrightarrow> s = [] \<or> \<not> isdigit (hd s) \<and> hd s \<noteq> CHR ''.'' \<and> hd s \<noteq> CHR '':''"

lemma digits_boundary:
  assumes "list_all P ds" "rest = [] \<or> \<not> P (hd rest)"
  shows "takeWhile P (ds @ rest) = ds" "dropWhile P (ds @ rest) = rest"
  using assms by (induction ds; cases rest; simp)+

lemma decimal_index:
  assumes "decimal ds n" "rest = [] \<or> \<not> isdigit (hd rest)"
  shows "parse_index (ds @ rest) = Some (of_nat n, rest)"
proof -
  have "foldl (\<lambda>v c. v * 10 + of_nat (digit_value c)) (of_nat m) xs =
      (of_nat (foldl (\<lambda>v c. v * 10 + digit_value c) m xs) :: u32)" for m xs
  proof (induction xs arbitrary: m)
    case (Cons c xs)
    have "of_nat m * 10 + of_nat (digit_value c) = (of_nat (m * 10 + digit_value c) :: u32)" by simp
    then show ?case using Cons [of "m * 10 + digit_value c"] by (simp only: foldl.simps)
  qed simp
  from this [of 0 ds] have "foldl (\<lambda>v c. v * 10 + of_nat (digit_value c)) 0 ds = (of_nat n :: u32)"
    using assms(1) by (simp add: decimal_def)
  moreover have "ds @ rest \<noteq> []" "isdigit (hd (ds @ rest))" using assms(1) by (auto simp: decimal_def list_all_iff)
  ultimately show ?thesis
    using assms by (simp add: parse_index_def digits_boundary decimal_def)
qed

section \<open>Operands\<close>

text \<open>What is left behind when the value \<open>r\<close> has been computed from the context \<open>c\<close>.\<close>

definition ep_done :: "ep_err + 'd \<Rightarrow> 'd ep_ctx \<Rightarrow> 'd ep_ctx \<Rightarrow> bool" where
  "ep_done r c c' \<longleftrightarrow>
     (case r of
        Inl y \<Rightarrow> y \<noteq> EP_OK \<and> x_err c' = y
      | Inr v \<Rightarrow> x_err c' = EP_OK \<and> x_operands c' = v # x_operands c \<and> x_operators c' = x_operators c \<and>
          \<not> x_expect c' \<and> \<not> x_unary c')"

definition same_stacks :: "'d ep_ctx \<Rightarrow> 'd ep_ctx \<Rightarrow> bool" where
  "same_stacks c c' \<longleftrightarrow> x_operands c' = x_operands c \<and> x_operators c' = x_operators c"

lemma push_done:
  "x_err c' = EP_OK \<Longrightarrow> same_stacks c c' \<Longrightarrow> length (x_operands c) < EP_STACK_MAX \<Longrightarrow> ep_done (Inr v) c (push_operand v c')"
  by (simp add: push_operand_def ep_done_def same_stacks_def)

lemma read_byte_real:
  assumes "\<not> e_dry env" "n < 4294967296" "x_err c = EP_OK"
  shows "\<exists>c1. read_byte env (of_nat n) c = (c1, if n < length (e_data env) then e_data env ! n else 0) \<and>
    x_err c1 = (if n < length (e_data env) then EP_OK else EP_INVALID_SIZE) \<and> same_stacks c c1"
  using assms by (simp add: read_byte_def ep_fail_def same_stacks_def unat_of_nat_small Let_def not_le)

lemma range_loop_stop: "x_err c \<noteq> EP_OK \<or> end < j \<Longrightarrow> range_loop env j end w c = Some (c, w)"
  by (subst range_loop.simps) auto

lemma range_loop_real:
  assumes "\<not> e_dry env" "hi < 4294967295" "x_err c = EP_OK" "lo \<le> Suc hi" "n = Suc hi - lo"
  shows "\<exists>c1 w'. range_loop env (of_nat lo) (of_nat hi) w c = Some (c1, w') \<and> same_stacks c c1 \<and>
    x_err c1 = (if lo \<le> hi \<and> length (e_data env) \<le> hi then EP_INVALID_SIZE else EP_OK) \<and>
    (hi < length (e_data env) \<longrightarrow> w' = foldl (\<lambda>v b. push_bit 8 v OR ucast b) w (drop lo (take (Suc hi) (e_data env))))"
  using assms
proof (induction n arbitrary: lo w c)
  case 0
  then have "lo = Suc hi" by simp
  moreover from this 0 have "(of_nat hi :: u32) < of_nat lo"
    by (simp add: word_less_nat_alt unat_of_nat_small del: of_nat_Suc)
  ultimately show ?case using 0 by (simp add: range_loop_stop same_stacks_def)
next
  case (Suc n)
  then have le: "lo \<le> hi" by simp
  with Suc.prems have "(of_nat lo :: u32) \<le> of_nat hi" by (simp add: word_le_nat_alt unat_of_nat_small)
  then have step: "range_loop env (of_nat lo) (of_nat hi) w c =
      (case read_byte env (of_nat lo) c of (c1, b) \<Rightarrow> range_loop env (of_nat (Suc lo)) (of_nat hi) (push_bit 8 w OR ucast b) c1)"
    using Suc.prems by (subst range_loop.simps) (simp add: add.commute)
  from read_byte_real [of env lo c] Suc.prems le obtain c1 where c1:
    "read_byte env (of_nat lo) c = (c1, if lo < length (e_data env) then e_data env ! lo else 0)"
    "x_err c1 = (if lo < length (e_data env) then EP_OK else EP_INVALID_SIZE)" "same_stacks c c1" by auto
  show ?case
  proof (cases "lo < length (e_data env)")
    case False
    with c1 step le show ?thesis by (simp add: range_loop_stop del: of_nat_Suc)
  next
    case True
    have "drop lo (take (Suc hi) (e_data env)) = e_data env ! lo # drop (Suc lo) (take (Suc hi) (e_data env))"
      if "hi < length (e_data env)" using that le by (simp add: Cons_nth_drop_Suc [symmetric])
    with Suc.IH [of c1 "Suc lo" "push_bit 8 w OR ucast (e_data env ! lo)"] Suc.prems c1 step le True
    show ?thesis by (auto simp: same_stacks_def simp del: of_nat_Suc)
  qed
qed

text \<open>The words are the numbers.\<close>

lemma uint_shift_in:
  assumes "uint (w :: u64) < 2 ^ 56"
  shows "uint (push_bit 8 w OR ucast (b :: u8)) = uint w * 256 + uint b"
proof -
  have "push_bit 8 w AND ucast b = 0" by (rule bit_word_eqI) (auto simp: bit_simps dest: bit_imp_le_length)
  from disjunctive_add_eq_or [OF this] have "push_bit 8 w OR ucast b = w * 256 + ucast b"
    by (simp add: push_bit_eq_mult mult.commute)
  moreover have "uint (ucast b :: u64) = uint b" "uint b < 256"
    using unsigned_less [of b, where 'a = int] by (simp_all add: unsigned_ucast_eq take_bit_int_eq_self)
  moreover have "uint (w * 256 + ucast b) = (uint w * 256 + uint b) mod 2 ^ 64"
    using calculation(2) by (simp add: uint_word_ariths mod_simps)
  moreover have "0 \<le> uint w" "0 \<le> uint b" by simp_all
  ultimately show ?thesis using assms by simp
qed

lemma big_endian_word:
  assumes "length bs \<le> 8"
  shows "uint (foldl (\<lambda>v b. push_bit 8 v OR ucast b) (0 :: u64) bs) = big_endian bs \<and> 0 \<le> big_endian bs \<and>
    big_endian bs < 256 ^ length bs"
  using assms
proof (induction bs rule: rev_induct)
  case Nil
  then show ?case by (simp add: big_endian_def)
next
  case (snoc b bs)
  have "(256 :: int) ^ length bs \<le> 256 ^ 7" using snoc.prems by (intro power_increasing) simp_all
  then have "uint (foldl (\<lambda>v b. push_bit 8 v OR ucast b) (0 :: u64) bs) < 2 ^ 56" using snoc by simp
  from uint_shift_in [OF this, of b] snoc unsigned_less [of b, where 'a = int] show ?case
    by (simp add: big_endian_def)
qed

lemma sint_signed:
  assumes "LENGTH('a) = Suc k"
  shows "sint (w :: 'a::len word) = as_signed (Suc k) (uint w)"
proof -
  have b: "0 \<le> uint w" "uint w < 2 * 2 ^ k" using unsigned_less [of w, where 'a = int] assms by simp_all
  have "bit (uint w) k \<longleftrightarrow> \<not> uint w < 2 ^ k"
  proof (cases "uint w < 2 ^ k")
    case True
    with b show ?thesis by (simp add: bit_iff_odd)
  next
    case False
    with b have "uint w div 2 ^ k = 1" by (simp add: int_div_pos_eq [where r = "uint w - 2 ^ k"])
    with False show ?thesis by (simp add: bit_iff_odd)
  qed
  then show ?thesis
    using assms b by (simp add: sint_uint signed_take_bit_eq_take_bit_minus take_bit_int_eq_self as_signed_def)
qed

lemma range_value_int:
  assumes "0 \<le> n" "n < 256 ^ k" "1 \<le> k" "k \<le> 8" "uint w = n"
  shows "range_value CHR ''B'' s w = n"
    "range_value CHR ''S'' (of_nat k) w = as_signed (container_bits k) n"
proof -
  show "range_value CHR ''B'' s w = n" using assms by (simp add: range_value_def)
  have le: "n < 256 ^ m" if "k \<le> m" for m
    using assms(2) that power_increasing [of k m "256 :: int"] by linarith
  have u: "uint (ucast w :: 'a::len word) = n" if "LENGTH('a) = 8 * m" "k \<le> m" for m
  proof -
    have "(256 :: int) ^ m = 2 ^ (8 * m)" by (simp add: power_mult)
    then show ?thesis using le [OF that(2)] that assms by (simp add: unsigned_ucast_eq take_bit_int_eq_self)
  qed
  have "k \<in> {1, 2, 3, 4} \<union> {5, 6, 7, 8}" using assms(3,4) by auto
  then have "k = 1 \<or> k = 2 \<or> k = 3 \<or> k = 4 \<or> k \<in> {5, 6, 7, 8}" by auto
  moreover have "(of_nat k :: u32) \<noteq> 1 \<and> (of_nat k :: u32) \<noteq> 2 \<and> \<not> (of_nat k :: u32) \<le> 4" if "k \<in> {5, 6, 7, 8}"
    using that by auto
  moreover have "uint (ucast w :: u8) = n" if "k = 1" using that by (intro u [of 1]) simp_all
  moreover have "uint (ucast w :: u16) = n" if "k = 2" using that by (intro u [of 2]) simp_all
  moreover have "uint (ucast w :: u32) = n" if "k \<le> 4" using that by (intro u [of 4]) simp_all
  ultimately show "range_value CHR ''S'' (of_nat k) w = as_signed (container_bits k) n"
    using assms(5) sint_signed [of 7 "ucast w :: u8"] sint_signed [of 15 "ucast w :: u16"]
      sint_signed [of 31 "ucast w :: u32"] sint_signed [of 63 w]
    by (elim disjE) (auto simp: range_value_def container_bits_def)
qed

lemma digit_not_space: "isdigit ch \<Longrightarrow> \<not> isspace ch"
  by (auto simp: isdigit_def isspace_def Let_def)

lemma not_digit [simp]: "\<not> isdigit CHR ''.''" "\<not> isdigit CHR '':''" "\<not> isdigit CHR '']''" "\<not> isdigit CHR ''V''"
  "\<not> isdigit CHR ''B''" "\<not> isdigit CHR ''S''" "\<not> isdigit CHR ''[''" "\<not> isdigit CHR ''(''" "\<not> isdigit CHR '')''"
  "\<not> isdigit CHR ''+''" "\<not> isdigit CHR ''-''" "\<not> isdigit CHR ''*''" "\<not> isdigit CHR ''/''" "\<not> isdigit CHR ''&''"
  "\<not> isdigit CHR ''|''" "\<not> isdigit CHR ''^''" "\<not> isdigit CHR ''<''" "\<not> isdigit CHR ''>''"
  by (simp_all add: isdigit_def)

lemma not_space [simp]: "\<not> isspace CHR ''.''" "\<not> isspace CHR ''V''"
  "\<not> isspace CHR ''B''" "\<not> isspace CHR ''S''" "\<not> isspace CHR ''[''" "\<not> isspace CHR ''(''" "\<not> isspace CHR '')''"
  "\<not> isspace CHR ''+''" "\<not> isspace CHR ''-''" "\<not> isspace CHR ''*''" "\<not> isspace CHR ''/''" "\<not> isspace CHR ''&''"
  "\<not> isspace CHR ''|''" "\<not> isspace CHR ''^''" "\<not> isspace CHR ''<''" "\<not> isspace CHR ''>''"
  by (simp_all add: isspace_def)

lemma decimal_lookahead:
  assumes "boundary rest \<or> (\<exists>k r. rest = k # r \<and> \<not> isdigit k)"
  shows "rest = [] \<or> \<not> isdigit (hd rest)"
  using assms by (auto simp: boundary_def)

lemma digits_boundary':
  assumes "boundary rest"
  shows "takeWhile isdigit (s @ rest) = takeWhile isdigit s" "dropWhile isdigit (s @ rest) = dropWhile isdigit s @ rest"
  using assms by (induction s; cases rest; simp add: boundary_def)+

lemma decimal_prefix_number:
  assumes "boundary rest"
  shows "decimal_prefix (s @ rest) = decimal_prefix s"
proof (cases "dropWhile isdigit s")
  case Nil
  with assms show ?thesis
    by (simp only: decimal_prefix_def digits_boundary' [OF assms]) (auto simp: next_is_def boundary_def)
next
  case (Cons a t)
  then show ?thesis by (simp add: decimal_prefix_def digits_boundary' [OF assms] next_is_def Let_def)
qed

lemma bit_int: "uint (drop_bit k (b :: u8) AND 1) = uint b div 2 ^ k mod 2"
  proof -
  have "uint (drop_bit k b) = uint b div 2 ^ k"
    using unsigned_less [of b, where 'a = int]
    by (simp add: unsigned_drop_bit_eq drop_bit_eq_div [where 'a = int] take_bit_int_eq_self)
  then show ?thesis by (simp add: and_one_eq uint_mod)
qed

lemma byte_ref_run:
  assumes "decimal ds n" "q = [] \<or> \<not> isdigit (hd q)" "x_err c = EP_OK" "\<not> e_dry env"
    and "kind = CHR ''S'' \<or> \<not> next_is (CHR '':'') q \<or> tl q \<noteq> [] \<and> isdigit (hd (tl q)) \<and> digit_value (hd (tl q)) \<le> 7"
  defines "x \<equiv> (if kind = CHR ''S'' then as_signed 8 (uint (e_data env ! n))
      else if next_is (CHR '':'') q then uint (e_data env ! n) div 2 ^ digit_value (hd (tl q)) mod 2
      else uint (e_data env ! n))"
    and "q1 \<equiv> (if kind \<noteq> CHR ''S'' \<and> next_is (CHR '':'') q then tl (tl q) else q)"
  shows "\<exists>c1. same_stacks c c1 \<and> x_err c1 = (if n < length (e_data env) then EP_OK else EP_INVALID_SIZE) \<and>
    parse_byte_ref env (kind # ds @ q) c =
      (if n < length (e_data env) then (q1, push_operand (d_int (e_dbl env) x) c1) else (kind # ds @ q, c1))"
proof -
  from read_byte_real [of env n c] assms obtain c1 where c1:
    "read_byte env (of_nat n) c = (c1, if n < length (e_data env) then e_data env ! n else 0)"
    "x_err c1 = (if n < length (e_data env) then EP_OK else EP_INVALID_SIZE)" "same_stacks c c1"
    by (auto simp: decimal_def)
  have s: "sint (e_data env ! n) = as_signed 8 (uint (e_data env ! n))"
    using sint_signed [of 7 "e_data env ! n"] by simp
  from decimal_index [OF assms(1,2)] c1 assms(5) show ?thesis
    by (intro exI [of _ c1]) (auto simp: parse_byte_ref_def x_def q1_def s bit_int not_less)
qed

lemma loop_byte_ref:
  assumes "x_err c = EP_OK" "kind = CHR ''B'' \<or> kind = CHR ''S''"
  shows "ep_loop env (kind # s) c = (case parse_byte_ref env (kind # s) c of (s1, c1) \<Rightarrow> ep_loop env s1 c1)"
  using assms by (subst ep_loop.simps) auto

lemma byte_or_error_done:
  assumes "x_err c' = (if n < length data then EP_OK else EP_INVALID_SIZE)" "same_stacks c c'" "length (x_operands c) < EP_STACK_MAX"
  shows "ep_done (byte_or_error data n x) c (if n < length data then push_operand x c' else c')"
  using assms push_done [of c' c x] by (simp add: byte_or_error_def ep_done_def)

lemma leaf_run:
  assumes "ep_leaf e s" "boundary rest" "x_err c = EP_OK" "length (x_operands c) < EP_STACK_MAX" "\<not> e_dry env"
  shows "\<exists>c'. ep_loop env (s @ rest) c = ep_loop env rest c' \<and>
    ep_done (ep_value (e_dbl env) (e_data env) (e_v env) e) c c'"
  using assms
proof (cases rule: ep_leaf.cases)
  case num
  then have "s @ rest \<noteq> []" and hd: "isdigit (hd (s @ rest)) \<or> hd (s @ rest) = CHR ''.''" by (cases s; auto)+
  moreover have "dropWhile (\<lambda>x. isdigit x \<or> x = CHR ''.'') (s @ rest) = rest"
    using num assms(2) by (intro digits_boundary) (auto simp: boundary_def)
  moreover have "\<not> isspace (hd (s @ rest))" using hd digit_not_space by auto
  moreover have "s \<noteq> []" using num by simp
  ultimately have "ep_loop env (s @ rest) c = ep_loop env rest (push_operand (d_dec (e_dbl env) (decimal_prefix s)) c)"
    using assms(3) by (subst ep_loop.simps) (simp add: decimal_prefix_number [OF assms(2)])
  then show ?thesis using num push_done [OF assms(3) _ assms(4)] by (auto simp: same_stacks_def)
next
  case volt
  then have "ep_loop env (s @ rest) c = ep_loop env rest (push_operand (e_v env) c)"
    using assms(3) by (subst ep_loop.simps) simp
  then show ?thesis using volt push_done [OF assms(3) _ assms(4)] by (auto simp: same_stacks_def)
next
  case (byte ds n)
  from byte_ref_run [of ds n rest c env "CHR ''B''"] byte assms obtain c1 where c1: "same_stacks c c1"
    "x_err c1 = (if n < length (e_data env) then EP_OK else EP_INVALID_SIZE)"
    "parse_byte_ref env (CHR ''B'' # ds @ rest) c =
      (if n < length (e_data env) then (rest, push_operand (d_int (e_dbl env) (uint (e_data env ! n))) c1)
       else (CHR ''B'' # ds @ rest, c1))" by (auto simp: boundary_def next_is_def)
  from byte_or_error_done [OF c1(2,1) assms(4)] c1 byte assms(3) show ?thesis
    by (intro exI [of _ "if n < length (e_data env) then push_operand (d_int (e_dbl env) (uint (e_data env ! n))) c1 else c1"])
      (auto simp: loop_byte_ref)
next
  case (bit ds n k)
  let ?x = "d_int (e_dbl env) (uint (e_data env ! n) div 2 ^ digit_value k mod 2)"
  from byte_ref_run [of ds n "CHR '':'' # k # rest" c env "CHR ''B''"] bit assms obtain c1 where c1: "same_stacks c c1"
    "x_err c1 = (if n < length (e_data env) then EP_OK else EP_INVALID_SIZE)"
    "parse_byte_ref env (CHR ''B'' # ds @ CHR '':'' # k # rest) c =
      (if n < length (e_data env) then (rest, push_operand ?x c1) else (CHR ''B'' # ds @ CHR '':'' # k # rest, c1))"
    by (auto simp: next_is_def)
  from byte_or_error_done [OF c1(2,1) assms(4)] c1 bit assms(3) show ?thesis
    by (intro exI [of _ "if n < length (e_data env) then push_operand ?x c1 else c1"]) (auto simp: loop_byte_ref)
next
  case (signed ds n)
  let ?x = "d_int (e_dbl env) (as_signed 8 (uint (e_data env ! n)))"
  from byte_ref_run [of ds n rest c env "CHR ''S''"] signed assms obtain c1 where c1: "same_stacks c c1"
    "x_err c1 = (if n < length (e_data env) then EP_OK else EP_INVALID_SIZE)"
    "parse_byte_ref env (CHR ''S'' # ds @ rest) c =
      (if n < length (e_data env) then (rest, push_operand ?x c1) else (CHR ''S'' # ds @ rest, c1))"
    by (auto simp: boundary_def next_is_def)
  from byte_or_error_done [OF c1(2,1) assms(4)] c1 signed assms(3) show ?thesis
    by (intro exI [of _ "if n < length (e_data env) then push_operand ?x c1 else c1"]) (auto simp: loop_byte_ref)
next
  case (range ds lo es hi kind sg)
  let ?x = "d_int (e_dbl env) (range_int (e_data env) sg lo hi)"
    and ?s = "CHR ''['' # kind # ds @ CHR '':'' # kind # es @ CHR '']'' # rest"
  have n: "lo < 4294967295" "hi < 4294967295" using range by (simp_all add: decimal_def)
  from range_loop_real [of env hi c lo "Suc hi - lo" 0] n range assms(3,5) obtain c1 w where c1:
    "range_loop env (of_nat lo) (of_nat hi) 0 c = Some (c1, w)" "same_stacks c c1"
    "x_err c1 = (if hi < length (e_data env) then EP_OK else EP_INVALID_SIZE)"
    "hi < length (e_data env) \<longrightarrow> w = foldl (\<lambda>v b. push_bit 8 v OR ucast b) 0 (drop lo (take (Suc hi) (e_data env)))"
    by (auto simp: not_less not_le)
  have v: "range_value kind (of_nat hi - of_nat lo + 1) w = range_int (e_data env) sg lo hi" if "hi < length (e_data env)"
  proof -
    have len: "length (drop lo (take (Suc hi) (e_data env))) = Suc hi - lo" using that by simp
    moreover have "(of_nat hi - of_nat lo + 1 :: u32) = of_nat (Suc hi - lo)" using range by simp
    moreover have "1 \<le> Suc hi - lo" "Suc hi - lo \<le> 8" using range by simp_all
    ultimately show ?thesis
      using c1(4) that range big_endian_word [of "drop lo (take (Suc hi) (e_data env))"]
        range_value_int [of "big_endian (drop lo (take (Suc hi) (e_data env)))" "Suc hi - lo" w]
      by (simp add: range_int_def del: of_nat_diff)
  qed
  have cmp: "\<not> (of_nat hi :: u32) < of_nat lo" "\<not> (of_nat hi - of_nat lo :: u32) > 7"
  proof -
    have "(of_nat hi - of_nat lo :: u32) = of_nat (hi - lo)" using range by simp
    then have "unat (of_nat hi - of_nat lo :: u32) = hi - lo" using n by (simp only:) (simp add: unat_of_nat_small del: of_nat_diff)
    then show "\<not> (of_nat hi :: u32) < of_nat lo" "\<not> (of_nat hi - of_nat lo :: u32) > 7"
      using n range by (simp_all add: word_less_nat_alt unat_of_nat_small)
  qed
  have "kind = CHR ''B'' \<or> kind = CHR ''S''" using range by simp
  moreover note decimal_index [of ds lo "CHR '':'' # kind # es @ CHR '']'' # rest"]
    decimal_index [of es hi "CHR '']'' # rest"]
  ultimately have "parse_range env ?s c =
      Some (if hi < length (e_data env) then (rest, push_operand ?x c1) else (?s, c1))"
    using range c1 v cmp by (auto simp: parse_range_def next_is_def Let_def)
  then have "ep_loop env ?s c = ep_loop env rest (if hi < length (e_data env) then push_operand ?x c1 else c1)"
    using assms(3) c1(3) by (subst ep_loop.simps) auto
  with byte_or_error_done [OF c1(3,2) assms(4)] range show ?thesis
    by (intro exI [of _ "if hi < length (e_data env) then push_operand ?x c1 else c1"]) auto
qed

section \<open>The evaluator on a text of the grammar\<close>

text \<open>After a text that binds at least as tight as \<open>p\<close>: the operators still on the stack bind at
  least as tight, and applying them gives the value.\<close>

definition ep_pending :: "'d ep_env \<Rightarrow> nat \<Rightarrow> ep_err + 'd \<Rightarrow> 'd ep_ctx \<Rightarrow> 'd ep_ctx \<Rightarrow> bool" where
  "ep_pending env p r c c' \<longleftrightarrow>
     (x_err c' \<noteq> EP_OK \<and> r = Inl (x_err c')) \<or>
     (x_err c' = EP_OK \<and> \<not> x_expect c' \<and> \<not> x_unary c' \<and>
      (\<forall>Q. (\<forall>x. p \<le> precedence x \<longrightarrow> Q x) \<longrightarrow> x_operators c = [] \<or> \<not> Q (hd (x_operators c)) \<longrightarrow>
         ep_done r c (apply_while env Q c')))"

abbreviation (input) ep_val :: "'d ep_env \<Rightarrow> ep_expr \<Rightarrow> ep_err + 'd" where
  "ep_val env e \<equiv> ep_value (e_dbl env) (e_data env) (e_v env) e"

lemma done_pending: "ep_done r c c' \<Longrightarrow> ep_pending env p r c c'"
  by (auto simp: ep_done_def ep_pending_def split: sum.splits)

lemma pending_err: "ep_pending env p r c c' \<Longrightarrow> x_err c' \<noteq> EP_OK \<Longrightarrow> r = Inl (x_err c')"
  by (simp add: ep_pending_def)

lemma pending_up: "ep_pending env (Suc p) r c c' \<Longrightarrow> ep_pending env p r c c'"
  by (auto simp: ep_pending_def dest!: Suc_leD)

lemma binary_env:
  "\<not> e_dry env \<Longrightarrow> ep_binary \<lparr>e_dbl = e_dbl env, e_data = e_data env, e_v = e_v env, e_dry = False\<rparr> op a b = ep_binary env op a b"
  by (simp add: ep_binary_def Let_def)

lemma binary_err: "ep_binary env op a b = Inl (y, m) \<Longrightarrow> y \<noteq> EP_OK"
  by (auto simp: ep_binary_def Let_def split: if_splits)

lemma apply_top_simps:
  assumes "x_operators c = op # ops" "x_operands c = b # a # rest"
  shows "ep_binary env op a b = Inl (y, m) \<Longrightarrow>
      apply_top env c = ep_fail y m (c\<lparr>x_operators := ops, x_operands := rest\<rparr>)"
    and "ep_binary env op a b = Inr x \<Longrightarrow> apply_top env c = c\<lparr>x_operators := ops, x_operands := x # rest\<rparr>"
  using assms by (simp_all add: apply_top_def)

text \<open>An operator is pushed after its left operand; its right operand follows.\<close>

lemma operator_pending:
  assumes "\<not> e_dry env" "x_operators c2 = op # x_operators c" "x_operands c2 = a # x_operands c" "precedence op = p"
    and "x_err c3 = EP_OK" "ep_pending env (Suc p) r c2 c3"
  shows "ep_pending env p (case r of Inl y \<Rightarrow> Inl y | Inr b \<Rightarrow>
      (case ep_binary env op a b of Inl (y, _) \<Rightarrow> Inl y | Inr x \<Rightarrow> Inr x)) c c3"
proof -
  let ?r = "case r of Inl y \<Rightarrow> Inl y | Inr b \<Rightarrow> (case ep_binary env op a b of Inl (y, _) \<Rightarrow> Inl y | Inr x \<Rightarrow> Inr x)"
  have "ep_done ?r c (apply_while env Q c3)"
    if Q: "\<forall>x. p \<le> precedence x \<longrightarrow> Q x" "x_operators c = [] \<or> \<not> Q (hd (x_operators c))" for Q
  proof -
    let ?Q = "\<lambda>x. Suc p \<le> precedence x" and ?c = "apply_while env (\<lambda>x. Suc p \<le> precedence x) c3"
    have tw: "apply_while env Q c3 = apply_while env Q ?c"
      by (rule apply_while_twice [symmetric]) (use Q(1) in auto)
    have d: "ep_done r c2 ?c" using assms(2,4-6) by (auto simp: ep_pending_def)
    show ?thesis
    proof (cases r)
      case (Inl y)
      with d tw show ?thesis by (simp add: ep_done_def)
    next
      case (Inr b)
      with d assms(2,3) have c: "x_err ?c = EP_OK" "x_operators ?c = op # x_operators c" "x_operands ?c = b # a # x_operands c"
        by (simp_all add: ep_done_def)
      have "Q op" using Q(1) assms(4) by simp
      note st = apply_while_step [where P = Q, OF c(1,2) this]
      show ?thesis
      proof (cases "ep_binary env op a b")
        case (Inl ym)
        obtain y m where ym: "ym = (y, m)" by fastforce
        with Inl have "x_err (apply_top env ?c) = y" "y \<noteq> EP_OK"
          using c binary_err [of env op a b y m] by (simp_all add: apply_top_simps)
        with Inr Inl ym tw st show ?thesis by (simp add: ep_done_def)
      next
        case (Inr x)
        then have "ep_done (Inr x) c (apply_top env ?c)"
          using d \<open>r = Inr b\<close> apply_top_simps(2) [OF c(2,3) Inr] by (simp add: ep_done_def)
        moreover from this Q(2) have "apply_while env Q (apply_top env ?c) = apply_top env ?c"
          by (auto simp: ep_done_def)
        ultimately show ?thesis using Inr \<open>r = Inr b\<close> tw st by simp
      qed
    qed
  qed
  then show ?thesis using assms(5,6) by (auto simp: ep_pending_def)
qed

lemma push_operator_done:
  assumes "ep_done (Inr a) c (apply_while env (\<lambda>x. precedence op \<le> precedence x) c1)" "length (x_operators c) < EP_STACK_MAX"
  shows "x_err (push_operator env op c1) = EP_OK" "x_operators (push_operator env op c1) = op # x_operators c"
    "x_operands (push_operator env op c1) = a # x_operands c" "x_expect (push_operator env op c1)"
  using assms by (simp_all add: push_operator_def ep_done_def)

lemma push_operator_err:
  "x_err (apply_while env (\<lambda>x. precedence op \<le> precedence x) c1) = y \<Longrightarrow> y \<noteq> EP_OK \<Longrightarrow> x_err (push_operator env op c1) = y"
  by (simp add: push_operator_def Let_def)

lemma loop_operator_step:
  assumes "x_err c = EP_OK" "\<not> x_expect c" "\<not> x_unary c" "u \<noteq> []" "hd u = op" "is_operator u"
    "\<not> isspace op" "\<not> isdigit op" "op \<noteq> CHR ''.''" "op \<noteq> CHR ''V''" "op \<noteq> CHR ''[''" "op \<noteq> CHR ''B''" "op \<noteq> CHR ''S''"
    "op \<noteq> CHR ''(''" "op \<noteq> CHR '')''" "(if op = CHR ''<'' \<or> op = CHR ''>'' then tl (tl u) else tl u) = s"
  shows "ep_loop env u c = ep_loop env s (push_operator env op c)"
  unfolding ep_loop.simps [of env u c] using assms(1-15) by (simp add: assms(16) [symmetric])

lemma op_text:
  assumes "ep_op op t"
  shows "t \<noteq> []" "hd (t @ s) = op" "is_operator (t @ s)" "(if op = CHR ''<'' \<or> op = CHR ''>'' then tl (tl (t @ s)) else tl (t @ s)) = s"
  using assms by (cases rule: ep_op.cases; auto simp: is_operator_def next_is_def)+

lemma op_char:
  assumes "ep_op op t"
  shows "\<not> isspace op" "\<not> isdigit op" "op \<noteq> CHR ''.''" "op \<noteq> CHR ''V''" "op \<noteq> CHR ''[''" "op \<noteq> CHR ''B''" "op \<noteq> CHR ''S''"
    "op \<noteq> CHR ''(''" "op \<noteq> CHR '')''"
  using assms by (cases rule: ep_op.cases; auto)+

lemma loop_operator:
  assumes "ep_op op t" "x_err c = EP_OK" "\<not> x_expect c" "\<not> x_unary c"
  shows "ep_loop env (t @ s) c = ep_loop env s (push_operator env op c)"
proof -
  have "t @ s \<noteq> []" using op_text(1) [OF assms(1)] by simp
  from loop_operator_step [OF assms(2-4) this op_text(2,3) [OF assms(1)] op_char [OF assms(1)] op_text(4) [OF assms(1)]]
  show ?thesis .
qed

lemma op_boundary: "ep_op op t \<Longrightarrow> boundary (t @ s)"
  by (cases rule: ep_op.cases) (auto simp: boundary_def)

lemma op_precedence: "ep_op op t \<Longrightarrow> 1 \<le> precedence op \<and> precedence op \<le> 5"
  by (cases rule: ep_op.cases) (auto simp: precedence_def)

lemma precedence_paren [simp]: "precedence CHR ''('' = 0"
  by (simp add: precedence_def)

lemma text_level: "ep_text first p d e s \<Longrightarrow> 1 \<le> p \<and> p \<le> 6"
  by (induction rule: ep_text.induct) (auto dest: op_precedence)

lemma loop_open:
  "x_err c = EP_OK \<Longrightarrow> ep_loop env (CHR ''('' # s) c = ep_loop env s (open_paren c)"
  by (subst ep_loop.simps) simp

lemma loop_close:
  "x_err c = EP_OK \<Longrightarrow> ep_loop env (CHR '')'' # s) c = ep_loop env s (close_paren env c)"
  by (subst ep_loop.simps) simp

lemma loop_negate:
  "x_err c = EP_OK \<Longrightarrow> x_unary c \<Longrightarrow> ep_loop env (CHR ''-'' # s) c = ep_loop env s (ep_negate env c)"
  by (subst ep_loop.simps) simp

lemma close_err: "x_err c \<noteq> EP_OK \<Longrightarrow> close_paren env c = c"
  by (simp add: close_paren_def)

lemma boundary_simps [simp]: "boundary (CHR '')'' # s)" "isspace ch \<Longrightarrow> boundary (ch # s)"
  by (auto simp: boundary_def isspace_def isdigit_def Let_def)

lemma pending_done:
  "ep_pending env p r c c' \<Longrightarrow> x_err c' = EP_OK \<Longrightarrow> (\<And>x. p \<le> precedence x \<Longrightarrow> Q x) \<Longrightarrow>
     x_operators c = [] \<or> \<not> Q (hd (x_operators c)) \<Longrightarrow> ep_done r c (apply_while env Q c')"
  unfolding ep_pending_def by blast

definition ep_room :: "nat \<Rightarrow> nat \<Rightarrow> 'd ep_ctx \<Rightarrow> bool" where
  "ep_room p d c \<longleftrightarrow> length (x_operators c) + (6 - p) + 6 * d \<le> EP_STACK_MAX \<and>
     length (x_operands c) + 1 + (6 - p) + 6 * d \<le> EP_STACK_MAX \<and>
     (x_operators c = [] \<or> precedence (hd (x_operators c)) < p)"

definition ep_runs :: "'d ep_env \<Rightarrow> bool \<Rightarrow> nat \<Rightarrow> nat \<Rightarrow> ep_expr \<Rightarrow> string \<Rightarrow> bool" where
  "ep_runs env first p d e s \<longleftrightarrow>
     (\<forall>rest c. boundary rest \<longrightarrow> x_err c = EP_OK \<longrightarrow> (first \<longrightarrow> x_unary c) \<longrightarrow> ep_room p d c \<longrightarrow>
        (\<exists>c'. ep_loop env (s @ rest) c = ep_loop env rest c' \<and> ep_pending env p (ep_val env e) c c'))"

lemma runsD:
  assumes "ep_runs env first p d e s" "boundary rest" "x_err c = EP_OK" "first \<longrightarrow> x_unary c" "ep_room p d c"
  obtains c' where "ep_loop env (s @ rest) c = ep_loop env rest c'" "ep_pending env p (ep_val env e) c c'"
  using assms unfolding ep_runs_def by blast

lemma runs_leaf:
  assumes "ep_leaf e s" "\<not> e_dry env"
  shows "ep_runs env first 6 d e s"
  unfolding ep_runs_def
proof (intro allI impI)
  fix rest and c :: "'a ep_ctx"
  assume "boundary rest" "x_err c = EP_OK" "ep_room 6 d c"
  moreover from this have "length (x_operands c) < EP_STACK_MAX" by (simp add: ep_room_def)
  ultimately show "\<exists>c'. ep_loop env (s @ rest) c = ep_loop env rest c' \<and> ep_pending env 6 (ep_val env e) c c'"
    using leaf_run [OF assms(1) _ _ _ assms(2)] done_pending by blast
qed

lemma runs_paren:
  assumes "ep_runs env True 1 d e s"
  shows "ep_runs env first 6 (Suc d) e (CHR ''('' # s @ '')'')"
  unfolding ep_runs_def
proof (intro allI impI)
  fix rest and c :: "'a ep_ctx"
  assume c: "boundary rest" "x_err c = EP_OK" "ep_room 6 (Suc d) c"
  let ?c = "open_paren c"
  have o: "x_err ?c = EP_OK" "x_unary ?c" "x_operators ?c = CHR ''('' # x_operators c" "x_operands ?c = x_operands c"
    using c by (simp_all add: open_paren_def ep_room_def)
  then have "ep_room 1 d ?c" using c by (simp add: ep_room_def)
  from runsD [OF assms _ o(1) _ this, of "CHR '')'' # rest"] o(2) obtain c1 where c1:
    "ep_loop env (s @ CHR '')'' # rest) ?c = ep_loop env (CHR '')'' # rest) c1" "ep_pending env 1 (ep_val env e) ?c c1" by auto
  show "\<exists>c'. ep_loop env ((CHR ''('' # s @ '')'') @ rest) c = ep_loop env rest c' \<and> ep_pending env 6 (ep_val env e) c c'"
  proof (cases "x_err c1 = EP_OK")
    case False
    with c1 c(2) show ?thesis by (intro exI [of _ c1]) (simp add: loop_open ep_pending_def)
  next
    case True
    let ?c1 = "apply_while env (\<lambda>x. x \<noteq> CHR ''('') c1"
    have d: "ep_done (ep_val env e) ?c ?c1"
      by (rule pending_done [OF c1(2) True]) (use o(3) in auto)
    then have "ep_done (ep_val env e) c (close_paren env c1)"
      using o by (auto simp: ep_done_def close_paren_def Let_def split: sum.splits)
    with c1 c(2) True show ?thesis by (intro exI [of _ "close_paren env c1"]) (simp add: loop_open loop_close done_pending)
  qed
qed

lemma runs_bin:
  assumes l: "ep_runs env first p d l s" and r: "ep_runs env False (Suc p) d r s'"
    and op: "ep_op op t" "precedence op = p" and dry: "\<not> e_dry env"
  shows "ep_runs env first p d (E_Bin op l r) (s @ t @ s')"
  unfolding ep_runs_def
proof (intro allI impI)
  fix rest and c :: "'a ep_ctx"
  assume c: "boundary rest" "x_err c = EP_OK" "first \<longrightarrow> x_unary c" "ep_room p d c"
  have p: "1 \<le> p" "p \<le> 5" using op_precedence [OF op(1)] op(2) by simp_all
  from runsD [OF l _ c(2-4), of "t @ s' @ rest"] op_boundary [OF op(1)] obtain c1 where c1:
    "ep_loop env (s @ t @ s' @ rest) c = ep_loop env (t @ s' @ rest) c1" "ep_pending env p (ep_val env l) c c1" by auto
  let ?res = "\<lambda>c'. ep_loop env ((s @ t @ s') @ rest) c = ep_loop env rest c' \<and> ep_pending env p (ep_val env (E_Bin op l r)) c c'"
  show "\<exists>c'. ?res c'"
  proof (cases "x_err c1 = EP_OK")
    case False
    with c1 pending_err [OF c1(2)] have "?res c1" by (simp add: ep_pending_def)
    then show ?thesis ..
  next
    case True
    let ?c = "apply_while env (\<lambda>x. precedence op \<le> precedence x) c1" and ?c2 = "push_operator env op c1"
    have fl: "\<not> x_expect c1" "\<not> x_unary c1" using c1(2) True by (auto simp: ep_pending_def)
    note st = loop_operator [OF op(1) True fl, of env "s' @ rest"]
    have d: "ep_done (ep_val env l) c ?c"
      by (rule pending_done [OF c1(2) True]) (use c(4) op(2) in \<open>auto simp: ep_room_def\<close>)
    show ?thesis
    proof (cases "ep_val env l")
      case (Inl y)
      with d have "x_err ?c2 = y" "y \<noteq> EP_OK" using push_operator_err [of env op c1 y] by (auto simp: ep_done_def)
      with c1 st Inl have "?res ?c2" by (simp add: ep_pending_def)
      then show ?thesis ..
    next
      case (Inr a)
      have "length (x_operators c) < EP_STACK_MAX" using c(4) p by (auto simp: ep_room_def)
      note c2 = push_operator_done [OF d [unfolded Inr] this]
      have "ep_room (Suc p) d ?c2" using c(4) p c2 op(2) by (auto simp: ep_room_def)
      from runsD [OF r c(1) c2(1) _ this] obtain c3 where c3:
        "ep_loop env (s' @ rest) ?c2 = ep_loop env rest c3" "ep_pending env (Suc p) (ep_val env r) ?c2 c3" by auto
      have "?res c3"
      proof (cases "x_err c3 = EP_OK")
        case False
        with c1 c3 st pending_err [OF c3(2)] Inr show ?thesis by (simp add: ep_pending_def)
      next
        case True
        have "ep_val env (E_Bin op l r) = (case ep_val env r of Inl y \<Rightarrow> Inl y | Inr b \<Rightarrow>
            (case ep_binary env op a b of Inl (y, _) \<Rightarrow> Inl y | Inr x \<Rightarrow> Inr x))"
          by (simp add: Inr binary_env [OF dry] split: sum.split)
        with operator_pending [OF dry c2(2,3) op(2) True c3(2)] c1 c3 st show ?thesis by simp
      qed
      then show ?thesis ..
    qed
  qed
qed

lemma runs_neg:
  assumes "ep_runs env False 5 d e s" and dry: "\<not> e_dry env"
  shows "ep_runs env True 4 d (E_Neg e) (CHR ''-'' # s)"
  unfolding ep_runs_def
proof (intro allI impI)
  fix rest and c :: "'a ep_ctx"
  assume c: "boundary rest" "x_err c = EP_OK" "True \<longrightarrow> x_unary c" "ep_room 4 d c"
  let ?z = "d_int (e_dbl env) 0" and ?c = "ep_negate env c"
  define c1 where "c1 = (push_operand ?z c)\<lparr>x_expect := True\<rparr>"
  have "x_operators c1 = [] \<or> \<not> precedence CHR ''-'' \<le> precedence (hd (x_operators c1))"
    and c1: "x_err c1 = EP_OK" "x_operators c1 = x_operators c" "x_operands c1 = ?z # x_operands c"
    using c by (auto simp: c1_def push_operand_def ep_room_def precedence_def)
  then have "apply_while env (\<lambda>x. precedence CHR ''-'' \<le> precedence x) c1 = c1" by auto
  then have c2: "x_err ?c = EP_OK" "x_operators ?c = CHR ''-'' # x_operators c" "x_operands ?c = ?z # x_operands c"
    using c c1 by (simp_all add: ep_negate_def c1_def [symmetric] push_operator_def ep_room_def)
  then have "ep_room 5 d ?c" using c(4) by (simp add: ep_room_def precedence_def)
  from runsD [OF assms(1) c(1) c2(1) _ this] obtain c3 where c3:
    "ep_loop env (s @ rest) ?c = ep_loop env rest c3" "ep_pending env 5 (ep_val env e) ?c c3" by auto
  have "ep_pending env 4 (ep_val env (E_Neg e)) c c3"
  proof (cases "x_err c3 = EP_OK")
    case False
    with pending_err [OF c3(2)] show ?thesis by (simp add: ep_pending_def)
  next
    case True
    have "ep_val env (E_Neg e) = (case ep_val env e of Inl y \<Rightarrow> Inl y | Inr b \<Rightarrow>
        (case ep_binary env CHR ''-'' ?z b of Inl (y, _) \<Rightarrow> Inl y | Inr x \<Rightarrow> Inr x))"
      by (simp add: ep_binary_def split: sum.split)
    with operator_pending [OF dry c2(2,3) _ True, of 4] c3(2) show ?thesis by (simp add: precedence_def)
  qed
  with c3 c show "\<exists>c'. ep_loop env ((CHR ''-'' # s) @ rest) c = ep_loop env rest c' \<and> ep_pending env 4 (ep_val env (E_Neg e)) c c'"
    by (intro exI [of _ c3]) (simp add: loop_negate)
qed

lemma text_runs:
  assumes "ep_text first p d e s" "\<not> e_dry env"
  shows "ep_runs env first p d e s"
  using assms
proof (induction rule: ep_text.induct)
  case (leaf e s first d)
  then show ?case by (simp add: runs_leaf)
next
  case (paren d e s first)
  then show ?case by (intro runs_paren) simp
next
  case (bin first p d l s r s' op t)
  then show ?case by (intro runs_bin) simp_all
next
  case (neg d e s)
  then show ?case by (intro runs_neg) simp_all
next
  case (up first p d e s)
  have room: "ep_room (Suc p) d c" if "ep_room p d c" for c :: "'a ep_ctx"
    using that by (auto simp: ep_room_def)
  from up show ?case unfolding ep_runs_def by (meson room pending_up)
next
  case (space_before first p d e s ch)
  then show ?case by (simp add: ep_runs_def)
next
  case (space_after first p d e s ch)
  then have r: "ep_runs env first p d e s" and sp: "boundary (ch # rest)" "ep_loop env (ch # rest) c = ep_loop env rest c"
    for rest and c :: "'a ep_ctx" by simp_all
  show ?case
    unfolding ep_runs_def by (auto elim!: runsD [OF r sp(1)] simp: sp(2))
qed

text \<open>C6. Every text of the grammar (five levels of left-associative operators, a sign at the
  start or after a parenthesis, byte, bit, signed and range references, spaces) with
  parentheses nested at most nine deep evaluates to the value of the expression it denotes,
  and fails with the first byte beyond the payload or division by zero of that value.\<close>

theorem expression_evaluated:
  assumes "ep_text True 1 d e s" and "d \<le> 9"
  shows "expression_parser_eval D (Some s) data v True =
    Some (case ep_value D data v e of Inl y \<Rightarrow> (y, None) | Inr x \<Rightarrow> (EP_OK, Some x))"
proof -
  let ?env = "\<lparr>e_dbl = D, e_data = data, e_v = v, e_dry = False\<rparr>"
  have "ep_runs ?env True 1 d e s" by (rule text_runs [OF assms(1)]) simp
  moreover have "ep_room 1 d ep_start" "x_err ep_start = EP_OK" "x_unary ep_start" "boundary []"
    using assms(2) by (simp_all add: ep_room_def ep_start_def boundary_def)
  ultimately obtain c' where c': "ep_loop ?env (s @ []) ep_start = ep_loop ?env [] c'"
    "ep_pending ?env 1 (ep_value D data v e) ep_start c'" using runsD [of ?env True 1 d e s "[]" ep_start] by auto
  have "ep_done (ep_value D data v e) ep_start (ep_finish ?env c')"
  proof (cases "x_err c' = EP_OK")
    case False
    with pending_err [OF c'(2)] show ?thesis by (simp add: ep_done_def ep_finish_def)
  next
    case True
    have "ep_done (ep_value D data v e) ep_start (apply_while ?env (\<lambda>x. x \<noteq> CHR ''('') c')"
      by (rule pending_done [OF c'(2) True]) (auto simp: ep_start_def)
    then show ?thesis by (auto simp: ep_done_def ep_finish_def ep_start_def split: sum.splits)
  qed
  with c'(1) show ?thesis
    by (auto simp: expression_parser_eval_def ep_evaluate_def ep_done_def split: sum.splits)
qed

end
