(* ===== verification/Expression_Check.thy ===== *)
theory Expression_Check
  imports Expression_Spec
begin

text \<open>
  What an expression that passed the check can still do at run time: the dry run of the check and
  the run on a payload go in step until the payload ends or a division by zero stops the latter.
\<close>

section \<open>The check and the evaluation in step\<close>

text \<open>One turn of the loop; a turn that fails leaves the text as it is.\<close>

definition ep_step :: "'d ep_env \<Rightarrow> string \<Rightarrow> 'd ep_ctx \<Rightarrow> (string \<times> 'd ep_ctx) option" where
  "ep_step env s c =
     (if isspace (hd s) then Some (tl s, c)
      else if isdigit (hd s) \<or> hd s = CHR ''.'' then
        Some (dropWhile (\<lambda>x. isdigit x \<or> x = CHR ''.'') s, push_operand (d_dec (e_dbl env) (decimal_prefix s)) c)
      else if hd s = CHR ''V'' then Some (tl s, push_operand (e_v env) c)
      else if hd s = CHR ''['' then parse_range env s c
      else if hd s = CHR ''B'' \<or> hd s = CHR ''S'' then Some (parse_byte_ref env s c)
      else if hd s = CHR ''('' then Some (tl s, open_paren c)
      else if hd s = CHR '')'' then Some (tl s, close_paren env c)
      else if hd s = CHR ''-'' \<and> x_unary c then Some (tl s, ep_negate env c)
      else if is_operator s then
        (if x_expect c then Some (s, ep_fail EP_INVALID_ARG ''operator where a value was expected'' c)
         else Some (if hd s = CHR ''<'' \<or> hd s = CHR ''>'' then tl (tl s) else tl s, push_operator env (hd s) c))
      else Some (s, ep_fail EP_INVALID_ARG ''invalid character'' c))"

lemma loop_step:
  assumes "s \<noteq> []" "x_err c = EP_OK"
  shows "ep_loop env s c = Option.bind (ep_step env s c) (\<lambda>(s1, c1). ep_loop env s1 c1)"
  unfolding ep_loop.simps [of env s c] ep_step_def using assms by (simp add: ep_fail_def split: prod.split)

lemma parse_index_shorter: "parse_index s = Some (n, t) \<Longrightarrow> length t < length s"
  by (cases s) (auto simp: parse_index_def le_imp_less_Suc length_dropWhile_le split: if_splits)

lemma fail_not_ok [simp]: "e \<noteq> EP_OK \<Longrightarrow> x_err (ep_fail e m c) \<noteq> EP_OK"
  by (simp add: ep_fail_def)

lemma length_tl_less: "length t < n \<Longrightarrow> length (tl t) < n" "s \<noteq> [] \<Longrightarrow> length (tl s) < length s"
  by (cases s) auto

lemma range_shorter:
  assumes "parse_range env s c = Some (s1, c1)" "x_err c1 = EP_OK" "s \<noteq> []"
  shows "length s1 < length s"
proof -
  have bad: "c1 \<noteq> ep_fail EP_INVALID_ARG m c'" for m c' using assms(2) by auto
  from assms(1) obtain a p1 b p2 where p: "parse_index (tl (tl s)) = Some (a, p1)" "parse_index (tl (tl p1)) = Some (b, p2)"
    "s1 = tl p2"
    unfolding parse_range_def Let_def
    by (auto simp: bad Option.bind_eq_Some_conv assms(2) split: if_splits option.splits prod.splits)
  from parse_index_shorter [OF p(1)] parse_index_shorter [OF p(2)] assms(3) show ?thesis
    by (cases s) (auto simp: p(3))
qed

lemma byte_ref_shorter:
  assumes "parse_byte_ref env s c = (s1, c1)" "x_err c1 = EP_OK" "s \<noteq> []"
  shows "length s1 < length s"
proof -
  have bad: "c1 \<noteq> ep_fail EP_INVALID_ARG m c'" for m c' using assms(2) by auto
  from assms(1) obtain a p where p: "parse_index (tl s) = Some (a, p)" "s1 = p \<or> s1 = tl (tl p)"
    unfolding parse_byte_ref_def Let_def
    by (auto simp: bad assms(2) split: if_splits option.splits prod.splits)
  from parse_index_shorter [OF p(1)] p(2) assms(3) show ?thesis by (cases s) auto
qed

lemma step_shorter:
  assumes "ep_step env s c = Some (s1, c1)" "s \<noteq> []" "x_err c = EP_OK" "x_err c1 = EP_OK"
  shows "length s1 < length s"
proof -
  have d: "length (dropWhile (\<lambda>x. isdigit x \<or> x = CHR ''.'') s) < length s" if "isdigit (hd s) \<or> hd s = CHR ''.''"
    using that assms(2) by (cases s) (auto simp: le_imp_less_Suc length_dropWhile_le)
  have t: "length (tl s) < length s" "length (tl (tl s)) < length s" using assms(2) by (cases s; cases "tl s"; simp)+
  from assms(1) show ?thesis
    unfolding ep_step_def
    using d t range_shorter [of env s c s1 c1] byte_ref_shorter [of env s c s1 c1] assms(2-4)
    by (auto split: if_splits)
qed

text \<open>A dry run that has failed or has referred to a byte beyond a payload of \<open>len\<close> bytes.\<close>

definition ep_beyond :: "nat \<Rightarrow> 'd ep_ctx \<Rightarrow> bool" where
  "ep_beyond len c \<longleftrightarrow> x_err c \<noteq> EP_OK \<or> x_any c \<and> len \<le> unat (x_max c)"

text \<open>The dry run \<open>c\<close> and the run \<open>c'\<close> on a payload of \<open>len\<close> bytes.\<close>

definition ep_rel :: "nat \<Rightarrow> 'd ep_ctx \<Rightarrow> 'd ep_ctx \<Rightarrow> bool" where
  "ep_rel len c c' \<longleftrightarrow>
     (x_err c' = EP_OK \<longrightarrow> x_err c = EP_OK \<and> length (x_operands c) = length (x_operands c') \<and> x_operators c = x_operators c' \<and>
        x_expect c = x_expect c' \<and> x_unary c = x_unary c' \<and> (x_any c \<longrightarrow> unat (x_max c) < len)) \<and>
     (x_err c' = EP_INVALID_ARG \<longrightarrow> x_err c \<noteq> EP_OK) \<and>
     (x_err c' = EP_INVALID_SIZE \<longrightarrow> ep_beyond len c)"

text \<open>What a dry run never takes back.\<close>

definition ep_onward :: "'d ep_ctx \<Rightarrow> 'd ep_ctx \<Rightarrow> bool" where
  "ep_onward c d \<longleftrightarrow> (x_err c \<noteq> EP_OK \<longrightarrow> x_err d \<noteq> EP_OK) \<and> (x_any c \<longrightarrow> x_any d \<and> x_max c \<le> x_max d)"

lemma onward_refl [simp]: "ep_onward c c"
  by (simp add: ep_onward_def)

lemma onward_trans: "ep_onward c d \<Longrightarrow> ep_onward d e \<Longrightarrow> ep_onward c e"
  by (auto simp: ep_onward_def)

lemma onward_beyond: "ep_beyond len c \<Longrightarrow> ep_onward c d \<Longrightarrow> ep_beyond len d"
  by (auto simp: ep_beyond_def ep_onward_def word_le_nat_alt)

lemma rel_onward: "ep_rel len c c' \<Longrightarrow> x_err c' \<noteq> EP_OK \<Longrightarrow> ep_onward c d \<Longrightarrow> ep_rel len d c'"
  by (cases "x_err c'") (auto simp: ep_rel_def intro: onward_beyond, auto simp: ep_onward_def)

lemma onward_simps [simp]:
  "ep_onward c (ep_fail e m c)"
  "ep_onward c (push_operand v c)" "ep_onward c (open_paren c)" "ep_onward c (apply_top env c)"
  by (simp_all add: ep_onward_def push_operand_def open_paren_def)
    (auto simp: ep_fail_def apply_top_def Let_def split: list.split sum.split)

lemma onward_while [simp]: "ep_onward c (apply_while env P c)"
proof (induction env P c rule: apply_while.induct)
  case (1 env P c)
  then show ?case by (subst apply_while.simps) (auto intro: onward_trans [OF onward_simps(4)])
qed

lemma onward_sel [simp]:
  "ep_onward c (d\<lparr>x_operators := y\<rparr>) = ep_onward c d" "ep_onward c (d\<lparr>x_operands := z\<rparr>) = ep_onward c d"
  "ep_onward c (d\<lparr>x_expect := u\<rparr>) = ep_onward c d" "ep_onward c (d\<lparr>x_unary := w\<rparr>) = ep_onward c d"
  by (simp_all add: ep_onward_def)

lemma onward_fail [simp]: "ep_onward c d \<Longrightarrow> ep_onward c (ep_fail e m d)"
  by (auto simp: ep_onward_def ep_fail_def)

lemma onward_push_operator [simp]: "ep_onward c (push_operator env op c)"
  by (simp add: push_operator_def Let_def)

lemma onward_negate [simp]: "ep_onward c (ep_negate env c)"
  unfolding ep_negate_def by (rule onward_trans [OF _ onward_push_operator]) simp

lemma onward_close [simp]: "ep_onward c (close_paren env c)" "ep_onward c (ep_finish env c)"
  by (simp_all add: close_paren_def ep_finish_def Let_def)

text \<open>The bytes a dry run reads.\<close>

lemma read_byte_dry:
  assumes "e_dry env"
  shows "\<exists>c1. read_byte env n c = (c1, 0) \<and> x_err c1 = x_err c \<and> same_stacks c c1 \<and> ep_onward c c1 \<and>
    x_any c1 \<and> n \<le> x_max c1 \<and> (x_max c1 = n \<or> x_any c \<and> x_max c1 = x_max c)"
  using assms by (auto simp: read_byte_def same_stacks_def ep_onward_def Let_def)

lemma range_loop_step:
  assumes "x_err c = EP_OK" "lo \<le> hi" "hi < 4294967296"
  shows "range_loop env (of_nat lo) (of_nat hi) w c =
    (case read_byte env (of_nat lo) c of (c1, b) \<Rightarrow> range_loop env (of_nat (Suc lo)) (of_nat hi) (push_bit 8 w OR ucast b) c1)"
proof -
  have "(of_nat lo :: u32) \<le> of_nat hi" using assms by (simp add: word_le_nat_alt unat_of_nat_small)
  then show ?thesis using assms by (subst range_loop.simps) (simp add: add.commute)
qed

lemma range_loop_dry:
  assumes "e_dry env" "hi < 4294967295" "x_err c = EP_OK" "lo \<le> hi" "n = hi - lo"
  shows "\<exists>c1 w'. range_loop env (of_nat lo) (of_nat hi) w c = Some (c1, w') \<and> x_err c1 = EP_OK \<and> same_stacks c c1 \<and>
    ep_onward c c1 \<and> x_any c1 \<and> of_nat hi \<le> x_max c1 \<and> (x_max c1 \<le> of_nat hi \<or> x_any c \<and> x_max c1 = x_max c)"
  using assms
proof (induction n arbitrary: lo w c)
  case 0
  then have "lo = hi" by simp
  moreover have "(of_nat hi :: u32) < of_nat (Suc hi)"
    using 0 by (simp add: word_less_nat_alt unat_of_nat_small del: of_nat_Suc)
  moreover from read_byte_dry [OF 0(1), of "of_nat hi" c] obtain c1 where
    "read_byte env (of_nat hi) c = (c1, 0)" "x_err c1 = x_err c" "same_stacks c c1" "ep_onward c c1"
    "x_any c1" "of_nat hi \<le> x_max c1" "x_max c1 = of_nat hi \<or> x_any c \<and> x_max c1 = x_max c" by auto
  ultimately show ?case
    using 0 range_loop_step [of c hi hi env w] by (auto simp: range_loop_stop simp del: of_nat_Suc)
next
  case (Suc n)
  from read_byte_dry [OF Suc.prems(1), of "of_nat lo" c] obtain c1 where c1:
    "read_byte env (of_nat lo) c = (c1, 0)" "x_err c1 = x_err c" "same_stacks c c1" "ep_onward c c1"
    "x_any c1" "x_max c1 = of_nat lo \<or> x_any c \<and> x_max c1 = x_max c" by auto
  have "x_err c1 = EP_OK" "Suc lo \<le> hi" "n = hi - Suc lo" using Suc.prems c1(2) by simp_all
  from Suc.IH [OF Suc.prems(1,2) this, of "push_bit 8 w"] obtain c2 w' where c2:
    "range_loop env (of_nat (Suc lo)) (of_nat hi) (push_bit 8 w) c1 = Some (c2, w')" "x_err c2 = EP_OK" "same_stacks c1 c2"
    "ep_onward c1 c2" "x_any c2" "of_nat hi \<le> x_max c2" "x_max c2 \<le> of_nat hi \<or> x_any c1 \<and> x_max c2 = x_max c1" by blast
  have "(of_nat lo :: u32) \<le> of_nat hi" using Suc.prems by (simp add: word_le_nat_alt unat_of_nat_small)
  then have "x_max c2 \<le> of_nat hi \<or> x_any c \<and> x_max c2 = x_max c" using c1(6) c2(7) by auto
  with c1 c2 Suc.prems range_loop_step [of c lo hi env w] show ?case
    by (auto simp: same_stacks_def simp del: of_nat_Suc intro: onward_trans)
qed

lemma range_loop_hangs:
  assumes "range_loop env j end w c = Some r" "e_dry env" "x_err c = EP_OK" "end = SIZE_MAX"
  shows False
proof -
  have "e_dry env \<longrightarrow> x_err c = EP_OK \<longrightarrow> end = SIZE_MAX \<longrightarrow> False"
  proof (rule range_loop.raw_induct [where P = "\<lambda>env j end w c r. e_dry env \<longrightarrow> x_err c = EP_OK \<longrightarrow> end = SIZE_MAX \<longrightarrow> False", OF _ assms(1)])
    fix f :: "'a ep_env \<Rightarrow> u32 \<Rightarrow> u32 \<Rightarrow> u64 \<Rightarrow> 'a ep_ctx \<Rightarrow> ('a ep_ctx \<times> u64) option"
      and env :: "'a ep_env" and j en w and c :: "'a ep_ctx" and r
    assume IH: "\<And>env j en w c r. f env j en w c = Some r \<Longrightarrow> e_dry env \<longrightarrow> x_err c = EP_OK \<longrightarrow> en = SIZE_MAX \<longrightarrow> False"
      and eq: "(if j \<le> en \<and> x_err c = EP_OK
        then case read_byte env j c of (c1, b) \<Rightarrow> f env (j + 1) en (push_bit 8 w OR ucast b) c1 else Some (c, w)) = Some r"
    show "e_dry env \<longrightarrow> x_err c = EP_OK \<longrightarrow> en = SIZE_MAX \<longrightarrow> False"
    proof (intro impI)
      assume a: "e_dry env" "x_err c = EP_OK" "en = SIZE_MAX"
      from read_byte_dry [OF a(1), of j c] obtain c1 where c1: "read_byte env j c = (c1, 0)" "x_err c1 = x_err c" by auto
      have "j \<le> en" using unat_u32_less [of j] a(3) by (simp add: word_le_nat_alt)
      with eq a c1 have "f env (j + 1) en (push_bit 8 w) c1 = Some r" by simp
      from IH [OF this] a c1(2) show False by simp
    qed
  qed
  then show False using assms by simp
qed

lemma rel_failed: "ep_rel len c c' \<Longrightarrow> x_err c' \<noteq> EP_OK \<Longrightarrow> x_err d' = x_err c' \<Longrightarrow> ep_onward c d \<Longrightarrow> ep_rel len d d'"
  using rel_onward [of len c c' d] by (simp add: ep_rel_def)

lemma rel_fails:
  "x_err d' = EP_FAIL \<Longrightarrow> ep_rel len d d'" "x_err d' = EP_INVALID_ARG \<Longrightarrow> x_err d \<noteq> EP_OK \<Longrightarrow> ep_rel len d d'"
  "x_err d' = EP_INVALID_SIZE \<Longrightarrow> ep_beyond len d \<Longrightarrow> ep_rel len d d'"
  by (simp_all add: ep_rel_def)

lemma binary_dry:
  assumes "e_dry de" "\<not> e_dry re" "e_dbl de = e_dbl re"
  shows "(\<exists>m. ep_binary re op a' b' = Inl (EP_FAIL, m)) \<or> (\<exists>x y. ep_binary re op a' b' = Inr x \<and> ep_binary de op a b = Inr y) \<or>
    (\<exists>m m'. ep_binary re op a' b' = Inl (EP_INVALID_ARG, m) \<and> ep_binary de op a b = Inl (EP_INVALID_ARG, m'))"
  using assms by (simp add: ep_binary_def Let_def)

lemma rel_top:
  assumes "ep_rel len c c'" "x_err c' = EP_OK" "e_dry de" "\<not> e_dry re" "e_dbl de = e_dbl re"
  shows "ep_rel len (apply_top de c) (apply_top re c')"
proof -
  have r: "x_err c = EP_OK" "length (x_operands c) = length (x_operands c')" "x_operators c = x_operators c'"
    "x_expect c = x_expect c'" "x_unary c = x_unary c'" "x_any c \<longrightarrow> unat (x_max c) < len"
    using assms(1,2) by (simp_all add: ep_rel_def)
  show ?thesis
  proof (cases "\<exists>b a rest. x_operands c' = b # a # rest")
    case False
    then have "length (x_operands c) < 2" using r(2) by (cases "x_operands c'" rule: remdups_adj.cases) auto
    with False r assms(2) show ?thesis
      by (intro rel_fails(2)) (auto simp: apply_top_def Let_def split: list.splits)
  next
    case True
    then obtain b' a' rest' where o': "x_operands c' = b' # a' # rest'" by blast
    with r(2) obtain b a rest where o: "x_operands c = b # a # rest" "length rest = length rest'"
      by (cases "x_operands c" rule: remdups_adj.cases) auto
    from binary_dry [OF assms(3-5), of "hd (x_operators c')" a' b' a b] show ?thesis
    proof (elim disjE exE conjE)
      fix m assume "ep_binary re (hd (x_operators c')) a' b' = Inl (EP_FAIL, m)"
      then show ?thesis using o' assms(2) by (intro rel_fails(1)) (simp add: apply_top_def)
    next
      fix x y assume "ep_binary re (hd (x_operators c')) a' b' = Inr x" "ep_binary de (hd (x_operators c')) a b = Inr y"
      then show ?thesis using o o' r assms(2) by (simp add: apply_top_def ep_rel_def)
    next
      fix m m' assume "ep_binary re (hd (x_operators c')) a' b' = Inl (EP_INVALID_ARG, m)"
        "ep_binary de (hd (x_operators c')) a b = Inl (EP_INVALID_ARG, m')"
      then show ?thesis using o o' r assms(2) by (intro rel_fails(2)) (simp_all add: apply_top_def)
    qed
  qed
qed

lemma rel_while:
  assumes "ep_rel len c c'" "e_dry de" "\<not> e_dry re" "e_dbl de = e_dbl re"
  shows "ep_rel len (apply_while de P c) (apply_while re P c')"
  using assms
proof (induction re P c' arbitrary: c rule: apply_while.induct)
  case (1 re P c')
  show ?case
  proof (cases "x_err c' = EP_OK")
    case False
    with rel_failed [OF 1(2) False _ onward_while] show ?thesis by simp
  next
    case True
    with 1(2) have r: "x_err c = EP_OK" "x_operators c = x_operators c'" by (simp_all add: ep_rel_def)
    show ?thesis
    proof (cases "x_operators c' \<noteq> [] \<and> P (hd (x_operators c'))")
      case False
      then have "apply_while re P c' = c'" "apply_while de P c = c" using r by auto
      with 1(2) show ?thesis by simp
    next
      case t: True
      have "ep_rel len (apply_while de P (apply_top de c)) (apply_while re P (apply_top re c'))"
        using True t rel_top [OF 1(2) True 1(3-5)] 1(3-5) by (intro 1(1)) simp_all
      with r True t show ?thesis by (simp add: apply_while.simps [of _ P c] apply_while.simps [of _ P c'])
    qed
  qed
qed

lemma rel_ok: "ep_rel len c c' \<Longrightarrow> x_err c' = EP_OK \<Longrightarrow> x_err c = EP_OK \<and> length (x_operands c) = length (x_operands c') \<and>
    x_operators c = x_operators c' \<and> x_expect c = x_expect c' \<and> x_unary c = x_unary c'"
  by (simp add: ep_rel_def)

lemma rel_arg: "x_err c = EP_OK \<Longrightarrow> x_err c' = EP_OK \<Longrightarrow> ep_rel len (ep_fail EP_INVALID_ARG m c) (ep_fail EP_INVALID_ARG m' c')"
  by (intro rel_fails(2)) simp_all

lemma rel_push:
  assumes "ep_rel len c c'"
  shows "ep_rel len (push_operand v c) (push_operand v' c')"
proof (cases "x_err c' = EP_OK")
  case False
  then show ?thesis by (intro rel_failed [OF assms]) (simp_all add: push_operand_def)
next
  case True
  with rel_ok [OF assms True] assms show ?thesis by (auto simp: push_operand_def rel_arg) (simp_all add: ep_rel_def)
qed

lemma rel_open:
  assumes "ep_rel len c c'" "x_err c' = EP_OK"
  shows "ep_rel len (open_paren c) (open_paren c')"
  using rel_ok [OF assms] assms by (auto simp: open_paren_def rel_arg) (simp_all add: ep_rel_def)

lemma rel_push_operator:
  assumes "ep_rel len c c'" "e_dry de" "\<not> e_dry re" "e_dbl de = e_dbl re"
  shows "ep_rel len (push_operator de op c) (push_operator re op c')"
proof -
  let ?c = "apply_while de (\<lambda>x. precedence op \<le> precedence x) c" and ?c' = "apply_while re (\<lambda>x. precedence op \<le> precedence x) c'"
  have r: "ep_rel len ?c ?c'" by (rule rel_while [OF assms])
  show ?thesis
  proof (cases "x_err ?c' = EP_OK")
    case False
    have "ep_onward ?c (push_operator de op c)" by (simp add: push_operator_def Let_def)
    with False show ?thesis by (intro rel_failed [OF r False]) (simp add: push_operator_def Let_def)
  next
    case True
    with rel_ok [OF r True] r show ?thesis by (auto simp: push_operator_def Let_def rel_arg) (simp_all add: ep_rel_def)
  qed
qed

lemma rel_select:
  assumes "ep_rel len c c'" "x_err c' = EP_OK"
  shows "ep_rel len (c\<lparr>x_expect := u\<rparr>) (c'\<lparr>x_expect := u\<rparr>)" "ep_rel len (c\<lparr>x_operators := y\<rparr>) (c'\<lparr>x_operators := y\<rparr>)"
  using assms by (simp_all add: ep_rel_def)

lemma rel_close:
  assumes "ep_rel len c c'" "e_dry de" "\<not> e_dry re" "e_dbl de = e_dbl re"
  shows "ep_rel len (close_paren de c) (close_paren re c')"
proof -
  let ?c = "apply_while de (\<lambda>x. x \<noteq> CHR ''('') c" and ?c' = "apply_while re (\<lambda>x. x \<noteq> CHR ''('') c'"
  have r: "ep_rel len ?c ?c'" by (rule rel_while [OF assms])
  show ?thesis
  proof (cases "x_err ?c' = EP_OK")
    case False
    have "ep_onward ?c (close_paren de c)" by (simp add: close_paren_def Let_def)
    with False show ?thesis by (intro rel_failed [OF r False]) (simp add: close_paren_def Let_def)
  next
    case True
    with rel_ok [OF r True] r show ?thesis
      by (auto simp: close_paren_def Let_def rel_arg rel_select)
  qed
qed

lemma rel_finish:
  assumes "ep_rel len c c'" "e_dry de" "\<not> e_dry re" "e_dbl de = e_dbl re"
  shows "ep_rel len (ep_finish de c) (ep_finish re c')"
proof -
  let ?c = "apply_while de (\<lambda>x. x \<noteq> CHR ''('') c" and ?c' = "apply_while re (\<lambda>x. x \<noteq> CHR ''('') c'"
  have r: "ep_rel len ?c ?c'" by (rule rel_while [OF assms])
  show ?thesis
  proof (cases "x_err ?c' = EP_OK")
    case False
    have "ep_onward ?c (ep_finish de c)" by (simp add: ep_finish_def Let_def)
    with False show ?thesis by (intro rel_failed [OF r False]) (simp add: ep_finish_def Let_def)
  next
    case True
    with rel_ok [OF r True] r show ?thesis
      by (auto simp: ep_finish_def Let_def rel_arg)
  qed
qed

lemma rel_negate:
  assumes "ep_rel len c c'" "x_err c' = EP_OK" "e_dry de" "\<not> e_dry re" "e_dbl de = e_dbl re"
  shows "ep_rel len (ep_negate de c) (ep_negate re c')"
proof -
  have p: "ep_rel len (push_operand z c) (push_operand z' c')" for z z' by (rule rel_push [OF assms(1)])
  have "ep_rel len ((push_operand z c)\<lparr>x_expect := True\<rparr>) ((push_operand z' c')\<lparr>x_expect := True\<rparr>)" for z z'
    using p [of z z'] by (auto simp: ep_rel_def ep_beyond_def)
  then show ?thesis unfolding ep_negate_def by (intro rel_push_operator assms(3-5))
qed

lemma rel_read:
  assumes "ep_rel len c c'" "x_err c' = EP_OK" "e_dry de" "\<not> e_dry re" "len = length (e_data re)"
  shows "\<exists>c1 c1' b. read_byte de n c = (c1, 0) \<and> read_byte re n c' = (c1', b) \<and> ep_rel len c1 c1' \<and>
    x_err c1 = EP_OK \<and> (x_err c1' = EP_OK \<or> x_err c1' = EP_INVALID_SIZE)"
proof -
  note r = rel_ok [OF assms(1,2)]
  from read_byte_dry [OF assms(3), of n c] r obtain c1 where c1: "read_byte de n c = (c1, 0)" "x_err c1 = EP_OK" "same_stacks c c1"
    "x_any c1" "n \<le> x_max c1" "x_max c1 = n \<or> x_any c \<and> x_max c1 = x_max c"
    "x_expect c1 = x_expect c \<and> x_unary c1 = x_unary c" by (auto simp: read_byte_def Let_def assms(3))
  obtain c1' b where c1': "read_byte re n c' = (c1', b)" by fastforce
  have "ep_rel len c1 c1'"
  proof (cases "unat n < len")
    case True
    with c1' assms have "x_err c1' = EP_OK \<and> same_stacks c' c1' \<and> x_expect c1' = x_expect c' \<and> x_unary c1' = x_unary c'"
      by (auto simp: read_byte_def Let_def same_stacks_def split: if_splits)
    with c1 r assms(1,2) True show ?thesis by (auto simp: ep_rel_def same_stacks_def)
  next
    case False
    with c1' assms have "x_err c1' = EP_INVALID_SIZE"
      by (auto simp: read_byte_def Let_def split: if_splits)
    moreover have "ep_beyond len c1" using False c1 by (auto simp: ep_beyond_def word_le_nat_alt)
    ultimately show ?thesis by (rule rel_fails(3))
  qed
  moreover have "x_err c1' = EP_OK \<or> x_err c1' = EP_INVALID_SIZE"
    using c1' assms(2,4) by (auto simp: read_byte_def Let_def split: if_splits)
  ultimately show ?thesis using c1 c1' by blast
qed

lemma rel_byte_ref:
  assumes "ep_rel len c c'" "x_err c' = EP_OK" "e_dry de" "\<not> e_dry re" "len = length (e_data re)"
  shows "ep_rel len (snd (parse_byte_ref de s c)) (snd (parse_byte_ref re s c')) \<and>
    (x_err (snd (parse_byte_ref re s c')) = EP_OK \<longrightarrow> fst (parse_byte_ref de s c) = fst (parse_byte_ref re s c'))"
proof (cases "parse_index (tl s)")
  case None
  with rel_ok [OF assms(1,2)] assms(2) show ?thesis by (simp add: parse_byte_ref_def rel_arg)
next
  case (Some np)
  obtain n p where np: "np = (n, p)" by fastforce
  from rel_read [OF assms, of n] obtain c1 c1' b where c1: "read_byte de n c = (c1, 0)" "read_byte re n c' = (c1', b)"
    "ep_rel len c1 c1'" "x_err c1 = EP_OK" "x_err c1' = EP_OK \<or> x_err c1' = EP_INVALID_SIZE" by blast
  show ?thesis
  proof (cases "x_err c1' = EP_OK")
    case True
    with Some np c1 show ?thesis by (auto simp: parse_byte_ref_def rel_arg rel_push Let_def)
  next
    case False
    have "ep_onward c1 (snd (parse_byte_ref de s c))"
      using Some np c1 by (simp add: parse_byte_ref_def Let_def)
    moreover have "x_err (snd (parse_byte_ref re s c')) = x_err c1'"
      using Some np c1 False by (auto simp: parse_byte_ref_def Let_def)
    ultimately show ?thesis using rel_failed [OF c1(3) False] False by simp
  qed
qed

lemma range_loop_last:
  assumes "\<not> e_dry env" "length (e_data env) < 4294967296" "x_err c = EP_OK" "n = 4294967295 - unat j"
  shows "\<exists>c1 w'. range_loop env j SIZE_MAX w c = Some (c1, w') \<and> x_err c1 = EP_INVALID_SIZE"
  using assms
proof (induction n arbitrary: j w c)
  case 0
  then have j: "unat j = 4294967295" using unat_u32_less [of j] by simp
  then obtain c1 where "read_byte env j c = (c1, 0)" "x_err c1 = EP_INVALID_SIZE"
    using 0 by (auto simp: read_byte_def ep_fail_def Let_def)
  then show ?case using 0 j by (subst range_loop.simps) (auto simp: range_loop_stop word_le_nat_alt)
next
  case (Suc n)
  have le: "j \<le> SIZE_MAX" using unat_u32_less [of j] by (simp add: word_le_nat_alt)
  show ?case
  proof (cases "unat j < length (e_data env)")
    case False
    then obtain c1 where "read_byte env j c = (c1, 0)" "x_err c1 = EP_INVALID_SIZE"
      using Suc.prems by (auto simp: read_byte_def ep_fail_def Let_def)
    then show ?thesis using Suc.prems le by (subst range_loop.simps) (auto simp: range_loop_stop)
  next
    case True
    then obtain c1 where c1: "read_byte env j c = (c1, e_data env ! unat j)" "x_err c1 = EP_OK"
      using Suc.prems by (auto simp: read_byte_def Let_def)
    have "n = 4294967295 - unat (j + 1)" using Suc.prems True by (simp add: unat_word_ariths)
    from Suc.IH [OF Suc.prems(1,2) c1(2) this, of "push_bit 8 w OR ucast (e_data env ! unat j)"] c1 Suc.prems le
    show ?thesis by (subst range_loop.simps) auto
  qed
qed

text \<open>A range in the text is malformed whatever the bytes, or it reads them.\<close>

lemma range_cases:
  obtains (bad) m where "\<And>(env :: 'd ep_env) c. parse_range env s c = Some (s, ep_fail EP_INVALID_ARG m c)"
  | (ok) kind lo hi p where "lo \<le> hi"
      "\<And>(env :: 'd ep_env) c. parse_range env s c = Option.bind (range_loop env lo hi 0 c) (\<lambda>(c1, value).
         Some (if x_err c1 \<noteq> EP_OK then (s, c1)
               else (p, push_operand (d_int (e_dbl env) (range_value kind (hi - lo + 1) value)) c1)))"
proof -
  have thesis if "tl s \<noteq> []" "hd (tl s) = CHR ''B'' \<or> hd (tl s) = CHR ''S''" and p: "parse_index (tl (tl s)) = Some (a, p)" and
    b: "next_is CHR '':'' p" "next_is (hd (tl s)) (tl p)" "parse_index (tl (tl p)) = Some (b, q)" "next_is CHR '']'' q"
    "\<not> b < a" "\<not> b - a > 7" for a p b q
  proof (rule ok [of a b "tl q" "hd (tl s)"])
    show "a \<le> b" using b by simp
    show "parse_range env s c = Option.bind (range_loop env a b 0 c) (\<lambda>(c1, value).
         Some (if x_err c1 \<noteq> EP_OK then (s, c1)
               else (tl q, push_operand (d_int (e_dbl env) (range_value (hd (tl s)) (b - a + 1) value)) c1)))"
      for env :: "'d ep_env" and c
      using that by (auto simp: parse_range_def Let_def)
  qed
  note fine = this
  have b: thesis if "\<And>(env :: 'd ep_env) c. parse_range env s c = Some (s, ep_fail EP_INVALID_ARG m c)" for m
    using bad that by blast
  note [simp] = parse_range_def Let_def
  show thesis
  proof (cases "tl s \<noteq> [] \<and> (hd (tl s) = CHR ''B'' \<or> hd (tl s) = CHR ''S'')")
    case False
    then show ?thesis by (intro b [of "''range must be [B..] or [S..]''"]) auto
  next
    case k: True
    show ?thesis
    proof (cases "parse_index (tl (tl s))")
      case None
      with k show ?thesis by (intro b [of "''bad range syntax''"]) auto
    next
      case (Some np)
      obtain a p where p: "np = (a, p)" by fastforce
      show ?thesis
      proof (cases "next_is CHR '':'' p \<and> next_is (hd (tl s)) (tl p)")
        case False
        with k Some p show ?thesis by (intro b [of "''bad range syntax''"]) auto
      next
        case n: True
        show ?thesis
        proof (cases "parse_index (tl (tl p))")
          case None
          with k Some p n show ?thesis by (intro b [of "''bad range syntax''"]) auto
        next
          case m: (Some mq)
          obtain e q where q: "mq = (e, q)" by fastforce
          show ?thesis
          proof (cases "next_is CHR '']'' q \<and> \<not> e < a \<and> \<not> e - a > 7")
            case True
            then show ?thesis using k Some p n m q by (intro fine [of a p e q]) auto
          next
            case False
            with k Some p n m q show ?thesis
              by (intro b [of "if \<not> next_is CHR '']'' q then ''bad range syntax'' else if e < a then ''inverted range''
                else ''range wider than 8 bytes''"]) auto
          qed
        qed
      qed
    qed
  qed
qed

lemma rel_range:
  assumes "ep_rel len c c'" "x_err c' = EP_OK" "e_dry de" "\<not> e_dry re" "len = length (e_data re)" "len < 4294967296"
  shows "\<exists>s1' c1'. parse_range re s c' = Some (s1', c1') \<and>
    (case parse_range de s c of None \<Rightarrow> x_err c1' = EP_INVALID_SIZE
     | Some (s1, c1) \<Rightarrow> ep_rel len c1 c1' \<and> (x_err c1' = EP_OK \<longrightarrow> s1 = s1'))"
proof (cases rule: range_cases [where 'd = 'a and s = s])
  case (bad m)
  with rel_ok [OF assms(1,2)] assms(2) show ?thesis by (simp add: rel_arg)
next
  case (ok kind lo hi p)
  note r = rel_ok [OF assms(1,2)]
  show ?thesis
  proof (cases "unat hi = 4294967295")
    case True
    then have hi: "hi = SIZE_MAX" by (simp add: word_unat_eq_iff)
    with range_loop_hangs [of de lo hi 0 c] assms(3) r have "range_loop de lo hi 0 c = None" by (cases "range_loop de lo hi 0 c") simp_all
    moreover from range_loop_last [OF assms(4) _ assms(2) refl, of lo 0] assms(5,6) hi obtain c1 w' where
      "range_loop re lo hi 0 c' = Some (c1, w')" "x_err c1 = EP_INVALID_SIZE" by auto
    ultimately show ?thesis using ok(2) by simp
  next
    case False
    with unat_u32_less [of hi] have hi: "unat hi < 4294967295" by simp
    have le: "unat lo \<le> unat hi" using ok(1) by (simp add: word_le_nat_alt)
    from range_loop_dry [OF assms(3) hi _ le refl, of c 0] r obtain c1 w where c1:
      "range_loop de lo hi 0 c = Some (c1, w)" "x_err c1 = EP_OK" "same_stacks c c1"
      "x_any c1" "hi \<le> x_max c1" "x_max c1 \<le> hi \<or> x_any c \<and> x_max c1 = x_max c" by auto
    from range_loop_real [OF assms(4) hi assms(2) _ refl, of "unat lo" 0] le obtain c1' w' where c1':
      "range_loop re lo hi 0 c' = Some (c1', w')" "same_stacks c' c1'"
      "x_err c1' = (if len \<le> unat hi then EP_INVALID_SIZE else EP_OK)" by (auto simp: assms(5))
    have rel: "ep_rel len (push_operand v c1) (push_operand v' c1')" if "unat hi < len" for v v'
    proof -
      have e: "x_err c1' = EP_OK" using c1'(3) that by simp
      have m: "unat (x_max c1) < len" using c1(6) that assms(1,2) by (auto simp: ep_rel_def word_le_nat_alt)
      show ?thesis
      proof (cases "length (x_operands c) \<ge> EP_STACK_MAX")
        case True
        with c1(2,3) c1'(2) e r show ?thesis by (simp add: push_operand_def same_stacks_def rel_arg)
      next
        case False
        with c1(2,3) c1'(2) e r m show ?thesis by (simp add: push_operand_def same_stacks_def ep_rel_def)
      qed
    qed
    show ?thesis
    proof (cases "unat hi < len")
      case True
      with c1 c1' ok(2) rel show ?thesis by simp
    next
      case False
      have "ep_onward c1 (push_operand v c1)" for v by simp
      moreover have "ep_beyond len c1" using False c1(4,5) by (auto simp: ep_beyond_def word_le_nat_alt)
      ultimately have "ep_beyond len (push_operand v c1)" for v by (metis onward_beyond)
      with c1 c1' ok(2) False show ?thesis by (simp add: rel_fails(3))
    qed
  qed
qed

definition ep_steps_rel :: "nat \<Rightarrow> (string \<times> 'd ep_ctx) option \<Rightarrow> (string \<times> 'd ep_ctx) option \<Rightarrow> bool" where
  "ep_steps_rel len X Y \<longleftrightarrow>
     (\<exists>s1' c1'. Y = Some (s1', c1') \<and>
       (case X of None \<Rightarrow> x_err c1' = EP_INVALID_SIZE
        | Some (s1, c1) \<Rightarrow> ep_rel len c1 c1' \<and> (x_err c1' = EP_OK \<longrightarrow> s1 = s1')))"

lemma steps_rel_Some [simp]:
  "ep_steps_rel len (Some p) (Some q) \<longleftrightarrow> ep_rel len (snd p) (snd q) \<and> (x_err (snd q) = EP_OK \<longrightarrow> fst p = fst q)"
  by (cases p; cases q) (simp add: ep_steps_rel_def)

lemma rel_step:
  assumes "ep_rel len c c'" "x_err c' = EP_OK" "e_dry de" "\<not> e_dry re" "e_dbl de = e_dbl re" "len = length (e_data re)" "len < 4294967296"
  shows "ep_steps_rel len (ep_step de s c) (ep_step re s c')"
proof -
  note r = rel_ok [OF assms(1,2)] and env = assms(3-5)
  have f: "ep_steps_rel len (parse_range de s c) (parse_range re s c')"
    using rel_range [OF assms(1-4,6,7), of s] by (simp add: ep_steps_rel_def)
  show ?thesis
    unfolding ep_step_def
    using r f assms(2) rel_push [OF assms(1)] rel_open [OF assms(1,2)] rel_close [OF assms(1) env]
      rel_negate [OF assms(1,2) env] rel_push_operator [OF assms(1) env] 
      rel_byte_ref [OF assms(1-4,6), of s] assms(1)
    by (simp add: rel_arg)
qed

lemma onward_read: "e_dry env \<Longrightarrow> read_byte env n c = (c1, b) \<Longrightarrow> ep_onward c c1"
  using read_byte_dry [of env n c] by auto

lemma onward_byte_ref:
  assumes "e_dry env" "parse_byte_ref env s c = (s1, c1)"
  shows "ep_onward c c1"
proof -
  have "ep_onward c (push_operand v c2)" if "ep_onward c c2" for v c2
    using onward_trans [OF that onward_simps(2)] .
  then show ?thesis
    using assms onward_read [OF assms(1)]
    by (auto simp: parse_byte_ref_def Let_def split: option.splits prod.splits if_splits)
qed

lemma onward_range:
  assumes "e_dry env" "parse_range env s c = Some (s1, c1)" "x_err c = EP_OK"
  shows "ep_onward c c1"
proof (cases rule: range_cases [where 'd = 'a and s = s])
  case (bad m)
  with assms(2) have "c1 = ep_fail EP_INVALID_ARG m c" by simp
  then show ?thesis by simp
next
  case (ok kind lo hi p)
  show ?thesis
  proof (cases "unat hi = 4294967295")
    case True
    then have hi: "hi = SIZE_MAX" by (simp add: word_unat_eq_iff)
    with range_loop_hangs [of env lo hi 0 c] assms(1,3) have "range_loop env lo hi 0 c = None"
      by (cases "range_loop env lo hi 0 c") simp_all
    with ok(2) assms(2) show ?thesis by simp
  next
    case False
    with unat_u32_less [of hi] have hi: "unat hi < 4294967295" by simp
    have le: "unat lo \<le> unat hi" using ok(1) by (simp add: word_le_nat_alt)
    from range_loop_dry [OF assms(1) hi assms(3) le refl, of 0] obtain c2 w where c2:
      "range_loop env lo hi 0 c = Some (c2, w)" "x_err c2 = EP_OK" "ep_onward c c2" by auto
    have "ep_onward c (push_operand v c2)" for v using onward_trans [OF c2(3) onward_simps(2)] .
    with ok(2) assms(2) c2 show ?thesis by auto
  qed
qed

lemma onward_step:
  assumes "e_dry env" "ep_step env s c = Some (s1, c1)" "x_err c = EP_OK"
  shows "ep_onward c c1"
  using assms(2) onward_range [OF assms(1) _ assms(3), of s] onward_byte_ref [OF assms(1), of s]
  unfolding ep_step_def by (auto split: if_splits)

lemma onward_loop:
  assumes "e_dry env" "ep_loop env s c = Some d"
  shows "ep_onward c d"
  using assms(2)
proof (induction "length s" arbitrary: s c rule: less_induct)
  case less
  show ?case
  proof (cases "s = [] \<or> x_err c \<noteq> EP_OK")
    case True
    with less.prems show ?thesis by auto
  next
    case False
    with less.prems obtain s1 c1 where st: "ep_step env s c = Some (s1, c1)" "ep_loop env s1 c1 = Some d"
      by (auto simp: loop_step Option.bind_eq_Some_conv)
    with False have on: "ep_onward c c1" using onward_step [OF assms(1)] by blast
    show ?thesis
    proof (cases "x_err c1 = EP_OK")
      case True
      with less.hyps [OF step_shorter [OF st(1)] st(2)] False on show ?thesis by (auto intro: onward_trans)
    next
      case err: False
      with st on show ?thesis by simp
    qed
  qed
qed

lemma rel_loop:
  assumes "ep_rel len c c'" "e_dry de" "\<not> e_dry re" "e_dbl de = e_dbl re" "len = length (e_data re)" "len < 4294967296"
  shows "\<exists>d'. ep_loop re s c' = Some d' \<and>
    (case ep_loop de s c of None \<Rightarrow> x_err d' \<noteq> EP_OK | Some d \<Rightarrow> ep_rel len d d')"
  using assms(1)
proof (induction "length s" arbitrary: s c c' rule: less_induct)
  case less
  show ?case
  proof (cases "x_err c' = EP_OK")
    case False
    have "ep_rel len d c'" if "ep_loop de s c = Some d" for d
      using rel_onward [OF less.prems False onward_loop [OF assms(2) that]] .
    with False show ?thesis by (auto split: option.split)
  next
    case True
    show ?thesis
    proof (cases "s = []")
      case True
      with less.prems show ?thesis by simp
    next
      case ne: False
      from rel_step [OF less.prems True assms(2-6), of s, unfolded ep_steps_rel_def] obtain s1' c1' where st': "ep_step re s c' = Some (s1', c1')"
        "case ep_step de s c of None \<Rightarrow> x_err c1' = EP_INVALID_SIZE
         | Some (s1, c1) \<Rightarrow> ep_rel len c1 c1' \<and> (x_err c1' = EP_OK \<longrightarrow> s1 = s1')" by blast
      have ok: "x_err c = EP_OK" using rel_ok [OF less.prems True] by simp
      note l = loop_step [OF ne ok, of de] loop_step [OF ne True, of re]
      show ?thesis
      proof (cases "ep_step de s c")
        case None
        with st' l show ?thesis by simp
      next
        case (Some p)
        obtain s1 c1 where p: "p = (s1, c1)" by fastforce
        show ?thesis
        proof (cases "x_err c1' = EP_OK")
          case t: True
          from less.hyps [OF step_shorter [OF st'(1) ne True t], of c1] st' l Some p t show ?thesis by simp
        next
          case f: False
          have "ep_rel len d c1'" if "ep_loop de s1 c1 = Some d" for d
            using rel_onward [OF _ f onward_loop [OF assms(2) that]] st'(2) Some p by simp
          with st' l Some p f show ?thesis by (auto split: option.split)
        qed
      qed
    qed
  qed
qed


section \<open>What a checked expression can still do\<close>

lemma checked_pair:
  assumes "length data < 4294967296"
  shows "\<exists>d'. ep_evaluate \<lparr>e_dbl = D, e_data = data, e_v = v, e_dry = False\<rparr> s = Some d' \<and>
    (case ep_evaluate \<lparr>e_dbl = D, e_data = [], e_v = d_int D 0, e_dry = True\<rparr> s of
       None \<Rightarrow> x_err d' \<noteq> EP_OK | Some d \<Rightarrow> ep_rel (length data) d d')"
proof -
  let ?re = "\<lparr>e_dbl = D, e_data = data, e_v = v, e_dry = False\<rparr>"
    and ?de = "\<lparr>e_dbl = D, e_data = [], e_v = d_int D 0, e_dry = True\<rparr>"
  have "ep_rel (length data) (ep_start :: 'a ep_ctx) (ep_start :: 'a ep_ctx)" by (simp add: ep_rel_def ep_start_def)
  from rel_loop [OF this, of ?de ?re s] assms obtain d' where d': "ep_loop ?re s ep_start = Some d'"
    "case ep_loop ?de s ep_start of None \<Rightarrow> x_err d' \<noteq> EP_OK | Some d \<Rightarrow> ep_rel (length data) d d'" by auto
  have "x_err (ep_finish ?re d') \<noteq> EP_OK" if "x_err d' \<noteq> EP_OK"
    using that by (simp add: ep_finish_def)
  with d' show ?thesis
    using rel_finish [of "length data" _ d' ?de ?re] by (auto simp: ep_evaluate_def split: option.splits)
qed

text \<open>C16. The evaluation always returns; on an expression the check has accepted it never calls
  the text malformed, and on a payload longer than the highest byte the check reported it
  fails only with a division by zero; whatever evaluates is accepted by the check.\<close>

theorem checked_expression:
  assumes "length data < 4294967296"
  shows "\<exists>err r. expression_parser_eval D (Some s) data v True = Some (err, r) \<and>
    (\<forall>m msg n. expression_parser_check D (Some s) n = Some (EP_OK, m, msg) \<longrightarrow>
       err \<noteq> EP_INVALID_ARG \<and> (unat m < length data \<longrightarrow> err = EP_OK \<or> err = EP_FAIL)) \<and>
    (err = EP_OK \<longrightarrow> (\<exists>m. (\<forall>n. expression_parser_check D (Some s) n = Some (EP_OK, m, None)) \<and>
       (m = SIZE_MAX \<or> unat m < length data)))"
proof -
  let ?de = "\<lparr>e_dbl = D, e_data = [], e_v = d_int D 0, e_dry = True\<rparr>"
  from checked_pair [OF assms, of D v s] obtain d' where
    d': "ep_evaluate \<lparr>e_dbl = D, e_data = data, e_v = v, e_dry = False\<rparr> s = Some d'"
    "case ep_evaluate ?de s of None \<Rightarrow> x_err d' \<noteq> EP_OK | Some d \<Rightarrow> ep_rel (length data) d d'" by blast
  show ?thesis
  proof (cases "ep_evaluate ?de s")
    case None
    with d' show ?thesis by (simp add: expression_parser_eval_def expression_parser_check_def)
  next
    case (Some d)
    with d'(2) have r: "ep_rel (length data) d d'" by simp
    have "x_err d' \<noteq> EP_INVALID_ARG \<and> (unat (if x_any d then x_max d else SIZE_MAX) < length data \<longrightarrow> x_err d' = EP_OK \<or> x_err d' = EP_FAIL)"
      if "x_err d = EP_OK" using r that by (cases "x_err d'") (auto simp: ep_rel_def ep_beyond_def)
    moreover have "x_err d = EP_OK \<and> (x_any d \<longrightarrow> unat (x_max d) < length data)" if "x_err d' = EP_OK"
      using r that by (simp add: ep_rel_def)
    ultimately show ?thesis using d'(1) Some
      by (auto simp: expression_parser_eval_def expression_parser_check_def split: if_splits)
  qed
qed

section \<open>Examples, with exact arithmetic for \<open>double\<close>\<close>

definition exact_dbl :: "rat dbl" where
  "exact_dbl = \<lparr>d_add = (+), d_sub = (-), d_mul = (*), d_div = (/), d_zero = (\<lambda>x. x = 0), d_int = of_int,
     d_trunc = (\<lambda>x. of_int (floor x)), d_dec = (\<lambda>s. of_nat (foldl (\<lambda>v c. v * 10 + digit_value c) 0 s)),
     d_shift = (\<lambda>_ _ _. 0)\<rparr>"

lemma example_text:
  "ep_text True 1 1 (E_Bin CHR ''-'' (E_Num (decimal_prefix ''10'')) (E_Bin CHR ''*'' (E_Byte 0)
     (E_Bin CHR ''-'' E_V (E_Num (decimal_prefix ''2''))))) (''10'' @ ''-'' @ ''B0'' @ ''*'' @ (CHR ''('' # (''V'' @ ''-'' @ ''2'') @ '')''))"
proof -
  have up: "ep_text f q d e s" if "ep_text f 6 d e s" "1 \<le> q" "q \<le> 6" for f q d e s
    using that(3,2,1)
  proof (induction rule: inc_induct)
    case (step n)
    then show ?case by (intro ep_text.up [of f n]) simp_all
  qed simp
  have down: "ep_text f 1 d e s" if "ep_text f 4 d e s" for f d e s
  proof -
    have "ep_text f 3 d e s" using ep_text.up [of f 3 d e s] that by simp
    then have "ep_text f 2 d e s" using ep_text.up [of f 2 d e s] by simp
    then show ?thesis using ep_text.up [of f 1 d e s] by (simp add: numeral_2_eq_2)
  qed
  have num: "ep_leaf (E_Num (decimal_prefix ''10'')) ''10''" "ep_leaf (E_Num (decimal_prefix ''2'')) ''2''"
    by (rule ep_leaf.num; simp add: isdigit_def)+
  have b: "ep_leaf (E_Byte 0) ''B0''" by (rule ep_leaf.byte) (simp add: decimal_def isdigit_def digit_value_def)
  have p: "precedence CHR ''-'' = 4" "precedence CHR ''*'' = 5" by (simp_all add: precedence_def)
  have o: "ep_op CHR ''-'' ''-''" "ep_op CHR ''*'' ''*''" by (simp_all add: ep_op.one)
  have "ep_text True 4 0 (E_Bin CHR ''-'' E_V (E_Num (decimal_prefix ''2''))) (''V'' @ ''-'' @ ''2'')"
    by (rule ep_text.bin [OF up [OF ep_text.leaf [OF ep_leaf.volt]] up [OF ep_text.leaf [OF num(2)]] o(1) p(1)]) simp_all
  then have "ep_text True 1 0 (E_Bin CHR ''-'' E_V (E_Num (decimal_prefix ''2''))) (''V'' @ ''-'' @ ''2'')"
    by (rule down)
  then have "ep_text False 6 (Suc 0) (E_Bin CHR ''-'' E_V (E_Num (decimal_prefix ''2''))) (CHR ''('' # (''V'' @ ''-'' @ ''2'') @ '')'')"
    by (rule ep_text.paren)
  then have "ep_text True 4 1 (E_Bin CHR ''-'' (E_Num (decimal_prefix ''10'')) (E_Bin CHR ''*'' (E_Byte 0)
     (E_Bin CHR ''-'' E_V (E_Num (decimal_prefix ''2''))))) (''10'' @ ''-'' @ ''B0'' @ ''*'' @ (CHR ''('' # (''V'' @ ''-'' @ ''2'') @ '')''))"
    by (intro ep_text.bin [OF up [OF ep_text.leaf [OF num(1)]] ep_text.bin [OF up [OF ep_text.leaf [OF b]] _ o(2)] o(1) p(1)])
      (simp_all add: p)
  then show ?thesis by (rule down)
qed

lemma expression_evaluated_witness:
  "expression_parser_eval exact_dbl (Some ''10-B0*(V-2)'') [3] (25 / 2) True = Some (EP_OK, Some (- 43 / 2))"
  using expression_evaluated [OF example_text, of exact_dbl "[3]" "25 / 2"]
  by (simp add: byte_or_error_def ep_binary_def exact_dbl_def decimal_prefix_def isdigit_def next_is_def digit_value_def)

lemma checked_expression_witness:
  "\<exists>err r. expression_parser_eval exact_dbl (Some ''B0/V'') [7] 2 True = Some (err, r) \<and> (err = EP_OK \<or> err = EP_FAIL)"
proof -
  have "expression_parser_check exact_dbl (Some ''B0/V'') 0 = Some (EP_OK, 0, None)" by code_simp
  moreover from checked_expression [of "[7]" exact_dbl "''B0/V''" 2] obtain err r where
    "expression_parser_eval exact_dbl (Some ''B0/V'') [7] 2 True = Some (err, r)"
    "\<forall>m msg n. expression_parser_check exact_dbl (Some ''B0/V'') n = Some (EP_OK, m, msg) \<longrightarrow>
       err \<noteq> EP_INVALID_ARG \<and> (unat m < length [7 :: u8] \<longrightarrow> err = EP_OK \<or> err = EP_FAIL)" by auto
  ultimately have "err = EP_OK \<or> err = EP_FAIL" by (metis length_Cons list.size(3) unsigned_0 zero_less_Suc)
  with \<open>expression_parser_eval exact_dbl (Some ''B0/V'') [7] 2 True = Some (err, r)\<close> show ?thesis by blast
qed

text \<open>What the parser takes that the grammar does not: an operator after its operands; an index
  that wraps; and a range up to the last index, on which the check does not return.\<close>

lemma postfix_accepted:
  "expression_parser_eval exact_dbl (Some ''1 2 +'') [] 0 True = Some (EP_OK, Some 3)"
  "expression_parser_eval exact_dbl (Some ''2(3+)'') [] 0 True = Some (EP_OK, Some 5)"
  by code_simp+

lemma index_wraps:
  "expression_parser_eval exact_dbl (Some ''B4294967296'') [7] 0 True = Some (EP_OK, Some 7)"
  by code_simp

lemma last_index_hangs: "expression_parser_check D (Some ''[B4294967295:B4294967295]'') n = None"
proof -
  let ?s = "''[B4294967295:B4294967295]''" and ?env = "\<lparr>e_dbl = D, e_data = [], e_v = d_int D 0, e_dry = True\<rparr>"
  have "range_loop ?env SIZE_MAX SIZE_MAX 0 ep_start = None"
    using range_loop_hangs [of ?env SIZE_MAX SIZE_MAX 0 ep_start]
    by (cases "range_loop ?env SIZE_MAX SIZE_MAX 0 ep_start") (simp_all add: ep_start_def)
  moreover have "parse_index ''4294967295:B4294967295]'' = Some (SIZE_MAX, '':B4294967295]'')"
    "parse_index ''4294967295]'' = Some (SIZE_MAX, '']'')" by code_simp+
  ultimately have "parse_range ?env ?s ep_start = None"
    by (simp add: parse_range_def next_is_def)
  then have "ep_loop ?env ?s ep_start = None" by (subst ep_loop.simps) (simp add: ep_start_def)
  then show ?thesis by (simp add: expression_parser_check_def ep_evaluate_def)
qed

end
