(* ===== verification/Topics.thy ===== *)
theory Topics
  imports Decimal
begin

text \<open>
  \<^verbatim>\<open>components/mqtt_manager/mqtt_manager_match.c\<close>: matching a topic against a subscription filter,
  and the test of a broker URL. The pointers that walk over both texts are the rests of the texts.
\<close>

definition level_len :: "string \<Rightarrow> nat" where
  "level_len s = length (takeWhile (\<lambda>c. c \<noteq> CHR ''/'') s)"

function match_loop :: "string \<Rightarrow> string \<Rightarrow> bool" where
  "match_loop filt topic =
     (let flen = level_len filt; tlen = level_len topic; plus = (flen = 1 \<and> hd filt = CHR ''+'') in
      if flen = 1 \<and> hd filt = CHR ''#'' then length filt = 1
      else if \<not> plus \<and> (CHR ''+'' \<in> set (take flen filt) \<or> CHR ''#'' \<in> set (take flen filt)) then False
      else if \<not> plus \<and> (flen \<noteq> tlen \<or> take flen filt \<noteq> take flen topic) then False
      else
        let filt1 = drop flen filt; topic1 = drop tlen topic;
            f_more = (filt1 \<noteq> [] \<and> hd filt1 = CHR ''/''); t_more = (topic1 \<noteq> [] \<and> hd topic1 = CHR ''/'')
        in if \<not> f_more \<and> \<not> t_more then True
           else if f_more \<and> \<not> t_more then filt1 = ''/#''
           else if \<not> f_more then False
           else match_loop (tl filt1) (tl topic1))"
  by pat_completeness auto
termination
  by (relation "measure (\<lambda>(f, _). length f)") auto

declare match_loop.simps [simp del]

definition mm_topic_matches :: "string option \<Rightarrow> string option \<Rightarrow> bool" where
  "mm_topic_matches filt topic =
     (case (filt, topic) of
        (Some f, Some t) \<Rightarrow>
          if f = [] then False
          else if t \<noteq> [] \<and> hd t = CHR ''$'' \<and> (hd f = CHR ''+'' \<or> hd f = CHR ''#'') then False
          else match_loop f t
      | _ \<Rightarrow> False)"

definition strip_prefix :: "string \<Rightarrow> string \<Rightarrow> string option" where
  "strip_prefix p s = (if take (length p) s = p then Some (drop (length p) s) else None)"

definition mm_url_valid :: "string option \<Rightarrow> bool" where
  "mm_url_valid url =
     (case url of
        None \<Rightarrow> False
      | Some s \<Rightarrow>
          (case (case strip_prefix ''mqtt://'' s of Some h \<Rightarrow> Some h | None \<Rightarrow> strip_prefix ''mqtts://'' s) of
             None \<Rightarrow> False
           | Some host \<Rightarrow> host \<noteq> [] \<and> hd host \<noteq> CHR '':'' \<and> hd host \<noteq> CHR ''/''))"

section \<open>The levels of a topic\<close>

function levels :: "string \<Rightarrow> string list" where
  "levels s = takeWhile (\<lambda>c. c \<noteq> CHR ''/'') s #
     (case dropWhile (\<lambda>c. c \<noteq> CHR ''/'') s of [] \<Rightarrow> [] | _ # r \<Rightarrow> levels r)"
  by pat_completeness auto
termination
  by (relation "measure length") (auto, metis Suc_le_lessD length_Cons length_dropWhile_le)

declare levels.simps [simp del]

text \<open>The rules of MQTT: \<open>#\<close> stands for the rest, the parent level included, \<open>+\<close> for one level,
  any other level of the filter for itself, and no other level may hold a wildcard.\<close>

fun match_levels :: "string list \<Rightarrow> string list \<Rightarrow> bool" where
  "match_levels [] [] \<longleftrightarrow> True"
| "match_levels [] (t # ts) \<longleftrightarrow> False"
| "match_levels (f # fs) ts \<longleftrightarrow>
     (if f = ''#'' then fs = []
      else case ts of
        [] \<Rightarrow> False
      | t # ts' \<Rightarrow> (f = ''+'' \<or> f = t \<and> CHR ''+'' \<notin> set f \<and> CHR ''#'' \<notin> set f) \<and> match_levels fs ts')"

fun filter_ok :: "string list \<Rightarrow> bool" where
  "filter_ok [] \<longleftrightarrow> True"
| "filter_ok (f # fs) \<longleftrightarrow> (f = ''#'' \<and> fs = [] \<or> f = ''+'' \<or> CHR ''+'' \<notin> set f \<and> CHR ''#'' \<notin> set f) \<and> filter_ok fs"

definition level :: "string \<Rightarrow> string" where "level s = takeWhile (\<lambda>c. c \<noteq> CHR ''/'') s"
definition after :: "string \<Rightarrow> string" where "after s = dropWhile (\<lambda>c. c \<noteq> CHR ''/'') s"

lemma level_take: "take (level_len s) s = level s" "drop (level_len s) s = after s"
  by (simp_all add: level_def after_def level_len_def takeWhile_eq_take [symmetric] dropWhile_eq_drop [symmetric])

lemma after_slash: "(after s \<noteq> [] \<and> hd (after s) = CHR ''/'') \<longleftrightarrow> after s \<noteq> []"
  using hd_dropWhile [of "\<lambda>c. c \<noteq> CHR ''/''" s] unfolding after_def by blast

lemma length_after: "length (after s) \<le> length s"
  by (simp add: after_def length_dropWhile_le)

lemma level_after: "level s @ after s = s"
  by (simp add: level_def after_def)

lemma levels_unfold: "levels s = level s # (if after s = [] then [] else levels (tl (after s)))"
proof -
  have "(case a of [] \<Rightarrow> [] | _ # r \<Rightarrow> levels r) = (if a = [] then [] else levels (tl a))" for a
    by (cases a) simp_all
  then show ?thesis unfolding level_def after_def by (subst levels.simps) (rule arg_cong)
qed

lemma levels_Cons: "levels s \<noteq> []"
  by (subst levels_unfold) simp

lemma levels_single: "levels s = [''#''] \<longleftrightarrow> s = ''#''"
proof
  assume l: "levels s = [''#'']"
  then have "level s = ''#''" "after s = []" using levels_unfold [of s] by (auto simp: levels_Cons split: if_splits)
  with level_after [of s] show "s = ''#''" by simp
next
  assume "s = ''#''"
  then show "levels s = [''#'']"  by (simp add: levels.simps [of "''#''"])
qed

lemma level_one: "level_len f = 1 \<and> hd f = c \<longleftrightarrow> level f = [c]" if "c \<noteq> CHR ''/''"
  using that by (cases f) (auto simp: level_len_def level_def)

lemma level_eq: "level_len f = level_len t \<and> take (level_len f) f = take (level_len f) t \<longleftrightarrow> level f = level t"
  by (metis level_def level_len_def level_take(1))

lemma match_loop_split:
  "match_loop f t =
     (if level f = ''#'' then after f = []
      else if level f \<noteq> ''+'' \<and> (CHR ''+'' \<in> set (level f) \<or> CHR ''#'' \<in> set (level f) \<or> level f \<noteq> level t) then False
      else if after f = [] then after t = []
      else if after t = [] then after f = ''/#''
      else match_loop (tl (after f)) (tl (after t)))"
proof -
  have one: "length f = 1 \<longleftrightarrow> after f = []" if "level f = ''#''"
    using that level_after [of f] by (metis One_nat_def add_cancel_right_right length_0_conv length_Cons length_append list.size(3))
  have e: "level_len f = 1 \<and> hd f = CHR ''#'' \<longleftrightarrow> level f = ''#''" "level_len f = 1 \<and> hd f = CHR ''+'' \<longleftrightarrow> level f = ''+''"
    using level_one by simp_all
  have n: "(level_len f \<noteq> level_len t \<or> level f \<noteq> take (level_len f) t) \<longleftrightarrow> level f \<noteq> level t"
    using level_eq [of f t] unfolding level_take by blast
  show ?thesis
    unfolding match_loop.simps [of f t] Let_def level_take after_slash e n
    using one by (cases "level f = ''#''"; cases "level f = ''+''"; cases "after f = []"; cases "after t = []"; (simp; fail | auto))
qed

lemma match_loop_levels: "match_loop f t \<longleftrightarrow> match_levels (levels f) (levels t)"
proof (induction "length f" arbitrary: f t rule: less_induct)
  case less
  have parent: "after f = ''/#'' \<longleftrightarrow> match_levels (levels (tl (after f))) []" if ne: "after f \<noteq> []"
  proof -
    obtain r where r: "after f = CHR ''/'' # r" using ne after_slash [of f] by (cases "after f") auto
    have "match_levels (levels r) [] \<longleftrightarrow> levels r = [''#'']"
      using levels_Cons [of r] by (cases "levels r") auto
    then show ?thesis by (simp add: r levels_single)
  qed
  have rest: "match_loop (tl (after f)) t' \<longleftrightarrow> match_levels (levels (tl (after f))) (levels t')" if "after f \<noteq> []" for t'
  proof -
    have "length (tl (after f)) < length (after f)" using that by (cases "after f") auto
    then have "length (tl (after f)) < length f" using length_after [of f] by linarith
    from less [OF this] show ?thesis .
  qed
  have none: "match_levels [] ts \<longleftrightarrow> ts = []" for ts by (cases ts) simp_all
  define m where "m \<longleftrightarrow> level f = ''+'' \<or> level f = level t \<and> CHR ''+'' \<notin> set (level f) \<and> CHR ''#'' \<notin> set (level f)"
  have "match_loop f t = (if level f = ''#'' then after f = [] else m \<and>
      (if after f = [] then after t = [] else if after t = [] then after f = ''/#'' else match_loop (tl (after f)) (tl (after t))))"
    unfolding match_loop_split [of f t] m_def by auto
  moreover have "match_levels (levels f) (levels t) = (if level f = ''#'' then after f = [] else m \<and>
      match_levels (if after f = [] then [] else levels (tl (after f))) (if after t = [] then [] else levels (tl (after t))))"
    unfolding levels_unfold [of f] levels_unfold [of t] m_def by (simp add: levels_Cons)
  ultimately show ?case
    using parent rest none by (cases "after f = []"; cases "after t = []"; simp add: levels_Cons)
qed

lemma match_levels_ok: "match_levels fs ts \<Longrightarrow> filter_ok fs"
  by (induction fs ts rule: match_levels.induct) (auto split: if_splits list.splits)

text \<open>C17. A topic matches a filter exactly when the filter is well formed and fits the topic
  level by level: # the rest (the parent level too), + one level, any other level itself; an
  empty filter matches nothing and a $-topic no leading wildcard.\<close>

theorem topic_match_rules:
  "mm_topic_matches (Some f) (Some t) \<longleftrightarrow>
     f \<noteq> [] \<and> \<not> (take 1 t = ''$'' \<and> take 1 f \<in> {''+'', ''#''}) \<and> filter_ok (levels f) \<and> match_levels (levels f) (levels t)"
proof -
  have "mm_topic_matches (Some f) (Some t) \<longleftrightarrow>
     f \<noteq> [] \<and> \<not> (take 1 t = ''$'' \<and> take 1 f \<in> {''+'', ''#''}) \<and> match_levels (levels f) (levels t)"
    by (cases f; cases t) (auto simp: mm_topic_matches_def match_loop_levels)
  then show ?thesis using match_levels_ok by blast
qed

end
