(* ===== verification/IP4_Routes.thy ===== *)
theory IP4_Routes
  imports Decimal
begin

text \<open>
  \<^verbatim>\<open>components/ip4_routes/ip4_routes_core.c\<close>: networks in CIDR form, lists of them, and the table
  of routes with its longest-prefix match, and from \<^verbatim>\<open>ip4_routes.c\<close> the requests on the table and
  the hook that chooses the interface of a packet. An owner is any value; the table is the list of
  its slots in use.
\<close>

abbreviation (input) IP4_ROUTES_MAX :: nat where "IP4_ROUTES_MAX \<equiv> 16"

record ip4_entry =
  r_network :: u32
  r_mask :: u32

record 'o ip4_slot =
  s_owner :: 'o
  s_e :: ip4_entry

section \<open>Networks as text\<close>

definition is_blank :: "char \<Rightarrow> bool" where
  "is_blank c \<longleftrightarrow> c = CHR '' '' \<or> c = CHR 0x09"

fun octets_loop :: "string \<Rightarrow> u32 \<Rightarrow> nat \<Rightarrow> nat \<Rightarrow> nat \<Rightarrow> u32 option" where
  "octets_loop [] ip octet digits dots =
     (if dots \<noteq> 3 \<or> digits = 0 then None else Some (push_bit 8 ip OR of_nat octet))"
| "octets_loop (c # cs) ip octet digits dots =
     (if isdigit c then
        (if digits + 1 > 3 then None
         else let octet' = octet * 10 + digit_value c in
              if octet' > 255 then None else octets_loop cs ip octet' (digits + 1) dots)
      else if c = CHR ''.'' then
        (if digits = 0 \<or> dots + 1 > 3 then None
         else octets_loop cs (push_bit 8 ip OR of_nat octet) 0 0 (dots + 1))
      else None)"

definition parse_octets :: "string \<Rightarrow> u32 option" where
  "parse_octets s = octets_loop s 0 0 0 0"

definition prefix_mask :: "nat \<Rightarrow> u32" where
  "prefix_mask prefix = (if prefix = 0 then 0 else push_bit (32 - prefix) 0xFFFFFFFF)"

definition ip4_routes_parse_cidr :: "string option \<Rightarrow> ip4_entry option" where
  "ip4_routes_parse_cidr text =
     (case text of
        None \<Rightarrow> None
      | Some s \<Rightarrow>
          let t = rev (dropWhile is_blank (rev (dropWhile is_blank s)));
              ip = takeWhile (\<lambda>c. c \<noteq> CHR ''/'') t; rest = dropWhile (\<lambda>c. c \<noteq> CHR ''/'') t; p = tl rest
          in if t = [] then None
             else if rest \<noteq> [] \<and> (p = [] \<or> length p > 2 \<or> \<not> list_all isdigit p \<or> dec_value p > 32) then None
             else
               let prefix = (if rest \<noteq> [] then dec_value p else 32) in
               (case parse_octets ip of
                  None \<Rightarrow> None
                | Some a \<Rightarrow> Some \<lparr>r_network = a AND prefix_mask prefix, r_mask = prefix_mask prefix\<rparr>))"

definition is_separator :: "char \<Rightarrow> bool" where
  "is_separator c \<longleftrightarrow> c \<in> {CHR '','', CHR '' '', CHR 0x09, CHR 0x0A, CHR 0x0D, CHR '';''}"

lemma token_shorter:
  assumes "dropWhile is_separator p \<noteq> []"
  shows "length (dropWhile (\<lambda>c. \<not> is_separator c) (dropWhile is_separator p)) < length p"
proof -
  obtain c r where c: "dropWhile is_separator p = c # r" using assms by (cases "dropWhile is_separator p") auto
  have "\<not> is_separator c" using hd_dropWhile [OF assms] c by simp
  moreover have "length r < length p" using length_dropWhile_le [of is_separator p] c by simp
  ultimately show ?thesis using c length_dropWhile_le [of "\<lambda>c. \<not> is_separator c" r] by simp
qed

text \<open>A failure has its message and the entries written before it.\<close>

function parse_list_loop :: "nat \<Rightarrow> string \<Rightarrow> ip4_entry list \<Rightarrow> string \<times> ip4_entry list + ip4_entry list" where
  "parse_list_loop cap p acc =
     (let q = dropWhile is_separator p in
      if q = [] then Inr acc
      else
        let token = take 47 (takeWhile (\<lambda>c. \<not> is_separator c) q) in
        (case ip4_routes_parse_cidr (Some token) of
           None \<Rightarrow> Inl (CHR 0x27 # token @ [CHR 0x27] @ '' is not a network in CIDR form (a.b.c.d/n)'', acc)
         | Some e \<Rightarrow>
             if length acc \<ge> cap then Inl (''more than '' @ dec_text cap @ '' routes'', acc)
             else parse_list_loop cap (dropWhile (\<lambda>c. \<not> is_separator c) q) (acc @ [e])))"
  by pat_completeness auto
termination
  by (relation "measure (\<lambda>(_, p, _). length p)") (simp_all add: token_shorter)

declare parse_list_loop.simps [simp del]

text \<open>\<open>err_len\<close> is the size of the message buffer, \<open>None\<close> the NULL list, the number is the result.\<close>

definition ip4_routes_parse_list :: "string option \<Rightarrow> nat \<Rightarrow> nat \<Rightarrow> int \<times> ip4_entry list \<times> string" where
  "ip4_routes_parse_list list cap err_len =
     (case list of
        None \<Rightarrow> (0, [], [])
      | Some p \<Rightarrow>
          (case parse_list_loop cap p [] of
             Inl (msg, acc) \<Rightarrow> (-1, acc, take (err_len - 1) msg)
           | Inr acc \<Rightarrow> (int (length acc), acc, [])))"

text \<open>The loop of the format shifts the mask; after 32 turns it is zero.\<close>

fun leading_ones :: "nat \<Rightarrow> u32 \<Rightarrow> nat" where
  "leading_ones 0 m = 0"
| "leading_ones (Suc k) m = (if m AND 0x80000000 \<noteq> 0 then Suc (leading_ones k (push_bit 1 m)) else 0)"

definition ip4_routes_format :: "ip4_entry \<Rightarrow> nat \<Rightarrow> string" where
  "ip4_routes_format e len =
     take (len - 1)
       (dec_text (unat (drop_bit 24 (r_network e) AND 255)) @ ''.'' @ dec_text (unat (drop_bit 16 (r_network e) AND 255)) @ ''.'' @
        dec_text (unat (drop_bit 8 (r_network e) AND 255)) @ ''.'' @ dec_text (unat (r_network e AND 255)) @ ''/'' @
        dec_text (leading_ones 32 (r_mask e)))"

section \<open>The table\<close>

definition ip4_routes_core_clear :: "'o ip4_slot list \<Rightarrow> 'o \<Rightarrow> 'o ip4_slot list" where
  "ip4_routes_core_clear table ow = filter (\<lambda>s. s_owner s \<noteq> ow) table"

text \<open>\<open>None\<close> is the result -1, with the table untouched.\<close>

definition ip4_routes_core_set :: "'o ip4_slot list \<Rightarrow> nat \<Rightarrow> 'o \<Rightarrow> ip4_entry list \<Rightarrow> 'o ip4_slot list option" where
  "ip4_routes_core_set table cap ow entries =
     (if length (filter (\<lambda>s. s_owner s \<noteq> ow) table) + length entries > cap then None
      else Some (ip4_routes_core_clear table ow @ map (\<lambda>e. \<lparr>s_owner = ow, s_e = e\<rparr>) entries))"

fun match_scan :: "u32 \<Rightarrow> 'o ip4_slot list \<Rightarrow> ('o \<times> u32) option \<Rightarrow> ('o \<times> u32) option" where
  "match_scan dest [] best = best"
| "match_scan dest (s # table) best =
     (let e = s_e s in
      if dest AND r_mask e \<noteq> r_network e then match_scan dest table best
      else
        match_scan dest table
          (case best of
             None \<Rightarrow> Some (s_owner s, r_mask e)
           | Some (ow, m) \<Rightarrow> if r_mask e > m then Some (s_owner s, r_mask e) else best))"

definition ip4_routes_core_match :: "'o ip4_slot list \<Rightarrow> u32 \<Rightarrow> 'o option" where
  "ip4_routes_core_match table dest = map_option fst (match_scan dest table None)"

section \<open>The requests and the hook\<close>

datatype ip4_err = IP4_OK | IP4_INVALID_ARG | IP4_NO_MEM

definition ip4_routes_set :: "'o ip4_slot list \<Rightarrow> 'o option \<Rightarrow> ip4_entry list \<Rightarrow> 'o ip4_slot list \<times> ip4_err" where
  "ip4_routes_set table netif entries =
     (case netif of
        None \<Rightarrow> (table, IP4_INVALID_ARG)
      | Some ow \<Rightarrow>
          (case ip4_routes_core_set table IP4_ROUTES_MAX ow entries of
             None \<Rightarrow> (table, IP4_NO_MEM)
           | Some table' \<Rightarrow> (table', IP4_OK)))"

definition ip4_routes_clear :: "'o ip4_slot list \<Rightarrow> 'o option \<Rightarrow> 'o ip4_slot list" where
  "ip4_routes_clear table netif = (case netif of None \<Rightarrow> table | Some ow \<Rightarrow> ip4_routes_core_clear table ow)"

text \<open>What the hook reads of an interface of lwIP: the two flags, its address and its netmask (in
  the order of the host).\<close>

record 'o ip4_netif =
  n_id :: 'o
  n_up :: bool
  n_link_up :: bool
  n_addr :: u32
  n_netmask :: u32

definition connected_elsewhere :: "'o ip4_netif list \<Rightarrow> u32 \<Rightarrow> 'o \<Rightarrow> bool" where
  "connected_elsewhere netifs dest route_nif =
     list_ex (\<lambda>n. \<not> (n_id n = route_nif \<or> \<not> n_up n \<or> \<not> n_link_up n \<or> n_addr n = 0) \<and>
       dest AND n_netmask n = n_addr n AND n_netmask n) netifs"

text \<open>\<open>nif_up\<close> is the flag of the interface the table names, \<open>orig\<close> the answer of the hook that is
  wrapped.\<close>

definition ip4_route_src_hook ::
    "'o ip4_slot list \<Rightarrow> 'o ip4_netif list \<Rightarrow> ('o \<Rightarrow> bool) \<Rightarrow> (u32 option \<Rightarrow> 'o option) \<Rightarrow> u32 option \<Rightarrow> 'o option" where
  "ip4_route_src_hook table netifs nif_up orig dest =
     (case dest of
        None \<Rightarrow> orig dest
      | Some d \<Rightarrow>
          if table = [] then orig dest
          else
            (case ip4_routes_core_match table d of
               None \<Rightarrow> orig dest
             | Some nif \<Rightarrow> if nif_up nif \<and> \<not> connected_elsewhere netifs d nif then Some nif else orig dest))"

section \<open>The longest prefix\<close>

definition entry_ok :: "ip4_entry \<Rightarrow> bool" where
  "entry_ok e \<longleftrightarrow> (\<exists>n \<le> 32. r_mask e = prefix_mask n) \<and> r_network e AND r_mask e = r_network e"

section \<open>Text and back\<close>

lemma octet_run:
  assumes "list_all isdigit ds" "k + length ds \<le> 3" "foldl (\<lambda>v c. v * 10 + digit_value c) a ds \<le> 255"
  shows "octets_loop (ds @ rest) ip a k dots =
    octets_loop rest ip (foldl (\<lambda>v c. v * 10 + digit_value c) a ds) (k + length ds) dots"
  using assms
proof (induction ds arbitrary: a k)
  case (Cons c ds)
  have "x \<le> foldl (\<lambda>v c. v * 10 + digit_value c) x ds" for x
  proof (induction ds arbitrary: x)
    case (Cons c ds)
    from Cons [of "x * 10 + digit_value c"] show ?case by simp
  qed simp
  from this [of "a * 10 + digit_value c"] Cons show ?case by simp
qed simp

lemma octet_text:
  assumes "n < 256"
  shows "octets_loop (dec_text n @ rest) ip 0 0 dots = octets_loop rest ip n (length (dec_text n)) dots"
  using octet_run [of "dec_text n" 0 0 rest ip dots] dec_text_digits [of n] length_dec_text [of n 3] assms
  by (simp add: dec_value_def)

lemma octets_join:
  fixes w :: u32
  shows "push_bit 8 (push_bit 8 (push_bit 8 (of_nat (unat (drop_bit 24 w AND 255))) OR of_nat (unat (drop_bit 16 w AND 255)))
    OR of_nat (unat (drop_bit 8 w AND 255))) OR of_nat (unat (w AND 255)) = w"
proof -
  have m: "(255 :: u32) = mask 8" by (simp add: mask_eq_exp_minus_1)
  have u: "of_nat (unat x) = x" for x :: u32 by simp
  show ?thesis unfolding m u by (rule bit_word_eqI) (auto simp: wsimps)
qed

lemma byte_small: "unat (w AND 255 :: u32) < 256"
proof -
  have "(255 :: u32) = mask 8" by (simp add: mask_eq_exp_minus_1)
  then have "w AND 255 = take_bit 8 w" by (simp only: take_bit_eq_mask)
  then have "unat (w AND 255) = take_bit 8 (unat w)" by (simp only: unsigned_take_bit_eq)
  then show ?thesis by (simp add: take_bit_eq_mod)
qed

lemma prefix_ones: "n \<le> 32 \<Longrightarrow> leading_ones 32 (prefix_mask n) = n"
proof -
  assume "n \<le> 32"
  moreover have "\<forall>n \<in> set [0..<33]. leading_ones 32 (prefix_mask n) = n" by code_simp
  ultimately show ?thesis by simp
qed

definition dotted :: "nat \<Rightarrow> nat \<Rightarrow> nat \<Rightarrow> nat \<Rightarrow> string" where
  "dotted a b c d = dec_text a @ ''.'' @ dec_text b @ ''.'' @ dec_text c @ ''.'' @ dec_text d"

lemma octets_dotted:
  assumes "a < 256" "b < 256" "c < 256" "d < 256"
  shows "parse_octets (dotted a b c d) =
    Some (push_bit 8 (push_bit 8 (push_bit 8 (of_nat a) OR of_nat b) OR of_nat c) OR of_nat d)"
  using octet_text [of d "[]"] dec_text_digits assms
  by (simp add: parse_octets_def dotted_def octet_text isdigit_def [of "CHR ''.''"])

lemma digit_char_facts: "isdigit c \<Longrightarrow> \<not> is_blank c \<and> c \<noteq> CHR ''/''"
  by (auto simp: is_blank_def isdigit_def Let_def)

lemma cidr_dotted:
  assumes "a < 256" "b < 256" "c < 256" "d < 256" "n \<le> 32"
  shows "ip4_routes_parse_cidr (Some (dotted a b c d @ CHR ''/'' # dec_text n)) =
      Some \<lparr>r_network = (push_bit 8 (push_bit 8 (push_bit 8 (of_nat a) OR of_nat b) OR of_nat c) OR of_nat d) AND prefix_mask n,
            r_mask = prefix_mask n\<rparr>"
    and "length (dotted a b c d @ CHR ''/'' # dec_text n) \<le> 18"
proof -
  let ?t = "dotted a b c d @ CHR ''/'' # dec_text n"
  have l: "length (dec_text x) \<le> 3" if "x < 256" for x using length_dec_text [of x 3] that by simp
  have p: "length (dec_text n) \<le> 2" "dec_text n \<noteq> []" "list_all isdigit (dec_text n)" "dec_value (dec_text n) = n"
    using length_dec_text [of n 2] dec_text_digits [of n] assms(5) by simp_all
  show "length ?t \<le> 18" using l [OF assms(1)] l [OF assms(2)] l [OF assms(3)] l [OF assms(4)] p(1) by (simp add: dotted_def)
  have dig: "isdigit x" if "x \<in> set (dec_text m)" for x m using dec_text_digits [of m] that by (simp add: list_all_iff)
  have noslash: "CHR ''/'' \<notin> set (dotted a b c d)" using dig digit_char_facts by (auto simp: dotted_def)
  then have noslash': "\<And>x. x \<in> set (dotted a b c d) \<Longrightarrow> x \<noteq> CHR ''/''" by metis
  have "isdigit (hd (dec_text a))" "isdigit (last (dec_text n))" using dig [OF hd_in_set] dig [OF last_in_set] dec_text_digits by blast+
  then have hd: "\<not> is_blank (hd ?t)" "\<not> is_blank (last ?t)"
    using digit_char_facts dec_text_digits by (simp_all add: dotted_def)
  then have "dropWhile is_blank ?t = ?t" "dropWhile is_blank (rev ?t) = rev ?t"
    by (simp_all only: dropWhile_eq_self_iff hd_rev) simp_all
  then have trim: "rev (dropWhile is_blank (rev (dropWhile is_blank ?t))) = ?t" by (simp only: rev_rev_ident)
  have "takeWhile (\<lambda>c. c \<noteq> CHR ''/'') ?t = dotted a b c d" "dropWhile (\<lambda>c. c \<noteq> CHR ''/'') ?t = CHR ''/'' # dec_text n"
    using noslash' by simp_all
  then show "ip4_routes_parse_cidr (Some ?t) = Some \<lparr>r_network = (push_bit 8 (push_bit 8 (push_bit 8 (of_nat a) OR of_nat b) OR of_nat c) OR of_nat d)
      AND prefix_mask n, r_mask = prefix_mask n\<rparr>"
    using p assms octets_dotted by (simp only: ip4_routes_parse_cidr_def option.case Let_def trim) simp
qed

theorem cidr_round_trip:
  assumes "entry_ok e" "19 \<le> len"
  shows "ip4_routes_parse_cidr (Some (ip4_routes_format e len)) = Some e"
proof -
  let ?w = "r_network e"
  define a b c d where "a = unat (drop_bit 24 ?w AND 255)" and "b = unat (drop_bit 16 ?w AND 255)"
    and "c = unat (drop_bit 8 ?w AND 255)" and "d = unat (?w AND 255)"
  from assms(1) obtain n where n: "n \<le> 32" "r_mask e = prefix_mask n" and net: "?w AND r_mask e = ?w"
    by (auto simp: entry_ok_def)
  have bytes: "a < 256" "b < 256" "c < 256" "d < 256" by (simp_all only: a_def b_def c_def d_def byte_small)
  note t = cidr_dotted [OF bytes n(1)]
  have "ip4_routes_format e len = dotted a b c d @ CHR ''/'' # dec_text n"
    using t(2) assms(2) by (simp only: ip4_routes_format_def n(2) prefix_ones [OF n(1)] a_def [symmetric] b_def [symmetric]
        c_def [symmetric] d_def [symmetric]) (simp add: dotted_def)
  moreover have "push_bit 8 (push_bit 8 (push_bit 8 (of_nat a) OR of_nat b) OR of_nat c) OR of_nat d = ?w"
    unfolding a_def b_def c_def d_def by (rule octets_join)
  ultimately show ?thesis using t(1) n(2) net by (simp only:) simp
qed

lemma cidr_round_trip_witness:
  "ip4_routes_parse_cidr (Some (ip4_routes_format \<lparr>r_network = 0x0A010000, r_mask = prefix_mask 16\<rparr> 24)) =
     Some \<lparr>r_network = 0x0A010000, r_mask = prefix_mask 16\<rparr>"
  by (rule cidr_round_trip) (auto simp: entry_ok_def prefix_mask_def intro!: exI [of _ 16])

section \<open>The routes of every owner\<close>

datatype 'o route_op = R_Set "'o option" "ip4_entry list" | R_Clear "'o option"

fun route_step :: "'o route_op \<Rightarrow> 'o ip4_slot list \<Rightarrow> 'o ip4_slot list" where
  "route_step (R_Set netif es) t = fst (ip4_routes_set t netif es)"
| "route_step (R_Clear netif) t = ip4_routes_clear t netif"

text \<open>The specification: the routes of each owner and how many there are in all.\<close>

fun route_spec :: "'o route_op \<Rightarrow> ('o \<Rightarrow> ip4_entry list) \<times> nat \<Rightarrow> ('o \<Rightarrow> ip4_entry list) \<times> nat" where
  "route_spec (R_Set None es) (m, n) = (m, n)"
| "route_spec (R_Set (Some ow) es) (m, n) =
     (if n - length (m ow) + length es \<le> IP4_ROUTES_MAX then (m(ow := es), n - length (m ow) + length es) else (m, n))"
| "route_spec (R_Clear None) (m, n) = (m, n)"
| "route_spec (R_Clear (Some ow)) (m, n) = (m(ow := []), n - length (m ow))"

definition routes_of :: "'o ip4_slot list \<Rightarrow> 'o \<Rightarrow> ip4_entry list" where
  "routes_of t ow = map s_e (filter (\<lambda>s. s_owner s = ow) t)"

definition routes_abs :: "'o ip4_slot list \<Rightarrow> ('o \<Rightarrow> ip4_entry list) \<times> nat" where
  "routes_abs t = (routes_of t, length t)"

lemma others_count: "length (filter (\<lambda>s. s_owner s \<noteq> ow) t) = length t - length (routes_of t ow)"
  using sum_length_filter_compl [of "\<lambda>s. s_owner s = ow" t] by (simp add: routes_of_def)

lemma clear_routes: "routes_of (ip4_routes_core_clear t ow) = (routes_of t)(ow := [])"
  by (rule ext) (auto simp: routes_of_def ip4_routes_core_clear_def filter_filter intro!: arg_cong [where f = "map s_e"] filter_cong)

lemma set_routes:
  "routes_of (ip4_routes_core_clear t ow @ map (\<lambda>e. \<lparr>s_owner = ow, s_e = e\<rparr>) es) = (routes_of t)(ow := es)"
proof (rule ext)
  fix x
  have "routes_of (a @ b) x = routes_of a x @ routes_of b x" for a b :: "'a ip4_slot list" by (simp add: routes_of_def)
  moreover have "routes_of (map (\<lambda>e. \<lparr>s_owner = ow, s_e = e\<rparr>) es) x = (if x = ow then es else [])"
    by (auto simp: routes_of_def filter_map comp_def)
  ultimately show "routes_of (ip4_routes_core_clear t ow @ map (\<lambda>e. \<lparr>s_owner = ow, s_e = e\<rparr>) es) x = ((routes_of t)(ow := es)) x"
    by (simp add: clear_routes)
qed

lemma route_step_abs: "routes_abs (route_step op t) = route_spec op (routes_abs t)"
proof (cases op)
  case (R_Set netif es)
  then show ?thesis
    by (cases netif) (auto simp: routes_abs_def ip4_routes_set_def ip4_routes_core_set_def others_count set_routes,
      simp_all add: ip4_routes_core_clear_def others_count)
next
  case (R_Clear netif)
  then show ?thesis
    by (cases netif) (simp_all add: routes_abs_def ip4_routes_clear_def clear_routes, simp add: ip4_routes_core_clear_def others_count)
qed

section \<open>The longest prefix\<close>

lemma match_scan_best:
  "case match_scan dest t best of
     None \<Rightarrow> best = None \<and> (\<forall>s \<in> set t. dest AND r_mask (s_e s) \<noteq> r_network (s_e s))
   | Some (ow, m) \<Rightarrow>
       (best = Some (ow, m) \<or> (\<exists>s \<in> set t. s_owner s = ow \<and> r_mask (s_e s) = m \<and> dest AND r_mask (s_e s) = r_network (s_e s))) \<and>
       (\<forall>s \<in> set t. dest AND r_mask (s_e s) = r_network (s_e s) \<longrightarrow> r_mask (s_e s) \<le> m) \<and>
       (\<forall>ow' m'. best = Some (ow', m') \<longrightarrow> m' \<le> m)"
proof (induction t arbitrary: best)
  case Nil
  then show ?case by (auto split: option.split)
next
  case (Cons s t)
  show ?case
  proof (cases "dest AND r_mask (s_e s) = r_network (s_e s)")
    case False
    with Cons [of best] show ?thesis by (auto simp: Let_def split: option.splits)
  next
    case True
    define nb where "nb = (case best of None \<Rightarrow> Some (s_owner s, r_mask (s_e s))
        | Some (ow, m) \<Rightarrow> if r_mask (s_e s) > m then Some (s_owner s, r_mask (s_e s)) else best)"
    have step: "match_scan dest (s # t) best = match_scan dest t nb" using True by (simp add: nb_def Let_def)
    have "\<exists>ow0 m0. nb = Some (ow0, m0) \<and> r_mask (s_e s) \<le> m0 \<and> (\<forall>ow m. best = Some (ow, m) \<longrightarrow> m \<le> m0) \<and>
      (best = Some (ow0, m0) \<or> s_owner s = ow0 \<and> r_mask (s_e s) = m0)"
      by (cases best) (auto simp: nb_def not_less)
    then obtain ow0 m0 where nb: "nb = Some (ow0, m0)" "r_mask (s_e s) \<le> m0" "\<forall>ow m. best = Some (ow, m) \<longrightarrow> m \<le> m0"
      "best = Some (ow0, m0) \<or> s_owner s = ow0 \<and> r_mask (s_e s) = m0" by blast
    show ?thesis
    proof (cases "match_scan dest t nb")
      case None
      with Cons [of nb] nb(1) show ?thesis by simp
    next
      case (Some p)
      obtain ow m where p: "p = (ow, m)" by fastforce
      with Some Cons [of nb] nb(1) have ih: "m0 \<le> m" "nb = Some (ow, m) \<or> (\<exists>s \<in> set t. s_owner s = ow \<and> r_mask (s_e s) = m \<and>
          dest AND r_mask (s_e s) = r_network (s_e s))"
        "\<forall>s \<in> set t. dest AND r_mask (s_e s) = r_network (s_e s) \<longrightarrow> r_mask (s_e s) \<le> m" by simp_all
      have "\<forall>ow' m'. best = Some (ow', m') \<longrightarrow> m' \<le> m" using nb(3) ih(1) by force
      moreover have "r_mask (s_e s) \<le> m" using nb(2) ih(1) by simp
      moreover have "best = Some (ow, m) \<or> (\<exists>x \<in> set (s # t). s_owner x = ow \<and> r_mask (s_e x) = m \<and>
          dest AND r_mask (s_e x) = r_network (s_e x))" using ih(2) nb(1,4) True by auto
      ultimately show ?thesis using ih(3) Some p step by simp
    qed
  qed
qed

definition prefix_len :: "ip4_entry \<Rightarrow> nat" where
  "prefix_len e = leading_ones 32 (r_mask e)"

lemma mask_order:
  assumes "entry_ok e" "entry_ok e'" "r_mask e \<le> r_mask e'"
  shows "prefix_len e \<le> prefix_len e'"
proof -
  from assms(1,2) obtain m n where "m \<le> 32" "r_mask e = prefix_mask m" "n \<le> 32" "r_mask e' = prefix_mask n"
    by (auto simp: entry_ok_def)
  moreover have "m \<le> n" if "prefix_mask m \<le> prefix_mask n" "m \<le> 32" "n \<le> 32" for m n
  proof (rule ccontr)
    assume "\<not> m \<le> n"
    then have lt: "(2 :: int) ^ (32 - m) < 2 ^ (32 - n)" using that by (intro power_strict_increasing) auto
    have "\<forall>k \<in> set [0..<33]. uint (prefix_mask k) = 2 ^ 32 - 2 ^ (32 - k)" by code_simp
    then have "uint (prefix_mask k) = 2 ^ 32 - 2 ^ (32 - k)" if "k \<le> 32" for k using that by simp
    with that lt show False by (simp add: word_le_def)
  qed
  ultimately show ?thesis using assms(3) by (simp add: prefix_len_def prefix_ones)
qed

fun route_op_ok :: "'o route_op \<Rightarrow> bool" where
  "route_op_ok (R_Set _ es) = (\<forall>e \<in> set es. entry_ok e)"
| "route_op_ok (R_Clear _) = True"

definition on_route :: "u32 \<Rightarrow> ip4_entry \<Rightarrow> bool" where
  "on_route dest e \<longleftrightarrow> dest AND r_mask e = r_network e"

lemma step_entries:
  assumes "\<forall>s \<in> set t. entry_ok (s_e s)" "route_op_ok op"
  shows "\<forall>s \<in> set (route_step op t). entry_ok (s_e s)"
  using assms by (cases op) (auto simp: ip4_routes_set_def ip4_routes_core_set_def ip4_routes_clear_def
      ip4_routes_core_clear_def split: option.splits)

lemma run_entries:
  assumes "\<forall>s \<in> set t. entry_ok (s_e s)" "\<forall>op \<in> set ops. route_op_ok op"
  shows "\<forall>s \<in> set (fold route_step ops t). entry_ok (s_e s)"
  using assms
proof (induction ops arbitrary: t)
  case (Cons op ops)
  then show ?case using step_entries [of t op] by simp
qed simp

lemma run_abs: "routes_abs (fold route_step ops t) = fold route_spec ops (routes_abs t)"
  by (induction ops arbitrary: t) (simp_all add: route_step_abs)

lemma spec_room: "n \<le> IP4_ROUTES_MAX \<Longrightarrow> snd (fold route_spec ops (m, n)) \<le> IP4_ROUTES_MAX"
proof (induction ops arbitrary: m n)
  case (Cons op ops)
  obtain m' n' where s: "route_spec op (m, n) = (m', n')" by fastforce
  have "n' \<le> IP4_ROUTES_MAX"
  proof (cases op)
    case (R_Set netif es)
    then show ?thesis using s Cons.prems by (cases netif) (auto split: if_splits)
  next
    case (R_Clear netif)
    then show ?thesis using s Cons.prems by (cases netif) auto
  qed
  with Cons.IH s show ?case by simp
qed simp

text \<open>C18. After any sequence of requests the table holds for every owner the routes of its last
  request that fitted the sixteen entries, and a lookup answers with an owner of the longest
  prefix that contains the destination, and with none only when no route contains it.\<close>

theorem routes_longest_prefix:
  fixes ops :: "'o route_op list"
  defines "t \<equiv> fold route_step ops []"
    and "routes \<equiv> fst (fold route_spec ops (\<lambda>_. [], 0))"
  assumes "\<forall>op \<in> set ops. route_op_ok op"
  shows "routes_of t = routes \<and> length t \<le> IP4_ROUTES_MAX \<and>
    (case ip4_routes_core_match t dest of
       None \<Rightarrow> \<forall>ow. \<forall>e \<in> set (routes ow). \<not> on_route dest e
     | Some ow \<Rightarrow> \<exists>e \<in> set (routes ow). on_route dest e \<and>
         (\<forall>ow'. \<forall>e' \<in> set (routes ow'). on_route dest e' \<longrightarrow> prefix_len e' \<le> prefix_len e))"
proof -
  have start: "routes_abs [] = (\<lambda>_ :: 'o. [], 0)" by (auto simp: routes_abs_def routes_of_def)
  have abs: "routes_abs t = fold route_spec ops (\<lambda>_. [], 0)" unfolding t_def run_abs start ..
  then have r: "routes_of t = routes" "length t = snd (fold route_spec ops (\<lambda>_. [], 0))"
    unfolding routes_def by (metis fst_conv routes_abs_def, metis snd_conv routes_abs_def)
  have ok: "\<forall>s \<in> set t. entry_ok (s_e s)" unfolding t_def by (rule run_entries [OF _ assms(3)]) simp
  have mem: "e \<in> set (routes ow) \<longleftrightarrow> (\<exists>s \<in> set t. s_owner s = ow \<and> s_e s = e)" for e ow
    unfolding r(1) [symmetric] by (auto simp: routes_of_def)
  have "length t \<le> IP4_ROUTES_MAX" unfolding r(2) by (rule spec_room) simp
  moreover have "case ip4_routes_core_match t dest of
       None \<Rightarrow> \<forall>ow. \<forall>e \<in> set (routes ow). \<not> on_route dest e
     | Some ow \<Rightarrow> \<exists>e \<in> set (routes ow). on_route dest e \<and>
         (\<forall>ow'. \<forall>e' \<in> set (routes ow'). on_route dest e' \<longrightarrow> prefix_len e' \<le> prefix_len e)"
  proof (cases "match_scan dest t None")
    case None
    with match_scan_best [where dest = dest and t = t and best = None] show ?thesis by (auto simp: ip4_routes_core_match_def mem on_route_def)
  next
    case (Some p)
    obtain ow m where p: "p = (ow, m)" by fastforce
    with Some match_scan_best [where dest = dest and t = t and best = None] obtain s where s: "s \<in> set t" "s_owner s = ow" "r_mask (s_e s) = m"
      "dest AND r_mask (s_e s) = r_network (s_e s)"
      and best: "\<forall>s \<in> set t. dest AND r_mask (s_e s) = r_network (s_e s) \<longrightarrow> r_mask (s_e s) \<le> m" by auto
    have "\<forall>ow'. \<forall>e' \<in> set (routes ow'). on_route dest e' \<longrightarrow> prefix_len e' \<le> prefix_len (s_e s)"
      using best s(1,3) ok mask_order by (auto simp: mem on_route_def)
    with s Some p show ?thesis by (auto simp: ip4_routes_core_match_def mem on_route_def intro!: bexI [of _ "s_e s"])
  qed
  ultimately show ?thesis using r(1) by blast
qed

definition example_routes :: "nat route_op list" where
  "example_routes =
     [R_Set (Some 1) [\<lparr>r_network = 0x0A000000, r_mask = prefix_mask 8\<rparr>],
      R_Set (Some 2) [\<lparr>r_network = 0x0A010000, r_mask = prefix_mask 16\<rparr>]]"

lemma routes_longest_prefix_witness:
  "routes_of (fold route_step example_routes []) 2 = [\<lparr>r_network = 0x0A010000, r_mask = prefix_mask 16\<rparr>] \<and>
   length (fold route_step example_routes []) \<le> IP4_ROUTES_MAX \<and>
   (\<exists>ow. ip4_routes_core_match (fold route_step example_routes []) 0x0A010203 = Some ow)"
proof -
  have ok: "\<forall>op \<in> set example_routes. route_op_ok op"
  proof -
    have "entry_ok \<lparr>r_network = 0x0A000000, r_mask = prefix_mask 8\<rparr>"
      unfolding entry_ok_def by (intro conjI exI [of _ 8]) (simp, simp, code_simp)
    moreover have "entry_ok \<lparr>r_network = 0x0A010000, r_mask = prefix_mask 16\<rparr>"
      unfolding entry_ok_def by (intro conjI exI [of _ 16]) (simp, simp, code_simp)
    ultimately show ?thesis by (simp add: example_routes_def)
  qed
  let ?e = "\<lparr>r_network = 0x0A010000, r_mask = prefix_mask 16\<rparr>" and ?r = "fst (fold route_spec example_routes (\<lambda>_. [], 0))"
  have two: "?r 2 = [?e]" by (simp add: example_routes_def)
  have hit: "on_route 0x0A010203 ?e" by code_simp
  note best = routes_longest_prefix [OF ok, of "0x0A010203"]
  have "ip4_routes_core_match (fold route_step example_routes []) 0x0A010203 \<noteq> None"
  proof
    assume "ip4_routes_core_match (fold route_step example_routes []) 0x0A010203 = None"
    with best have "\<forall>e \<in> set (?r 2). \<not> on_route 0x0A010203 e" by simp
    with two hit show False by simp
  qed
  with best two show ?thesis by (metis not_Some_eq)
qed

end
