(* ===== verification/GVRET.thy ===== *)
theory GVRET
  imports CAN_Wire
begin

text \<open>
  \<^verbatim>\<open>components/translator_gvret/translator_gvret_codec.c\<close>: the translator of a bridge for the
  binary protocol of SavvyCAN. \<open>decode\<close> turns chunks of frames into records, \<open>encode\<close> reads the
  client's commands byte by byte: frames to send, questions that are answered, and commands that
  are swallowed. The sink and the reply channel belong to the caller: functions on a state \<open>'k\<close>
  that is threaded through, each says whether it took the bytes. \<open>cmd\<close> of the context is never
  used and left out.
\<close>

type_synonym 'k gvret_out = "bytes \<Rightarrow> 'k \<Rightarrow> 'k \<times> bool"

datatype gvret_state = S_IDLE | S_CMD | S_BUILD | S_SETUP_CANBUS | S_ECHO | S_ABSORB

record gvret_ctx =
  gv_state :: gvret_state
  gv_step :: u16
  gv_absorb_left :: u8
  gv_frame :: can_core_frame
  gv_ts :: u32

definition empty_frame :: can_core_frame where
  "empty_frame = \<lparr>f_id = 0, f_ext = False, f_rtr = False, f_dlc = 0, f_data = replicate 8 0, f_ts_us = 0\<rparr>"

definition gvret_ctx_init :: gvret_ctx where
  "gvret_ctx_init = \<lparr>gv_state = S_IDLE, gv_step = 0, gv_absorb_left = 0, gv_frame = empty_frame, gv_ts = 0\<rparr>"

section \<open>Frames to records\<close>

definition gvret_record :: "u32 \<Rightarrow> can_core_frame \<Rightarrow> bytes" where
  "gvret_record ts f =
     (let cid = (if f_ext f then f_id f OR push_bit 31 1 else f_id f);
          buf = [0xF1, 0x00, byte_of 0 ts, byte_of 1 ts, byte_of 2 ts, byte_of 3 ts,
                 byte_of 0 cid, byte_of 1 cid, byte_of 2 cid, byte_of 3 cid, f_dlc f] @
                take (unat (f_dlc f)) (f_data f)
      in buf @ [foldl (XOR) 0 buf])"

definition gvret_emit_one :: "'k gvret_out \<Rightarrow> can_core_frame \<Rightarrow> gvret_ctx \<times> 'k \<Rightarrow> (gvret_ctx \<times> 'k) \<times> bool" where
  "gvret_emit_one sink f = (\<lambda>(c, st).
     let (ts, c1) = (if f_ts_us f \<noteq> 0 then (f_ts_us f, c\<lparr>gv_ts := f_ts_us f + 1000\<rparr>)
                     else (gv_ts c, c\<lparr>gv_ts := gv_ts c + 1000\<rparr>))
     in case sink (gvret_record ts f) st of (st1, ok) \<Rightarrow> ((c1, st1), ok))"

function gvret_decode :: "'k gvret_out \<Rightarrow> bytes \<Rightarrow> gvret_ctx \<times> 'k \<Rightarrow> (gvret_ctx \<times> 'k) \<times> bool" where
  "gvret_decode sink d s =
     (case can_wire_decode_next d of
        None \<Rightarrow> (s, True)
      | Some (f, n) \<Rightarrow>
          (case gvret_emit_one sink f s of
             (s1, ok) \<Rightarrow> if \<not> ok then (s1, False) else gvret_decode sink (drop n d) s1))"
  by pat_completeness auto
termination
  by (relation "measure (\<lambda>(_, d, _). length d)")
    (auto simp: can_wire_decode_next_def split: if_splits option.splits)

declare gvret_decode.simps [simp del]

section \<open>Commands\<close>

definition gvret_reply :: "'k gvret_out option \<Rightarrow> bytes \<Rightarrow> 'k \<Rightarrow> 'k \<times> bool" where
  "gvret_reply channel b st = (case channel of None \<Rightarrow> (st, True) | Some f \<Rightarrow> f b st)"

text \<open>What a question is answered with.\<close>

definition gvret_answer :: "u32 \<Rightarrow> u8 \<Rightarrow> bytes option" where
  "gvret_answer ts cmd =
     (if cmd = 1 then Some [0xF1, 1, byte_of 0 ts, byte_of 1 ts, byte_of 2 ts, byte_of 3 ts]
      else if cmd = 2 then Some [0xF1, 2, 0, 0]
      else if cmd = 3 then Some (0xF1 # 3 # replicate 15 0)
      else if cmd = 6 then
        Some ([0xF1, 6, 1, byte_of 0 (500000 :: u32), byte_of 1 (500000 :: u32), byte_of 2 (500000 :: u32),
               byte_of 3 (500000 :: u32)] @ replicate 5 0)
      else if cmd = 7 then Some [0xF1, 7, byte_of 0 (618 :: u32), byte_of 1 (618 :: u32), 0x20, 0, 0, 0]
      else if cmd = 9 then Some [0xF1, 9, 0xDE, 0xAD]
      else if cmd = 12 then Some [0xF1, 12, 1]
      else if cmd = 13 then Some (0xF1 # 13 # replicate 15 0)
      else None)"

definition handle_command :: "'k gvret_out option \<Rightarrow> u8 \<Rightarrow> gvret_ctx \<times> 'k \<Rightarrow> (gvret_ctx \<times> 'k) \<times> bool" where
  "handle_command channel cmd = (\<lambda>(c, st).
     case gvret_answer (gv_ts c) cmd of
       Some r \<Rightarrow> (case gvret_reply channel r st of (st1, ok) \<Rightarrow> ((c\<lparr>gv_state := S_IDLE\<rparr>, st1), ok))
     | None \<Rightarrow>
         ((if cmd = 0 then c\<lparr>gv_state := S_BUILD, gv_step := 0, gv_frame := empty_frame\<rparr>
           else if cmd = 5 then c\<lparr>gv_state := S_SETUP_CANBUS, gv_step := 0\<rparr>
           else if cmd = 11 then c\<lparr>gv_state := S_ECHO, gv_step := 0\<rparr>
           else if cmd = 4 \<or> cmd = 8 \<or> cmd = 10 then c\<lparr>gv_state := S_ABSORB, gv_absorb_left := 1\<rparr>
           else if cmd = 14 then c\<lparr>gv_state := S_ABSORB, gv_absorb_left := 12\<rparr>
           else c\<lparr>gv_state := S_IDLE\<rparr>, st), True))"

section \<open>The bytes of the client\<close>

text \<open>A byte of a frame to send, with the step it is read in.\<close>

definition build_byte :: "'k gvret_out \<Rightarrow> u8 \<Rightarrow> gvret_ctx \<times> 'k \<Rightarrow> (gvret_ctx \<times> 'k) \<times> bool" where
  "build_byte sink b = (\<lambda>(c, st).
     let f = gv_frame c; step = gv_step c;
         put = (\<lambda>f'. ((c\<lparr>gv_frame := f', gv_step := step + 1\<rparr>, st), True))
     in if step = 0 then put (f\<lparr>f_id := ucast b\<rparr>)
        else if step = 1 then put (f\<lparr>f_id := f_id f OR push_bit 8 (ucast b)\<rparr>)
        else if step = 2 then put (f\<lparr>f_id := f_id f OR push_bit 16 (ucast b)\<rparr>)
        else if step = 3 then
          (let cid = f_id f OR push_bit 24 (ucast b)
           in put (f\<lparr>f_ext := (cid AND push_bit 31 1 \<noteq> 0), f_id := cid AND 0x7FFFFFFF\<rparr>))
        else if step = 4 then put f
        else if step = 5 then put (f\<lparr>f_dlc := (if b AND 0xF > 8 then 8 else b AND 0xF)\<rparr>)
        else if unat step < unat (f_dlc f) + 6 then put (f\<lparr>f_data := (f_data f)[unat step - 6 := b]\<rparr>)
        else
          (case sink (can_wire_encode f) st of
             (st1, ok) \<Rightarrow>
               if \<not> ok then ((c\<lparr>gv_state := S_IDLE\<rparr>, st1), False)
               else ((c\<lparr>gv_state := S_IDLE, gv_step := step + 1\<rparr>, st1), True)))"

definition echo_byte :: "u8 \<Rightarrow> gvret_ctx \<Rightarrow> gvret_ctx" where
  "echo_byte b c =
     (let c1 = c\<lparr>gv_step := gv_step c + 1\<rparr> in
      if gv_step c = 5 then c1\<lparr>gv_absorb_left := (if b AND 0xF > 8 then 8 else b AND 0xF) + 1\<rparr>
      else if gv_step c > 5 then
        (if gv_absorb_left c - 1 = 0 then c1\<lparr>gv_absorb_left := 0, gv_state := S_IDLE\<rparr>
         else c1\<lparr>gv_absorb_left := gv_absorb_left c - 1\<rparr>)
      else c1)"

definition gvret_byte :: "'k gvret_out option \<Rightarrow> 'k gvret_out \<Rightarrow> u8 \<Rightarrow> gvret_ctx \<times> 'k \<Rightarrow> (gvret_ctx \<times> 'k) \<times> bool" where
  "gvret_byte channel sink b = (\<lambda>(c, st).
     case gv_state c of
       S_IDLE \<Rightarrow> ((if b = 0xF1 then c\<lparr>gv_state := S_CMD\<rparr> else c, st), True)
     | S_CMD \<Rightarrow> handle_command channel b (c, st)
     | S_BUILD \<Rightarrow> build_byte sink b (c, st)
     | S_SETUP_CANBUS \<Rightarrow>
         ((let c1 = c\<lparr>gv_step := gv_step c + 1\<rparr> in if gv_step c1 \<ge> 8 then c1\<lparr>gv_state := S_IDLE\<rparr> else c1, st), True)
     | S_ECHO \<Rightarrow> ((echo_byte b c, st), True)
     | S_ABSORB \<Rightarrow>
         ((let c1 = c\<lparr>gv_absorb_left := gv_absorb_left c - 1\<rparr>
           in if gv_absorb_left c1 = 0 then c1\<lparr>gv_state := S_IDLE\<rparr> else c1, st), True))"

fun gvret_encode :: "'k gvret_out option \<Rightarrow> 'k gvret_out \<Rightarrow> bytes \<Rightarrow> gvret_ctx \<times> 'k \<Rightarrow> (gvret_ctx \<times> 'k) \<times> bool" where
  "gvret_encode channel sink [] s = (s, True)"
| "gvret_encode channel sink (b # bs) s =
     (case gvret_byte channel sink b s of
        (s1, ok) \<Rightarrow> if \<not> ok then (s1, False) else gvret_encode channel sink bs s1)"

section \<open>A client's stream\<close>

text \<open>What a client sends: a frame with its bus and its checksum, a question, the settings of a
  bus, a frame to echo, a setting that is swallowed, and any byte between two commands.\<close>

datatype gvret_item =
    G_Frame can_core_frame u8 u8
  | G_Ask u8
  | G_Setup bytes
  | G_Echo bytes u8 bytes
  | G_Swallow u8 bytes
  | G_Noise u8

fun item_bytes :: "gvret_item \<Rightarrow> bytes" where
  "item_bytes (G_Frame f bus chk) =
     (let w = (if f_ext f then f_id f OR push_bit 31 1 else f_id f)
      in [0xF1, 0, byte_of 0 w, byte_of 1 w, byte_of 2 w, byte_of 3 w, bus, f_dlc f] @ take (unat (f_dlc f)) (f_data f) @ [chk])"
| "item_bytes (G_Ask cmd) = [0xF1, cmd]"
| "item_bytes (G_Setup bs) = 0xF1 # 5 # bs"
| "item_bytes (G_Echo h n bs) = 0xF1 # 11 # h @ n # bs"
| "item_bytes (G_Swallow cmd bs) = 0xF1 # cmd # bs"
| "item_bytes (G_Noise b) = [b]"

fun item_ok :: "gvret_item \<Rightarrow> bool" where
  "item_ok (G_Frame f bus chk) \<longleftrightarrow> frame_ok f \<and> \<not> f_rtr f \<and> unat (f_id f) < 2 ^ 31"
| "item_ok (G_Ask cmd) \<longleftrightarrow> gvret_answer 0 cmd \<noteq> None"
| "item_ok (G_Setup bs) \<longleftrightarrow> length bs = 8"
| "item_ok (G_Echo h n bs) \<longleftrightarrow> length h = 5 \<and> length bs = (if n AND 0xF > 8 then 9 else unat (n AND 0xF) + 1)"
| "item_ok (G_Swallow cmd bs) \<longleftrightarrow> cmd \<in> {4, 8, 10} \<and> length bs = 1 \<or> cmd = 14 \<and> length bs = 12"
| "item_ok (G_Noise b) \<longleftrightarrow> b \<noteq> 0xF1"

text \<open>What it gets: frames on the bus (the flag is set) and answers.\<close>

fun item_out :: "u32 \<Rightarrow> gvret_item \<Rightarrow> (bool \<times> bytes) list" where
  "item_out ts (G_Frame f bus chk) = [(True, can_wire_encode (f\<lparr>f_ts_us := 0\<rparr>))]"
| "item_out ts (G_Ask cmd) = [(False, the (gvret_answer ts cmd))]"
| "item_out ts _ = []"

definition tagged :: "bool \<Rightarrow> (bool \<times> bytes) list gvret_out" where
  "tagged t b st = (st @ [(t, b)], True)"

abbreviation (input) listen :: "bytes \<Rightarrow> gvret_ctx \<times> (bool \<times> bytes) list \<Rightarrow> (gvret_ctx \<times> (bool \<times> bytes) list) \<times> bool" where
  "listen \<equiv> gvret_encode (Some (tagged False)) (tagged True)"

lemma gvret_encode_append:
  "gvret_encode ch sink (xs @ ys) s =
     (case gvret_encode ch sink xs s of (s1, ok) \<Rightarrow> if ok then gvret_encode ch sink ys s1 else (s1, False))"
  by (induction xs arbitrary: s) (auto split: prod.split)

text \<open>The commands that are swallowed.\<close>

lemma setup_run:
  "gv_state c = S_SETUP_CANBUS \<Longrightarrow> unat (gv_step c) + length bs = 8 \<Longrightarrow> bs \<noteq> [] \<Longrightarrow>
     \<exists>c'. listen bs (c, out) = ((c', out), True) \<and> gv_state c' = S_IDLE \<and> gv_ts c' = gv_ts c"
proof (induction bs arbitrary: c)
  case (Cons b bs)
  have u: "unat (gv_step c + 1) = Suc (unat (gv_step c))" using Cons.prems by (simp add: unat_word_ariths)
  show ?case
  proof (cases bs)
    case Nil
    with Cons.prems u show ?thesis by (auto simp: gvret_byte_def word_le_nat_alt Let_def)
  next
    case (Cons b' bs')
    let ?c = "c\<lparr>gv_step := gv_step c + 1\<rparr>"
    have "\<not> 8 \<le> gv_step c + 1" using u Cons.prems Cons by (simp add: word_le_nat_alt)
    moreover have "\<exists>c'. listen bs (?c, out) = ((c', out), True) \<and> gv_state c' = S_IDLE \<and> gv_ts c' = gv_ts ?c"
      using Cons.prems u Cons by (intro Cons.IH) simp_all
    ultimately show ?thesis using Cons.prems by (auto simp: gvret_byte_def Let_def)
  qed
qed simp

lemma absorb_run:
  "gv_state c = S_ABSORB \<Longrightarrow> unat (gv_absorb_left c) = length bs \<Longrightarrow> bs \<noteq> [] \<Longrightarrow>
     \<exists>c'. listen bs (c, out) = ((c', out), True) \<and> gv_state c' = S_IDLE \<and> gv_ts c' = gv_ts c"
proof (induction bs arbitrary: c)
  case (Cons b bs)
  have nz: "gv_absorb_left c \<noteq> 0" using Cons.prems(2) by auto
  then have u: "unat (gv_absorb_left c - 1) = length bs" using Cons.prems(2) by (simp add: unat_minus_one)
  show ?case
  proof (cases bs)
    case Nil
    with u have "gv_absorb_left c - 1 = 0" by (simp add: unat_eq_0)
    with Nil Cons.prems show ?thesis by (auto simp: gvret_byte_def Let_def)
  next
    case (Cons b' bs')
    let ?c = "c\<lparr>gv_absorb_left := gv_absorb_left c - 1\<rparr>"
    have "gv_absorb_left c - 1 \<noteq> 0" using u Cons by auto
    moreover have "\<exists>c'. listen bs (?c, out) = ((c', out), True) \<and> gv_state c' = S_IDLE \<and> gv_ts c' = gv_ts ?c"
      using Cons.prems u Cons by (intro Cons.IH) simp_all
    ultimately show ?thesis using Cons.prems by (auto simp: gvret_byte_def Let_def)
  qed
qed simp

lemma echo_rest:
  "gv_state c = S_ECHO \<Longrightarrow> 5 < unat (gv_step c) \<Longrightarrow> unat (gv_step c) + length bs < 100 \<Longrightarrow> unat (gv_absorb_left c) = length bs \<Longrightarrow> bs \<noteq> [] \<Longrightarrow>
     \<exists>c'. listen bs (c, out) = ((c', out), True) \<and> gv_state c' = S_IDLE \<and> gv_ts c' = gv_ts c"
proof (induction bs arbitrary: c)
  case (Cons b bs)
  have nz: "gv_absorb_left c \<noteq> 0" using Cons.prems(4) by auto
  then have u: "unat (gv_absorb_left c - 1) = length bs" using Cons.prems(4) by (simp add: unat_minus_one)
  have s: "unat (gv_step c + 1) = Suc (unat (gv_step c))" "gv_step c \<noteq> 5" "5 < gv_step c"
    using Cons.prems by (auto simp: unat_word_ariths word_less_nat_alt)
  show ?case
  proof (cases bs)
    case Nil
    with u have "gv_absorb_left c - 1 = 0" by (simp add: unat_eq_0)
    with Nil Cons.prems s show ?thesis by (auto simp: gvret_byte_def echo_byte_def Let_def)
  next
    case (Cons b' bs')
    let ?c = "c\<lparr>gv_step := gv_step c + 1, gv_absorb_left := gv_absorb_left c - 1\<rparr>"
    have "gv_absorb_left c - 1 \<noteq> 0" using u Cons by auto
    moreover have "\<exists>c'. listen bs (?c, out) = ((c', out), True) \<and> gv_state c' = S_IDLE \<and> gv_ts c' = gv_ts ?c"
      using Cons.prems u s Cons by (intro Cons.IH) simp_all
    ultimately show ?thesis using Cons.prems s by (auto simp: gvret_byte_def echo_byte_def Let_def)
  qed
qed simp

lemma echo_run:
  assumes "gv_state c = S_ECHO" "gv_step c = 0" "length h = 5" "length bs = (if n AND 0xF > 8 then 9 else unat (n AND 0xF) + 1)"
  shows "\<exists>c'. listen (h @ n # bs) (c, out) = ((c', out), True) \<and> gv_state c' = S_IDLE \<and> gv_ts c' = gv_ts c"
proof -
  obtain h0 h1 h2 h3 h4 where h: "h = [h0, h1, h2, h3, h4]"
    using assms(3) by (auto simp: numeral_eq_Suc length_Suc_conv)
  let ?c = "c\<lparr>gv_step := 6, gv_absorb_left := (if n AND 0xF > 8 then 8 else n AND 0xF) + 1\<rparr>"
  have start: "listen (h @ n # bs) (c, out) = listen bs (?c, out)"
    using assms(1,2) by (simp add: h gvret_byte_def echo_byte_def Let_def)
  have le: "unat (n AND 0xF) \<le> 8" if "\<not> n AND 0xF > 8" using that by (simp add: word_less_nat_alt)
  have len: "unat ((if n AND 0xF > 8 then 8 else n AND 0xF) + 1) = length bs"
    using assms(4) le by (auto simp: unat_word_ariths)
  have "length bs \<le> 9" "bs \<noteq> []" using assms(4) le by (auto split: if_splits)
  then have "\<exists>c'. listen bs (?c, out) = ((c', out), True) \<and> gv_state c' = S_IDLE \<and> gv_ts c' = gv_ts ?c"
    using assms(1) len by (intro echo_rest) simp_all
  with start show ?thesis by simp
qed

lemma step_past_header: "6 \<le> unat (x :: u16) \<Longrightarrow> x \<notin> {0, 1, 2, 3, 4, 5}"
  by auto

lemma data_run:
  "gv_state c = S_BUILD \<Longrightarrow> gv_step c = of_nat (6 + i) \<Longrightarrow> i + length bs \<le> unat (f_dlc (gv_frame c)) \<Longrightarrow>
     unat (f_dlc (gv_frame c)) \<le> 8 \<Longrightarrow> length (f_data (gv_frame c)) = 8 \<Longrightarrow>
     listen bs (c, out) = ((c\<lparr>gv_frame := (gv_frame c)\<lparr>f_data := blit i bs (f_data (gv_frame c))\<rparr>,
       gv_step := of_nat (6 + i + length bs)\<rparr>, out), True)"
proof (induction bs arbitrary: c i)
  case Nil
  then show ?case by (simp add: blit_def)
next
  case (Cons b bs)
  let ?f = "gv_frame c"
  have s: "unat (gv_step c) = 6 + i" using Cons.prems by (simp add: unat_of_nat_small del: of_nat_add)
  then have ne: "gv_step c \<notin> {0, 1, 2, 3, 4, 5}" by (intro step_past_header) simp
  have "gvret_byte (Some (tagged False)) (tagged True) b (c, out) =
      ((c\<lparr>gv_frame := ?f\<lparr>f_data := (f_data ?f)[i := b]\<rparr>, gv_step := of_nat (6 + Suc i)\<rparr>, out), True)"
    using Cons.prems s ne by (simp add: gvret_byte_def build_byte_def Let_def)
  moreover have "blit (Suc i) bs ((f_data ?f)[i := b]) = blit i (b # bs) (f_data ?f)"
    using Cons.prems by (simp add: blit_def take_Suc_conv_app_nth)
  ultimately show ?case
    using Cons.IH [of "c\<lparr>gv_frame := ?f\<lparr>f_data := (f_data ?f)[i := b]\<rparr>, gv_step := of_nat (6 + Suc i)\<rparr>" "Suc i"] Cons.prems
    by (simp add: algebra_simps)
qed

lemma id_split:
  fixes w :: u32 and e :: bool
  assumes "unat w < 2 ^ 31"
  defines "v \<equiv> (if e then w OR push_bit 31 1 else w)"
  defines "r \<equiv> ucast (byte_of 0 v) OR push_bit 8 (ucast (byte_of (Suc 0) v)) OR push_bit 16 (ucast (byte_of 2 v)) OR push_bit 24 (ucast (byte_of 3 v))"
  shows "r AND push_bit 31 1 \<noteq> 0 \<longleftrightarrow> e" "r AND 0x7FFFFFFF = w"
proof -
  have r: "r = v" using le32_byte_of [of v] unfolding r_def le32_def by simp
  have b: "bit w n \<Longrightarrow> n < 31" for n using bit_bounded [OF assms(1)] .
  have v: "bit v n \<longleftrightarrow> bit w n \<or> e \<and> n = 31" for n
  proof -
    have "bit ((2 :: u32) ^ 31) n \<longleftrightarrow> n = 31" by (simp only: bit_exp_iff possible_bit_word) auto
    then show ?thesis by (cases e) (simp_all only: v_def push_bit_of_1 bit_or_iff if_True if_False simp_thms)
  qed
  have "bit v 31 \<longleftrightarrow> e" unfolding v by (auto dest: b)
  then show "r AND push_bit 31 1 \<noteq> 0 \<longleftrightarrow> e"
    unfolding r push_bit_of_1 by (simp only: and_exp_eq_0_iff_not_bit not_not)
  have m: "(0x7FFFFFFF :: u32) = mask 31" by (simp add: mask_eq_exp_minus_1)
  show "r AND 0x7FFFFFFF = w" unfolding r m
  proof (rule bit_word_eqI)
    fix n assume "n < LENGTH(32)"
    show "bit (v AND mask 31) n \<longleftrightarrow> bit w n" unfolding bit_and_iff bit_mask_iff v using b [of n] by auto
  qed
qed


lemma header_run:
  assumes "gv_state c = S_BUILD" "gv_step c = 0" "gv_frame c = empty_frame"
  shows "listen [b0, b1, b2, b3, bus, d] (c, out) =
    ((let r = ucast b0 OR push_bit 8 (ucast b1) OR push_bit 16 (ucast b2) OR push_bit 24 (ucast b3)
      in c\<lparr>gv_frame := empty_frame\<lparr>f_id := r AND 0x7FFFFFFF, f_ext := (r AND push_bit 31 1 \<noteq> 0),
           f_dlc := (if d AND 0xF > 8 then 8 else d AND 0xF)\<rparr>, gv_step := 6\<rparr>, out), True)"
  using assms by (simp add: gvret_byte_def build_byte_def Let_def empty_frame_def or.assoc)

lemma frame_run:
  assumes "gv_state c = S_BUILD" "gv_step c = 0" "gv_frame c = empty_frame" "item_ok (G_Frame f bus chk)"
  shows "\<exists>c'. listen (drop 2 (item_bytes (G_Frame f bus chk))) (c, out) =
     ((c', out @ item_out ts (G_Frame f bus chk)), True) \<and> gv_state c' = S_IDLE \<and> gv_ts c' = gv_ts c"
proof -
  let ?w = "if f_ext f then f_id f OR push_bit 31 1 else f_id f"
  have ok: "unat (f_dlc f) \<le> 8" "length (f_data f) = 8" "\<not> f_rtr f" "unat (f_id f) < 2 ^ 31"
    and data: "f_data f = take (unat (f_dlc f)) (f_data f) @ replicate (8 - unat (f_dlc f)) 0"
    using assms(4) by (auto simp: frame_ok_def)
  have d: "f_dlc f AND 0xF = f_dlc f" "\<not> f_dlc f > 8"
    using ok(1) less_mask_eq [of "f_dlc f" 4] by (simp_all add: word_less_nat_alt mask_eq_exp_minus_1)
  let ?c = "c\<lparr>gv_frame := empty_frame\<lparr>f_id := f_id f, f_ext := f_ext f, f_dlc := f_dlc f\<rparr>, gv_step := 6\<rparr>"
  have hdr: "listen [byte_of 0 ?w, byte_of (Suc 0) ?w, byte_of 2 ?w, byte_of 3 ?w, bus, f_dlc f] (c, out) = ((?c, out), True)"
    unfolding header_run [OF assms(1-3)] Let_def id_split [OF ok(4)] d(1) using d(2) by simp
  have "blit 0 (take (unat (f_dlc f)) (f_data f)) (replicate 8 0) = f_data f"
    using ok(1,2) by (simp add: blit_def data [symmetric])
  then have dat: "listen (take (unat (f_dlc f)) (f_data f)) (?c, out) =
      ((?c\<lparr>gv_frame := f\<lparr>f_ts_us := 0\<rparr>, gv_step := of_nat (6 + unat (f_dlc f))\<rparr>, out), True)"
    using data_run [of ?c 0 "take (unat (f_dlc f)) (f_data f)" out] assms(1) ok by (simp add: empty_frame_def)
  let ?last = "?c\<lparr>gv_frame := f\<lparr>f_ts_us := 0\<rparr>, gv_step := of_nat (6 + unat (f_dlc f))\<rparr>"
  have fin: "listen [chk] (?last, out) =
      ((?last\<lparr>gv_state := S_IDLE, gv_step := gv_step ?last + 1\<rparr>, out @ [(True, can_wire_encode (f\<lparr>f_ts_us := 0\<rparr>))]), True)"
    (is "_ = ((?c', ?o), True)")
  proof -
    have "unat (gv_step ?last) = 6 + unat (f_dlc f)" using ok(1) by (simp add: unat_of_nat_small del: of_nat_add)
    moreover from this have "gv_step ?last \<notin> {0, 1, 2, 3, 4, 5}" by (intro step_past_header) (simp only: le_add1)
    ultimately show ?thesis using assms(1)
      by (simp add: gvret_byte_def build_byte_def Let_def tagged_def del: of_nat_add)
  qed
  have items: "drop 2 (item_bytes (G_Frame f bus chk)) =
      [byte_of 0 ?w, byte_of (Suc 0) ?w, byte_of 2 ?w, byte_of 3 ?w, bus, f_dlc f] @ take (unat (f_dlc f)) (f_data f) @ [chk]"
    by (simp add: Let_def)
  have "listen (drop 2 (item_bytes (G_Frame f bus chk))) (c, out) = ((?c', ?o), True)"
    by (simp only: items gvret_encode_append hdr dat fin prod.case if_True)
  then show ?thesis by auto
qed

text \<open>Every command leaves the parser idle, with the answer or the frame it asks for.\<close>

lemma command_opens:
  "gv_state c = S_IDLE \<Longrightarrow> gvret_answer (gv_ts c) cmd = None \<Longrightarrow>
     listen (0xF1 # cmd # bs) (c, out) = listen bs (fst (fst (handle_command (Some (tagged False)) cmd (c, out))), out)"
  by (cases c) (simp add: gvret_byte_def handle_command_def)

lemma answer_any: "(gvret_answer ts cmd = None) = (gvret_answer ts' cmd = None)"
  by (simp add: gvret_answer_def)

lemma item_run:
  assumes "gv_state c = S_IDLE" "item_ok it"
  shows "\<exists>c'. listen (item_bytes it) (c, out) = ((c', out @ item_out (gv_ts c) it), True) \<and>
    gv_state c' = S_IDLE \<and> gv_ts c' = gv_ts c"
proof (cases it)
  case (G_Frame f bus chk)
  let ?c = "c\<lparr>gv_state := S_BUILD, gv_step := 0, gv_frame := empty_frame\<rparr>"
  have "listen (item_bytes it) (c, out) = listen (drop 2 (item_bytes it)) (?c, out)"
    using assms(1) G_Frame command_opens [of c 0 "drop 2 (item_bytes it)" out]
    by (simp add: gvret_answer_def handle_command_def Let_def del: gvret_encode.simps)
  then show ?thesis using frame_run [of ?c f bus chk out "gv_ts c"] assms(2) unfolding G_Frame by (simp del: item_bytes.simps item_ok.simps item_out.simps)
next
  case (G_Ask cmd)
  then obtain r where "gvret_answer (gv_ts c) cmd = Some r" using assms(2) answer_any [of 0 cmd "gv_ts c"] by auto
  then show ?thesis using assms(1) G_Ask by (simp add: gvret_byte_def handle_command_def gvret_reply_def tagged_def)
next
  case (G_Setup bs)
  let ?c = "c\<lparr>gv_state := S_SETUP_CANBUS, gv_step := 0\<rparr>"
  have "bs \<noteq> []" using assms(2) G_Setup by auto
  moreover have "listen (item_bytes it) (c, out) = listen bs (?c, out)"
    using assms(1) G_Setup command_opens [of c 5 bs out]
    by (simp add: gvret_answer_def handle_command_def del: gvret_encode.simps)
  ultimately show ?thesis using setup_run [of ?c bs out] assms(2) G_Setup by simp
next
  case (G_Echo h n bs)
  let ?c = "c\<lparr>gv_state := S_ECHO, gv_step := 0\<rparr>"
  have "listen (item_bytes it) (c, out) = listen (h @ n # bs) (?c, out)"
    using assms(1) G_Echo command_opens [of c 11 "h @ n # bs" out]
    by (simp add: gvret_answer_def handle_command_def del: gvret_encode.simps)
  then show ?thesis using echo_run [of ?c h bs n out] assms(2) G_Echo by simp
next
  case (G_Swallow cmd bs)
  let ?c = "c\<lparr>gv_state := S_ABSORB, gv_absorb_left := (if cmd = 14 then 12 else 1)\<rparr>"
  have "bs \<noteq> []" using assms(2) G_Swallow by auto
  moreover have "listen (item_bytes it) (c, out) = listen bs (?c, out)"
    using assms(1,2) G_Swallow command_opens [of c cmd bs out]
    by (auto simp add: gvret_answer_def handle_command_def simp del: gvret_encode.simps)
  ultimately show ?thesis using absorb_run [of ?c bs out] assms(2) G_Swallow by auto
next
  case (G_Noise b)
  then show ?thesis using assms by (simp add: gvret_byte_def)
qed

lemma items_run:
  "gv_state c = S_IDLE \<Longrightarrow> list_all item_ok items \<Longrightarrow>
     \<exists>c'. listen (concat (map item_bytes items)) (c, out) = ((c', out @ concat (map (item_out (gv_ts c)) items)), True) \<and>
       gv_state c' = S_IDLE \<and> gv_ts c' = gv_ts c"
proof (induction items arbitrary: c out)
  case (Cons it items)
  obtain c1 where c1: "listen (item_bytes it) (c, out) = ((c1, out @ item_out (gv_ts c) it), True)"
      "gv_state c1 = S_IDLE" "gv_ts c1 = gv_ts c"
    using item_run [of c it out] Cons.prems by auto
  then show ?case using Cons.IH [of c1 "out @ item_out (gv_ts c) it"] Cons.prems by (simp add: gvret_encode_append)
qed simp

interpretation gv: stream_reader "gvret_encode channel sink" for channel sink
  by unfold_locales (simp_all add: gvret_encode_append)

lemma replicate_six: "replicate 6 (x :: u8) = [x, x, x, x, x, x]"
  by (simp add: eval_nat_numeral)

text \<open>C19. A client's stream of frames, questions, settings and noise, cut into pieces in any way,
  reaches an idle translator as the frames it wants sent and the answers it asks for, in
  order and nothing else, and leaves the translator idle with its clock unchanged.\<close>

theorem gvret_stream:
  assumes "gv_state c = S_IDLE" "list_all item_ok items" "concat pieces = concat (map item_bytes items)"
  shows "\<exists>c'. feed_pieces (gvret_encode (Some (tagged False)) (tagged True)) pieces (c, out) =
      ((c', out @ concat (map (item_out (gv_ts c)) items)), True) \<and> gv_state c' = S_IDLE \<and> gv_ts c' = gv_ts c"
  unfolding gv.pieces_concat assms(3) using assms(1,2) by (rule items_run)

text \<open>Witness: a stray byte, a keepalive, a frame of two bytes and a bus set up, in two pieces
  that cut the frame.\<close>

lemma gvret_stream_witness:
  "\<exists>c'. feed_pieces (gvret_encode (Some (tagged False)) (tagged True))
      [[0xE7, 0xF1, 9, 0xF1, 0, 0x23, 1], [0, 0, 0, 2, 0xAA, 0xBB, 0, 0xF1, 5, 1, 2, 3, 4, 5, 6, 7, 8]] (gvret_ctx_init, []) =
    ((c', [(False, [0xF1, 9, 0xDE, 0xAD]),
           (True, can_wire_encode \<lparr>f_id = 0x123, f_ext = False, f_rtr = False, f_dlc = 2,
              f_data = [0xAA, 0xBB, 0, 0, 0, 0, 0, 0], f_ts_us = 0\<rparr>)]), True) \<and>
      gv_state c' = S_IDLE \<and> gv_ts c' = 0"
  using gvret_stream [of gvret_ctx_init
    "[G_Noise 0xE7, G_Ask 9, G_Frame \<lparr>f_id = 0x123, f_ext = False, f_rtr = False, f_dlc = 2,
        f_data = [0xAA, 0xBB, 0, 0, 0, 0, 0, 0], f_ts_us = 0\<rparr> 0 0, G_Setup [1, 2, 3, 4, 5, 6, 7, 8]]"
    "[[0xE7, 0xF1, 9, 0xF1, 0, 0x23, 1], [0, 0, 0, 2, 0xAA, 0xBB, 0, 0xF1, 5, 1, 2, 3, 4, 5, 6, 7, 8]]" "[]"]
  by (simp add: gvret_ctx_init_def gvret_answer_def frame_ok_def byte_of_def replicate_six del: feed_pieces.simps)

end
