(* ===== verification/Autopid_Sched.thy ===== *)
theory Autopid_Sched
  imports Prelude
begin

text \<open>
  \<^verbatim>\<open>components/autopid/autopid_sched.c\<close>: the scheduler of the parameter requests, with its callers:
  the runtime control of the groups (\<^verbatim>\<open>autopid_group.c\<close>) and the pass of the poller task
  (\<^verbatim>\<open>autopid_poller.c\<close>), which chooses the kinds of rows that may run, picks a row, runs it and
  records the run. The rows hold the fields the scheduler reads. Times are the 64-bit microseconds
  of the clock, read as integers; an override of a period is a 32-bit integer and negative when there
  is none.
\<close>

section \<open>Configuration\<close>

datatype ap_pid_type = AP_PID_STD | AP_PID_CUSTOM | AP_PID_SPECIFIC

datatype ap_row_class = AP_CLASS_CHIP | AP_CLASS_PASSIVE | AP_CLASS_BUS_TX

record ap_pid =
  pd_type :: ap_pid_type
  pd_group :: int
  pd_period_ms :: u32
  pd_enabled :: bool
  pd_j1939 :: bool
  pd_j1939_request :: bool

record ap_filter =
  fl_group :: int
  fl_period_ms :: u32
  fl_enabled :: bool

record ap_group =
  gr_name :: string
  gr_enabled_default :: bool
  gr_period_ms :: u32

record ap_config =
  cf_groups :: "ap_group list"
  cf_pids :: "ap_pid list"
  cf_filters :: "ap_filter list"

record ap_sched_slot =
  sl_due_us :: int
  sl_last_run_us :: int
  sl_fail_streak :: u16

record ap_sched =
  sd_slots :: "ap_sched_slot list"
  sd_group_enabled :: "bool list"
  sd_group_override :: "int list"
  sd_type_enabled :: "ap_pid_type \<Rightarrow> bool"

abbreviation (input) AP_MAX_ENTRIES :: nat where "AP_MAX_ENTRIES \<equiv> 640"
abbreviation (input) AP_MAX_GROUPS :: nat where "AP_MAX_GROUPS \<equiv> 32"
abbreviation (input) AP_SCHED_STAGGER_US :: int where "AP_SCHED_STAGGER_US \<equiv> 10000"

definition ap_class_bit :: "ap_row_class \<Rightarrow> u32" where
  "ap_class_bit c = push_bit (case c of AP_CLASS_CHIP \<Rightarrow> 0 | AP_CLASS_PASSIVE \<Rightarrow> 1 | AP_CLASS_BUS_TX \<Rightarrow> 2) 1"

definition AP_CLASS_ALL :: u32 where
  "AP_CLASS_ALL = ap_class_bit AP_CLASS_CHIP OR ap_class_bit AP_CLASS_PASSIVE OR ap_class_bit AP_CLASS_BUS_TX"

definition ap_row_class_of :: "ap_pid option \<Rightarrow> ap_row_class" where
  "ap_row_class_of p =
     (case p of
        None \<Rightarrow> AP_CLASS_CHIP
      | Some pid \<Rightarrow> if \<not> pd_j1939 pid then AP_CLASS_CHIP
                    else if pd_j1939_request pid then AP_CLASS_BUS_TX else AP_CLASS_PASSIVE)"

section \<open>The scheduler\<close>

definition entry_count :: "ap_config \<Rightarrow> nat" where
  "entry_count cfg = length (cf_pids cfg) + length (cf_filters cfg)"

definition ap_sched_client_hold :: "u32 \<Rightarrow> bool" where
  "ap_sched_client_hold idle_ms \<longleftrightarrow> idle_ms < 10000"

definition entry_group :: "ap_config \<Rightarrow> nat \<Rightarrow> int" where
  "entry_group cfg i =
     (if i < length (cf_pids cfg) then pd_group (cf_pids cfg ! i) else fl_group (cf_filters cfg ! (i - length (cf_pids cfg))))"

definition entry_period_ms :: "ap_config \<Rightarrow> nat \<Rightarrow> u32" where
  "entry_period_ms cfg i =
     (if i < length (cf_pids cfg) then pd_period_ms (cf_pids cfg ! i) else fl_period_ms (cf_filters cfg ! (i - length (cf_pids cfg))))"

definition entry_self_enabled :: "ap_config \<Rightarrow> nat \<Rightarrow> bool" where
  "entry_self_enabled cfg i =
     (if i < length (cf_pids cfg) then pd_enabled (cf_pids cfg ! i) else fl_enabled (cf_filters cfg ! (i - length (cf_pids cfg))))"

definition ap_sched_entry_class :: "ap_config \<Rightarrow> nat \<Rightarrow> ap_row_class" where
  "ap_sched_entry_class cfg i =
     (if i < length (cf_pids cfg) then ap_row_class_of (Some (cf_pids cfg ! i)) else AP_CLASS_CHIP)"

definition ap_sched_reset :: "ap_sched \<Rightarrow> ap_config \<Rightarrow> int \<Rightarrow> ap_sched" where
  "ap_sched_reset st cfg now =
     st\<lparr>sd_slots := map (\<lambda>i. if i < entry_count cfg
            then \<lparr>sl_due_us = now + int i * AP_SCHED_STAGGER_US, sl_last_run_us = 0, sl_fail_streak = 0\<rparr>
            else \<lparr>sl_due_us = 0, sl_last_run_us = 0, sl_fail_streak = 0\<rparr>) [0..<AP_MAX_ENTRIES],
        sd_group_enabled := map gr_enabled_default (cf_groups cfg) @ drop (length (cf_groups cfg)) (sd_group_enabled st),
        sd_group_override := map (\<lambda>_. -1) (cf_groups cfg) @ drop (length (cf_groups cfg)) (sd_group_override st)\<rparr>"

definition ap_sched_entry_enabled :: "ap_sched \<Rightarrow> ap_config \<Rightarrow> nat \<Rightarrow> bool" where
  "ap_sched_entry_enabled st cfg i =
     (if \<not> entry_self_enabled cfg i then False
      else
        let g = entry_group cfg i in
        if g < 0 \<or> g \<ge> int (length (cf_groups cfg)) \<or> \<not> sd_group_enabled st ! nat g then False
        else if i < length (cf_pids cfg) \<and> \<not> sd_type_enabled st (pd_type (cf_pids cfg ! i)) then False
        else True)"

text \<open>The period: the group's or the row's own, an override for the whole group, four times as
  long after three failures in a row, and not below the floor of the row's class.\<close>

definition ap_sched_period_us :: "ap_sched \<Rightarrow> ap_config \<Rightarrow> nat \<Rightarrow> int" where
  "ap_sched_period_us st cfg i =
     (let g = entry_group cfg i; grouped = (g \<ge> 0 \<and> g < int (length (cf_groups cfg)));
          override = sd_group_override st ! nat g;
          p0 = uint (entry_period_ms cfg i);
          p1 = (if p0 = 0 then
                  (if grouped then (if override \<ge> 0 then override else uint (gr_period_ms (cf_groups cfg ! nat g))) else p0)
                else if grouped \<and> override \<ge> 0 then override else p0);
          p2 = (if sl_fail_streak (sd_slots st ! i) \<ge> 3 then (if p1 = 0 then 1000 else p1) * 4 else p1);
          cls = ap_sched_entry_class cfg i;
          p3 = (if cls = AP_CLASS_BUS_TX \<and> p2 < 1000 then 1000
                else if p2 = 0 \<and> cls \<noteq> AP_CLASS_CHIP then 20 else p2)
      in p3 * 1000)"

definition ap_sched_group_set :: "ap_sched \<Rightarrow> nat \<Rightarrow> bool \<Rightarrow> int \<Rightarrow> ap_sched" where
  "ap_sched_group_set st g en override =
     (let st1 = st\<lparr>sd_group_enabled := (sd_group_enabled st)[g := en]\<rparr>
      in if override \<ge> 0 then st1\<lparr>sd_group_override := (sd_group_override st1)[g := override]\<rparr> else st1)"

definition ap_sched_group_restore :: "ap_sched \<Rightarrow> ap_config \<Rightarrow> nat \<Rightarrow> ap_sched" where
  "ap_sched_group_restore st cfg g =
     st\<lparr>sd_group_enabled := (sd_group_enabled st)[g := gr_enabled_default (cf_groups cfg ! g)],
        sd_group_override := (sd_group_override st)[g := -1]\<rparr>"

definition due_before :: "ap_sched_slot \<Rightarrow> ap_sched_slot \<Rightarrow> bool" where
  "due_before s t \<longleftrightarrow> sl_due_us s < sl_due_us t \<or> sl_due_us s = sl_due_us t \<and> sl_last_run_us s < sl_last_run_us t"

fun next_scan :: "ap_sched \<Rightarrow> ap_config \<Rightarrow> u32 \<Rightarrow> nat list \<Rightarrow> nat option \<Rightarrow> nat option" where
  "next_scan st cfg classes [] best = best"
| "next_scan st cfg classes (i # is) best =
     (if \<not> ap_sched_entry_enabled st cfg i \<or> classes AND ap_class_bit (ap_sched_entry_class cfg i) = 0
      then next_scan st cfg classes is best
      else next_scan st cfg classes is
        (case best of
           None \<Rightarrow> Some i
         | Some b \<Rightarrow> if due_before (sd_slots st ! i) (sd_slots st ! b) then Some i else best))"

definition ap_sched_next_of :: "ap_sched \<Rightarrow> ap_config \<Rightarrow> u32 \<Rightarrow> (nat \<times> int) option" where
  "ap_sched_next_of st cfg classes =
     map_option (\<lambda>b. (b, sl_due_us (sd_slots st ! b))) (next_scan st cfg classes [0..<entry_count cfg] None)"

definition ap_sched_next :: "ap_sched \<Rightarrow> ap_config \<Rightarrow> (nat \<times> int) option" where
  "ap_sched_next st cfg = ap_sched_next_of st cfg AP_CLASS_ALL"

definition ap_sched_ran :: "ap_sched \<Rightarrow> ap_config \<Rightarrow> nat \<Rightarrow> int \<Rightarrow> bool \<Rightarrow> ap_sched" where
  "ap_sched_ran st cfg i now ok =
     (let sl = sd_slots st ! i;
          streak = (if ok then 0 else if sl_fail_streak sl < 0xFFFF then sl_fail_streak sl + 1 else sl_fail_streak sl);
          st1 = st\<lparr>sd_slots := (sd_slots st)[i := sl\<lparr>sl_fail_streak := streak, sl_last_run_us := now\<rparr>]\<rparr>
      in st1\<lparr>sd_slots := (sd_slots st1)[i := (sd_slots st1 ! i)\<lparr>sl_due_us := now + ap_sched_period_us st1 cfg i\<rparr>]\<rparr>)"

section \<open>The groups by name\<close>

datatype ap_err = AP_OK | AP_INVALID_ARG | AP_NOT_FOUND

definition group_index :: "ap_config \<Rightarrow> string \<Rightarrow> nat option" where
  "group_index cfg name = find_idx (\<lambda>g. gr_name g = name) (cf_groups cfg)"

definition autopid_group_set :: "ap_sched \<Rightarrow> ap_config \<Rightarrow> string option \<Rightarrow> bool \<Rightarrow> int \<Rightarrow> ap_sched \<times> ap_err" where
  "autopid_group_set st cfg name en override =
     (case name of
        None \<Rightarrow> (st, AP_INVALID_ARG)
      | Some nm \<Rightarrow>
          (case group_index cfg nm of
             None \<Rightarrow> (st, AP_NOT_FOUND)
           | Some g \<Rightarrow> (ap_sched_group_set st g en override, AP_OK)))"

definition autopid_group_restore :: "ap_sched \<Rightarrow> ap_config \<Rightarrow> string option \<Rightarrow> ap_sched \<times> ap_err" where
  "autopid_group_restore st cfg name =
     (case name of
        None \<Rightarrow> (st, AP_INVALID_ARG)
      | Some nm \<Rightarrow>
          (case group_index cfg nm of
             None \<Rightarrow> (st, AP_NOT_FOUND)
           | Some g \<Rightarrow> (ap_sched_group_restore st cfg g, AP_OK)))"

definition ap_core_set_type_enabled :: "ap_sched \<Rightarrow> ap_pid_type \<Rightarrow> bool \<Rightarrow> ap_sched" where
  "ap_core_set_type_enabled st ty en = st\<lparr>sd_type_enabled := (sd_type_enabled st)(ty := en)\<rparr>"

section \<open>A pass of the poller\<close>

text \<open>What a pass has read before it asks the scheduler: the switch, the pauses, the setting that
  a low voltage stops the passive rows too, and the answer of the bus guard.\<close>

record ap_pauses =
  ps_enabled :: bool
  ps_voltage :: bool
  ps_scan :: bool
  ps_client :: bool
  ps_diag :: bool
  ps_voltage_all :: bool
  ps_guard_ok :: bool

definition poller_chip_ok :: "ap_pauses \<Rightarrow> bool" where
  "poller_chip_ok p \<longleftrightarrow>
     (ps_enabled p \<and> \<not> ps_voltage p \<and> \<not> ps_scan p \<and> \<not> ps_client p \<and> \<not> ps_diag p) \<and> ps_guard_ok p"

definition poller_passive_ok :: "ap_pauses \<Rightarrow> bool" where
  "poller_passive_ok p \<longleftrightarrow> ps_enabled p \<and> \<not> (ps_voltage p \<and> ps_voltage_all p)"

definition poller_classes :: "ap_pauses \<Rightarrow> u32" where
  "poller_classes p =
     (if poller_chip_ok p then ap_class_bit AP_CLASS_CHIP else 0) OR
     (if poller_passive_ok p then ap_class_bit AP_CLASS_PASSIVE OR ap_class_bit AP_CLASS_BUS_TX else 0)"

text \<open>A pass parks, finds no row, waits for the next one, or runs one: a row with the flag that
  allows it to send on the bus.\<close>

datatype poller_step = P_Park | P_None | P_Wait int | P_Run nat bool

definition poller_pick :: "ap_sched \<Rightarrow> ap_config \<Rightarrow> ap_pauses \<Rightarrow> int \<Rightarrow> poller_step" where
  "poller_pick st cfg p now =
     (if poller_classes p = 0 then P_Park
      else
        (case ap_sched_next_of st cfg (poller_classes p) of
           None \<Rightarrow> P_None
         | Some (i, due) \<Rightarrow>
             if due > now then P_Wait (due - now)
             else P_Run i (poller_passive_ok p \<and> \<not> ps_diag p)))"

text \<open>The run itself ends at \<open>done\<close> with the result \<open>ok\<close>.\<close>

definition poller_pass :: "ap_sched \<Rightarrow> ap_config \<Rightarrow> ap_pauses \<Rightarrow> int \<Rightarrow> int \<Rightarrow> bool \<Rightarrow> ap_sched" where
  "poller_pass st cfg p now fin ok =
     (case poller_pick st cfg p now of
        P_Run i _ \<Rightarrow> ap_sched_ran st cfg i fin ok
      | _ \<Rightarrow> st)"

section \<open>The choice of a row\<close>

definition runnable :: "ap_sched \<Rightarrow> ap_config \<Rightarrow> ap_pauses \<Rightarrow> nat \<Rightarrow> bool" where
  "runnable st cfg p i \<longleftrightarrow>
     i < entry_count cfg \<and> ap_sched_entry_enabled st cfg i \<and>
     (if ap_sched_entry_class cfg i = AP_CLASS_CHIP then poller_chip_ok p else poller_passive_ok p)"

lemma due_before_trans: "\<not> due_before b a \<Longrightarrow> \<not> due_before c b \<Longrightarrow> \<not> due_before c a"
  by (auto simp: due_before_def)

lemma due_before_irrefl [simp]: "\<not> due_before a a"
  by (simp add: due_before_def)

lemma due_before_asym: "due_before a b \<Longrightarrow> \<not> due_before b a"
  by (auto simp: due_before_def)

lemma next_scan_None:
  "next_scan st cfg cl xs best = None \<longleftrightarrow>
     best = None \<and> (\<forall>i \<in> set xs. \<not> (ap_sched_entry_enabled st cfg i \<and> cl AND ap_class_bit (ap_sched_entry_class cfg i) \<noteq> 0))"
  by (induction xs arbitrary: best) (auto split: option.split)

lemma next_scan_Some:
  assumes "next_scan st cfg cl xs best = Some r"
  shows "(r \<in> set xs \<and> ap_sched_entry_enabled st cfg r \<and> cl AND ap_class_bit (ap_sched_entry_class cfg r) \<noteq> 0 \<or> best = Some r) \<and>
    (\<forall>b. best = Some b \<longrightarrow> \<not> due_before (sd_slots st ! b) (sd_slots st ! r)) \<and>
    (\<forall>i \<in> set xs. ap_sched_entry_enabled st cfg i \<and> cl AND ap_class_bit (ap_sched_entry_class cfg i) \<noteq> 0 \<longrightarrow>
       \<not> due_before (sd_slots st ! i) (sd_slots st ! r))"
  using assms
proof (induction xs arbitrary: best)
  case (Cons x xs)
  show ?case
  proof (cases "\<not> ap_sched_entry_enabled st cfg x \<or> cl AND ap_class_bit (ap_sched_entry_class cfg x) = 0")
    case True
    then show ?thesis using Cons by auto
  next
    case False
    then have elig: "ap_sched_entry_enabled st cfg x" "cl AND ap_class_bit (ap_sched_entry_class cfg x) \<noteq> 0" by simp_all
    let ?b = "case best of None \<Rightarrow> Some x
        | Some b \<Rightarrow> if due_before (sd_slots st ! x) (sd_slots st ! b) then Some x else best"
    have scan: "next_scan st cfg cl xs ?b = Some r" using Cons.prems elig by simp
    note ih = Cons.IH [OF scan]
    obtain c where c: "?b = Some c" "c = x \<or> best = Some c" "\<not> due_before (sd_slots st ! x) (sd_slots st ! c)"
        "\<forall>b. best = Some b \<longrightarrow> \<not> due_before (sd_slots st ! b) (sd_slots st ! c)"
      by (rule that [of "case best of None \<Rightarrow> x | Some b \<Rightarrow> if due_before (sd_slots st ! x) (sd_slots st ! b) then x else b"])
        (auto split: option.split dest: due_before_asym)
    have "\<not> due_before (sd_slots st ! c) (sd_slots st ! r)" using ih c(1) by auto
    then have "\<not> due_before (sd_slots st ! x) (sd_slots st ! r)"
        "\<forall>b. best = Some b \<longrightarrow> \<not> due_before (sd_slots st ! b) (sd_slots st ! r)"
      using c(3,4) due_before_trans by blast+
    then show ?thesis using ih c elig by auto
  qed
qed simp

lemma class_bits:
  "poller_classes p AND ap_class_bit c \<noteq> 0 \<longleftrightarrow>
     (if c = AP_CLASS_CHIP then poller_chip_ok p else poller_passive_ok p)"
  by (cases c) (auto simp: poller_classes_def ap_class_bit_def)

lemma no_class: "poller_classes p = 0 \<longleftrightarrow> \<not> poller_chip_ok p \<and> \<not> poller_passive_ok p"
  by (simp add: poller_classes_def ap_class_bit_def)

text \<open>A pass runs a row exactly when a row that may run is due, and then a most urgent one.\<close>

lemma poller_pick_run:
  assumes "poller_pick st cfg p now = P_Run i tx"
  shows "runnable st cfg p i" "sl_due_us (sd_slots st ! i) \<le> now"
    "\<And>j. runnable st cfg p j \<Longrightarrow> \<not> due_before (sd_slots st ! j) (sd_slots st ! i)"
    "tx \<longleftrightarrow> poller_passive_ok p \<and> \<not> ps_diag p"
proof -
  from assms have "poller_classes p \<noteq> 0" by (auto simp: poller_pick_def split: if_splits)
  with assms have scan: "next_scan st cfg (poller_classes p) [0..<entry_count cfg] None = Some i"
    and d: "sl_due_us (sd_slots st ! i) \<le> now" "tx \<longleftrightarrow> poller_passive_ok p \<and> \<not> ps_diag p"
    by (auto simp: poller_pick_def ap_sched_next_of_def split: option.splits if_splits)
  show "sl_due_us (sd_slots st ! i) \<le> now" "tx \<longleftrightarrow> poller_passive_ok p \<and> \<not> ps_diag p" using d by simp_all
  from next_scan_Some [OF scan] show "runnable st cfg p i" unfolding class_bits by (auto simp: runnable_def)
  from next_scan_Some [OF scan] show "\<not> due_before (sd_slots st ! j) (sd_slots st ! i)" if "runnable st cfg p j" for j
    using that unfolding class_bits by (auto simp: runnable_def)
qed

lemma poller_pick_due:
  assumes "runnable st cfg p j" "sl_due_us (sd_slots st ! j) \<le> now"
  obtains i tx where "poller_pick st cfg p now = P_Run i tx"
proof -
  let ?scan = "next_scan st cfg (poller_classes p) [0..<entry_count cfg] None"
  have cl: "poller_classes p \<noteq> 0" using assms(1) by (auto simp: runnable_def no_class split: if_splits)
  have "?scan \<noteq> None" using assms(1) unfolding next_scan_None class_bits by (auto simp: runnable_def)
  then obtain i where i: "?scan = Some i" by auto
  have "\<not> due_before (sd_slots st ! j) (sd_slots st ! i)"
    using next_scan_Some [OF i] assms(1) unfolding class_bits by (auto simp: runnable_def)
  then have "sl_due_us (sd_slots st ! i) \<le> now" using assms(2) by (auto simp: due_before_def)
  then show ?thesis using cl i that by (simp add: poller_pick_def ap_sched_next_of_def)
qed

section \<open>Runs\<close>

definition class_gap :: "ap_row_class \<Rightarrow> int" where
  "class_gap c = (case c of AP_CLASS_CHIP \<Rightarrow> 0 | AP_CLASS_PASSIVE \<Rightarrow> 1000 | AP_CLASS_BUS_TX \<Rightarrow> 1000000)"

lemma period_gap: "class_gap (ap_sched_entry_class cfg i) \<le> ap_sched_period_us st cfg i"
proof -
  have scaled: "class_gap c \<le> (if c = AP_CLASS_BUS_TX \<and> x < 1000 then 1000 else if x = 0 \<and> c \<noteq> AP_CLASS_CHIP then 20 else x) * 1000"
    if "0 \<le> x" for x c using that by (cases c) (auto simp: class_gap_def)
  show ?thesis unfolding ap_sched_period_us_def Let_def by (rule scaled) simp
qed

lemma class_gap_nonneg: "0 \<le> class_gap c"
  by (simp add: class_gap_def split: ap_row_class.split)

lemma ran_slots:
  assumes "i < length (sd_slots st)"
  obtains d k where "sd_slots (ap_sched_ran st cfg i fin ok) =
      (sd_slots st)[i := \<lparr>sl_due_us = d, sl_last_run_us = fin, sl_fail_streak = k\<rparr>]"
    "fin + class_gap (ap_sched_entry_class cfg i) \<le> d"
proof -
  let ?sl = "sd_slots st ! i"
  let ?k = "if ok then 0 else if sl_fail_streak ?sl < 0xFFFF then sl_fail_streak ?sl + 1 else sl_fail_streak ?sl"
  let ?st = "st\<lparr>sd_slots := (sd_slots st)[i := ?sl\<lparr>sl_fail_streak := ?k, sl_last_run_us := fin\<rparr>]\<rparr>"
  let ?p = "ap_sched_period_us ?st cfg i"
  have "sd_slots (ap_sched_ran st cfg i fin ok) = (sd_slots st)[i := ?sl\<lparr>sl_fail_streak := ?k, sl_last_run_us := fin, sl_due_us := fin + ?p\<rparr>]"
    using assms by (simp add: ap_sched_ran_def Let_def)
  also have "?sl\<lparr>sl_fail_streak := ?k, sl_last_run_us := fin, sl_due_us := fin + ?p\<rparr> =
      \<lparr>sl_due_us = fin + ?p, sl_last_run_us = fin, sl_fail_streak = ?k\<rparr>"
    by (cases ?sl) simp
  finally show ?thesis using that period_gap by simp
qed

text \<open>What happens to the scheduler between two loads of the configuration.\<close>

datatype sched_event =
    S_Set "string option" bool int
  | S_Restore "string option"
  | S_Type ap_pid_type bool
  | S_Pass ap_pauses int int bool

fun sched_step :: "ap_config \<Rightarrow> sched_event \<Rightarrow> ap_sched \<Rightarrow> ap_sched" where
  "sched_step cfg (S_Set name en override) st = fst (autopid_group_set st cfg name en override)"
| "sched_step cfg (S_Restore name) st = fst (autopid_group_restore st cfg name)"
| "sched_step cfg (S_Type ty en) st = ap_core_set_type_enabled st ty en"
| "sched_step cfg (S_Pass p now fin ok) st = poller_pass st cfg p now fin ok"

text \<open>The rows that ran, each with the start and the end of its run.\<close>

fun sched_runs :: "ap_config \<Rightarrow> sched_event list \<Rightarrow> ap_sched \<Rightarrow> (nat \<times> int \<times> int) list" where
  "sched_runs cfg [] st = []"
| "sched_runs cfg (e # es) st =
     (case e of
        S_Pass p now fin ok \<Rightarrow> (case poller_pick st cfg p now of P_Run i _ \<Rightarrow> [(i, now, fin)] | _ \<Rightarrow> [])
      | _ \<Rightarrow> []) @ sched_runs cfg es (sched_step cfg e st)"

definition sched_fits :: "ap_config \<Rightarrow> ap_sched \<Rightarrow> bool" where
  "sched_fits cfg st \<longleftrightarrow> entry_count cfg \<le> length (sd_slots st)"

lemma step_slots:
  assumes "\<And>p now fin ok. e \<noteq> S_Pass p now fin ok"
  shows "sd_slots (sched_step cfg e st) = sd_slots st"
  using assms
  by (cases e) (auto simp: autopid_group_set_def autopid_group_restore_def ap_sched_group_set_def ap_sched_group_restore_def
      ap_core_set_type_enabled_def Let_def split: option.split)

lemma pass_slots:
  assumes "sched_fits cfg st" "poller_pick st cfg p now = P_Run i tx"
  obtains d k where "sd_slots (poller_pass st cfg p now fin ok) =
      (sd_slots st)[i := \<lparr>sl_due_us = d, sl_last_run_us = fin, sl_fail_streak = k\<rparr>]"
    "fin + class_gap (ap_sched_entry_class cfg i) \<le> d" "i < entry_count cfg"
proof -
  have i: "i < entry_count cfg" using poller_pick_run(1) [OF assms(2)] by (simp add: runnable_def)
  with assms(1) have "i < length (sd_slots st)" by (simp add: sched_fits_def)
  from ran_slots [OF this, of cfg fin ok] obtain d k where
    "sd_slots (ap_sched_ran st cfg i fin ok) = (sd_slots st)[i := \<lparr>sl_due_us = d, sl_last_run_us = fin, sl_fail_streak = k\<rparr>]"
    "fin + class_gap (ap_sched_entry_class cfg i) \<le> d" .
  then show ?thesis using that i assms(2) by (simp add: poller_pass_def)
qed

lemma pass_idle:
  "(\<And>i tx. poller_pick st cfg p now \<noteq> P_Run i tx) \<Longrightarrow> poller_pass st cfg p now fin ok = st"
  by (auto simp: poller_pass_def split: poller_step.split)

lemma idle_step:
  assumes "\<And>p now fin ok i tx. e = S_Pass p now fin ok \<Longrightarrow> poller_pick st cfg p now \<noteq> P_Run i tx"
  shows "sd_slots (sched_step cfg e st) = sd_slots st"
proof (cases e)
  case (S_Pass p now fin ok)
  then show ?thesis using assms by (simp add: pass_idle)
qed (rule step_slots, simp)+

lemma step_fits:
  assumes "sched_fits cfg st"
  shows "sched_fits cfg (sched_step cfg e st)"
proof (cases "\<exists>p now fin ok i tx. e = S_Pass p now fin ok \<and> poller_pick st cfg p now = P_Run i tx")
  case True
  then obtain p now fin ok i tx where e: "e = S_Pass p now fin ok" "poller_pick st cfg p now = P_Run i tx" by blast
  obtain d k where "sd_slots (poller_pass st cfg p now fin ok) =
      (sd_slots st)[i := \<lparr>sl_due_us = d, sl_last_run_us = fin, sl_fail_streak = k\<rparr>]"
    by (rule pass_slots [OF assms e(2)])
  then show ?thesis using assms e(1) by (simp add: sched_fits_def)
next
  case False
  then have "sd_slots (sched_step cfg e st) = sd_slots st"
    by (intro idle_step) blast
  then show ?thesis using assms by (simp add: sched_fits_def)
qed


lemma runs_pass:
  "poller_pick st cfg p now = P_Run i tx \<Longrightarrow>
     sched_runs cfg (S_Pass p now fin ok # es) st = (i, now, fin) # sched_runs cfg es (poller_pass st cfg p now fin ok)"
  by simp

lemma runs_idle:
  assumes "\<And>p now fin ok i tx. e = S_Pass p now fin ok \<Longrightarrow> poller_pick st cfg p now \<noteq> P_Run i tx"
  shows "sched_runs cfg (e # es) st = sched_runs cfg es (sched_step cfg e st)"
  using assms by (cases e) (auto split: poller_step.split)

lemma step_cases:
  obtains (run) p now fin ok i tx where "e = S_Pass p now fin ok" "poller_pick st cfg p now = P_Run i tx"
  | (idle) "\<And>p now fin ok i tx. e = S_Pass p now fin ok \<Longrightarrow> poller_pick st cfg p now \<noteq> P_Run i tx"
  by blast

text \<open>Runs of one row keep the distance of its class.\<close>

fun ends_after_start :: "sched_event \<Rightarrow> bool" where
  "ends_after_start (S_Pass p now fin ok) \<longleftrightarrow> now \<le> fin"
| "ends_after_start _ \<longleftrightarrow> True"

lemma runs_from_due:
  assumes "list_all ends_after_start es" "sched_fits cfg st" "(i, s, f) \<in> set (sched_runs cfg es st)"
  shows "sl_due_us (sd_slots st ! i) \<le> s"
  using assms
proof (induction es arbitrary: st)
  case (Cons e es)
  let ?st = "sched_step cfg e st"
  have ih: "(i, s, f) \<in> set (sched_runs cfg es ?st) \<Longrightarrow> sl_due_us (sd_slots ?st ! i) \<le> s"
    using Cons.IH [of ?st] Cons.prems step_fits by simp
  show ?case
  proof (cases rule: step_cases [of e st cfg])
    case (run p now fin ok j tx)
    obtain d k where d: "sd_slots (poller_pass st cfg p now fin ok) =
        (sd_slots st)[j := \<lparr>sl_due_us = d, sl_last_run_us = fin, sl_fail_streak = k\<rparr>]"
      "fin + class_gap (ap_sched_entry_class cfg j) \<le> d" "j < entry_count cfg"
      by (rule pass_slots [OF Cons.prems(2) run(2)])
    have due: "sl_due_us (sd_slots st ! j) \<le> now" by (rule poller_pick_run(2) [OF run(2)])
    have "sl_due_us (sd_slots st ! j) \<le> d"
      using due d(2) Cons.prems(1) run(1) class_gap_nonneg [of "ap_sched_entry_class cfg j"] by simp
    then have "sl_due_us (sd_slots st ! i) \<le> sl_due_us (sd_slots ?st ! i)"
      using d(1,3) Cons.prems(2) run(1) by (cases "i = j") (simp_all add: sched_fits_def)
    moreover have "(i, s, f) = (j, now, fin) \<or> (i, s, f) \<in> set (sched_runs cfg es ?st)"
      using Cons.prems(3) run by (simp add: runs_pass del: sched_runs.simps)
    ultimately show ?thesis using ih due by auto
  next
    case idle
    then show ?thesis using ih Cons.prems(3) by (simp add: runs_idle idle_step del: sched_runs.simps)
  qed
qed simp

text \<open>C21. Between the end of a run of a row and the start of a later one lies at least one second
  for a row that asks the network and a millisecond for one that is read from the store,
  whatever happens to groups, types and pauses in between.\<close>

theorem row_runs_paced:
  assumes "list_all ends_after_start es" "sched_fits cfg st"
    and "sched_runs cfg es st = a @ (i, s1, f1) # b @ (i, s2, f2) # c"
  shows "f1 + class_gap (ap_sched_entry_class cfg i) \<le> s2"
  using assms
proof (induction es arbitrary: st a)
  case (Cons e es)
  let ?st = "sched_step cfg e st"
  have fits: "sched_fits cfg ?st" using Cons.prems(2) by (rule step_fits)
  show ?case
  proof (cases rule: step_cases [of e st cfg])
    case (run p now fin ok j tx)
    then have runs: "sched_runs cfg (e # es) st = (j, now, fin) # sched_runs cfg es ?st" by (simp add: runs_pass)
    show ?thesis
    proof (cases a)
      case (Cons x a')
      then show ?thesis using Cons.IH [of ?st a'] Cons.prems fits runs by simp
    next
      case Nil
      with Cons.prems(3) runs have now: "j = i" "now = s1" "fin = f1" "sched_runs cfg es ?st = b @ (i, s2, f2) # c"
        by (simp_all del: sched_runs.simps)
      then have later: "(i, s2, f2) \<in> set (sched_runs cfg es ?st)" by simp
      obtain d k where d: "sd_slots (poller_pass st cfg p now fin ok) =
          (sd_slots st)[j := \<lparr>sl_due_us = d, sl_last_run_us = fin, sl_fail_streak = k\<rparr>]"
        "fin + class_gap (ap_sched_entry_class cfg j) \<le> d" "j < entry_count cfg"
        by (rule pass_slots [OF Cons.prems(2) run(2)])
      have "sl_due_us (sd_slots ?st ! i) \<le> s2"
        by (rule runs_from_due [OF _ fits later]) (use Cons.prems in simp)
      then show ?thesis using d now(1-3) run(1) Cons.prems(2) by (simp add: sched_fits_def)
    qed
  next
    case idle
    then show ?thesis using Cons.IH [of ?st a] Cons.prems fits by (simp add: runs_idle del: sched_runs.simps)
  qed
qed simp


text \<open>A row that stays due and runnable, at passes that take their time.\<close>

fun stays_due :: "ap_config \<Rightarrow> nat \<Rightarrow> int \<Rightarrow> sched_event list \<Rightarrow> ap_sched \<Rightarrow> bool" where
  "stays_due cfg i due [] st \<longleftrightarrow> True"
| "stays_due cfg i due (e # es) st \<longleftrightarrow>
     (case e of S_Pass p now fin ok \<Rightarrow> runnable st cfg p i \<and> due \<le> now \<and> now < fin | _ \<Rightarrow> True) \<and>
     stays_due cfg i due es (sched_step cfg e st)"

fun is_pass :: "sched_event \<Rightarrow> bool" where
  "is_pass (S_Pass p now fin ok) \<longleftrightarrow> True"
| "is_pass _ \<longleftrightarrow> False"

definition rivals :: "ap_config \<Rightarrow> nat \<Rightarrow> int \<Rightarrow> ap_sched \<Rightarrow> nat set" where
  "rivals cfg i due st = {j. j < entry_count cfg \<and> j \<noteq> i \<and> sl_due_us (sd_slots st ! j) \<le> due}"

lemma finite_rivals [simp]: "finite (rivals cfg i due st)"
  unfolding rivals_def by (rule finite_subset [of _ "{..<entry_count cfg}"]) auto

lemma rivals_fewer:
  assumes "sd_slots st' = (sd_slots st)[j := \<lparr>sl_due_us = d, sl_last_run_us = t, sl_fail_streak = k\<rparr>]"
    "j < length (sd_slots st)" "due < d" "j \<in> rivals cfg i due st"
  shows "card (rivals cfg i due st') < card (rivals cfg i due st)"
proof (rule psubset_card_mono)
  have "j \<notin> rivals cfg i due st'" using assms by (simp add: rivals_def)
  moreover have "rivals cfg i due st' \<subseteq> rivals cfg i due st"
  proof
    fix x assume x: "x \<in> rivals cfg i due st'"
    with calculation have "x \<noteq> j" by auto
    with x assms(1) show "x \<in> rivals cfg i due st" by (simp add: rivals_def)
  qed
  ultimately show "rivals cfg i due st' \<subset> rivals cfg i due st" using assms(4) by auto
qed simp

lemma runs_in_time:
  assumes "sched_fits cfg st" "sl_due_us (sd_slots st ! i) = due" "stays_due cfg i due es st"
    "card (rivals cfg i due st) < length (filter is_pass es)"
  shows "\<exists>s f. (i, s, f) \<in> set (sched_runs cfg es st)"
  using assms
proof (induction es arbitrary: st)
  case (Cons e es)
  let ?st = "sched_step cfg e st"
  have fits: "sched_fits cfg ?st" using Cons.prems(1) by (rule step_fits)
  have on: "stays_due cfg i due es ?st" using Cons.prems(3) by simp
  show ?case
  proof (cases rule: step_cases [of e st cfg])
    case (run p now fin ok j tx)
    then have runs: "sched_runs cfg (e # es) st = (j, now, fin) # sched_runs cfg es ?st" by (simp add: runs_pass)
    show ?thesis
    proof (cases "j = i")
      case False
      have i: "runnable st cfg p i" "due \<le> now" "now < fin" using Cons.prems(3) run(1) by simp_all
      obtain d k where d: "sd_slots (poller_pass st cfg p now fin ok) =
          (sd_slots st)[j := \<lparr>sl_due_us = d, sl_last_run_us = fin, sl_fail_streak = k\<rparr>]"
        "fin + class_gap (ap_sched_entry_class cfg j) \<le> d" "j < entry_count cfg"
        by (rule pass_slots [OF Cons.prems(1) run(2)])
      have late: "due < d" using i d(2) class_gap_nonneg [of "ap_sched_entry_class cfg j"] by simp
      have "sl_due_us (sd_slots st ! j) \<le> due"
        using poller_pick_run(3) [OF run(2) i(1)] Cons.prems(2) by (auto simp: due_before_def)
      then have "card (rivals cfg i due ?st) < card (rivals cfg i due st)"
        using d(1,3) late False Cons.prems(1) run(1)
        by (intro rivals_fewer [of ?st st j d fin k]) (simp_all add: sched_fits_def rivals_def)
      moreover have "sl_due_us (sd_slots ?st ! i) = due" using d(1) False Cons.prems(2) run(1) by simp
      ultimately show ?thesis using Cons.IH [OF fits _ on] Cons.prems(4) run(1) runs by auto
    qed (use runs in \<open>auto simp del: sched_runs.simps\<close>)
  next
    case idle
    have "\<not> is_pass e"
    proof
      assume "is_pass e"
      then obtain p now fin ok where e: "e = S_Pass p now fin ok" by (cases e) auto
      then have "runnable st cfg p i" "sl_due_us (sd_slots st ! i) \<le> now" using Cons.prems(2,3) by simp_all
      then show False using poller_pick_due idle e by metis
    qed
    moreover from idle have same: "sd_slots ?st = sd_slots st" by (rule idle_step)
    moreover from same have "rivals cfg i due ?st = rivals cfg i due st" by (simp add: rivals_def)
    ultimately show ?thesis using Cons.IH [OF fits _ on] Cons.prems(2,4) idle by (simp add: runs_idle del: sched_runs.simps)
  qed
qed simp

text \<open>C20. A row that is due and stays allowed to run is run after at most as many passes of the
  poller as there are rows, whatever requests on groups and types come in between, when
  every run takes some time.\<close>

theorem due_row_runs:
  assumes "sched_fits cfg st" "i < entry_count cfg" "stays_due cfg i (sl_due_us (sd_slots st ! i)) es st"
    "entry_count cfg \<le> length (filter is_pass es)"
  shows "\<exists>s f. (i, s, f) \<in> set (sched_runs cfg es st)"
proof (rule runs_in_time [OF assms(1) refl assms(3)])
  let ?R = "rivals cfg i (sl_due_us (sd_slots st ! i)) st"
  have "?R \<subseteq> {..<entry_count cfg} - {i}" by (auto simp: rivals_def)
  then have "card ?R \<le> card ({..<entry_count cfg} - {i})" by (intro card_mono) simp_all
  with assms(2,4) show "card ?R < length (filter is_pass es)" by simp
qed


section \<open>Examples\<close>

text \<open>A row at the maximum rate and a row that asks the network, in one group, as a reset at the time 0
  leaves their slots.\<close>

definition example_rows :: ap_config where
  "example_rows =
     \<lparr>cf_groups = [\<lparr>gr_name = ''main'', gr_enabled_default = True, gr_period_ms = 0\<rparr>],
      cf_pids = [\<lparr>pd_type = AP_PID_STD, pd_group = 0, pd_period_ms = 0, pd_enabled = True, pd_j1939 = False, pd_j1939_request = False\<rparr>,
                 \<lparr>pd_type = AP_PID_STD, pd_group = 0, pd_period_ms = 0, pd_enabled = True, pd_j1939 = True, pd_j1939_request = True\<rparr>],
      cf_filters = []\<rparr>"

definition example_sched :: ap_sched where
  "example_sched =
     \<lparr>sd_slots = [\<lparr>sl_due_us = 0, sl_last_run_us = 0, sl_fail_streak = 0\<rparr>,
                  \<lparr>sl_due_us = 10000, sl_last_run_us = 0, sl_fail_streak = 0\<rparr>],
      sd_group_enabled = [True], sd_group_override = [-1], sd_type_enabled = (\<lambda>_. True)\<rparr>"

definition example_pauses :: ap_pauses where
  "example_pauses = \<lparr>ps_enabled = True, ps_voltage = False, ps_scan = False, ps_client = False, ps_diag = False,
     ps_voltage_all = False, ps_guard_ok = True\<rparr>"

lemma example_fits: "sched_fits example_rows example_sched"
  by (simp add: sched_fits_def example_sched_def entry_count_def example_rows_def)

lemma due_row_runs_witness:
  "\<exists>s f. (1, s, f) \<in> set (sched_runs example_rows
     [S_Pass example_pauses 20000 20001 True, S_Set (Some ''main'') True 5, S_Pass example_pauses 20002 20003 True] example_sched)"
proof -
  have "stays_due example_rows 1 (sl_due_us (sd_slots example_sched ! 1))
     [S_Pass example_pauses 20000 20001 True, S_Set (Some ''main'') True 5, S_Pass example_pauses 20002 20003 True] example_sched"
    by code_simp
  moreover have "1 < entry_count example_rows" "entry_count example_rows = 2" by (simp_all add: entry_count_def example_rows_def)
  ultimately show ?thesis by (intro due_row_runs example_fits) simp_all
qed

lemma row_runs_paced_witness:
  "sched_runs example_rows [S_Pass example_pauses 20000 20001 True, S_Pass example_pauses 20001 20002 True,
       S_Pass example_pauses 2000000 2000001 True, S_Pass example_pauses 2000001 2000002 True] example_sched =
     [(0, 20000, 20001)] @ (1, 20001, 20002) # [(0, 2000000, 2000001)] @ (1, 2000001, 2000002) # [] \<and>
   20002 + class_gap (ap_sched_entry_class example_rows 1) \<le> 2000001"
proof (intro conjI)
  let ?es = "[S_Pass example_pauses 20000 20001 True, S_Pass example_pauses 20001 20002 True,
       S_Pass example_pauses 2000000 2000001 True, S_Pass example_pauses 2000001 2000002 True]"
  show runs: "sched_runs example_rows ?es example_sched =
     [(0, 20000, 20001)] @ (1, 20001, 20002) # [(0, 2000000, 2000001)] @ (1, 2000001, 2000002) # []"
    by code_simp
  show "20002 + class_gap (ap_sched_entry_class example_rows 1) \<le> 2000001"
    by (rule row_runs_paced [OF _ example_fits runs]) simp
qed

end
