(* ===== verification/Event_Rules.thy ===== *)
theory Event_Rules
  imports Decimal "HOL-Library.Sublist"
begin

text \<open>
  \<^verbatim>\<open>components/event_manager/event_manager_eval.c\<close> and \<^verbatim>\<open>event_manager_template.c\<close>: the decision
  an automation rule takes on an event, and the texts with \<open>${name}\<close> that are filled in. The numbers
  of the rules are C doubles: a type \<open>'d\<close> with the operations the code uses, in the record
  \<open>em_dbl\<close>. The resolver of live values is a function of the name and of the room left; \<open>None\<close>
  is an error of the resolver or, as a whole, the pointer NULL. Times are 64-bit microseconds.
\<close>

text \<open>\<open>fd_text\<close> is \<open>printf\<close> with \<open>%g\<close>, \<open>fd_scan\<close> is \<open>strtod\<close>: the value and the rest, \<open>None\<close>
  when nothing is converted.\<close>

record 'd em_dbl =
  fd_eq :: "'d \<Rightarrow> 'd \<Rightarrow> bool"
  fd_gt :: "'d \<Rightarrow> 'd \<Rightarrow> bool"
  fd_ge :: "'d \<Rightarrow> 'd \<Rightarrow> bool"
  fd_lt :: "'d \<Rightarrow> 'd \<Rightarrow> bool"
  fd_le :: "'d \<Rightarrow> 'd \<Rightarrow> bool"
  fd_int :: "int \<Rightarrow> 'd"
  fd_text :: "'d \<Rightarrow> string"
  fd_scan :: "string \<Rightarrow> ('d \<times> string) option"

type_synonym resolver = "string \<Rightarrow> nat \<Rightarrow> string option"

section \<open>Events and rules\<close>

datatype 'd em_val = EM_VAL_F64 'd | EM_VAL_I64 int | EM_VAL_STR string | EM_VAL_BOOL bool

record 'd em_kv =
  kv_key :: "string option"
  kv_v :: "'d em_val"

record 'd em_event =
  ev_source :: string
  ev_name :: string
  ev_ts_us :: int
  ev_kv :: "'d em_kv list"

datatype em_op = EM_OP_EQ | EM_OP_NE | EM_OP_GT | EM_OP_GE | EM_OP_LT | EM_OP_LE | EM_OP_CHANGED | EM_OP_CONTAINS

record 'd em_operand =
  op_key :: string
  op_is_num :: bool
  op_num :: 'd
  op_str :: string

record 'd em_when =
  wn_key :: string
  wn_op :: em_op
  wn_val :: "'d em_operand"
  wn_value :: string

record 'd em_rule =
  ru_name :: string
  ru_enabled :: bool
  ru_on :: string
  ru_match :: "'d em_operand list"
  ru_when :: "'d em_when list"
  ru_action :: string
  ru_with_json :: string
  ru_cooldown_ms :: u32
  ru_undo :: bool

record 'd em_last =
  la_valid :: bool
  la_is_num :: bool
  la_num :: 'd
  la_str :: string

record 'd em_rule_state =
  rs_last_fire_us :: int
  rs_last :: "'d em_last list"
  rs_active :: bool
  rs_fired :: u32
  rs_last_fired_us :: int
  rs_last_ev :: "'d em_event"

datatype em_step = EM_STEP_NONE | EM_STEP_RUN | EM_STEP_UNDO

abbreviation (input) EM_KV_MAX :: nat where "EM_KV_MAX \<equiv> 6"
abbreviation (input) EM_STR_MAX :: nat where "EM_STR_MAX \<equiv> 48"

definition em_event_get :: "'d em_event \<Rightarrow> string \<Rightarrow> 'd em_kv option" where
  "em_event_get ev key = find (\<lambda>kv. kv_key kv = Some key) (take EM_KV_MAX (ev_kv ev))"

definition kv_num :: "'d em_dbl \<Rightarrow> 'd em_kv \<Rightarrow> 'd option" where
  "kv_num D kv =
     (case kv_v kv of
        EM_VAL_F64 x \<Rightarrow> Some x
      | EM_VAL_I64 i \<Rightarrow> Some (fd_int D i)
      | EM_VAL_BOOL b \<Rightarrow> Some (fd_int D (if b then 1 else 0))
      | EM_VAL_STR s \<Rightarrow> None)"

section \<open>Texts with names\<close>

text \<open>The decimal text of an integer.\<close>

definition int_text :: "int \<Rightarrow> string" where
  "int_text i = (if i < 0 then ''-'' else []) @ dec_text (nat \<bar>i\<bar>)"

text \<open>Every text is cut to the room left, with its NUL.\<close>

definition em_kv_render :: "'d em_dbl \<Rightarrow> 'd em_kv \<Rightarrow> nat \<Rightarrow> string" where
  "em_kv_render D kv len =
     take (len - 1)
       (case kv_v kv of
          EM_VAL_F64 x \<Rightarrow> fd_text D x
        | EM_VAL_I64 i \<Rightarrow> int_text i
        | EM_VAL_BOOL b \<Rightarrow> if b then ''true'' else ''false''
        | EM_VAL_STR s \<Rightarrow> s)"

definition em_resolve :: "'d em_dbl \<Rightarrow> string \<Rightarrow> 'd em_event option \<Rightarrow> resolver option \<Rightarrow> nat \<Rightarrow> string" where
  "em_resolve D name ev res len =
     (let beyond = (case res of
            None \<Rightarrow> take (len - 1) ''null''
          | Some f \<Rightarrow> (case f name len of None \<Rightarrow> take (len - 1) ''null'' | Some s \<Rightarrow> s))
      in case ev of
           None \<Rightarrow> beyond
         | Some e \<Rightarrow>
             (case em_event_get e name of
                Some kv \<Rightarrow> em_kv_render D kv len
              | None \<Rightarrow>
                  if name = ''ts'' then take (len - 1) (int_text (ev_ts_us e))
                  else if name = ''source'' then take (len - 1) (ev_source e)
                  else if name = ''name'' then take (len - 1) (ev_name e)
                  else beyond))"

text \<open>The name at a \<open>${\<close> and the text behind its brace, when it is closed and short enough.\<close>

definition tpl_name :: "string \<Rightarrow> (string \<times> string) option" where
  "tpl_name tpl =
     (if take 2 tpl = ''${'' \<and> CHR ''}'' \<in> set (drop 2 tpl) then
        let name = takeWhile (\<lambda>c. c \<noteq> CHR ''}'') (drop 2 tpl)
        in if length name < 64 then Some (name, drop (length name + 3) tpl) else None
      else None)"

lemma tpl_name_shorter: "tpl_name tpl = Some (name, rest) \<Longrightarrow> length rest < length tpl"
  by (cases tpl) (auto simp: tpl_name_def Let_def split: if_splits)

function tpl_loop :: "'d em_dbl \<Rightarrow> 'd em_event option \<Rightarrow> resolver option \<Rightarrow> nat \<Rightarrow> string \<Rightarrow> string \<Rightarrow> string option" where
  "tpl_loop D ev res len tpl out =
     (if tpl = [] then Some out
      else if length out \<ge> len - 1 then None
      else
        (case tpl_name tpl of
           Some (name, rest) \<Rightarrow> tpl_loop D ev res len rest (out @ em_resolve D name ev res (len - length out))
         | None \<Rightarrow> tpl_loop D ev res len (tl tpl) (out @ [hd tpl])))"
  by pat_completeness auto
termination
  by (relation "measure (\<lambda>(_, _, _, _, tpl, _). length tpl)") (auto dest: tpl_name_shorter)

declare tpl_loop.simps [simp del]

text \<open>\<open>None\<close> is a failure: no room in the buffer of \<open>len\<close> bytes, or a NULL argument.\<close>

definition em_template_render ::
    "'d em_dbl \<Rightarrow> string option \<Rightarrow> 'd em_event option \<Rightarrow> resolver option \<Rightarrow> nat \<Rightarrow> string option" where
  "em_template_render D tpl ev res len =
     (case tpl of None \<Rightarrow> None | Some t \<Rightarrow> if len = 0 then None else tpl_loop D ev res len t [])"

section \<open>Conditions\<close>

definition operand_equals_kv :: "'d em_dbl \<Rightarrow> 'd em_operand \<Rightarrow> 'd em_kv \<Rightarrow> bool" where
  "operand_equals_kv D o1 kv =
     (if op_is_num o1 then (case kv_num D kv of None \<Rightarrow> False | Some n \<Rightarrow> fd_eq D n (op_num o1))
      else (case kv_v kv of EM_VAL_STR s \<Rightarrow> s = op_str o1 | _ \<Rightarrow> False))"

definition em_rule_match :: "'d em_dbl \<Rightarrow> 'd em_rule \<Rightarrow> 'd em_event \<Rightarrow> bool" where
  "em_rule_match D r ev =
     list_all (\<lambda>m. case em_event_get ev (op_key m) of None \<Rightarrow> False | Some kv \<Rightarrow> operand_equals_kv D m kv) (ru_match r)"

definition kv_text :: "'d em_kv \<Rightarrow> string" where
  "kv_text kv = (case kv_v kv of EM_VAL_STR s \<Rightarrow> s | _ \<Rightarrow> [])"

text \<open>\<open>changed\<close> compares with the slot of the condition and fills it; the other operators leave the
  slots alone. \<open>None\<close> is a NULL state.\<close>

definition slot_changed :: "'d em_dbl \<Rightarrow> 'd em_kv \<Rightarrow> 'd em_last \<Rightarrow> bool" where
  "slot_changed D kv l =
     (if \<not> la_valid l then True
      else if (kv_num D kv \<noteq> None) \<noteq> la_is_num l then True
      else (case kv_num D kv of Some n \<Rightarrow> \<not> fd_eq D n (la_num l) | None \<Rightarrow> kv_text kv \<noteq> la_str l))"

definition slot_store :: "'d em_dbl \<Rightarrow> 'd em_kv \<Rightarrow> 'd em_last \<Rightarrow> 'd em_last" where
  "slot_store D kv l =
     (let l1 = l\<lparr>la_valid := True, la_is_num := (kv_num D kv \<noteq> None),
                 la_num := (case kv_num D kv of Some n \<Rightarrow> n | None \<Rightarrow> fd_int D 0)\<rparr>
      in if kv_num D kv = None then l1\<lparr>la_str := take (EM_STR_MAX - 1) (kv_text kv)\<rparr> else l1)"

definition when_holds ::
    "'d em_dbl \<Rightarrow> 'd em_when \<Rightarrow> 'd em_kv \<Rightarrow> 'd em_last list option \<Rightarrow> nat \<Rightarrow> bool \<times> 'd em_last list option" where
  "when_holds D c kv slots slot =
     (let num = (\<lambda>f. case kv_num D kv of None \<Rightarrow> False | Some n \<Rightarrow> f D n (op_num (wn_val c)))
      in case wn_op c of
           EM_OP_EQ \<Rightarrow> (operand_equals_kv D (wn_val c) kv, slots)
         | EM_OP_NE \<Rightarrow> (\<not> operand_equals_kv D (wn_val c) kv, slots)
         | EM_OP_GT \<Rightarrow> (num fd_gt, slots)
         | EM_OP_GE \<Rightarrow> (num fd_ge, slots)
         | EM_OP_LT \<Rightarrow> (num fd_lt, slots)
         | EM_OP_LE \<Rightarrow> (num fd_le, slots)
         | EM_OP_CONTAINS \<Rightarrow>
             ((case kv_v kv of EM_VAL_STR s \<Rightarrow> \<not> op_is_num (wn_val c) \<and> sublist (op_str (wn_val c)) s | _ \<Rightarrow> False), slots)
         | EM_OP_CHANGED \<Rightarrow>
             (case slots of
                None \<Rightarrow> (False, None)
              | Some ls \<Rightarrow> (slot_changed D kv (ls ! slot), Some (ls[slot := slot_store D kv (ls ! slot)]))))"

definition kv_from_text :: "'d em_dbl \<Rightarrow> string \<Rightarrow> 'd em_kv option" where
  "kv_from_text D txt =
     (if txt = [] \<or> txt = ''null'' then None
      else if txt = ''true'' \<or> txt = ''false'' then Some \<lparr>kv_key = Some ''value'', kv_v = EM_VAL_BOOL (hd txt = CHR ''t'')\<rparr>
      else
        (case fd_scan D txt of
           Some (n, []) \<Rightarrow> Some \<lparr>kv_key = Some ''value'', kv_v = EM_VAL_F64 n\<rparr>
         | _ \<Rightarrow> Some \<lparr>kv_key = Some ''value'', kv_v = EM_VAL_STR (take (EM_STR_MAX - 1) txt)\<rparr>))"

definition cond_kv :: "'d em_dbl \<Rightarrow> 'd em_when \<Rightarrow> 'd em_event \<Rightarrow> resolver option \<Rightarrow> 'd em_kv option" where
  "cond_kv D c ev res =
     (if wn_value c = [] then em_event_get ev (wn_key c)
      else (case em_template_render D (Some (wn_value c)) (Some ev) res EM_STR_MAX of
              None \<Rightarrow> None | Some txt \<Rightarrow> kv_from_text D txt))"

text \<open>Every condition is looked at, so that the slots of \<open>changed\<close> are filled.\<close>

fun when_loop ::
    "'d em_dbl \<Rightarrow> 'd em_event \<Rightarrow> resolver option \<Rightarrow> 'd em_when list \<Rightarrow> nat \<Rightarrow> bool \<Rightarrow> 'd em_last list option \<Rightarrow> bool \<times> 'd em_last list option" where
  "when_loop D ev res [] i every slots = (every, slots)"
| "when_loop D ev res (c # cs) i every slots =
     (case cond_kv D c ev res of
        None \<Rightarrow> when_loop D ev res cs (i + 1) False slots
      | Some kv \<Rightarrow>
          (case when_holds D c kv slots i of
             (holds, slots1) \<Rightarrow> when_loop D ev res cs (i + 1) (every \<and> holds) slots1))"

definition em_rule_when_ex ::
    "'d em_dbl \<Rightarrow> 'd em_rule \<Rightarrow> 'd em_event \<Rightarrow> 'd em_rule_state \<Rightarrow> resolver option \<Rightarrow> bool \<times> 'd em_rule_state" where
  "em_rule_when_ex D r ev st res =
     (case when_loop D ev res (ru_when r) 0 True (Some (rs_last st)) of
        (every, slots) \<Rightarrow> (every, case slots of None \<Rightarrow> st | Some ls \<Rightarrow> st\<lparr>rs_last := ls\<rparr>))"

definition em_rule_when :: "'d em_dbl \<Rightarrow> 'd em_rule \<Rightarrow> 'd em_event \<Rightarrow> 'd em_rule_state \<Rightarrow> bool \<times> 'd em_rule_state" where
  "em_rule_when D r ev st = em_rule_when_ex D r ev st None"

definition em_rule_has_live :: "'d em_rule \<Rightarrow> bool" where
  "em_rule_has_live r = list_ex (\<lambda>c. wn_value c \<noteq> []) (ru_when r)"

definition em_rule_live_holds :: "'d em_dbl \<Rightarrow> 'd em_rule \<Rightarrow> 'd em_rule_state \<Rightarrow> resolver option \<Rightarrow> bool" where
  "em_rule_live_holds D r st res =
     list_all (\<lambda>c. if wn_value c = [] \<or> wn_op c = EM_OP_CHANGED then True
        else (case cond_kv D c (rs_last_ev st) res of None \<Rightarrow> False | Some kv \<Rightarrow> fst (when_holds D c kv None 0))) (ru_when r)"

definition em_rule_cooldown_ok :: "'d em_rule \<Rightarrow> 'd em_rule_state \<Rightarrow> int \<Rightarrow> bool \<times> 'd em_rule_state" where
  "em_rule_cooldown_ok r st now =
     (if ru_cooldown_ms r > 0 \<and> rs_last_fire_us st \<noteq> 0 \<and> now - rs_last_fire_us st < uint (ru_cooldown_ms r) * 1000
      then (False, st)
      else (True, st\<lparr>rs_last_fire_us := now\<rparr>))"

section \<open>Decisions\<close>

definition em_rule_step :: "'d em_rule \<Rightarrow> 'd em_rule_state \<Rightarrow> bool \<Rightarrow> 'd em_event \<Rightarrow> em_step \<times> 'd em_rule_state" where
  "em_rule_step r st holds ev =
     (if \<not> ru_undo r then (if holds then EM_STEP_RUN else EM_STEP_NONE, st)
      else if holds then (if rs_active st then EM_STEP_NONE else EM_STEP_RUN, st\<lparr>rs_last_ev := ev\<rparr>)
      else if rs_active st then (EM_STEP_UNDO, st\<lparr>rs_active := False\<rparr>)
      else (EM_STEP_NONE, st))"

definition em_rule_recheck :: "'d em_dbl \<Rightarrow> 'd em_rule \<Rightarrow> 'd em_rule_state \<Rightarrow> resolver option \<Rightarrow> bool \<times> 'd em_rule_state" where
  "em_rule_recheck D r st res =
     (if \<not> ru_enabled r \<or> \<not> ru_undo r \<or> \<not> rs_active st \<or> \<not> em_rule_has_live r \<or> em_rule_live_holds D r st res
      then (False, st)
      else (True, st\<lparr>rs_active := False\<rparr>))"

text \<open>The step, the state and whether the cooldown held a run back.\<close>

definition em_rule_decide ::
    "'d em_dbl \<Rightarrow> 'd em_rule \<Rightarrow> 'd em_rule_state \<Rightarrow> 'd em_event \<Rightarrow> string \<Rightarrow> int \<Rightarrow> resolver option
       \<Rightarrow> em_step \<times> 'd em_rule_state \<times> bool" where
  "em_rule_decide D r st ev selector now res =
     (if \<not> ru_enabled r \<or> ru_on r \<noteq> selector \<or> \<not> em_rule_match D r ev then (EM_STEP_NONE, st, False)
      else
        (case em_rule_when_ex D r ev st res of
           (holds, st1) \<Rightarrow>
             (case em_rule_step r st1 holds ev of
                (step, st2) \<Rightarrow>
                  if step = EM_STEP_RUN then
                    (case em_rule_cooldown_ok r st2 now of
                       (ok, st3) \<Rightarrow> if ok then (EM_STEP_RUN, st3, False) else (EM_STEP_NONE, st3, True))
                  else (step, st2, False))))"

definition em_rule_applied :: "'d em_rule \<Rightarrow> 'd em_rule_state \<Rightarrow> 'd em_rule_state" where
  "em_rule_applied r st = st\<lparr>rs_active := ru_undo r\<rparr>"

end
