(* ===== verification/Event_Engine.thy ===== *)
theory Event_Engine
  imports Event_Rules
begin

text \<open>
  \<^verbatim>\<open>components/event_manager/event_manager.c\<close>: the queue of events, the dispatcher that decides
  every rule and runs its action, the check of the rules in effect between events, and the two
  workers that run the slow actions. The tasks run side by side: taking an event, deciding a rule
  and calling its action, the check, a worker's taking of a job, its run and the record of its
  result are steps of their own, in any order. Publishing is one step, so the refusal of an event
  that loses its place to another task in the middle of it does not happen here.

  What lies outside is the environment: a world \<open>'w\<close> with a clock, the resolver of live values,
  the table of actions and the JSON parser; an action reads the text of its parameters, whether it
  is undone and the event, and changes the world. The texts in the parameters are filled in by
  \<open>em_template_render\<close> inside the JSON tree, which is the action's here. A configuration is
  applied once, at boot.
\<close>

abbreviation (input) EM_QUEUE_LEN :: nat where "EM_QUEUE_LEN \<equiv> 32"
abbreviation (input) EM_WORKERS :: nat where "EM_WORKERS \<equiv> 2"
abbreviation (input) EM_JOB_QUEUE :: nat where "EM_JOB_QUEUE \<equiv> 8"
abbreviation (input) EM_RULES_MAX :: nat where "EM_RULES_MAX \<equiv> 16"
abbreviation (input) EM_RECHECK_US :: int where "EM_RECHECK_US \<equiv> 1000000"

record ('d, 'w) em_action =
  ac_blocking :: bool
  ac_run :: "string \<Rightarrow> bool \<Rightarrow> 'd em_event \<Rightarrow> 'w \<Rightarrow> 'w \<times> bool"

record ('d, 'w) em_env =
  nv_dbl :: "'d em_dbl"
  nv_rules :: "'d em_rule list"
  nv_find :: "string \<Rightarrow> ('d, 'w) em_action option"
  nv_parses :: "string \<Rightarrow> bool"
  nv_resolve :: "'w \<Rightarrow> resolver option"
  nv_time :: "'w \<Rightarrow> int"
  nv_enabled :: bool

record ('d, 'w) em_job =
  jb_action :: "('d, 'w) em_action"
  jb_with :: string
  jb_undo :: bool
  jb_trigger :: "'d em_event"
  jb_rule :: nat

record em_stats =
  st_published :: u32
  st_dropped :: u32
  st_fired :: u32
  st_action_errors :: u32
  st_suppressed :: u32
  st_blocking_dropped :: u32

text \<open>A worker waits, has taken a job, or has run it and has yet to record the result.\<close>

datatype ('d, 'w) em_worker = W_Idle | W_Job "('d, 'w) em_job" | W_Done "('d, 'w) em_job" bool

text \<open>Where the dispatcher is: it waits for an event, goes through the rules with one (its selector, the time
  of the decision, the rules left), is before the check or goes through the rules in effect.\<close>

datatype 'd em_turn = T_Wait | T_Rules "'d em_event" string int "nat list" | T_Check | T_Recheck "nat list"

record ('d, 'w) em_engine =
  en_q :: "'d em_event list"
  en_jobq :: "('d, 'w) em_job list"
  en_workers :: "('d, 'w) em_worker list"
  en_turn :: "'d em_turn"
  en_states :: "'d em_rule_state list"
  en_stats :: em_stats
  en_stopped :: bool
  en_last_check_us :: int

text \<open>What happens, for the statements: the dispatcher asks for a rule's action (the rule, whether to undo it, whether
  it was run with success or was queued, the time of the decision), runs one itself, queues a job, pushes out
  the oldest; a worker takes a job, and runs it.\<close>

datatype em_log =
    Lg_Ask nat bool bool int
  | Lg_Own nat bool bool
  | Lg_Queued nat bool
  | Lg_Dropped nat bool
  | Lg_Taken nat nat bool
  | Lg_Worked nat nat bool bool

datatype em_err = EM_OK | EM_INVALID_ARG | EM_INVALID_STATE | EM_NO_MEM

section \<open>Publishing\<close>

text \<open>A full queue loses its oldest event.\<close>

definition event_manager_publish ::
    "('d, 'w) em_env \<Rightarrow> 'd em_event option \<Rightarrow> ('d, 'w) em_engine \<times> 'w \<Rightarrow> ('d, 'w) em_engine \<times> em_err" where
  "event_manager_publish E ev = (\<lambda>(e, w).
     case ev of
       None \<Rightarrow> (e, EM_INVALID_ARG)
     | Some v \<Rightarrow>
         if \<not> nv_enabled E \<or> en_stopped e then (e, EM_INVALID_STATE)
         else
           let copy = (if ev_ts_us v = 0 then v\<lparr>ev_ts_us := nv_time E w\<rparr> else v);
               bump = (\<lambda>d. e\<lparr>en_stats := (en_stats e)\<lparr>st_published := st_published (en_stats e) + 1, st_dropped := d\<rparr>\<rparr>)
           in if length (en_q e) < EM_QUEUE_LEN
              then ((bump (st_dropped (en_stats e)))\<lparr>en_q := en_q e @ [copy]\<rparr>, EM_OK)
              else ((bump (st_dropped (en_stats e) + 1))\<lparr>en_q := tl (en_q e) @ [copy]\<rparr>, EM_OK))"

section \<open>Running actions\<close>

definition rule_fired :: "nat \<Rightarrow> int \<Rightarrow> ('d, 'w) em_engine \<Rightarrow> ('d, 'w) em_engine" where
  "rule_fired r now e =
     (if r \<ge> EM_RULES_MAX then e
      else e\<lparr>en_states := (en_states e)[r := (en_states e ! r)\<lparr>rs_fired := rs_fired (en_states e ! r) + 1, rs_last_fired_us := now\<rparr>]\<rparr>)"

text \<open>Worker \<open>i\<close> takes the oldest job, when it is free.\<close>

definition take_job :: "nat \<Rightarrow> ('d, 'w) em_engine \<Rightarrow> ('d, 'w) em_engine \<times> em_log list" where
  "take_job i e =
     (case en_jobq e of
        [] \<Rightarrow> (e, [])
      | j # js \<Rightarrow>
          if i < length (en_workers e) then
            (case en_workers e ! i of
               W_Idle \<Rightarrow> (e\<lparr>en_jobq := js, en_workers := (en_workers e)[i := W_Job j]\<rparr>, [Lg_Taken i (jb_rule j) (jb_undo j)])
             | _ \<Rightarrow> (e, []))
          else (e, []))"

fun take_jobs :: "nat list \<Rightarrow> ('d, 'w) em_engine \<Rightarrow> ('d, 'w) em_engine \<times> em_log list" where
  "take_jobs [] e = (e, [])"
| "take_jobs (i # is) e = (case take_job i e of (e1, lg1) \<Rightarrow> (case take_jobs is e1 of (e2, lg2) \<Rightarrow> (e2, lg1 @ lg2)))"

text \<open>A full queue loses its oldest job; between the failed send and that the workers \<open>between\<close> may take some.\<close>

definition enqueue_job ::
    "nat list \<Rightarrow> ('d, 'w) em_job \<Rightarrow> ('d, 'w) em_engine \<Rightarrow> ('d, 'w) em_engine \<times> bool \<times> em_log list" where
  "enqueue_job between job e =
     (if length (en_jobq e) < EM_JOB_QUEUE then (e\<lparr>en_jobq := en_jobq e @ [job]\<rparr>, True, [Lg_Queued (jb_rule job) (jb_undo job)])
      else
        let (e1, lg1) = take_jobs between e;
            (e2, lg2) =
              (case en_jobq e1 of
                 [] \<Rightarrow> (e1, [])
               | victim # js \<Rightarrow>
                   (e1\<lparr>en_jobq := js, en_stats := (en_stats e1)\<lparr>st_blocking_dropped := st_blocking_dropped (en_stats e1) + 1\<rparr>\<rparr>,
                    [Lg_Dropped (jb_rule victim) (jb_undo victim)]))
        in if length (en_jobq e2) < EM_JOB_QUEUE
           then (e2\<lparr>en_jobq := en_jobq e2 @ [job]\<rparr>, True, lg1 @ lg2 @ [Lg_Queued (jb_rule job) (jb_undo job)])
           else (e2, False, lg1 @ lg2))"

definition action_error :: "('d, 'w) em_engine \<Rightarrow> ('d, 'w) em_engine" where
  "action_error e = e\<lparr>en_stats := (en_stats e)\<lparr>st_action_errors := st_action_errors (en_stats e) + 1\<rparr>\<rparr>"

definition action_fired :: "nat \<Rightarrow> int \<Rightarrow> ('d, 'w) em_engine \<Rightarrow> ('d, 'w) em_engine" where
  "action_fired r now e = rule_fired r now (e\<lparr>en_stats := (en_stats e)\<lparr>st_fired := st_fired (en_stats e) + 1\<rparr>\<rparr>)"

definition run_action ::
    "('d, 'w) em_env \<Rightarrow> nat list \<Rightarrow> nat \<Rightarrow> 'd em_event \<Rightarrow> bool \<Rightarrow> ('d, 'w) em_engine \<times> 'w
       \<Rightarrow> (('d, 'w) em_engine \<times> 'w) \<times> bool \<times> em_log list" where
  "run_action E between r ev undo = (\<lambda>(e, w).
     let rule = nv_rules E ! r in
     case nv_find E (ru_action rule) of
       None \<Rightarrow> ((action_error e, w), False, [])
     | Some a \<Rightarrow>
         if ru_with_json rule \<noteq> [] \<and> \<not> nv_parses E (ru_with_json rule) then ((action_error e, w), False, [])
         else if ac_blocking a then
           (case enqueue_job between \<lparr>jb_action = a, jb_with = ru_with_json rule, jb_undo = undo, jb_trigger = ev, jb_rule = r\<rparr> e of
              (e1, ok, lg) \<Rightarrow>
                ((if ok then e1 else e1\<lparr>en_stats := (en_stats e1)\<lparr>st_blocking_dropped := st_blocking_dropped (en_stats e1) + 1\<rparr>\<rparr>, w),
                 ok, lg))
         else
           (case ac_run a (ru_with_json rule) undo ev w of
              (w1, ok) \<Rightarrow>
                ((if ok then action_fired r (nv_time E w1) e else action_error e, w1), ok, [Lg_Own r undo ok])))"

text \<open>The next step of worker \<open>i\<close>: it takes a job, runs it, or records the result.\<close>

definition worker_task ::
    "('d, 'w) em_env \<Rightarrow> nat \<Rightarrow> ('d, 'w) em_engine \<times> 'w \<Rightarrow> (('d, 'w) em_engine \<times> 'w) \<times> em_log list" where
  "worker_task E i = (\<lambda>(e, w).
     if i < length (en_workers e) then
       (case en_workers e ! i of
          W_Idle \<Rightarrow> (case take_job i e of (e1, lg) \<Rightarrow> ((e1, w), lg))
        | W_Job j \<Rightarrow>
            (case ac_run (jb_action j) (jb_with j) (jb_undo j) (jb_trigger j) w of
               (w1, ok) \<Rightarrow> ((e\<lparr>en_workers := (en_workers e)[i := W_Done j ok]\<rparr>, w1), [Lg_Worked i (jb_rule j) (jb_undo j) ok]))
        | W_Done j ok \<Rightarrow>
            (let e1 = e\<lparr>en_workers := (en_workers e)[i := W_Idle]\<rparr>
             in ((if ok then action_fired (jb_rule j) (nv_time E w) e1 else action_error e1, w), [])))
     else ((e, w), []))"

section \<open>The dispatcher\<close>

definition set_state :: "nat \<Rightarrow> 'd em_rule_state \<Rightarrow> ('d, 'w) em_engine \<Rightarrow> ('d, 'w) em_engine" where
  "set_state r st e = e\<lparr>en_states := (en_states e)[r := st]\<rparr>"

definition dispatch_rule ::
    "('d, 'w) em_env \<Rightarrow> nat list \<Rightarrow> 'd em_event \<Rightarrow> string \<Rightarrow> int \<Rightarrow> nat \<Rightarrow> ('d, 'w) em_engine \<times> 'w
       \<Rightarrow> (('d, 'w) em_engine \<times> 'w) \<times> em_log list" where
  "dispatch_rule E between ev selector now r = (\<lambda>(e, w).
     let rule = nv_rules E ! r in
     case em_rule_decide (nv_dbl E) rule (en_states e ! r) ev selector now (nv_resolve E w) of
       (step, st, suppressed) \<Rightarrow>
         let e1 = set_state r st e;
             (s2, log) =
               (case step of
                  EM_STEP_RUN \<Rightarrow>
                    (case run_action E between r ev False (e1, w) of
                       ((e2, w2), ok, lg) \<Rightarrow>
                         ((if ok then set_state r (em_rule_applied rule (en_states e2 ! r)) e2 else e2, w2), lg @ [Lg_Ask r False ok now]))
                | EM_STEP_UNDO \<Rightarrow> (case run_action E between r ev True (e1, w) of (s2, ok, lg) \<Rightarrow> (s2, lg @ [Lg_Ask r True ok now]))
                | EM_STEP_NONE \<Rightarrow> ((e1, w), []))
         in (if suppressed
             then ((fst s2)\<lparr>en_stats := (en_stats (fst s2))\<lparr>st_suppressed := st_suppressed (en_stats (fst s2)) + 1\<rparr>\<rparr>, snd s2)
             else s2, log))"

definition dispatch_one :: "('d, 'w) em_env \<Rightarrow> 'd em_event \<Rightarrow> int \<Rightarrow> 'd em_turn" where
  "dispatch_one E ev now = T_Rules ev (take 32 (ev_source ev @ ''.'' @ ev_name ev)) now [0..<length (nv_rules E)]"

text \<open>A rule in effect whose live conditions no longer hold is undone.\<close>

definition recheck_active ::
    "('d, 'w) em_env \<Rightarrow> nat list \<Rightarrow> nat \<Rightarrow> ('d, 'w) em_engine \<times> 'w \<Rightarrow> (('d, 'w) em_engine \<times> 'w) \<times> em_log list" where
  "recheck_active E between r = (\<lambda>(e, w).
     case em_rule_recheck (nv_dbl E) (nv_rules E ! r) (en_states e ! r) (nv_resolve E w) of
       (due, st) \<Rightarrow>
         if due then
           (case run_action E between r (rs_last_ev st) True (set_state r st e, w) of
              (s1, ok, lg) \<Rightarrow> (s1, lg @ [Lg_Ask r True ok (nv_time E w)]))
         else ((set_state r st e, w), []))"

text \<open>The next step of the dispatcher: an event if there is one, then rule by rule, then the check when it is due.\<close>

definition dispatcher_task ::
    "('d, 'w) em_env \<Rightarrow> nat list \<Rightarrow> ('d, 'w) em_engine \<times> 'w \<Rightarrow> (('d, 'w) em_engine \<times> 'w) \<times> em_log list" where
  "dispatcher_task E between = (\<lambda>(e, w).
     case en_turn e of
       T_Wait \<Rightarrow>
         (case en_q e of
            [] \<Rightarrow> ((e\<lparr>en_turn := T_Check\<rparr>, w), [])
          | ev # q \<Rightarrow> ((e\<lparr>en_q := q, en_turn := dispatch_one E ev (nv_time E w)\<rparr>, w), []))
     | T_Rules ev selector now [] \<Rightarrow> ((e\<lparr>en_turn := T_Check\<rparr>, w), [])
     | T_Rules ev selector now (r # rs) \<Rightarrow>
         dispatch_rule E between ev selector now r (e\<lparr>en_turn := T_Rules ev selector now rs\<rparr>, w)
     | T_Check \<Rightarrow>
         let now = nv_time E w
         in if now - en_last_check_us e \<ge> EM_RECHECK_US
            then ((e\<lparr>en_last_check_us := now, en_turn := T_Recheck [0..<length (nv_rules E)]\<rparr>, w), [])
            else ((e\<lparr>en_turn := T_Wait\<rparr>, w), [])
     | T_Recheck [] \<Rightarrow> ((e\<lparr>en_turn := T_Wait\<rparr>, w), [])
     | T_Recheck (r # rs) \<Rightarrow> recheck_active E between r (e\<lparr>en_turn := T_Recheck rs\<rparr>, w))"

definition event_manager_stop :: "('d, 'w) em_engine \<Rightarrow> ('d, 'w) em_engine" where
  "event_manager_stop e = e\<lparr>en_stopped := True\<rparr>"

section \<open>What a rule asks of its action\<close>

text \<open>The abstract rule: whether its action is in effect and when it last fired. A run is asked for
  when the rule is not in effect (or is no while-rule) and its cooldown has passed, an undo only
  when it is in effect.\<close>

fun call_allowed :: "'d em_rule \<Rightarrow> bool \<times> int \<Rightarrow> bool \<times> bool \<times> int \<Rightarrow> bool" where
  "call_allowed rule (active, fire) (undo, ok, now) \<longleftrightarrow>
     (if undo then ru_undo rule \<and> active
      else (ru_undo rule \<longrightarrow> \<not> active) \<and> (ru_cooldown_ms rule = 0 \<or> fire = 0 \<or> uint (ru_cooldown_ms rule) * 1000 \<le> now - fire))"

fun call_effect :: "'d em_rule \<Rightarrow> bool \<times> bool \<times> int \<Rightarrow> bool \<times> int \<Rightarrow> bool \<times> int" where
  "call_effect rule (undo, ok, now) (active, fire) =
     (if undo then (False, fire) else (if ok then ru_undo rule else active, now))"

fun accepts :: "'d em_rule \<Rightarrow> bool \<times> int \<Rightarrow> (bool \<times> bool \<times> int) list \<Rightarrow> bool" where
  "accepts rule a [] \<longleftrightarrow> True"
| "accepts rule a (c # cs) \<longleftrightarrow> call_allowed rule a c \<and> accepts rule (call_effect rule c a) cs"

fun log_call :: "nat \<Rightarrow> em_log \<Rightarrow> (bool \<times> bool \<times> int) list" where
  "log_call r (Lg_Ask r' undo ok now) = (if r' = r then [(undo, ok, now)] else [])"
| "log_call r l = []"

definition calls_of :: "nat \<Rightarrow> em_log list \<Rightarrow> (bool \<times> bool \<times> int) list" where
  "calls_of r log = concat (map (log_call r) log)"

lemma calls_of_simps [simp]:
  "calls_of r [] = []"
  "calls_of r (l # log) = log_call r l @ calls_of r log"
  "calls_of r (xs @ ys) = calls_of r xs @ calls_of r ys"
  by (simp_all add: calls_of_def)

lemma accepts_append:
  "accepts rule a (xs @ ys) \<longleftrightarrow> accepts rule a xs \<and> accepts rule (fold (call_effect rule) xs a) ys"
  by (induction xs arbitrary: a) auto

text \<open>What the abstract rule sees of a state; operations on actions leave it alone.\<close>

definition flags :: "('d, 'w) em_engine \<Rightarrow> (bool \<times> int) list" where
  "flags e = map (\<lambda>s. (rs_active s, rs_last_fire_us s)) (en_states e)"

lemma length_flags [simp]: "length (flags e) = length (en_states e)"
  by (simp add: flags_def)

lemma flags_nth: "r < length (en_states e) \<Longrightarrow> flags e ! r = (rs_active (en_states e ! r), rs_last_fire_us (en_states e ! r))"
  by (simp add: flags_def)

lemma flags_set: "flags (set_state r st e) = (flags e)[r := (rs_active st, rs_last_fire_us st)]"
  by (simp add: flags_def set_state_def map_update)

lemma flags_rule_fired: "flags (rule_fired r now e) = flags e"
  by (cases "r < length (en_states e)") (simp_all add: rule_fired_def flags_def map_update list_update_beyond list_update_same_conv)

lemma flags_fields [simp]:
  "flags (e\<lparr>en_q := q\<rparr>) = flags e" "flags (e\<lparr>en_jobq := j\<rparr>) = flags e" "flags (e\<lparr>en_stats := s\<rparr>) = flags e"
  "flags (e\<lparr>en_stopped := b\<rparr>) = flags e" "flags (e\<lparr>en_last_check_us := t\<rparr>) = flags e"
  "flags (e\<lparr>en_workers := ws\<rparr>) = flags e" "flags (e\<lparr>en_turn := tn\<rparr>) = flags e"
  by (simp_all add: flags_def)

text \<open>A log without asks.\<close>

definition quiet :: "em_log list \<Rightarrow> bool" where
  "quiet log \<longleftrightarrow> (\<forall>r. calls_of r log = [])"

lemma quiet_simps [simp]: "quiet []" "quiet (xs @ ys) \<longleftrightarrow> quiet xs \<and> quiet ys"
  "quiet (l # log) \<longleftrightarrow> (\<forall>r. log_call r l = []) \<and> quiet log"
  by (auto simp: quiet_def)

lemma flags_action:
  "flags (action_error e) = flags e" "flags (action_fired r now e) = flags e"
  by (simp_all add: action_error_def action_fired_def flags_rule_fired)

lemma flags_take: "take_job i e = (e1, lg) \<Longrightarrow> flags e1 = flags e \<and> quiet lg"
  by (auto simp: take_job_def split: list.splits em_worker.splits if_splits)

lemma flags_takes: "take_jobs is e = (e1, lg) \<Longrightarrow> flags e1 = flags e \<and> quiet lg"
  by (induction "is" arbitrary: e e1 lg) (auto split: prod.splits dest!: flags_take)

lemma flags_enqueue: "enqueue_job between j e = (e1, ok, lg) \<Longrightarrow> flags e1 = flags e \<and> quiet lg"
  by (auto simp: enqueue_job_def Let_def split: if_splits prod.splits list.splits dest: flags_takes)

lemma flags_run: "run_action E between r ev undo (e, w) = ((e1, w1), ok, lg) \<Longrightarrow> flags e1 = flags e \<and> quiet lg"
  by (auto simp: run_action_def Let_def flags_action split: option.splits if_splits prod.splits dest!: flags_enqueue)

lemma when_ex_flags: "em_rule_when_ex D r ev st res = (h, st') \<Longrightarrow> rs_active st' = rs_active st \<and> rs_last_fire_us st' = rs_last_fire_us st"
  by (auto simp: em_rule_when_ex_def split: prod.splits option.splits)

text \<open>A decision is a call the abstract rule allows, or none.\<close>

lemma decide_flags:
  assumes "em_rule_decide D r st ev sel now res = (step, st', held)"
  shows "case step of
      EM_STEP_NONE \<Rightarrow> (rs_active st', rs_last_fire_us st') = (rs_active st, rs_last_fire_us st)
    | EM_STEP_RUN \<Rightarrow> call_allowed r (rs_active st, rs_last_fire_us st) (False, ok, now) \<and>
        rs_active st' = rs_active st \<and> rs_last_fire_us st' = now
    | EM_STEP_UNDO \<Rightarrow> call_allowed r (rs_active st, rs_last_fire_us st) (True, ok, now) \<and>
        \<not> rs_active st' \<and> rs_last_fire_us st' = rs_last_fire_us st"
  using assms
  by (auto simp: em_rule_decide_def em_rule_step_def em_rule_cooldown_ok_def word_gt_0 not_less
      dest!: when_ex_flags split: if_splits prod.splits)

lemma recheck_flags:
  "em_rule_recheck D r st res = (due, st') \<Longrightarrow>
     (if due then call_allowed r (rs_active st, rs_last_fire_us st) (True, ok, now) \<and> \<not> rs_active st' \<and> rs_last_fire_us st' = rs_last_fire_us st
      else st' = st)"
  by (auto simp: em_rule_recheck_def split: if_splits)

definition follows :: "('d, 'w) em_env \<Rightarrow> (bool \<times> int) list \<Rightarrow> em_log list \<Rightarrow> (bool \<times> int) list \<Rightarrow> bool" where
  "follows E a log a' \<longleftrightarrow>
     length a' = length a \<and> (\<forall>r < length (nv_rules E). accepts (nv_rules E ! r) (a ! r) (calls_of r log) \<and>
       a' ! r = fold (call_effect (nv_rules E ! r)) (calls_of r log) (a ! r))"

lemma follows_quiet: "quiet log \<Longrightarrow> follows E a log a"
  by (simp add: follows_def quiet_def)

lemma follows_trans: "follows E a xs b \<Longrightarrow> follows E b ys c \<Longrightarrow> follows E a (xs @ ys) c"
  by (simp add: follows_def accepts_append)

lemma follows_length: "follows E a log a' \<Longrightarrow> length a' = length a"
  by (simp add: follows_def)

lemma follows_one:
  assumes "r < length a" "call_allowed (nv_rules E ! r) (a ! r) (undo, ok, now)" "x = call_effect (nv_rules E ! r) (undo, ok, now) (a ! r)"
    and "quiet lg"
  shows "follows E a (lg @ [Lg_Ask r undo ok now]) (a[r := x])"
  using assms by (auto simp: follows_def quiet_def nth_list_update)

lemma follows_dispatch:
  assumes "dispatch_rule E between ev sel now r (e, w) = ((e', w'), log)" "r < length (en_states e)"
  shows "follows E (flags e) log (flags e')"
proof -
  let ?rule = "nv_rules E ! r" and ?st = "en_states e ! r"
  obtain step st held where dec: "em_rule_decide (nv_dbl E) ?rule ?st ev sel now (nv_resolve E w) = (step, st, held)"
    by (metis prod_cases3)
  have f: "flags e ! r = (rs_active ?st, rs_last_fire_us ?st)" using assms(2) by (rule flags_nth)
  show ?thesis
  proof (cases step)
    case EM_STEP_NONE
    with assms dec have "log = []" "flags e' = (flags e)[r := (rs_active st, rs_last_fire_us st)]"
      by (auto simp: dispatch_rule_def Let_def flags_set split: if_splits)
    moreover have "(rs_active st, rs_last_fire_us st) = flags e ! r"
      using decide_flags [OF dec] EM_STEP_NONE f by simp
    ultimately show ?thesis by (simp add: follows_quiet)
  next
    case EM_STEP_RUN
    obtain e2 w2 ok lg where run: "run_action E between r ev False (set_state r st e, w) = ((e2, w2), ok, lg)" by (metis surj_pair)
    note d = decide_flags [OF dec, where ok = ok]
    have f2: "flags e2 = (flags e)[r := (rs_active ?st, now)]"
      using flags_run [OF run] d EM_STEP_RUN by (simp add: flags_set)
    then have len: "r < length (en_states e2)" using assms(2) by (metis length_flags length_list_update)
    have st2: "(rs_active (en_states e2 ! r), rs_last_fire_us (en_states e2 ! r)) = (rs_active ?st, now)"
      using flags_nth [OF len] f2 assms(2) by simp
    have log: "log = lg @ [Lg_Ask r False ok now]" and
      "flags e' = (if ok then (flags e)[r := (ru_undo ?rule, now)] else (flags e)[r := (rs_active ?st, now)])"
      using assms(1) dec EM_STEP_RUN run f2 st2
      by (auto simp: dispatch_rule_def Let_def flags_set em_rule_applied_def split: if_splits)
    then have "flags e' = (flags e)[r := call_effect ?rule (False, ok, now) (flags e ! r)]" by (simp add: f)
    with log show ?thesis using d EM_STEP_RUN f assms(2) flags_run [OF run] by (auto intro!: follows_one)
  next
    case EM_STEP_UNDO
    obtain e2 w2 ok lg where run: "run_action E between r ev True (set_state r st e, w) = ((e2, w2), ok, lg)" by (metis surj_pair)
    note d = decide_flags [OF dec, where ok = ok]
    have log: "log = lg @ [Lg_Ask r True ok now]" and "flags e' = flags e2"
      using assms(1) dec EM_STEP_UNDO run by (auto simp: dispatch_rule_def Let_def split: if_splits)
    moreover have "flags e2 = (flags e)[r := call_effect ?rule (True, ok, now) (flags e ! r)]"
      using flags_run [OF run] d EM_STEP_UNDO by (simp add: flags_set f)
    ultimately show ?thesis using d EM_STEP_UNDO f assms(2) flags_run [OF run] by (auto intro!: follows_one)
  qed
qed

lemma follows_recheck:
  assumes "recheck_active E between r (e, w) = ((e', w'), log)" "r < length (en_states e)"
  shows "follows E (flags e) log (flags e')"
proof -
  let ?rule = "nv_rules E ! r" and ?st = "en_states e ! r"
  obtain due st where re: "em_rule_recheck (nv_dbl E) ?rule ?st (nv_resolve E w) = (due, st)" by (metis surj_pair)
  have f: "flags e ! r = (rs_active ?st, rs_last_fire_us ?st)" using assms(2) by (rule flags_nth)
  obtain e2 w2 ok lg where run: "run_action E between r (rs_last_ev st) True (set_state r st e, w) = ((e2, w2), ok, lg)" by (metis surj_pair)
  note d = recheck_flags [OF re, where ok = ok and now = "nv_time E w"]
  show ?thesis
  proof (cases due)
    case True
    with assms(1) re run have "log = lg @ [Lg_Ask r True ok (nv_time E w)]" "flags e' = flags e2" by (auto simp: recheck_active_def)
    moreover have "flags e2 = (flags e)[r := call_effect ?rule (True, ok, nv_time E w) (flags e ! r)]"
      using flags_run [OF run] d True by (simp add: flags_set f)
    ultimately show ?thesis using d True f assms(2) flags_run [OF run] by (auto intro!: follows_one)
  next
    case False
    with assms re d f have "log = []" "flags e' = flags e" by (auto simp: recheck_active_def flags_set simp flip: f)
    then show ?thesis by (simp add: follows_quiet)
  qed
qed

section \<open>The engine over time\<close>

text \<open>The world may change between any two steps: time passes, live values move.\<close>

datatype ('d, 'w) em_input =
    EI_Publish "'d em_event option"
  | EI_Dispatch "nat list"
  | EI_Worker nat
  | EI_World "'w \<Rightarrow> 'w"
  | EI_Stop

fun em_exec :: "('d, 'w) em_env \<Rightarrow> ('d, 'w) em_input \<Rightarrow> ('d, 'w) em_engine \<times> 'w \<Rightarrow> (('d, 'w) em_engine \<times> 'w) \<times> em_log list" where
  "em_exec E (EI_Publish ev) s = ((fst (event_manager_publish E ev s), snd s), [])"
| "em_exec E (EI_Dispatch between) s = dispatcher_task E between s"
| "em_exec E (EI_Worker i) s = worker_task E i s"
| "em_exec E (EI_World f) s = ((fst s, f (snd s)), [])"
| "em_exec E EI_Stop s = ((event_manager_stop (fst s), snd s), [])"

fun em_run ::
    "('d, 'w) em_env \<Rightarrow> ('d, 'w) em_input list \<Rightarrow> ('d, 'w) em_engine \<times> 'w \<Rightarrow> (('d, 'w) em_engine \<times> 'w) \<times> em_log list" where
  "em_run E [] s = (s, [])"
| "em_run E (i # is) s = (case em_exec E i s of (s1, log1) \<Rightarrow> (case em_run E is s1 of (s2, log2) \<Rightarrow> (s2, log1 @ log2)))"

text \<open>The engine after \<open>event_manager_init\<close>: empty queues and the states of the rules all zero.\<close>

definition em_zero_state :: "'d em_dbl \<Rightarrow> 'd em_rule_state" where
  "em_zero_state D =
     \<lparr>rs_last_fire_us = 0,
      rs_last = replicate 4 \<lparr>la_valid = False, la_is_num = False, la_num = fd_int D 0, la_str = []\<rparr>,
      rs_active = False, rs_fired = 0, rs_last_fired_us = 0,
      rs_last_ev = \<lparr>ev_source = [], ev_name = [], ev_ts_us = 0, ev_kv = []\<rparr>\<rparr>"

definition event_manager_boot :: "'d em_dbl \<Rightarrow> ('d, 'w) em_engine" where
  "event_manager_boot D =
     \<lparr>en_q = [], en_jobq = [], en_workers = replicate EM_WORKERS W_Idle, en_turn = T_Wait,
      en_states = replicate EM_RULES_MAX (em_zero_state D),
      en_stats = \<lparr>st_published = 0, st_dropped = 0, st_fired = 0, st_action_errors = 0, st_suppressed = 0, st_blocking_dropped = 0\<rparr>,
      en_stopped = False, en_last_check_us = 0\<rparr>"

text \<open>The dispatcher goes through rules that there are.\<close>

fun turn_rules :: "'d em_turn \<Rightarrow> nat list" where
  "turn_rules (T_Rules ev sel now rs) = rs"
| "turn_rules (T_Recheck rs) = rs"
| "turn_rules _ = []"

definition turn_ok :: "('d, 'w) em_env \<Rightarrow> ('d, 'w) em_engine \<Rightarrow> bool" where
  [inv_simps]: "turn_ok E e \<longleftrightarrow> list_all (\<lambda>r. r < length (nv_rules E)) (turn_rules (en_turn e))"

lemma flags_publish: "flags (fst (event_manager_publish E ev s)) = flags (fst s)"
  by (cases s) (auto simp: event_manager_publish_def Let_def split: option.split)

lemma flags_worker: "worker_task E i (e, w) = ((e1, w1), lg) \<Longrightarrow> flags e1 = flags e \<and> quiet lg"
  by (auto simp: worker_task_def Let_def flags_action split: if_splits em_worker.splits prod.splits dest!: flags_take)

lemma follows_dispatcher:
  assumes "dispatcher_task E between (e, w) = ((e', w'), log)" "length (nv_rules E) \<le> length (en_states e)" "turn_ok E e"
  shows "follows E (flags e) log (flags e')"
proof -
  have rule: "follows E (flags e) log (flags e')"
    if "dispatch_rule E between ev sel now r (e\<lparr>en_turn := tn\<rparr>, w) = ((e', w'), log)" "r < length (nv_rules E)" for ev sel now r tn
    using follows_dispatch [OF that(1)] that(2) assms(2) by simp
  have re: "follows E (flags e) log (flags e')"
    if "recheck_active E between r (e\<lparr>en_turn := tn\<rparr>, w) = ((e', w'), log)" "r < length (nv_rules E)" for r tn
    using follows_recheck [OF that(1)] that(2) assms(2) by simp
  show ?thesis using assms(1,3)
    by (auto simp: dispatcher_task_def turn_ok_def Let_def intro: rule re intro!: follows_quiet
        split: em_turn.splits list.splits if_splits)
qed

lemma follows_exec:
  assumes "em_exec E i (e, w) = ((e', w'), log)" "length (nv_rules E) \<le> length (en_states e)" "turn_ok E e"
  shows "follows E (flags e) log (flags e')"
proof (cases i)
  case (EI_Dispatch between)
  with assms show ?thesis by (simp add: follows_dispatcher)
next
  case (EI_Publish ev)
  with assms(1) flags_publish [of E ev "(e, w)"] show ?thesis by (auto simp: follows_quiet)
next
  case (EI_Worker k)
  with assms(1) show ?thesis by (auto simp: follows_quiet dest!: flags_worker)
qed (use assms in \<open>auto simp: event_manager_stop_def follows_quiet\<close>)

text \<open>Where the dispatcher is changes only by its own steps.\<close>

lemma turn_take: "take_job i e = (e1, lg) \<Longrightarrow> en_turn e1 = en_turn e"
  by (auto simp: take_job_def split: list.splits em_worker.splits if_splits)

lemma turn_takes: "take_jobs is e = (e1, lg) \<Longrightarrow> en_turn e1 = en_turn e"
  by (induction "is" arbitrary: e e1 lg) (auto split: prod.splits dest!: turn_take)

lemma turn_enqueue: "enqueue_job between j e = (e1, ok, lg) \<Longrightarrow> en_turn e1 = en_turn e"
  by (auto simp: enqueue_job_def Let_def split: if_splits prod.splits list.splits dest: turn_takes)

lemma turn_run: "run_action E between r ev undo (e, w) = ((e1, w1), ok, lg) \<Longrightarrow> en_turn e1 = en_turn e"
  by (auto simp: run_action_def Let_def action_error_def action_fired_def rule_fired_def
      split: option.splits if_splits prod.splits dest!: turn_enqueue)

lemma turn_rule: "dispatch_rule E between ev sel now r (e, w) = ((e', w'), log) \<Longrightarrow> en_turn e' = en_turn e"
  by (auto simp: dispatch_rule_def Let_def set_state_def split: prod.splits em_step.splits if_splits dest!: turn_run)

lemma turn_recheck: "recheck_active E between r (e, w) = ((e', w'), log) \<Longrightarrow> en_turn e' = en_turn e"
  by (auto simp: recheck_active_def set_state_def split: prod.splits if_splits dest!: turn_run)

lemma turn_worker: "worker_task E i (e, w) = ((e1, w1), lg) \<Longrightarrow> en_turn e1 = en_turn e"
  by (auto simp: worker_task_def Let_def action_error_def action_fired_def rule_fired_def
      split: if_splits em_worker.splits prod.splits dest!: turn_take)

lemma turn_ok_exec: "em_exec E i (e, w) = ((e', w'), log) \<Longrightarrow> turn_ok E e \<Longrightarrow> turn_ok E e'"
proof (cases i)
  case (EI_Dispatch between)
  then show "em_exec E i (e, w) = ((e', w'), log) \<Longrightarrow> turn_ok E e \<Longrightarrow> ?thesis"
    by (auto simp: dispatcher_task_def turn_ok_def dispatch_one_def Let_def list_all_iff
        split: em_turn.splits list.splits if_splits dest!: turn_rule turn_recheck)
qed (auto simp: turn_ok_def event_manager_stop_def event_manager_publish_def Let_def turn_worker split: option.splits if_splits)

lemma calls_accepted:
  assumes "em_run E is (e, w) = (s', log)" "length (nv_rules E) \<le> length (en_states e)" "turn_ok E e" "r < length (nv_rules E)"
  shows "accepts (nv_rules E ! r) (flags e ! r) (calls_of r log)"
  using assms
proof (induction "is" arbitrary: e w log)
  case (Cons i "is")
  obtain e1 w1 log1 where 1: "em_exec E i (e, w) = ((e1, w1), log1)" by (metis surj_pair)
  obtain log2 where 2: "em_run E is (e1, w1) = (s', log2)" "log = log1 @ log2" using Cons.prems(1) 1 by (auto split: prod.splits)
  have f: "follows E (flags e) log1 (flags e1)" by (rule follows_exec [OF 1 Cons.prems(2,3)])
  then have "length (en_states e1) = length (en_states e)" using follows_length by fastforce
  then have "accepts (nv_rules E ! r) (flags e1 ! r) (calls_of r log2)"
    using Cons.IH [OF 2(1)] Cons.prems turn_ok_exec [OF 1] by simp
  then show ?case using f 2(2) Cons.prems(4) by (simp add: accepts_append follows_def)
qed simp

lemma boot_calls_accepted:
  fixes E :: "('d, 'w) em_env"
  assumes "length (nv_rules E) \<le> EM_RULES_MAX" "r < length (nv_rules E)"
    and "em_run E inputs (event_manager_boot (nv_dbl E), w) = (s', log)"
  shows "accepts (nv_rules E ! r) (False, 0) (calls_of r log)"
proof -
  let ?e = "event_manager_boot (nv_dbl E) :: ('d, 'w) em_engine"
  have n: "length (en_states ?e) = EM_RULES_MAX" "turn_ok E ?e" by (simp_all add: event_manager_boot_def turn_ok_def)
  have "flags ?e ! r = (False, 0)"
    using assms n by (subst flags_nth) (simp_all add: event_manager_boot_def em_zero_state_def)
  then show ?thesis using calls_accepted [OF assms(3) _ n(2) assms(2)] assms(1) n(1) by simp
qed

section \<open>The jobs of the workers\<close>

fun log_own :: "nat \<Rightarrow> em_log \<Rightarrow> (bool \<times> bool) list" where
  "log_own r (Lg_Own r' undo ok) = (if r' = r then [(undo, ok)] else [])"
| "log_own r l = []"

fun log_queued :: "em_log \<Rightarrow> (nat \<times> bool) list" where
  "log_queued (Lg_Queued r undo) = [(r, undo)]"
| "log_queued l = []"

fun log_left :: "em_log \<Rightarrow> (nat \<times> bool) list" where
  "log_left (Lg_Dropped r undo) = [(r, undo)]"
| "log_left (Lg_Taken i r undo) = [(r, undo)]"
| "log_left l = []"

fun log_taken :: "nat \<Rightarrow> em_log \<Rightarrow> (nat \<times> bool) list" where
  "log_taken i (Lg_Taken i' r undo) = (if i' = i then [(r, undo)] else [])"
| "log_taken i l = []"

fun log_worked :: "nat \<Rightarrow> em_log \<Rightarrow> (nat \<times> bool) list" where
  "log_worked i (Lg_Worked i' r undo ok) = (if i' = i then [(r, undo)] else [])"
| "log_worked i l = []"

text \<open>Of a rule the runs of the dispatcher itself; of all rules the jobs queued, those that left the queue to a worker
  or were pushed out, those that worker \<open>i\<close> took and those it ran.\<close>

definition own_runs :: "nat \<Rightarrow> em_log list \<Rightarrow> (bool \<times> bool) list" where
  "own_runs r log = concat (map (log_own r) log)"

definition jobs_queued :: "em_log list \<Rightarrow> (nat \<times> bool) list" where
  "jobs_queued log = concat (map log_queued log)"

definition jobs_left :: "em_log list \<Rightarrow> (nat \<times> bool) list" where
  "jobs_left log = concat (map log_left log)"

definition jobs_taken :: "nat \<Rightarrow> em_log list \<Rightarrow> (nat \<times> bool) list" where
  "jobs_taken i log = concat (map (log_taken i) log)"

definition jobs_worked :: "nat \<Rightarrow> em_log list \<Rightarrow> (nat \<times> bool) list" where
  "jobs_worked i log = concat (map (log_worked i) log)"

lemma jobs_simps [simp]:
  "own_runs r [] = []" "own_runs r (l # xs) = log_own r l @ own_runs r xs" "own_runs r (xs @ ys) = own_runs r xs @ own_runs r ys"
  "jobs_queued [] = []" "jobs_queued (l # xs) = log_queued l @ jobs_queued xs" "jobs_queued (xs @ ys) = jobs_queued xs @ jobs_queued ys"
  "jobs_left [] = []" "jobs_left (l # xs) = log_left l @ jobs_left xs" "jobs_left (xs @ ys) = jobs_left xs @ jobs_left ys"
  "jobs_taken i [] = []" "jobs_taken i (l # xs) = log_taken i l @ jobs_taken i xs" "jobs_taken i (xs @ ys) = jobs_taken i xs @ jobs_taken i ys"
  "jobs_worked i [] = []" "jobs_worked i (l # xs) = log_worked i l @ jobs_worked i xs" "jobs_worked i (xs @ ys) = jobs_worked i xs @ jobs_worked i ys"
  by (simp_all add: own_runs_def jobs_queued_def jobs_left_def jobs_taken_def jobs_worked_def)

definition job_id :: "('d, 'w) em_job \<Rightarrow> nat \<times> bool" where
  "job_id j = (jb_rule j, jb_undo j)"

definition in_hand :: "nat \<Rightarrow> ('d, 'w) em_engine \<Rightarrow> (nat \<times> bool) list" where
  "in_hand i e =
     (if i < length (en_workers e) then (case en_workers e ! i of W_Job j \<Rightarrow> [job_id j] | _ \<Rightarrow> []) else [])"

text \<open>The books of the queue and of the workers over a step.\<close>

definition balanced :: "('d, 'w) em_engine \<Rightarrow> em_log list \<Rightarrow> ('d, 'w) em_engine \<Rightarrow> bool" where
  "balanced e log e' \<longleftrightarrow>
     map job_id (en_jobq e) @ jobs_queued log = jobs_left log @ map job_id (en_jobq e') \<and>
     (\<forall>i. in_hand i e @ jobs_taken i log = jobs_worked i log @ in_hand i e')"

lemma balanced_trans: "balanced e xs e1 \<Longrightarrow> balanced e1 ys e2 \<Longrightarrow> balanced e (xs @ ys) e2"
  unfolding balanced_def jobs_simps by (metis append.assoc)

lemma balanced_same:
  "en_jobq e' = en_jobq e \<Longrightarrow> en_workers e' = en_workers e \<Longrightarrow> balanced e [] e'"
  by (simp add: balanced_def in_hand_def)

lemma balanced_more:
  assumes "balanced e lg e1" "en_jobq e2 = en_jobq e1" "en_workers e2 = en_workers e1"
  shows "balanced e lg e2"
  using balanced_trans [OF assms(1) balanced_same [OF assms(2,3)]] by simp

lemma balanced_take: "take_job i e = (e1, lg) \<Longrightarrow> balanced e lg e1"
  by (auto simp: take_job_def balanced_def in_hand_def job_id_def nth_list_update
      split: list.splits em_worker.splits if_splits)

lemma balanced_takes: "take_jobs is e = (e1, lg) \<Longrightarrow> balanced e lg e1"
  by (induction "is" arbitrary: e e1 lg)
    (auto split: prod.splits intro: balanced_same balanced_trans dest!: balanced_take)

lemma balanced_push: "balanced e [Lg_Queued (jb_rule j) (jb_undo j)] (e\<lparr>en_jobq := en_jobq e @ [j]\<rparr>)"
  by (simp add: balanced_def in_hand_def job_id_def)

lemma balanced_drop:
  "en_jobq e = v # js \<Longrightarrow> balanced e [Lg_Dropped (jb_rule v) (jb_undo v)] (e\<lparr>en_jobq := js, en_stats := st\<rparr>)"
  by (simp add: balanced_def in_hand_def job_id_def)

lemma balanced_enqueue:
  assumes "enqueue_job between j e = (e1, ok, lg)"
  shows "balanced e lg e1"
proof (cases "length (en_jobq e) < EM_JOB_QUEUE")
  case True
  with assms show ?thesis by (auto simp: enqueue_job_def intro: balanced_push)
next
  case False
  obtain ea lga where a: "take_jobs between e = (ea, lga)" by (metis surj_pair)
  define eb where "eb = (case en_jobq ea of [] \<Rightarrow> ea
     | v # js \<Rightarrow> ea\<lparr>en_jobq := js, en_stats := (en_stats ea)\<lparr>st_blocking_dropped := st_blocking_dropped (en_stats ea) + 1\<rparr>\<rparr>)"
  define lgb where "lgb = (case en_jobq ea of [] \<Rightarrow> [] | v # js \<Rightarrow> [Lg_Dropped (jb_rule v) (jb_undo v)])"
  have "(case en_jobq ea of [] \<Rightarrow> (ea, [])
     | v # js \<Rightarrow> (ea\<lparr>en_jobq := js, en_stats := (en_stats ea)\<lparr>st_blocking_dropped := st_blocking_dropped (en_stats ea) + 1\<rparr>\<rparr>,
         [Lg_Dropped (jb_rule v) (jb_undo v)])) = (eb, lgb)"
    by (simp add: eb_def lgb_def split: list.split)
  then have res: "e1 = (if length (en_jobq eb) < EM_JOB_QUEUE then eb\<lparr>en_jobq := en_jobq eb @ [j]\<rparr> else eb)"
      "lg = (lga @ lgb) @ (if length (en_jobq eb) < EM_JOB_QUEUE then [Lg_Queued (jb_rule j) (jb_undo j)] else [])"
    using assms a False by (auto simp: enqueue_job_def split: if_splits)
  have "balanced ea lgb eb"
    by (cases "en_jobq ea") (simp_all add: eb_def lgb_def balanced_same balanced_drop)
  then have "balanced e (lga @ lgb) eb" using balanced_takes [OF a] by (rule balanced_trans [rotated])
  moreover have "balanced eb (if length (en_jobq eb) < EM_JOB_QUEUE then [Lg_Queued (jb_rule j) (jb_undo j)] else []) e1"
    using balanced_push [of eb j] balanced_same [of eb eb] by (simp add: res(1))
  ultimately show ?thesis unfolding res(2) by (rule balanced_trans)
qed

lemma balanced_run:
  assumes "run_action E between r ev undo (e, w) = ((e1, w1), ok, lg)"
  shows "balanced e lg e1"
proof -
  have own: "balanced e [Lg_Own r undo k] e'" if "en_jobq e' = en_jobq e" "en_workers e' = en_workers e" for k e'
    using that by (simp add: balanced_def in_hand_def)
  show ?thesis using assms
    by (auto simp: run_action_def Let_def action_error_def action_fired_def rule_fired_def
        split: option.splits if_splits prod.splits intro!: own balanced_same
        dest!: balanced_enqueue intro: balanced_more)
qed

lemma balanced_ask: "balanced e lg e1 \<Longrightarrow> balanced e (lg @ [Lg_Ask r undo ok now]) e1"
  by (simp add: balanced_def)

lemma balanced_rule:
  assumes "dispatch_rule E between ev sel now r (e, w) = ((e', w'), log)"
  shows "balanced e log e'"
proof -
  have run: "balanced e lg e1" if "run_action E between r ev u (set_state r st e, w) = ((e1, w1), ok, lg)" for u st e1 w1 ok lg
    using balanced_trans [OF balanced_same balanced_run [OF that]] by (simp add: set_state_def)
  show ?thesis using assms
    by (auto simp: dispatch_rule_def Let_def set_state_def [of _ _ "_ :: ('a, 'b) em_engine"]
        split: prod.splits em_step.splits if_splits intro!: balanced_ask balanced_same
        dest!: run [unfolded set_state_def] intro: balanced_more)
qed

lemma balanced_recheck:
  assumes "recheck_active E between r (e, w) = ((e', w'), log)"
  shows "balanced e log e'"
proof -
  have run: "balanced e lg e1" if "run_action E between r ev u (set_state r st e, w) = ((e1, w1), ok, lg)" for u st e1 w1 ok lg ev
    using balanced_trans [OF balanced_same balanced_run [OF that]] by (simp add: set_state_def)
  show ?thesis using assms
    by (auto simp: recheck_active_def set_state_def split: prod.splits if_splits intro!: balanced_ask balanced_same
        dest!: run [unfolded set_state_def])
qed

lemma queues_action:
  "en_jobq (action_error e) = en_jobq e" "en_workers (action_error e) = en_workers e"
  "en_jobq (action_fired r now e) = en_jobq e" "en_workers (action_fired r now e) = en_workers e"
  by (simp_all add: action_error_def action_fired_def rule_fired_def)

lemma balanced_worker:
  assumes "worker_task E i (e, w) = ((e1, w1), lg)"
  shows "balanced e lg e1"
proof (cases "i < length (en_workers e)")
  case True
  show ?thesis
  proof (cases "en_workers e ! i")
    case W_Idle
    with assms True show ?thesis by (auto simp: worker_task_def split: prod.splits intro: balanced_take)
  next
    case (W_Job j)
    with assms True have "lg = [Lg_Worked i (jb_rule j) (jb_undo j) (snd (ac_run (jb_action j) (jb_with j) (jb_undo j) (jb_trigger j) w))]"
      "en_jobq e1 = en_jobq e" "\<exists>ok. en_workers e1 = (en_workers e)[i := W_Done j ok]"
      by (auto simp: worker_task_def split: prod.splits)
    with W_Job True show ?thesis by (auto simp: balanced_def in_hand_def job_id_def nth_list_update)
  next
    case (W_Done j ok)
    with assms True have "lg = []" "en_jobq e1 = en_jobq e" "en_workers e1 = (en_workers e)[i := W_Idle]"
      by (auto simp: worker_task_def Let_def queues_action split: if_splits)
    with W_Done True show ?thesis by (auto simp: balanced_def in_hand_def nth_list_update)
  qed
qed (use assms in \<open>simp add: worker_task_def balanced_same\<close>)

lemma balanced_turn:
  assumes "balanced (e\<lparr>en_turn := tn\<rparr>) log e'"
  shows "balanced e log e'"
  using balanced_trans [OF balanced_same assms] by simp

lemma balanced_dispatcher:
  assumes "dispatcher_task E between (e, w) = ((e', w'), log)"
  shows "balanced e log e'"
  using assms
  by (auto simp: dispatcher_task_def Let_def intro!: balanced_same split: em_turn.splits list.splits if_splits
      dest!: balanced_rule balanced_recheck balanced_turn)

lemma balanced_exec:
  assumes "em_exec E i (e, w) = ((e', w'), log)"
  shows "balanced e log e'"
proof (cases i)
  case (EI_Publish ev)
  with assms show ?thesis
    by (auto simp: event_manager_publish_def Let_def split: option.splits if_splits intro!: balanced_same)
qed (use assms in \<open>auto simp: event_manager_stop_def intro: balanced_dispatcher balanced_worker intro!: balanced_same\<close>)

lemma balanced_all: "em_run E is (e, w) = ((e', w'), log) \<Longrightarrow> balanced e log e'"
proof (induction "is" arbitrary: e w log)
  case (Cons i "is")
  obtain e1 w1 log1 where 1: "em_exec E i (e, w) = ((e1, w1), log1)" by (metis surj_pair)
  with Cons show ?case by (auto split: prod.splits intro: balanced_trans [OF balanced_exec [OF 1]])
qed (simp add: balanced_same)

text \<open>What the asks of a rule come to: the runs of the dispatcher, or the jobs it queues.\<close>

definition asked :: "('d, 'w) em_env \<Rightarrow> em_log list \<Rightarrow> bool" where
  "asked E log \<longleftrightarrow>
     (\<forall>r a. nv_find E (ru_action (nv_rules E ! r)) = Some a \<longrightarrow>
        (ru_with_json (nv_rules E ! r) = [] \<or> nv_parses E (ru_with_json (nv_rules E ! r))) \<longrightarrow>
        (if ac_blocking a
         then map snd (filter (\<lambda>j. fst j = r) (jobs_queued log)) = map fst (filter (\<lambda>c. fst (snd c)) (calls_of r log))
         else own_runs r log = map (\<lambda>(undo, ok, t). (undo, ok)) (calls_of r log)))"

lemma asked_append: "asked E xs \<Longrightarrow> asked E ys \<Longrightarrow> asked E (xs @ ys)"
  by (simp add: asked_def)

text \<open>A log in which nothing is asked, queued or run by the dispatcher.\<close>

definition aside :: "em_log list \<Rightarrow> bool" where
  "aside log \<longleftrightarrow> quiet log \<and> jobs_queued log = [] \<and> (\<forall>r. own_runs r log = [])"

lemma asked_aside: "aside log \<Longrightarrow> asked E log"
  by (simp add: asked_def aside_def quiet_def)

lemma aside_take: "take_job i e = (e1, lg) \<Longrightarrow> aside lg"
  by (auto simp: take_job_def aside_def split: list.splits em_worker.splits if_splits)

lemma aside_takes: "take_jobs is e = (e1, lg) \<Longrightarrow> aside lg"
  by (induction "is" arbitrary: e e1 lg) (auto simp: aside_def split: prod.splits dest!: aside_take)

lemma enqueue_log:
  "enqueue_job between j e = (e1, ok, lg) \<Longrightarrow>
     \<exists>lg1. aside lg1 \<and> lg = lg1 @ (if ok then [Lg_Queued (jb_rule j) (jb_undo j)] else [])"
  by (auto simp: enqueue_job_def Let_def aside_def split: if_splits prod.splits list.splits dest: aside_takes)

lemma asked_run:
  assumes "run_action E between r ev undo (e, w) = ((e1, w1), ok, lg)"
  shows "asked E (lg @ [Lg_Ask r undo ok now])"
proof (cases "nv_find E (ru_action (nv_rules E ! r))")
  case None
  with assms show ?thesis by (auto simp: run_action_def asked_def)
next
  case (Some a)
  show ?thesis
  proof (cases "ru_with_json (nv_rules E ! r) \<noteq> [] \<and> \<not> nv_parses E (ru_with_json (nv_rules E ! r))")
    case True
    with assms Some show ?thesis by (auto simp: run_action_def asked_def)
  next
    case False
    show ?thesis
    proof (cases "ac_blocking a")
      case True
      define job where "job = \<lparr>jb_action = a, jb_with = ru_with_json (nv_rules E ! r), jb_undo = undo, jb_trigger = ev, jb_rule = r\<rparr>"
      obtain e2 where "enqueue_job between job e = (e2, ok, lg)"
        using assms Some False True by (auto simp: run_action_def job_def Let_def split: prod.splits if_splits)
      from enqueue_log [OF this] obtain lg1 where "aside lg1" "lg = lg1 @ (if ok then [Lg_Queued r undo] else [])"
        by (auto simp: job_def)
      then show ?thesis using Some True by (auto simp: asked_def aside_def quiet_def)
    next
      case inline: False
      then have "lg = [Lg_Own r undo ok]"
        using assms Some False by (auto simp: run_action_def Let_def split: prod.splits if_splits)
      then show ?thesis using Some inline by (auto simp: asked_def)
    qed
  qed
qed

lemma asked_exec:
  assumes "em_exec E i (e, w) = ((e', w'), log)"
  shows "asked E log"
proof -
  have nil: "asked E []" by (simp add: asked_def)
  have rule: "asked E lg" if "dispatch_rule E between ev sel now r (e1, w1) = ((e2, w2), lg)" for between ev sel now r e1 w1 e2 w2 lg
    using that nil
    by (auto simp: dispatch_rule_def Let_def split: prod.splits em_step.splits if_splits intro: asked_run)
  have re: "asked E lg" if "recheck_active E between r (e1, w1) = ((e2, w2), lg)" for between r e1 w1 e2 w2 lg
    using that nil by (auto simp: recheck_active_def split: prod.splits if_splits intro: asked_run)
  have disp: "asked E lg" if "dispatcher_task E between (e, w) = ((e2, w2), lg)" for between e2 w2 lg
    using that nil
    by (auto simp: dispatcher_task_def Let_def split: em_turn.splits list.splits if_splits intro: rule re)
  have work: "asked E lg" if "worker_task E k (e, w) = ((e2, w2), lg)" for k e2 w2 lg
    using that nil
    by (auto simp: worker_task_def Let_def split: em_worker.splits prod.splits if_splits
        intro: asked_aside aside_take) (simp_all add: asked_aside aside_def)
  show ?thesis using assms nil by (cases i) (auto intro: disp work)
qed

lemma asked_all: "em_run E is (e, w) = ((e', w'), log) \<Longrightarrow> asked E log"
proof (induction "is" arbitrary: e w log)
  case (Cons i "is")
  obtain e1 w1 log1 where 1: "em_exec E i (e, w) = ((e1, w1), log1)" by (metis surj_pair)
  with Cons show ?case by (auto split: prod.splits intro: asked_append [OF asked_exec [OF 1]])
qed (simp add: asked_def)

text \<open>The calls of a while-rule alternate.\<close>

fun alternates :: "bool \<Rightarrow> (bool \<times> bool \<times> int) list \<Rightarrow> bool" where
  "alternates active [] \<longleftrightarrow> True"
| "alternates active ((undo, ok, t) # cs) \<longleftrightarrow> undo = active \<and> alternates (\<not> undo \<and> ok) cs"

lemma accepts_alternates: "ru_undo rule \<Longrightarrow> accepts rule (active, fire) cs \<Longrightarrow> alternates active cs"
proof (induction cs arbitrary: active fire)
  case (Cons c cs)
  obtain undo ok t where "c = (undo, ok, t)" by (cases c) auto
  then show ?case using Cons by (cases undo; cases ok) auto
qed simp

lemma accepts_plain: "\<not> ru_undo rule \<Longrightarrow> accepts rule a cs \<Longrightarrow> c \<in> set cs \<Longrightarrow> \<not> fst c"
proof (induction cs arbitrary: a)
  case (Cons x cs)
  then show ?case by (cases x; cases a) (auto split: if_splits)
qed simp

lemma alternates_nth:
  "alternates active cs \<Longrightarrow> i < length cs \<Longrightarrow>
     fst (cs ! i) = (if i = 0 then active else \<not> fst (cs ! (i - 1)) \<and> fst (snd (cs ! (i - 1))))"
proof (induction active cs arbitrary: i rule: alternates.induct)
  case (2 active undo ok t cs)
  then show ?case by (cases i; cases "i - 1") auto
qed simp

lemma asks_alternate:
  assumes "accepts rule (False, 0) cs" "i < length cs"
  shows "fst (cs ! i) \<longleftrightarrow> ru_undo rule \<and> 0 < i \<and> \<not> fst (cs ! (i - 1)) \<and> fst (snd (cs ! (i - 1)))"
proof (cases "ru_undo rule")
  case True
  then show ?thesis using alternates_nth [OF accepts_alternates [OF True assms(1)] assms(2)] by simp
next
  case False
  then show ?thesis using accepts_plain [OF False assms(1)] assms(2) by simp
qed

text \<open>C22. For a rule whose action is registered and whose parameters parse, whatever is published
  and however the steps of the dispatcher and of the two workers interleave, the dispatcher
  asks for an action with an undo in turns: it asks for an undo exactly after an ask that
  succeeded (the action ran in the dispatcher without error, or its job was put into the
  queue), once for it, and never for an action without undo. For an action in line the asks
  are its runs, in order and with their results. For one that the workers run, the asks that
  succeeded are the jobs queued; the jobs of all rules leave the queue in the order they
  were queued, each to one worker or pushed out by a newer one, and each worker runs every
  job it takes once, in the order taken. So a queued ask counts as applied even when its job
  is pushed out or fails, and two workers may end in another order (findings).\<close>

theorem while_rule_alternates:
  fixes E :: "('d, 'w) em_env" and inputs :: "('d, 'w) em_input list" and w :: 'w
  assumes "length (nv_rules E) \<le> EM_RULES_MAX" "r < length (nv_rules E)"
    and run: "em_run E inputs (event_manager_boot (nv_dbl E), w) = ((e', w'), log)"
  defines "cs \<equiv> calls_of r log"
  assumes "i < length cs" "nv_find E (ru_action (nv_rules E ! r)) = Some a"
    "ru_with_json (nv_rules E ! r) = [] \<or> nv_parses E (ru_with_json (nv_rules E ! r))"
  shows "(fst (cs ! i) \<longleftrightarrow> ru_undo (nv_rules E ! r) \<and> 0 < i \<and> \<not> fst (cs ! (i - 1)) \<and> fst (snd (cs ! (i - 1)))) \<and>
    (if ac_blocking a
     then map snd (filter (\<lambda>j. fst j = r) (jobs_queued log)) = map fst (filter (\<lambda>c. fst (snd c)) cs)
     else own_runs r log = map (\<lambda>(undo, ok, t). (undo, ok)) cs) \<and>
    jobs_queued log = jobs_left log @ map job_id (en_jobq e') \<and>
    jobs_taken k log = jobs_worked k log @ in_hand k e'"
proof -
  have acc: "accepts (nv_rules E ! r) (False, 0) cs" unfolding cs_def by (rule boot_calls_accepted [OF assms(1,2) run])
  have "asked E log" by (rule asked_all [OF run])
  have "balanced (event_manager_boot (nv_dbl E)) log e'" by (rule balanced_all [OF run])
  then have "jobs_queued log = jobs_left log @ map job_id (en_jobq e')" "jobs_taken k log = jobs_worked k log @ in_hand k e'"
    by (auto simp: balanced_def event_manager_boot_def in_hand_def nth_Cons' split: if_splits dest!: spec [of _ k])
  moreover have "if ac_blocking a
     then map snd (filter (\<lambda>j. fst j = r) (jobs_queued log)) = map fst (filter (\<lambda>c. fst (snd c)) cs)
     else own_runs r log = map (\<lambda>(undo, ok, t). (undo, ok)) cs"
    using \<open>asked E log\<close> assms(6,7) unfolding asked_def cs_def by blast
  ultimately show ?thesis using asks_alternate [OF acc assms(5)] by blast
qed

text \<open>Runs of one rule keep its cooldown.\<close>

lemma accepts_spaced:
  assumes "accepts rule (a, f) (ys @ (False, ok, t) # zs)" "0 < f" "\<And>c. c \<in> set ys \<Longrightarrow> 0 < snd (snd c)" "0 < ru_cooldown_ms rule"
  shows "uint (ru_cooldown_ms rule) * 1000 \<le> t - f"
  using assms(1-3)
proof (induction ys arbitrary: a f)
  case Nil
  then show ?case using assms(4) by auto
next
  case (Cons y ys)
  obtain undo ok' t' where y: "y = (undo, ok', t')" by (cases y) auto
  show ?case
  proof (cases undo)
    case True
    then show ?thesis using Cons.IH [of False f] Cons.prems y by simp
  next
    case False
    then have "uint (ru_cooldown_ms rule) * 1000 \<le> t' - f" using Cons.prems y assms(4) by auto
    moreover have "uint (ru_cooldown_ms rule) * 1000 \<le> t - t'"
      using Cons.IH [of "if ok' then ru_undo rule else a" t'] Cons.prems(1) Cons.prems(3) [of y] Cons.prems(3) y False by simp
    ultimately show ?thesis by (smt (verit) uint_ge_0)
  qed
qed

text \<open>The times of the asks are read from the clock, once for an event.\<close>

fun turn_pos :: "'d em_turn \<Rightarrow> bool" where
  "turn_pos (T_Rules ev sel now rs) \<longleftrightarrow> 0 < now"
| "turn_pos _ \<longleftrightarrow> True"

definition timed :: "em_log list \<Rightarrow> bool" where
  "timed log \<longleftrightarrow> (\<forall>r c. c \<in> set (calls_of r log) \<longrightarrow> 0 < snd (snd c))"

lemma timed_quiet: "quiet lg \<Longrightarrow> timed lg"
  by (simp add: timed_def quiet_def)

lemma timed_ask: "run_action E between r ev undo s = ((e1, w1), ok, lg) \<Longrightarrow> 0 < now \<Longrightarrow> timed (lg @ [Lg_Ask r undo ok now])"
  by (cases s) (auto simp: timed_def quiet_def dest: flags_run)

lemma timed_exec:
  assumes "\<And>w. 0 < nv_time E w" "em_exec E i (e, w) = ((e', w'), log)" "turn_pos (en_turn e)"
  shows "timed log \<and> turn_pos (en_turn e')"
proof -
  have nil: "timed []" by (simp add: timed_def)
  have rule: "timed lg" if "dispatch_rule E between ev sel now r (e1, w1) = ((e2, w2), lg)" "0 < now" for between ev sel now r e1 w1 e2 w2 lg
    using that nil by (auto simp: dispatch_rule_def Let_def split: prod.splits em_step.splits if_splits intro: timed_ask)
  have re: "timed lg" if "recheck_active E between r (e1, w1) = ((e2, w2), lg)" for between r e1 w1 e2 w2 lg
    using that nil assms(1) by (auto simp: recheck_active_def split: prod.splits if_splits intro: timed_ask)
  show ?thesis
  proof (cases i)
    case (EI_Dispatch between)
    with assms nil show ?thesis
      by (auto simp: dispatcher_task_def dispatch_one_def Let_def intro: rule re
          split: em_turn.splits list.splits if_splits dest: turn_rule turn_recheck)
  next
    case (EI_Worker k)
    with assms show ?thesis by (auto simp: turn_worker timed_quiet dest: flags_worker)
  qed (use assms nil in \<open>auto simp: event_manager_stop_def event_manager_publish_def Let_def split: option.splits if_splits\<close>)
qed

lemma times_positive:
  assumes clock: "\<And>w. 0 < nv_time E w"
  shows "em_run E is (e, w) = (s', log) \<Longrightarrow> turn_pos (en_turn e) \<Longrightarrow> timed log"
proof (induction "is" arbitrary: e w log)
  case (Cons i "is")
  obtain e1 w1 log1 where 1: "em_exec E i (e, w) = ((e1, w1), log1)" by (metis surj_pair)
  obtain log2 where 2: "em_run E is (e1, w1) = (s', log2)" "log = log1 @ log2" using Cons.prems(1) 1 by (auto split: prod.splits)
  have "timed log1" "timed log2" using timed_exec [OF clock 1 Cons.prems(2)] Cons.IH [OF 2(1)] by auto
  then show ?case using 2(2) by (auto simp: timed_def)
qed (simp add: timed_def)

theorem rule_cooldown_kept:
  assumes "length (nv_rules E) \<le> EM_RULES_MAX" "r < length (nv_rules E)" "0 < ru_cooldown_ms (nv_rules E ! r)"
    and "\<And>w. 0 < nv_time E w"
    and run: "em_run E inputs (event_manager_boot (nv_dbl E), w) = (s', log)"
    and "calls_of r log = xs @ (False, ok1, t1) # ys @ (False, ok2, t2) # zs"
  shows "uint (ru_cooldown_ms (nv_rules E ! r)) * 1000 \<le> t2 - t1"
proof -
  let ?rule = "nv_rules E ! r"
  have "timed log" using times_positive [OF assms(4) run] by (simp add: event_manager_boot_def)
  have pos: "0 < snd (snd c)" if "c \<in> set (calls_of r log)" for c
    using that \<open>timed log\<close> unfolding timed_def by blast
  obtain a f where "fold (call_effect ?rule) xs (False, 0) = (a, f)" by (metis surj_pair)
  then obtain a' where "accepts ?rule (a', t1) (ys @ (False, ok2, t2) # zs)"
    using boot_calls_accepted [OF assms(1,2) run] assms(6) by (auto simp: accepts_append)
  moreover have "0 < t1" using pos [of "(False, ok1, t1)"] assms(6) by simp
  moreover have "\<And>c. c \<in> set ys \<Longrightarrow> 0 < snd (snd c)" using pos assms(6) by simp
  ultimately show ?thesis using accepts_spaced assms(3) by blast
qed

text \<open>An undo that fails is not asked for again: the rule counts as not in effect.\<close>

lemma failed_undo_forgotten:
  assumes "dispatch_rule E between ev sel now r (e, w) = ((e', w'), lg @ [Lg_Ask r True False now])" "quiet lg"
    "r < length (en_states e)" "r < length (nv_rules E)"
  shows "\<not> rs_active (en_states e' ! r)"
proof -
  have f: "follows E (flags e) (lg @ [Lg_Ask r True False now]) (flags e')" by (rule follows_dispatch [OF assms(1,3)])
  then have "length (en_states e') = length (en_states e)" using follows_length by fastforce
  then have "flags e' ! r = (rs_active (en_states e' ! r), rs_last_fire_us (en_states e' ! r))" using flags_nth [of r e'] assms(3) by simp
  moreover have "\<not> fst (flags e' ! r)" using f assms(2,4) by (cases "flags e ! r") (simp add: follows_def quiet_def)
  ultimately show ?thesis by simp
qed

section \<open>Examples\<close>

definition int_dbl :: "int em_dbl" where
  "int_dbl = \<lparr>fd_eq = (=), fd_gt = (>), fd_ge = (\<ge>), fd_lt = (<), fd_le = (\<le>), fd_int = id, fd_text = (\<lambda>_. []), fd_scan = (\<lambda>_. None)\<rparr>"

text \<open>The world is its clock; one while-rule with a cooldown of two milliseconds, whose action is run in line or by
  the workers.\<close>

definition example_env :: "bool \<Rightarrow> (int, nat) em_env" where
  "example_env blocking =
     \<lparr>nv_dbl = int_dbl,
      nv_rules = [\<lparr>ru_name = ''fan'', ru_enabled = True, ru_on = ''autopid.param'', ru_match = [],
        ru_when = [\<lparr>wn_key = ''value'', wn_op = EM_OP_GT, wn_val = \<lparr>op_key = [], op_is_num = True, op_num = 5, op_str = []\<rparr>, wn_value = []\<rparr>],
        ru_action = ''fan.on'', ru_with_json = [], ru_cooldown_ms = 2, ru_undo = True\<rparr>],
      nv_find = (\<lambda>_. Some \<lparr>ac_blocking = blocking, ac_run = (\<lambda>_ _ _ w. (w, True))\<rparr>),
      nv_parses = (\<lambda>_. True), nv_resolve = (\<lambda>_. None), nv_time = (\<lambda>w. int w + 1), nv_enabled = True\<rparr>"

definition example_reading :: "int \<Rightarrow> int em_event" where
  "example_reading v = \<lparr>ev_source = ''autopid'', ev_name = ''param'', ev_ts_us = 0, ev_kv = [\<lparr>kv_key = Some ''value'', kv_v = EM_VAL_F64 v\<rparr>]\<rparr>"

text \<open>A reading and all that the dispatcher does with it.\<close>

definition example_turn :: "int \<Rightarrow> (int, nat) em_input list" where
  "example_turn v = EI_Publish (Some (example_reading v)) # replicate 4 (EI_Dispatch [])"

definition example_inputs :: "(int, nat) em_input list" where
  "example_inputs = example_turn 7 @ [EI_Worker 0] @ example_turn 3 @ [EI_World (\<lambda>w. w + 5000)] @ example_turn 8 @
     [EI_Worker 1, EI_Worker 1, EI_Worker 0, EI_Worker 1]"

definition example_log :: "bool \<Rightarrow> em_log list" where
  "example_log blocking =
     (if blocking
      then [Lg_Queued 0 False, Lg_Ask 0 False True 1, Lg_Taken 0 0 False, Lg_Queued 0 True, Lg_Ask 0 True True 1,
        Lg_Queued 0 False, Lg_Ask 0 False True 5001, Lg_Taken 1 0 True, Lg_Worked 1 0 True True, Lg_Worked 0 0 False True]
      else [Lg_Own 0 False True, Lg_Ask 0 False True 1, Lg_Own 0 True True, Lg_Ask 0 True True 1,
        Lg_Own 0 False True, Lg_Ask 0 False True 5001])"

lemma example_run:
  "snd (em_run (example_env True) example_inputs (event_manager_boot int_dbl, 0)) = example_log True"
  "snd (em_run (example_env False) example_inputs (event_manager_boot int_dbl, 0)) = example_log False"
  by code_simp+

theorem while_rule_alternates_witness:
  "fst (calls_of 0 (example_log True) ! 1) \<and> map snd (filter (\<lambda>j. fst j = 0) (jobs_queued (example_log True))) = [False, True, False]"
proof -
  let ?E = "example_env True"
  obtain e' w' where run: "em_run ?E example_inputs (event_manager_boot (nv_dbl ?E), 0) = ((e', w'), example_log True)"
    using example_run(1) by (cases "em_run ?E example_inputs (event_manager_boot int_dbl, 0)") (auto simp: example_env_def)
  have E: "length (nv_rules ?E) = 1" "nv_find ?E (ru_action (nv_rules ?E ! 0)) = Some \<lparr>ac_blocking = True, ac_run = (\<lambda>_ _ _ w. (w, True))\<rparr>"
    "ru_undo (nv_rules ?E ! 0)" "ru_with_json (nv_rules ?E ! 0) = []" by (simp_all add: example_env_def)
  have calls: "calls_of 0 (example_log True) = [(False, True, 1), (True, True, 1), (False, True, 5001)]" by (simp add: example_log_def)
  have "length (nv_rules ?E) \<le> EM_RULES_MAX" "0 < length (nv_rules ?E)" "1 < length (calls_of 0 (example_log True))"
    using E(1) by (simp_all add: calls)
  note alt = while_rule_alternates [OF this(1,2) run this(3) E(2) disjI1 [OF E(4)]]
  then have "map snd (filter (\<lambda>j. fst j = 0) (jobs_queued (example_log True))) =
      map fst (filter (\<lambda>c. fst (snd c)) (calls_of 0 (example_log True)))"
    unfolding em_action.simps if_True by blast
  moreover have "fst (calls_of 0 (example_log True) ! 1)" using alt E(3) by (simp add: calls)
  ultimately show ?thesis by (simp add: calls)
qed

lemma rule_cooldown_kept_witness:
  "uint (ru_cooldown_ms (nv_rules (example_env True) ! 0)) * 1000 \<le> 5001 - 1"
proof -
  let ?E = "example_env True"
  obtain s' where run: "em_run ?E example_inputs (event_manager_boot (nv_dbl ?E), 0) = (s', example_log True)"
    using example_run(1) by (cases "em_run ?E example_inputs (event_manager_boot int_dbl, 0)") (auto simp: example_env_def)
  have "length (nv_rules ?E) = 1" "0 < ru_cooldown_ms (nv_rules ?E ! 0)" "\<And>w. 0 < nv_time ?E w"
    by (simp_all add: example_env_def)
  moreover have c: "calls_of 0 (example_log True) = [] @ (False, True, 1) # [(True, True, 1)] @ (False, True, 5001) # []"
    by (simp add: example_log_def)
  ultimately show ?thesis by (intro rule_cooldown_kept [OF _ _ _ _ run c]) simp_all
qed

text \<open>Two workers: the undo, asked for after the run, is done before it, and the action stays applied.\<close>

lemma workers_reorder:
  "snd (em_run (example_env True)
     (example_turn 7 @ [EI_Worker 0] @ example_turn 3 @ [EI_Worker 1, EI_Worker 1, EI_Worker 0]) (event_manager_boot int_dbl, 0)) =
   [Lg_Queued 0 False, Lg_Ask 0 False True 1, Lg_Taken 0 0 False, Lg_Queued 0 True, Lg_Ask 0 True True 1,
    Lg_Taken 1 0 True, Lg_Worked 1 0 True True, Lg_Worked 0 0 False True]"
  by code_simp

text \<open>A value that does not fit is cut, and the text counts as rendered.\<close>

lemma template_cuts_value:
  "em_template_render int_dbl (Some ''${name}'') (Some ((example_reading 0)\<lparr>ev_name := ''temperature''\<rparr>)) None 5 = Some ''temp''"
  by code_simp

end
