(* ===== verification/Log_Ring.thy ===== *)
theory Log_Ring
  imports Crc
begin

text \<open>
  \<^verbatim>\<open>components/log_manager/log_manager_ring.c\<close>: the ring of log text in memory that survives a
  reset. The header has a checksum; the 64 bytes before it that the code leaves out of the checksum
  are left out here. The buffer is a list of the ring's size. \<open>size_t\<close> and \<open>uint32_t\<close> are 32
  bits wide.
\<close>

abbreviation (input) LM_RING_MAGIC :: u32 where "LM_RING_MAGIC \<equiv> 0x4C4D5247"
abbreviation (input) LM_RING_VERSION :: u32 where "LM_RING_VERSION \<equiv> 1"

record lm_ring_hdr =
  g_magic :: u32
  g_version :: u32
  g_size :: u32
  g_head :: u32
  g_used :: u32
  g_crc32 :: u32

definition u32_bytes :: "u32 \<Rightarrow> bytes" where
  "u32_bytes w = [byte_of 0 w, byte_of 1 w, byte_of 2 w, byte_of 3 w]"

text \<open>The header from its magic to the checksum, little endian.\<close>

definition ring_bytes :: "lm_ring_hdr \<Rightarrow> bytes" where
  "ring_bytes h = u32_bytes (g_magic h) @ u32_bytes (g_version h) @ u32_bytes (g_size h) @ u32_bytes (g_head h) @ u32_bytes (g_used h)"

definition lm_ring_crc :: "lm_ring_hdr \<Rightarrow> u32" where
  "lm_ring_crc h = crc32 (ring_bytes h)"

definition lm_ring_valid :: "lm_ring_hdr \<Rightarrow> u32 \<Rightarrow> bool" where
  "lm_ring_valid h expect_size \<longleftrightarrow>
     g_magic h = LM_RING_MAGIC \<and> g_version h = LM_RING_VERSION \<and> g_size h = expect_size \<and>
     g_head h < g_size h \<and> g_used h \<le> g_size h \<and> lm_ring_crc h = g_crc32 h"

definition lm_ring_reset :: "u32 \<Rightarrow> lm_ring_hdr" where
  "lm_ring_reset sz =
     (let h = \<lparr>g_magic = LM_RING_MAGIC, g_version = LM_RING_VERSION, g_size = sz, g_head = 0, g_used = 0, g_crc32 = 0\<rparr>
      in h\<lparr>g_crc32 := lm_ring_crc h\<rparr>)"

text \<open>\<open>memcpy\<close> to a place of the buffer is \<open>blit\<close>.\<close>

definition lm_ring_append :: "lm_ring_hdr \<Rightarrow> bytes \<Rightarrow> bytes \<Rightarrow> lm_ring_hdr \<times> bytes" where
  "lm_ring_append h buf data0 =
     (if data0 = [] then (h, buf)
      else
        let data = (if length data0 > unat (g_size h) then drop (length data0 - unat (g_size h)) data0 else data0);
            len = of_nat (length data) :: u32;
            room = g_size h - g_head h;
            buf' = (if len \<le> room then blit (unat (g_head h)) data buf
                    else blit 0 (drop (unat room) data) (blit (unat (g_head h)) (take (unat room) data) buf));
            h1 = h\<lparr>g_head := (g_head h + len) mod g_size h,
                   g_used := (if g_used h + len > g_size h then g_size h else g_used h + len)\<rparr>
        in (h1\<lparr>g_crc32 := lm_ring_crc h1\<rparr>, buf'))"

definition lm_ring_read :: "lm_ring_hdr \<Rightarrow> bytes \<Rightarrow> nat \<Rightarrow> bytes" where
  "lm_ring_read h buf out_len =
     (let n = (if unat (g_used h) < out_len then g_used h else of_nat out_len) in
      if n = 0 then []
      else
        let start = (g_head h + g_size h - n) mod g_size h;
            room = g_size h - start
        in if n \<le> room then take (unat n) (drop (unat start) buf)
           else take (unat room) (drop (unat start) buf) @ take (unat n - unat room) buf)"

section \<open>The ring holds the newest bytes\<close>

text \<open>The buffer in the order of time: the oldest byte is at the head.\<close>

definition ring_order :: "nat \<Rightarrow> 'a list \<Rightarrow> 'a list" where
  "ring_order h buf = drop h buf @ take h buf"

lemma length_ring_order [simp]: "length (ring_order h buf) = length buf"
  by (simp add: ring_order_def)

lemma order_write:
  assumes "h < length buf" "h + length data \<le> length buf"
  shows "ring_order ((h + length data) mod length buf) (blit h data buf) = drop (length data) (ring_order h buf) @ data"
proof (cases "h + length data = length buf")
  case True
  then show ?thesis using assms by (simp add: ring_order_def blit_def)
next
  case False
  then show ?thesis using assms by (simp add: ring_order_def blit_def add.commute)
qed

lemma order_wrap:
  assumes "h < length buf" "length buf < h + length data" "length data \<le> length buf"
  defines "room \<equiv> length buf - h"
  shows "ring_order ((h + length data) mod length buf) (blit 0 (drop room data) (blit h (take room data) buf)) =
    drop (length data) (ring_order h buf) @ data"
proof -
  have m: "(h + length data) mod length buf = h + length data - length buf"
    using assms by (simp add: mod_if le_mod_geq)
  have "blit h (take room data) buf = take h buf @ take room data" using assms by (simp add: blit_def room_def)
  then have "blit 0 (drop room data) (blit h (take room data) buf) =
      drop room data @ drop (length data - room) (take h buf @ take room data)"
    by (simp add: blit_def)
  moreover have "length data - room \<le> h" "room \<le> length data" using assms by (simp_all add: room_def)
  moreover have "h + length data - length buf = length data - room" using assms by (simp add: room_def)
  ultimately show ?thesis unfolding m ring_order_def using assms by (simp add: room_def min_def)
qed

lemma order_read:
  assumes "h < length buf" "0 < n" "n \<le> length buf"
  defines "start \<equiv> (h + length buf - n) mod length buf"
  shows "(if n \<le> length buf - start then take n (drop start buf)
          else take (length buf - start) (drop start buf) @ take (n - (length buf - start)) buf) =
    drop (length buf - n) (ring_order h buf)"
proof (cases "n \<le> h")
  case True
  then have "start = h - n" using assms by (simp add: start_def mod_if)
  then show ?thesis using True assms by (simp add: ring_order_def drop_take)
next
  case False
  then have "start = h + length buf - n" using assms by (simp add: start_def)
  then show ?thesis using False assms by (auto simp: ring_order_def add.commute)
qed

definition newest :: "nat \<Rightarrow> 'a list \<Rightarrow> 'a list" where
  "newest n xs = drop (length xs - n) xs"

lemma newest_long: "length ys \<le> n \<Longrightarrow> newest n (xs @ ys) = newest (n - length ys) xs @ ys"
  by (simp add: newest_def add.commute)

lemma newest_short: "n \<le> length ys \<Longrightarrow> newest n (xs @ ys) = newest n ys"
  by (simp add: newest_def)

lemma newest_newest: "n \<le> m \<Longrightarrow> newest n (newest m xs) = newest n xs"
  by (cases "length xs \<le> m") (auto simp: newest_def)

lemma newest_drop: "n + k \<le> length xs \<Longrightarrow> newest n (drop k xs) = newest n xs"
  by (simp add: newest_def)

text \<open>The abstract log: the last bytes of everything written, as many as the ring has room for.\<close>

definition ring_holds :: "lm_ring_hdr \<Rightarrow> bytes \<Rightarrow> bytes \<Rightarrow> bool" where
  "ring_holds h buf log \<longleftrightarrow>
     lm_ring_valid h (g_size h) \<and> 0 < g_size h \<and> unat (g_size h) < 2 ^ 31 \<and> length buf = unat (g_size h) \<and>
     unat (g_used h) = min (length log) (unat (g_size h)) \<and>
     newest (unat (g_used h)) (ring_order (unat (g_head h)) buf) = newest (unat (g_used h)) log"

lemma crc_keeps [simp]: "lm_ring_crc (h\<lparr>g_crc32 := c\<rparr>) = lm_ring_crc h"
  by (simp add: lm_ring_crc_def ring_bytes_def)

lemma holds_reset:
  assumes "0 < sz" "unat sz < 2 ^ 31" "length buf = unat sz"
  shows "ring_holds (lm_ring_reset sz) buf []"
  using assms by (simp add: ring_holds_def lm_ring_valid_def lm_ring_reset_def Let_def newest_def lm_ring_crc_def ring_bytes_def)

lemma holds_append:
  assumes "ring_holds h buf log" "lm_ring_append h buf data = (h', buf')"
  shows "ring_holds h' buf' (log @ data) \<and> g_size h' = g_size h"
proof (cases "data = []")
  case True
  then show ?thesis using assms by (simp add: lm_ring_append_def)
next
  case False
  let ?S = "unat (g_size h)" and ?H = "unat (g_head h)" and ?U = "unat (g_used h)"
  define d where "d = (if length data > ?S then drop (length data - ?S) data else data)"
  let ?L = "length d"
  have inv: "?H < ?S" "?U = min (length log) ?S" "length buf = ?S" "?S < 2 ^ 31" "lm_ring_valid h (g_size h)"
    using assms(1) by (simp_all add: ring_holds_def lm_ring_valid_def word_less_nat_alt)
  have same: "newest ?U (ring_order ?H buf) = newest ?U log" using assms(1) unfolding ring_holds_def by blast
  have L: "?L \<le> ?S" "?L = min (length data) ?S" by (simp_all add: d_def)
  have len: "unat (of_nat ?L :: u32) = ?L" using L(1) inv(4) by (intro unat_of_nat_small) simp
  have room: "unat (g_size h - g_head h) = ?S - ?H" using inv(1) by (simp add: unat_sub word_le_nat_alt)
  have head: "unat ((g_head h + of_nat ?L) mod g_size h) = (?H + ?L) mod ?S"
    using inv L(1) len by (simp add: unat_mod unat_word_ariths)
  have used: "unat (if g_used h + of_nat ?L > g_size h then g_size h else g_used h + of_nat ?L) = min (?U + ?L) ?S"
    using inv L(1) len by (auto simp: word_less_nat_alt unat_word_ariths)
  define buf1 where "buf1 = (if of_nat ?L \<le> g_size h - g_head h then blit ?H d buf
      else blit 0 (drop (?S - ?H) d) (blit ?H (take (?S - ?H) d) buf))"
  have out: "h' = (let h1 = h\<lparr>g_head := (g_head h + of_nat ?L) mod g_size h,
      g_used := (if g_used h + of_nat ?L > g_size h then g_size h else g_used h + of_nat ?L)\<rparr> in h1\<lparr>g_crc32 := lm_ring_crc h1\<rparr>)"
    "buf' = buf1"
    using assms(2) False unfolding lm_ring_append_def Let_def d_def [symmetric] buf1_def room by simp_all
  have order: "ring_order ((?H + ?L) mod ?S) buf1 = drop ?L (ring_order ?H buf) @ d"
    using order_write [of ?H buf d] order_wrap [of ?H buf d] inv(1,3) L(1) len room
    by (auto simp: buf1_def word_le_nat_alt)
  have "length buf1 = ?S" using arg_cong [OF order, where f = length] inv(3) L(1) by simp
  moreover have "min (?U + ?L) ?S = min (length (log @ data)) ?S" using inv(2) L by simp
  moreover have "newest (min (?U + ?L) ?S) (drop ?L (ring_order ?H buf) @ d) = newest (min (?U + ?L) ?S) (log @ data)"
  proof -
    define n where "n = min (?U + ?L) ?S"
    have n: "?L \<le> n" "n - ?L \<le> ?U" "n - ?L + ?L \<le> ?S" using L(1) by (simp_all add: n_def)
    have "newest (n - ?L) (drop ?L (ring_order ?H buf)) = newest (n - ?L) log"
      using newest_drop [of "n - ?L" ?L "ring_order ?H buf"] newest_newest [OF n(2), of "ring_order ?H buf"] newest_newest [OF n(2), of log]
        n(3) inv(3) same by simp
    then have "newest n (drop ?L (ring_order ?H buf) @ d) = newest (n - ?L) log @ d" using n(1) by (simp add: newest_long)
    also have "\<dots> = newest n (log @ data)"
    proof (cases "length data > ?S")
      case True
      then have "n = ?S" "?L = ?S" by (simp_all add: n_def d_def)
      with True show ?thesis by (simp add: newest_short) (simp add: newest_def d_def)
    next
      case False
      then show ?thesis using n(1) by (simp add: newest_long d_def)
    qed
    finally show ?thesis unfolding n_def .
  qed
  moreover have "lm_ring_valid h' (g_size h)"
    using inv(1,5) head used unfolding out(1) Let_def lm_ring_valid_def
    by (simp add: word_less_nat_alt word_le_nat_alt)
  moreover have "0 < g_size h" using inv(1) by (simp add: word_less_nat_alt)
  ultimately show ?thesis using inv order head used by (simp add: out Let_def ring_holds_def)
qed


lemma read_newest:
  assumes "ring_holds h buf log"
  shows "lm_ring_read h buf out_len = newest (min out_len (unat (g_size h))) log"
proof -
  let ?S = "unat (g_size h)" and ?H = "unat (g_head h)" and ?U = "unat (g_used h)"
  have inv: "?H < ?S" "?U = min (length log) ?S" "length buf = ?S" "?S < 2 ^ 31"
    using assms by (simp_all add: ring_holds_def lm_ring_valid_def word_less_nat_alt)
  have same: "newest ?U (ring_order ?H buf) = newest ?U log" using assms unfolding ring_holds_def by blast
  define n where "n = min out_len ?U"
  have "n \<le> ?U" by (simp add: n_def)
  then have nS: "n \<le> ?S" "n \<le> ?U" using inv(2) by linarith+
  have w: "unat (if ?U < out_len then g_used h else of_nat out_len) = n"
  proof (cases "?U < out_len")
    case False
    then have "out_len \<le> ?S" using inv(2) by linarith
    then have "out_len < 2 ^ 32" using inv(4) by simp
    then have "unat (of_nat out_len :: u32) = out_len" by (intro unat_of_nat_small) simp
    with False show ?thesis by (simp add: n_def)
  qed (simp add: n_def)
  have "lm_ring_read h buf out_len = newest n (ring_order ?H buf)"
  proof (cases "n = 0")
    case True
    then show ?thesis using w by (simp add: lm_ring_read_def Let_def unat_eq_0 newest_def)
  next
    case False
    define m where "m = (if ?U < out_len then g_used h else of_nat out_len)"
    have m: "unat m = n" "m \<noteq> 0" using w False by (auto simp: m_def)
    have start: "unat ((g_head h + g_size h - m) mod g_size h) = (?H + ?S - n) mod ?S"
      using inv nS(1) m by (simp add: unat_mod unat_word_ariths unat_sub_if')
    define s where "s = (g_head h + g_size h - m) mod g_size h"
    have s: "unat s < ?S" unfolding s_def start using inv(1) by simp
    then have room: "unat (g_size h - s) = ?S - unat s" by (simp add: unat_sub word_le_nat_alt)
    have "lm_ring_read h buf out_len = (if n \<le> ?S - unat s then take n (drop (unat s) buf)
        else take (?S - unat s) (drop (unat s) buf) @ take (n - (?S - unat s)) buf)"
      using m room by (simp add: lm_ring_read_def Let_def m_def [symmetric] s_def [symmetric] word_le_nat_alt)
    also have "\<dots> = drop (?S - n) (ring_order ?H buf)"
      using order_read [of ?H buf n] inv(1) False nS(1) unfolding inv(3) s_def start by (simp split del: if_split)
    finally show ?thesis by (simp add: newest_def inv(3))
  qed
  also have "\<dots> = newest n log" using newest_newest [OF nS(2), of "ring_order ?H buf"] newest_newest [OF nS(2), of log] same by simp
  also have "\<dots> = newest (min out_len ?S) log" using inv(2) by (simp add: newest_def n_def min_def)
  finally show ?thesis .
qed

definition write_step :: "bytes \<Rightarrow> lm_ring_hdr \<times> bytes \<Rightarrow> lm_ring_hdr \<times> bytes" where
  "write_step data = (\<lambda>(h, buf). lm_ring_append h buf data)"

lemma holds_writes:
  "ring_holds h buf log \<Longrightarrow> fold write_step ws (h, buf) = (h', buf') \<Longrightarrow> ring_holds h' buf' (log @ concat ws) \<and> g_size h' = g_size h"
proof (induction ws arbitrary: h buf log)
  case (Cons d ws)
  obtain h1 buf1 where 1: "lm_ring_append h buf d = (h1, buf1)" by (metis surj_pair)
  then show ?case using Cons.IH [of h1 buf1 "log @ d"] Cons.prems holds_append [OF Cons.prems(1) 1] by (simp add: write_step_def)
qed simp

text \<open>C23. After any writes to a ring that has been reset, it is valid and a read gives the newest
  bytes of everything written, as many as were asked for and fit.\<close>

theorem log_ring_keeps_newest:
  assumes "0 < sz" "unat sz < 2 ^ 31" "length buf0 = unat sz"
    and "fold write_step ws (lm_ring_reset sz, buf0) = (h, buf)"
  shows "lm_ring_valid h sz \<and> lm_ring_read h buf out_len = newest (min out_len (unat sz)) (concat ws)"
proof -
  have "ring_holds h buf (concat ws) \<and> g_size h = sz"
    using holds_writes [OF holds_reset [OF assms(1-3)] assms(4)] by (simp add: lm_ring_reset_def Let_def)
  then show ?thesis using read_newest [of h buf "concat ws" out_len] by (auto simp: ring_holds_def)
qed

lemma log_ring_keeps_newest_witness:
  "lm_ring_read (fst (fold write_step [[1, 2, 3], [4, 5]] (lm_ring_reset 4, [9, 9, 9, 9])))
     (snd (fold write_step [[1, 2, 3], [4, 5]] (lm_ring_reset 4, [9, 9, 9, 9]))) 3 = [3, 4, 5]"
proof -
  have "newest (min 3 (unat (4 :: u32))) (concat [[1, 2, 3], [4, 5]]) = [3, 4, 5 :: u8]" by (simp add: newest_def)
  then show ?thesis
    using log_ring_keeps_newest [of 4 "[9, 9, 9, 9]" "[[1, 2, 3], [4, 5]]" _ _ 3, OF _ _ _ surjective_pairing] by simp
qed

end
