(* ===== verification/RealDash.thy ===== *)
theory RealDash
  imports CAN_Wire Crc
begin

text \<open>
  \<^verbatim>\<open>components/translator_realdash/translator_realdash_codec.c\<close>: the translator of a bridge for
  RealDash. \<open>decode\<close> turns chunks of frames into records with a CRC, \<open>encode\<close> collects records of
  two kinds from a stream, drops those whose checksum is wrong and sends the others. The sink is a
  function on a state \<open>'k\<close> that is threaded through and says whether it took the bytes. \<open>buf\<close> of the
  context holds the bytes collected, \<open>len\<close> is their number.
\<close>

type_synonym 'k rd_out = "bytes \<Rightarrow> 'k \<Rightarrow> 'k \<times> bool"

abbreviation (input) RD66_LEN :: nat where "RD66_LEN \<equiv> 20"
abbreviation (input) RD44_LEN :: nat where "RD44_LEN \<equiv> 17"

record realdash_ctx =
  rd_buf :: bytes
  rd_expected :: nat

section \<open>Checksums\<close>

definition rd_table :: "u32 list" where
  "rd_table = [
    0x00000000, 0x77073096, 0xEE0E612C, 0x990951BA, 0x076DC419, 0x706AF48F, 0xE963A535,
    0x9E6495A3, 0x0EDB8832, 0x79DCB8A4, 0xE0D5E91E, 0x97D2D988, 0x09B64C2B, 0x7EB17CBD,
    0xE7B82D07, 0x90BF1D91, 0x1DB71064, 0x6AB020F2, 0xF3B97148, 0x84BE41DE, 0x1ADAD47D,
    0x6DDDE4EB, 0xF4D4B551, 0x83D385C7, 0x136C9856, 0x646BA8C0, 0xFD62F97A, 0x8A65C9EC,
    0x14015C4F, 0x63066CD9, 0xFA0F3D63, 0x8D080DF5, 0x3B6E20C8, 0x4C69105E, 0xD56041E4,
    0xA2677172, 0x3C03E4D1, 0x4B04D447, 0xD20D85FD, 0xA50AB56B, 0x35B5A8FA, 0x42B2986C,
    0xDBBBC9D6, 0xACBCF940, 0x32D86CE3, 0x45DF5C75, 0xDCD60DCF, 0xABD13D59, 0x26D930AC,
    0x51DE003A, 0xC8D75180, 0xBFD06116, 0x21B4F4B5, 0x56B3C423, 0xCFBA9599, 0xB8BDA50F,
    0x2802B89E, 0x5F058808, 0xC60CD9B2, 0xB10BE924, 0x2F6F7C87, 0x58684C11, 0xC1611DAB,
    0xB6662D3D, 0x76DC4190, 0x01DB7106, 0x98D220BC, 0xEFD5102A, 0x71B18589, 0x06B6B51F,
    0x9FBFE4A5, 0xE8B8D433, 0x7807C9A2, 0x0F00F934, 0x9609A88E, 0xE10E9818, 0x7F6A0DBB,
    0x086D3D2D, 0x91646C97, 0xE6635C01, 0x6B6B51F4, 0x1C6C6162, 0x856530D8, 0xF262004E,
    0x6C0695ED, 0x1B01A57B, 0x8208F4C1, 0xF50FC457, 0x65B0D9C6, 0x12B7E950, 0x8BBEB8EA,
    0xFCB9887C, 0x62DD1DDF, 0x15DA2D49, 0x8CD37CF3, 0xFBD44C65, 0x4DB26158, 0x3AB551CE,
    0xA3BC0074, 0xD4BB30E2, 0x4ADFA541, 0x3DD895D7, 0xA4D1C46D, 0xD3D6F4FB, 0x4369E96A,
    0x346ED9FC, 0xAD678846, 0xDA60B8D0, 0x44042D73, 0x33031DE5, 0xAA0A4C5F, 0xDD0D7CC9,
    0x5005713C, 0x270241AA, 0xBE0B1010, 0xC90C2086, 0x5768B525, 0x206F85B3, 0xB966D409,
    0xCE61E49F, 0x5EDEF90E, 0x29D9C998, 0xB0D09822, 0xC7D7A8B4, 0x59B33D17, 0x2EB40D81,
    0xB7BD5C3B, 0xC0BA6CAD, 0xEDB88320, 0x9ABFB3B6, 0x03B6E20C, 0x74B1D29A, 0xEAD54739,
    0x9DD277AF, 0x04DB2615, 0x73DC1683, 0xE3630B12, 0x94643B84, 0x0D6D6A3E, 0x7A6A5AA8,
    0xE40ECF0B, 0x9309FF9D, 0x0A00AE27, 0x7D079EB1, 0xF00F9344, 0x8708A3D2, 0x1E01F268,
    0x6906C2FE, 0xF762575D, 0x806567CB, 0x196C3671, 0x6E6B06E7, 0xFED41B76, 0x89D32BE0,
    0x10DA7A5A, 0x67DD4ACC, 0xF9B9DF6F, 0x8EBEEFF9, 0x17B7BE43, 0x60B08ED5, 0xD6D6A3E8,
    0xA1D1937E, 0x38D8C2C4, 0x4FDFF252, 0xD1BB67F1, 0xA6BC5767, 0x3FB506DD, 0x48B2364B,
    0xD80D2BDA, 0xAF0A1B4C, 0x36034AF6, 0x41047A60, 0xDF60EFC3, 0xA867DF55, 0x316E8EEF,
    0x4669BE79, 0xCB61B38C, 0xBC66831A, 0x256FD2A0, 0x5268E236, 0xCC0C7795, 0xBB0B4703,
    0x220216B9, 0x5505262F, 0xC5BA3BBE, 0xB2BD0B28, 0x2BB45A92, 0x5CB36A04, 0xC2D7FFA7,
    0xB5D0CF31, 0x2CD99E8B, 0x5BDEAE1D, 0x9B64C2B0, 0xEC63F226, 0x756AA39C, 0x026D930A,
    0x9C0906A9, 0xEB0E363F, 0x72076785, 0x05005713, 0x95BF4A82, 0xE2B87A14, 0x7BB12BAE,
    0x0CB61B38, 0x92D28E9B, 0xE5D5BE0D, 0x7CDCEFB7, 0x0BDBDF21, 0x86D3D2D4, 0xF1D4E242,
    0x68DDB3F8, 0x1FDA836E, 0x81BE16CD, 0xF6B9265B, 0x6FB077E1, 0x18B74777, 0x88085AE6,
    0xFF0F6A70, 0x66063BCA, 0x11010B5C, 0x8F659EFF, 0xF862AE69, 0x616BFFD3, 0x166CCF45,
    0xA00AE278, 0xD70DD2EE, 0x4E048354, 0x3903B3C2, 0xA7672661, 0xD06016F7, 0x4969474D,
    0x3E6E77DB, 0xAED16A4A, 0xD9D65ADC, 0x40DF0B66, 0x37D83BF0, 0xA9BCAE53, 0xDEBB9EC5,
    0x47B2CF7F, 0x30B5FFE9, 0xBDBDF21C, 0xCABAC28A, 0x53B39330, 0x24B4A3A6, 0xBAD03605,
    0xCDD70693, 0x54DE5729, 0x23D967BF, 0xB3667A2E, 0xC4614AB8, 0x5D681B02, 0x2A6F2B94,
    0xB40BBE37, 0xC30C8EA1, 0x5A05DF1B, 0x2D02EF8D]"

definition rd_crc32 :: "bytes \<Rightarrow> u32" where
  "rd_crc32 data =
     foldl (\<lambda>crc b. drop_bit 8 crc XOR rd_table ! unat ((crc XOR ucast b) AND 0xFF)) 0xFFFFFFFF data XOR 0xFFFFFFFF"

definition rd_chksum8 :: "bytes \<Rightarrow> u8" where
  "rd_chksum8 buf = ucast (foldl (\<lambda>s b. s + ucast b) (0 :: u32) buf)"

section \<open>Frames to records\<close>

definition rd_ctx_init :: realdash_ctx where
  "rd_ctx_init = \<lparr>rd_buf = [], rd_expected = 0\<rparr>"

definition rd_record :: "can_core_frame \<Rightarrow> bytes" where
  "rd_record f =
     (let out = [0x66, 0x33, 0x22, 0x11, byte_of 0 (f_id f), byte_of 1 (f_id f), byte_of 2 (f_id f), byte_of 3 (f_id f)] @
                blit 0 (take (if f_dlc f > 8 then 8 else unat (f_dlc f)) (f_data f)) (replicate 8 0);
          crc = rd_crc32 out
      in out @ [byte_of 0 crc, byte_of 1 crc, byte_of 2 crc, byte_of 3 crc])"

function rd_decode :: "'k rd_out \<Rightarrow> bytes \<Rightarrow> 'k \<Rightarrow> 'k \<times> bool" where
  "rd_decode sink d st =
     (case can_wire_decode_next d of
        None \<Rightarrow> (st, True)
      | Some (f, n) \<Rightarrow>
          (case sink (rd_record f) st of
             (st1, ok) \<Rightarrow> if \<not> ok then (st1, False) else rd_decode sink (drop n d) st1))"
  by pat_completeness auto
termination
  by (relation "measure (\<lambda>(_, d, _). length d)")
    (auto simp: can_wire_decode_next_def split: if_splits option.splits)

declare rd_decode.simps [simp del]

section \<open>Records to frames\<close>

definition rd_valid :: "bytes \<Rightarrow> bool" where
  "rd_valid b =
     (if b ! 0 = 0x66 \<and> length b = RD66_LEN then
        (let crc = rd_crc32 (take 16 b)
         in b ! 16 = byte_of 0 crc \<and> b ! 17 = byte_of 1 crc \<and> b ! 18 = byte_of 2 crc \<and> b ! 19 = byte_of 3 crc)
      else if b ! 0 = 0x44 \<and> length b = RD44_LEN then rd_chksum8 (take (RD44_LEN - 1) b) = b ! (RD44_LEN - 1)
      else False)"

definition rd_frame :: "bytes \<Rightarrow> can_core_frame" where
  "rd_frame b =
     (let i = le32 (b ! 4) (b ! 5) (b ! 6) (b ! 7)
      in \<lparr>f_id = i, f_ext = (i AND 0x1FFFF800 \<noteq> 0), f_rtr = False, f_dlc = 8, f_data = take 8 (drop 8 b), f_ts_us = 0\<rparr>)"

definition rd_emit :: "'k rd_out \<Rightarrow> bytes \<Rightarrow> 'k \<Rightarrow> 'k \<times> bool" where
  "rd_emit sink b st = (if \<not> rd_valid b then (st, True) else sink (can_wire_encode (rd_frame b)) st)"

definition rd_start :: "u8 \<Rightarrow> realdash_ctx \<Rightarrow> realdash_ctx" where
  "rd_start b c =
     (if b = 0x66 then \<lparr>rd_buf = [b], rd_expected = RD66_LEN\<rparr>
      else if b = 0x44 then \<lparr>rd_buf = [b], rd_expected = RD44_LEN\<rparr>
      else c\<lparr>rd_buf := []\<rparr>)"

definition rd_byte :: "'k rd_out \<Rightarrow> u8 \<Rightarrow> realdash_ctx \<times> 'k \<Rightarrow> (realdash_ctx \<times> 'k) \<times> bool" where
  "rd_byte sink b = (\<lambda>(c, st).
     let len = length (rd_buf c) in
     if len = 0 then ((rd_start b c, st), True)
     else if len = 1 \<and> b \<noteq> 0x33 \<or> len = 2 \<and> b \<noteq> 0x22 \<or> len = 3 \<and> b \<noteq> 0x11 then ((rd_start b c, st), True)
     else
       let buf = rd_buf c @ [b] in
       if length buf \<ge> rd_expected c then
         (case rd_emit sink buf st of (st1, ok) \<Rightarrow> ((\<lparr>rd_buf = [], rd_expected = 0\<rparr>, st1), ok))
       else ((c\<lparr>rd_buf := buf\<rparr>, st), True))"

fun rd_encode :: "'k rd_out \<Rightarrow> bytes \<Rightarrow> realdash_ctx \<times> 'k \<Rightarrow> (realdash_ctx \<times> 'k) \<times> bool" where
  "rd_encode sink [] s = (s, True)"
| "rd_encode sink (b # bs) s =
     (case rd_byte sink b s of (s1, ok) \<Rightarrow> if \<not> ok then (s1, False) else rd_encode sink bs s1)"

section \<open>The table is the CRC\<close>

lemma crc_bit_xor: "crc_bit (a XOR b) = crc_bit a XOR crc_bit b"
proof -
  have m: "(0 - (x AND 1) :: u32) = (if bit x 0 then - 1 else 0)" for x
    by (auto simp: and_one_eq mod_2_eq_odd bit_0)
  show ?thesis unfolding crc_bit_def m by (rule bit_word_eqI) (auto simp: bit_simps)
qed

lemma crc_bits_xor: "(crc_bit ^^ n) (a XOR b) = (crc_bit ^^ n) a XOR (crc_bit ^^ n) b"
  by (induction n) (simp_all add: crc_bit_xor)

lemma crc_bits_high: "take_bit n x = 0 \<Longrightarrow> (crc_bit ^^ n) x = drop_bit n x"
proof (induction n arbitrary: x)
  case (Suc n)
  have "\<not> bit (take_bit (Suc n) x) 0" using Suc.prems by simp
  then have "x AND 1 = 0" by (simp add: bit_take_bit_iff and_one_eq bit_0 mod_2_eq_odd)
  then have "crc_bit x = drop_bit 1 x" by (simp add: crc_bit_def)
  moreover have "take_bit n (drop_bit 1 x) = 0"
    using arg_cong [OF Suc.prems, where f = "drop_bit 1"] by (simp add: take_bit_drop_bit)
  ultimately show ?case using Suc.IH [of "drop_bit 1 x"] by (simp add: funpow_swap1)
qed simp

text \<open>All XORs of a basis.\<close>

fun xor_span :: "u32 list \<Rightarrow> u32 list" where
  "xor_span [] = [0]"
| "xor_span (b # bs) = xor_span bs @ map ((XOR) b) (xor_span bs)"

lemma crc_bit_cases: "crc_bit x = (if odd x then drop_bit 1 x XOR 0xEDB88320 else drop_bit 1 x)"
  by (auto simp: crc_bit_def and_one_eq mod_2_eq_odd)

lemma crc_bit_chain:
  "crc_bit 1 = 0xEDB88320" "crc_bit 0xEDB88320 = 0x76DC4190" "crc_bit 0x76DC4190 = 0x3B6E20C8" "crc_bit 0x3B6E20C8 = 0x1DB71064"
  "crc_bit 0x1DB71064 = 0x0EDB8832" "crc_bit 0x0EDB8832 = 0x076DC419" "crc_bit 0x076DC419 = 0xEE0E612C" "crc_bit 0xEE0E612C = 0x77073096"
  by (simp_all add: crc_bit_cases)

lemma basis_shift: "k < 8 \<Longrightarrow> (crc_bit ^^ 8) (2 ^ k) = (crc_bit ^^ (8 - k)) 1"
proof -
  assume k: "k < 8"
  have "(crc_bit ^^ k) (2 ^ k) = 1"
  proof -
    have "take_bit k (push_bit k 1) = (0 :: u32)" by (rule bit_word_eqI) (auto simp: bit_simps)
    moreover have "drop_bit k (push_bit k 1) = (1 :: u32)" using k by (intro bit_word_eqI) (auto simp: bit_simps)
    ultimately show ?thesis using crc_bits_high [of k "push_bit k 1"] by simp
  qed
  then show ?thesis using k funpow_add [of "8 - k" k crc_bit] by simp
qed

lemma crc_powers:
  "(crc_bit ^^ 1) 1 = 0xEDB88320" "(crc_bit ^^ 2) 1 = 0x76DC4190" "(crc_bit ^^ 3) 1 = 0x3B6E20C8" "(crc_bit ^^ 4) 1 = 0x1DB71064" "(crc_bit ^^ 5) 1 = 0x0EDB8832" "(crc_bit ^^ 6) 1 = 0x076DC419" "(crc_bit ^^ 7) 1 = 0xEE0E612C" "(crc_bit ^^ 8) 1 = 0x77073096"
  by (simp_all add: eval_nat_numeral crc_bit_chain)

lemma basis_values:
  "map (\<lambda>k. (crc_bit ^^ 8) (2 ^ k)) [7, 6, 5, 4, 3, 2, 1, 0] =
     [0xEDB88320, 0x76DC4190, 0x3B6E20C8, 0x1DB71064, 0x0EDB8832, 0x076DC419, 0xEE0E612C, 0x77073096]"
  by (simp add: basis_shift [of 7, simplified] basis_shift [of 6, simplified] basis_shift [of 5, simplified] basis_shift [of 4, simplified] basis_shift [of 3, simplified] basis_shift [of 2, simplified] basis_shift [of 1, simplified] crc_powers [simplified])

lemma table_span: "rd_table = xor_span [0xEDB88320, 0x76DC4190, 0x3B6E20C8, 0x1DB71064, 0x0EDB8832, 0x076DC419, 0xEE0E612C, 0x77073096]"
  by (simp add: rd_table_def)


lemma length_xor_span [simp]: "length (xor_span bs) = 2 ^ length bs"
  by (induction bs) simp_all

lemma xor_span_nth:
  assumes linear: "\<And>a b. f (a XOR b) = f a XOR f b" and "n \<le> 8" "i < 2 ^ n"
  shows "xor_span (map (\<lambda>k. f (2 ^ k)) (rev [0..<n])) ! i = f (of_nat i :: u32)"
  using assms(2,3)
proof (induction n arbitrary: i)
  case 0
  have "f 0 = f (0 XOR 0)" by simp
  then show ?case using 0 linear [of 0 0] by simp
next
  case (Suc n)
  show ?case
  proof (cases "i < 2 ^ n")
    case True
    then show ?thesis using Suc by (simp add: nth_append)
  next
    case False
    define j where "j = i - 2 ^ n"
    have j: "j < 2 ^ n" "i = 2 ^ n + j" using False Suc.prems by (simp_all add: j_def)
    have small: "n < 32" "unat (of_nat j :: u32) = j"
      using j(1) Suc.prems(1) power_increasing [of n 8 "2 :: nat"] by (simp_all add: unat_of_nat_small)
    have "bit (of_nat j :: u32) k \<Longrightarrow> k < n" for k using bit_bounded [of "of_nat j :: u32" n k] small(2) j(1) by simp
    then have "(2 ^ n :: u32) XOR of_nat j = 2 ^ n + of_nat j"
      by (subst disjunctive_add_eq_xor) (rule bit_word_eqI, auto simp: bit_exp_iff bit_and_iff)
    then have "f (of_nat i) = f (2 ^ n) XOR f (of_nat j)" using linear [of "2 ^ n" "of_nat j"] by (simp add: j(2))
    then show ?thesis using Suc.IH [of j] Suc.prems(1) j by (simp add: nth_append)
  qed
qed

lemma rd_table_nth: "i < 256 \<Longrightarrow> rd_table ! i = (crc_bit ^^ 8) (of_nat i)"
proof -
  assume "i < 256"
  moreover have "rev [0..<8] = [7, 6, 5, 4, 3, 2, 1, 0 :: nat]" by code_simp
  ultimately show ?thesis
    using xor_span_nth [of "crc_bit ^^ 8" 8 i] crc_bits_xor basis_values table_span by (simp del: funpow.simps)
qed

lemma table_step: "drop_bit 8 crc XOR rd_table ! unat ((crc XOR ucast b) AND 0xFF) = crc_byte crc b"
proof -
  define y where "y = crc XOR ucast b"
  have m: "(0xFF :: u32) = mask 8" by (simp add: mask_eq_exp_minus_1)
  have low: "y = (y AND mask 8) XOR (y AND NOT (mask 8))" by (rule bit_word_eqI) (auto simp: bit_simps)
  have high: "take_bit 8 (y AND NOT (mask 8)) = 0" by (rule bit_word_eqI) (auto simp: bit_simps)
  have "unat (y AND mask 8) < 256" using and_mask_less_size [of 8 y] by (simp add: word_less_nat_alt word_size)
  then have "rd_table ! unat (y AND mask 8) = (crc_bit ^^ 8) (y AND mask 8)" by (simp add: rd_table_nth del: funpow.simps)
  moreover have "drop_bit 8 (y AND NOT (mask 8)) = drop_bit 8 crc"
    by (rule bit_word_eqI) (auto simp: bit_simps y_def dest: bit_imp_le_length)
  moreover have "(crc_bit ^^ 8) y = (crc_bit ^^ 8) (y AND mask 8) XOR (crc_bit ^^ 8) (y AND NOT (mask 8))"
    by (subst low) (rule crc_bits_xor)
  ultimately show ?thesis unfolding crc_byte_def y_def [symmetric] m crc_bits_high [OF high] by (simp add: xor.commute)
qed

lemma rd_crc32_is_crc32: "rd_crc32 data = crc32 data"
proof -
  have "x XOR 0xFFFFFFFF = NOT x" for x :: u32
  proof -
    have m: "(0xFFFFFFFF :: u32) = - 1" by simp
    show ?thesis unfolding m by simp
  qed
  then show ?thesis unfolding rd_crc32_def crc32_def table_step by simp
qed


section \<open>A stream of records\<close>

text \<open>What may come over the line: a record with a CRC, one with a sum, and bytes in between that start
  neither. A checksum may be wrong.\<close>

datatype rd_item = RD_66 u32 bytes u32 | RD_44 u32 bytes u8 | RD_Noise u8

definition rd_body :: "u8 \<Rightarrow> u32 \<Rightarrow> bytes \<Rightarrow> bytes" where
  "rd_body h i data = [h, 0x33, 0x22, 0x11, byte_of 0 i, byte_of 1 i, byte_of 2 i, byte_of 3 i] @ data"

fun rd_item_bytes :: "rd_item \<Rightarrow> bytes" where
  "rd_item_bytes (RD_66 i data crc) = rd_body 0x66 i data @ [byte_of 0 crc, byte_of 1 crc, byte_of 2 crc, byte_of 3 crc]"
| "rd_item_bytes (RD_44 i data chk) = rd_body 0x44 i data @ [chk]"
| "rd_item_bytes (RD_Noise b) = [b]"

fun rd_item_ok :: "rd_item \<Rightarrow> bool" where
  "rd_item_ok (RD_66 i data crc) \<longleftrightarrow> length data = 8"
| "rd_item_ok (RD_44 i data chk) \<longleftrightarrow> length data = 8"
| "rd_item_ok (RD_Noise b) \<longleftrightarrow> b \<noteq> 0x66 \<and> b \<noteq> 0x44"

text \<open>The sum of the bytes.\<close>

definition byte_sum :: "bytes \<Rightarrow> u8" where
  "byte_sum bs = sum_list bs"

definition rd_can :: "u32 \<Rightarrow> bytes \<Rightarrow> can_core_frame" where
  "rd_can i data = \<lparr>f_id = i, f_ext = (i AND 0x1FFFF800 \<noteq> 0), f_rtr = False, f_dlc = 8, f_data = data, f_ts_us = 0\<rparr>"

fun rd_item_out :: "rd_item \<Rightarrow> bytes list" where
  "rd_item_out (RD_66 i data crc) = (if crc = crc32 (rd_body 0x66 i data) then [can_wire_encode (rd_can i data)] else [])"
| "rd_item_out (RD_44 i data chk) = (if chk = byte_sum (rd_body 0x44 i data) then [can_wire_encode (rd_can i data)] else [])"
| "rd_item_out (RD_Noise b) = []"

definition rd_collect :: "bytes list rd_out" where
  "rd_collect b st = (st @ [b], True)"

lemma rd_encode_append:
  "rd_encode sink (xs @ ys) s = (case rd_encode sink xs s of (s1, ok) \<Rightarrow> if ok then rd_encode sink ys s1 else (s1, False))"
  by (induction xs arbitrary: s) (auto split: prod.split)

lemma chksum8_sum: "rd_chksum8 buf = byte_sum buf"
proof -
  have "ucast (foldl (\<lambda>s b. s + ucast b) s buf) = (ucast s :: u8) + sum_list buf" for s :: u32
  proof (induction buf arbitrary: s)
    case (Cons b buf)
    have "(ucast (s + ucast b) :: u8) = ucast s + b"
      by (rule word_unat_eq_iff [THEN iffD2]) (simp add: unat_word_ariths unsigned_ucast_eq take_bit_eq_mod mod_mod_cancel mod_simps)
    then show ?case using Cons.IH [of "s + ucast b"] by (simp add: add.assoc)
  qed simp
  then show ?thesis by (simp add: rd_chksum8_def byte_sum_def)
qed

text \<open>The bytes after the magic are collected until the record is complete.\<close>

lemma collect_run:
  "4 \<le> length (rd_buf c) \<Longrightarrow> length (rd_buf c) + length bs < rd_expected c \<Longrightarrow>
     rd_encode sink bs (c, st) = ((c\<lparr>rd_buf := rd_buf c @ bs\<rparr>, st), True)"
proof (induction bs arbitrary: c)
  case (Cons b bs)
  moreover have "rd_buf c \<noteq> []" using Cons.prems(1) by auto
  ultimately show ?case using Cons.IH [of "c\<lparr>rd_buf := rd_buf c @ [b]\<rparr>"] by (simp add: rd_byte_def Let_def)
qed simp

lemma record_run:
  assumes "rd_buf c = []" "h = 0x66 \<and> n = RD66_LEN \<or> h = 0x44 \<and> n = RD44_LEN" "length bs + 5 = n"
  shows "rd_encode sink ([h, 0x33, 0x22, 0x11] @ bs @ [b]) (c, st) =
    (case rd_emit sink ([h, 0x33, 0x22, 0x11] @ bs @ [b]) st of (st1, ok) \<Rightarrow> ((rd_ctx_init, st1), ok))"
proof -
  have head: "rd_encode sink [h, 0x33, 0x22, 0x11] (c, st) = ((\<lparr>rd_buf = [h, 0x33, 0x22, 0x11], rd_expected = n\<rparr>, st), True)"
    using assms(1,2) by (auto simp: rd_byte_def rd_start_def Let_def)
  have body: "rd_encode sink bs (\<lparr>rd_buf = [h, 0x33, 0x22, 0x11], rd_expected = n\<rparr>, st) =
      ((\<lparr>rd_buf = [h, 0x33, 0x22, 0x11] @ bs, rd_expected = n\<rparr>, st), True)"
    using assms(3) by (subst collect_run) simp_all
  have last: "rd_encode sink [b] (\<lparr>rd_buf = [h, 0x33, 0x22, 0x11] @ bs, rd_expected = n\<rparr>, st) =
      (case rd_emit sink ([h, 0x33, 0x22, 0x11] @ bs @ [b]) st of (st1, ok) \<Rightarrow> ((rd_ctx_init, st1), ok))"
    using assms(3) by (auto simp: rd_byte_def Let_def rd_ctx_init_def split: prod.split)
  show ?thesis unfolding rd_encode_append head body last prod.case if_True by (simp split: prod.split)
qed


lemma byte_of_all: "byte_of 0 x = byte_of 0 y \<and> byte_of 1 x = byte_of 1 y \<and> byte_of 2 x = byte_of 2 y \<and> byte_of 3 x = byte_of 3 y \<longleftrightarrow> x = y"
  for x y :: u32
  by (metis One_nat_def le32_byte_of)

lemma rd_frame_body: "length data = 8 \<Longrightarrow> rd_frame (rd_body h i data @ rest) = rd_can i data"
  by (simp add: rd_frame_def rd_can_def rd_body_def)

lemma take_body [simp]: "length data = 8 \<Longrightarrow> take 16 (rd_body h i data @ rest) = rd_body h i data"
  by (simp add: rd_body_def)

lemma length_body [simp]: "length (rd_body h i data) = 8 + length data"
  by (simp add: rd_body_def)

lemma rd_valid_66:
  "length data = 8 \<Longrightarrow> rd_valid (rd_body 0x66 i data @ [byte_of 0 c, byte_of 1 c, byte_of 2 c, byte_of 3 c]) \<longleftrightarrow>
     c = crc32 (rd_body 0x66 i data)"
proof -
  assume data: "length data = 8"
  let ?b = "rd_body 0x66 i data @ [byte_of 0 c, byte_of 1 c, byte_of 2 c, byte_of 3 c]"
  have "?b ! 0 = 0x66" by (simp add: rd_body_def)
  moreover have "?b ! 16 = byte_of 0 c" "?b ! 17 = byte_of 1 c" "?b ! 18 = byte_of 2 c" "?b ! 19 = byte_of 3 c"
    using data by (simp_all add: nth_append)
  ultimately show ?thesis
    using data byte_of_all [of c "crc32 (rd_body 0x66 i data)"] by (simp add: rd_valid_def Let_def rd_crc32_is_crc32)
qed

lemma rd_valid_44:
  "length data = 8 \<Longrightarrow> rd_valid (rd_body 0x44 i data @ [c]) \<longleftrightarrow> c = byte_sum (rd_body 0x44 i data)"
proof -
  assume data: "length data = 8"
  let ?b = "rd_body 0x44 i data @ [c]"
  have "?b ! 0 = 0x44" by (simp add: rd_body_def)
  moreover have "?b ! 16 = c" using data by (simp add: nth_append)
  ultimately show ?thesis using data by (auto simp: rd_valid_def chksum8_sum)
qed

lemma rd_item_run:
  assumes "rd_buf c = []" "rd_item_ok it"
  shows "\<exists>c'. rd_encode rd_collect (rd_item_bytes it) (c, out) = ((c', out @ rd_item_out it), True) \<and> rd_buf c' = []"
proof (cases it)
  case (RD_66 i data crc)
  define b where "b = byte_of 3 crc"
  have bytes: "rd_item_bytes it = [0x66, 0x33, 0x22, 0x11] @
      ([byte_of 0 i, byte_of 1 i, byte_of 2 i, byte_of 3 i] @ data @ [byte_of 0 crc, byte_of 1 crc, byte_of 2 crc]) @ [b]"
    by (simp add: RD_66 rd_body_def b_def)
  have "rd_emit rd_collect (rd_item_bytes it) out = (out @ rd_item_out it, True)"
    using assms(2) RD_66 rd_valid_66 [of data i crc] by (simp add: rd_emit_def rd_collect_def rd_frame_body)
  then show ?thesis unfolding bytes using assms RD_66 by (subst record_run) (simp_all add: rd_ctx_init_def)
next
  case (RD_44 i data chk)
  have bytes: "rd_item_bytes it = [0x44, 0x33, 0x22, 0x11] @ ([byte_of 0 i, byte_of 1 i, byte_of 2 i, byte_of 3 i] @ data) @ [chk]"
    by (simp add: RD_44 rd_body_def)
  have "rd_emit rd_collect (rd_item_bytes it) out = (out @ rd_item_out it, True)"
    using assms(2) RD_44 rd_valid_44 [of data i chk] by (simp add: rd_emit_def rd_collect_def rd_frame_body)
  then show ?thesis unfolding bytes using assms RD_44 by (subst record_run) (simp_all add: rd_ctx_init_def)
next
  case (RD_Noise b)
  then show ?thesis using assms by (simp add: rd_byte_def rd_start_def)
qed

lemma rd_items_run:
  "rd_buf c = [] \<Longrightarrow> list_all rd_item_ok items \<Longrightarrow>
     \<exists>c'. rd_encode rd_collect (concat (map rd_item_bytes items)) (c, out) = ((c', out @ concat (map rd_item_out items)), True) \<and> rd_buf c' = []"
proof (induction items arbitrary: c out)
  case (Cons it items)
  obtain c1 where c1: "rd_encode rd_collect (rd_item_bytes it) (c, out) = ((c1, out @ rd_item_out it), True)" "rd_buf c1 = []"
    using rd_item_run [of c it out] Cons.prems by auto
  then show ?case using Cons.IH [of c1 "out @ rd_item_out it"] Cons.prems by (simp add: rd_encode_append)
qed simp

interpretation rd: stream_reader "rd_encode sink" for sink
  by unfold_locales (simp_all add: rd_encode_append)

text \<open>C24. A stream of records of both kinds, right or damaged, with noise between them, cut into
  pieces in any way, gives exactly the frames of the undamaged records in order and leaves
  the translator at the start of a record.\<close>

theorem realdash_stream:
  assumes "list_all rd_item_ok items" "concat pieces = concat (map rd_item_bytes items)"
  shows "\<exists>c. feed_pieces (rd_encode rd_collect) pieces (rd_ctx_init, []) = ((c, concat (map rd_item_out items)), True) \<and> rd_buf c = []"
  unfolding rd.pieces_concat assms(2) using rd_items_run [of rd_ctx_init items "[]"] assms(1) by (simp add: rd_ctx_init_def)

lemma realdash_stream_witness:
  "\<exists>c. feed_pieces (rd_encode rd_collect) [[0x0D, 0x44, 0x33], [0x22, 0x11, 0x23, 1, 0, 0, 1, 2, 3, 4, 5], [6, 7, 8, 242]] (rd_ctx_init, []) =
     ((c, [can_wire_encode (rd_can 0x123 [1, 2, 3, 4, 5, 6, 7, 8])]), True) \<and> rd_buf c = []"
  using realdash_stream [of "[RD_Noise 0x0D, RD_44 0x123 [1, 2, 3, 4, 5, 6, 7, 8] 242]"
    "[[0x0D, 0x44, 0x33], [0x22, 0x11, 0x23, 1, 0, 0, 1, 2, 3, 4, 5], [6, 7, 8, 242]]"]
  by (simp add: rd_body_def byte_of_def byte_sum_def del: feed_pieces.simps)

text \<open>A 29-bit identifier that fits eleven bits comes back from a record as an 11-bit one.\<close>

lemma realdash_loses_format:
  "rd_valid (rd_record \<lparr>f_id = 0x123, f_ext = True, f_rtr = False, f_dlc = 8, f_data = replicate 8 0, f_ts_us = 0\<rparr>) \<and>
   \<not> f_ext (rd_frame (rd_record \<lparr>f_id = 0x123, f_ext = True, f_rtr = False, f_dlc = 8, f_data = replicate 8 0, f_ts_us = 0\<rparr>))"
  by code_simp

end
