(* ===== verification/OBD_Gate.thy ===== *)
theory OBD_Gate
  imports Prelude
begin

text \<open>
  \<^verbatim>\<open>components/obd_gate/obd_gate_core.c\<close>, \<^verbatim>\<open>obd_gate_diag.c\<close> and the wrapper \<^verbatim>\<open>obd_gate.c\<close>: the gate
  that gives the OBD chip to one requester at a time, with a turn reserved for the first one that had
  to wait, and the hold a diagnostic tool puts on the background pollers. An owner is any value, NULL
  is \<open>None\<close>; times are milliseconds of a 64-bit clock. The functions run under one spinlock, so
  every one is a step of its own; a call of \<open>obd_gate_acquire\<close> is its rounds, and at the end of its time the
  taking by force, with the steps of other requesters between them.
\<close>

abbreviation (input) OG_RESERVE_MS :: int where "OG_RESERVE_MS \<equiv> 500"
abbreviation (input) OG_DIAG_MAX_HOLDERS :: nat where "OG_DIAG_MAX_HOLDERS \<equiv> 4"

section \<open>The gate\<close>

record 'o og_core =
  og_owner :: "'o option"
  og_deadline_ms :: int
  og_waiter :: "'o option"
  og_waiter_deadline_ms :: int
  og_acquires :: u32
  og_waits :: u32
  og_steals :: u32
  og_expiries :: u32

definition reservation_live :: "'o og_core \<Rightarrow> int \<Rightarrow> bool" where
  "reservation_live g now \<longleftrightarrow> og_waiter g \<noteq> None \<and> now < og_waiter_deadline_ms g"

text \<open>A hold that is over is reaped.\<close>

definition og_reap :: "'o og_core \<Rightarrow> 'o \<Rightarrow> 'o og_core" where
  "og_reap g ow =
     (if og_owner g \<noteq> None \<and> og_owner g \<noteq> Some ow then g\<lparr>og_expiries := og_expiries g + 1, og_owner := None\<rparr> else g)"

definition og_core_try :: "'o og_core \<Rightarrow> 'o option \<Rightarrow> int \<Rightarrow> u32 \<Rightarrow> 'o og_core \<times> bool" where
  "og_core_try g owner now hold_ms =
     (case owner of
        None \<Rightarrow> (g, False)
      | Some ow \<Rightarrow>
          if og_owner g \<noteq> None \<and> og_owner g \<noteq> Some ow \<and> now < og_deadline_ms g then
            (if og_waiter g = Some ow \<or> \<not> reservation_live g now
             then g\<lparr>og_waiter := Some ow, og_waiter_deadline_ms := now + OG_RESERVE_MS\<rparr> else g, False)
          else
            let g1 = og_reap g ow in
            if og_owner g1 = None \<and> reservation_live g1 now \<and> og_waiter g1 \<noteq> Some ow then (g1, False)
            else
              ((if og_waiter g1 = Some ow then g1\<lparr>og_waiter := None\<rparr> else g1)
                 \<lparr>og_owner := Some ow, og_deadline_ms := now + uint hold_ms, og_acquires := og_acquires g1 + 1\<rparr>, True))"

definition og_core_force :: "'o og_core \<Rightarrow> 'o option \<Rightarrow> int \<Rightarrow> u32 \<Rightarrow> 'o og_core" where
  "og_core_force g owner now hold_ms =
     (case owner of
        None \<Rightarrow> g
      | Some ow \<Rightarrow>
          (if og_waiter g = Some ow then g\<lparr>og_waiter := None\<rparr> else g)
            \<lparr>og_owner := Some ow, og_deadline_ms := now + uint hold_ms, og_steals := og_steals g + 1\<rparr>)"

definition og_core_release :: "'o og_core \<Rightarrow> 'o option \<Rightarrow> 'o og_core" where
  "og_core_release g owner = (if og_owner g = owner then g\<lparr>og_owner := None\<rparr> else g)"

section \<open>The diagnostics hold\<close>

record 'o og_diag =
  dg_holders :: "'o list"
  dg_acked :: bool
  dg_poller_seen :: bool
  dg_holds :: u32
  dg_releases :: u32
  dg_overflow :: u32

definition og_diag_init :: "'o og_diag" where
  "og_diag_init = \<lparr>dg_holders = [], dg_acked = False, dg_poller_seen = False, dg_holds = 0, dg_releases = 0, dg_overflow = 0\<rparr>"

definition og_diag_set :: "'o og_diag \<Rightarrow> 'o option \<Rightarrow> bool \<Rightarrow> 'o og_diag \<times> bool" where
  "og_diag_set d owner on =
     (case owner of
        None \<Rightarrow> (d, False)
      | Some ow \<Rightarrow>
          let before = dg_holders d \<noteq> []; idx = find_idx (\<lambda>h. h = ow) (dg_holders d) in
          if on then
            (case idx of
               Some _ \<Rightarrow> (d, False)
             | None \<Rightarrow>
                 if length (dg_holders d) \<ge> OG_DIAG_MAX_HOLDERS then (d\<lparr>dg_overflow := dg_overflow d + 1\<rparr>, False)
                 else (d\<lparr>dg_holders := dg_holders d @ [ow], dg_holds := dg_holds d + 1\<rparr>, \<not> before))
          else
            (case idx of
               None \<Rightarrow> (d, False)
             | Some i \<Rightarrow>
                 let d1 = d\<lparr>dg_holders := take i (dg_holders d) @ drop (Suc i) (dg_holders d), dg_releases := dg_releases d + 1\<rparr>;
                     d2 = (if dg_holders d1 = [] then d1\<lparr>dg_acked := False\<rparr> else d1)
                 in (d2, before \<noteq> (dg_holders d2 \<noteq> []))))"

definition og_diag_held :: "'o og_diag \<Rightarrow> bool" where
  "og_diag_held d \<longleftrightarrow> dg_holders d \<noteq> []"

definition obd_gate_diag_ack :: "'o og_diag \<Rightarrow> bool \<Rightarrow> 'o og_diag" where
  "obd_gate_diag_ack d off_bus = d\<lparr>dg_poller_seen := True, dg_acked := (off_bus \<and> dg_holders d \<noteq> [])\<rparr>"

text \<open>One look of \<open>obd_gate_diag_wait_ack\<close>: its result, or \<open>None\<close> to look again.\<close>

definition diag_wait_look :: "'o og_diag \<Rightarrow> int \<Rightarrow> u32 \<Rightarrow> bool option" where
  "diag_wait_look d waited wait_ms =
     (if dg_holders d = [] \<or> \<not> dg_poller_seen d then Some (\<not> dg_poller_seen d)
      else if dg_acked d then Some True
      else if waited \<ge> uint wait_ms then Some False
      else None)"

section \<open>The calls of the requesters\<close>

text \<open>
  Where the call of \<open>obd_gate_acquire\<close> of a requester stands: it polls (since when, whether it has had to wait, how
  long it is willing to), or its time is over (how long it has waited) and it is about to take the gate by
  force. With the gate switched off in the settings, or without an owner, no call touches the gate.
\<close>

abbreviation (input) OBD_GATE_HOLD_MS :: u32 where "OBD_GATE_HOLD_MS \<equiv> 2000"

datatype acquire_call = C_Idle | C_Poll int bool u32 | C_Expired int u32

record 'o gate_world =
  gw_core :: "'o og_core"
  gw_call :: "'o \<Rightarrow> acquire_call"

text \<open>How a requester came to have the gate: it was free (or the hold was over), it had it already, or by force
  after waiting so long.\<close>

datatype 'o taking = Took_free 'o | Took_again 'o | Took_forced 'o int u32

fun taker :: "'o taking \<Rightarrow> 'o" where
  "taker (Took_free ow) = ow"
| "taker (Took_again ow) = ow"
| "taker (Took_forced ow waited wait_ms) = ow"

definition acquire_start :: "'o \<Rightarrow> u32 \<Rightarrow> int \<Rightarrow> 'o gate_world \<Rightarrow> 'o gate_world \<times> 'o taking list" where
  "acquire_start ow wait_ms now w =
     (if gw_call w ow = C_Idle then (w\<lparr>gw_call := (gw_call w)(ow := C_Poll now False wait_ms)\<rparr>, []) else (w, []))"

text \<open>A round of the loop: the try under the lock, and the clock read after it.\<close>

definition acquire_turn :: "'o \<Rightarrow> int \<Rightarrow> int \<Rightarrow> 'o gate_world \<Rightarrow> 'o gate_world \<times> 'o taking list" where
  "acquire_turn ow now later w =
     (case gw_call w ow of
        C_Poll start waited wait_ms \<Rightarrow>
          (let (g1, got) = og_core_try (gw_core w) (Some ow) now OBD_GATE_HOLD_MS;
               g2 = (if \<not> got \<and> \<not> waited then g1\<lparr>og_waits := og_waits g1 + 1\<rparr> else g1)
           in if got then
                (w\<lparr>gw_core := g2, gw_call := (gw_call w)(ow := C_Idle)\<rparr>,
                 [if og_owner (gw_core w) = Some ow then Took_again ow else Took_free ow])
              else
                (w\<lparr>gw_core := g2,
                   gw_call := (gw_call w)(ow := (if later - start \<ge> uint wait_ms then C_Expired (later - start) wait_ms
                                                 else C_Poll start True wait_ms))\<rparr>, []))
      | _ \<Rightarrow> (w, []))"

definition acquire_force :: "'o \<Rightarrow> int \<Rightarrow> 'o gate_world \<Rightarrow> 'o gate_world \<times> 'o taking list" where
  "acquire_force ow now w =
     (case gw_call w ow of
        C_Expired waited wait_ms \<Rightarrow>
          (w\<lparr>gw_core := og_core_force (gw_core w) (Some ow) now OBD_GATE_HOLD_MS, gw_call := (gw_call w)(ow := C_Idle)\<rparr>,
           [Took_forced ow waited wait_ms])
      | _ \<Rightarrow> (w, []))"

definition obd_gate_release :: "'o \<Rightarrow> 'o gate_world \<Rightarrow> 'o gate_world" where
  "obd_gate_release ow w = w\<lparr>gw_core := og_core_release (gw_core w) (Some ow)\<rparr>"

section \<open>The waiter has the next turn\<close>

datatype 'o gate_op = G_Start 'o u32 | G_Turn 'o int | G_Force 'o | G_Release 'o

fun gate_do :: "'o gate_op \<Rightarrow> int \<Rightarrow> 'o gate_world \<Rightarrow> 'o gate_world \<times> 'o taking list" where
  "gate_do (G_Start ow wait_ms) now w = acquire_start ow wait_ms now w"
| "gate_do (G_Turn ow later) now w = acquire_turn ow now later w"
| "gate_do (G_Force ow) now w = acquire_force ow now w"
| "gate_do (G_Release ow) now w = (obd_gate_release ow w, [])"

text \<open>A run: the world it ends in and the takings on the way.\<close>

fun gate_run :: "('o gate_op \<times> int) list \<Rightarrow> 'o gate_world \<Rightarrow> 'o gate_world \<times> 'o taking list" where
  "gate_run [] w = (w, [])"
| "gate_run ((p, now) # ops) w =
     (case gate_do p now w of (w1, ts) \<Rightarrow> (case gate_run ops w1 of (w2, ts2) \<Rightarrow> (w2, ts @ ts2)))"

text \<open>A round of the requester \<open>v\<close>.\<close>

fun polls_now :: "'o \<Rightarrow> 'o gate_op \<Rightarrow> 'o gate_world \<Rightarrow> bool" where
  "polls_now v (G_Turn ow later) w \<longleftrightarrow> ow = v \<and> (case gw_call w v of C_Poll s b m \<Rightarrow> True | _ \<Rightarrow> False)"
| "polls_now v _ w \<longleftrightarrow> False"

text \<open>The waiter \<open>v\<close>, whose last round was at \<open>t\<close>, has its next one within the life of its reservation.\<close>

fun keeps_polling :: "'o \<Rightarrow> int \<Rightarrow> ('o gate_op \<times> int) list \<Rightarrow> 'o gate_world \<Rightarrow> bool" where
  "keeps_polling v t [] w \<longleftrightarrow> True"
| "keeps_polling v t ((p, now) # ops) w \<longleftrightarrow>
     now < t + OG_RESERVE_MS \<and> keeps_polling v (if polls_now v p w then now else t) ops (fst (gate_do p now w))"

definition has_waiter :: "'o \<Rightarrow> int \<Rightarrow> 'o gate_world \<Rightarrow> bool" where
  [inv_simps]: "has_waiter v t w \<longleftrightarrow>
     og_waiter (gw_core w) = Some v \<and> og_waiter_deadline_ms (gw_core w) = t + OG_RESERVE_MS \<and>
     og_owner (gw_core w) \<noteq> Some v \<and> (\<forall>ow e m. gw_call w ow = C_Expired e m \<longrightarrow> e \<ge> uint m)"

text \<open>What may come before the waiter: a requester that has the gate keeps it, or one takes it by force that has
  waited for all the time it was willing to.\<close>

fun may_precede :: "'o taking \<Rightarrow> bool" where
  "may_precede (Took_free ow) \<longleftrightarrow> False"
| "may_precede (Took_again ow) \<longleftrightarrow> True"
| "may_precede (Took_forced ow waited wait_ms) \<longleftrightarrow> waited \<ge> uint wait_ms"

lemma waiter_served_now:
  assumes "has_waiter v t w" "og_owner (gw_core w) = None \<or> og_deadline_ms (gw_core w) \<le> now"
  shows "snd (og_core_try (gw_core w) (Some v) now hold)"
  using assms by (auto simp: og_core_try_def og_reap_def has_waiter_def Let_def)

lemma try_beside_waiter:
  assumes "og_waiter g = Some v" "og_waiter_deadline_ms g = t + OG_RESERVE_MS" "now < t + OG_RESERVE_MS" "og_owner g \<noteq> Some v"
    and "og_core_try g (Some ow) now hold = (g1, got)"
  shows "ow = v \<and> got \<or>
    og_waiter g1 = Some v \<and> og_waiter_deadline_ms g1 = (if ow = v then now else t) + OG_RESERVE_MS \<and> og_owner g1 \<noteq> Some v \<and>
    (got \<longrightarrow> og_owner g = Some ow)"
  using assms by (auto simp: og_core_try_def og_reap_def reservation_live_def Let_def split: if_splits)

lemma waiter_kept:
  assumes "has_waiter v t w" "now < t + OG_RESERVE_MS" "gate_do p now w = (w1, ts)"
  shows "(\<exists>tk. ts = [tk] \<and> taker tk = v) \<or>
    list_all may_precede ts \<and> has_waiter v (if polls_now v p w then now else t) w1"
proof (cases p)
  case (G_Turn ow later)
  show ?thesis
  proof (cases "gw_call w ow")
    case (C_Poll start waited wait_ms)
    obtain g1 got where tr: "og_core_try (gw_core w) (Some ow) now OBD_GATE_HOLD_MS = (g1, got)" by fastforce
    have "ow = v \<and> got \<or> og_waiter g1 = Some v \<and> og_waiter_deadline_ms g1 = (if ow = v then now else t) + OG_RESERVE_MS \<and>
        og_owner g1 \<noteq> Some v \<and> (got \<longrightarrow> og_owner (gw_core w) = Some ow)"
      using assms(1,2) by (intro try_beside_waiter [OF _ _ _ _ tr]) (simp_all add: has_waiter_def)
    then show ?thesis using assms(1,3) G_Turn C_Poll tr
      by (auto simp: acquire_turn_def has_waiter_def Let_def split: if_splits)
  qed (use assms G_Turn in \<open>auto simp: acquire_turn_def\<close>)
next
  case (G_Force ow)
  with assms show ?thesis
    by (auto simp: acquire_force_def og_core_force_def has_waiter_def split: acquire_call.splits if_splits)
next
  case (G_Start ow wait_ms)
  with assms show ?thesis by (auto simp: acquire_start_def has_waiter_def split: if_splits)
next
  case (G_Release ow)
  with assms show ?thesis by (cases "og_owner (gw_core w) = Some ow") (auto simp: obd_gate_release_def og_core_release_def has_waiter_def)
qed

lemma waiter_turn:
  assumes "has_waiter v t w" "keeps_polling v t ops w"
  shows "list_all may_precede (takeWhile (\<lambda>tk. taker tk \<noteq> v) (snd (gate_run ops w))) \<and>
     (v \<in> taker ` set (snd (gate_run ops w)) \<or> (\<exists>t. has_waiter v t (fst (gate_run ops w))))"
  using assms
proof (induction ops arbitrary: t w)
  case Nil
  then show ?case by auto
next
  case (Cons q ops)
  obtain p now where q: "q = (p, now)" by force
  obtain w1 ts where st: "gate_do p now w = (w1, ts)" by fastforce
  obtain w2 ts2 where run: "gate_run ops w1 = (w2, ts2)" by fastforce
  have res: "gate_run (q # ops) w = (w2, ts @ ts2)" using q st run by simp
  let ?t = "if polls_now v p w then now else t"
  from Cons.prems q have now: "now < t + OG_RESERVE_MS" and rest: "keeps_polling v ?t ops w1" using st by auto
  consider tk where "ts = [tk]" "taker tk = v" | "list_all may_precede ts" "has_waiter v ?t w1"
    using waiter_kept [OF Cons.prems(1) now st] by blast
  then show ?case
  proof cases
    case 1
    then show ?thesis by (simp add: res)
  next
    case 2
    note IH = Cons.IH [OF 2(2) rest, unfolded run fst_conv snd_conv]
    have "list_all may_precede (takeWhile (\<lambda>tk. taker tk \<noteq> v) (ts @ ts2))"
      using 2(1) IH by (auto simp: takeWhile_append list_all_iff dest: set_takeWhileD)
    then show ?thesis using IH by (auto simp: res image_Un)
  qed
qed

text \<open>C25. While one requester holds the gate and another waits and asks again within half a
  second each time, all that can happen before the waiter is served is that the holder takes
  the gate again for itself or that a requester takes it by force whose own wait has run out
  in full; no other is granted the gate. At the end of any such run the waiter has been
  served, or somebody has the gate with its hold not over, or the waiter's next try is
  granted. Starts, rounds, forced takings and releases of all requesters come in any order.\<close>

theorem gate_waiter_served:
  assumes "og_owner (gw_core w) = Some h" "og_waiter (gw_core w) = Some v" "og_waiter_deadline_ms (gw_core w) = t + OG_RESERVE_MS"
    and "h \<noteq> v" "\<forall>ow e m. gw_call w ow = C_Expired e m \<longrightarrow> e \<ge> uint m"
    and "keeps_polling v t ops w" "gate_run ops w = (w', ts)"
  shows "list_all may_precede (takeWhile (\<lambda>tk. taker tk \<noteq> v) ts) \<and>
    (v \<in> taker ` set ts \<or>
     og_owner (gw_core w') \<noteq> None \<and> now < og_deadline_ms (gw_core w') \<or>
     snd (og_core_try (gw_core w') (Some v) now hold))"
  using waiter_turn [of v t w ops] waiter_served_now [of v _ w' now hold] assms
  by (auto simp: has_waiter_def intro: not_le_imp_less)

text \<open>Requester 0 has the gate, 1 waits for it, 2 has polled since before and takes it by force, then 0 is refused
  although the gate is free, because it is the turn of 1.\<close>

theorem gate_waiter_served_witness:
  defines "w \<equiv> \<lparr>gw_core = \<lparr>og_owner = Some (0 :: nat), og_deadline_ms = 2000, og_waiter = Some 1, og_waiter_deadline_ms = 500,
      og_acquires = 1, og_waits = 1, og_steals = 0, og_expiries = 0\<rparr>,
      gw_call = (\<lambda>_. C_Idle)(1 := C_Poll 0 True 2000, 2 := C_Poll (- 1900) True 2000)\<rparr>"
    and "ops \<equiv> [(G_Turn 2 100, 100), (G_Force 2, 110), (G_Turn 1 400, 400), (G_Start 0 2000, 450), (G_Release 2, 700), (G_Turn 0 720, 720)]"
  shows "snd (gate_run ops w) = [Took_forced 2 2000 2000] \<and>
    list_all may_precede (takeWhile (\<lambda>tk. taker tk \<noteq> 1) (snd (gate_run ops w))) \<and>
    snd (og_core_try (gw_core (fst (gate_run ops w))) (Some 1) 730 2000)"
proof -
  note run = gate_run.simps acquire_turn_def acquire_force_def acquire_start_def obd_gate_release_def og_core_try_def
    og_core_force_def og_core_release_def og_reap_def reservation_live_def Let_def
  have n: "snd (gate_run ops w) = [Took_forced 2 2000 2000]" "og_owner (gw_core (fst (gate_run ops w))) = None"
    by (simp_all add: w_def ops_def run)
  have k: "keeps_polling 1 0 ops w" by (simp add: w_def ops_def run)
  have "\<forall>ow e m. gw_call w ow = C_Expired e m \<longrightarrow> e \<ge> uint m" by (simp add: w_def)
  from gate_waiter_served [OF _ _ _ _ this k surjective_pairing, of 0 730 2000] n show ?thesis by (simp add: w_def)
qed

end
