(* ===== verification/Diag_Hold.thy ===== *)
theory Diag_Hold
  imports OBD_Gate Autopid_Sched
begin

text \<open>
  The diagnostics hold of \<^verbatim>\<open>components/obd_gate/obd_gate_diag.c\<close> with the task it holds off, the
  poller of \<^verbatim>\<open>components/autopid/autopid_poller.c\<close>, and the scan of the trouble codes the poller starts,
  \<^verbatim>\<open>autopid_dtc_job.c\<close>. Tools hold and release at any moment, from any task; the poller runs its loop and
  the scan its task, and every read, acknowledgment and use of the chip is a step of its own, so that
  the others' steps fall between any two of them.
\<close>

text \<open>A pass of the poller uses the chip for the probe that stands in for an empty table, or for a row
  that transmits.\<close>

definition poller_uses_chip :: "ap_sched \<Rightarrow> ap_config \<Rightarrow> ap_pauses \<Rightarrow> int \<Rightarrow> bool" where
  "poller_uses_chip st cfg p now \<longleftrightarrow>
     poller_classes p \<noteq> 0 \<and> poller_chip_ok p \<and> ap_sched_next_of st cfg (ap_class_bit AP_CLASS_CHIP) = None \<or>
     (case poller_pick st cfg p now of
        P_Run i tx \<Rightarrow> (case ap_sched_entry_class cfg i of AP_CLASS_CHIP \<Rightarrow> True | AP_CLASS_PASSIVE \<Rightarrow> False | AP_CLASS_BUS_TX \<Rightarrow> tx)
      | _ \<Rightarrow> False)"

section \<open>The scan of the trouble codes\<close>

text \<open>
  \<^verbatim>\<open>autopid_dtc_job.c\<close>: the scan is a task of its own, which the poller starts when it is due, and a
  request (HTTP, console, event rule) whenever it comes. It parks the poller, talks to the chip for
  seconds, lets the poller go, gives the job flag back and ends. The other one-shot jobs of the chip
  (the standard scan, the test of a row, the clearing of codes, the first contact) take the same flag;
  of them only that they use the chip is modelled.
\<close>

datatype job_starter = By_Poller | By_Request

datatype job_phase = J_Spawned | J_Scan | J_Unpaused | J_Released

record chip_jobs =
  cj_dtc_busy :: bool
  cj_taken :: bool
  cj_last_scan_us :: int
  cj_task :: "(job_starter \<times> job_phase) option"
  cj_other :: bool

definition ap_dtc_scan_start :: "bool \<Rightarrow> bool \<Rightarrow> bool \<Rightarrow> int \<Rightarrow> job_starter \<Rightarrow> chip_jobs \<Rightarrow> chip_jobs" where
  "ap_dtc_scan_start enabled job_ok spawned now by j =
     (if \<not> enabled then j
      else if \<not> job_ok then j\<lparr>cj_last_scan_us := now\<rparr>
      else if cj_dtc_busy j \<or> cj_taken j then j
      else if spawned then j\<lparr>cj_dtc_busy := True, cj_taken := True, cj_last_scan_us := now, cj_task := Some (by, J_Spawned)\<rparr>
      else j\<lparr>cj_last_scan_us := now\<rparr>)"

definition ap_dtc_periodic_check :: "bool \<Rightarrow> int \<Rightarrow> bool \<Rightarrow> bool \<Rightarrow> int \<Rightarrow> chip_jobs \<Rightarrow> chip_jobs" where
  "ap_dtc_periodic_check enabled period_min job_ok spawned now j =
     (if \<not> enabled \<or> period_min = 0 \<or> cj_dtc_busy j then j
      else if now - cj_last_scan_us j \<ge> period_min * 60 * 1000000 then ap_dtc_scan_start enabled job_ok spawned now By_Poller j
      else j)"

text \<open>The task of the scan from one of its stages to the next.\<close>

definition dtc_job_task :: "chip_jobs \<Rightarrow> chip_jobs" where
  "dtc_job_task j =
     (case cj_task j of
        None \<Rightarrow> j
      | Some (by, J_Spawned) \<Rightarrow> j\<lparr>cj_task := Some (by, J_Scan)\<rparr>
      | Some (by, J_Scan) \<Rightarrow> j\<lparr>cj_task := Some (by, J_Unpaused)\<rparr>
      | Some (by, J_Unpaused) \<Rightarrow> j\<lparr>cj_taken := False, cj_task := Some (by, J_Released)\<rparr>
      | Some (by, J_Released) \<Rightarrow> j\<lparr>cj_dtc_busy := False, cj_task := None\<rparr>)"

definition ap_core_job_acquire :: "chip_jobs \<Rightarrow> chip_jobs" where
  "ap_core_job_acquire j = (if \<not> cj_taken j then j\<lparr>cj_taken := True, cj_other := True\<rparr> else j)"

definition ap_core_job_release :: "chip_jobs \<Rightarrow> chip_jobs" where
  "ap_core_job_release j = (if cj_other j then j\<lparr>cj_taken := False, cj_other := False\<rparr> else j)"

text \<open>A scan that the poller started is on its way.\<close>

definition poller_scan :: "chip_jobs \<Rightarrow> bool" where
  "poller_scan j \<longleftrightarrow> (case cj_task j of Some (by, ph) \<Rightarrow> by = By_Poller | None \<Rightarrow> False)"

section \<open>The poller, the jobs and the tools\<close>

text \<open>Where the poller is: at the client's pause, before the read of the hold, with its answer in
  \<open>diag\<close>, before the acknowledgment, or in the pass.\<close>

datatype poller_pc = L_Client | L_Read | L_Changed | L_Ack | L_Pass

datatype chip_use = U_None | U_Client_Restore | U_Diag_Restore | U_Pass | U_Scan job_starter | U_Other_Job

record 'o diag_world =
  dw_gate :: "'o og_diag"
  dw_pc :: poller_pc
  dw_diag :: bool
  dw_paused_diag :: bool
  dw_paused_client :: bool
  dw_resumed :: bool
  dw_jobs :: chip_jobs

definition may_restore :: "ap_pauses \<Rightarrow> bool" where
  "may_restore p \<longleftrightarrow> ps_enabled p \<and> \<not> ps_voltage p \<and> \<not> ps_scan p"

inductive diag_step :: "'o diag_world \<Rightarrow> chip_use \<Rightarrow> 'o diag_world \<Rightarrow> bool" where
  tool: "diag_step w U_None (w\<lparr>dw_gate := fst (og_diag_set (dw_gate w) ow on)\<rparr>)"
| client: "dw_pc w = L_Client \<Longrightarrow>
    u = (if dw_paused_client w \<and> \<not> c \<and> may_restore p then U_Client_Restore else U_None) \<Longrightarrow>
    diag_step w u (w\<lparr>dw_paused_client := c, dw_pc := L_Read\<rparr>)"
| held: "dw_pc w = L_Read \<Longrightarrow> diag_step w U_None (w\<lparr>dw_diag := og_diag_held (dw_gate w), dw_pc := L_Changed\<rparr>)"
| changed: "dw_pc w = L_Changed \<Longrightarrow>
    diag_step w U_None (w\<lparr>dw_paused_diag := dw_diag w, dw_resumed := dw_paused_diag w \<and> \<not> dw_diag w, dw_pc := L_Ack\<rparr>)"
| restore: "dw_pc w = L_Ack \<Longrightarrow> dw_resumed w \<Longrightarrow> may_restore p \<Longrightarrow> \<not> dw_paused_client w \<Longrightarrow>
    diag_step w U_Diag_Restore (w\<lparr>dw_resumed := False\<rparr>)"
| ack: "dw_pc w = L_Ack \<Longrightarrow> diag_step w U_None (w\<lparr>dw_gate := obd_gate_diag_ack (dw_gate w) (dw_diag w), dw_pc := L_Pass\<rparr>)"
| pass: "dw_pc w = L_Pass \<Longrightarrow> ps_diag p = dw_paused_diag w \<Longrightarrow> ps_client p = dw_paused_client w \<Longrightarrow>
    u = (if poller_uses_chip st cfg p now then U_Pass else U_None) \<Longrightarrow> diag_step w u w"
| scan_due: "dw_pc w = L_Pass \<Longrightarrow> ps_diag (p :: ap_pauses) = dw_paused_diag w \<Longrightarrow> ps_client p = dw_paused_client w \<Longrightarrow>
    \<not> ps_voltage p \<and> \<not> ps_scan p \<and> \<not> ps_client p \<and> \<not> ps_diag p \<Longrightarrow>
    diag_step w U_None (w\<lparr>dw_jobs := ap_dtc_periodic_check en period ok sp now (dw_jobs w)\<rparr>)"
| around: "dw_pc w = L_Pass \<Longrightarrow> diag_step w U_None (w\<lparr>dw_pc := L_Client\<rparr>)"
| request: "diag_step w U_None (w\<lparr>dw_jobs := ap_dtc_scan_start en ok sp now By_Request (dw_jobs w)\<rparr>)"
| scan: "cj_task (dw_jobs w) = Some (by, J_Scan) \<Longrightarrow> diag_step w (U_Scan by) w"
| scan_on: "diag_step w U_None (w\<lparr>dw_jobs := dtc_job_task (dw_jobs w)\<rparr>)"
| other_begin: "diag_step w U_None (w\<lparr>dw_jobs := ap_core_job_acquire (dw_jobs w)\<rparr>)"
| other: "cj_other (dw_jobs w) \<Longrightarrow> diag_step w U_Other_Job w"
| other_end: "diag_step w U_None (w\<lparr>dw_jobs := ap_core_job_release (dw_jobs w)\<rparr>)"

inductive_cases diag_stepE: "diag_step w u w'"

definition diag_boot :: "'o diag_world" where
  "diag_boot = \<lparr>dw_gate = og_diag_init, dw_pc = L_Client, dw_diag = False, dw_paused_diag = False, dw_paused_client = False, dw_resumed = False,
     dw_jobs = \<lparr>cj_dtc_busy = False, cj_taken = False, cj_last_scan_us = 0, cj_task = None, cj_other = False\<rparr>\<rparr>"

inductive diag_reachable :: "'o diag_world \<Rightarrow> bool" where
  boot: "diag_reachable diag_boot"
| step: "diag_reachable w \<Longrightarrow> diag_step w u w' \<Longrightarrow> diag_reachable w'"

section \<open>What is kept\<close>

text \<open>The holders are at most four and all different, and an acknowledgment stands only while there
  are some.\<close>

definition diag_ok :: "'o og_diag \<Rightarrow> bool" where
  [inv_simps]: "diag_ok d \<longleftrightarrow> distinct (dg_holders d) \<and> length (dg_holders d) \<le> OG_DIAG_MAX_HOLDERS \<and>
     (dg_acked d \<longrightarrow> dg_holders d \<noteq> [])"

lemma remove_at:
  assumes "find_idx (\<lambda>h. h = x) xs = Some i" "distinct xs"
  shows "take i xs @ drop (Suc i) xs = remove1 x xs"
  using assms
proof (induction xs arbitrary: i)
  case (Cons y ys)
  then show ?case by (cases i) (auto split: if_splits)
qed simp

lemma find_idx_None_mem: "find_idx (\<lambda>h. h = x) xs = None \<longleftrightarrow> x \<notin> set xs"
  by (induction xs) auto

text \<open>A tool that holds is a holder unless four others are, and one that releases is none.\<close>

lemma diag_set_holders:
  assumes "diag_ok d"
  shows "dg_holders (fst (og_diag_set d (Some ow) on)) =
    (if on then if ow \<in> set (dg_holders d) \<or> length (dg_holders d) = 4 then dg_holders d else dg_holders d @ [ow]
     else remove1 ow (dg_holders d))"
  using assms remove_at [of ow "dg_holders d"] find_idx_None_mem [of ow "dg_holders d"]
  by (auto simp: og_diag_set_def diag_ok_def Let_def remove1_idem split: option.splits)

lemma diag_set_acked:
  "dg_acked (fst (og_diag_set d ow on)) \<longleftrightarrow> dg_acked d \<and> (dg_holders (fst (og_diag_set d ow on)) = dg_holders d \<or>
     dg_holders (fst (og_diag_set d ow on)) \<noteq> [])"
  by (auto simp: og_diag_set_def Let_def split: option.splits)

lemma diag_ok_set: "diag_ok d \<Longrightarrow> diag_ok (fst (og_diag_set d ow on))"
proof (cases ow)
  case None
  then show "diag_ok d \<Longrightarrow> ?thesis" by (simp add: og_diag_set_def)
next
  case (Some x)
  assume ok: "diag_ok d"
  have "length (remove1 x (dg_holders d)) \<le> length (dg_holders d)" by (simp add: length_remove1)
  then show ?thesis using ok diag_set_holders [OF ok, of x on] diag_set_acked [of d ow on] Some
    by (auto simp: diag_ok_def)
qed

text \<open>While an acknowledgment stands the poller is paused, and stays so: what it has read or will act
  on next is the hold.\<close>

definition diag_inv :: "'o diag_world \<Rightarrow> bool" where
  [inv_simps]: "diag_inv w \<longleftrightarrow> diag_ok (dw_gate w) \<and>
     (dw_pc w = L_Ack \<longrightarrow> dw_paused_diag w = dw_diag w) \<and>
     (dg_acked (dw_gate w) \<longrightarrow> dw_paused_diag w \<and> (dw_pc w = L_Changed \<longrightarrow> dw_diag w)) \<and>
     (dw_resumed w \<longrightarrow> \<not> dw_paused_diag w)"

lemma diag_inv_tool: "diag_inv w \<Longrightarrow> diag_inv (w\<lparr>dw_gate := fst (og_diag_set (dw_gate w) ow on)\<rparr>)"
  by (auto simp: diag_inv_def diag_ok_set dest!: diag_set_acked [THEN iffD1])

lemma diag_inv_step: "diag_step w u w' \<Longrightarrow> diag_inv w \<Longrightarrow> diag_inv w'"
proof (induction rule: diag_step.induct)
  case (tool w ow on)
  then show ?case by (rule diag_inv_tool)
qed (auto simp: diag_inv_def diag_ok_def og_diag_held_def obd_gate_diag_ack_def)

lemma diag_inv_reachable: "diag_reachable w \<Longrightarrow> diag_inv w"
proof (induction rule: diag_reachable.induct)
  case boot
  then show ?case by (simp add: diag_boot_def diag_inv_def diag_ok_def og_diag_init_def)
qed (rule diag_inv_step)

lemma paused_poller:
  assumes "ps_diag p"
  shows "\<not> poller_uses_chip st cfg p now"
proof (rule ccontr)
  assume "\<not> ?thesis"
  moreover have "\<not> poller_chip_ok p" using assms by (simp add: poller_chip_ok_def)
  ultimately obtain i tx where pick: "poller_pick st cfg p now = P_Run i tx"
    and use: "case ap_sched_entry_class cfg i of AP_CLASS_CHIP \<Rightarrow> True | AP_CLASS_PASSIVE \<Rightarrow> False | AP_CLASS_BUS_TX \<Rightarrow> tx"
    using assms by (auto simp: poller_uses_chip_def split: poller_step.splits)
  from poller_pick_run [OF pick] have "runnable st cfg p i" "\<not> tx" using assms by auto
  then show False using use \<open>\<not> poller_chip_ok p\<close> by (auto simp: runnable_def split: ap_row_class.splits)
qed

text \<open>Only a pass that is not paused starts a scan for the poller.\<close>

lemma poller_scan_start:
  "poller_scan (ap_dtc_scan_start en ok sp now By_Request j) \<Longrightarrow> poller_scan j"
  "poller_scan (dtc_job_task j) \<Longrightarrow> poller_scan j"
  "poller_scan (ap_core_job_acquire j) \<Longrightarrow> poller_scan j"
  "poller_scan (ap_core_job_release j) \<Longrightarrow> poller_scan j"
  by (auto simp: poller_scan_def ap_dtc_scan_start_def dtc_job_task_def ap_core_job_acquire_def ap_core_job_release_def
      split: option.splits job_phase.splits if_splits)

text \<open>C3. When a diagnostic tool has been told, by a poller that has begun its loop, that the
  poller is off the bus, then until the last holder has released, and in any order of the
  steps of tools, poller and jobs, the poller does not poll or probe the chip, does not
  restore it after a hold, and starts no new DTC scan. What can still use the chip is named:
  the restoring at the end of a client's pause, the task of a DTC scan that is on its way
  (the poller may have started it before the hold), and the one-shot jobs that others have
  requested. The acknowledgment does not wait for these (findings).\<close>

theorem diag_hold_exclusive:
  assumes "diag_reachable w" "diag_wait_look (dw_gate w) waited wait_ms = Some True" "dg_poller_seen (dw_gate w)"
    "diag_step w u w'"
  shows "dg_holders (dw_gate w) \<noteq> [] \<and>
    (u \<in> {U_None, U_Client_Restore} \<or> (\<exists>by. u = U_Scan by \<and> cj_task (dw_jobs w) = Some (by, J_Scan)) \<or>
     u = U_Other_Job \<and> cj_other (dw_jobs w)) \<and>
    (poller_scan (dw_jobs w') \<longrightarrow> poller_scan (dw_jobs w))"
proof -
  have acked: "dg_acked (dw_gate w)" "dg_holders (dw_gate w) \<noteq> []"
    using assms(2,3) by (auto simp: diag_wait_look_def split: if_splits)
  then have "dw_paused_diag w" "\<not> dw_resumed w" using diag_inv_reachable [OF assms(1)] by (auto simp: diag_inv_def)
  with assms(4) acked(2) show ?thesis
    by (cases rule: diag_step.cases) (auto simp: paused_poller dest: poller_scan_start split: if_splits)
qed

text \<open>A hold, its acknowledgment, and a client's pause that begins and ends meanwhile; the scan of the
  trouble codes was started before the hold.\<close>

definition scan_world :: "job_phase \<Rightarrow> nat diag_world" where
  "scan_world ph = \<lparr>dw_gate = \<lparr>dg_holders = [7], dg_acked = True, dg_poller_seen = True, dg_holds = 1, dg_releases = 0, dg_overflow = 0\<rparr>,
     dw_pc = L_Client, dw_diag = True, dw_paused_diag = True, dw_paused_client = True, dw_resumed = False,
     dw_jobs = \<lparr>cj_dtc_busy = True, cj_taken = True, cj_last_scan_us = 600000000, cj_task = Some (By_Poller, ph), cj_other = False\<rparr>\<rparr>"

lemma diag_reachable_step: "diag_reachable w \<Longrightarrow> diag_step w u v \<Longrightarrow> v = w' \<Longrightarrow> diag_reachable w'"
  by (auto intro: diag_reachable.step)

lemma scan_world_reachable: "diag_reachable (scan_world J_Scan)"
proof -
  let ?d = "og_diag_init :: nat og_diag"
  let ?s = "\<lparr>dg_holders = [], dg_acked = False, dg_poller_seen = True, dg_holds = 0, dg_releases = 0, dg_overflow = 0\<rparr> :: nat og_diag"
  let ?g = "\<lparr>dg_holders = [7 :: nat], dg_acked = False, dg_poller_seen = True, dg_holds = 1, dg_releases = 0, dg_overflow = 0\<rparr>"
  let ?p = "\<lparr>ps_enabled = False, ps_voltage = False, ps_scan = False, ps_client = False, ps_diag = False, ps_voltage_all = False, ps_guard_ok = False\<rparr>"
  let ?n = "\<lparr>cj_dtc_busy = False, cj_taken = False, cj_last_scan_us = 0, cj_task = None, cj_other = False\<rparr>"
  let ?j = "\<lambda>ph. \<lparr>cj_dtc_busy = True, cj_taken = True, cj_last_scan_us = 600000000, cj_task = Some (By_Poller, ph), cj_other = False\<rparr>"
  let ?w = "\<lambda>g pc d pd c j. \<lparr>dw_gate = g, dw_pc = pc, dw_diag = d, dw_paused_diag = pd, dw_paused_client = c, dw_resumed = False, dw_jobs = j\<rparr>"
  note simps = og_diag_set_def og_diag_init_def obd_gate_diag_ack_def og_diag_held_def may_restore_def diag_boot_def scan_world_def
    ap_dtc_periodic_check_def ap_dtc_scan_start_def dtc_job_task_def
  have "diag_reachable (?w ?d L_Client False False False ?n)"
    using diag_reachable.boot by (simp only: diag_boot_def)
  then have "diag_reachable (?w ?d L_Read False False False ?n)"
    by (rule diag_reachable_step [OF _ diag_step.client [where c = False and p = ?p]]) (simp_all add: simps)
  then have "diag_reachable (?w ?d L_Changed False False False ?n)"
    by (rule diag_reachable_step [OF _ diag_step.held]) (simp_all add: simps)
  then have "diag_reachable (?w ?d L_Ack False False False ?n)"
    by (rule diag_reachable_step [OF _ diag_step.changed]) (simp_all add: simps)
  then have "diag_reachable (?w ?s L_Pass False False False ?n)"
    by (rule diag_reachable_step [OF _ diag_step.ack]) (simp_all add: simps)
  then have "diag_reachable (?w ?s L_Pass False False False (?j J_Spawned))"
    by (rule diag_reachable_step [OF _ diag_step.scan_due [where p = ?p and en = True and period = 10 and ok = True and sp = True
            and now = 600000000]]) (simp_all add: simps)
  then have "diag_reachable (?w ?s L_Pass False False False (?j J_Scan))"
    by (rule diag_reachable_step [OF _ diag_step.scan_on]) (simp_all add: simps)
  then have "diag_reachable (?w ?g L_Pass False False False (?j J_Scan))"
    by (rule diag_reachable_step [OF _ diag_step.tool [of _ "Some 7" True]]) (simp_all add: simps)
  then have "diag_reachable (?w ?g L_Client False False False (?j J_Scan))"
    by (rule diag_reachable_step [OF _ diag_step.around]) (simp_all add: simps)
  then have "diag_reachable (?w ?g L_Read False False True (?j J_Scan))"
    by (rule diag_reachable_step [OF _ diag_step.client [where c = True and p = ?p]]) (simp_all add: simps)
  then have "diag_reachable (?w ?g L_Changed True False True (?j J_Scan))"
    by (rule diag_reachable_step [OF _ diag_step.held]) (simp_all add: simps)
  then have "diag_reachable (?w ?g L_Ack True True True (?j J_Scan))"
    by (rule diag_reachable_step [OF _ diag_step.changed]) (simp_all add: simps)
  then have "diag_reachable ((scan_world J_Scan)\<lparr>dw_pc := L_Pass\<rparr>)"
    by (rule diag_reachable_step [OF _ diag_step.ack]) (simp_all add: simps)
  then show ?thesis by (rule diag_reachable_step [OF _ diag_step.around]) (simp_all add: simps)
qed

theorem diag_hold_exclusive_witness:
  "dg_holders (dw_gate (scan_world J_Scan)) \<noteq> [] \<and>
    (U_Scan By_Poller \<in> {U_None, U_Client_Restore} \<or>
     (\<exists>by. U_Scan By_Poller = U_Scan by \<and> cj_task (dw_jobs (scan_world J_Scan)) = Some (by, J_Scan)) \<or>
     U_Scan By_Poller = U_Other_Job \<and> cj_other (dw_jobs (scan_world J_Scan)))"
proof -
  have "diag_step (scan_world J_Scan) (U_Scan By_Poller) (scan_world J_Scan)"
    by (rule diag_step.scan) (simp add: scan_world_def)
  from diag_hold_exclusive [OF scan_world_reachable, of 0 500, OF _ _ this] show ?thesis
    by (simp add: scan_world_def diag_wait_look_def)
qed

text \<open>The acknowledgment does not wait for a scan that is on its way: it talks to the chip that the tool was
  told the poller has left.\<close>

theorem scan_outlives_ack:
  "\<exists>w. diag_reachable (w :: nat diag_world) \<and> dg_acked (dw_gate w) \<and> diag_step w (U_Scan By_Poller) w"
proof -
  have "diag_step (scan_world J_Scan) (U_Scan By_Poller) (scan_world J_Scan)"
    by (rule diag_step.scan) (simp add: scan_world_def)
  then show ?thesis using scan_world_reachable by (auto simp: scan_world_def)
qed

text \<open>A request starts a scan although a tool holds the bus.\<close>

theorem request_ignores_hold:
  assumes "\<not> cj_dtc_busy (dw_jobs w)" "\<not> cj_taken (dw_jobs w)"
  shows "\<exists>w'. diag_step w U_None w' \<and> dw_gate w' = dw_gate w \<and> cj_task (dw_jobs w') = Some (By_Request, J_Spawned)"
proof -
  have "diag_step w U_None (w\<lparr>dw_jobs := ap_dtc_scan_start True True True 0 By_Request (dw_jobs w)\<rparr>)" by (rule diag_step.request)
  moreover have "cj_task (ap_dtc_scan_start True True True 0 By_Request (dw_jobs w)) = Some (By_Request, J_Spawned)"
    using assms by (simp add: ap_dtc_scan_start_def)
  ultimately show ?thesis by (intro exI [of _ "w\<lparr>dw_jobs := ap_dtc_scan_start True True True 0 By_Request (dw_jobs w)\<rparr>"]) simp
qed

text \<open>The end of a client's pause does not ask for the hold: the baseline goes to the chip that a tool
  has for itself.\<close>

theorem client_resume_ignores_hold:
  "\<exists>w w'. diag_reachable (w :: nat diag_world) \<and> dg_acked (dw_gate w) \<and> diag_step w U_Client_Restore w'"
proof -
  let ?p = "\<lparr>ps_enabled = True, ps_voltage = False, ps_scan = False, ps_client = False, ps_diag = False, ps_voltage_all = False, ps_guard_ok = False\<rparr>"
  have "diag_step (scan_world J_Scan) U_Client_Restore ((scan_world J_Scan)\<lparr>dw_paused_client := False, dw_pc := L_Read\<rparr>)"
    by (rule diag_step.client [where p = ?p]) (simp_all add: scan_world_def may_restore_def)
  then show ?thesis using scan_world_reachable by (auto simp: scan_world_def)
qed

text \<open>A fifth tool that asks for the bus is refused without being told so.\<close>

theorem fifth_hold_refused:
  "dg_holders (fst (og_diag_set \<lparr>dg_holders = [1, 2, 3, 4 :: nat], dg_acked = True, dg_poller_seen = True, dg_holds = 4,
     dg_releases = 0, dg_overflow = 0\<rparr> (Some 5) True)) = [1, 2, 3, 4]"
  by (simp add: og_diag_set_def)

end
