(* ===== verification/Flash_Jobs.thy ===== *)
theory Flash_Jobs
  imports Prelude
begin

text \<open>
  \<^verbatim>\<open>components/flash_jobs/flash_jobs_core.c\<close> and \<^verbatim>\<open>flash_jobs.c\<close>: jobs that touch the flash run on a
  worker task with an internal stack, created when a job needs one and gone after five idle seconds. A
  caller publishes one job at a time, wakes the worker and waits for it.

  The functions of the core are translated as they are. The tasks are a step relation: a step of a
  caller or of the worker is the code between two points where the other may come in (a semaphore, a
  section under the spinlock, a call of the job). The callers are serialized by a lock, so one is
  inside at a time. A binary semaphore is a truth value; a job is any value, its result an \<open>esp_err_t\<close>.
\<close>

section \<open>The core\<close>

abbreviation (input) FLASH_JOBS_LOG_PERIOD_MS :: u32 where "FLASH_JOBS_LOG_PERIOD_MS \<equiv> 10000"

record fj_state =
  fj_worker_alive :: bool
  fj_job_pending :: bool
  fj_inline_runs :: u32
  fj_marshalled :: u32
  fj_spawns :: u32
  fj_exits :: u32
  fj_refusals :: u32
  fj_stack_hw_min :: u32
  fj_last_log_ms :: u32
  fj_logged_once :: bool

datatype fj_route_t = FJ_INLINE | FJ_MARSHAL

datatype fj_worker_step = FJ_WORKER_RUN | FJ_WORKER_WAIT | FJ_WORKER_EXIT

definition fj_route :: "bool \<Rightarrow> fj_route_t" where
  "fj_route on_internal_stack = (if on_internal_stack then FJ_INLINE else FJ_MARSHAL)"

definition fj_publish :: "fj_state \<Rightarrow> fj_state \<times> bool" where
  "fj_publish st = (st\<lparr>fj_job_pending := True\<rparr>, \<not> fj_worker_alive st)"

definition fj_spawned :: "fj_state \<Rightarrow> bool \<Rightarrow> fj_state" where
  "fj_spawned st ok =
     (if ok then st\<lparr>fj_worker_alive := True, fj_spawns := fj_spawns st + 1\<rparr> else st\<lparr>fj_job_pending := False\<rparr>)"

definition fj_worker_wake :: "fj_state \<Rightarrow> bool \<Rightarrow> fj_state \<times> fj_worker_step" where
  "fj_worker_wake st signalled =
     (if fj_job_pending st then (st\<lparr>fj_job_pending := False\<rparr>, FJ_WORKER_RUN)
      else if \<not> signalled then (st\<lparr>fj_worker_alive := False\<rparr>, FJ_WORKER_EXIT)
      else (st, FJ_WORKER_WAIT))"

definition fj_done :: "fj_state \<Rightarrow> fj_route_t \<Rightarrow> fj_state" where
  "fj_done st how =
     (case how of
        FJ_INLINE \<Rightarrow> st\<lparr>fj_inline_runs := fj_inline_runs st + 1\<rparr>
      | FJ_MARSHAL \<Rightarrow> st\<lparr>fj_marshalled := fj_marshalled st + 1\<rparr>)"

definition fj_worker_exit :: "fj_state \<Rightarrow> u32 \<Rightarrow> fj_state" where
  "fj_worker_exit st stack_hw =
     (let st1 = st\<lparr>fj_exits := fj_exits st + 1\<rparr>
      in if stack_hw \<noteq> 0 \<and> (fj_stack_hw_min st = 0 \<or> stack_hw < fj_stack_hw_min st)
         then st1\<lparr>fj_stack_hw_min := stack_hw\<rparr> else st1)"

definition fj_refused :: "fj_state \<Rightarrow> u32 \<Rightarrow> fj_state \<times> bool" where
  "fj_refused st now_ms =
     (let st1 = st\<lparr>fj_refusals := fj_refusals st + 1\<rparr>
      in if \<not> fj_logged_once st \<or> now_ms - fj_last_log_ms st \<ge> FLASH_JOBS_LOG_PERIOD_MS
         then (st1\<lparr>fj_logged_once := True, fj_last_log_ms := now_ms\<rparr>, True) else (st1, False))"

section \<open>Callers and worker\<close>

abbreviation (input) ESP_FAIL :: int where "ESP_FAIL \<equiv> -1"

text \<open>Where a call goes before anything is locked.\<close>

datatype fj_entry = E_INVALID_ARG | E_INVALID_STATE | E_INLINE | E_MARSHAL

definition flash_jobs_entry :: "bool \<Rightarrow> bool \<Rightarrow> bool \<Rightarrow> fj_entry" where
  "flash_jobs_entry has_fn on_internal_stack inited =
     (if \<not> has_fn then E_INVALID_ARG
      else if fj_route on_internal_stack = FJ_INLINE then E_INLINE
      else if \<not> inited then E_INVALID_STATE
      else E_MARSHAL)"

text \<open>Where the caller that holds the lock is, and where the worker is.\<close>

datatype 'j fj_caller = C_Idle | C_Publish 'j | C_Spawn 'j | C_Spawned 'j | C_Signal 'j | C_Wait 'j | C_Return 'j

datatype 'j fj_worker = W_None | W_Wait | W_Look bool | W_Run 'j | W_Give

record 'j fj_world =
  fw_st :: fj_state
  fw_wake :: bool
  fw_done :: bool
  fw_job :: "'j option"
  fw_err :: int
  fw_caller :: "'j fj_caller"
  fw_worker :: "'j fj_worker"
  fw_runs :: "('j \<times> int) list"
  fw_returns :: "('j \<times> int option) list"

definition fj_zero :: fj_state where
  "fj_zero = \<lparr>fj_worker_alive = False, fj_job_pending = False, fj_inline_runs = 0, fj_marshalled = 0, fj_spawns = 0,
     fj_exits = 0, fj_refusals = 0, fj_stack_hw_min = 0, fj_last_log_ms = 0, fj_logged_once = False\<rparr>"

definition flash_jobs_init :: "'j fj_world" where
  "flash_jobs_init = \<lparr>fw_st = fj_zero, fw_wake = False, fw_done = False, fw_job = None, fw_err = 0, fw_caller = C_Idle,
     fw_worker = W_None, fw_runs = [], fw_returns = []\<rparr>"

text \<open>The steps of a marshalled call of \<open>flash_jobs_run\<close>: \<open>timely\<close> says that the worker's first idle
  period never ends between its creation and the section that records it.\<close>

inductive fj_step :: "bool \<Rightarrow> 'j fj_world \<Rightarrow> 'j fj_world \<Rightarrow> bool" for timely where
  call: "fw_caller w = C_Idle \<Longrightarrow>
    fj_step timely w (w\<lparr>fw_job := Some j, fw_err := ESP_FAIL, fw_caller := C_Publish j\<rparr>)"
| publish: "fw_caller w = C_Publish j \<Longrightarrow> fj_publish (fw_st w) = (st, need) \<Longrightarrow>
    fj_step timely w (w\<lparr>fw_st := st, fw_caller := (if need then C_Spawn j else C_Signal j)\<rparr>)"
| create: "fw_caller w = C_Spawn j \<Longrightarrow>
    fj_step timely w (w\<lparr>fw_worker := W_Wait, fw_caller := C_Spawned j\<rparr>)"
| refused: "fw_caller w = C_Spawn j \<Longrightarrow>
    fj_step timely w (w\<lparr>fw_st := fst (fj_refused (fj_spawned (fw_st w) False) now_ms), fw_caller := C_Idle,
      fw_returns := fw_returns w @ [(j, None)]\<rparr>)"
| spawned: "fw_caller w = C_Spawned j \<Longrightarrow>
    fj_step timely w (w\<lparr>fw_st := fj_spawned (fw_st w) True, fw_caller := C_Signal j\<rparr>)"
| signal: "fw_caller w = C_Signal j \<Longrightarrow> fj_step timely w (w\<lparr>fw_wake := True, fw_caller := C_Wait j\<rparr>)"
| taken: "fw_caller w = C_Wait j \<Longrightarrow> fw_done w \<Longrightarrow> fj_step timely w (w\<lparr>fw_done := False, fw_caller := C_Return j\<rparr>)"
| return: "fw_caller w = C_Return j \<Longrightarrow>
    fj_step timely w (w\<lparr>fw_st := fj_done (fw_st w) FJ_MARSHAL, fw_caller := C_Idle,
      fw_returns := fw_returns w @ [(j, Some (fw_err w))]\<rparr>)"
| wake: "fw_worker w = W_Wait \<Longrightarrow> fw_wake w \<Longrightarrow> fj_step timely w (w\<lparr>fw_wake := False, fw_worker := W_Look True\<rparr>)"
| timeout: "fw_worker w = W_Wait \<Longrightarrow> \<not> fw_wake w \<Longrightarrow> (timely \<longrightarrow> (\<forall>j. fw_caller w \<noteq> C_Spawned j)) \<Longrightarrow>
    fj_step timely w (w\<lparr>fw_worker := W_Look False\<rparr>)"
| look: "fw_worker w = W_Look signalled \<Longrightarrow> fj_worker_wake (fw_st w) signalled = (st, nx) \<Longrightarrow>
    fj_step timely w (w\<lparr>fw_st := st, fw_worker :=
      (case nx of FJ_WORKER_RUN \<Rightarrow> W_Run (the (fw_job w)) | FJ_WORKER_WAIT \<Rightarrow> W_Wait | FJ_WORKER_EXIT \<Rightarrow> W_None)\<rparr>)"
| run: "fw_worker w = W_Run j \<Longrightarrow>
    fj_step timely w (w\<lparr>fw_err := e, fw_worker := W_Give, fw_runs := fw_runs w @ [(j, e)]\<rparr>)"
| give: "fw_worker w = W_Give \<Longrightarrow> fj_step timely w (w\<lparr>fw_done := True, fw_worker := W_Wait\<rparr>)"

text \<open>Steps that only count: a job in line, and what a worker that has left reports.\<close>

inductive fj_aside :: "'j fj_world \<Rightarrow> 'j fj_world \<Rightarrow> bool" where
  inline: "fj_aside w (w\<lparr>fw_st := fj_done (fw_st w) FJ_INLINE\<rparr>)"
| left: "fj_aside w (w\<lparr>fw_st := fj_worker_exit (fw_st w) stack_hw\<rparr>)"

inductive fj_reachable :: "bool \<Rightarrow> 'j fj_world \<Rightarrow> bool" for timely where
  init: "fj_reachable timely flash_jobs_init"
| step: "fj_reachable timely w \<Longrightarrow> fj_step timely w w' \<Longrightarrow> fj_reachable timely w'"
| aside: "fj_reachable timely w \<Longrightarrow> fj_aside w w' \<Longrightarrow> fj_reachable timely w'"

section \<open>No job is lost and none is run twice\<close>

inductive_cases fj_stepE: "fj_step timely w w'"

inductive_cases fj_asideE: "fj_aside w w'"

definition accepted :: "('j \<times> int option) list \<Rightarrow> ('j \<times> int) list" where
  "accepted rs = map (\<lambda>(j, e). (j, the e)) (filter (\<lambda>(j, e). e \<noteq> None) rs)"

lemma accepted_simps [simp]:
  "accepted [] = []" "accepted (rs @ [(j, None)]) = accepted rs" "accepted (rs @ [(j, Some e)]) = accepted rs @ [(j, e)]"
  by (simp_all add: accepted_def)

fun call_job :: "'j fj_caller \<Rightarrow> 'j option" where
  "call_job C_Idle = None"
| "call_job (C_Publish j) = Some j"
| "call_job (C_Spawn j) = Some j"
| "call_job (C_Spawned j) = Some j"
| "call_job (C_Signal j) = Some j"
| "call_job (C_Wait j) = Some j"
| "call_job (C_Return j) = Some j"

fun idle_worker :: "'j fj_worker \<Rightarrow> bool" where
  "idle_worker (W_Run j) = False"
| "idle_worker W_Give = False"
| "idle_worker _ = True"

text \<open>The published job is pending, running, or has run and its caller may go on.\<close>

definition job_fresh :: "'j fj_world \<Rightarrow> bool" where
  "job_fresh w \<longleftrightarrow> fj_job_pending (fw_st w) \<and> \<not> fw_done w \<and> idle_worker (fw_worker w) \<and>
     fw_runs w = accepted (fw_returns w)"

definition job_running :: "'j \<Rightarrow> 'j fj_world \<Rightarrow> bool" where
  "job_running j w \<longleftrightarrow> \<not> fj_job_pending (fw_st w) \<and> \<not> fw_done w \<and> fw_worker w = W_Run j \<and>
     fw_runs w = accepted (fw_returns w)"

definition job_ran :: "'j \<Rightarrow> 'j fj_world \<Rightarrow> bool" where
  "job_ran j w \<longleftrightarrow> \<not> fj_job_pending (fw_st w) \<and> fw_runs w = accepted (fw_returns w) @ [(j, fw_err w)] \<and>
     (if fw_done w then idle_worker (fw_worker w) else fw_worker w = W_Give)"

definition no_job :: "'j fj_world \<Rightarrow> bool" where
  "no_job w \<longleftrightarrow> \<not> fj_job_pending (fw_st w) \<and> \<not> fw_done w \<and> idle_worker (fw_worker w)"

lemmas job_phases = job_fresh_def job_running_def job_ran_def no_job_def

definition fj_inv :: "'j fj_world \<Rightarrow> bool" where
  [inv_simps]: "fj_inv w \<longleftrightarrow>
     (case fw_caller w of
        C_Idle \<Rightarrow> no_job w \<and> fw_runs w = accepted (fw_returns w)
      | C_Publish j \<Rightarrow> fw_job w = Some j \<and> no_job w \<and> fw_runs w = accepted (fw_returns w)
      | C_Spawn j \<Rightarrow> fw_job w = Some j \<and> job_fresh w \<and> \<not> fj_worker_alive (fw_st w)
      | C_Return j \<Rightarrow> no_job w \<and> fw_runs w = accepted (fw_returns w) @ [(j, fw_err w)]
      | C_Spawned j \<Rightarrow> fw_job w = Some j \<and> (job_fresh w \<or> job_running j w \<or> job_ran j w)
      | C_Signal j \<Rightarrow> fw_job w = Some j \<and> (job_fresh w \<or> job_running j w \<or> job_ran j w)
      | C_Wait j \<Rightarrow> fw_job w = Some j \<and> (job_fresh w \<and> (fw_wake w \<or> fw_worker w \<noteq> W_Wait) \<or> job_running j w \<or> job_ran j w)) \<and>
     (fj_worker_alive (fw_st w) \<or> fw_worker w = W_None \<or> (\<exists>j. fw_caller w = C_Spawned j))"

lemmas fj_simps = fj_publish_def fj_spawned_def fj_done_def fj_refused_def fj_worker_exit_def Let_def

lemma fj_inv_step: "fj_step timely w w' \<Longrightarrow> fj_inv w \<Longrightarrow> fj_inv w'"
proof (induction rule: fj_step.induct)
  case (look w signalled st nx)
  then show ?case
    by (auto simp: fj_inv_def job_phases fj_worker_wake_def split: fj_caller.splits if_splits)
next
  case (run w j e)
  then show ?case by (cases "fw_caller w") (auto simp: fj_inv_def job_phases split: if_splits)
next
  case (give w)
  then show ?case by (cases "fw_caller w") (auto simp: fj_inv_def job_phases split: if_splits)
next
  case (wake w)
  then show ?case by (cases "fw_caller w") (auto simp: fj_inv_def job_phases split: if_splits)
next
  case (timeout w)
  then show ?case by (cases "fw_caller w") (auto simp: fj_inv_def job_phases split: if_splits)
next
  case (publish w j st need)
  then show ?case by (cases "fj_worker_alive (fw_st w)") (auto simp: fj_inv_def job_phases fj_publish_def)
qed (auto simp: fj_inv_def job_phases fj_simps)

lemma fj_inv_counters:
  assumes "fj_job_pending st = fj_job_pending (fw_st w)" "fj_worker_alive st = fj_worker_alive (fw_st w)"
  shows "fj_inv (w\<lparr>fw_st := st\<rparr>) \<longleftrightarrow> fj_inv w"
  using assms by (simp add: fj_inv_def job_phases split: fj_caller.split)

lemma fj_inv_aside: "fj_aside w w' \<Longrightarrow> fj_inv w \<Longrightarrow> fj_inv w'"
  by (auto elim!: fj_asideE simp: fj_inv_counters fj_simps)

lemma fj_inv_reachable: "fj_reachable timely w \<Longrightarrow> fj_inv w"
proof (induction rule: fj_reachable.induct)
  case init
  then show ?case by (simp add: flash_jobs_init_def fj_inv_def no_job_def fj_zero_def)
qed (blast intro: fj_inv_step fj_inv_aside)+

text \<open>A worker is created only when there is none.\<close>

lemma one_worker: "fj_reachable timely w \<Longrightarrow> fw_caller w = C_Spawn j \<Longrightarrow> fj_worker_alive (fw_st w) \<or> fw_worker w = W_None"
  using fj_inv_reachable [of timely w] by (auto simp: fj_inv_def)

text \<open>The results the calls have returned are those of the runs, in their order: no more has run than
  the job of the call in progress.\<close>

text \<open>C26. In every interleaving of callers and worker each call that returns a result returns
  that of the one run of its own job: the runs are the returned calls in order, with at most
  the job of the call in progress after them.\<close>

theorem marshalled_once:
  assumes "fj_reachable timely w"
  shows "\<exists>rest. fw_runs w = accepted (fw_returns w) @ rest \<and>
    (case call_job (fw_caller w) of
       None \<Rightarrow> rest = []
     | Some j \<Rightarrow> rest = [] \<and> (\<forall>k. fw_caller w \<noteq> C_Return k) \<or> rest = [(j, fw_err w)])"
  using fj_inv_reachable [OF assms] by (auto simp: fj_inv_def job_phases split: fj_caller.splits)

section \<open>Every call returns\<close>

fun caller_weight :: "'j fj_caller \<Rightarrow> nat" where
  "caller_weight C_Idle = 0"
| "caller_weight (C_Publish j) = 23"
| "caller_weight (C_Spawn j) = 12"
| "caller_weight (C_Spawned j) = 9"
| "caller_weight (C_Signal j) = 8"
| "caller_weight (C_Wait j) = 2"
| "caller_weight (C_Return j) = 1"

fun worker_weight :: "'j fj_worker \<Rightarrow> nat" where
  "worker_weight W_None = 0"
| "worker_weight W_Wait = 2"
| "worker_weight (W_Look signalled) = (if signalled then 3 else 1)"
| "worker_weight (W_Run j) = 6"
| "worker_weight W_Give = 4"

definition fj_left :: "'j fj_world \<Rightarrow> nat" where
  "fj_left w = caller_weight (fw_caller w) + worker_weight (fw_worker w) + (if fw_wake w then 5 else 0) +
     (if fj_job_pending (fw_st w) then 10 else 0)"

lemma fj_left_step: "fj_step timely w w' \<Longrightarrow> fj_inv w \<Longrightarrow> fw_caller w \<noteq> C_Idle \<Longrightarrow> fj_left w' < fj_left w"
proof (induction rule: fj_step.induct)
  case (look w signalled st nx)
  then show ?case by (auto simp: fj_left_def fj_worker_wake_def split: if_splits)
qed (auto simp: fj_left_def fj_simps fj_inv_def job_phases)

lemma fj_aside_counts:
  assumes "fj_aside w w'"
  shows "\<exists>st. w' = w\<lparr>fw_st := st\<rparr> \<and> fj_job_pending st = fj_job_pending (fw_st w) \<and> fj_worker_alive st = fj_worker_alive (fw_st w)"
  using assms by (rule fj_asideE) (force simp: fj_simps)+

lemma fj_left_aside: "fj_aside w w' \<Longrightarrow> fj_left w' = fj_left w \<and> fw_caller w' = fw_caller w"
  by (auto dest!: fj_aside_counts simp: fj_left_def)

lemma fj_left_bound: "fj_left w \<le> 44"
  by (cases "fw_caller w"; cases "fw_worker w") (auto simp: fj_left_def)

text \<open>\<open>n\<close> steps of the caller and the worker inside a call, with any of the others between them.\<close>

inductive fj_call_path :: "bool \<Rightarrow> 'j fj_world \<Rightarrow> nat \<Rightarrow> 'j fj_world \<Rightarrow> bool" for timely w where
  start: "fj_call_path timely w 0 w"
| step: "fj_call_path timely w n v \<Longrightarrow> fw_caller v \<noteq> C_Idle \<Longrightarrow> fj_step timely v v' \<Longrightarrow> fj_call_path timely w (Suc n) v'"
| aside: "fj_call_path timely w n v \<Longrightarrow> fw_caller v \<noteq> C_Idle \<Longrightarrow> fj_aside v v' \<Longrightarrow> fj_call_path timely w n v'"

lemma fj_call_path_left:
  "fj_call_path timely w n v \<Longrightarrow> fj_reachable timely w \<Longrightarrow> fj_reachable timely v \<and> fj_left v + n \<le> fj_left w"
proof (induction rule: fj_call_path.induct)
  case (step n v v')
  then show ?case using fj_left_step [OF step(3)] fj_inv_reachable [of timely v] by (auto intro: fj_reachable.step)
next
  case (aside n v v')
  then show ?case using fj_left_aside [OF aside(3)] by (auto intro: fj_reachable.aside)
qed simp

text \<open>In time, there is a live worker from its creation to the end of the call.\<close>

definition fj_live :: "'j fj_world \<Rightarrow> bool" where
  "fj_live w \<longleftrightarrow> (fj_worker_alive (fw_st w) \<longrightarrow> fw_worker w \<noteq> W_None) \<and>
     (\<forall>j. fw_caller w = C_Spawned j \<longrightarrow> fw_worker w \<noteq> W_None \<and> fw_worker w \<noteq> W_Look False) \<and>
     (\<forall>j. (fw_caller w = C_Signal j \<or> fw_caller w = C_Wait j) \<and> fj_job_pending (fw_st w) \<longrightarrow> fj_worker_alive (fw_st w))"

lemma fj_live_step: "fj_step True w w' \<Longrightarrow> fj_live w \<Longrightarrow> fj_live w'"
proof (induction rule: fj_step.induct)
  case (look w signalled st nx)
  then show ?case by (auto simp: fj_live_def fj_worker_wake_def split: if_splits)
qed (auto simp: fj_live_def fj_simps)

lemma fj_live_aside: "fj_aside w w' \<Longrightarrow> fj_live w \<Longrightarrow> fj_live w'"
  by (auto dest!: fj_aside_counts simp: fj_live_def)

lemma fj_live_reachable: "fj_reachable True w \<Longrightarrow> fj_live w"
proof (induction rule: fj_reachable.induct)
  case init
  then show ?case by (simp add: flash_jobs_init_def fj_live_def fj_zero_def)
next
  case (step w w')
  then show ?case using fj_live_step by blast
qed (rule fj_live_aside)

lemma fj_not_stuck:
  assumes "fj_reachable True w" "fw_caller w \<noteq> C_Idle"
  shows "\<exists>w'. fj_step True w w'"
proof -
  note inv = fj_inv_reachable [OF assms(1)] fj_live_reachable [OF assms(1)]
  obtain st' need where publish: "fj_publish (fw_st w) = (st', need)" by force
  have wait: ?thesis if "fw_caller w = C_Wait j" for j
  proof (cases "fw_worker w")
    case W_None
    then show ?thesis using inv that fj_step.taken [of w j True] by (auto simp: fj_inv_def fj_live_def job_phases split: if_splits)
  next
    case W_Wait
    then show ?thesis using that fj_step.wake [of w True] fj_step.timeout [of w True] by (cases "fw_wake w") auto
  next
    case (W_Look s)
    obtain st nx where "fj_worker_wake (fw_st w) s = (st, nx)" by force
    then show ?thesis using W_Look fj_step.look by blast
  qed (blast intro: fj_step.run fj_step.give)+
  show ?thesis
  proof (cases "fw_caller w")
    case C_Idle
    then show ?thesis using assms(2) by simp
  next
    case (C_Publish j)
    show ?thesis by (rule exI, rule fj_step.publish [OF C_Publish publish])
  next
    case (C_Spawn j)
    show ?thesis by (rule exI, rule fj_step.create [OF C_Spawn])
  next
    case (C_Spawned j)
    show ?thesis by (rule exI, rule fj_step.spawned [OF C_Spawned])
  next
    case (C_Signal j)
    show ?thesis by (rule exI, rule fj_step.signal [OF C_Signal])
  next
    case (C_Return j)
    show ?thesis by (rule exI, rule fj_step.return [OF C_Return])
  qed (rule wait)
qed

text \<open>In time, a call is never stuck, and at most 44 steps of its caller and the worker lie between its
  begin and its return.\<close>

text \<open>C27. When a new worker is recorded before its first idle period is over, no call is ever
  stuck and at most 44 steps of the caller and the worker lie between its begin and its
  return.\<close>

theorem flash_job_returns:
  assumes "fj_reachable True w" "fj_call_path True w n v"
  shows "n \<le> 44 \<and> (fw_caller v = C_Idle \<or> (\<exists>v'. fj_step True v v'))"
proof -
  from fj_call_path_left [OF assms(2,1)] have "fj_reachable True v" "fj_left v + n \<le> fj_left w" by auto
  then show ?thesis using fj_not_stuck [of v] fj_left_bound [of w] by auto
qed

text \<open>The first call, up to its pending job.\<close>

definition fj_asked :: "nat fj_world" where
  "fj_asked = flash_jobs_init\<lparr>fw_job := Some 1, fw_err := -1, fw_st := fj_zero\<lparr>fj_job_pending := True\<rparr>, fw_caller := C_Spawn 1\<rparr>"

lemma fj_step_eq: "fj_step timely w v \<Longrightarrow> v = v' \<Longrightarrow> fj_step timely w v'"
  by simp

lemma fj_asked_steps:
  "fj_step timely flash_jobs_init (flash_jobs_init\<lparr>fw_job := Some 1, fw_err := -1, fw_caller := C_Publish 1\<rparr>)"
  "fj_step timely (flash_jobs_init\<lparr>fw_job := Some 1, fw_err := -1, fw_caller := C_Publish 1\<rparr>) fj_asked"
proof -
  show "fj_step timely flash_jobs_init (flash_jobs_init\<lparr>fw_job := Some 1, fw_err := -1, fw_caller := C_Publish 1\<rparr>)"
    by (rule fj_step.call) (simp add: flash_jobs_init_def)
  show "fj_step timely (flash_jobs_init\<lparr>fw_job := Some 1, fw_err := -1, fw_caller := C_Publish 1\<rparr>) fj_asked"
    by (rule fj_step_eq [OF fj_step.publish [where j = 1 and need = True]])
      (simp_all add: fj_asked_def flash_jobs_init_def fj_publish_def fj_zero_def)
qed

lemma fj_asked_reachable: "fj_reachable timely fj_asked"
  using fj_reachable.step [OF fj_reachable.step [OF fj_reachable.init fj_asked_steps(1)] fj_asked_steps(2)] .

theorem marshalled_once_witness:
  "\<exists>rest. fw_runs fj_asked = accepted (fw_returns fj_asked) @ rest"
  using marshalled_once [OF fj_asked_reachable] by auto

theorem flash_job_returns_witness: "(1 :: nat) \<le> 44 \<and> fw_caller fj_asked \<noteq> C_Idle \<and> (\<exists>v'. fj_step True fj_asked v')"
proof -
  have "fj_step True fj_asked (fj_asked\<lparr>fw_worker := W_Wait, fw_caller := C_Spawned 1\<rparr>)"
    by (rule fj_step.create) (simp add: fj_asked_def)
  then have "fj_call_path True fj_asked 0 fj_asked"
    by (auto intro: fj_call_path.intros)
  then show ?thesis using flash_job_returns [OF fj_asked_reachable, of 0 fj_asked] by (auto simp: fj_asked_def)
qed

section \<open>A creation that takes longer than the idle period\<close>

text \<open>When the section that records a new worker comes after the worker has run its job and left, the
  worker that is gone counts as alive: the next call waits for ever.\<close>

definition fj_gone :: "nat fj_world" where
  "fj_gone = \<lparr>fw_st = fj_zero\<lparr>fj_worker_alive := True, fj_spawns := 1, fj_marshalled := 1, fj_job_pending := True\<rparr>, fw_wake = True,
     fw_done = False, fw_job = Some 2, fw_err = -1, fw_caller = C_Wait 2, fw_worker = W_None, fw_runs = [(1, 0)],
     fw_returns = [(1, Some 0)]\<rparr>"

lemma fj_gone_stuck: "\<not> fj_step timely fj_gone w"
  by (auto elim!: fj_stepE simp: fj_gone_def)

lemma fj_reachable_next: "fj_reachable timely w \<Longrightarrow> fj_step timely w v \<Longrightarrow> v = v' \<Longrightarrow> fj_reachable timely v'"
  by (auto intro: fj_reachable.step)

lemma fj_gone_reachable: "fj_reachable False fj_gone"
proof -
  let ?w = "fj_world.make :: _ \<Rightarrow> _ \<Rightarrow> _ \<Rightarrow> nat option \<Rightarrow> _"
  let ?s1 = "fj_zero\<lparr>fj_worker_alive := True, fj_spawns := 1\<rparr>"
  let ?s2 = "?s1\<lparr>fj_marshalled := 1\<rparr>"
  note simps = fj_world.defs fj_zero_def fj_worker_wake_def fj_spawned_def fj_done_def fj_publish_def
  have "fj_reachable False (fj_asked\<lparr>fw_worker := W_Wait, fw_caller := C_Spawned 1\<rparr>)"
    by (rule fj_reachable_next [OF fj_asked_reachable fj_step.create]) (simp_all add: fj_asked_def)
  then have "fj_reachable False (fj_asked\<lparr>fw_worker := W_Look False, fw_caller := C_Spawned 1\<rparr>)"
    by (rule fj_reachable_next [OF _ fj_step.timeout]) (simp_all add: fj_asked_def flash_jobs_init_def)
  then have "fj_reachable False (?w fj_zero False False (Some 1) (-1) (C_Spawned 1) (W_Run 1) [] [])"
    by (rule fj_reachable_next [OF _ fj_step.look [where nx = FJ_WORKER_RUN and signalled = False]])
      (simp_all add: simps fj_asked_def flash_jobs_init_def)
  then have "fj_reachable False (?w fj_zero False False (Some 1) 0 (C_Spawned 1) W_Give [(1, 0)] [])"
    by (rule fj_reachable_next [OF _ fj_step.run [where e = 0]]) (simp_all add: simps)
  then have "fj_reachable False (?w fj_zero False True (Some 1) 0 (C_Spawned 1) W_Wait [(1, 0)] [])"
    by (rule fj_reachable_next [OF _ fj_step.give]) (simp_all add: simps)
  then have "fj_reachable False (?w fj_zero False True (Some 1) 0 (C_Spawned 1) (W_Look False) [(1, 0)] [])"
    by (rule fj_reachable_next [OF _ fj_step.timeout]) (simp_all add: simps)
  then have "fj_reachable False (?w fj_zero False True (Some 1) 0 (C_Spawned 1) W_None [(1, 0)] [])"
    by (rule fj_reachable_next [OF _ fj_step.look [where nx = FJ_WORKER_EXIT and signalled = False]]) (simp_all add: simps)
  then have "fj_reachable False (?w ?s1 False True (Some 1) 0 (C_Signal 1) W_None [(1, 0)] [])"
    by (rule fj_reachable_next [OF _ fj_step.spawned]) (simp_all add: simps)
  then have "fj_reachable False (?w ?s1 True True (Some 1) 0 (C_Wait 1) W_None [(1, 0)] [])"
    by (rule fj_reachable_next [OF _ fj_step.signal]) (simp_all add: simps)
  then have "fj_reachable False (?w ?s1 True False (Some 1) 0 (C_Return 1) W_None [(1, 0)] [])"
    by (rule fj_reachable_next [OF _ fj_step.taken]) (simp_all add: simps)
  then have "fj_reachable False (?w ?s2 True False (Some 1) 0 C_Idle W_None [(1, 0)] [(1, Some 0)])"
    by (rule fj_reachable_next [OF _ fj_step.return]) (simp_all add: simps)
  then have "fj_reachable False (?w ?s2 True False (Some 2) (-1) (C_Publish 2) W_None [(1, 0)] [(1, Some 0)])"
    by (rule fj_reachable_next [OF _ fj_step.call [where j = 2]]) (simp_all add: simps)
  then have "fj_reachable False (?w (?s2\<lparr>fj_job_pending := True\<rparr>) True False (Some 2) (-1) (C_Signal 2) W_None [(1, 0)] [(1, Some 0)])"
    by (rule fj_reachable_next [OF _ fj_step.publish [where need = False]]) (simp_all add: simps)
  then show ?thesis by (rule fj_reachable_next [OF _ fj_step.signal]) (simp_all add: simps fj_gone_def)
qed

theorem slow_creation_blocks:
  "fj_reachable False fj_gone \<and> fw_caller fj_gone = C_Wait 2 \<and> (\<forall>w. \<not> fj_step False fj_gone w)"
  using fj_gone_reachable fj_gone_stuck by (simp add: fj_gone_def)

end
