(* ===== verification/FS_Path.thy ===== *)
theory FS_Path
  imports Prelude
begin

text \<open>
  \<^verbatim>\<open>components/filesystem/filesystem_path.c\<close>: which paths the filesystem component takes and where
  they lead, the folders the HTTP file surface never reaches, and the probe for a LittleFS superblock.
  A C string is a \<open>string\<close>, NULL is \<open>None\<close>; a function that fails with \<open>ESP_ERR_INVALID_ARG\<close>
  returns \<open>None\<close>.
\<close>

section \<open>Paths\<close>

abbreviation (input) FS_PATH_MAX :: nat where "FS_PATH_MAX \<equiv> 128"

datatype fs_backend = FS_BACKEND_INTERNAL | FS_BACKEND_SD

definition PREFIXES :: "(string \<times> fs_backend) list" where
  "PREFIXES = [(''/data'', FS_BACKEND_INTERNAL), (''/sd'', FS_BACKEND_SD)]"

definition char_ok :: "char \<Rightarrow> bool" where
  "char_ok c \<longleftrightarrow> 0x20 \<le> (of_char c :: nat) \<and> (of_char c :: nat) \<le> 0x7e \<and> c \<noteq> CHR 0x5C"

definition segment_ok :: "string \<Rightarrow> bool" where
  "segment_ok seg \<longleftrightarrow> seg \<noteq> [] \<and> seg \<noteq> ''.'' \<and> seg \<noteq> ''..'' \<and> list_all char_ok seg"

definition prefix_hit :: "string \<Rightarrow> string \<times> fs_backend \<Rightarrow> bool" where
  "prefix_hit path = (\<lambda>(prefix, _). take (length prefix) path = prefix \<and>
     (length path = length prefix \<or> path ! length prefix = CHR ''/''))"

text \<open>The loop over the segments: from a slash, or at the end of the path.\<close>

function segments_loop :: "string \<Rightarrow> bool" where
  "segments_loop [] = True"
| "segments_loop (c # rest) =
     (if c = CHR ''/''
      then segment_ok (takeWhile (\<lambda>x. x \<noteq> CHR ''/'') rest) \<and> segments_loop (dropWhile (\<lambda>x. x \<noteq> CHR ''/'') rest)
      else False)"
  by pat_completeness auto
termination by (relation "measure length") (auto simp: length_dropWhile_le less_Suc_eq_le)

definition fs_path_resolve :: "string option \<Rightarrow> fs_backend option" where
  "fs_path_resolve path =
     (case path of
        None \<Rightarrow> None
      | Some p \<Rightarrow>
          if p = [] \<or> length p \<ge> FS_PATH_MAX \<or> p ! 0 \<noteq> CHR ''/'' then None
          else (case find (prefix_hit p) PREFIXES of
                  None \<Rightarrow> None
                | Some (prefix, backend) \<Rightarrow>
                    if \<not> segments_loop (drop (length prefix) p) then None
                    else if last p = CHR ''/'' then None
                    else Some backend))"

definition fs_path_temp_name :: "string option \<Rightarrow> nat \<Rightarrow> string option" where
  "fs_path_temp_name path out_len =
     (case path of
        None \<Rightarrow> None
      | Some p \<Rightarrow>
          let need = length p + length ''.tmp'' + 1
          in if need > out_len \<or> need > FS_PATH_MAX then None else Some (p @ ''.tmp''))"

text \<open>The last slash of the path, \<open>None\<close> where there is none.\<close>

definition last_slash :: "string \<Rightarrow> nat option" where
  "last_slash p = (if CHR ''/'' \<in> set p then Some (length p - 1 - length (takeWhile (\<lambda>c. c \<noteq> CHR ''/'') (rev p))) else None)"

definition fs_path_parent :: "string option \<Rightarrow> nat \<Rightarrow> string option" where
  "fs_path_parent path out_len =
     (case path of
        None \<Rightarrow> None
      | Some p \<Rightarrow>
          (case last_slash p of
             None \<Rightarrow> None
           | Some plen \<Rightarrow> if plen = 0 \<or> plen + 1 > out_len then None else Some (take plen p)))"

section \<open>Hidden folders\<close>

definition HIDDEN :: "(string \<times> bool) list" where
  "HIDDEN = [(''/data/certs'', False), (''/data/backups'', False), (''/sd/backups'', True)]"

definition fold_char :: "bool \<Rightarrow> char \<Rightarrow> nat" where
  "fold_char fc c =
     (let ca = (of_char c :: nat) in if fc \<and> of_char (CHR ''A'') \<le> ca \<and> ca \<le> of_char (CHR ''Z'') then ca + 32 else ca)"

text \<open>Whether \<open>prefix_cmp\<close> gives 0: the strings agree in their first \<open>n\<close> characters or to their common end.\<close>

fun prefix_cmp_eq :: "string \<Rightarrow> string \<Rightarrow> nat \<Rightarrow> bool \<Rightarrow> bool" where
  "prefix_cmp_eq a b 0 fc = True"
| "prefix_cmp_eq [] [] (Suc n) fc = True"
| "prefix_cmp_eq (x # a) (y # b) (Suc n) fc = (fold_char fc x = fold_char fc y \<and> prefix_cmp_eq a b n fc)"
| "prefix_cmp_eq [] (y # b) (Suc n) fc = False"
| "prefix_cmp_eq (x # a) [] (Suc n) fc = False"

definition filesystem_api_hidden :: "string option \<Rightarrow> bool" where
  "filesystem_api_hidden path =
     (case path of
        None \<Rightarrow> False
      | Some p \<Rightarrow>
          list_ex (\<lambda>(prefix, fc). prefix_cmp_eq p prefix (length prefix) fc \<and>
            (length p = length prefix \<or> p ! length prefix = CHR ''/'')) HIDDEN)"

section \<open>The superblock probe\<close>

datatype fs_lfs_kind = FS_LFS_BLANK | FS_LFS_LITTLEFS | FS_LFS_OTHER

definition fs_region_is_blank :: "bytes option \<Rightarrow> bool" where
  "fs_region_is_blank buf = (case buf of None \<Rightarrow> False | Some b \<Rightarrow> b \<noteq> [] \<and> list_all (\<lambda>x. x = 0xFF) b)"

definition fs_le32 :: "bytes \<Rightarrow> u32" where
  "fs_le32 p = ucast (p ! 0) OR push_bit 8 (ucast (p ! 1)) OR push_bit 16 (ucast (p ! 2)) OR push_bit 24 (ucast (p ! 3))"

definition lfs_magic :: bytes where
  "lfs_magic = map of_char ''littlefs''"

definition superblock_at :: "bytes \<Rightarrow> u32 \<Rightarrow> nat \<Rightarrow> u32 option" where
  "superblock_at blk block_size m =
     (let st = drop (m + 12) blk; version = fs_le32 st; bsize = fs_le32 (drop 4 st); bcount = fs_le32 (drop 8 st)
      in if take 8 (drop m blk) \<noteq> lfs_magic then None
         else if drop_bit 16 version = 2 \<and> bsize = block_size \<and> bcount \<ge> 2 \<and> bcount \<le> push_bit 24 1 then Some bcount
         else None)"

definition fs_block_superblock :: "bytes \<Rightarrow> u32 \<Rightarrow> u32 option" where
  "fs_block_superblock blk block_size =
     (case filter (\<lambda>m. superblock_at blk block_size m \<noteq> None) [0..<length blk + 1 - 36] of
        [] \<Rightarrow> None
      | m # _ \<Rightarrow> superblock_at blk block_size m)"

definition fs_lfs_probe :: "bytes option \<Rightarrow> bytes option \<Rightarrow> nat \<Rightarrow> u32 \<Rightarrow> fs_lfs_kind \<times> u32 option" where
  "fs_lfs_probe blk0 blk1 n block_size =
     (case (blk0, blk1) of
        (Some b0, Some b1) \<Rightarrow>
          if n < 36 then (FS_LFS_OTHER, None)
          else if fs_region_is_blank blk0 \<and> fs_region_is_blank blk1 then (FS_LFS_BLANK, None)
          else (case fs_block_superblock b0 block_size of
                  Some c \<Rightarrow> (FS_LFS_LITTLEFS, Some c)
                | None \<Rightarrow> (case fs_block_superblock b1 block_size of
                             Some c \<Rightarrow> (FS_LFS_LITTLEFS, Some c)
                           | None \<Rightarrow> (FS_LFS_OTHER, None)))
      | _ \<Rightarrow> (FS_LFS_OTHER, None))"

section \<open>Which paths are taken\<close>

definition path_of :: "string list \<Rightarrow> string" where
  "path_of segs = concat (map (\<lambda>s. CHR ''/'' # s) segs)"

lemma path_of_simps [simp]: "path_of [] = []" "path_of (s # segs) = CHR ''/'' # s @ path_of segs"
  by (simp_all add: path_of_def)

definition no_slash :: "string \<Rightarrow> bool" where
  "no_slash s \<longleftrightarrow> CHR ''/'' \<notin> set s"

lemma path_of_cases: "path_of segs = [] \<or> path_of segs ! 0 = CHR ''/''"
  by (cases segs) simp_all

lemma takeWhile_segment:
  assumes "no_slash s"
  shows "takeWhile (\<lambda>x. x \<noteq> CHR ''/'') (s @ path_of segs) = s"
    "dropWhile (\<lambda>x. x \<noteq> CHR ''/'') (s @ path_of segs) = path_of segs"
  using assms by (induction s) (cases segs; auto simp: no_slash_def)+

text \<open>A path that passes the loop is a list of good segments, and only one.\<close>

lemma segments_loop_iff:
  "segments_loop p \<longleftrightarrow> (\<exists>segs. p = path_of segs \<and> list_all (\<lambda>s. segment_ok s \<and> no_slash s) segs)"
proof (induction p rule: segments_loop.induct)
  case 1
  show ?case by (auto intro: exI [of _ "[]"])
next
  case (2 c rest)
  let ?s = "takeWhile (\<lambda>x. x \<noteq> CHR ''/'') rest"
  show ?case
  proof
    assume ok: "segments_loop (c # rest)"
    then have c: "c = CHR ''/''" "segment_ok ?s" by (auto split: if_splits)
    with ok obtain segs where segs: "dropWhile (\<lambda>x. x \<noteq> CHR ''/'') rest = path_of segs" "list_all (\<lambda>s. segment_ok s \<and> no_slash s) segs"
      using 2 [OF c(1)] by auto
    have "no_slash ?s" by (auto simp: no_slash_def dest: set_takeWhileD)
    moreover have "c # rest = path_of (?s # segs)" using c(1) segs(1) takeWhile_dropWhile_id [of _ rest] by (metis path_of_simps(2))
    ultimately show "\<exists>segs. c # rest = path_of segs \<and> list_all (\<lambda>s. segment_ok s \<and> no_slash s) segs"
      using c segs(2) by (metis list.pred_inject(2))
  next
    assume "\<exists>segs. c # rest = path_of segs \<and> list_all (\<lambda>s. segment_ok s \<and> no_slash s) segs"
    then obtain s segs where segs: "c # rest = path_of (s # segs)" "segment_ok s" "no_slash s" "list_all (\<lambda>s. segment_ok s \<and> no_slash s) segs"
      by (metis list.distinct(1) list.exhaust list.pred_inject(2) path_of_simps(1))
    then have "c = CHR ''/''" "rest = s @ path_of segs" by simp_all
    then show "segments_loop (c # rest)" using 2 segs takeWhile_segment [OF segs(3)] by auto
  qed
qed

lemma path_of_inj:
  "path_of xs = path_of ys \<Longrightarrow> list_all no_slash xs \<Longrightarrow> list_all no_slash ys \<Longrightarrow> xs = ys"
proof (induction xs arbitrary: ys)
  case Nil
  then show ?case by (cases ys) auto
next
  case (Cons x xs)
  then obtain y ys' where ys: "ys = y # ys'" by (cases ys) auto
  with Cons.prems have eq: "x @ path_of xs = y @ path_of ys'" and ns: "no_slash x" "no_slash y" by auto
  then have "x = y" "path_of xs = path_of ys'" using takeWhile_segment by metis+
  then show ?case using Cons ys by auto
qed

lemma path_of_last: "list_all (\<lambda>s. segment_ok s \<and> no_slash s) segs \<Longrightarrow> segs \<noteq> [] \<Longrightarrow> last (path_of segs) \<noteq> CHR ''/''"
proof (induction segs)
  case (Cons s segs)
  then show ?case
    by (cases segs) (auto simp: segment_ok_def no_slash_def dest: last_in_set)
qed simp

fun fs_root :: "fs_backend \<Rightarrow> string" where
  "fs_root FS_BACKEND_INTERNAL = ''data''"
| "fs_root FS_BACKEND_SD = ''sd''"

lemma fs_root_ok: "no_slash (fs_root b)" "segment_ok (fs_root b)"
proof -
  show "segment_ok (fs_root b)" by (cases b) (simp_all add: segment_ok_def char_ok_def)
  show "no_slash (fs_root b)" by (cases b) (simp_all add: no_slash_def)
qed

text \<open>The paths that are taken: a mount point and good segments below it, in at most 127 characters.\<close>

definition plain_segment :: "string \<Rightarrow> bool" where
  "plain_segment s \<longleftrightarrow> s \<notin> {[], ''.'', ''..''} \<and>
     (\<forall>c \<in> set s. 0x20 \<le> (of_char c :: nat) \<and> (of_char c :: nat) < 0x7F \<and> c \<noteq> CHR 0x5C \<and> c \<noteq> CHR ''/'')"

definition good_path :: "fs_backend \<Rightarrow> string list \<Rightarrow> string \<Rightarrow> bool" where
  "good_path b segs p \<longleftrightarrow> p = path_of (fs_root b # segs) \<and> list_all plain_segment segs \<and> length p < FS_PATH_MAX"

lemma plain_segment_alt: "plain_segment s \<longleftrightarrow> segment_ok s \<and> no_slash s"
proof -
  have "c \<noteq> CHR ''/'' \<and> char_ok c \<longleftrightarrow>
      0x20 \<le> (of_char c :: nat) \<and> (of_char c :: nat) < 0x7F \<and> c \<noteq> CHR 0x5C \<and> c \<noteq> CHR ''/''" for c
    unfolding char_ok_def by linarith
  then show ?thesis unfolding plain_segment_def segment_ok_def no_slash_def list_all_iff by blast
qed

lemma good_path_alt:
  "good_path b segs p \<longleftrightarrow> p = path_of (fs_root b # segs) \<and> list_all (\<lambda>s. segment_ok s \<and> no_slash s) segs \<and> length p < FS_PATH_MAX"
  unfolding good_path_def plain_segment_alt [abs_def] by (rule refl)

lemma prefix_hit_split:
  "prefix_hit p (pre, b) \<longleftrightarrow> (\<exists>rest. p = pre @ rest \<and> (rest = [] \<or> rest ! 0 = CHR ''/''))"
proof
  assume hit: "prefix_hit p (pre, b)"
  then have "take (length pre) p = pre" by (simp add: prefix_hit_def)
  then have "p = pre @ drop (length pre) p" using append_take_drop_id [of "length pre" p] by simp
  then obtain rest where "p = pre @ rest" ..
  then show "\<exists>rest. p = pre @ rest \<and> (rest = [] \<or> rest ! 0 = CHR ''/'')"
    using hit by (auto simp: prefix_hit_def nth_append)
qed (auto simp: prefix_hit_def nth_append)

lemma fs_root_find:
  "find (prefix_hit p) PREFIXES = Some (pre, b) \<longleftrightarrow> pre = CHR ''/'' # fs_root b \<and> prefix_hit p (pre, b)"
proof -
  have "\<not> (prefix_hit p (''/data'', FS_BACKEND_INTERNAL) \<and> prefix_hit p (''/sd'', FS_BACKEND_SD))"
    by (auto simp: prefix_hit_split)
  then show ?thesis by (cases b) (auto simp: PREFIXES_def)
qed

lemma segments_loop_start: "segments_loop p \<Longrightarrow> p = [] \<or> p ! 0 = CHR ''/''"
  by (cases p) (auto split: if_splits)

lemma fs_path_resolve_iff: "fs_path_resolve (Some p) = Some b \<longleftrightarrow> (\<exists>segs. good_path b segs p)"
proof
  assume ok: "fs_path_resolve (Some p) = Some b"
  then obtain pre where "find (prefix_hit p) PREFIXES = Some (pre, b)" and rest: "segments_loop (drop (length pre) p)"
      and l: "length p < FS_PATH_MAX"
    by (auto simp: fs_path_resolve_def split: option.splits if_splits)
  then have pre: "pre = CHR ''/'' # fs_root b" "prefix_hit p (pre, b)" unfolding fs_root_find by auto
  from rest obtain segs where "drop (length pre) p = path_of segs" "list_all (\<lambda>s. segment_ok s \<and> no_slash s) segs"
    unfolding segments_loop_iff by auto
  moreover have "p = pre @ drop (length pre) p" using pre(2) unfolding prefix_hit_split by auto
  ultimately show "\<exists>segs. good_path b segs p" using pre(1) l by (auto simp: good_path_alt)
next
  assume "\<exists>segs. good_path b segs p"
  then obtain segs where p: "p = (CHR ''/'' # fs_root b) @ path_of segs" "list_all (\<lambda>s. segment_ok s \<and> no_slash s) segs" "length p < FS_PATH_MAX"
    by (auto simp: good_path_alt)
  then have "find (prefix_hit p) PREFIXES = Some (CHR ''/'' # fs_root b, b)"
    unfolding fs_root_find prefix_hit_split using path_of_cases by blast
  moreover have "segments_loop (path_of segs)" using p(2) by (auto simp: segments_loop_iff)
  moreover have "last p \<noteq> CHR ''/''"
    using path_of_last [of "fs_root b # segs"] fs_root_ok p(1,2) by simp
  ultimately show "fs_path_resolve (Some p) = Some b" using p(1,3) by (simp add: fs_path_resolve_def)
qed

section \<open>Which paths are hidden\<close>

definition folds_to :: "bool \<Rightarrow> string \<Rightarrow> string \<Rightarrow> bool" where
  "folds_to fc a b \<longleftrightarrow> map (fold_char fc) a = map (fold_char fc) b"

lemma prefix_cmp_eq_iff:
  "length b = n \<Longrightarrow> prefix_cmp_eq a b n fc \<longleftrightarrow> folds_to fc (take n a) b"
  by (induction a b n fc rule: prefix_cmp_eq.induct) (auto simp: folds_to_def)

lemma folds_to_False [simp]: "folds_to False a b \<longleftrightarrow> a = b"
proof -
  have "fold_char False = of_char" by (rule ext) (simp add: fold_char_def)
  then show ?thesis by (simp add: folds_to_def inj_def)
qed

lemma fold_slash: "fold_char fc c = fold_char fc (CHR ''/'') \<longleftrightarrow> c = CHR ''/''"
  by (auto simp: fold_char_def Let_def of_char_eq_iff [symmetric, where 'a = nat] simp del: of_char_eq_iff split: if_splits)

lemma folds_to_length: "folds_to fc a b \<Longrightarrow> length a = length b"
  by (auto simp: folds_to_def dest: map_eq_imp_length_eq)

lemma folds_to_nth: "folds_to fc a b \<Longrightarrow> i < length b \<Longrightarrow> fold_char fc (a ! i) = fold_char fc (b ! i)"
proof -
  assume f: "folds_to fc a b" "i < length b"
  then have "map (fold_char fc) a ! i = map (fold_char fc) b ! i" by (simp only: folds_to_def)
  then show "fold_char fc (a ! i) = fold_char fc (b ! i)" using f(2) folds_to_length [OF f(1)] by simp
qed

lemma folds_to_slash: "folds_to fc a b \<Longrightarrow> no_slash b \<Longrightarrow> no_slash a"
proof -
  assume f: "folds_to fc a b" "no_slash b"
  have "a ! i \<noteq> CHR ''/''" if "i < length a" for i
  proof
    assume "a ! i = CHR ''/''"
    then have "b ! i = CHR ''/''" using fold_slash [of fc "b ! i"] folds_to_nth [OF f(1), of i] folds_to_length [OF f(1)] that by simp
    then show False using f(2) folds_to_length [OF f(1)] that unfolding no_slash_def by (metis nth_mem)
  qed
  then show "no_slash a" by (auto simp: no_slash_def in_set_conv_nth)
qed

lemma first_segment:
  assumes "no_slash s" "no_slash d"
  shows "folds_to fc (take (length d) (s @ path_of segs)) d \<and>
      (length (s @ path_of segs) = length d \<or> (s @ path_of segs) ! length d = CHR ''/'') \<longleftrightarrow> folds_to fc s d"
    (is "?l \<longleftrightarrow> _")
proof
  assume l: ?l
  then have short: "length d \<le> length (s @ path_of segs)"
    using folds_to_length [of fc "take (length d) (s @ path_of segs)" d] by simp
  have "no_slash (take (length d) (s @ path_of segs))" using l assms(2) folds_to_slash by blast
  then have "length d \<le> length s"
  proof -
    have False if less: "length s < length d"
    proof -
      have "path_of segs \<noteq> []" using short less by auto
      then have "take (length d) (s @ path_of segs) ! length s = CHR ''/''"
        using path_of_cases [of segs] less by (auto simp: nth_append)
      moreover have "length s < length (take (length d) (s @ path_of segs))" using short less by simp
      ultimately show False using \<open>no_slash (take _ _)\<close> unfolding no_slash_def by (metis nth_mem)
    qed
    then show ?thesis by fastforce
  qed
  moreover have "length s \<le> length d"
  proof (rule ccontr)
    assume "\<not> ?thesis"
    then have "s ! length d = CHR ''/''" "length d < length s" using l by (auto simp: nth_append)
    then show False using assms(1) unfolding no_slash_def by (metis nth_mem)
  qed
  ultimately show "folds_to fc s d" using l by simp
next
  assume "folds_to fc s d"
  then show ?l using folds_to_length [of fc s d] path_of_cases [of segs] by (auto simp: nth_append)
qed

fun first_hidden :: "fs_backend \<Rightarrow> string list \<Rightarrow> bool" where
  "first_hidden b [] = False"
| "first_hidden FS_BACKEND_INTERNAL (s # segs) = (s = ''certs'' \<or> s = ''backups'')"
| "first_hidden FS_BACKEND_SD (s # segs) = folds_to True s ''backups''"

lemma hidden_good:
  assumes "good_path b segs p"
  shows "filesystem_api_hidden (Some p) \<longleftrightarrow> first_hidden b segs"
proof -
  have ns: "no_slash ''certs''" "no_slash ''backups''" by (simp_all add: no_slash_def)
  have cons: "folds_to fc (x # a) (y # c) \<longleftrightarrow> fold_char fc x = fold_char fc y \<and> folds_to fc a c" for fc x a y c
    by (simp add: folds_to_def)
  show ?thesis
  proof (cases segs)
    case Nil
    then show ?thesis using assms
      by (cases b) (auto simp: good_path_alt filesystem_api_hidden_def HIDDEN_def prefix_cmp_eq_iff dest: folds_to_length)
  next
    case (Cons s rest)
    then have s: "no_slash s" using assms by (simp add: good_path_alt)
    note seg = first_segment [OF s ns(1), of _ rest] first_segment [OF s ns(2), of _ rest]
    show ?thesis
    proof (cases b)
      case FS_BACKEND_INTERNAL
      then show ?thesis using assms Cons seg [of False] by (simp add: good_path_alt filesystem_api_hidden_def HIDDEN_def prefix_cmp_eq_iff cons fold_char_def)
    next
      case FS_BACKEND_SD
      then show ?thesis using assms Cons seg [of True] by (simp add: good_path_alt filesystem_api_hidden_def HIDDEN_def prefix_cmp_eq_iff cons fold_char_def)
    qed
  qed
qed

text \<open>The paths that are taken are those of good segments below a mount point, each in one way only;
  a taken path is hidden exactly when its first segment is, on the card in any case of letters.\<close>

text \<open>C28. A path is taken for a backend exactly when it is that mount point and good segments
  (not empty, not a dot or two, printable, no backslash) in at most 127 characters, in one
  way only, and then it is hidden exactly when its first segment is a hidden folder, on the
  card in any case.\<close>

theorem paths_taken:
  "fs_path_resolve (Some p) = Some b \<longleftrightarrow>
    (\<exists>!segs. good_path b segs p \<and> filesystem_api_hidden (Some p) = first_hidden b segs)"
proof -
  have "xs = ys" if "good_path b xs p" "good_path b ys p" for xs ys
  proof (rule path_of_inj)
    show "path_of xs = path_of ys" "list_all no_slash xs" "list_all no_slash ys"
      using that by (auto simp: good_path_alt list_all_iff)
  qed
  then show ?thesis unfolding fs_path_resolve_iff using hidden_good by metis
qed

text \<open>FatFs drops the dots at the end of a name, so this is the card's folder of backups, and it is
  not hidden.\<close>

theorem trailing_dot_seen:
  "fs_path_resolve (Some ''/sd/backups./device.json'') = Some FS_BACKEND_SD \<and>
   \<not> filesystem_api_hidden (Some ''/sd/backups./device.json'')"
proof -
  have "good_path FS_BACKEND_SD [''backups.'', ''device.json''] ''/sd/backups./device.json''"
    by (simp add: good_path_alt segment_ok_def char_ok_def no_slash_def)
  moreover have "\<not> first_hidden FS_BACKEND_SD [''backups.'', ''device.json'']"
    using folds_to_length [of True "''backups.''" "''backups''"] by auto
  ultimately show ?thesis using hidden_good by (auto simp: fs_path_resolve_iff)
qed

text \<open>The name of the temporary file of a taken path and its parent folder are taken where they lead to
  the same place, and the mount point has no parent.\<close>

lemma last_slash_append: "no_slash s \<Longrightarrow> last_slash (p @ CHR ''/'' # s) = Some (length p)"
proof -
  assume "no_slash s"
  then have "takeWhile (\<lambda>c. c \<noteq> CHR ''/'') (rev s @ CHR ''/'' # rev p) = rev s"
    by (subst takeWhile_append2) (auto simp: no_slash_def)
  then show ?thesis by (simp add: last_slash_def)
qed

lemma parent_of_good:
  assumes "good_path b (segs @ [s]) p" "length p \<le> out_len"
  shows "\<exists>q. fs_path_parent (Some p) out_len = Some q \<and> good_path b segs q"
proof -
  have p: "p = path_of (fs_root b # segs) @ CHR ''/'' # s" "no_slash s"
    using assms(1) by (simp_all add: good_path_alt path_of_def)
  then have "fs_path_parent (Some p) out_len = Some (path_of (fs_root b # segs))"
    using assms(2) last_slash_append [OF p(2), of "path_of (fs_root b # segs)"] by (simp add: fs_path_parent_def)
  then show ?thesis using assms(1) p(1) by (auto simp: good_path_alt)
qed

lemma temp_of_good:
  assumes "good_path b (segs @ [s]) p" "fs_path_temp_name (Some p) out_len = Some q"
  shows "good_path b (segs @ [s @ ''.tmp'']) q \<and> (segs \<noteq> [] \<longrightarrow> filesystem_api_hidden (Some q) = filesystem_api_hidden (Some p))"
proof -
  have q: "q = p @ ''.tmp''" "length q < FS_PATH_MAX" using assms(2) by (auto simp: fs_path_temp_name_def Let_def split: if_splits)
  have "segment_ok (s @ ''.tmp'')" "no_slash (s @ ''.tmp'')"
    using assms(1) by (auto simp: good_path_alt segment_ok_def no_slash_def char_ok_def append_eq_Cons_conv)
  then have g: "good_path b (segs @ [s @ ''.tmp'']) q" using assms(1) q by (auto simp: good_path_alt path_of_def)
  then show ?thesis using hidden_good [OF g] hidden_good [OF assms(1)] by (cases segs; cases b) auto
qed

section \<open>The probe formats nothing that holds data\<close>

lemma superblock_found:
  assumes "superblock_at blk block_size m = Some c" "m + 36 \<le> length blk"
  shows "\<exists>c. fs_block_superblock blk block_size = Some c \<and> 2 \<le> c \<and> c \<le> push_bit 24 1"
proof -
  have "m \<in> set (filter (\<lambda>m. superblock_at blk block_size m \<noteq> None) [0..<length blk + 1 - 36])" using assms by auto
  then obtain k ks where k: "filter (\<lambda>m. superblock_at blk block_size m \<noteq> None) [0..<length blk + 1 - 36] = k # ks"
    by (metis list.exhaust list.set_cases list.distinct(1))
  then have "superblock_at blk block_size k \<noteq> None" using filter_eq_ConsD [OF k] by auto
  then obtain c where c: "superblock_at blk block_size k = Some c" by auto
  then have "2 \<le> c \<and> c \<le> push_bit 24 1" by (auto simp: superblock_at_def Let_def split: if_splits)
  then show ?thesis using c k by (simp add: fs_block_superblock_def)
qed

end
