(* ===== verification/Http_Assets.thy ===== *)
theory Http_Assets
  imports FS_Path
begin

text \<open>
  \<^verbatim>\<open>components/http_server_manager/http_server_manager_match.c\<close> and the handler that uses it
  (\<open>hsm_serve_catchall\<close> of \<^verbatim>\<open>http_server_manager_serve.c\<close>): how a request is answered from the
  asset tables that components have registered, down to the path the filesystem component is asked for.
  A table is the list of its entries before the NULL one.
\<close>

abbreviation (input) HSM_PATH_MAX :: nat where "HSM_PATH_MAX \<equiv> 192"
abbreviation (input) HSM_MAX_ASSET_TABLES :: nat where "HSM_MAX_ASSET_TABLES \<equiv> 16"

record http_asset =
  ha_uri :: string
  ha_content_type :: "string option"
  ha_data :: "bytes option"
  ha_has_end :: bool
  ha_fs_path :: "string option"
  ha_source_url :: "string option"

section \<open>Matching\<close>

fun has_dotdot :: "string \<Rightarrow> bool" where
  "has_dotdot (a # b # s) \<longleftrightarrow> a = CHR ''.'' \<and> b = CHR ''.'' \<or> has_dotdot (b # s)"
| "has_dotdot _ \<longleftrightarrow> False"

definition hsm_match_normalize :: "string option \<Rightarrow> nat \<Rightarrow> string option" where
  "hsm_match_normalize uri out_len =
     (case uri of
        None \<Rightarrow> None
      | Some u \<Rightarrow>
          if out_len = 0 \<or> has_dotdot u then None
          else
            let out = takeWhile (\<lambda>c. c \<noteq> CHR ''?'' \<and> c \<noteq> CHR ''#'') u
            in if length out > out_len - 1 then None
               else if out = ''/'' then (if out_len < length ''/index.html'' + 1 then None else Some ''/index.html'')
               else if out = [] then None
               else Some out)"

text \<open>The fixed part of a prefix pattern, its slash included.\<close>

definition is_prefix_pattern :: "string \<Rightarrow> string option" where
  "is_prefix_pattern u =
     (if length u \<ge> 2 \<and> last u = CHR ''*'' \<and> u ! (length u - 2) = CHR ''/'' then Some (butlast u) else None)"

text \<open>Whether an entry answers, and the path it writes into the buffer (\<open>None\<close> when it writes none).\<close>

definition entry_match :: "http_asset \<Rightarrow> string \<Rightarrow> nat \<Rightarrow> string option option" where
  "entry_match e uri n =
     (case is_prefix_pattern (ha_uri e) of
        Some pre \<Rightarrow>
          (case ha_fs_path e of
             None \<Rightarrow> None
           | Some dir \<Rightarrow>
               if take (length pre) uri \<noteq> pre \<or> length uri = length pre then None
               else let path = dir @ ''/'' @ drop (length pre) uri in if length path \<ge> n then None else Some (Some path))
      | None \<Rightarrow>
          if uri = ha_uri e then
            (case (ha_data e, ha_fs_path e) of
               (None, Some f) \<Rightarrow> if length f \<ge> n then None else Some (Some f)
             | _ \<Rightarrow> Some None)
          else None)"

fun match_in_table :: "http_asset list \<Rightarrow> string \<Rightarrow> nat \<Rightarrow> (http_asset \<times> string option) option" where
  "match_in_table [] uri n = None"
| "match_in_table (e # es) uri n =
     (case entry_match e uri n of Some path \<Rightarrow> Some (e, path) | None \<Rightarrow> match_in_table es uri n)"

fun hsm_match_resolve :: "http_asset list list \<Rightarrow> string \<Rightarrow> nat \<Rightarrow> (http_asset \<times> string option) option" where
  "hsm_match_resolve [] uri n = None"
| "hsm_match_resolve (t # ts) uri n =
     (case match_in_table t uri n of Some hit \<Rightarrow> Some hit | None \<Rightarrow> hsm_match_resolve ts uri n)"

definition MIME_TABLE :: "(string \<times> string) list" where
  "MIME_TABLE = [(''.html'', ''text/html''), (''.htm'', ''text/html''), (''.js'', ''application/javascript''),
     (''.mjs'', ''application/javascript''), (''.css'', ''text/css''), (''.json'', ''application/json''),
     (''.map'', ''application/json''), (''.png'', ''image/png''), (''.jpg'', ''image/jpeg''), (''.jpeg'', ''image/jpeg''),
     (''.gif'', ''image/gif''), (''.svg'', ''image/svg+xml''), (''.ico'', ''image/x-icon''), (''.wasm'', ''application/wasm''),
     (''.txt'', ''text/plain''), (''.pdf'', ''application/pdf''), (''.woff2'', ''font/woff2''), (''.woff'', ''font/woff'')]"

text \<open>\<open>strcasecmp\<close> of the extension, from the last dot on.\<close>

definition hsm_match_mime_from_path :: "string option \<Rightarrow> string" where
  "hsm_match_mime_from_path path =
     (case path of
        None \<Rightarrow> ''application/octet-stream''
      | Some p \<Rightarrow>
          if CHR ''.'' \<notin> set p then ''application/octet-stream''
          else
            let ext = CHR ''.'' # rev (takeWhile (\<lambda>c. c \<noteq> CHR ''.'') (rev p))
            in (case find (\<lambda>(e, _). map (fold_char True) ext = map (fold_char True) e) MIME_TABLE of
                 Some (_, mime) \<Rightarrow> mime
               | None \<Rightarrow> ''application/octet-stream''))"

section \<open>Tables and answers\<close>

record hsm_state =
  hs_inited :: bool
  hs_started :: bool
  hs_tables :: "http_asset list list"

datatype hsm_err = HSM_OK | HSM_INVALID_ARG | HSM_INVALID_STATE | HSM_NO_MEM

definition resolvable :: "http_asset \<Rightarrow> bool" where
  "resolvable e \<longleftrightarrow> (ha_data e \<noteq> None \<longrightarrow> ha_has_end e) \<and> (ha_data e = None \<longrightarrow> ha_fs_path e \<noteq> None)"

definition http_server_manager_register_assets :: "hsm_state \<Rightarrow> http_asset list option \<Rightarrow> hsm_state \<times> hsm_err" where
  "http_server_manager_register_assets s table =
     (case table of
        None \<Rightarrow> (s, HSM_INVALID_ARG)
      | Some t \<Rightarrow>
          if \<not> hs_inited s \<or> hs_started s then (s, HSM_INVALID_STATE)
          else if \<not> list_all resolvable t then (s, HSM_INVALID_ARG)
          else if length (hs_tables s) \<ge> HSM_MAX_ASSET_TABLES then (s, HSM_NO_MEM)
          else (s\<lparr>hs_tables := hs_tables s @ [t]\<rparr>, HSM_OK))"

datatype hsm_answer = Bad_Path | Not_Found | Serve_Embedded http_asset string | Serve_File http_asset "string option"

definition hsm_serve_catchall :: "http_asset list list \<Rightarrow> string \<Rightarrow> hsm_answer" where
  "hsm_serve_catchall tables req_uri =
     (case hsm_match_normalize (Some req_uri) HSM_PATH_MAX of
        None \<Rightarrow> Bad_Path
      | Some uri \<Rightarrow>
          (case hsm_match_resolve tables uri HSM_PATH_MAX of
             None \<Rightarrow> Not_Found
           | Some (e, path) \<Rightarrow> if ha_data e \<noteq> None then Serve_Embedded e uri else Serve_File e path))"

section \<open>A request stays in the folder of its entry\<close>

lemma match_in_table_Some:
  "match_in_table es uri n = Some (e, path) \<Longrightarrow> e \<in> set es \<and> entry_match e uri n = Some path"
  by (induction es) (auto split: option.splits)

lemma hsm_match_resolve_Some:
  "hsm_match_resolve ts uri n = Some (e, path) \<Longrightarrow> (\<exists>t \<in> set ts. e \<in> set t) \<and> entry_match e uri n = Some path"
  by (induction ts) (auto split: option.splits dest: match_in_table_Some)

lemma serve_file_match:
  assumes "hsm_serve_catchall tables uri = Serve_File e path"
  obtains u where "entry_match e u HSM_PATH_MAX = Some path" "\<exists>t \<in> set tables. e \<in> set t" "ha_data e = None"
proof -
  obtain u where "hsm_match_resolve tables u HSM_PATH_MAX = Some (e, path)" "ha_data e = None"
    using assms by (auto simp: hsm_serve_catchall_def split: option.splits if_splits)
  then show ?thesis using hsm_match_resolve_Some that by blast
qed

text \<open>The tables of a component are taken while the server is not up; from there every entry is one of
  embedded data or of a path.\<close>

inductive hsm_reachable :: "hsm_state \<Rightarrow> bool" where
  init: "hsm_reachable \<lparr>hs_inited = True, hs_started = False, hs_tables = []\<rparr>"
| register: "hsm_reachable s \<Longrightarrow> hsm_reachable (fst (http_server_manager_register_assets s table))"
| start: "hsm_reachable s \<Longrightarrow> hsm_reachable (s\<lparr>hs_started := True\<rparr>)"
| stop: "hsm_reachable s \<Longrightarrow> hsm_reachable (s\<lparr>hs_started := False\<rparr>)"

lemma tables_resolvable: "hsm_reachable s \<Longrightarrow> t \<in> set (hs_tables s) \<Longrightarrow> e \<in> set t \<Longrightarrow> resolvable e"
proof (induction arbitrary: t rule: hsm_reachable.induct)
  case (register s table)
  then show ?case
    by (auto simp: http_server_manager_register_assets_def list_all_iff split: option.splits if_splits)
qed auto

lemma path_of_append: "path_of (xs @ ys) = path_of xs @ path_of ys"
  by (simp add: path_of_def)

lemma path_of_extends:
  assumes "path_of xs @ CHR ''/'' # r = path_of ys" "list_all no_slash xs" "list_all no_slash ys"
  shows "\<exists>zs. zs \<noteq> [] \<and> ys = xs @ zs"
  using assms
proof (induction xs arbitrary: ys)
  case Nil
  then show ?case by (cases ys) auto
next
  case (Cons x xs)
  then obtain y ys' where ys: "ys = y # ys'" by (cases ys) auto
  then have eq: "x @ path_of xs @ CHR ''/'' # r = y @ path_of ys'" and ns: "no_slash x" "no_slash y"
    using Cons.prems by auto
  have "takeWhile (\<lambda>c. c \<noteq> CHR ''/'') (x @ path_of xs @ CHR ''/'' # r) = x"
    "dropWhile (\<lambda>c. c \<noteq> CHR ''/'') (x @ path_of xs @ CHR ''/'' # r) = path_of xs @ CHR ''/'' # r"
    using ns(1) takeWhile_segment [of x "xs @ [r]"] by (simp_all add: path_of_append)
  then have "x = y" "path_of xs @ CHR ''/'' # r = path_of ys'"
    using takeWhile_segment [OF ns(2), of ys'] eq by simp_all
  then show ?case using Cons ys by auto
qed

lemma good_path_below:
  assumes "good_path b segs dir" "fs_path_resolve (Some (dir @ CHR ''/'' # r)) = Some b'"
  shows "\<exists>rest. rest \<noteq> [] \<and> b' = b \<and> good_path b (segs @ rest) (dir @ CHR ''/'' # r)"
proof -
  from assms(2) obtain all where g: "good_path b' all (dir @ CHR ''/'' # r)" by (auto simp: fs_path_resolve_iff)
  have "list_all no_slash (fs_root b # segs)" "list_all no_slash (fs_root b' # all)"
    using assms(1) g fs_root_ok by (auto simp: good_path_alt list_all_iff)
  moreover have "path_of (fs_root b # segs) @ CHR ''/'' # r = path_of (fs_root b' # all)"
    using assms(1) g by (simp add: good_path_alt)
  ultimately obtain rest where "rest \<noteq> []" "fs_root b' # all = (fs_root b # segs) @ rest"
    using path_of_extends by blast
  moreover from this have "b' = b" by (cases b; cases b') auto
  ultimately show ?thesis using g by auto
qed

text \<open>C29. A file that a request is answered with is the file of a registered entry, or lies below
  the folder of a registered entry: no request leads out of the folder it was registered
  for. Below a folder that is not a whole mount point it is hidden exactly when that folder
  is. Below an entry registered on a whole mount point it is hidden exactly when the first
  name below the mount point is that of a hidden folder, so such a registration serves
  hidden files too.\<close>

theorem http_file_contained:
  assumes "hsm_reachable s" "hsm_serve_catchall (hs_tables s) uri = Serve_File e path"
    and "fs_path_resolve (ha_fs_path e) = Some b" "fs_path_resolve path = Some b'"
  shows "path = ha_fs_path e \<or>
    (\<exists>segs rest. b' = b \<and> rest \<noteq> [] \<and> good_path b segs (the (ha_fs_path e)) \<and> good_path b (segs @ rest) (the path) \<and>
       filesystem_api_hidden path =
         (if segs = [] then first_hidden b rest else filesystem_api_hidden (ha_fs_path e)))"
proof -
  obtain u where m: "entry_match e u HSM_PATH_MAX = Some path" and d: "ha_data e = None"
    using serve_file_match [OF assms(2)] by blast
  show ?thesis
  proof (cases "is_prefix_pattern (ha_uri e)")
    case None
    then show ?thesis using m d assms(4) by (auto simp: entry_match_def fs_path_resolve_def split: option.splits if_splits)
  next
    case (Some pre)
    then obtain dir where dir: "ha_fs_path e = Some dir" "path = Some (dir @ CHR ''/'' # drop (length pre) u)"
      using m by (auto simp: entry_match_def Let_def split: option.splits if_splits)
    from assms(3) dir(1) obtain segs where g: "good_path b segs dir" by (auto simp: fs_path_resolve_iff)
    from good_path_below [OF g] assms(4) dir(2)
    obtain rest where r: "rest \<noteq> []" "b' = b" "good_path b (segs @ rest) (dir @ CHR ''/'' # drop (length pre) u)" by blast
    have "filesystem_api_hidden path = (if segs = [] then first_hidden b rest else filesystem_api_hidden (ha_fs_path e))"
    proof -
      have "filesystem_api_hidden path \<longleftrightarrow> first_hidden b (segs @ rest)" "filesystem_api_hidden (ha_fs_path e) \<longleftrightarrow> first_hidden b segs"
        using hidden_good [OF g] hidden_good [OF r(3)] dir by simp_all
      then show ?thesis by (cases segs; cases b) simp_all
    qed
    moreover have "good_path b segs (the (ha_fs_path e))" "good_path b (segs @ rest) (the path)" using g r(3) dir by simp_all
    ultimately show ?thesis using r(1,2) by blast
  qed
qed

lemma entry_has_path:
  assumes "entry_match e u n = Some path" "resolvable e" "ha_data e = None"
  shows "path \<noteq> None"
proof
  assume "path = None"
  then show False using assms by (auto simp: entry_match_def resolvable_def Let_def split: option.splits if_splits)
qed

lemma file_has_path:
  assumes "hsm_reachable s" "hsm_serve_catchall (hs_tables s) uri = Serve_File e path"
  shows "path \<noteq> None"
proof -
  obtain u t where "entry_match e u HSM_PATH_MAX = Some path" "t \<in> set (hs_tables s)" "e \<in> set t" "ha_data e = None"
    using serve_file_match [OF assms(2)] by blast
  then show ?thesis using entry_has_path tables_resolvable [OF assms(1)] by blast
qed

definition web_entry :: http_asset where
  "web_entry = \<lparr>ha_uri = ''/web/*'', ha_content_type = None, ha_data = None, ha_has_end = False,
     ha_fs_path = Some ''/data/web'', ha_source_url = None\<rparr>"

theorem http_file_contained_witness:
  defines "p \<equiv> ''/data/web/js/a.js''"
  shows "\<exists>segs rest. rest \<noteq> [] \<and> good_path FS_BACKEND_INTERNAL segs ''/data/web'' \<and> good_path FS_BACKEND_INTERNAL (segs @ rest) p"
proof -
  define s where "s = fst (http_server_manager_register_assets \<lparr>hs_inited = True, hs_started = False, hs_tables = []\<rparr> (Some [web_entry]))"
  have r: "hsm_reachable s" unfolding s_def by (rule hsm_reachable.register [OF hsm_reachable.init])
  have t: "hs_tables s = [[web_entry]]"
    by (simp add: s_def http_server_manager_register_assets_def resolvable_def web_entry_def)
  have e: "entry_match web_entry ''/web/js/a.js'' HSM_PATH_MAX = Some (Some p)"
    by (simp add: entry_match_def web_entry_def is_prefix_pattern_def p_def)
  have "hsm_match_normalize (Some ''/web/js/a.js'') HSM_PATH_MAX = Some ''/web/js/a.js''"
    by (simp add: hsm_match_normalize_def)
  then have serve: "hsm_serve_catchall (hs_tables s) ''/web/js/a.js'' = Serve_File web_entry (Some p)"
    using e by (simp add: hsm_serve_catchall_def t) (simp add: web_entry_def)
  have ok: "good_path FS_BACKEND_INTERNAL [''web''] ''/data/web''" "good_path FS_BACKEND_INTERNAL [''web'', ''js'', ''a.js''] p"
    by (simp_all add: good_path_alt segment_ok_def char_ok_def no_slash_def p_def)
  then have "fs_path_resolve (ha_fs_path web_entry) = Some FS_BACKEND_INTERNAL" "fs_path_resolve (Some p) = Some FS_BACKEND_INTERNAL"
    unfolding web_entry_def http_asset.simps fs_path_resolve_iff by blast+
  from http_file_contained [OF r serve this] show ?thesis by (auto simp: web_entry_def p_def)
qed

end
