(* ===== verification/OBD_Resp.thy ===== *)
theory OBD_Resp
  imports Hex
begin

text \<open>
  \<^verbatim>\<open>components/autopid/autopid_resp_lines.c\<close>, \<^verbatim>\<open>autopid_resp.c\<close> and \<^verbatim>\<open>autopid_resp_filter.c\<close>: the text
  the OBD chip prints, read back as the bytes of the vehicle's answer. The text of a reply is a \<open>string\<close>
  without its NUL; a C \<open>long\<close> has 32 bits, so \<open>strtol\<close> stops at its greatest value. The hint of
  \<open>ap_resp_set_id29_hint\<close> is an argument, and the mutex of the table of lines is not modelled.
\<close>

abbreviation (input) AP_LINE_MAX :: nat where "AP_LINE_MAX \<equiv> 128"
abbreviation (input) AP_MAX_LINES :: nat where "AP_MAX_LINES \<equiv> 64"
abbreviation (input) AP_PAYLOAD_MAX :: nat where "AP_PAYLOAD_MAX \<equiv> 128"
abbreviation (input) AP_RESP_ECUS_MAX :: nat where "AP_RESP_ECUS_MAX \<equiv> 8"
abbreviation (input) UINT32_MAX :: u32 where "UINT32_MAX \<equiv> 0xFFFFFFFF"

section \<open>One line\<close>

record ap_line =
  al_bytes :: bytes
  al_header :: u32
  al_has_header :: bool
  al_iso_index :: int
  al_bare_value :: int
  al_is_bare :: bool
  al_ea :: nat

definition strtol_hex :: "string \<Rightarrow> int" where
  "strtol_hex s = min (int (hex_num s)) 0x7FFFFFFF"

definition is_hex_str :: "string \<Rightarrow> bool" where
  "is_hex_str s \<longleftrightarrow> s \<noteq> [] \<and> list_all isxdigit s"

definition is_blank_char :: "char \<Rightarrow> bool" where
  "is_blank_char c \<longleftrightarrow> c = CHR '' '' \<or> c = CHR 0x09"

lemma length_token_rest:
  assumes "dropWhile Q s \<noteq> []"
  shows "length (dropWhile (\<lambda>c. \<not> Q c) (dropWhile Q s)) < length s"
proof -
  obtain x xs where x: "dropWhile Q s = x # xs" using assms by (cases "dropWhile Q s") auto
  then have "\<not> Q x" using hd_dropWhile [OF assms] by simp
  then have "length (dropWhile (\<lambda>c. \<not> Q c) (dropWhile Q s)) \<le> length xs" using x by (simp add: length_dropWhile_le)
  moreover have "length (x # xs) \<le> length s" using length_dropWhile_le [of Q s] x by simp
  ultimately show ?thesis by simp
qed

function tokens :: "string \<Rightarrow> string list" where
  "tokens s =
     (let t = dropWhile is_blank_char s
      in if t = [] then []
         else takeWhile (\<lambda>c. \<not> is_blank_char c) t # tokens (dropWhile (\<lambda>c. \<not> is_blank_char c) t))"
  by pat_completeness auto
termination
  by (relation "measure length") (simp_all add: length_token_rest)

declare tokens.simps [simp del]

definition al_zero :: ap_line where
  "al_zero = \<lparr>al_bytes = [], al_header = 0, al_has_header = False, al_iso_index = -1, al_bare_value = 0, al_is_bare = False, al_ea = 0\<rparr>"

fun parse_tokens :: "string list \<Rightarrow> nat \<Rightarrow> ap_line \<Rightarrow> ap_line option" where
  "parse_tokens [] n_tok out = Some out"
| "parse_tokens (tok # toks) n_tok out =
     (if length tok \<ge> AP_LINE_MAX then None
      else if n_tok = 0 \<and> length tok \<ge> 2 \<and> last tok = CHR '':'' \<and> is_hex_str (butlast tok) then
        parse_tokens toks 1 (out\<lparr>al_iso_index := strtol_hex (butlast tok)\<rparr>)
      else if \<not> is_hex_str tok then None
      else if length tok = 2 \<or> length tok = 1 \<and> n_tok > 0 then
        if length (al_bytes out) \<ge> AP_LINE_MAX div 2 then None
        else parse_tokens toks (Suc n_tok) (out\<lparr>al_bytes := al_bytes out @ [of_nat (hex_num tok)]\<rparr>)
      else if n_tok = 0 then
        parse_tokens toks (Suc n_tok)
          ((if length tok = 3 \<or> length tok = 8 then out\<lparr>al_header := of_nat (hex_num tok), al_has_header := True\<rparr> else out)
             \<lparr>al_bare_value := strtol_hex tok, al_is_bare := True\<rparr>)
      else None)"

definition parse_line :: "string \<Rightarrow> ap_line option" where
  "parse_line line =
     (case parse_tokens (tokens line) 0 al_zero of
        None \<Rightarrow> None
      | Some out \<Rightarrow>
          let out1 = (if al_bytes out \<noteq> [] \<or> al_iso_index out \<ge> 0 then out\<lparr>al_is_bare := False\<rparr> else out)
          in if al_bytes out1 \<noteq> [] \<or> al_is_bare out1 \<or> al_iso_index out1 \<ge> 0 then Some out1 else None)"

definition pci_fits :: "u8 \<Rightarrow> nat \<Rightarrow> bool" where
  "pci_fits pci rest =
     (let k = drop_bit 4 pci; n = unat (pci AND 0x0F)
      in if k = 0 then n \<ge> 1 \<and> n \<le> rest else if k = 1 then rest \<ge> 2 else k = 2)"

definition frame_whole :: "bytes \<Rightarrow> bool" where
  "frame_whole d =
     (let k = drop_bit 4 (d ! 0); n = unat (d ! 0 AND 0x0F); dn = length d
      in if k = 0 then n \<ge> 1 \<and> n \<le> 7 \<and> (dn = n + 1 \<or> dn = 8)
         else if k = 1 then dn = 8 \<and> n * 256 + unat (d ! 1) \<ge> 8
         else k = 2 \<and> dn = 8)"

definition take_id29 :: "u32 \<Rightarrow> bool \<Rightarrow> ap_line \<Rightarrow> ap_line" where
  "take_id29 hint_rx_id hint_proto29 line =
     (let b = al_bytes line in
      if al_has_header line \<or> al_iso_index line \<ge> 0 \<or> length b < 6 then line
      else
        let ident = push_bit 24 (ucast (b ! 0)) OR push_bit 16 (ucast (b ! 1)) OR push_bit 8 (ucast (b ! 2)) OR ucast (b ! 3);
            legislated = (b ! 0 = 0x18 \<and> b ! 1 = 0xDA \<and> b ! 2 = 0xF1);
            hinted = (hint_rx_id \<noteq> 0 \<and> ident = hint_rx_id)
        in if \<not> legislated \<and> \<not> hinted \<and> \<not> hint_proto29 then line
           else
             let d = drop 4 b; dn = length d;
                 fits = (if legislated \<or> hinted
                         then pci_fits (d ! 0) (dn - 1) \<or> dn \<ge> 3 \<and> drop_bit 4 (d ! 0) > 3 \<and> pci_fits (d ! 1) (dn - 2)
                         else frame_whole d)
             in if fits then line\<lparr>al_header := ident, al_has_header := True, al_bytes := d\<rparr> else line)"

definition take_ea :: "ap_line \<Rightarrow> ap_line" where
  "take_ea line =
     (let b = al_bytes line in
      if al_has_header line \<and> length b \<ge> 3 \<and> drop_bit 4 (b ! 0) > 3 \<and> pci_fits (b ! 1) (length b - 2)
      then line\<lparr>al_ea := 1\<rparr> else line)"

definition line_is_pending :: "ap_line \<Rightarrow> bool" where
  "line_is_pending line =
     (let b = al_bytes line; d = drop (al_ea line) b in
      if al_iso_index line \<ge> 0 then False
      else if \<not> al_has_header line then length b = 3 \<and> b ! 0 = 0x7F \<and> b ! 2 = 0x78
      else length d \<ge> 4 \<and> d ! 0 = 0x03 \<and> d ! 1 = 0x7F \<and> d ! 3 = 0x78)"

definition begins_with :: "string \<Rightarrow> string \<Rightarrow> bool" where
  "begins_with line w \<longleftrightarrow> take (length w) line = w"

definition line_is_noise :: "string \<Rightarrow> bool" where
  "line_is_noise line = list_ex (begins_with line) [''SEARCHING'', ''BUS INIT'', ''OK'', ''STOPPED'']"

definition line_is_error :: "string \<Rightarrow> bool" where
  "line_is_error line = list_ex (begins_with line) [''NO DATA'', ''ERROR'', ''CAN ERROR'', ''UNABLE TO CONNECT'', ''?'']"

section \<open>The lines of a reply\<close>

text \<open>The lines, whether an error line was seen, and the length line's value (\<open>-1\<close> for none).\<close>

type_synonym collected = "ap_line list \<times> bool \<times> int"

definition is_eol :: "char \<Rightarrow> bool" where
  "is_eol c \<longleftrightarrow> c = CHR 0x0D \<or> c = CHR 0x0A"

definition trim_line :: "string \<Rightarrow> string" where
  "trim_line s =
     take (AP_LINE_MAX - 1)
       (dropWhile (\<lambda>c. c = CHR '' '') (rev (dropWhile (\<lambda>c. c = CHR '' '' \<or> c = CHR ''>'') (rev s))))"

definition take_line :: "u32 \<Rightarrow> bool \<Rightarrow> string \<Rightarrow> collected \<Rightarrow> collected" where
  "take_line rx_id proto29 s = (\<lambda>(lines, saw_error, iso_total).
     let buf = trim_line s in
     if buf = [] then (lines, saw_error, iso_total)
     else if line_is_error buf then (lines, True, iso_total)
     else if line_is_noise buf then (lines, saw_error, iso_total)
     else
       (case parse_line buf of
          None \<Rightarrow> (lines, saw_error, iso_total)
        | Some p \<Rightarrow>
            let parsed = take_ea (take_id29 rx_id proto29 p) in
            if al_is_bare parsed then (lines, saw_error, al_bare_value parsed)
            else if \<not> line_is_pending parsed then (lines @ [parsed], saw_error, iso_total)
            else (lines, saw_error, iso_total)))"

lemma length_line_rest: "length (dropWhile is_eol (dropWhile (\<lambda>c. \<not> is_eol c) (c # s))) < length (c # s)"
proof (cases "is_eol c")
  case True
  then show ?thesis by (simp add: length_dropWhile_le less_Suc_eq_le)
next
  case False
  have "length (dropWhile is_eol (dropWhile (\<lambda>c. \<not> is_eol c) s)) \<le> length s"
    using length_dropWhile_le le_trans by blast
  then show ?thesis using False by simp
qed

function collect_loop :: "u32 \<Rightarrow> bool \<Rightarrow> nat \<Rightarrow> string \<Rightarrow> collected \<Rightarrow> collected" where
  "collect_loop rx_id proto29 most [] got = got"
| "collect_loop rx_id proto29 most (c # s) got =
     (if length (fst got) \<ge> most then got
      else collect_loop rx_id proto29 most (dropWhile is_eol (dropWhile (\<lambda>c. \<not> is_eol c) (c # s)))
             (take_line rx_id proto29 (takeWhile (\<lambda>c. \<not> is_eol c) (c # s)) got))"
  by pat_completeness auto
termination
  by (relation "measure (\<lambda>(_, _, _, s, _). length s)") (simp_all del: dropWhile.simps list.size add: length_line_rest)

definition ap_resp_collect_lines :: "u32 \<Rightarrow> bool \<Rightarrow> string \<Rightarrow> collected" where
  "ap_resp_collect_lines rx_id proto29 resp = collect_loop rx_id proto29 AP_MAX_LINES resp ([], False, -1)"

section \<open>The answer without its framing\<close>

datatype resp_err = RE_INVALID_ARG | RE_FAIL | RE_NOT_FOUND

text \<open>The service and identifier bytes a command begins with, at most three.\<close>

fun want_bytes :: "nat \<Rightarrow> string \<Rightarrow> bytes" where
  "want_bytes 0 p = []"
| "want_bytes (Suc k) p =
     (case dropWhile (\<lambda>c. c = CHR '' '') p of
        a # b # rest \<Rightarrow> if isxdigit a \<and> isxdigit b then of_nat (hex_num [a, b]) # want_bytes k rest else []
      | _ \<Rightarrow> [])"

definition ap_payload_matches_cmd :: "string \<Rightarrow> bytes \<Rightarrow> bool" where
  "ap_payload_matches_cmd cmd payload =
     (let want = want_bytes 3 cmd in
      if want = [] then True
      else if length payload < 1 \<or> payload ! 0 \<noteq> want ! 0 + 0x40 then False
      else if length want > 1 \<and> length payload > 1 \<and> payload ! 1 \<noteq> want ! 1 then False
      else if want ! 0 = 0x22 \<and> length want > 2 \<and> length payload > 2 \<and> payload ! 2 \<noteq> want ! 2 then False
      else True)"

text \<open>What a frame adds, and the length a first frame announces.\<close>

definition frame_data :: "bytes \<Rightarrow> (bytes \<times> int option) option" where
  "frame_data b =
     (let k = drop_bit 4 (b ! 0); n = unat (b ! 0 AND 0x0F) in
      if k = 0 then Some (take n (drop 1 b), None)
      else if k = 1 then (if length b < 2 then None else Some (drop 2 b, Some (int (n * 256 + unat (b ! 1)))))
      else if k = 2 then Some (drop 1 b, None)
      else Some (b, None))"

fun header_loop :: "ap_line list \<Rightarrow> u32 \<Rightarrow> nat \<Rightarrow> bytes \<Rightarrow> int \<Rightarrow> bytes \<times> int" where
  "header_loop [] header payload_max payload expect = (payload, expect)"
| "header_loop (l # ls) header payload_max payload expect =
     (if \<not> al_has_header l \<or> al_header l \<noteq> header \<or> length (al_bytes l) \<le> al_ea l
      then header_loop ls header payload_max payload expect
      else (case frame_data (drop (al_ea l) (al_bytes l)) of
              None \<Rightarrow> header_loop ls header payload_max payload expect
            | Some (d, e) \<Rightarrow>
                header_loop ls header payload_max (take payload_max (payload @ d)) (case e of Some n \<Rightarrow> n | None \<Rightarrow> expect)))"

definition assemble_header_frames :: "ap_line list \<Rightarrow> u32 \<Rightarrow> nat \<Rightarrow> bytes" where
  "assemble_header_frames lines header payload_max =
     (let (payload, expect) = header_loop lines header payload_max [] (-1)
      in if expect \<ge> 0 then take (nat expect) payload else payload)"

fun rows_loop :: "ap_line list \<Rightarrow> nat \<Rightarrow> bytes \<Rightarrow> nat \<Rightarrow> bytes" where
  "rows_loop [] payload_max payload expect = payload"
| "rows_loop (l # ls) payload_max payload expect =
     (if al_iso_index l < 0 then rows_loop ls payload_max payload expect
      else if al_iso_index l \<noteq> int (expect mod 16) then payload
      else rows_loop ls payload_max (take payload_max (payload @ al_bytes l)) (Suc expect))"

definition assemble_headerless :: "ap_line list \<Rightarrow> int \<Rightarrow> nat \<Rightarrow> bytes" where
  "assemble_headerless lines iso_total payload_max =
     (if al_iso_index (lines ! 0) \<ge> 0 \<or> iso_total \<ge> 0 then
        let payload = rows_loop lines payload_max [] 0
        in if iso_total \<ge> 0 then take (nat iso_total) payload else payload
      else fold (\<lambda>l payload. take payload_max (payload @ al_bytes l)) lines [])"

definition lowest_header :: "ap_line list \<Rightarrow> u32" where
  "lowest_header lines =
     fold (\<lambda>l lowest. if al_has_header l \<and> al_header l < lowest then al_header l else lowest) lines UINT32_MAX"

definition ap_resp_to_payload :: "u32 \<Rightarrow> bool \<Rightarrow> string option \<Rightarrow> nat \<Rightarrow> resp_err + bytes" where
  "ap_resp_to_payload rx_id proto29 resp payload_max =
     (case resp of
        None \<Rightarrow> Inl RE_INVALID_ARG
      | Some r \<Rightarrow>
          let (lines, saw_error, iso_total) = ap_resp_collect_lines rx_id proto29 r in
          if saw_error then Inl RE_FAIL
          else if lines = [] then Inl RE_NOT_FOUND
          else
            let payload = (if al_has_header (lines ! 0)
                           then assemble_header_frames lines (lowest_header lines) payload_max
                           else assemble_headerless lines iso_total payload_max)
            in if payload = [] then Inl RE_NOT_FOUND else Inr payload)"

section \<open>The answer as frames\<close>

definition frames_put :: "nat \<Rightarrow> bytes \<Rightarrow> bytes \<Rightarrow> bytes" where
  "frames_put out_max out src = take out_max (out @ src)"

function cf_loop :: "bytes \<Rightarrow> nat \<Rightarrow> nat \<Rightarrow> bytes \<Rightarrow> bytes" where
  "cf_loop rest sn out_max out =
     (if rest = [] then out
      else cf_loop (drop 7 rest) (Suc sn) out_max
             (frames_put out_max (frames_put out_max (frames_put out_max out [0x20 OR (of_nat sn AND 0x0F)]) (take 7 rest))
                (replicate (7 - length (take 7 rest)) 0)))"
  by pat_completeness auto
termination
  by (relation "measure (\<lambda>(rest, _, _, _). length rest)") auto

declare cf_loop.simps [simp del]

definition frames_from_payload :: "bytes \<Rightarrow> nat \<Rightarrow> bytes" where
  "frames_from_payload payload out_max =
     (let n = length payload in
      if n = 0 then []
      else if n \<le> 7 then frames_put out_max (frames_put out_max [] [of_nat n]) payload
      else cf_loop (drop 6 payload) 1 out_max
             (frames_put out_max
                (frames_put out_max [] [0x10 OR (of_nat (n div 256) AND 0x0F), of_nat n AND 0xFF]) (take 6 payload)))"

definition ap_resp_frames :: "u32 \<Rightarrow> bool \<Rightarrow> string option \<Rightarrow> nat \<Rightarrow> resp_err + bytes" where
  "ap_resp_frames rx_id proto29 resp out_max =
     (case resp of
        None \<Rightarrow> Inl RE_INVALID_ARG
      | Some r \<Rightarrow>
          let (lines, saw_error, iso_total) = ap_resp_collect_lines rx_id proto29 r in
          if saw_error then Inl RE_FAIL
          else if lines = [] then Inl RE_NOT_FOUND
          else
            let out = (if al_has_header (lines ! 0)
                       then fold (\<lambda>l out. if al_has_header l \<and> al_header l = lowest_header lines
                                          then frames_put out_max out (al_bytes l) else out) lines []
                       else frames_from_payload (assemble_headerless lines iso_total AP_PAYLOAD_MAX) out_max)
            in if out = [] then Inl RE_NOT_FOUND else Inr out)"

section \<open>The answers of several control units\<close>

record ap_resp_ecu =
  ae_header :: u32
  ae_payload :: bytes

text \<open>The ids in ascending order; when \<open>most\<close> are kept a new one pushes the greatest out.\<close>

definition put_header :: "nat \<Rightarrow> u32 \<Rightarrow> u32 list \<Rightarrow> u32 list" where
  "put_header most h hdrs =
     (let before = takeWhile (\<lambda>x. x < h) hdrs; rest = dropWhile (\<lambda>x. x < h) hdrs in
      if rest \<noteq> [] \<and> rest ! 0 = h then hdrs
      else if length hdrs \<ge> most \<and> length before \<ge> most then hdrs
      else take (if length hdrs < most then Suc (length hdrs) else length hdrs) (before @ h # rest))"

definition responder_ids :: "nat \<Rightarrow> ap_line list \<Rightarrow> u32 list" where
  "responder_ids most lines =
     fold (\<lambda>l hdrs. if \<not> al_has_header l then hdrs else put_header most (al_header l) hdrs) lines []"

definition ap_resp_to_payloads :: "u32 \<Rightarrow> bool \<Rightarrow> string option \<Rightarrow> int \<Rightarrow> ap_resp_ecu list option" where
  "ap_resp_to_payloads rx_id proto29 resp max_ecus =
     (case resp of
        None \<Rightarrow> Some []
      | Some r \<Rightarrow>
          if max_ecus \<le> 0 then Some []
          else
            let most = min (nat max_ecus) AP_RESP_ECUS_MAX;
                (lines, saw_error, iso_total) = ap_resp_collect_lines rx_id proto29 r in
            if saw_error then None
            else if lines = [] then Some []
            else if \<not> al_has_header (lines ! 0) then
              let payload = assemble_headerless lines iso_total AP_PAYLOAD_MAX
              in Some (if payload = [] then [] else [\<lparr>ae_header = UINT32_MAX, ae_payload = payload\<rparr>])
            else
              Some (filter (\<lambda>e. ae_payload e \<noteq> [])
                (map (\<lambda>h. \<lparr>ae_header = h, ae_payload = assemble_header_frames lines h AP_PAYLOAD_MAX\<rparr>) (responder_ids most lines))))"

section \<open>Monitored frames\<close>

definition hex_byte :: "string \<Rightarrow> u8 option" where
  "hex_byte s = (if length s \<noteq> 2 \<or> \<not> list_all isxdigit s then None else Some (of_nat (hex_num s)))"

definition hex_word :: "string list \<Rightarrow> u32 option" where
  "hex_word toks =
     (if list_all (\<lambda>t. hex_byte t \<noteq> None) toks
      then Some (fold (\<lambda>t w. push_bit 8 w OR ucast (the (hex_byte t))) toks 0) else None)"

text \<open>Where the data begins, when the line carries the id.\<close>

definition filter_header :: "string list \<Rightarrow> u32 \<Rightarrow> nat option" where
  "filter_header tok frame_id =
     (let t0 = tok ! 0 in
      if length t0 = 3 \<or> length t0 = 8 then
        (if list_all isxdigit t0 \<and> of_nat (hex_num t0) = frame_id then Some 1 else None)
      else if length t0 = 2 then
        (if length tok \<ge> 4 \<and> hex_word (take 4 tok) = Some frame_id then Some 4
         else if length tok \<ge> 2 \<and> frame_id \<le> 0x7FF \<and> hex_word (take 2 tok) = Some frame_id then Some 2
         else None)
      else None)"

fun filter_data :: "string list \<Rightarrow> nat \<Rightarrow> bytes \<Rightarrow> bytes" where
  "filter_data [] payload_max payload = payload"
| "filter_data (t # ts) payload_max payload =
     (if length payload \<ge> payload_max then payload
      else if t = ''>'' then payload
      else filter_data ts payload_max (case hex_byte t of Some b \<Rightarrow> payload @ [b] | None \<Rightarrow> payload))"

definition ap_filter_frame :: "string \<Rightarrow> u32 \<Rightarrow> nat \<Rightarrow> bytes option" where
  "ap_filter_frame line frame_id payload_max =
     (let tok = take 16 (tokens line) in
      if tok = [] then None
      else (case filter_header tok frame_id of
              None \<Rightarrow> None
            | Some k \<Rightarrow>
                let payload = filter_data (drop k tok) payload_max [] in if payload = [] then None else Some payload))"

record ap_flt_stream =
  fs_line :: string
  fs_overflow :: bool

definition ap_flt_stream_init :: ap_flt_stream where
  "ap_flt_stream_init = \<lparr>fs_line = [], fs_overflow = False\<rparr>"

text \<open>The state, the frame when one is complete, and how many bytes were taken.\<close>

fun feed_loop :: "ap_flt_stream \<Rightarrow> bytes \<Rightarrow> nat \<Rightarrow> u32 \<Rightarrow> nat \<Rightarrow> ap_flt_stream \<times> bytes option \<times> nat" where
  "feed_loop st [] i frame_id payload_max = (st, None, i)"
| "feed_loop st (b # bs) i frame_id payload_max =
     (let ch = char_of (unat b) in
      if is_eol ch then
        (case (if fs_line st \<noteq> [] \<and> \<not> fs_overflow st then ap_filter_frame (fs_line st) frame_id payload_max else None) of
           Some p \<Rightarrow> (ap_flt_stream_init, Some p, Suc i)
         | None \<Rightarrow> feed_loop ap_flt_stream_init bs (Suc i) frame_id payload_max)
      else if length (fs_line st) < 159 then
        feed_loop (st\<lparr>fs_line := fs_line st @ [ch]\<rparr>) bs (Suc i) frame_id payload_max
      else feed_loop (st\<lparr>fs_overflow := True\<rparr>) bs (Suc i) frame_id payload_max)"

definition ap_flt_stream_feed_ex :: "ap_flt_stream \<Rightarrow> bytes \<Rightarrow> u32 \<Rightarrow> nat \<Rightarrow> ap_flt_stream \<times> bytes option \<times> nat" where
  "ap_flt_stream_feed_ex st bytes frame_id payload_max = feed_loop st bytes 0 frame_id payload_max"

definition ap_flt_stream_feed :: "ap_flt_stream \<Rightarrow> bytes \<Rightarrow> u32 \<Rightarrow> nat \<Rightarrow> ap_flt_stream \<times> bytes option" where
  "ap_flt_stream_feed st bytes frame_id payload_max =
     (let (st', p, _) = ap_flt_stream_feed_ex st bytes frame_id payload_max in (st', p))"

lemma feed_loop_used: "feed_loop st bs i frame_id m = (st', p, used) \<Longrightarrow> i \<le> used \<and> (p \<noteq> None \<longrightarrow> i < used)"
  by (induction st bs i frame_id m rule: feed_loop.induct) (auto simp: Let_def split: if_splits option.splits)

text \<open>The loop of the filter window over one chunk: every frame of it, while some parameter
  still waits for a value.\<close>

function window_chunk :: "ap_flt_stream \<Rightarrow> bytes \<Rightarrow> u32 \<Rightarrow> nat \<Rightarrow> ap_flt_stream \<times> bytes list" where
  "window_chunk st bytes frame_id payload_max =
     (if bytes = [] then (st, [])
      else (case ap_flt_stream_feed_ex st bytes frame_id payload_max of
              (st', None, used) \<Rightarrow> (st', [])
            | (st', Some p, used) \<Rightarrow>
                let (st'', ps) = window_chunk st' (drop used bytes) frame_id payload_max in (st'', p # ps)))"
  by pat_completeness auto
termination
  by (relation "measure (\<lambda>(_, bytes, _, _). length bytes)")
    (auto simp: ap_flt_stream_feed_ex_def dest!: feed_loop_used [OF sym])

declare window_chunk.simps [simp del]

subsection \<open>Any cut of the stream gives the frames of its lines\<close>

text \<open>The complete lines of a text, the first after what \<open>cur\<close> holds of it, and the part of a line at
  its end.\<close>

fun complete_lines :: "string \<Rightarrow> string \<Rightarrow> string list" where
  "complete_lines cur [] = []"
| "complete_lines cur (c # s) = (if is_eol c then cur # complete_lines [] s else complete_lines (cur @ [c]) s)"

fun last_part :: "string \<Rightarrow> string \<Rightarrow> string" where
  "last_part cur [] = cur"
| "last_part cur (c # s) = (if is_eol c then last_part [] s else last_part (cur @ [c]) s)"

definition line_frame :: "u32 \<Rightarrow> nat \<Rightarrow> string \<Rightarrow> bytes option" where
  "line_frame frame_id m line = (if line \<noteq> [] \<and> length line \<le> 159 then ap_filter_frame line frame_id m else None)"

definition ascii :: "bytes \<Rightarrow> string" where
  "ascii bs = map (\<lambda>b. char_of (unat b)) bs"

lemma ascii_simps [simp]: "ascii [] = []" "ascii (b # bs) = char_of (unat b) # ascii bs" "ascii (xs @ ys) = ascii xs @ ascii ys"
  by (simp_all add: ascii_def)

definition in_line :: "string \<Rightarrow> ap_flt_stream" where
  "in_line cur = \<lparr>fs_line = take 159 cur, fs_overflow = (length cur > 159)\<rparr>"

lemma in_line_init: "ap_flt_stream_init = in_line []"
  by (simp add: ap_flt_stream_init_def in_line_def)

lemma in_line_snoc:
  "(if length (fs_line (in_line cur)) < 159 then (in_line cur)\<lparr>fs_line := fs_line (in_line cur) @ [c]\<rparr>
    else (in_line cur)\<lparr>fs_overflow := True\<rparr>) = in_line (cur @ [c])"
  by (auto simp: in_line_def)

lemma in_line_frame:
  "(if fs_line (in_line cur) \<noteq> [] \<and> \<not> fs_overflow (in_line cur) then ap_filter_frame (fs_line (in_line cur)) frame_id m else None)
    = line_frame frame_id m cur"
  by (auto simp: in_line_def line_frame_def)

lemma feed_loop_in_line:
  "feed_loop (in_line cur) (b # bs) i frame_id m =
    (if is_eol (char_of (unat b))
     then (case line_frame frame_id m cur of
             Some p \<Rightarrow> (in_line [], Some p, Suc i)
           | None \<Rightarrow> feed_loop (in_line []) bs (Suc i) frame_id m)
     else feed_loop (in_line (cur @ [char_of (unat b)])) bs (Suc i) frame_id m)"
  unfolding feed_loop.simps Let_def in_line_frame in_line_init in_line_snoc [symmetric] by simp

declare feed_loop.simps(2) [simp del]
declare feed_loop_in_line [simp]

lemma feed_loop_lines:
  "feed_loop (in_line cur) bs i frame_id m = (st', p, used) \<Longrightarrow>
    (case p of
       None \<Rightarrow> List.map_filter (line_frame frame_id m) (complete_lines cur (ascii bs)) = [] \<and> st' = in_line (last_part cur (ascii bs))
     | Some q \<Rightarrow> i < used \<and> st' = in_line [] \<and>
         List.map_filter (line_frame frame_id m) (complete_lines cur (ascii bs)) =
           q # List.map_filter (line_frame frame_id m) (complete_lines [] (ascii (drop (used - i) bs))) \<and>
         last_part cur (ascii bs) = last_part [] (ascii (drop (used - i) bs)))"
proof (induction bs arbitrary: cur i)
  case Nil
  then show ?case by auto
next
  case (Cons b bs)
  show ?case
  proof (cases "is_eol (char_of (unat b)) \<and> line_frame frame_id m cur \<noteq> None")
    case True
    then obtain y where "line_frame frame_id m cur = Some y" by auto
    then show ?thesis using Cons.prems True by auto
  next
    case False
    then obtain cur' where "feed_loop (in_line cur') bs (Suc i) frame_id m = (st', p, used)"
        and "last_part cur (ascii (b # bs)) = last_part cur' (ascii bs)"
        and "List.map_filter (line_frame frame_id m) (complete_lines cur (ascii (b # bs))) =
          List.map_filter (line_frame frame_id m) (complete_lines cur' (ascii bs))"
      using Cons.prems by (cases "is_eol (char_of (unat b))") auto
    then show ?thesis using Cons.IH [of cur' "Suc i"]
      by (auto simp: Suc_diff_Suc drop_Cons' split: option.splits)
  qed
qed

lemma window_chunk_lines:
  "window_chunk (in_line cur) bs frame_id m =
    (in_line (last_part cur (ascii bs)), List.map_filter (line_frame frame_id m) (complete_lines cur (ascii bs)))"
proof (induction "length bs" arbitrary: cur bs rule: less_induct)
  case less
  obtain st' p used where f: "ap_flt_stream_feed_ex (in_line cur) bs frame_id m = (st', p, used)"
    by (cases "ap_flt_stream_feed_ex (in_line cur) bs frame_id m") auto
  note lines = feed_loop_lines [OF f [unfolded ap_flt_stream_feed_ex_def]]
  show ?case
  proof (cases p)
    case None
    then show ?thesis using lines f by (subst window_chunk.simps) auto
  next
    case (Some q)
    show ?thesis
    proof (cases "bs = []")
      case False
      then have "length (drop used bs) < length bs" using lines Some by simp
      from less [OF this, of "[]"] show ?thesis using False lines f Some
        by (subst window_chunk.simps) auto
    qed (use f Some in \<open>simp add: ap_flt_stream_feed_ex_def\<close>)
  qed
qed

fun window_chunks :: "ap_flt_stream \<Rightarrow> bytes list \<Rightarrow> u32 \<Rightarrow> nat \<Rightarrow> bytes list" where
  "window_chunks st [] frame_id m = []"
| "window_chunks st (c # cs) frame_id m =
     (let (st', ps) = window_chunk st c frame_id m in ps @ window_chunks st' cs frame_id m)"

lemma complete_lines_append:
  "complete_lines cur (s @ t) = complete_lines cur s @ complete_lines (last_part cur s) t"
  by (induction s arbitrary: cur) auto

lemma window_chunks_lines:
  "window_chunks (in_line cur) cs frame_id m =
    List.map_filter (line_frame frame_id m) (complete_lines cur (ascii (concat cs)))"
proof (induction cs arbitrary: cur)
  case (Cons c cs)
  then show ?case by (simp add: window_chunk_lines complete_lines_append) (simp add: List.map_filter_def)
qed simp

text \<open>However the chip's output is cut into chunks, the frames are those of its complete lines, in order;
  a line of more than 159 characters gives none.\<close>

text \<open>C30. However the output of a monitoring chip is cut into chunks, the frames taken from it
  are those of its complete lines, in order, each line of at most 159 characters parsed as a
  whole.\<close>

theorem monitored_frames:
  "window_chunks ap_flt_stream_init cs frame_id m =
    List.map_filter (line_frame frame_id m) (complete_lines [] (ascii (concat cs)))"
  unfolding in_line_init by (rule window_chunks_lines)

end
