(* ===== verification/OBD_Resp_Text.thy ===== *)
theory OBD_Resp_Text
  imports OBD_Resp
begin

text \<open>
  What the reading of \<^verbatim>\<open>OBD_Resp\<close> makes of a whole reply: the text the chip prints for frames with
  headers on and for the rows of an answer with headers off, and the answers that come out.
\<close>

section \<open>Printed lines\<close>

fun joined :: "string list \<Rightarrow> string" where
  "joined [] = []"
| "joined [t] = t"
| "joined (t # u # ts) = t @ CHR '' '' # joined (u # ts)"

definition plain_char :: "char \<Rightarrow> bool" where
  "plain_char c \<longleftrightarrow> isxdigit c \<or> c = CHR '':''"

definition plain_token :: "string \<Rightarrow> bool" where
  "plain_token t \<longleftrightarrow> t \<noteq> [] \<and> list_all plain_char t"

lemma plain_char_not: "plain_char c \<Longrightarrow> \<not> is_blank_char c \<and> \<not> is_eol c \<and> c \<noteq> CHR ''>'' \<and> c \<noteq> CHR '' ''"
  by (auto simp: plain_char_def isxdigit_def hex_value_def is_blank_char_def is_eol_def Let_def)

lemma plain_token_blank: "plain_token t \<Longrightarrow> takeWhile (\<lambda>c. \<not> is_blank_char c) (t @ s) = t @ takeWhile (\<lambda>c. \<not> is_blank_char c) s"
  by (auto simp: plain_token_def list_all_iff plain_char_not intro!: takeWhile_append2)

lemma plain_token_rest: "plain_token t \<Longrightarrow> dropWhile (\<lambda>c. \<not> is_blank_char c) (t @ s) = dropWhile (\<lambda>c. \<not> is_blank_char c) s"
  by (auto simp: plain_token_def list_all_iff plain_char_not intro!: dropWhile_append2)

lemma plain_token_start: "plain_token t \<Longrightarrow> dropWhile is_blank_char (t @ s) = t @ s \<and> t @ s \<noteq> []"
  by (cases t) (auto simp: plain_token_def plain_char_not)

lemma tokens_blank: "tokens (CHR '' '' # s) = tokens s"
  by (subst (1 2) tokens.simps) (simp add: is_blank_char_def)

lemma tokens_one:
  assumes "plain_token t"
  shows "tokens t = [t]"
proof -
  have "tokens t = takeWhile (\<lambda>c. \<not> is_blank_char c) t # tokens (dropWhile (\<lambda>c. \<not> is_blank_char c) t)"
    using plain_token_start [OF assms, of "[]"] by (subst tokens.simps) simp
  also have "dropWhile (\<lambda>c. \<not> is_blank_char c) t = []" using plain_token_rest [OF assms, of "[]"] by simp
  finally show ?thesis using plain_token_blank [OF assms, of "[]"] by (simp add: tokens.simps [of "[]"])
qed

lemma tokens_joined: "list_all plain_token ts \<Longrightarrow> tokens (joined ts) = ts"
proof (induction ts rule: joined.induct)
  case 1
  then show ?case by (simp add: tokens.simps)
next
  case (2 t)
  then show ?case by (simp add: tokens_one)
next
  case (3 t u ts)
  have b: "is_blank_char (CHR '' '')" by (simp add: is_blank_char_def)
  have "tokens (t @ CHR '' '' # joined (u # ts)) = t # tokens (CHR '' '' # joined (u # ts))"
    using 3(2) plain_token_start [of t] plain_token_blank [of t] plain_token_rest [of t] b
    by (subst tokens.simps) (simp add: Let_def)
  then show ?case using 3 by (simp add: tokens_blank)
qed

lemma joined_chars: "list_all plain_token ts \<Longrightarrow> list_all (\<lambda>c. plain_char c \<or> c = CHR '' '') (joined ts)"
  by (induction ts rule: joined.induct) (auto simp: plain_token_def list_all_iff)

lemma joined_ends:
  "list_all plain_token ts \<Longrightarrow> ts \<noteq> [] \<Longrightarrow> joined ts \<noteq> [] \<and> plain_char (hd (joined ts)) \<and> plain_char (last (joined ts))"
proof (induction ts rule: joined.induct)
  case (2 t)
  then show ?case by (cases t) (auto simp: plain_token_def list_all_iff)
next
  case (3 t u ts)
  then show ?case by (cases t) (auto simp: plain_token_def)
qed simp

lemma trim_line_joined:
  assumes "list_all plain_token ts" "ts \<noteq> []" "length (joined ts) < AP_LINE_MAX"
  shows "trim_line (joined ts) = joined ts"
proof -
  note ends = joined_ends [OF assms(1,2)]
  have "dropWhile (\<lambda>c. c = CHR '' '' \<or> c = CHR ''>'') (rev (joined ts)) = rev (joined ts)"
    using ends plain_char_not [of "last (joined ts)"] by (cases "joined ts" rule: rev_cases) auto
  moreover have "dropWhile (\<lambda>c. c = CHR '' '') (joined ts) = joined ts"
    using ends plain_char_not [of "hd (joined ts)"] by (cases "joined ts") auto
  ultimately show ?thesis using assms(3) by (simp add: trim_line_def)
qed

lemma begins_with_plain:
  assumes "list_all (\<lambda>c. plain_char c \<or> c = CHR '' '') s" "\<exists>c \<in> set w. \<not> (plain_char c \<or> c = CHR '' '')"
  shows "\<not> begins_with s w"
  using assms set_take_subset [of "length w" s] by (auto simp: begins_with_def list_all_iff)

lemma joined_is_data:
  assumes "list_all plain_token ts"
  shows "\<not> line_is_error (joined ts)" "\<not> line_is_noise (joined ts)"
  using begins_with_plain [OF joined_chars [OF assms]]
  by (simp_all add: line_is_error_def line_is_noise_def plain_char_def isxdigit_def hex_value_def)

section \<open>Tokens of bytes\<close>

lemma hex_fixed_Nil [simp]: "hex_fixed k n = [] \<longleftrightarrow> k = 0"
  by (cases k) auto

lemma plain_hex_fixed [simp]: "k > 0 \<Longrightarrow> plain_token (hex_fixed k n)"
  using hex_fixed_digits [of k n] by (auto simp: plain_token_def plain_char_def list_all_iff)

lemma is_hex_fixed [simp]: "k > 0 \<Longrightarrow> is_hex_str (hex_fixed k n)"
  using hex_fixed_digits [of k n] by (auto simp: is_hex_str_def)

lemma hex_fixed_no_colon: "k > 0 \<Longrightarrow> last (hex_fixed k n) \<noteq> CHR '':''"
proof -
  assume "k > 0"
  then have "last (hex_fixed k n) \<in> set (hex_fixed k n)" by (intro last_in_set) auto
  then show ?thesis using hex_fixed_digits [of k n] by (auto simp: list_all_iff isxdigit_def hex_value_def Let_def)
qed

lemma parse_bytes:
  "length (al_bytes out) + length bs \<le> 64 \<Longrightarrow>
    parse_tokens (map hex2 bs) n out = Some (out\<lparr>al_bytes := al_bytes out @ bs\<rparr>)"
proof (induction bs arbitrary: n out)
  case (Cons b bs)
  have "unat b < 256" by (rule unat_u8_less)
  then have v: "(of_nat (hex_num (hex2 b)) :: u8) = b" by simp
  have "parse_tokens (map hex2 (b # bs)) n out = parse_tokens (map hex2 bs) (Suc n) (out\<lparr>al_bytes := al_bytes out @ [b]\<rparr>)"
    using Cons.prems v hex_fixed_no_colon [of 2 "unat b"] by (simp del: hex_num_fixed hex_fixed.simps)
  then show ?case using Cons.IH [of "out\<lparr>al_bytes := al_bytes out @ [b]\<rparr>" "Suc n"] Cons.prems by simp
qed simp

lemma length_joined_bytes: "length (joined (map hex2 bs)) \<le> 3 * length bs"
proof (induction bs)
  case (Cons b bs)
  then show ?case by (cases bs) auto
qed simp

lemma length_joined_Cons: "length (joined (t # ts)) \<le> length t + 1 + length (joined ts)"
  by (cases ts) auto

section \<open>A frame with headers on\<close>

text \<open>The ids: 11 bits as three digits, or an answer to the tester on 29 bits as four bytes.\<close>

definition id11 :: "u32 \<Rightarrow> bool" where
  "id11 h \<longleftrightarrow> unat h < 0x800"

definition id29 :: "u32 \<Rightarrow> bool" where
  "id29 h \<longleftrightarrow> drop_bit 8 h = 0x18DAF1"

definition id_bytes :: "u32 \<Rightarrow> bytes" where
  "id_bytes h = [byte_of 3 h, byte_of 2 h, byte_of 1 h, byte_of 0 h]"

definition frame_tokens :: "u32 \<times> bytes \<Rightarrow> string list" where
  "frame_tokens = (\<lambda>(h, b). if id11 h then hex_fixed 3 (unat h) # map hex2 b else map hex2 (id_bytes h @ b))"

definition frame_line :: "u32 \<times> bytes \<Rightarrow> string" where
  "frame_line f = joined (frame_tokens f)"

text \<open>A frame of ISO-TP: two to eight bytes, and its first one fits.\<close>

definition iso_frame :: "bytes \<Rightarrow> bool" where
  "iso_frame b \<longleftrightarrow> 2 \<le> length b \<and> length b \<le> 8 \<and> pci_fits (b ! 0) (length b - 1)"

definition pending_frame :: "bytes \<Rightarrow> bool" where
  "pending_frame b \<longleftrightarrow> length b \<ge> 4 \<and> b ! 0 = 0x03 \<and> b ! 1 = 0x7F \<and> b ! 3 = 0x78"

lemma frame_tokens_plain: "list_all plain_token (frame_tokens f)" "frame_tokens f \<noteq> []"
  by (auto simp: frame_tokens_def list_all_iff id_bytes_def split: prod.splits simp del: hex_fixed.simps)

lemma length_frame_line:
  assumes "length b \<le> 8"
  shows "length (frame_line (h, b)) < AP_LINE_MAX"
  using assms length_joined_bytes [of "id_bytes h @ b"] length_joined_bytes [of b]
    length_joined_Cons [of "hex_fixed 3 (unat h)" "map hex2 b"]
  by (auto simp: frame_line_def frame_tokens_def id_bytes_def simp del: hex_fixed.simps)

lemma pci_fits_low: "pci_fits p n \<Longrightarrow> \<not> drop_bit 4 p > 3"
  by (auto simp: pci_fits_def Let_def split: if_splits)

lemma take_ea_frame: "iso_frame (al_bytes l) \<Longrightarrow> take_ea l = l"
  by (auto simp: take_ea_def iso_frame_def Let_def dest: pci_fits_low)

lemma parse_id11:
  assumes "id11 h" "length b \<le> 8" "b \<noteq> []"
  shows "\<exists>v. parse_line (frame_line (h, b)) = Some (al_zero\<lparr>al_bytes := b, al_header := h, al_has_header := True, al_bare_value := v\<rparr>)"
proof -
  have "unat h < 16 ^ 3" using assms(1) by (simp add: id11_def)
  then have h: "(of_nat (hex_num (hex_fixed 3 (unat h))) :: u32) = h" by simp
  have "tokens (frame_line (h, b)) = hex_fixed 3 (unat h) # map hex2 b"
    using assms(1) frame_tokens_plain(1) [of "(h, b)"] tokens_joined by (simp add: frame_line_def frame_tokens_def)
  then show ?thesis
    using h assms(2,3) hex_fixed_no_colon [of 3 "unat h"] parse_bytes [of _ b 1]
    by (simp add: parse_line_def al_zero_def Let_def del: hex_num_fixed hex_fixed.simps)
qed

lemma parse_plain_bytes:
  assumes "length b \<le> 64" "b \<noteq> []"
  shows "parse_line (joined (map hex2 b)) = Some (al_zero\<lparr>al_bytes := b\<rparr>)"
proof -
  have "list_all plain_token (map hex2 b)" by (auto simp: list_all_iff simp del: hex_fixed.simps)
  then show ?thesis using assms parse_bytes [of al_zero b 0]
    by (simp add: parse_line_def tokens_joined al_zero_def Let_def del: hex_fixed.simps)
qed

lemma id_bytes_word: "push_bit 24 (ucast (byte_of 3 h)) OR push_bit 16 (ucast (byte_of 2 h)) OR push_bit 8 (ucast (byte_of 1 h)) OR ucast (byte_of 0 h) = (h :: u32)"
  unfolding byte_of_def by (rule bit_word_eqI) (auto simp: wsimps)

lemma id29_bytes: "id29 h \<Longrightarrow> byte_of 3 h = 0x18 \<and> byte_of 2 h = 0xDA \<and> byte_of 1 h = 0xF1"
proof -
  assume "id29 h"
  then have "drop_bit 8 h = 0x18DAF1" by (simp add: id29_def)
  then have "byte_of 0 (drop_bit 8 h) = 0xF1" "byte_of 1 (drop_bit 8 h) = 0xDA" "byte_of 2 (drop_bit 8 h) = 0x18"
    by (simp_all add: byte_of_def)
  then show ?thesis by (simp add: byte_of_def)
qed

lemma take_id29_frame:
  assumes "id29 h" "iso_frame b"
  shows "take_id29 rx p29 (al_zero\<lparr>al_bytes := id_bytes h @ b\<rparr>) = al_zero\<lparr>al_bytes := b, al_header := h, al_has_header := True\<rparr>"
proof -
  define B where "B = id_bytes h @ b"
  have n: "B ! 0 = byte_of 3 h" "B ! 1 = byte_of 2 h" "B ! 2 = byte_of 1 h" "B ! 3 = byte_of 0 h" "drop 4 B = b" "\<not> length B < 6"
    using assms(2) by (simp_all add: B_def id_bytes_def nth_append iso_frame_def)
  note h = id29_bytes [OF assms(1)]
  have w: "push_bit 24 (ucast (B ! 0)) OR push_bit 16 (ucast (B ! 1)) OR push_bit 8 (ucast (B ! 2)) OR ucast (B ! 3) = h"
    unfolding n by (rule id_bytes_word)
  have l: "B ! 0 = 0x18 \<and> B ! 1 = 0xDA \<and> B ! 2 = 0xF1" using n h by simp
  have f: "pci_fits (b ! 0) (length b - 1)" using assms(2) by (simp add: iso_frame_def)
  have "402653184 OR 14286848 OR 61696 OR ucast (B ! 3) = h" using w l by simp
  then show ?thesis
    unfolding take_id29_def Let_def B_def [symmetric]
    using l f n(5,6) by (simp add: al_zero_def)
qed

text \<open>The line that is kept of a frame.\<close>

definition is_frame :: "ap_line \<Rightarrow> u32 \<times> bytes \<Rightarrow> bool" where
  "is_frame l = (\<lambda>(h, b). al_bytes l = b \<and> al_header l = h \<and> al_has_header l \<and> al_iso_index l = -1 \<and> \<not> al_is_bare l \<and>
     al_ea l = 0 \<and> iso_frame b)"

definition good_frame :: "u32 \<times> bytes \<Rightarrow> bool" where
  "good_frame = (\<lambda>(h, b). (id11 h \<or> id29 h) \<and> iso_frame b)"

lemma parse_frame:
  assumes "good_frame (h, b)"
  shows "\<exists>l l'. parse_line (frame_line (h, b)) = Some l' \<and> is_frame l (h, b) \<and> l = take_ea (take_id29 rx p29 l')"
proof (cases "id11 h")
  case True
  then obtain v where v: "parse_line (frame_line (h, b)) = Some (al_zero\<lparr>al_bytes := b, al_header := h, al_has_header := True, al_bare_value := v\<rparr>)"
    (is "_ = Some ?l") using parse_id11 [of h b] assms by (fastforce simp: good_frame_def iso_frame_def)
  have "take_id29 rx p29 ?l = ?l" by (simp add: take_id29_def)
  then have "is_frame (take_ea (take_id29 rx p29 ?l)) (h, b)"
    using assms take_ea_frame [of ?l] by (simp add: is_frame_def good_frame_def al_zero_def)
  then show ?thesis using v by blast
next
  case False
  then have h: "id29 h" "iso_frame b" using assms by (auto simp: good_frame_def)
  then have "parse_line (frame_line (h, b)) = Some (al_zero\<lparr>al_bytes := id_bytes h @ b\<rparr>)"
    using parse_plain_bytes [of "id_bytes h @ b"] False by (simp add: frame_line_def frame_tokens_def id_bytes_def iso_frame_def)
  moreover have "is_frame (take_ea (take_id29 rx p29 (al_zero\<lparr>al_bytes := id_bytes h @ b\<rparr>))) (h, b)"
    unfolding take_id29_frame [OF h]
    using h(2) take_ea_frame [of "al_zero\<lparr>al_bytes := b, al_header := h, al_has_header := True\<rparr>"]
    by (simp add: is_frame_def al_zero_def)
  ultimately show ?thesis by blast
qed

lemma take_frame_line:
  assumes "good_frame f"
  shows "\<exists>l. is_frame l f \<and> take_line rx p29 (frame_line f) (ls, e, t) = (if pending_frame (snd f) then ls else ls @ [l], e, t)"
proof -
  obtain h b where f: "f = (h, b)" by force
  then have b: "length b \<le> 8" using assms by (simp add: good_frame_def iso_frame_def)
  obtain l l' where l: "parse_line (frame_line (h, b)) = Some l'" "is_frame l (h, b)" "l = take_ea (take_id29 rx p29 l')"
    using parse_frame [of h b rx p29] assms f by blast
  have "trim_line (frame_line (h, b)) = frame_line (h, b)" "frame_line (h, b) \<noteq> []"
    using trim_line_joined [of "frame_tokens (h, b)"] joined_ends [of "frame_tokens (h, b)"]
      length_frame_line [OF b, of h] frame_tokens_plain [of "(h, b)"] by (simp_all add: frame_line_def)
  moreover have "\<not> line_is_error (frame_line (h, b))" "\<not> line_is_noise (frame_line (h, b))"
    using joined_is_data [of "frame_tokens (h, b)"] frame_tokens_plain [of "(h, b)"] by (simp_all add: frame_line_def)
  moreover have "line_is_pending l \<longleftrightarrow> pending_frame b" "\<not> al_is_bare l"
    using l(2) by (auto simp: is_frame_def line_is_pending_def pending_frame_def Let_def)
  ultimately show ?thesis using l f by (auto simp: take_line_def Let_def)
qed

definition frames_text :: "(u32 \<times> bytes) list \<Rightarrow> string" where
  "frames_text fs = concat (map (\<lambda>f. frame_line f @ [CHR 0x0D]) fs)"

lemma plain_space_eol: "plain_char c \<or> c = CHR '' '' \<Longrightarrow> \<not> is_eol c"
  using plain_char_not [of c] by (auto simp: is_eol_def)

lemma frame_line_chars: "list_all (\<lambda>c. \<not> is_eol c) (frame_line f)" "frame_line f \<noteq> []"
proof -
  show "list_all (\<lambda>c. \<not> is_eol c) (frame_line f)"
    using joined_chars [OF frame_tokens_plain(1) [of f]] plain_space_eol by (auto simp: frame_line_def list_all_iff)
  show "frame_line f \<noteq> []" using joined_ends [OF frame_tokens_plain [of f]] by (simp add: frame_line_def)
qed

lemma frames_text_start: "dropWhile is_eol (frames_text fs) = frames_text fs"
proof (cases fs)
  case (Cons f gs)
  then show ?thesis using frame_line_chars [of f] by (cases "frame_line f") (auto simp: frames_text_def)
qed (simp add: frames_text_def)

lemma collect_line:
  assumes "list_all (\<lambda>c. \<not> is_eol c) line" "line \<noteq> []" "length (fst got) < most" "dropWhile is_eol rest = rest"
  shows "collect_loop rx p29 most (line @ CHR 0x0D # rest) got = collect_loop rx p29 most rest (take_line rx p29 line got)"
proof -
  have eol: "is_eol (CHR 0x0D)" by (simp add: is_eol_def)
  obtain c s where cs: "line @ CHR 0x0D # rest = c # s" by (cases "line @ CHR 0x0D # rest") auto
  have "takeWhile (\<lambda>c. \<not> is_eol c) (c # s) = line" "dropWhile (\<lambda>c. \<not> is_eol c) (c # s) = CHR 0x0D # rest"
    unfolding cs [symmetric] using assms(1) eol by (auto simp: list_all_iff takeWhile_append dropWhile_append)
  then show ?thesis using assms(3,4) eol unfolding cs collect_loop.simps by simp
qed

lemma collect_frames:
  assumes "list_all good_frame fs" "length ls + length fs \<le> most"
  shows "\<exists>ls'. list_all2 is_frame ls' (filter (\<lambda>f. \<not> pending_frame (snd f)) fs) \<and>
    collect_loop rx p29 most (frames_text fs) (ls, e, t) = (ls @ ls', e, t)"
  using assms
proof (induction fs arbitrary: ls)
  case Nil
  then show ?case by (simp add: frames_text_def)
next
  case (Cons f fs)
  obtain l where l: "is_frame l f" "take_line rx p29 (frame_line f) (ls, e, t) = (if pending_frame (snd f) then ls else ls @ [l], e, t)"
    using take_frame_line [of f rx p29 ls e t] Cons.prems by auto
  have "collect_loop rx p29 most (frames_text (f # fs)) (ls, e, t) =
      collect_loop rx p29 most (frames_text fs) (if pending_frame (snd f) then ls else ls @ [l], e, t)"
    using collect_line [OF frame_line_chars, of "(ls, e, t)" most "frames_text fs" rx p29 f] frames_text_start [of fs] Cons.prems l(2)
    by (simp add: frames_text_def)
  then show ?case using Cons.IH [of ls] Cons.IH [of "ls @ [l]"] Cons.prems l(1) by (cases "pending_frame (snd f)") auto
qed

section \<open>The frames of an answer\<close>

text \<open>The frames of ISO-TP for an answer, a short one and the last padded with \<open>pad\<close>.\<close>

definition padded :: "bytes \<Rightarrow> bytes \<Rightarrow> bytes" where
  "padded pad xs = xs @ take (7 - length xs) pad"

function iso_cfs :: "bytes \<Rightarrow> bytes \<Rightarrow> nat \<Rightarrow> bytes list" where
  "iso_cfs pad rest sn =
     (if rest = [] then []
      else ((0x20 OR (of_nat sn AND 0x0F)) # padded pad (take 7 rest)) # iso_cfs pad (drop 7 rest) (Suc sn))"
  by pat_completeness auto
termination
  by (relation "measure (\<lambda>(_, rest, _). length rest)") auto

declare iso_cfs.simps [simp del]

definition iso_frames :: "bytes \<Rightarrow> bytes \<Rightarrow> bytes list" where
  "iso_frames pad p =
     (let n = length p in
      if n \<le> 7 then [of_nat n # padded pad p]
      else ([0x10 OR (of_nat (n div 256) AND 0x0F), of_nat n AND 0xFF] @ take 6 p) # iso_cfs pad (drop 6 p) 1)"

lemma pci_nibbles:
  fixes x :: u8
  shows "drop_bit 4 (0x20 OR (x AND 0x0F)) = 2" "drop_bit 4 (0x10 OR (x AND 0x0F)) = 1" "(0x10 OR (x AND 0x0F)) AND 0x0F = x AND 0x0F"
proof -
  have "\<forall>n \<in> set [0..<16]. drop_bit 4 (0x20 OR (of_nat n :: u8)) = 2 \<and> drop_bit 4 (0x10 OR (of_nat n :: u8)) = 1 \<and>
      (0x10 OR (of_nat n :: u8)) AND 0x0F = of_nat n"
    by code_simp
  moreover have "unat (x AND 0x0F) \<in> set [0..<16]"
    using word_and_le1 [of x "0x0F"] by (simp add: word_le_nat_alt)
  moreover have "of_nat (unat (x AND 0x0F)) = x AND 0x0F" by simp
  ultimately show "drop_bit 4 (0x20 OR (x AND 0x0F)) = 2" "drop_bit 4 (0x10 OR (x AND 0x0F)) = 1" "(0x10 OR (x AND 0x0F)) AND 0x0F = x AND 0x0F"
    by metis+
qed

lemma small_nibble: "n < 16 \<Longrightarrow> drop_bit 4 (of_nat n :: u8) = 0 \<and> unat (of_nat n AND 0x0F :: u8) = n"
proof -
  assume "n < 16"
  moreover have "\<forall>n \<in> set [0..<16]. drop_bit 4 (of_nat n :: u8) = 0 \<and> unat (of_nat n AND 0x0F :: u8) = n" by code_simp
  ultimately show ?thesis by simp
qed







section \<open>The control units of a reply\<close>



lemma lowest_header_Min:
  assumes "list_all al_has_header ls" "ls \<noteq> []"
  shows "lowest_header ls = Min (al_header ` set ls)"
proof -
  have "fold (\<lambda>l lowest. if al_has_header l \<and> al_header l < lowest then al_header l else lowest) ls m = Min (insert m (al_header ` set ls))" for m
    using assms(1)
  proof (induction ls arbitrary: m)
    case (Cons l ls)
    have "Min (insert (min m (al_header l)) (al_header ` set ls)) = Min (insert m (al_header ` set (l # ls)))"
      by (cases "ls = []") (simp_all add: Min.insert_remove [symmetric] min.assoc)
    then show ?case using Cons by (auto simp: min_def split: if_splits)
  qed simp
  then have "lowest_header ls = Min (insert UINT32_MAX (al_header ` set ls))" by (simp add: lowest_header_def)
  also have "\<dots> = min UINT32_MAX (Min (al_header ` set ls))" using assms(2) by (intro Min_insert) auto
  also have "\<dots> = Min (al_header ` set ls)"
    using unat_u32_less [of "Min (al_header ` set ls)"] by (intro min_absorb2) (simp add: word_le_nat_alt)
  finally show ?thesis .
qed


lemma iso_frames_nonempty: "iso_frames pad p \<noteq> []"
  by (simp add: iso_frames_def Let_def)



lemma is_frame_headers:
  "list_all2 is_frame ls fs \<Longrightarrow> list_all al_has_header ls \<and> al_header ` set ls = fst ` set fs \<and> (ls = [] \<longleftrightarrow> fs = [])"
  by (induction rule: list_all2_induct) (auto simp: is_frame_def)





section \<open>An answer with headers off\<close>

function row_cfs :: "bytes \<Rightarrow> bytes \<Rightarrow> nat \<Rightarrow> (nat \<times> bytes) list" where
  "row_cfs pad rest sn =
     (if rest = [] then [] else (sn mod 16, padded pad (take 7 rest)) # row_cfs pad (drop 7 rest) (Suc sn))"
  by pat_completeness auto
termination
  by (relation "measure (\<lambda>(_, rest, _). length rest)") auto

declare row_cfs.simps [simp del]

definition row_text :: "nat \<times> bytes \<Rightarrow> string" where
  "row_text = (\<lambda>(k, d). joined ((hex_fixed 1 k @ '':'') # map hex2 d))"

text \<open>A short answer is a line of its bytes; a longer one its length, then numbered rows.\<close>

definition rows_text :: "bytes \<Rightarrow> bytes \<Rightarrow> string" where
  "rows_text pad p =
     (if length p \<le> 7 then joined (map hex2 p) @ [CHR 0x0D]
      else hex_fixed 3 (length p) @ [CHR 0x0D] @
        concat (map (\<lambda>r. row_text r @ [CHR 0x0D]) ((0, take 6 p) # row_cfs pad (drop 6 p) 1)))"

definition row_line :: "nat \<times> bytes \<Rightarrow> ap_line" where
  "row_line = (\<lambda>(k, d). al_zero\<lparr>al_bytes := d, al_iso_index := int k\<rparr>)"

definition good_row :: "nat \<times> bytes \<Rightarrow> bool" where
  "good_row = (\<lambda>(k, d). k < 16 \<and> d \<noteq> [] \<and> length d \<le> 7)"

lemma row_tokens: "list_all plain_token ((hex_fixed 1 k @ '':'') # map hex2 d)"
proof -
  have "plain_token (hex_fixed 1 k @ '':'')"
    using hex_fixed_digits [of 1 k] by (auto simp: list_all_iff plain_token_def plain_char_def simp del: hex_fixed.simps One_nat_def)
  then show ?thesis by (auto simp: list_all_iff simp del: hex_fixed.simps One_nat_def)
qed

lemma text_of_tokens:
  assumes "list_all plain_token ts" "ts \<noteq> []"
  shows "list_all (\<lambda>c. \<not> is_eol c) (joined ts)" "joined ts \<noteq> []"
  using joined_chars [OF assms(1)] joined_ends [OF assms] plain_space_eol by (auto simp: list_all_iff)

lemma take_line_tokens:
  assumes "list_all plain_token ts" "ts \<noteq> []" "length (joined ts) < AP_LINE_MAX" "parse_line (joined ts) = Some l'"
    and "take_ea (take_id29 rx p29 l') = l"
  shows "take_line rx p29 (joined ts) (ls, e, t) =
    (if al_is_bare l then (ls, e, al_bare_value l) else if line_is_pending l then (ls, e, t) else (ls @ [l], e, t))"
  using assms trim_line_joined [OF assms(1-3)] joined_is_data [OF assms(1)] text_of_tokens [OF assms(1,2)]
  by (simp add: take_line_def)

lemma take_row:
  assumes "good_row r"
  shows "take_line rx p29 (row_text r) (ls, e, t) = (ls @ [row_line r], e, t)"
proof -
  obtain k d where r: "r = (k, d)" "k < 16" "d \<noteq> []" "length d \<le> 7" using assms by (cases r) (auto simp: good_row_def)
  let ?ts = "(hex_fixed 1 k @ '':'') # map hex2 d"
  have "(strtol_hex (hex_fixed 1 k) :: int) = int k" using r(2) by (simp add: strtol_hex_def del: hex_fixed.simps)
  then have "parse_line (joined ?ts) = Some (row_line r)"
    using r parse_bytes [of "al_zero\<lparr>al_iso_index := int k\<rparr>" d 1] tokens_joined [OF row_tokens [of k d]]
    by (simp add: parse_line_def row_line_def al_zero_def Let_def del: hex_fixed.simps One_nat_def)
  moreover have "take_ea (take_id29 rx p29 (row_line r)) = row_line r" "\<not> al_is_bare (row_line r)" "\<not> line_is_pending (row_line r)"
    using r by (simp_all add: take_id29_def take_ea_def row_line_def al_zero_def line_is_pending_def Let_def)
  moreover have "length (joined ?ts) < AP_LINE_MAX"
    using length_joined_Cons [of "hex_fixed 1 k @ '':''" "map hex2 d"] length_joined_bytes [of d] r(4)
    by (simp del: hex_fixed.simps One_nat_def)
  ultimately show ?thesis
    using take_line_tokens [OF row_tokens, of k d "row_line r" rx p29 "row_line r" ls e t] r(1) by (simp add: row_text_def del: hex_fixed.simps One_nat_def)
qed

lemma rows_start: "dropWhile is_eol (concat (map (\<lambda>r. row_text r @ [CHR 0x0D]) rs)) = concat (map (\<lambda>r. row_text r @ [CHR 0x0D]) rs)"
proof (cases rs)
  case (Cons r qs)
  then show ?thesis using text_of_tokens [OF row_tokens [of "fst r" "snd r"]]
    by (cases "row_text r") (auto simp: row_text_def split: prod.splits simp del: hex_fixed.simps One_nat_def)
qed simp

lemma collect_rows:
  assumes "list_all good_row rs" "length ls + length rs \<le> most"
  shows "collect_loop rx p29 most (concat (map (\<lambda>r. row_text r @ [CHR 0x0D]) rs)) (ls, e, t) = (ls @ map row_line rs, e, t)"
  using assms
proof (induction rs arbitrary: ls)
  case (Cons r rs)
  have "list_all (\<lambda>c. \<not> is_eol c) (row_text r)" "row_text r \<noteq> []"
    using text_of_tokens [OF row_tokens [of "fst r" "snd r"]] by (auto simp: row_text_def split: prod.splits simp del: hex_fixed.simps One_nat_def)
  from collect_line [OF this, of "(ls, e, t)" most "concat (map (\<lambda>r. row_text r @ [CHR 0x0D]) rs)" rx p29] Cons take_row [of r rx p29 ls e t]
  show ?case by (simp add: rows_start)
qed simp

lemma take_cut: "take m (take m xs @ ys) = take m (xs @ ys)"
  by (simp add: min_def)

lemma row_cfs_eqs:
  "row_cfs pad [] sn = []"
  "rest \<noteq> [] \<Longrightarrow> row_cfs pad rest sn = (sn mod 16, padded pad (take 7 rest)) # row_cfs pad (drop 7 rest) (Suc sn)"
  by (simp_all add: row_cfs.simps)

lemma row_cfs_good: "list_all good_row (row_cfs pad rest sn)"
proof (induction pad rest sn rule: row_cfs.induct)
  case (1 pad rest sn)
  then show ?case by (cases "rest = []") (auto simp: row_cfs_eqs good_row_def padded_def)
qed

lemma length_row_cfs: "7 * length (row_cfs pad rest sn) \<le> length rest + 6"
proof (induction pad rest sn rule: row_cfs.induct)
  case (1 pad rest sn)
  show ?case
  proof (cases "length rest \<le> 7")
    case True
    then have "row_cfs pad (drop 7 rest) (Suc sn) = []" by (simp add: row_cfs_eqs)
    then show ?thesis using True by (cases "rest = []") (auto simp: row_cfs_eqs Suc_le_eq)
  next
    case False
    then have "rest \<noteq> []" by auto
    then show ?thesis using 1 False by (simp add: row_cfs_eqs)
  qed
qed

lemma rows_loop_step:
  "rows_loop (row_line (sn mod 16, d) # ls) m payload sn = rows_loop ls m (take m (payload @ d)) (Suc sn)"
proof -
  have "\<not> int (sn mod 16) < 0" by linarith
  then show ?thesis by (simp add: row_line_def al_zero_def)
qed

lemma rows_loop_cfs:
  assumes "length payload \<le> m"
  shows "\<exists>z. rows_loop (map row_line (row_cfs pad rest sn)) m payload sn = take m (payload @ rest @ z)"
  using assms
proof (induction pad rest sn arbitrary: payload rule: row_cfs.induct)
  case (1 pad rest sn)
  show ?case
  proof (cases "rest = []")
    case True
    then show ?thesis using 1(2) by (auto simp: row_cfs.simps [of _ "[]"] intro: exI [of _ "[]"])
  next
    case False
    let ?d = "padded pad (take 7 rest)"
    have step: "rows_loop (map row_line (row_cfs pad rest sn)) m payload sn =
        rows_loop (map row_line (row_cfs pad (drop 7 rest) (Suc sn))) m (take m (payload @ ?d)) (Suc sn)"
      unfolding row_cfs_eqs(2) [OF False] by (simp only: list.map rows_loop_step)
    obtain z where z: "rows_loop (map row_line (row_cfs pad (drop 7 rest) (Suc sn))) m (take m (payload @ ?d)) (Suc sn) =
        take m (take m (payload @ ?d) @ drop 7 rest @ z)"
      using 1(1) [OF False, of "take m (payload @ ?d)"] min.cobounded2 unfolding length_take by blast
    have "?d @ drop 7 rest @ z = rest @ (if length rest \<le> 7 then take (7 - length rest) pad @ z else z)"
      by (simp add: padded_def)
    then show ?thesis
      by (intro exI [of _ "if length rest \<le> 7 then take (7 - length rest) pad @ z else z"]) (simp only: step z take_cut append_assoc)
  qed
qed

lemma cf_loop_cfs:
  assumes "length out \<le> m"
  shows "cf_loop rest sn m out = take m (out @ concat (iso_cfs (replicate 7 0) rest sn))"
  using assms
proof (induction rest sn m out rule: cf_loop.induct)
  case (1 rest sn m out)
  show ?case
  proof (cases "rest = []")
    case True
    then show ?thesis using 1(2) by (simp add: cf_loop.simps [of "[]"] iso_cfs.simps [of _ "[]"])
  next
    case False
    let ?f = "(0x20 OR (of_nat sn AND 0x0F)) # padded (replicate 7 0) (take 7 rest)"
    have put: "frames_put m (frames_put m (frames_put m out [0x20 OR (of_nat sn AND 0x0F)]) (take 7 rest))
        (replicate (7 - length (take 7 rest)) 0) = take m (out @ ?f)"
      unfolding frames_put_def take_cut by (simp add: padded_def min_def)
    have "cf_loop rest sn m out = cf_loop (drop 7 rest) (Suc sn) m (take m (out @ ?f))"
      using False by (subst cf_loop.simps) (simp only: put if_False)
    also have "\<dots> = take m (take m (out @ ?f) @ concat (iso_cfs (replicate 7 0) (drop 7 rest) (Suc sn)))"
      using 1(1) [OF False] unfolding put by simp
    also have "\<dots> = take m (out @ concat (iso_cfs (replicate 7 0) rest sn))"
      unfolding take_cut using False by (subst (2) iso_cfs.simps) simp
    finally show ?thesis .
  qed
qed

text \<open>The padding that headers on would show: none for a short answer, zeros after a long one.\<close>

definition chip_pad :: "bytes \<Rightarrow> bytes" where
  "chip_pad p = (if length p \<le> 7 then [] else replicate 7 0)"

lemma frames_from_payload_iso:
  assumes "p \<noteq> []"
  shows "frames_from_payload p m = take m (concat (iso_frames (chip_pad p) p))"
proof (cases "length p \<le> 7")
  case True
  then show ?thesis using assms
    unfolding frames_from_payload_def iso_frames_def chip_pad_def frames_put_def Let_def take_cut by (simp add: padded_def)
next
  case False
  then show ?thesis using assms
    unfolding frames_from_payload_def iso_frames_def chip_pad_def frames_put_def Let_def take_cut
    by (simp only: cf_loop_cfs length_take min.cobounded2 take_cut append_Nil concat.simps append_assoc if_False length_0_conv)
qed

lemma collect_rows_text:
  assumes "p \<noteq> []" "length p \<le> 128" "\<not> (length p = 3 \<and> p ! 0 = 0x7F \<and> p ! 2 = 0x78)" "p ! 0 \<noteq> 0x18 \<or> length p > 7"
  shows "ap_resp_collect_lines 0 False (rows_text pad p) =
    (if length p \<le> 7 then ([al_zero\<lparr>al_bytes := p\<rparr>], False, -1)
     else (map row_line ((0, take 6 p) # row_cfs pad (drop 6 p) 1), False, int (length p)))"
proof (cases "length p \<le> 7")
  case True
  let ?l = "al_zero\<lparr>al_bytes := p\<rparr>"
  have ts: "list_all plain_token (map hex2 p)" "map hex2 p \<noteq> []" using assms(1) by (auto simp: list_all_iff simp del: hex_fixed.simps)
  have len: "length (joined (map hex2 p)) < AP_LINE_MAX" using length_joined_bytes [of p] True by (simp del: hex_fixed.simps)
  have l: "take_ea (take_id29 0 False ?l) = ?l" "\<not> line_is_pending ?l" "\<not> al_is_bare ?l"
    using assms(3,4) True by (auto simp: take_id29_def take_ea_def line_is_pending_def al_zero_def Let_def)
  have pl: "parse_line (joined (map hex2 p)) = Some ?l" using parse_plain_bytes [of p] assms(1) True by simp
  have "take_line 0 False (joined (map hex2 p)) ([], False, -1) = ([?l], False, -1)"
    using take_line_tokens [OF ts len pl l(1)] l by simp
  then show ?thesis using True collect_line [OF text_of_tokens [OF ts], of "([], False, -1)" 64 "[]" 0 False]
    by (simp add: ap_resp_collect_lines_def rows_text_def del: hex_fixed.simps)
next
  case False
  let ?rows = "(0, take 6 p) # row_cfs pad (drop 6 p) 1"
  let ?ts = "[hex_fixed 3 (length p)]"
  let ?n = "int (length p)"
  have "length p < 16 ^ 3" using assms(2) by simp
  then have v: "hex_num (hex_fixed 3 (length p)) = length p" by simp
  have ts: "list_all plain_token ?ts" "?ts \<noteq> []" by (simp_all del: hex_fixed.simps)
  define l where "l = al_zero\<lparr>al_header := of_nat (length p), al_has_header := True, al_bare_value := ?n, al_is_bare := True\<rparr>"
  have pl: "parse_line (joined ?ts) = Some l"
    using v assms(2) tokens_joined [OF ts(1)] hex_fixed_no_colon [of 3 "length p"]
    by (simp add: parse_line_def l_def al_zero_def Let_def strtol_hex_def del: hex_fixed.simps hex_num_fixed)
  have l: "take_ea (take_id29 0 False l) = l" by (simp add: l_def take_id29_def take_ea_def al_zero_def)
  have "take_line 0 False (joined ?ts) ([], False, -1) = ([], False, ?n)"
    using take_line_tokens [OF ts _ pl l] by (simp add: l_def al_zero_def del: hex_fixed.simps)
  then have first: "collect_loop 0 False 64 (rows_text pad p) ([], False, -1) =
      collect_loop 0 False 64 (concat (map (\<lambda>r. row_text r @ [CHR 0x0D]) ?rows)) ([], False, ?n)"
    using False collect_line [OF text_of_tokens [OF ts], of "([], False, -1)" 64 "concat (map (\<lambda>r. row_text r @ [CHR 0x0D]) ?rows)" 0 False]
      rows_start [of ?rows] by (simp add: rows_text_def del: hex_fixed.simps concat.simps list.map)
  have "list_all good_row ?rows" using False row_cfs_good [of pad "drop 6 p" 1] by (auto simp: good_row_def)
  moreover have "length ?rows \<le> 64" using length_row_cfs [of pad "drop 6 p" 1] assms(2) by simp
  ultimately show ?thesis using first collect_rows [of ?rows "[]" 64 0 False False ?n] False
    by (simp only: ap_resp_collect_lines_def append_Nil if_False list.size add_0)
qed

lemma iso_cfs_eqs:
  "iso_cfs pad [] sn = []"
  "rest \<noteq> [] \<Longrightarrow> iso_cfs pad rest sn = ((0x20 OR (of_nat sn AND 0x0F)) # padded pad (take 7 rest)) # iso_cfs pad (drop 7 rest) (Suc sn)"
  by (simp_all add: iso_cfs.simps)

lemma not_three: "0x20 OR (x AND 0x0F) \<noteq> (3 :: u8)" "0x10 OR (x AND 0x0F) \<noteq> (3 :: u8)"
proof -
  have "drop_bit 4 (3 :: u8) \<noteq> 2" "drop_bit 4 (3 :: u8) \<noteq> 1" by simp_all
  then show "0x20 OR (x AND 0x0F) \<noteq> (3 :: u8)" "0x10 OR (x AND 0x0F) \<noteq> (3 :: u8)" using pci_nibbles [of x] by metis+
qed

lemma cf_good:
  assumes "d \<noteq> []" "length d \<le> 7"
  shows "iso_frame ((0x20 OR (x AND 0x0F)) # d) \<and> \<not> pending_frame ((0x20 OR (x AND 0x0F)) # d)"
  using assms by (cases d) (auto simp: iso_frame_def pending_frame_def pci_fits_def pci_nibbles not_three Let_def)

lemma iso_cfs_good: "b \<in> set (iso_cfs pad rest sn) \<Longrightarrow> iso_frame b \<and> \<not> pending_frame b"
proof (induction pad rest sn rule: iso_cfs.induct)
  case (1 pad rest sn)
  have "rest \<noteq> [] \<Longrightarrow> padded pad (take 7 rest) \<noteq> []" "length (padded pad (take 7 rest)) \<le> 7" by (auto simp: padded_def)
  then show ?case using 1 cf_good [of "padded pad (take 7 rest)" "of_nat sn"] by (cases "rest = []") (auto simp: iso_cfs_eqs)
qed

lemma iso_frames_good:
  assumes "p \<noteq> []" "length p < 4096" "\<not> (length p = 3 \<and> p ! 0 = 0x7F \<and> p ! 2 = 0x78)" "b \<in> set (iso_frames pad p)"
  shows "iso_frame b \<and> \<not> pending_frame b"
proof (cases "length p \<le> 7")
  case True
  then have b: "b = of_nat (length p) # padded pad p" using assms(4) by (simp add: iso_frames_def)
  have n: "drop_bit 4 (of_nat (length p) :: u8) = 0" "unat (of_nat (length p) AND 0x0F :: u8) = length p" "unat (of_nat (length p) :: u8) = length p"
    using small_nibble [of "length p"] True by (simp_all add: unat_of_nat)
  have "iso_frame b" using True assms(1) n by (cases p) (auto simp: b iso_frame_def pci_fits_def padded_def Let_def)
  moreover have "\<not> pending_frame b"
  proof
    assume "pending_frame b"
    then have "of_nat (length p) = (3 :: u8)" and m: "padded pad p ! 0 = 0x7F" "padded pad p ! 2 = 0x78" by (auto simp: pending_frame_def b)
    then have "unat (of_nat (length p) :: u8) = unat (3 :: u8)" by simp
    then have "length p = 3" using n(3) by simp
    then show False using m assms(3) by (auto simp: padded_def nth_append)
  qed
  ultimately show ?thesis by simp
next
  case False
  let ?ff = "[0x10 OR (of_nat (length p div 256) AND 0x0F), of_nat (length p) AND 0xFF :: u8] @ take 6 p"
  have "iso_frame ?ff \<and> \<not> pending_frame ?ff"
    using False by (simp add: iso_frame_def pending_frame_def pci_fits_def pci_nibbles not_three Let_def)
  then show ?thesis using assms(4) False iso_cfs_good [of b pad "drop 6 p" 1] by (auto simp: iso_frames_def Let_def)
qed

lemma length_iso_cfs: "7 * length (iso_cfs pad rest sn) \<le> length rest + 6"
proof (induction pad rest sn rule: iso_cfs.induct)
  case (1 pad rest sn)
  show ?case
  proof (cases "length rest \<le> 7")
    case True
    then have "iso_cfs pad (drop 7 rest) (Suc sn) = []" by (simp add: iso_cfs_eqs)
    then show ?thesis using True by (cases "rest = []") (auto simp: iso_cfs_eqs Suc_le_eq)
  next
    case False
    then have "rest \<noteq> []" by auto
    then show ?thesis using 1 False by (simp add: iso_cfs_eqs)
  qed
qed

lemma length_iso_frames: "length p \<le> 128 \<Longrightarrow> length (iso_frames pad p) \<le> 64"
  using length_iso_cfs [of pad "drop 6 p" 1] by (auto simp: iso_frames_def Let_def)

lemma frames_verbatim:
  assumes "list_all2 is_frame ls fs" "\<forall>f \<in> set fs. fst f = h"
  shows "length out \<le> m \<Longrightarrow> fold (\<lambda>l out. if al_has_header l \<and> al_header l = h then frames_put m out (al_bytes l) else out) ls out =
    take m (out @ concat (map snd fs))"
  using assms
proof (induction ls fs arbitrary: out rule: list_all2_induct)
  case (Cons l ls f fs)
  then show ?case by (cases f) (simp add: is_frame_def frames_put_def take_cut del: take_append)
qed simp

text \<open>An answer read with headers off gives the frames that headers on would have shown, and the same
  bytes.\<close>

theorem headers_off_same:
  assumes "p \<noteq> []" "length p \<le> AP_PAYLOAD_MAX" "\<not> (length p = 3 \<and> p ! 0 = 0x7F \<and> p ! 2 = 0x78)" "p ! 0 \<noteq> 0x18 \<or> length p > 7"
    and "id11 h \<or> id29 h"
  defines "headers_on \<equiv> frames_text (map (Pair h) (iso_frames (chip_pad p) p))"
  shows "ap_resp_frames 0 False (Some (rows_text pad p)) m = ap_resp_frames rx_id proto29 (Some headers_on) m \<and>
    ap_resp_to_payload 0 False (Some (rows_text pad p)) AP_PAYLOAD_MAX = Inr p"
proof -
  let ?fs = "map (Pair h) (iso_frames (chip_pad p) p)"
  have good: "iso_frame b \<and> \<not> pending_frame b" if "b \<in> set (iso_frames (chip_pad p) p)" for b
    using iso_frames_good [OF assms(1) _ assms(3) that] assms(2) by simp
  then have "filter (\<lambda>f. \<not> pending_frame (snd f)) ?fs = ?fs" by (auto intro!: filter_True)
  moreover have "list_all good_frame ?fs" using good assms(5) by (auto simp: list_all_iff good_frame_def)
  ultimately obtain ls where ls: "list_all2 is_frame ls ?fs" "ap_resp_collect_lines rx_id proto29 headers_on = (ls, False, -1)"
    using collect_frames [of ?fs "[]" AP_MAX_LINES rx_id proto29 False "-1"] length_iso_frames [of p "chip_pad p"] assms(2)
    by (auto simp: ap_resp_collect_lines_def headers_on_def)
  note hdr = is_frame_headers [OF ls(1)]
  have ne: "ls \<noteq> []" using hdr iso_frames_nonempty by simp
  then have low: "lowest_header ls = h" using lowest_header_Min [of ls] hdr iso_frames_nonempty [of "chip_pad p" p]
    by (simp add: image_image image_constant_conv)
  have on: "fold (\<lambda>l out. if al_has_header l \<and> al_header l = h then frames_put m out (al_bytes l) else out) ls [] =
      take m (concat (iso_frames (chip_pad p) p))"
    using frames_verbatim [OF ls(1), of h "[]" m] by (simp add: comp_def)
  have "al_has_header (ls ! 0)" using hdr ne by (simp add: list_all_length)
  then have on': "ap_resp_frames rx_id proto29 (Some headers_on) m =
      (let out = take m (concat (iso_frames (chip_pad p) p)) in if out = [] then Inl RE_NOT_FOUND else Inr out)"
    using ls(2) ne low on by (simp add: ap_resp_frames_def)
  obtain lines t where off: "ap_resp_collect_lines 0 False (rows_text pad p) = (lines, False, t)" "lines \<noteq> []"
      "\<not> al_has_header (lines ! 0)" "assemble_headerless lines t AP_PAYLOAD_MAX = p"
  proof (cases "length p \<le> 7")
    case True
    then show ?thesis using that collect_rows_text [OF assms(1,2,3,4), of pad]
      by (simp add: assemble_headerless_def al_zero_def)
  next
    case False
    let ?rows = "(0, take 6 p) # row_cfs pad (drop 6 p) 1"
    obtain z where "rows_loop (map row_line (row_cfs pad (drop 6 p) 1)) 128 (take 128 (take 6 p)) 1 = take 128 (take 128 (take 6 p) @ drop 6 p @ z)"
      using rows_loop_cfs [of "take 128 (take 6 p)" 128 pad "drop 6 p" 1] min.cobounded2 unfolding length_take by blast
    moreover have "take 128 (take 128 (take 6 p) @ drop 6 p @ z) = take 128 (p @ z)"
      unfolding take_cut by (simp only: append_assoc [symmetric] append_take_drop_id)
    ultimately have "rows_loop (map row_line ?rows) 128 [] 0 = take 128 (p @ z)"
      using rows_loop_step [of 0 "take 6 p" "map row_line (row_cfs pad (drop 6 p) 1)" 128 "[]"]
      by (simp only: list.map append_Nil mod_0 One_nat_def)
    then have "assemble_headerless (map row_line ?rows) (int (length p)) 128 = p"
      using assms(2) by (simp add: assemble_headerless_def)
    moreover have "\<not> al_has_header (map row_line ?rows ! 0)" by (simp add: row_line_def al_zero_def)
    ultimately show ?thesis using that [of "map row_line ?rows" "int (length p)"] collect_rows_text [OF assms(1,2,3,4), of pad] False by simp
  qed
  have "ap_resp_frames 0 False (Some (rows_text pad p)) m =
      (let out = take m (concat (iso_frames (chip_pad p) p)) in if out = [] then Inl RE_NOT_FOUND else Inr out)"
    using off frames_from_payload_iso [OF assms(1), of m] by (simp add: ap_resp_frames_def)
  then show ?thesis using on' off assms(1) by (simp add: ap_resp_to_payload_def)
qed

theorem headers_off_same_witness:
  defines "p \<equiv> [0x62, 0xF1, 0x90, 0x57, 0x41, 0x55, 0x5A, 0x5A, 0x31 :: u8]"
  shows "ap_resp_frames 0 False (Some (rows_text [0xAA] p)) 64 =
      ap_resp_frames 0 False (Some (frames_text (map (Pair 0x7E8) (iso_frames (chip_pad p) p)))) 64 \<and>
    ap_resp_to_payload 0 False (Some (rows_text [0xAA] p)) AP_PAYLOAD_MAX = Inr p"
  using headers_off_same [of p "0x7E8" "[0xAA]" 64 0 False]
  by (simp add: p_def id11_def)

end
