(* ===== verification/OTA_Session.thy ===== *)
theory OTA_Session
  imports Hex
begin

text \<open>
  \<^verbatim>\<open>components/ota_manager/ota_session.c\<close>, the state machine of a firmware update, and
  \<^verbatim>\<open>ota_manager.c\<close>, the flash and digest calls it is given, and its entry points under the
  mutex. The session runs against any backend; what it asks of one is the locale
  \<open>ota_backend\<close>. The flash and digest libraries are a parameter that answers each call from the
  calls made before it. \<open>size_t\<close> is 32 bits wide; NULL data of a write, which is refused like an
  empty write, is the empty list.
\<close>

datatype ota_manager_state = OTA_IDLE | OTA_RECEIVING | OTA_READY | OTA_FAILED

text \<open>The error codes of the session; a library call can answer with any, or with another one.\<close>

datatype ota_err = OTA_OK | OTA_INVALID_ARG | OTA_INVALID_STATE | OTA_INVALID_SIZE | OTA_INVALID_RESPONSE
  | OTA_INVALID_CRC | OTA_NOT_FOUND | OTA_NO_MEM | OTA_TIMEOUT | OTA_OTHER int

text \<open>The operations given to the session, with the state \<open>'k\<close> behind them; the ones that may
  be NULL are options.\<close>

record 'k ota_session_ops =
  op_begin :: "u32 \<Rightarrow> 'k \<Rightarrow> 'k \<times> ota_err"
  op_write :: "bytes \<Rightarrow> 'k \<Rightarrow> 'k \<times> ota_err"
  op_end :: "'k \<Rightarrow> 'k \<times> ota_err"
  op_abort :: "('k \<Rightarrow> 'k) option"
  op_hash_reset :: "('k \<Rightarrow> 'k) option"
  op_hash_update :: "(bytes \<Rightarrow> 'k \<Rightarrow> 'k) option"
  op_hash_final :: "('k \<Rightarrow> 'k \<times> bytes) option"

text \<open>The session without its pointers to the operations and their state. The bytes held back are
  a list, whose length is \<open>head_len\<close>; \<open>o_expected\<close> is \<open>None\<close> when \<open>expect_digest\<close> is
  not set.\<close>

record ota_session =
  o_state :: ota_manager_state
  o_received :: u32
  o_total :: u32
  o_error :: string
  o_check_head :: bool
  o_product :: "string option"
  o_prefixes :: "string list"
  o_chip_id :: u16
  o_head :: bytes
  o_head_checked :: bool
  o_project_name :: string
  o_version :: string
  o_expected :: "bytes option"

section \<open>The head of an image\<close>

text \<open>A descriptor field of 32 bytes, up to its NUL.\<close>

definition ota_field :: "bytes \<Rightarrow> string" where
  "ota_field p = map (\<lambda>c. if 0x20 \<le> c \<and> c < 0x7F then char_of (unat c) else CHR ''?'')
     (takeWhile (\<lambda>c. c \<noteq> 0) (take 32 p))"

text \<open>The check gives the error text, \<open>None\<close> when the image is accepted, and the name and the
  version when the descriptor was found. A list of prefixes that is NULL is the empty one.\<close>

definition ota_image_head_check :: "bytes \<Rightarrow> u16 \<Rightarrow> string option \<Rightarrow> string list \<Rightarrow> string option \<times> (string \<times> string) option" where
  "ota_image_head_check head chip_id product prefixes =
     (if length head < 288 then (Some ''short image (no application descriptor)'', None)
      else if head ! 0 \<noteq> 0xE9 then (Some ''not an application image'', None)
      else
        let chip = le16 (head ! 12) (head ! 13) in
        if chip_id \<noteq> 0 \<and> chip \<noteq> chip_id then
          (Some (''an image for another chip (id 0x'' @ hex_lower 4 (unat chip) @ '')''), None)
        else if le32 (head ! 32) (head ! 33) (head ! 34) (head ! 35) \<noteq> 0xABCD5432 then
          (Some ''no application descriptor'', None)
        else
          let name = ota_field (drop 80 head); version = ota_field (drop 48 head) in
          if prefixes \<noteq> [] \<and> \<not> list_ex (\<lambda>p. take (length p) name = p) prefixes then
            (Some (''not a '' @ (case product of Some t \<Rightarrow> t | None \<Rightarrow> ''firmware'') @ '' image: '' @ name), Some (name, version))
          else (None, Some (name, version)))"

section \<open>The session\<close>

definition ota_session_init :: ota_session where
  "ota_session_init = \<lparr>o_state = OTA_IDLE, o_received = 0, o_total = 0, o_error = [], o_check_head = False,
     o_product = None, o_prefixes = [], o_chip_id = 0, o_head = [], o_head_checked = False, o_project_name = [],
     o_version = [], o_expected = None\<rparr>"

definition ota_session_set_product :: "string option \<Rightarrow> string list \<Rightarrow> u16 \<Rightarrow> ota_session \<Rightarrow> ota_session" where
  "ota_session_set_product product prefixes chip_id s =
     s\<lparr>o_check_head := True, o_product := product, o_prefixes := prefixes, o_chip_id := chip_id\<rparr>"

text \<open>\<open>error\<close> holds 63 characters.\<close>

definition ota_fail :: "'k ota_session_ops \<Rightarrow> string \<Rightarrow> bool \<Rightarrow> ota_session \<times> 'k \<Rightarrow> ota_session \<times> 'k" where
  "ota_fail ops why abort_backend sk =
     (case sk of (s, k) \<Rightarrow>
        (s\<lparr>o_error := take 63 why, o_state := OTA_FAILED\<rparr>,
         if abort_backend then (case op_abort ops of Some ab \<Rightarrow> ab k | None \<Rightarrow> k) else k))"

definition ota_session_begin_ex ::
  "'k ota_session_ops \<Rightarrow> u32 \<Rightarrow> bytes option \<Rightarrow> ota_session \<times> 'k \<Rightarrow> (ota_session \<times> 'k) \<times> ota_err" where
  "ota_session_begin_ex ops total_size expected sk =
     (case sk of (s, k) \<Rightarrow>
        if o_state s = OTA_RECEIVING then ((s, k), OTA_INVALID_STATE)
        else
          let s1 = s\<lparr>o_received := 0, o_total := total_size, o_error := [], o_head := [], o_head_checked := False,
                     o_project_name := [], o_version := [], o_expected := expected\<rparr>;
              k1 = (case op_hash_reset ops of Some reset \<Rightarrow> reset k | None \<Rightarrow> k)
          in case op_begin ops total_size k1 of
            (k2, err) \<Rightarrow>
              if err \<noteq> OTA_OK then (ota_fail ops ''flash begin failed'' False (s1, k2), err)
              else ((s1\<lparr>o_state := OTA_RECEIVING\<rparr>, k2), OTA_OK))"

definition ota_session_begin :: "'k ota_session_ops \<Rightarrow> u32 \<Rightarrow> ota_session \<times> 'k \<Rightarrow> (ota_session \<times> 'k) \<times> ota_err" where
  "ota_session_begin ops total_size sk = ota_session_begin_ex ops total_size None sk"

definition ota_push :: "'k ota_session_ops \<Rightarrow> bytes \<Rightarrow> ota_session \<times> 'k \<Rightarrow> (ota_session \<times> 'k) \<times> ota_err" where
  "ota_push ops data sk =
     (case sk of (s, k) \<Rightarrow>
        if data = [] then ((s, k), OTA_OK)
        else
          let k1 = (case op_hash_update ops of Some update \<Rightarrow> update data k | None \<Rightarrow> k)
          in case op_write ops data k1 of
            (k2, err) \<Rightarrow>
              if err \<noteq> OTA_OK then (ota_fail ops ''flash write failed'' True (s, k2), err) else ((s, k2), err))"

definition ota_session_write :: "'k ota_session_ops \<Rightarrow> bytes \<Rightarrow> ota_session \<times> 'k \<Rightarrow> (ota_session \<times> 'k) \<times> ota_err" where
  "ota_session_write ops data sk =
     (case sk of (s, k) \<Rightarrow>
        if o_state s \<noteq> OTA_RECEIVING then ((s, k), OTA_INVALID_STATE)
        else if data = [] then (ota_fail ops ''empty write'' True (s, k), OTA_INVALID_ARG)
        else if o_total s \<noteq> 0 \<and> o_received s + of_nat (length data) > o_total s then
          (ota_fail ops ''image larger than announced size'' True (s, k), OTA_INVALID_SIZE)
        else
          let s1 = s\<lparr>o_received := o_received s + of_nat (length data)\<rparr> in
          if o_check_head s1 \<and> \<not> o_head_checked s1 then
            let take_n = min (288 - length (o_head s1)) (length data);
                s2 = s1\<lparr>o_head := o_head s1 @ take take_n data\<rparr>;
                p = drop take_n data
            in if length (o_head s2) < 288 then ((s2, k), OTA_OK)
               else
                 (case ota_image_head_check (o_head s2) (o_chip_id s2) (o_product s2) (o_prefixes s2) of
                    (err_text, desc) \<Rightarrow>
                      let s3 = (case desc of Some (name, version) \<Rightarrow> s2\<lparr>o_project_name := name, o_version := version\<rparr> | None \<Rightarrow> s2)
                      in (case err_text of
                        Some why \<Rightarrow> (ota_fail ops why True (s3, k), OTA_INVALID_RESPONSE)
                      | None \<Rightarrow>
                          (case ota_push ops (o_head s3) (s3\<lparr>o_head_checked := True\<rparr>, k) of
                             (sk4, err) \<Rightarrow> if err \<noteq> OTA_OK then (sk4, err) else ota_push ops p sk4)))
          else ota_push ops data (s1, k))"

text \<open>The comparison with the expected digest, where there is one.\<close>

definition ota_digest_differs :: "'k ota_session_ops \<Rightarrow> ota_session \<Rightarrow> 'k \<Rightarrow> 'k \<times> bool" where
  "ota_digest_differs ops s k =
     (case (o_expected s, op_hash_final ops) of
        (Some expected, Some final) \<Rightarrow> (case final k of (k1, got) \<Rightarrow> (k1, got \<noteq> expected))
      | _ \<Rightarrow> (k, False))"

definition ota_session_end :: "'k ota_session_ops \<Rightarrow> ota_session \<times> 'k \<Rightarrow> (ota_session \<times> 'k) \<times> ota_err" where
  "ota_session_end ops sk =
     (case sk of (s, k) \<Rightarrow>
        if o_state s \<noteq> OTA_RECEIVING then ((s, k), OTA_INVALID_STATE)
        else if o_received s = 0 then (ota_fail ops ''empty image'' True (s, k), OTA_INVALID_SIZE)
        else if o_total s \<noteq> 0 \<and> o_received s < o_total s then
          (ota_fail ops ''short image (connection dropped?)'' True (s, k), OTA_INVALID_SIZE)
        else if o_check_head s \<and> \<not> o_head_checked s then
          (ota_fail ops ''short image (no application descriptor)'' True (s, k), OTA_INVALID_SIZE)
        else
          (case ota_digest_differs ops s k of
             (k1, differs) \<Rightarrow>
               if differs then (ota_fail ops ''sha256 mismatch'' True (s, k1), OTA_INVALID_CRC)
               else
                 (case op_end ops k1 of
                    (k2, err) \<Rightarrow>
                      if err \<noteq> OTA_OK then (ota_fail ops ''image validation failed'' False (s, k2), err)
                      else ((s\<lparr>o_state := OTA_READY\<rparr>, k2), OTA_OK))))"

definition ota_session_abort :: "'k ota_session_ops \<Rightarrow> ota_session \<times> 'k \<Rightarrow> (ota_session \<times> 'k) \<times> ota_err" where
  "ota_session_abort ops sk =
     (case sk of (s, k) \<Rightarrow>
        ((s\<lparr>o_state := OTA_IDLE, o_received := 0, o_total := 0, o_error := [], o_head := [], o_head_checked := False,
            o_expected := None\<rparr>,
          if o_state s = OTA_RECEIVING then (case op_abort ops of Some ab \<Rightarrow> ab k | None \<Rightarrow> k) else k), OTA_OK))"

section \<open>The backend: flash and digest\<close>

text \<open>The calls to the libraries.\<close>

datatype ota_call = C_Target | C_State | C_MarkValid | C_Begin | C_Write bytes | C_End | C_Boot | C_Abort
  | C_HashSetup | C_HashAbort | C_HashUpdate bytes | C_HashFinish

datatype ota_img_state = IMG_NEW | IMG_PENDING_VERIFY | IMG_VALID | IMG_INVALID | IMG_ABORTED | IMG_UNDEFINED

text \<open>The libraries: the answer to a call after the calls before it, the state of the running
  image, and the digest of some bytes.\<close>

record ota_lib =
  lib_answer :: "ota_call list \<Rightarrow> ota_call \<Rightarrow> ota_err"
  lib_img_state :: "ota_call list \<Rightarrow> ota_img_state"
  lib_sha :: "bytes \<Rightarrow> bytes"

text \<open>The calls made so far; \<open>io_sum\<close> is \<open>s_hash_open\<close> with the bytes the open digest has
  been given.\<close>

record ota_io =
  io_calls :: "ota_call list"
  io_sum :: "bytes option"

definition ota_ask :: "ota_lib \<Rightarrow> ota_call \<Rightarrow> ota_io \<Rightarrow> ota_io \<times> ota_err" where
  "ota_ask lib c io = (io\<lparr>io_calls := io_calls io @ [c]\<rparr>, lib_answer lib (io_calls io) c)"

definition confirm_job :: "ota_lib \<Rightarrow> ota_io \<Rightarrow> ota_io \<times> ota_err" where
  "confirm_job lib io =
     (case ota_ask lib C_State io of
        (io1, err) \<Rightarrow>
          if err \<noteq> OTA_OK then (io1, OTA_NOT_FOUND)
          else if lib_img_state lib (io_calls io) = IMG_VALID \<or> lib_img_state lib (io_calls io) = IMG_UNDEFINED then (io1, OTA_OK)
          else ota_ask lib C_MarkValid io1)"

definition begin_job :: "ota_lib \<Rightarrow> u32 \<Rightarrow> ota_io \<Rightarrow> ota_io \<times> ota_err" where
  "begin_job lib total_size io =
     (case ota_ask lib C_Target io of
        (io1, err) \<Rightarrow>
          if err \<noteq> OTA_OK then (io1, OTA_NOT_FOUND)
          else ota_ask lib C_Begin (fst (confirm_job lib io1)))"

definition write_job :: "ota_lib \<Rightarrow> bytes \<Rightarrow> ota_io \<Rightarrow> ota_io \<times> ota_err" where
  "write_job lib data io = ota_ask lib (C_Write data) io"

definition end_job :: "ota_lib \<Rightarrow> ota_io \<Rightarrow> ota_io \<times> ota_err" where
  "end_job lib io =
     (case ota_ask lib C_End io of
        (io1, err) \<Rightarrow> if err = OTA_OK then ota_ask lib C_Boot io1 else (io1, err))"

definition abort_job :: "ota_lib \<Rightarrow> ota_io \<Rightarrow> ota_io" where
  "abort_job lib io = fst (ota_ask lib C_Abort io)"

definition io_hash_reset :: "ota_lib \<Rightarrow> ota_io \<Rightarrow> ota_io" where
  "io_hash_reset lib io =
     (let io1 = (if io_sum io \<noteq> None then fst (ota_ask lib C_HashAbort io) else io)
      in case ota_ask lib C_HashSetup io1 of
        (io2, err) \<Rightarrow> io2\<lparr>io_sum := (if err = OTA_OK then Some [] else None)\<rparr>)"

definition io_hash_update :: "ota_lib \<Rightarrow> bytes \<Rightarrow> ota_io \<Rightarrow> ota_io" where
  "io_hash_update lib data io =
     (case io_sum io of
        None \<Rightarrow> io
      | Some bs \<Rightarrow>
          (case ota_ask lib (C_HashUpdate data) io of
             (io1, err) \<Rightarrow>
               if err \<noteq> OTA_OK then (fst (ota_ask lib C_HashAbort io1))\<lparr>io_sum := None\<rparr>
               else io1\<lparr>io_sum := Some (bs @ data)\<rparr>))"

definition io_hash_final :: "ota_lib \<Rightarrow> ota_io \<Rightarrow> ota_io \<times> bytes" where
  "io_hash_final lib io =
     (case io_sum io of
        None \<Rightarrow> (io, replicate 32 0)
      | Some bs \<Rightarrow>
          (case ota_ask lib C_HashFinish io of
             (io1, err) \<Rightarrow> (io1\<lparr>io_sum := None\<rparr>, if err = OTA_OK then lib_sha lib bs else replicate 32 0)))"

definition IO_OPS :: "ota_lib \<Rightarrow> ota_io ota_session_ops" where
  "IO_OPS lib = \<lparr>op_begin = begin_job lib, op_write = write_job lib, op_end = end_job lib, op_abort = Some (abort_job lib),
     op_hash_reset = Some (io_hash_reset lib), op_hash_update = Some (io_hash_update lib),
     op_hash_final = Some (io_hash_final lib)\<rparr>"

section \<open>The manager\<close>

text \<open>The session and the armed digest under the mutex; \<open>m_notified\<close> is what the callback was told.\<close>

record ota_manager =
  m_session :: ota_session
  m_io :: ota_io
  m_expect :: "bytes option"
  m_notified :: "ota_manager_state list"

definition ota_manager_init :: ota_manager where
  "ota_manager_init = \<lparr>m_session = ota_session_init, m_io = \<lparr>io_calls = [], io_sum = None\<rparr>, m_expect = None, m_notified = []\<rparr>"

definition ota_manager_set_product :: "string \<Rightarrow> string list \<Rightarrow> ota_manager \<Rightarrow> ota_manager \<times> ota_err" where
  "ota_manager_set_product product prefixes m =
     (if prefixes = [] then (m, OTA_INVALID_ARG)
      else (m\<lparr>m_session := ota_session_set_product (Some product) prefixes 0x0009 (m_session m)\<rparr>, OTA_OK))"

definition ota_manager_expect_sha256 :: "bytes option \<Rightarrow> ota_manager \<Rightarrow> ota_manager" where
  "ota_manager_expect_sha256 sha m = m\<lparr>m_expect := sha\<rparr>"

text \<open>An operation on the session under the mutex, and the callback when it changed the state.\<close>

definition ota_locked ::
  "(ota_session \<times> ota_io \<Rightarrow> (ota_session \<times> ota_io) \<times> ota_err) \<Rightarrow> ota_manager \<Rightarrow> ota_manager \<times> ota_err" where
  "ota_locked f m =
     (case f (m_session m, m_io m) of
        ((s, io), err) \<Rightarrow>
          (m\<lparr>m_session := s, m_io := io,
             m_notified := m_notified m @ (if o_state (m_session m) \<noteq> o_state s then [o_state s] else [])\<rparr>, err))"

definition ota_manager_begin :: "ota_lib \<Rightarrow> u32 \<Rightarrow> ota_manager \<Rightarrow> ota_manager \<times> ota_err" where
  "ota_manager_begin lib total_size m =
     (case ota_locked (ota_session_begin_ex (IO_OPS lib) total_size (m_expect m)) m of
        (m1, err) \<Rightarrow> (if err \<noteq> OTA_INVALID_STATE then m1\<lparr>m_expect := None\<rparr> else m1, err))"

definition ota_manager_write :: "ota_lib \<Rightarrow> bytes \<Rightarrow> ota_manager \<Rightarrow> ota_manager \<times> ota_err" where
  "ota_manager_write lib data m = ota_locked (ota_session_write (IO_OPS lib) data) m"

definition ota_manager_end :: "ota_lib \<Rightarrow> ota_manager \<Rightarrow> ota_manager \<times> ota_err" where
  "ota_manager_end lib m = ota_locked (ota_session_end (IO_OPS lib)) m"

definition ota_manager_abort :: "ota_lib \<Rightarrow> ota_manager \<Rightarrow> ota_manager \<times> ota_err" where
  "ota_manager_abort lib m = ota_locked (ota_session_abort (IO_OPS lib)) m"

section \<open>What the session does with a backend\<close>

text \<open>What the session relies on: \<open>flashed\<close> is what went through the open flash handle, \<open>None\<close> when
  none is open, \<open>digested\<close> what the open digest was given, \<open>broken\<close> whether a call for the digest
  last set up has failed, \<open>images\<close> what was handed to the validation.\<close>

locale ota_backend =
  fixes ops :: "'k ota_session_ops"
    and ab :: "'k \<Rightarrow> 'k" and reset :: "'k \<Rightarrow> 'k" and update :: "bytes \<Rightarrow> 'k \<Rightarrow> 'k" and final :: "'k \<Rightarrow> 'k \<times> bytes"
    and flashed :: "'k \<Rightarrow> bytes option" and digested :: "'k \<Rightarrow> bytes option" and broken :: "'k \<Rightarrow> bool"
    and images :: "'k \<Rightarrow> bytes list"
    and sha :: "bytes \<Rightarrow> bytes"
  assumes given_ops: "op_abort ops = Some ab" "op_hash_reset ops = Some reset" "op_hash_update ops = Some update"
      "op_hash_final ops = Some final"
    and begin_law: "op_begin ops n k = (k', e) \<Longrightarrow>
      flashed k' = (if e = OTA_OK then Some [] else flashed k) \<and> digested k' = digested k \<and> images k' = images k \<and> broken k' = broken k"
    and write_law: "op_write ops d k = (k', e) \<Longrightarrow>
      flashed k' = map_option (\<lambda>w. w @ d) (flashed k) \<and> digested k' = digested k \<and> images k' = images k \<and> broken k' = broken k"
    and end_law: "op_end ops k = (k', e) \<Longrightarrow> flashed k = Some w \<Longrightarrow>
      flashed k' = None \<and> (images k' = images k \<and> e \<noteq> OTA_OK \<or> images k' = images k @ [w]) \<and> broken k' = broken k"
    and abort_law: "flashed (ab k) = None \<and> images (ab k) = images k"
    and reset_law: "flashed (reset k) = flashed k \<and> images (reset k) = images k \<and>
      (digested (reset k) = None \<and> broken (reset k) \<or> digested (reset k) = Some [])"
    and update_law: "flashed (update d k) = flashed k \<and> images (update d k) = images k \<and>
      (digested k = None \<and> digested (update d k) = None \<and> broken (update d k) = broken k \<or>
       (\<exists>w. digested k = Some w \<and>
          (digested (update d k) = None \<and> broken (update d k) \<or> digested (update d k) = Some (w @ d))))"
    and final_law: "final k = (k', x) \<Longrightarrow> flashed k' = flashed k \<and> images k' = images k \<and>
      (digested k = None \<and> x = replicate 32 0 \<and> broken k' = broken k \<or>
       (\<exists>w. digested k = Some w \<and> (x = replicate 32 0 \<and> broken k' \<or> x = sha w)))"

text \<open>What the client knows of the session from the answers it got: the announced size, the expected
  digest and the bytes it has given.\<close>

type_synonym ota_seen = "(u32 \<times> bytes option \<times> bytes) option"

definition image_accepted :: "ota_session \<Rightarrow> bytes \<Rightarrow> bool" where
  "image_accepted s w \<longleftrightarrow> fst (ota_image_head_check (take 288 w) (o_chip_id s) (o_product s) (o_prefixes s)) = None"

definition sess_ok ::
  "('k \<Rightarrow> bytes option) \<Rightarrow> ('k \<Rightarrow> bytes option) \<Rightarrow> ('k \<Rightarrow> bool) \<Rightarrow> ota_session \<Rightarrow> 'k \<Rightarrow> ota_seen \<Rightarrow> bool" where
  "sess_ok flashed digested broken s k seen \<longleftrightarrow>
     (case seen of
        None \<Rightarrow> o_state s \<noteq> OTA_RECEIVING \<and> flashed k = None
      | Some (n, x, g) \<Rightarrow>
          o_state s = OTA_RECEIVING \<and> o_total s = n \<and> o_expected s = x \<and> o_received s = of_nat (length g) \<and>
          (n \<noteq> 0 \<longrightarrow> length g \<le> unat n) \<and> unat n \<le> 2147483648 \<and>
          (let w = (if o_check_head s \<and> \<not> o_head_checked s then [] else g) in
             flashed k = Some w \<and> (digested k = None \<and> broken k \<or> digested k = Some w)) \<and>
          (o_check_head s \<longrightarrow>
             (if o_head_checked s then 288 \<le> length g \<and> image_accepted s g else length g < 288 \<and> o_head s = g)))"

text \<open>The settings of the session stay.\<close>

definition same_product :: "ota_session \<Rightarrow> ota_session \<Rightarrow> bool" where
  "same_product s s' \<longleftrightarrow> o_check_head s' = o_check_head s \<and> o_product s' = o_product s \<and>
     o_prefixes s' = o_prefixes s \<and> o_chip_id s' = o_chip_id s"

lemma same_product_refl [simp]: "same_product s s"
  by (simp add: same_product_def)

lemma accepted_same: "same_product s s' \<Longrightarrow> image_accepted s' = image_accepted s"
  by (auto simp: same_product_def image_accepted_def fun_eq_iff)

text \<open>What an answer tells the client.\<close>

definition seen_begin :: "u32 \<Rightarrow> bytes option \<Rightarrow> ota_err \<Rightarrow> ota_seen \<Rightarrow> ota_seen" where
  "seen_begin n x e seen = (if seen \<noteq> None then seen else if e = OTA_OK then Some (n, x, []) else None)"

definition seen_write :: "bytes \<Rightarrow> ota_err \<Rightarrow> ota_seen \<Rightarrow> ota_seen" where
  "seen_write d e seen = (if e = OTA_OK then map_option (\<lambda>(n, x, g). (n, x, g @ d)) seen else None)"

context ota_backend
begin

lemma fail_ok: "ota_fail ops why True (s, k) = (s', k') \<Longrightarrow>
    sess_ok flashed digested broken s' k' None \<and> same_product s s' \<and> images k' = images k"
  using abort_law by (auto simp: ota_fail_def given_ops sess_ok_def same_product_def)

lemma begin_ok:
  assumes "sess_ok flashed digested broken s k seen" "ota_session_begin_ex ops n x (s, k) = ((s', k'), e)" "unat n \<le> 2147483648"
  shows "sess_ok flashed digested broken s' k' (seen_begin n x e seen)" "same_product s s'" "images k' = images k"
proof -
  have "sess_ok flashed digested broken s' k' (seen_begin n x e seen) \<and> same_product s s' \<and> images k' = images k"
  proof (cases "o_state s = OTA_RECEIVING")
    case True
    then show ?thesis using assms
      by (auto simp: ota_session_begin_ex_def seen_begin_def sess_ok_def split: option.splits)
  next
    case False
    obtain k2 e2 where k2: "op_begin ops n (reset k) = (k2, e2)" by (cases "op_begin ops n (reset k)")
    from False assms(1) have "seen = None" "flashed k = None" by (auto simp: sess_ok_def split: option.splits)
    then show ?thesis using False assms(2,3) k2 begin_law [OF k2] reset_law [of k]
      by (auto simp: ota_session_begin_ex_def given_ops seen_begin_def sess_ok_def ota_fail_def same_product_def Let_def split: if_splits)
  qed
  then show "sess_ok flashed digested broken s' k' (seen_begin n x e seen)" "same_product s s'" "images k' = images k" by auto
qed

lemma push_ok:
  assumes "ota_push ops d (s, k) = ((s', k'), e)" "flashed k = Some w" "digested k = None \<and> broken k \<or> digested k = Some w"
  shows "e = OTA_OK \<Longrightarrow> s' = s \<and> flashed k' = Some (w @ d) \<and> (digested k' = None \<and> broken k' \<or> digested k' = Some (w @ d))"
    and "e \<noteq> OTA_OK \<Longrightarrow> sess_ok flashed digested broken s' k' None \<and> same_product s s'"
    and "images k' = images k"
proof -
  obtain k2 e2 where k2: "op_write ops d (update d k) = (k2, e2)" by (cases "op_write ops d (update d k)")
  note laws = write_law [OF k2] update_law [of d k] abort_law
  show "e = OTA_OK \<Longrightarrow> s' = s \<and> flashed k' = Some (w @ d) \<and> (digested k' = None \<and> broken k' \<or> digested k' = Some (w @ d))"
    "e \<noteq> OTA_OK \<Longrightarrow> sess_ok flashed digested broken s' k' None \<and> same_product s s'" "images k' = images k"
    using assms k2 laws by (auto simp: ota_push_def given_ops ota_fail_def sess_ok_def same_product_def split: if_splits)
qed

end

text \<open>What an image must be that is made the next to boot. A digest of 32 zeros is what the code
  compares with when the digest library has failed (\<open>bk\<close>).\<close>

definition good_image :: "(bytes \<Rightarrow> bytes) \<Rightarrow> bool \<Rightarrow> ota_session \<Rightarrow> u32 \<times> bytes option \<times> bytes \<Rightarrow> bool" where
  "good_image sha bk s ann =
     (case ann of (n, x, g) \<Rightarrow>
        g \<noteq> [] \<and> (n \<noteq> 0 \<longrightarrow> length g = unat n) \<and>
        (o_check_head s \<longrightarrow> 288 \<le> length g \<and> image_accepted s g) \<and>
        (case x of None \<Rightarrow> True | Some y \<Rightarrow> y = sha g \<or> y = replicate 32 0 \<and> bk))"

lemma head_only: "take 288 (a @ b) = take 288 a @ take (288 - length a) b"
  by simp

lemma total_exceeded:
  assumes "unat (n :: u32) \<le> 2147483648" "a \<le> unat n" "b < 2147483648"
  shows "of_nat a + of_nat b > n \<longleftrightarrow> a + b > unat n"
proof -
  have "a + b < 2 ^ 32" using assms by simp
  then have "unat (of_nat a + of_nat b :: u32) = a + b" by (simp flip: of_nat_add add: unat_of_nat_small)
  then show ?thesis by (simp add: word_less_nat_alt)
qed

text \<open>The branches of a write that passed the guards.\<close>

definition counted :: "bytes \<Rightarrow> ota_session \<Rightarrow> ota_session" where
  "counted d s = s\<lparr>o_received := o_received s + of_nat (length d)\<rparr>"

definition fits_total :: "bytes \<Rightarrow> ota_session \<Rightarrow> bool" where
  "fits_total d s \<longleftrightarrow> \<not> (o_total s \<noteq> 0 \<and> o_received s + of_nat (length d) > o_total s)"

definition described :: "(string \<times> string) option \<Rightarrow> ota_session \<Rightarrow> ota_session" where
  "described desc s = (case desc of Some (name, version) \<Rightarrow> s\<lparr>o_project_name := name, o_version := version\<rparr> | None \<Rightarrow> s)"

lemma counted_sel [simp]:
  "o_state (counted d s) = o_state s" "o_total (counted d s) = o_total s" "o_expected (counted d s) = o_expected s"
  "o_received (counted d s) = o_received s + of_nat (length d)" "o_check_head (counted d s) = o_check_head s"
  "o_head_checked (counted d s) = o_head_checked s" "o_head (counted d s) = o_head s" "same_product s (counted d s)"
  "o_product (counted d s) = o_product s" "o_prefixes (counted d s) = o_prefixes s" "o_chip_id (counted d s) = o_chip_id s"
  by (simp_all add: counted_def same_product_def)

lemma described_sel [simp]:
  "o_state (described desc s) = o_state s" "o_total (described desc s) = o_total s" "o_expected (described desc s) = o_expected s"
  "o_received (described desc s) = o_received s" "o_check_head (described desc s) = o_check_head s"
  "o_head (described desc s) = o_head s" "o_product (described desc s) = o_product s" "o_prefixes (described desc s) = o_prefixes s"
  "o_chip_id (described desc s) = o_chip_id s"
  by (simp_all add: described_def split: option.splits prod.splits)

lemma write_plain:
  "o_state s = OTA_RECEIVING \<Longrightarrow> d \<noteq> [] \<Longrightarrow> fits_total d s \<Longrightarrow> \<not> (o_check_head s \<and> \<not> o_head_checked s) \<Longrightarrow>
     ota_session_write ops d (s, k) = ota_push ops d (counted d s, k)"
  by (auto simp: ota_session_write_def fits_total_def counted_def Let_def)

lemma write_held:
  "o_state s = OTA_RECEIVING \<Longrightarrow> d \<noteq> [] \<Longrightarrow> fits_total d s \<Longrightarrow> o_check_head s \<Longrightarrow> \<not> o_head_checked s \<Longrightarrow>
     length (o_head s) + length d < 288 \<Longrightarrow>
     ota_session_write ops d (s, k) = (((counted d s)\<lparr>o_head := o_head s @ d\<rparr>, k), OTA_OK)"
  by (auto simp: ota_session_write_def fits_total_def counted_def Let_def)

lemma write_head:
  assumes "o_state s = OTA_RECEIVING" "d \<noteq> []" "fits_total d s" "o_check_head s" "\<not> o_head_checked s"
    "length (o_head s) < 288" "288 \<le> length (o_head s) + length d"
    and "ota_image_head_check h (o_chip_id s) (o_product s) (o_prefixes s) = (err_text, desc)"
    and "h = o_head s @ take (288 - length (o_head s)) d" "t = drop (288 - length (o_head s)) d"
  shows "ota_session_write ops d (s, k) =
    (let s3 = described desc ((counted d s)\<lparr>o_head := h\<rparr>) in
     case err_text of
       Some why \<Rightarrow> (ota_fail ops why True (s3, k), OTA_INVALID_RESPONSE)
     | None \<Rightarrow> (case ota_push ops h (s3\<lparr>o_head_checked := True\<rparr>, k) of
         (sk4, err) \<Rightarrow> if err \<noteq> OTA_OK then (sk4, err) else ota_push ops t sk4))"
  using assms(1-8) unfolding assms(9,10)
  by (cases desc; cases err_text)
    (auto simp: ota_session_write_def fits_total_def counted_def described_def Let_def min_absorb1 split: prod.splits)

context ota_backend
begin

lemma write_plain_ok:
  assumes "sess_ok flashed digested broken s k (Some (n, x, g))" "o_check_head s \<longrightarrow> o_head_checked s"
    and "ota_push ops d (counted d s, k) = ((s', k'), e)" "n \<noteq> 0 \<longrightarrow> length g + length d \<le> unat n"
  shows "sess_ok flashed digested broken s' k' (seen_write d e (Some (n, x, g))) \<and> same_product s s' \<and> images k' = images k"
proof -
  have fl: "flashed k = Some g" "digested k = None \<and> broken k \<or> digested k = Some g" using assms(1,2) by (auto simp: sess_ok_def Let_def)
  note push = push_ok [OF assms(3) fl]
  show ?thesis
  proof (cases "e = OTA_OK")
    case True
    with push(1) have "s' = counted d s" "flashed k' = Some (g @ d)" "digested k' = None \<and> broken k' \<or> digested k' = Some (g @ d)" by auto
    then show ?thesis using assms push(3) True by (auto simp: seen_write_def sess_ok_def image_accepted_def counted_def same_product_def)
  next
    case False
    then show ?thesis using push by (auto simp: seen_write_def same_product_def counted_def)
  qed
qed

lemma write_head_ok:
  assumes ok: "sess_ok flashed digested broken s k (Some (n, x, g))" and "o_check_head s" "\<not> o_head_checked s"
    and w: "ota_session_write ops d (s, k) = ((s', k'), e)" and "d \<noteq> []" "fits_total d s" "288 \<le> length g + length d"
    and room: "n \<noteq> 0 \<longrightarrow> length g + length d \<le> unat n"
  shows "sess_ok flashed digested broken s' k' (seen_write d e (Some (n, x, g))) \<and> same_product s s' \<and> images k' = images k"
proof -
  define h where "h = g @ take (288 - length g) d"
  define t where "t = drop (288 - length g) d"
  obtain err_text desc where chk: "ota_image_head_check h (o_chip_id s) (o_product s) (o_prefixes s) = (err_text, desc)" by fastforce
  let ?s3 = "described desc ((counted d s)\<lparr>o_head := h\<rparr>)"
  have st: "o_state s = OTA_RECEIVING" "o_head s = g" "length g < 288" "flashed k = Some []" "digested k = None \<and> broken k \<or> digested k = Some []"
    "o_total s = n" "o_expected s = x" "o_received s = of_nat (length g)" "unat n \<le> 2147483648"
    using ok assms(2,3) by (auto simp: sess_ok_def Let_def)
  have h: "take 288 (g @ d) = h" "h @ t = g @ d" using st(3) by (simp_all add: h_def t_def)
  note eq = write_head [where h = h and t = t, OF st(1) assms(5,6,2,3) _ _ chk, unfolded st(2), OF st(3) assms(7) h_def t_def, of ops k]
  have same: "same_product s ?s3" "same_product s (?s3\<lparr>o_head_checked := True\<rparr>)" by (simp_all add: same_product_def counted_def)
  show ?thesis
  proof (cases err_text)
    case (Some why)
    then have "ota_fail ops why True (?s3, k) = (s', k')" "e \<noteq> OTA_OK" using w eq by (auto simp: Let_def)
    then show ?thesis using fail_ok same(1) by (fastforce simp: seen_write_def same_product_def)
  next
    case None
    then have acc: "image_accepted s (g @ d)" using chk h(1) by (simp add: image_accepted_def)
    obtain s4 k4 e4 where p4: "ota_push ops h (?s3\<lparr>o_head_checked := True\<rparr>, k) = ((s4, k4), e4)" by (metis surj_pair)
    have w': "(if e4 \<noteq> OTA_OK then ((s4, k4), e4) else ota_push ops t (s4, k4)) = ((s', k'), e)"
      using w eq None p4 by (simp add: Let_def)
    note first = push_ok [OF p4 st(4,5)]
    show ?thesis
    proof (cases "e4 = OTA_OK")
      case False
      then show ?thesis using first w' same by (auto simp: seen_write_def same_product_def)
    next
      case True
      then have p5: "ota_push ops t (s4, k4) = ((s', k'), e)" using w' by simp
      from first(1) [OF True] have s4: "s4 = ?s3\<lparr>o_head_checked := True\<rparr>"
        and fl4: "flashed k4 = Some h" "digested k4 = None \<and> broken k4 \<or> digested k4 = Some h" by auto
      note second = push_ok [OF p5 fl4, unfolded h(2)]
      show ?thesis
      proof (cases "e = OTA_OK")
        case True
        with second(1) have "s' = s4" "flashed k' = Some (g @ d)" "digested k' = None \<and> broken k' \<or> digested k' = Some (g @ d)" by auto
        then show ?thesis using True same s4 st acc second(3) first(3) assms(7) room
          by (auto simp: seen_write_def sess_ok_def image_accepted_def)
      next
        case False
        then show ?thesis using second first(3) same s4 by (auto simp: seen_write_def same_product_def)
      qed
    qed
  qed
qed

lemma write_ok:
  assumes ok: "sess_ok flashed digested broken s k seen" and w: "ota_session_write ops d (s, k) = ((s', k'), e)"
    and small: "length d < 2147483648"
  shows "sess_ok flashed digested broken s' k' (seen_write d e seen) \<and> same_product s s' \<and> images k' = images k"
proof (cases seen)
  case None
  then show ?thesis using ok w by (auto simp: ota_session_write_def seen_write_def sess_ok_def)
next
  case (Some ann)
  then obtain n x g where seen: "seen = Some (n, x, g)" by (cases ann) auto
  note st = ok [unfolded seen sess_ok_def option.case prod.case]
  have fits: "fits_total d s \<longleftrightarrow> (n \<noteq> 0 \<longrightarrow> length g + length d \<le> unat n)"
    using st total_exceeded [of n "length g" "length d"] small by (auto simp: fits_total_def)
  consider "d = []" | "d \<noteq> []" "\<not> fits_total d s" | "d \<noteq> []" "fits_total d s" by blast
  then show ?thesis
  proof cases
    case 1
    then have "ota_fail ops ''empty write'' True (s, k) = (s', k')" "e \<noteq> OTA_OK" using w st by (auto simp: ota_session_write_def)
    then show ?thesis using fail_ok by (fastforce simp: seen_write_def)
  next
    case 2
    then have "ota_fail ops ''image larger than announced size'' True (s, k) = (s', k')" "e \<noteq> OTA_OK"
      using w st by (auto simp: ota_session_write_def fits_total_def)
    then show ?thesis using fail_ok by (fastforce simp: seen_write_def)
  next
    case 3
    consider "o_check_head s \<longrightarrow> o_head_checked s" | "o_check_head s" "\<not> o_head_checked s" "length g + length d < 288"
      | "o_check_head s" "\<not> o_head_checked s" "288 \<le> length g + length d" by linarith
    then show ?thesis
    proof cases
      case 1
      then show ?thesis using write_plain_ok ok w write_plain [of s d ops k] st 3 fits unfolding seen by (metis (no_types, lifting))
    next
      case 2
      then show ?thesis using w write_held [of s d ops k] st 3 fits
        by (auto simp: seen seen_write_def sess_ok_def same_product_def counted_def Let_def)
    next
      case head: 3
      then show ?thesis using write_head_ok ok w 3 fits unfolding seen by blast
    qed
  qed
qed

end

context ota_backend
begin

lemma end_ok:
  assumes ok: "sess_ok flashed digested broken s k seen" and w: "ota_session_end ops (s, k) = ((s', k'), e)"
  shows "sess_ok flashed digested broken s' k' None" "same_product s s'"
    and "images k' = images k \<or> (\<exists>ann. seen = Some ann \<and> images k' = images k @ [snd (snd ann)] \<and> good_image sha (broken k') s ann)"
    and "e = OTA_OK \<Longrightarrow> images k' \<noteq> images k"
proof -
  have "sess_ok flashed digested broken s' k' None \<and> same_product s s' \<and>
    (images k' = images k \<and> e \<noteq> OTA_OK \<or> (\<exists>ann. seen = Some ann \<and> images k' = images k @ [snd (snd ann)] \<and> good_image sha (broken k') s ann))"
  proof (cases seen)
    case None
    then show ?thesis using ok w by (auto simp: ota_session_end_def sess_ok_def)
  next
    case (Some ann)
    then obtain n x g where seen: "seen = Some (n, x, g)" by (cases ann) auto
    note st = ok [unfolded seen sess_ok_def option.case prod.case]
    have failed: ?thesis if "ota_fail ops why True (s, k1) = (s', k')" "e \<noteq> OTA_OK" "images k1 = images k" for why k1
      using fail_ok [OF that(1)] that(2,3) by auto
    obtain k1 bad where fin: "ota_digest_differs ops s k = (k1, bad)" by fastforce
    obtain kf got where kf: "final k = (kf, got)" by (cases "final k")
    have k1: "flashed k1 = flashed k" "images k1 = images k"
      using fin kf final_law [OF kf] by (auto simp: ota_digest_differs_def given_ops split: option.splits)
    consider "o_received s = 0" | "o_received s \<noteq> 0" "o_total s \<noteq> 0" "o_received s < o_total s"
      | "o_received s \<noteq> 0" "\<not> (o_total s \<noteq> 0 \<and> o_received s < o_total s)" "o_check_head s" "\<not> o_head_checked s"
      | "o_received s \<noteq> 0" "\<not> (o_total s \<noteq> 0 \<and> o_received s < o_total s)" "o_check_head s \<longrightarrow> o_head_checked s" by blast
    then show ?thesis
    proof cases
      case 1
      then show ?thesis using failed w st by (force simp: ota_session_end_def)
    next
      case 2
      then show ?thesis using failed w st by (force simp: ota_session_end_def)
    next
      case 3
      then show ?thesis using failed w st by (force simp: ota_session_end_def)
    next
      case 4
      obtain k2 e2 where k2: "op_end ops k1 = (k2, e2)" by (cases "op_end ops k1")
      have fl: "flashed k = Some g" "digested k = None \<and> broken k \<or> digested k = Some g" using st 4(3) by (auto simp: Let_def)
      have w': "(if bad then (ota_fail ops ''sha256 mismatch'' True (s, k1), OTA_INVALID_CRC)
          else if e2 \<noteq> OTA_OK then (ota_fail ops ''image validation failed'' False (s, k2), e2)
          else ((s\<lparr>o_state := OTA_READY\<rparr>, k2), OTA_OK)) = ((s', k'), e)"
        using w 4 st by (auto simp: ota_session_end_def fin k2)
      show ?thesis
      proof (cases bad)
        case True
        then show ?thesis using failed [OF _ _ k1(2)] w' by force
      next
        case False
        have len: "n \<noteq> 0 \<longrightarrow> length g = unat n"
          using st 4(2) by (auto simp: word_less_nat_alt unat_of_nat_small)
        have "\<And>y. x = Some y \<Longrightarrow> y = sha g \<or> y = replicate 32 0 \<and> broken k1"
          using False fin kf final_law [OF kf] fl st by (auto simp: ota_digest_differs_def given_ops)
        then have "good_image sha (broken k1) s (n, x, g)" using st 4 len by (auto simp: good_image_def split: option.splits)
        moreover have "flashed k2 = None" "broken k2 = broken k1" "images k2 = images k \<and> e2 \<noteq> OTA_OK \<or> images k2 = images k @ [g]"
          using end_law [OF k2, of g] k1 fl by auto
        ultimately show ?thesis using w' False
          by (auto simp: seen ota_fail_def sess_ok_def same_product_def split: if_splits)
      qed
    qed
  qed
  then show "sess_ok flashed digested broken s' k' None" "same_product s s'"
    "images k' = images k \<or> (\<exists>ann. seen = Some ann \<and> images k' = images k @ [snd (snd ann)] \<and> good_image sha (broken k') s ann)"
    "e = OTA_OK \<Longrightarrow> images k' \<noteq> images k" by auto
qed

lemma abort_ok:
  assumes "sess_ok flashed digested broken s k seen" "ota_session_abort ops (s, k) = ((s', k'), e)"
  shows "sess_ok flashed digested broken s' k' None \<and> same_product s s' \<and> images k' = images k"
proof (cases seen)
  case None
  then show ?thesis using assms by (auto simp: ota_session_abort_def sess_ok_def same_product_def)
next
  case (Some ann)
  then have "o_state s = OTA_RECEIVING" using assms(1) by (auto simp: sess_ok_def split: prod.splits)
  then show ?thesis using assms(2) abort_law [of k] by (auto simp: ota_session_abort_def sess_ok_def same_product_def given_ops)
qed

end

section \<open>The flash handle and the digest of the manager\<close>

text \<open>What the calls leave behind, latest call first.\<close>

fun flashed_rev :: "ota_lib \<Rightarrow> ota_call list \<Rightarrow> bytes option" where
  "flashed_rev lib [] = None"
| "flashed_rev lib (c # cs) =
     (case c of
        C_Begin \<Rightarrow> if lib_answer lib (rev cs) c = OTA_OK then Some [] else flashed_rev lib cs
      | C_Write d \<Rightarrow> map_option (\<lambda>w. w @ d) (flashed_rev lib cs)
      | C_End \<Rightarrow> None
      | C_Abort \<Rightarrow> None
      | _ \<Rightarrow> flashed_rev lib cs)"

fun ended_rev :: "ota_lib \<Rightarrow> ota_call list \<Rightarrow> bytes" where
  "ended_rev lib [] = []"
| "ended_rev lib (c # cs) =
     (if c = C_End then (case flashed_rev lib cs of Some w \<Rightarrow> w | None \<Rightarrow> []) else ended_rev lib cs)"

fun images_rev :: "ota_lib \<Rightarrow> ota_call list \<Rightarrow> bytes list" where
  "images_rev lib [] = []"
| "images_rev lib (c # cs) = images_rev lib cs @ (if c = C_Boot then [ended_rev lib cs] else [])"

definition io_flashed :: "ota_lib \<Rightarrow> ota_io \<Rightarrow> bytes option" where
  "io_flashed lib io = flashed_rev lib (rev (io_calls io))"

text \<open>A call for the digest last set up has failed.\<close>

fun digest_failed_rev :: "ota_lib \<Rightarrow> ota_call list \<Rightarrow> bool" where
  "digest_failed_rev lib [] = False"
| "digest_failed_rev lib (c # cs) =
     (case c of
        C_HashSetup \<Rightarrow> lib_answer lib (rev cs) c \<noteq> OTA_OK
      | C_HashUpdate d \<Rightarrow> lib_answer lib (rev cs) c \<noteq> OTA_OK \<or> digest_failed_rev lib cs
      | C_HashFinish \<Rightarrow> lib_answer lib (rev cs) c \<noteq> OTA_OK \<or> digest_failed_rev lib cs
      | _ \<Rightarrow> digest_failed_rev lib cs)"

definition digest_failed :: "ota_lib \<Rightarrow> ota_io \<Rightarrow> bool" where
  "digest_failed lib io = digest_failed_rev lib (rev (io_calls io))"

definition io_images :: "ota_lib \<Rightarrow> ota_io \<Rightarrow> bytes list" where
  "io_images lib io = images_rev lib (rev (io_calls io))"

lemmas io_jobs = begin_job_def write_job_def end_job_def abort_job_def confirm_job_def io_hash_reset_def
  io_hash_update_def io_hash_final_def ota_ask_def

interpretation io: ota_backend "IO_OPS lib" "abort_job lib" "io_hash_reset lib" "io_hash_update lib" "io_hash_final lib"
  "io_flashed lib" io_sum "digest_failed lib" "io_images lib" "lib_sha lib" for lib
  by unfold_locales
    (auto simp: IO_OPS_def io_jobs io_flashed_def io_images_def digest_failed_def Let_def split: if_splits option.splits)

section \<open>Any sequence of operations\<close>

datatype ota_event = OE_Expect "bytes option" | OE_Begin u32 | OE_Write bytes | OE_End | OE_Abort

text \<open>Sizes the 32-bit counters can hold; a flash partition is far smaller.\<close>

fun ota_event_ok :: "ota_event \<Rightarrow> bool" where
  "ota_event_ok (OE_Begin n) \<longleftrightarrow> unat n \<le> 2147483648"
| "ota_event_ok (OE_Write d) \<longleftrightarrow> length d < 2147483648"
| "ota_event_ok _ \<longleftrightarrow> True"

fun ota_exec :: "ota_lib \<Rightarrow> ota_event \<Rightarrow> ota_manager \<Rightarrow> ota_manager \<times> ota_err" where
  "ota_exec lib (OE_Expect sha) m = (ota_manager_expect_sha256 sha m, OTA_OK)"
| "ota_exec lib (OE_Begin n) m = ota_manager_begin lib n m"
| "ota_exec lib (OE_Write d) m = ota_manager_write lib d m"
| "ota_exec lib OE_End m = ota_manager_end lib m"
| "ota_exec lib OE_Abort m = ota_manager_abort lib m"

text \<open>What the clients know: the armed digest and the open session.\<close>

fun ota_learn :: "ota_event \<Rightarrow> ota_err \<Rightarrow> bytes option \<times> ota_seen \<Rightarrow> bytes option \<times> ota_seen" where
  "ota_learn (OE_Expect sha) err (armed, seen) = (sha, seen)"
| "ota_learn (OE_Begin n) err (armed, seen) =
     (if err \<noteq> OTA_INVALID_STATE then None else armed, seen_begin n armed err seen)"
| "ota_learn (OE_Write d) err (armed, seen) = (armed, seen_write d err seen)"
| "ota_learn OE_End err (armed, seen) = (armed, None)"
| "ota_learn OE_Abort err (armed, seen) = (armed, None)"

fun ota_history :: "ota_lib \<Rightarrow> ota_event list \<Rightarrow> ota_manager \<times> bytes option \<times> ota_seen \<Rightarrow> ota_manager \<times> bytes option \<times> ota_seen" where
  "ota_history lib [] ms = ms"
| "ota_history lib (e # es) (m, a) = (case ota_exec lib e m of (m', err) \<Rightarrow> ota_history lib es (m', ota_learn e err a))"

definition ota_start :: "string \<Rightarrow> string list \<Rightarrow> ota_manager \<times> bytes option \<times> ota_seen" where
  "ota_start product prefixes = (fst (ota_manager_set_product product prefixes ota_manager_init), None, None)"

definition ota_inv :: "ota_lib \<Rightarrow> string \<Rightarrow> string list \<Rightarrow> ota_manager \<times> bytes option \<times> ota_seen \<Rightarrow> bool" where
  "ota_inv lib product prefixes ms =
     (case ms of (m, armed, seen) \<Rightarrow>
        m_expect m = armed \<and> sess_ok (io_flashed lib) io_sum (digest_failed lib) (m_session m) (m_io m) seen \<and>
        same_product (ota_session_set_product (Some product) prefixes 9 ota_session_init) (m_session m))"

lemma locked_result:
  "ota_locked f m = (m', err) \<Longrightarrow>
     f (m_session m, m_io m) = ((m_session m', m_io m'), err) \<and> m_expect m' = m_expect m"
  by (auto simp: ota_locked_def split: prod.splits)

lemma same_product_trans: "same_product a b \<Longrightarrow> same_product b c \<Longrightarrow> same_product a c"
  by (simp add: same_product_def)

lemma ota_exec_inv:
  assumes inv: "ota_inv lib product prefixes (m, armed, seen)" and "ota_event_ok e" and ex: "ota_exec lib e m = (m', err)"
  shows "ota_inv lib product prefixes (m', ota_learn e err (armed, seen))"
    and "io_images lib (m_io m') = io_images lib (m_io m) \<or>
      e = OE_End \<and> (\<exists>ann. seen = Some ann \<and> io_images lib (m_io m') = io_images lib (m_io m) @ [snd (snd ann)] \<and>
        good_image (lib_sha lib) (digest_failed lib (m_io m')) (m_session m) ann)"
    and "e = OE_End \<Longrightarrow> err = OTA_OK \<Longrightarrow> io_images lib (m_io m') \<noteq> io_images lib (m_io m)"
proof -
  have ok: "sess_ok (io_flashed lib) io_sum (digest_failed lib) (m_session m) (m_io m) seen" "m_expect m = armed"
    and same: "same_product (ota_session_set_product (Some product) prefixes 9 ota_session_init) (m_session m)"
    using inv by (simp_all add: ota_inv_def)
  have "ota_inv lib product prefixes (m', ota_learn e err (armed, seen)) \<and>
    (io_images lib (m_io m') = io_images lib (m_io m) \<or>
      e = OE_End \<and> (\<exists>ann. seen = Some ann \<and> io_images lib (m_io m') = io_images lib (m_io m) @ [snd (snd ann)] \<and>
        good_image (lib_sha lib) (digest_failed lib (m_io m')) (m_session m) ann)) \<and>
    (e = OE_End \<longrightarrow> err = OTA_OK \<longrightarrow> io_images lib (m_io m') \<noteq> io_images lib (m_io m))"
  proof (cases e)
    case (OE_Expect x)
    then show ?thesis using ok same ex by (auto simp: ota_inv_def ota_manager_expect_sha256_def)
  next
    case (OE_Begin n)
    obtain m1 where m1: "ota_locked (ota_session_begin_ex (IO_OPS lib) n armed) m = (m1, err)"
        "m' = (if err \<noteq> OTA_INVALID_STATE then m1\<lparr>m_expect := None\<rparr> else m1)"
      using OE_Begin ex ok(2) by (auto simp: ota_manager_begin_def split: prod.splits)
    note r = locked_result [OF m1(1)]
    show ?thesis using io.begin_ok [OF ok(1) conjunct1 [OF r]] r m1(2) ok(2) same assms(2) OE_Begin
      by (auto simp: ota_inv_def intro: same_product_trans)
  next
    case (OE_Write d)
    then have "ota_locked (ota_session_write (IO_OPS lib) d) m = (m', err)" using ex by (simp add: ota_manager_write_def)
    note r = locked_result [OF this]
    show ?thesis using io.write_ok [OF ok(1) conjunct1 [OF r]] r ok(2) same assms(2) OE_Write
      by (auto simp: ota_inv_def intro: same_product_trans)
  next
    case OE_End
    then have "ota_locked (ota_session_end (IO_OPS lib)) m = (m', err)" using ex by (simp add: ota_manager_end_def)
    note r = locked_result [OF this]
    show ?thesis using io.end_ok [OF ok(1) conjunct1 [OF r]] r ok(2) same OE_End
      by (auto simp: ota_inv_def intro: same_product_trans)
  next
    case OE_Abort
    then have "ota_locked (ota_session_abort (IO_OPS lib)) m = (m', err)" using ex by (simp add: ota_manager_abort_def)
    note r = locked_result [OF this]
    show ?thesis using io.abort_ok [OF ok(1) conjunct1 [OF r]] r ok(2) same OE_Abort
      by (auto simp: ota_inv_def intro: same_product_trans)
  qed
  then show "ota_inv lib product prefixes (m', ota_learn e err (armed, seen))"
    "io_images lib (m_io m') = io_images lib (m_io m) \<or>
      e = OE_End \<and> (\<exists>ann. seen = Some ann \<and> io_images lib (m_io m') = io_images lib (m_io m) @ [snd (snd ann)] \<and>
        good_image (lib_sha lib) (digest_failed lib (m_io m')) (m_session m) ann)"
    "e = OE_End \<Longrightarrow> err = OTA_OK \<Longrightarrow> io_images lib (m_io m') \<noteq> io_images lib (m_io m)" by auto
qed

lemma ota_history_inv:
  "ota_inv lib product prefixes ms \<Longrightarrow> list_all ota_event_ok es \<Longrightarrow> ota_inv lib product prefixes (ota_history lib es ms)"
proof (induction es arbitrary: ms)
  case (Cons e es)
  obtain m armed seen where ms: "ms = (m, armed, seen)" by (cases ms)
  obtain m' err where ex: "ota_exec lib e m = (m', err)" by fastforce
  have "ota_inv lib product prefixes (m', ota_learn e err (armed, seen))"
    by (rule ota_exec_inv(1) [OF Cons.prems(1) [unfolded ms] _ ex]) (use Cons.prems(2) in simp)
  then show ?case using Cons.IH Cons.prems(2) ex by (simp add: ms)
qed simp

lemma ota_start_inv: "prefixes \<noteq> [] \<Longrightarrow> ota_inv lib product prefixes (ota_start product prefixes)"
  by (simp add: ota_start_def ota_inv_def ota_manager_set_product_def ota_manager_init_def sess_ok_def ota_session_init_def
      ota_session_set_product_def same_product_def io_flashed_def)


section \<open>A good image goes through\<close>

text \<open>Libraries that answer every call with success.\<close>

definition lib_fine :: "ota_lib \<Rightarrow> bool" where
  "lib_fine lib \<longleftrightarrow> (\<forall>cs c. lib_answer lib cs c = OTA_OK)"

lemma fine_jobs:
  assumes "lib_fine lib"
  shows "snd (begin_job lib n io) = OTA_OK" "snd (write_job lib d io) = OTA_OK" "snd (end_job lib io) = OTA_OK"
    "io_sum (io_hash_reset lib io) = Some []" "io_sum io \<noteq> None \<Longrightarrow> io_sum (io_hash_update lib d io) \<noteq> None"
    "io_sum (fst (begin_job lib n io)) = io_sum io" "io_sum (fst (write_job lib d io)) = io_sum io"
    "io_sum io = Some w \<Longrightarrow> snd (io_hash_final lib io) = lib_sha lib w"
  using assms by (auto simp: lib_fine_def io_jobs Let_def split: option.splits)

lemma push_fine:
  assumes "lib_fine lib" "io_sum k \<noteq> None" "ota_push (IO_OPS lib) d (s, k) = ((s', k'), e)"
  shows "e = OTA_OK \<and> io_sum k' \<noteq> None"
proof -
  obtain k2 e2 where k2: "write_job lib d (io_hash_update lib d k) = (k2, e2)" by fastforce
  then have "e2 = OTA_OK" "io_sum k2 \<noteq> None"
    using fine_jobs(2,5,7) [OF assms(1)] assms(2) by (metis snd_conv, metis fst_conv)
  then show ?thesis using assms(2,3) k2 by (auto simp: ota_push_def IO_OPS_def split: if_splits)
qed

text \<open>A write that stays within an accepted image.\<close>

lemma write_fine:
  assumes fine: "lib_fine lib" and ok: "sess_ok (io_flashed lib) io_sum (digest_failed lib) s k (Some (n, x, g))" and sum: "io_sum k \<noteq> None"
    and img: "img = g @ d @ rest" "image_accepted s img" "n = 0 \<or> unat n = length img" and d: "d \<noteq> []" "length d < 2147483648"
    and w: "ota_session_write (IO_OPS lib) d (s, k) = ((s', k'), e)"
  shows "e = OTA_OK \<and> io_sum k' \<noteq> None"
proof -
  note st = ok [unfolded sess_ok_def option.case prod.case]
  have fits: "fits_total d s"
    using st total_exceeded [of n "length g" "length d"] d img(1,3) by (auto simp: fits_total_def)
  consider "o_check_head s \<longrightarrow> o_head_checked s" | "o_check_head s" "\<not> o_head_checked s" "length g + length d < 288"
    | "o_check_head s" "\<not> o_head_checked s" "288 \<le> length g + length d" by linarith
  then show ?thesis
  proof cases
    case 1
    then have "ota_push (IO_OPS lib) d (counted d s, k) = ((s', k'), e)" using w write_plain [OF _ d(1) fits] st by (metis (no_types))
    then show ?thesis by (rule push_fine [OF fine sum])
  next
    case 2
    then have "ota_session_write (IO_OPS lib) d (s, k) = (((counted d s)\<lparr>o_head := o_head s @ d\<rparr>, k), OTA_OK)"
      using st by (intro write_held [OF _ d(1) fits]) (auto simp: Let_def)
    then show ?thesis using w sum by simp
  next
    case 3
    define h where "h = g @ take (288 - length g) d"
    define t where "t = drop (288 - length g) d"
    have hd: "o_head s = g" "length g < 288" using st 3 by (auto simp: Let_def)
    have "take 288 img = h" using img(1) hd 3 by (simp add: h_def)
    then obtain desc where chk: "ota_image_head_check h (o_chip_id s) (o_product s) (o_prefixes s) = (None, desc)"
      using img(2) by (metis image_accepted_def prod.collapse)
    obtain s4 k4 e4 where p4: "ota_push (IO_OPS lib) h ((described desc ((counted d s)\<lparr>o_head := h\<rparr>))\<lparr>o_head_checked := True\<rparr>, k) = ((s4, k4), e4)"
      by (metis surj_pair)
    note f4 = push_fine [OF fine sum p4]
    have "ota_push (IO_OPS lib) t (s4, k4) = ((s', k'), e)"
      using w write_head [where h = h and t = t, OF _ d(1) fits 3(1,2) _ _ chk, unfolded hd(1), OF _ hd(2) 3(3) h_def t_def, of "IO_OPS lib" k] st p4 f4
      by (simp add: Let_def)
    then show ?thesis using push_fine [OF fine] f4 by blast
  qed
qed

text \<open>The answers to a sequence of operations.\<close>

fun ota_answers :: "ota_lib \<Rightarrow> ota_event list \<Rightarrow> ota_manager \<Rightarrow> ota_manager \<times> ota_err list" where
  "ota_answers lib [] m = (m, [])"
| "ota_answers lib (e # es) m =
     (case ota_exec lib e m of (m1, err) \<Rightarrow> (case ota_answers lib es m1 of (m2, errs) \<Rightarrow> (m2, err # errs)))"

lemma answers_append:
  "ota_answers lib (es @ fs) m =
     (case ota_answers lib es m of (m1, errs) \<Rightarrow> (case ota_answers lib fs m1 of (m2, errs') \<Rightarrow> (m2, errs @ errs')))"
  by (induction es arbitrary: m) (auto split: prod.splits)

definition receiving :: "ota_lib \<Rightarrow> string \<Rightarrow> string list \<Rightarrow> u32 \<Rightarrow> bytes option \<Rightarrow> bytes \<Rightarrow> ota_manager \<Rightarrow> bool" where
  "receiving lib product prefixes n x g m \<longleftrightarrow>
     ota_inv lib product prefixes (m, m_expect m, Some (n, x, g)) \<and> io_sum (m_io m) \<noteq> None"

lemma begin_fine:
  assumes "lib_fine lib" "ota_inv lib product prefixes (m, armed, None)" "unat n \<le> 2147483648"
    and "ota_answers lib [OE_Expect x, OE_Begin n] m = (m', errs)"
  shows "errs = [OTA_OK, OTA_OK] \<and> receiving lib product prefixes n x [] m' \<and> io_images lib (m_io m') = io_images lib (m_io m)"
proof -
  obtain m1 e1 where m1: "ota_exec lib (OE_Expect x) m = (m1, e1)" "m_session m1 = m_session m" "m_io m1 = m_io m" "m_expect m1 = x" "e1 = OTA_OK"
    by (auto simp: ota_manager_expect_sha256_def)
  obtain m2 e2 where m2: "ota_exec lib (OE_Begin n) m1 = (m2, e2)" by fastforce
  have inv1: "ota_inv lib product prefixes (m1, x, None)" using assms(2) m1 by (simp add: ota_inv_def)
  note inv2 = ota_exec_inv [OF inv1 _ m2]
  have "o_state (m_session m) \<noteq> OTA_RECEIVING" using assms(2) by (simp add: ota_inv_def sess_ok_def)
  then have e2: "e2 = OTA_OK \<and> io_sum (m_io m2) \<noteq> None"
    using m2 m1 fine_jobs(1,6) [OF assms(1), of n "io_hash_reset lib (m_io m)"] fine_jobs(4) [OF assms(1), of "m_io m"]
    by (auto simp: ota_manager_begin_def ota_locked_def ota_session_begin_ex_def IO_OPS_def Let_def split: prod.splits if_splits)
  then have "m_expect m2 = None" using m2 inv2(1) assms(3) by (auto simp: ota_inv_def)
  then show ?thesis using assms(3,4) m1 m2 inv2 e2 by (auto simp: receiving_def seen_begin_def)
qed

lemma writes_fine:
  assumes "lib_fine lib" "receiving lib product prefixes n x g m" "img = g @ concat ps @ rest" "n = 0 \<or> unat n = length img"
    and "fst (ota_image_head_check (take 288 img) 9 (Some product) prefixes) = None" "length img < 2147483648" "[] \<notin> set ps"
    and "ota_answers lib (map OE_Write ps) m = (m', errs)"
  shows "errs = replicate (length ps) OTA_OK \<and> receiving lib product prefixes n x (g @ concat ps) m' \<and>
    io_images lib (m_io m') = io_images lib (m_io m)"
  using assms(2-8)
proof (induction ps arbitrary: g m errs m')
  case (Cons d ps)
  obtain m1 e1 where m1: "ota_exec lib (OE_Write d) m = (m1, e1)" by fastforce
  obtain errs2 where rest: "ota_answers lib (map OE_Write ps) m1 = (m', errs2)" "errs = e1 # errs2"
    using Cons.prems(7) m1 by (auto split: prod.splits)
  have inv: "ota_inv lib product prefixes (m, m_expect m, Some (n, x, g))" "io_sum (m_io m) \<noteq> None"
    using Cons.prems(1) by (simp_all add: receiving_def)
  have small: "length d < 2147483648" "d \<noteq> []" using Cons.prems(2,5,6) by auto
  have locked: "ota_session_write (IO_OPS lib) d (m_session m, m_io m) = ((m_session m1, m_io m1), e1)" "m_expect m1 = m_expect m"
    using locked_result m1 by (auto simp: ota_manager_write_def)
  have acc: "image_accepted (m_session m) img"
    using inv(1) Cons.prems(4) by (auto simp: ota_inv_def image_accepted_def same_product_def ota_session_set_product_def)
  have fine: "e1 = OTA_OK \<and> io_sum (m_io m1) \<noteq> None"
    using write_fine [OF assms(1) _ inv(2) _ acc Cons.prems(3) small(2,1) locked(1), of x g "concat ps @ rest"] inv(1) Cons.prems(2)
    by (simp add: ota_inv_def)
  have "receiving lib product prefixes n x (g @ d) m1" "io_images lib (m_io m1) = io_images lib (m_io m)"
    using ota_exec_inv [OF inv(1) _ m1] small fine locked(2) by (auto simp: receiving_def seen_write_def)
  then show ?case using Cons.IH [OF _ _ Cons.prems(3-5) _ rest(1), of "g @ d"] Cons.prems(2,6) rest(2) fine by simp
qed (auto simp: receiving_def)

lemma end_fine:
  assumes "lib_fine lib" "receiving lib product prefixes n x img m" "n = 0 \<or> unat n = length img"
    and "fst (ota_image_head_check (take 288 img) 9 (Some product) prefixes) = None" "length img < 2147483648"
    and "x = None \<or> x = Some (lib_sha lib img)" "ota_exec lib OE_End m = (m', err)"
  shows "err = OTA_OK \<and> o_state (m_session m') = OTA_READY \<and> io_images lib (m_io m') = io_images lib (m_io m) @ [img]"
proof -
  have inv: "ota_inv lib product prefixes (m, m_expect m, Some (n, x, img))" "io_sum (m_io m) \<noteq> None"
    using assms(2) by (simp_all add: receiving_def)
  then have ok: "sess_ok (io_flashed lib) io_sum (digest_failed lib) (m_session m) (m_io m) (Some (n, x, img))" by (simp add: ota_inv_def)
  note st = ok [unfolded sess_ok_def option.case prod.case]
  have "\<not> length img < 288" using assms(4) by (auto simp: ota_image_head_check_def min_def split: if_splits)
  then have st': "o_head_checked (m_session m) \<or> \<not> o_check_head (m_session m)" "io_sum (m_io m) = Some img" "img \<noteq> []"
    using st inv(2) by (auto simp: Let_def split: if_splits)
  have word: "(of_nat (length img) :: u32) \<noteq> 0" "n \<noteq> 0 \<longrightarrow> (of_nat (length img) :: u32) = n"
    using assms(3,5) st'(3) by (auto simp: word_unat_eq_iff unat_of_nat_small)
  have locked: "ota_session_end (IO_OPS lib) (m_session m, m_io m) = ((m_session m', m_io m'), err)"
    using locked_result assms(7) by (auto simp: ota_manager_end_def)
  have "o_expected (m_session m) = x" using st by simp
  then obtain k1 where k1: "ota_digest_differs (IO_OPS lib) (m_session m) (m_io m) = (k1, False)"
    using assms(6) fine_jobs(8) [OF assms(1) st'(2)] by (cases "io_hash_final lib (m_io m)") (auto simp: ota_digest_differs_def IO_OPS_def)
  obtain k2 where k2: "op_end (IO_OPS lib) k1 = (k2, OTA_OK)"
    using fine_jobs(3) [OF assms(1), of k1] by (cases "end_job lib k1") (simp add: IO_OPS_def)
  have "ota_session_end (IO_OPS lib) (m_session m, m_io m) = (((m_session m)\<lparr>o_state := OTA_READY\<rparr>, k2), OTA_OK)"
    using st st'(1) word k1 k2 by (auto simp: ota_session_end_def)
  then have "m_session m' = (m_session m)\<lparr>o_state := OTA_READY\<rparr>" "err = OTA_OK" using locked by simp_all
  then show ?thesis using ota_exec_inv(2,3) [OF inv(1) _ assms(7)] by auto
qed

text \<open>An image of this product and chip, announced right or not at all, with its digest or without one,
  given in pieces of any size, is installed when the libraries answer with success; uploads
  that failed or were given up before it do not matter.\<close>

text \<open>C31. An image of this product and chip, announced right or not at all, with its digest or
  without one, given in pieces of any size, is installed when the libraries answer with
  success; uploads that failed or were given up before it do not matter.\<close>

theorem ota_image_installed:
  assumes "prefixes \<noteq> []" "list_all ota_event_ok es" "ota_history lib es (ota_start product prefixes) = (m, armed, None)"
    and "lib_fine lib" "fst (ota_image_head_check (take 288 img) 9 (Some product) prefixes) = None" "length img < 2147483648"
    and "n = 0 \<or> unat n = length img" "x = None \<or> x = Some (lib_sha lib img)" "concat ps = img" "[] \<notin> set ps"
    and "ota_answers lib ([OE_Expect x, OE_Begin n] @ map OE_Write ps @ [OE_End]) m = (m', errs)"
  shows "errs = replicate (length ps + 3) OTA_OK \<and> o_state (m_session m') = OTA_READY \<and>
    io_images lib (m_io m') = io_images lib (m_io m) @ [img]"
proof -
  have inv: "ota_inv lib product prefixes (m, armed, None)"
    using ota_history_inv [OF ota_start_inv [OF assms(1)] assms(2)] assms(3) by metis
  obtain m1 e1 where a1: "ota_answers lib [OE_Expect x, OE_Begin n] m = (m1, e1)" by fastforce
  obtain m2 e2 where a2: "ota_answers lib (map OE_Write ps) m1 = (m2, e2)" by fastforce
  obtain e3 where a3: "ota_exec lib OE_End m2 = (m', e3)" "errs = e1 @ e2 @ [e3]"
    using assms(11) unfolding answers_append a1 prod.case a2 by (auto split: prod.splits)
  have "unat n \<le> 2147483648" using assms(6,7) by auto
  note b = begin_fine [OF assms(4) inv this a1]
  have w: "e2 = replicate (length ps) OTA_OK \<and> receiving lib product prefixes n x img m2 \<and> io_images lib (m_io m2) = io_images lib (m_io m1)"
    using writes_fine [OF assms(4) _ _ assms(7,5,6,10) a2, of x "[]" "[]"] b assms(9) by simp
  have "e3 = OTA_OK \<and> o_state (m_session m') = OTA_READY \<and> io_images lib (m_io m') = io_images lib (m_io m2) @ [img]"
    by (rule end_fine [OF assms(4) _ assms(7,5,6,8) a3(1)]) (use w in simp)
  moreover have "[OTA_OK, OTA_OK] @ replicate (length ps) OTA_OK @ [OTA_OK] = replicate (length ps + 3) OTA_OK"
    by (simp add: replicate_append_same flip: replicate_Suc)
  ultimately show ?thesis using b w a3(2) by simp
qed

section \<open>Witnesses\<close>

text \<open>Libraries that answer every call with success and a digest that tells lengths apart; an image
  of 300 bytes of the project \<open>wican\<close>.\<close>

definition easy_lib :: ota_lib where
  "easy_lib = \<lparr>lib_answer = (\<lambda>_ _. OTA_OK), lib_img_state = (\<lambda>_. IMG_VALID), lib_sha = (\<lambda>bs. replicate 32 (of_nat (length bs)))\<rparr>"

definition wican_image :: bytes where
  "wican_image = 0xE9 # replicate 11 0 @ [9, 0] @ replicate 18 0 @ [0x32, 0x54, 0xCD, 0xAB] @ replicate 12 0 @
     [0x36, 0x2E, 0x30] @ replicate 29 0 @ [0x77, 0x69, 0x63, 0x61, 0x6E] @ replicate 27 0 @ replicate 188 7"

definition wican_upload :: "ota_event list" where
  "wican_upload = [OE_Expect (Some (replicate 32 44)), OE_Begin 300,
     OE_Write (take 100 wican_image), OE_Write (drop 100 wican_image)]"


lemma wican_name: "char_of (119 :: nat) = CHR ''w''" "char_of (105 :: nat) = CHR ''i''" "char_of (99 :: nat) = CHR ''c''"
  "char_of (97 :: nat) = CHR ''a''" "char_of (110 :: nat) = CHR ''n''"
  by code_simp+

lemma wican_good:
  "length wican_image = 300" "list_all ota_event_ok wican_upload" "lib_fine easy_lib"
  "fst (ota_image_head_check (take 288 wican_image) 9 (Some ''WiCAN'') [''wican'']) = None"
proof -
  show len: "length wican_image = 300" by (simp add: wican_image_def)
  then show "list_all ota_event_ok wican_upload" by (simp add: wican_upload_def)
  show "lib_fine easy_lib" by (simp add: lib_fine_def easy_lib_def)
  show "fst (ota_image_head_check (take 288 wican_image) 9 (Some ''WiCAN'') [''wican'']) = None"
    by (simp add: ota_image_head_check_def wican_image_def nth_append nth_Cons' le16_def le32_def ota_field_def Let_def wican_name)
qed



lemma ota_image_installed_witness:
  "snd (ota_answers easy_lib ([OE_Expect None, OE_Begin 0] @ map OE_Write [take 10 wican_image, drop 10 wican_image] @ [OE_End])
     (fst (ota_start ''WiCAN'' [''wican'']))) = replicate 5 OTA_OK"
proof -
  have cut: "concat [take 10 wican_image, drop 10 wican_image] = wican_image" "[] \<notin> set [take 10 wican_image, drop 10 wican_image]"
    using wican_good(1) by auto
  have start: "ota_history easy_lib [] (ota_start ''WiCAN'' [''wican'']) = (fst (ota_start ''WiCAN'' [''wican'']), None, None)"
    by (simp add: ota_start_def)
  have "snd (ota_answers easy_lib ([OE_Expect None, OE_Begin 0] @ map OE_Write [take 10 wican_image, drop 10 wican_image] @ [OE_End])
      (fst (ota_start ''WiCAN'' [''wican'']))) = replicate (length [take 10 wican_image, drop 10 wican_image] + 3) OTA_OK"
    by (rule conjunct1 [OF ota_image_installed [OF _ _ start wican_good(3,4) _ _ _ cut surjective_pairing]])
      (simp_all only: wican_good(1) simp_thms, simp_all)
  moreover have "length [take 10 wican_image, drop 10 wican_image] + 3 = 5" by simp
  ultimately show ?thesis by (simp only:)
qed

text \<open>When the digest library fails, an expected digest of zeros is taken for any image, and any other
  one is refused.\<close>

lemma digest_unavailable:
  "io_sum io = None \<Longrightarrow> o_expected s = Some x \<Longrightarrow> ota_digest_differs (IO_OPS lib) s io = (io, x \<noteq> replicate 32 0)"
  by (simp add: ota_digest_differs_def IO_OPS_def io_hash_final_def eq_commute)

end
