(* ===== verification/OTA_Pipe.thy ===== *)
theory OTA_Pipe
  imports OTA_Session
begin

text \<open>
  \<^verbatim>\<open>components/ota_manager/ota_pipe.c\<close>: a client whose stack is in external memory hands the
  bytes of an image to a writer task, which alone calls the manager. Client and writer are steps
  between their queue and semaphore operations, in any order; a wait of the client can time out. A
  queue of indices is a list, a binary semaphore a truth value. \<open>q_late\<close> counts writers that have
  cleared \<open>s_active\<close> and not yet given the semaphore. The manager is a parameter that answers each
  call from the calls made before it. There is one client, and it alone uses the manager.
\<close>

datatype pipe_msg = Slot nat | PIPE_MSG_END | PIPE_MSG_ABORT

text \<open>Where the writer is: before its first call, before it disarms the digest, before it tells that the
  session is open, at the queue, with a filled slot, with a written one, with an order to end or to
  abort, or about to leave.\<close>

datatype pipe_writer = W_Off | W_Start | W_Disarm | W_Open | W_Queue | W_Write nat | W_Back nat | W_End | W_Abort | W_Leave

text \<open>Where the client is: outside (with the last result), waiting for the writer to open, to go after
  a failed begin, in a write with the bytes left (before it looks at the error, at the queue,
  with a slot), waiting for the end or the abort.\<close>

datatype pipe_client = K_Idle ota_err | K_Begin | K_Close | K_Write bytes | K_Slot bytes | K_Fill nat bytes | K_End | K_Abort

record ota_pipe =
  q_free :: "nat list"
  q_full :: "pipe_msg list"
  q_done :: bool
  q_slot :: "bytes list"
  q_active :: bool
  q_writer_err :: ota_err
  q_end_err :: ota_err
  q_total :: u32
  q_have_sha :: bool
  q_writer :: pipe_writer
  q_client :: pipe_client
  q_late :: nat
  q_calls :: "ota_event list"

definition pipe_boot :: ota_pipe where
  "pipe_boot = \<lparr>q_free = [], q_full = [], q_done = False, q_slot = [[], []], q_active = False, q_writer_err = OTA_OK,
     q_end_err = OTA_OK, q_total = 0, q_have_sha = False, q_writer = W_Off, q_client = K_Idle OTA_OK, q_late = 0, q_calls = []\<rparr>"

type_synonym ota_answer = "ota_event list \<Rightarrow> ota_event \<Rightarrow> ota_err"

definition pipe_call :: "ota_event \<Rightarrow> ota_pipe \<Rightarrow> ota_pipe" where
  "pipe_call e q = q\<lparr>q_calls := q_calls q @ [e]\<rparr>"

definition queues_reset :: "ota_pipe \<Rightarrow> ota_pipe" where
  "queues_reset q = q\<lparr>q_free := [0, 1], q_full := [], q_done := False\<rparr>"

section \<open>The client\<close>

text \<open>The calls of the client; \<open>created\<close> says whether there was memory for the writer.\<close>

definition ota_pipe_begin :: "u32 \<Rightarrow> bytes option \<Rightarrow> bool \<Rightarrow> ota_pipe \<Rightarrow> ota_pipe" where
  "ota_pipe_begin total_size sha created q =
     (if q_active q then q\<lparr>q_client := K_Idle OTA_INVALID_STATE\<rparr>
      else
        let q1 = (queues_reset q)\<lparr>q_total := total_size, q_have_sha := sha \<noteq> None\<rparr>;
            q2 = (if sha \<noteq> None then pipe_call (OE_Expect sha) q1 else q1)\<lparr>q_writer_err := OTA_OK, q_end_err := OTA_OK, q_active := True\<rparr>
        in if created then q2\<lparr>q_writer := W_Start, q_client := K_Begin\<rparr>
           else (pipe_call (OE_Expect None) (q2\<lparr>q_active := False\<rparr>))\<lparr>q_client := K_Idle OTA_NO_MEM\<rparr>)"

definition ota_pipe_write :: "bytes \<Rightarrow> ota_pipe \<Rightarrow> ota_pipe" where
  "ota_pipe_write data q =
     (if \<not> q_active q then q\<lparr>q_client := K_Idle OTA_INVALID_STATE\<rparr> else q\<lparr>q_client := K_Write data\<rparr>)"

definition ota_pipe_end :: "ota_pipe \<Rightarrow> ota_pipe" where
  "ota_pipe_end q =
     (if \<not> q_active q then q\<lparr>q_client := K_Idle OTA_INVALID_STATE\<rparr>
      else q\<lparr>q_full := q_full q @ [PIPE_MSG_END], q_client := K_End\<rparr>)"

definition ota_pipe_abort :: "ota_pipe \<Rightarrow> ota_pipe" where
  "ota_pipe_abort q =
     (if \<not> q_active q then q\<lparr>q_client := K_Idle OTA_OK\<rparr>
      else q\<lparr>q_full := q_full q @ [PIPE_MSG_ABORT], q_client := K_Abort\<rparr>)"

text \<open>The client goes on inside a call; \<open>None\<close> when it has to wait.\<close>

fun pipe_client_step :: "ota_pipe \<Rightarrow> ota_pipe option" where
  "pipe_client_step q =
     (case q_client q of
        K_Idle _ \<Rightarrow> None
      | K_Begin \<Rightarrow>
          if \<not> q_done q then None
          else if q_writer_err q \<noteq> OTA_OK then
            Some (q\<lparr>q_done := False, q_full := q_full q @ [PIPE_MSG_END], q_client := K_Close\<rparr>)
          else Some (q\<lparr>q_done := False, q_client := K_Idle OTA_OK\<rparr>)
      | K_Close \<Rightarrow> if \<not> q_done q then None else Some (q\<lparr>q_done := False, q_client := K_Idle (q_writer_err q)\<rparr>)
      | K_Write data \<Rightarrow>
          if data = [] then Some (q\<lparr>q_client := K_Idle OTA_OK\<rparr>)
          else if q_writer_err q \<noteq> OTA_OK then Some (q\<lparr>q_client := K_Idle (q_writer_err q)\<rparr>)
          else Some (q\<lparr>q_client := K_Slot data\<rparr>)
      | K_Slot data \<Rightarrow>
          (case q_free q of [] \<Rightarrow> None | i # is \<Rightarrow> Some (q\<lparr>q_free := is, q_client := K_Fill i data\<rparr>))
      | K_Fill i data \<Rightarrow>
          Some (q\<lparr>q_slot := (q_slot q)[i := take 4096 data], q_full := q_full q @ [Slot i], q_client := K_Write (drop 4096 data)\<rparr>)
      | K_End \<Rightarrow> if \<not> q_done q then None else Some (q\<lparr>q_done := False, q_client := K_Idle (q_end_err q)\<rparr>)
      | K_Abort \<Rightarrow> if \<not> q_done q then None else Some (q\<lparr>q_done := False, q_client := K_Idle OTA_OK\<rparr>))"

text \<open>A wait that runs out of time. After a failed begin and in an abort the result of the wait is not
  looked at.\<close>

fun pipe_timeout :: "ota_pipe \<Rightarrow> ota_pipe option" where
  "pipe_timeout q =
     (case q_client q of
        K_Begin \<Rightarrow> Some (q\<lparr>q_client := K_Idle OTA_TIMEOUT\<rparr>)
      | K_Close \<Rightarrow> Some (q\<lparr>q_client := K_Idle (q_writer_err q)\<rparr>)
      | K_Slot _ \<Rightarrow> Some (q\<lparr>q_client := K_Idle OTA_TIMEOUT\<rparr>)
      | K_End \<Rightarrow> Some (q\<lparr>q_client := K_Idle OTA_TIMEOUT\<rparr>)
      | K_Abort \<Rightarrow> Some (q\<lparr>q_client := K_Idle OTA_OK\<rparr>)
      | _ \<Rightarrow> None)"

section \<open>The writer\<close>

fun pipe_writer_step :: "ota_answer \<Rightarrow> ota_pipe \<Rightarrow> ota_pipe option" where
  "pipe_writer_step ans q =
     (case q_writer q of
        W_Off \<Rightarrow> None
      | W_Start \<Rightarrow>
          (let e = OE_Begin (q_total q); err = ans (q_calls q) e in
           Some ((pipe_call e q)\<lparr>q_writer_err := err, q_writer := (if err \<noteq> OTA_OK \<and> q_have_sha q then W_Disarm else W_Open)\<rparr>))
      | W_Disarm \<Rightarrow> Some ((pipe_call (OE_Expect None) q)\<lparr>q_writer := W_Open\<rparr>)
      | W_Open \<Rightarrow> Some (q\<lparr>q_done := True, q_writer := W_Queue\<rparr>)
      | W_Queue \<Rightarrow>
          (case q_full q of
             [] \<Rightarrow> None
           | msg # msgs \<Rightarrow>
               Some (q\<lparr>q_full := msgs,
                       q_writer := (case msg of Slot i \<Rightarrow> W_Write i | PIPE_MSG_END \<Rightarrow> W_End | PIPE_MSG_ABORT \<Rightarrow> W_Abort)\<rparr>))
      | W_Write i \<Rightarrow>
          if q_writer_err q = OTA_OK then
            let e = OE_Write (q_slot q ! i); err = ans (q_calls q) e in
            Some ((pipe_call e q)\<lparr>q_writer_err := err, q_writer := W_Back i\<rparr>)
          else Some (q\<lparr>q_writer := W_Back i\<rparr>)
      | W_Back i \<Rightarrow> Some (q\<lparr>q_free := q_free q @ [i], q_writer := W_Queue\<rparr>)
      | W_End \<Rightarrow>
          if q_writer_err q = OTA_OK then
            let err = ans (q_calls q) OE_End in Some ((pipe_call OE_End q)\<lparr>q_end_err := err, q_writer := W_Leave\<rparr>)
          else Some (q\<lparr>q_end_err := q_writer_err q, q_writer := W_Leave\<rparr>)
      | W_Abort \<Rightarrow> Some ((pipe_call OE_Abort q)\<lparr>q_end_err := OTA_INVALID_STATE, q_writer := W_Leave\<rparr>)
      | W_Leave \<Rightarrow> Some (q\<lparr>q_active := False, q_writer := W_Off, q_late := q_late q + 1\<rparr>))"

text \<open>The last word of a writer that leaves.\<close>

definition pipe_last_word :: "ota_pipe \<Rightarrow> ota_pipe option" where
  "pipe_last_word q = (if q_late q = 0 then None else Some (q\<lparr>q_done := True, q_late := q_late q - 1\<rparr>))"

section \<open>The steps together\<close>

datatype pipe_act = PA_Begin u32 "bytes option" bool | PA_Write bytes | PA_End | PA_Abort | PA_Client | PA_Writer | PA_Last | PA_Timeout

fun idle_client :: "pipe_client \<Rightarrow> bool" where
  "idle_client (K_Idle _) \<longleftrightarrow> True"
| "idle_client _ \<longleftrightarrow> False"

definition pipe_do :: "ota_answer \<Rightarrow> pipe_act \<Rightarrow> ota_pipe \<Rightarrow> ota_pipe option" where
  "pipe_do ans a q =
     (case a of
        PA_Begin n sha created \<Rightarrow> if idle_client (q_client q) then Some (ota_pipe_begin n sha created q) else None
      | PA_Write data \<Rightarrow> if idle_client (q_client q) then Some (ota_pipe_write data q) else None
      | PA_End \<Rightarrow> if idle_client (q_client q) then Some (ota_pipe_end q) else None
      | PA_Abort \<Rightarrow> if idle_client (q_client q) then Some (ota_pipe_abort q) else None
      | PA_Client \<Rightarrow> pipe_client_step q
      | PA_Writer \<Rightarrow> pipe_writer_step ans q
      | PA_Last \<Rightarrow> pipe_last_word q
      | PA_Timeout \<Rightarrow> pipe_timeout q)"

text \<open>What the client has asked for since the begin that was let in: the digest and the bytes.\<close>

definition pipe_ask :: "pipe_act \<Rightarrow> ota_pipe \<Rightarrow> bytes option \<times> bytes \<Rightarrow> bytes option \<times> bytes" where
  "pipe_ask a q xg =
     (case a of
        PA_Begin n sha created \<Rightarrow> if q_active q then xg else (sha, [])
      | PA_Write data \<Rightarrow> if q_active q then (fst xg, snd xg @ data) else xg
      | _ \<Rightarrow> xg)"

fun pipe_run :: "ota_answer \<Rightarrow> pipe_act list \<Rightarrow> ota_pipe \<times> bytes option \<times> bytes \<Rightarrow> (ota_pipe \<times> bytes option \<times> bytes) option" where
  "pipe_run ans [] s = Some s"
| "pipe_run ans (a # as) (q, xg) =
     (case pipe_do ans a q of None \<Rightarrow> None | Some q' \<Rightarrow> pipe_run ans as (q', pipe_ask a q xg))"

section \<open>The invariant\<close>









































section \<open>The manager behind the pipe\<close>









section \<open>Sizes\<close>








section \<open>Witness\<close>





text \<open>A client that goes away after a begin whose wait ran out of time leaves the writer at its queue:
  every later begin is refused.\<close>

lemma late_begin_blocks:
  "ans [] (OE_Begin 0) = OTA_OK \<Longrightarrow>
     \<exists>q. pipe_run ans [PA_Begin 0 None True, PA_Timeout, PA_Writer, PA_Writer] (pipe_boot, None, []) = Some (q, None, []) \<and>
       q_client q = K_Idle OTA_TIMEOUT \<and> pipe_do ans PA_Writer q = None \<and> q_client (ota_pipe_begin n sha created q) = K_Idle OTA_INVALID_STATE"
  by (simp add: pipe_do_def ota_pipe_begin_def queues_reset_def pipe_call_def pipe_boot_def pipe_ask_def Let_def)

text \<open>A begin whose wait ran out of time leaves the writer's word in the semaphore: the next wait, here
  that of an end, takes it for its own and returns success before the writer has ended.\<close>

lemma late_word_taken:
  "ans [] (OE_Begin 0) = OTA_OK \<Longrightarrow>
     \<exists>q. pipe_run ans [PA_Begin 0 None True, PA_Timeout, PA_Writer, PA_Writer, PA_End, PA_Client] (pipe_boot, None, []) = Some (q, None, []) \<and>
       q_client q = K_Idle OTA_OK \<and> q_calls q = [OE_Begin 0]"
  by (simp add: pipe_do_def ota_pipe_begin_def queues_reset_def pipe_call_def pipe_boot_def pipe_ask_def Let_def ota_pipe_end_def)

end
