(* ===== verification/Wifi_Select.thy ===== *)
theory Wifi_Select
  imports Decimal
begin

text \<open>
  \<^verbatim>\<open>components/wifi_manager/wifi_manager_select.c\<close>: which of the configured networks the station tries
  next, and the memory of failed attempts, with the part of \<^verbatim>\<open>wifi_manager.c\<close> that picks and that records a
  failed attempt. Times are ticks of a 32-bit millisecond clock. A network is configured at most
  six times, entry 0 first. A NULL pointer to a string is \<open>None\<close>.
\<close>

abbreviation (input) WM_MAX_CANDIDATES :: nat where "WM_MAX_CANDIDATES \<equiv> 6"
abbreviation (input) WM_AUTH_FAIL_THRESHOLD :: u8 where "WM_AUTH_FAIL_THRESHOLD \<equiv> 3"
abbreviation (input) WM_FAIL_MEMORY_MS :: u32 where "WM_FAIL_MEMORY_MS \<equiv> 120000"

section \<open>Texts of the settings\<close>

text \<open>\<open>snprintf\<close> into \<open>cap\<close> characters: what is in the buffer, and whether all of it fitted.\<close>

definition wm_default_hostname :: "string option \<Rightarrow> string option \<Rightarrow> nat \<Rightarrow> string \<times> bool" where
  "wm_default_hostname configured device_id cap =
     (if cap = 0 then ([], False)
      else
        case configured of
          Some (c # cs) \<Rightarrow> (take (cap - 1) (c # cs), length (c # cs) < cap)
        | _ \<Rightarrow>
            (case device_id of
               Some (c # cs) \<Rightarrow> (take (cap - 1) (''wican_'' @ c # cs), length (''wican_'' @ c # cs) < cap)
             | _ \<Rightarrow> ([], False)))"

text \<open>\<open>strtol\<close> on a text that starts with a digit; a value too large for a \<open>long\<close> is over 255 too.\<close>

fun octets4 :: "nat \<Rightarrow> string \<Rightarrow> nat list option" where
  "octets4 0 s = (if s = [] then Some [] else None)"
| "octets4 (Suc k) s =
     (let digits = takeWhile isdigit s; rest = dropWhile isdigit s; v = dec_value digits in
      if digits = [] \<or> v > 255 then None
      else if k = 0 then map_option (Cons v) (octets4 0 rest)
      else (case rest of c # cs \<Rightarrow> if c = CHR ''.'' then map_option (Cons v) (octets4 k cs) else None | [] \<Rightarrow> None))"

definition wm_parse_ipv4 :: "string option \<Rightarrow> u32 option" where
  "wm_parse_ipv4 s =
     (case s of
        None \<Rightarrow> None
      | Some t \<Rightarrow>
          (case octets4 4 t of
             Some [a, b, c, d] \<Rightarrow>
               Some (push_bit 24 (of_nat a) OR push_bit 16 (of_nat b) OR push_bit 8 (of_nat c) OR of_nat d)
           | _ \<Rightarrow> None))"

definition wm_parse_ap_ipv4 :: "string option \<Rightarrow> u32 option" where
  "wm_parse_ap_ipv4 s =
     (case wm_parse_ipv4 s of
        None \<Rightarrow> None
      | Some v \<Rightarrow> if v AND 0xFF = 0 \<or> v AND 0xFF = 255 then None else Some v)"

definition wm_netmask_valid :: "u32 \<Rightarrow> bool" where
  "wm_netmask_valid m =
     (if m = 0 \<or> m = 0xFFFFFFFF then False else (let inv = NOT m in (inv + 1) AND inv = 0))"

section \<open>The memory of failed attempts\<close>

record wm_fail_entry =
  fail_count :: u8
  last_fail_ms :: u32

record wm_select_state =
  fails :: "wm_fail_entry list"
  seq_cursor :: int
  dep_cursor :: int

record wm_network =
  ssid :: string
  password :: string

definition wm_select_init :: wm_select_state where
  "wm_select_init = \<lparr>fails = replicate WM_MAX_CANDIDATES \<lparr>fail_count = 0, last_fail_ms = 0\<rparr>, seq_cursor = - 1, dep_cursor = - 1\<rparr>"

definition memory_live :: "wm_fail_entry \<Rightarrow> u32 \<Rightarrow> bool" where
  "memory_live e now_ms \<longleftrightarrow> fail_count e > 0 \<and> now_ms - last_fail_ms e < WM_FAIL_MEMORY_MS"

definition wm_index_ok :: "int \<Rightarrow> bool" where
  "wm_index_ok idx \<longleftrightarrow> 0 \<le> idx \<and> idx < int WM_MAX_CANDIDATES"

definition wm_select_fail_count :: "wm_select_state \<Rightarrow> int \<Rightarrow> u32 \<Rightarrow> u8" where
  "wm_select_fail_count st idx now_ms =
     (if \<not> wm_index_ok idx then 0
      else let e = fails st ! nat idx in if memory_live e now_ms then fail_count e else 0)"

definition wm_select_is_deprioritised :: "wm_select_state \<Rightarrow> int \<Rightarrow> u32 \<Rightarrow> bool" where
  "wm_select_is_deprioritised st idx now_ms \<longleftrightarrow> wm_select_fail_count st idx now_ms \<ge> WM_AUTH_FAIL_THRESHOLD"

definition wm_select_on_attempt_fail :: "int \<Rightarrow> u32 \<Rightarrow> wm_select_state \<Rightarrow> wm_select_state" where
  "wm_select_on_attempt_fail idx now_ms st =
     (if \<not> wm_index_ok idx then st
      else
        let e = fails st ! nat idx;
            c0 = (if memory_live e now_ms then fail_count e else 0);
            c1 = (if c0 < 255 then c0 + 1 else c0)
        in st\<lparr>fails := (fails st)[nat idx := \<lparr>fail_count = c1, last_fail_ms = now_ms\<rparr>]\<rparr>)"

definition wm_select_deprioritise :: "int \<Rightarrow> u32 \<Rightarrow> wm_select_state \<Rightarrow> wm_select_state" where
  "wm_select_deprioritise idx now_ms st =
     (if \<not> wm_index_ok idx then st
      else
        let e = fails st ! nat idx;
            c = (if \<not> memory_live e now_ms \<or> fail_count e < WM_AUTH_FAIL_THRESHOLD then WM_AUTH_FAIL_THRESHOLD else fail_count e)
        in st\<lparr>fails := (fails st)[nat idx := \<lparr>fail_count = c, last_fail_ms = now_ms\<rparr>]\<rparr>)"

definition wm_select_on_success :: "int \<Rightarrow> wm_select_state \<Rightarrow> wm_select_state" where
  "wm_select_on_success idx st =
     (if \<not> wm_index_ok idx then st
      else st\<lparr>fails := (fails st)[nat idx := \<lparr>fail_count = 0, last_fail_ms = 0\<rparr>]\<rparr>)"

section \<open>The choice\<close>

definition ssid_present :: "string list \<Rightarrow> string \<Rightarrow> bool" where
  "ssid_present present s \<longleftrightarrow> s \<noteq> [] \<and> s \<in> set present"

text \<open>The rotation among the visible entries when all of them failed lately.\<close>

fun dep_rotate :: "nat \<Rightarrow> wm_network list \<Rightarrow> string list \<Rightarrow> wm_select_state \<Rightarrow> wm_select_state \<times> int" where
  "dep_rotate 0 cand present st = (st, - 1)"
| "dep_rotate (Suc n) cand present st =
     (let c = (dep_cursor st + 1) mod int (length cand); st1 = st\<lparr>dep_cursor := c\<rparr> in
      if ssid_present present (ssid (cand ! nat c)) then (st1, c) else dep_rotate n cand present st1)"

definition wm_select_from_scan :: "wm_network list \<Rightarrow> string list \<Rightarrow> u32 \<Rightarrow> wm_select_state \<Rightarrow> wm_select_state \<times> int" where
  "wm_select_from_scan cand present now_ms st =
     (case find_idx (\<lambda>i. ssid_present present (ssid (cand ! i)) \<and> \<not> wm_select_is_deprioritised st (int i) now_ms) [0..<length cand] of
        Some i \<Rightarrow> (st, int i)
      | None \<Rightarrow> dep_rotate (length cand) cand present st)"

text \<open>The rotation without a scan.\<close>

fun seq_rotate :: "nat \<Rightarrow> nat \<Rightarrow> u32 \<Rightarrow> wm_select_state \<Rightarrow> wm_select_state \<times> int" where
  "seq_rotate 0 cand_count now_ms st =
     (let c = (seq_cursor st + 1) mod int cand_count in (st\<lparr>seq_cursor := c\<rparr>, c))"
| "seq_rotate (Suc n) cand_count now_ms st =
     (let c = (seq_cursor st + 1) mod int cand_count; st1 = st\<lparr>seq_cursor := c\<rparr> in
      if \<not> wm_select_is_deprioritised st1 c now_ms then (st1, c) else seq_rotate n cand_count now_ms st1)"

definition wm_select_sequential :: "nat \<Rightarrow> u32 \<Rightarrow> wm_select_state \<Rightarrow> wm_select_state \<times> int" where
  "wm_select_sequential cand_count now_ms st =
     (if cand_count = 0 then (st, - 1) else seq_rotate cand_count cand_count now_ms st)"

definition wm_select_better :: "wm_network list \<Rightarrow> int \<Rightarrow> string list \<Rightarrow> u32 \<Rightarrow> wm_select_state \<Rightarrow> int" where
  "wm_select_better cand current_idx present now_ms st =
     (if current_idx \<le> 0 \<or> current_idx \<ge> int (length cand) then - 1
      else
        case find_idx (\<lambda>i. ssid_present present (ssid (cand ! i)) \<and> \<not> wm_select_is_deprioritised st (int i) now_ms \<and>
               ssid (cand ! i) \<noteq> ssid (cand ! nat current_idx)) [0..<nat current_idx] of
          Some i \<Rightarrow> int i
        | None \<Rightarrow> - 1)"

definition wm_sta_pause_for_ap_clients :: "u16 \<Rightarrow> bool \<Rightarrow> u32 \<Rightarrow> u32 \<Rightarrow> bool" where
  "wm_sta_pause_for_ap_clients ap_clients ever_connected pauses_so_far max_pauses =
     (if ap_clients = 0 then False else if \<not> ever_connected then False else pauses_so_far < max_pauses)"

definition wm_backoff_skip_loops :: "int \<Rightarrow> int" where
  "wm_backoff_skip_loops retry_count =
     (if retry_count \<le> 2 then 0
      else let shift = min 4 (retry_count - 2); skip = 2 ^ nat shift - 1 in if skip > 5 then 5 else skip)"

definition wm_vpn_pause_applies :: "bool list option \<Rightarrow> int \<Rightarrow> bool" where
  "wm_vpn_pause_applies flags idx =
     (case flags of
        None \<Rightarrow> False
      | Some fs \<Rightarrow> if idx < 0 \<or> idx \<ge> int (length fs) \<or> length fs > WM_MAX_CANDIDATES then False else fs ! nat idx)"

text \<open>The pick of a reconnect (\<open>select_and_connect\<close>): with one network no scan; otherwise a scan, whose
  result is \<open>present\<close>, and the blind rotation when nothing on the list was seen.\<close>

definition pick_candidate :: "wm_network list \<Rightarrow> string list \<Rightarrow> u32 \<Rightarrow> wm_select_state \<Rightarrow> wm_select_state \<times> int" where
  "pick_candidate cand present now_ms st =
     (if length cand = 1 then (fst (wm_select_sequential 1 now_ms st), 0)
      else
        case (if present \<noteq> [] then wm_select_from_scan cand present now_ms st else (st, - 1)) of
          (st1, pick) \<Rightarrow> if pick < 0 then wm_select_sequential (length cand) now_ms st1 else (st1, pick))"

text \<open>
  What a disconnect means for the memory (\<open>on_sta_disconnected\<close>, for an event that is not a connection
  trial's): the roaming state \<open>roam\<close> and its \<open>target\<close>, whether the station was connected, the reason
  of the event (two of the reasons are named in the code) and the entry of the last attempt.
\<close>

datatype wifi_reason = WIFI_REASON_NO_AP_FOUND | WIFI_REASON_ASSOC_LEAVE | WIFI_REASON_OTHER u8

datatype wm_roam = WM_ROAM_IDLE | WM_ROAM_LEAVING | WM_ROAM_TRYING

definition attempt_failed_reason :: "wifi_reason \<Rightarrow> bool" where
  "attempt_failed_reason reason \<longleftrightarrow> reason \<noteq> WIFI_REASON_NO_AP_FOUND \<and> reason \<noteq> WIFI_REASON_ASSOC_LEAVE"

definition note_attempt_failed ::
  "wm_roam \<Rightarrow> int \<Rightarrow> bool \<Rightarrow> wifi_reason \<Rightarrow> int \<Rightarrow> u32 \<Rightarrow> wm_select_state \<Rightarrow> wm_roam \<times> wm_select_state" where
  "note_attempt_failed roam target was_connected reason idx now_ms st =
     (if roam = WM_ROAM_LEAVING then (WM_ROAM_TRYING, st)
      else if \<not> was_connected \<and> attempt_failed_reason reason \<and> idx \<ge> 0 then
        (WM_ROAM_IDLE,
         if roam = WM_ROAM_TRYING \<and> idx = target then wm_select_deprioritise idx now_ms st
         else wm_select_on_attempt_fail idx now_ms st)
      else if roam = WM_ROAM_TRYING then (WM_ROAM_IDLE, st)
      else (roam, st))"

section \<open>Attempts that fail\<close>

text \<open>A reconnect: what the scan sees, when the pick is made, when its attempt has failed and why. The
  station is not connected and does not roam.\<close>

type_synonym wm_round = "string list \<times> u32 \<times> u32 \<times> wifi_reason"

fun failing_rounds :: "wm_network list \<Rightarrow> wm_round list \<Rightarrow> wm_select_state \<Rightarrow> int list \<times> wm_select_state" where
  "failing_rounds cand [] st = ([], st)"
| "failing_rounds cand ((present, now, failed, reason) # rs) st =
     (case pick_candidate cand present now st of
        (st1, pick) \<Rightarrow>
          map_prod (Cons pick) id
            (failing_rounds cand rs (snd (note_attempt_failed WM_ROAM_IDLE (- 1) False reason pick failed st1))))"

lemma note_simps [simp]:
  "attempt_failed_reason reason \<Longrightarrow>
     snd (note_attempt_failed WM_ROAM_IDLE target False reason idx now st) = wm_select_on_attempt_fail idx now st"
  "\<not> attempt_failed_reason reason \<Longrightarrow> snd (note_attempt_failed WM_ROAM_IDLE target False reason idx now st) = st"
  by (simp_all add: note_attempt_failed_def wm_select_on_attempt_fail_def wm_index_ok_def)

lemma reason_simps [simp]:
  "attempt_failed_reason (WIFI_REASON_OTHER r)" "\<not> attempt_failed_reason WIFI_REASON_NO_AP_FOUND"
  "\<not> attempt_failed_reason WIFI_REASON_ASSOC_LEAVE"
  by (simp_all add: attempt_failed_reason_def)

lemma failing_append:
  "failing_rounds cand (rs @ rs') st =
     (case failing_rounds cand rs st of (ps, st1) \<Rightarrow> case failing_rounds cand rs' st1 of (ps', st2) \<Rightarrow> (ps @ ps', st2))"
  by (induction rs arbitrary: st) (auto split: prod.splits)

lemma depr_iff:
  "wm_index_ok i \<Longrightarrow> wm_select_is_deprioritised st i now \<longleftrightarrow> memory_live (fails st ! nat i) now \<and> 3 \<le> fail_count (fails st ! nat i)"
  by (auto simp: wm_select_is_deprioritised_def wm_select_fail_count_def Let_def)

text \<open>The pick in a scan that sees an entry without a bad record.\<close>

lemma pick_clean:
  assumes "length cand \<noteq> 1" "i < length cand" "ssid_present present (ssid (cand ! i))" "\<not> wm_select_is_deprioritised st (int i) now"
    and "\<And>j. j < i \<Longrightarrow> \<not> ssid_present present (ssid (cand ! j)) \<or> wm_select_is_deprioritised st (int j) now"
  shows "pick_candidate cand present now st = (st, int i)"
proof -
  have "find_idx (\<lambda>i. ssid_present present (ssid (cand ! i)) \<and> \<not> wm_select_is_deprioritised st (int i) now) [0..<length cand] = Some i"
    using assms(2-5) by (intro find_idx_SomeI) auto
  moreover have "present \<noteq> []" using assms(3) by (auto simp: ssid_present_def)
  ultimately show ?thesis using assms(1) by (simp add: pick_candidate_def wm_select_from_scan_def)
qed

lemma on_fail_simps:
  assumes "i < 6" "length (fails st) = 6"
  shows "fails (wm_select_on_attempt_fail (int i) now st) =
    (fails st)[i := \<lparr>fail_count = (let c = (if memory_live (fails st ! i) now then fail_count (fails st ! i) else 0) in if c < 255 then c + 1 else c),
       last_fail_ms = now\<rparr>]"
    "dep_cursor (wm_select_on_attempt_fail (int i) now st) = dep_cursor st"
  using assms by (simp_all add: wm_select_on_attempt_fail_def wm_index_ok_def Let_def)

section \<open>A third network that is never tried\<close>

text \<open>The loop of the task leaves thirty seconds between two attempts once a few of them have failed, and a scan
  takes three. At that pace the memory of the first network has faded when the second one has had its
  three attempts, so the first two take turns, and a third one that is always there is never
  tried.\<close>

definition three_nets :: "wm_network list" where
  "three_nets = [\<lparr>ssid = ''home'', password = ''a''\<rparr>, \<lparr>ssid = ''work'', password = ''b''\<rparr>, \<lparr>ssid = ''phone'', password = ''c''\<rparr>]"

definition six_rounds :: "u32 \<Rightarrow> wm_round list" where
  "six_rounds t = map (\<lambda>(now, failed). ([''phone'', ''home'', ''work''], t + now, t + failed, WIFI_REASON_OTHER 15))
     [(0, 2000), (33000, 35000), (66000, 68000), (99000, 101000), (132000, 134000), (165000, 167000)]"

fun six_rounds_again :: "nat \<Rightarrow> u32 \<Rightarrow> wm_round list" where
  "six_rounds_again 0 t = []"
| "six_rounds_again (Suc n) t = six_rounds t @ six_rounds_again n (t + 198000)"

definition taking_turns :: "u32 \<Rightarrow> wm_select_state \<Rightarrow> bool" where
  "taking_turns t st \<longleftrightarrow> length (fails st) = 6 \<and> \<not> memory_live (fails st ! 0) t \<and> \<not> memory_live (fails st ! 0) (t + 2000) \<and>
     \<not> memory_live (fails st ! 1) (t + 99000) \<and> \<not> memory_live (fails st ! 1) (t + 101000)"

lemma three_visible: "i < 3 \<Longrightarrow> ssid_present [''phone'', ''home'', ''work''] (ssid (three_nets ! i))"
  by (auto simp: three_nets_def ssid_present_def less_Suc_eq numeral_eq_Suc)

lemma pick_first:
  assumes "length (fails st) = 6" "\<not> (memory_live (fails st ! 0) now \<and> 3 \<le> fail_count (fails st ! 0))"
  shows "pick_candidate three_nets [''phone'', ''home'', ''work''] now st = (st, 0)"
  using pick_clean [of three_nets 0 "[''phone'', ''home'', ''work'']" st now] three_visible [of 0] assms
  by (simp add: depr_iff wm_index_ok_def) (simp add: three_nets_def)

lemma pick_second:
  assumes "length (fails st) = 6" "memory_live (fails st ! 0) now \<and> 3 \<le> fail_count (fails st ! 0)"
    "\<not> (memory_live (fails st ! 1) now \<and> 3 \<le> fail_count (fails st ! 1))"
  shows "pick_candidate three_nets [''phone'', ''home'', ''work''] now st = (st, 1)"
  using pick_clean [of three_nets 1 "[''phone'', ''home'', ''work'']" st now] three_visible [of 1] assms
  by (simp add: depr_iff wm_index_ok_def) (simp add: three_nets_def)

definition bump :: "wm_fail_entry \<Rightarrow> u32 \<Rightarrow> wm_fail_entry" where
  "bump e now = \<lparr>fail_count = (let c = (if memory_live e now then fail_count e else 0) in if c < 255 then c + 1 else c), last_fail_ms = now\<rparr>"

lemma round_first:
  assumes "length rest = 4" "\<not> (memory_live e0 now \<and> 3 \<le> fail_count e0)"
  shows "failing_rounds three_nets (([''phone'', ''home'', ''work''], now, failed, WIFI_REASON_OTHER r) # rs) (st\<lparr>fails := e0 # e1 # rest\<rparr>) =
    map_prod (Cons 0) id (failing_rounds three_nets rs (st\<lparr>fails := bump e0 failed # e1 # rest\<rparr>))"
  using pick_first [of "st\<lparr>fails := e0 # e1 # rest\<rparr>" now] assms
  by (simp add: wm_select_on_attempt_fail_def wm_index_ok_def bump_def Let_def)

lemma round_second:
  assumes "length rest = 4" "memory_live e0 now" "3 \<le> fail_count e0" "\<not> (memory_live e1 now \<and> 3 \<le> fail_count e1)"
  shows "failing_rounds three_nets (([''phone'', ''home'', ''work''], now, failed, WIFI_REASON_OTHER r) # rs) (st\<lparr>fails := e0 # e1 # rest\<rparr>) =
    map_prod (Cons 1) id (failing_rounds three_nets rs (st\<lparr>fails := e0 # bump e1 failed # rest\<rparr>))"
  using pick_second [of "st\<lparr>fails := e0 # e1 # rest\<rparr>" now] assms
  by (simp add: wm_select_on_attempt_fail_def wm_index_ok_def bump_def Let_def)

lemma live_numeral: "memory_live \<lparr>fail_count = c, last_fail_ms = l\<rparr> now \<longleftrightarrow> c > 0 \<and> now - l < 120000"
  by (simp add: memory_live_def)

lemma bump_numeral:
  "bump \<lparr>fail_count = c, last_fail_ms = l\<rparr> now =
     (if c > 0 \<and> now - l < 120000 then \<lparr>fail_count = (if c < 255 then c + 1 else c), last_fail_ms = now\<rparr>
      else \<lparr>fail_count = 1, last_fail_ms = now\<rparr>)"
  by (auto simp: bump_def live_numeral)

lemma bump_faded: "\<not> memory_live e now \<Longrightarrow> bump e now = \<lparr>fail_count = 1, last_fail_ms = now\<rparr>"
  by (simp add: bump_def)

lemma counts_small: "\<not> (3 :: u8) \<le> 1" "\<not> (3 :: u8) \<le> 2"
  by (simp_all add: word_le_nat_alt)

lemma six_rounds_turns:
  assumes "taking_turns t st"
  shows "\<exists>st'. failing_rounds three_nets (six_rounds t) st = ([0, 0, 0, 1, 1, 1], st') \<and> taking_turns (t + 198000) st'"
proof -
  obtain e0 e1 rest where st: "fails st = e0 # e1 # rest" "length rest = 4"
    using assms by (auto simp: taking_turns_def length_Suc_conv numeral_eq_Suc)
  then have same: "st\<lparr>fails := e0 # e1 # rest\<rparr> = st" by simp
  note live = assms [unfolded taking_turns_def st(1)]
  have "failing_rounds three_nets (six_rounds t) (st\<lparr>fails := e0 # e1 # rest\<rparr>) =
    ([0, 0, 0, 1, 1, 1], st\<lparr>fails := \<lparr>fail_count = 3, last_fail_ms = t + 68000\<rparr> # \<lparr>fail_count = 3, last_fail_ms = t + 167000\<rparr> # rest\<rparr>)"
    using live st by (simp add: six_rounds_def round_first round_second bump_faded bump_numeral live_numeral counts_small del: failing_rounds.simps(2))
  moreover have "taking_turns (t + 198000)
      (st\<lparr>fails := \<lparr>fail_count = 3, last_fail_ms = t + 68000\<rparr> # \<lparr>fail_count = 3, last_fail_ms = t + 167000\<rparr> # rest\<rparr>)"
    unfolding taking_turns_def add.assoc using st(2) by (simp add: live_numeral)
  ultimately show ?thesis unfolding same by blast
qed

lemma third_network_starved:
  "taking_turns t st \<Longrightarrow> set (fst (failing_rounds three_nets (six_rounds_again n t) st)) \<subseteq> {0, 1}"
proof (induction n arbitrary: t st)
  case (Suc n)
  obtain st' where "failing_rounds three_nets (six_rounds t) st = ([0, 0, 0, 1, 1, 1], st')" "taking_turns (t + 198000) st'"
    using six_rounds_turns [OF Suc.prems] by blast
  with Suc.IH [of "t + 198000" st'] show ?case by (auto simp: failing_append split: prod.splits)
qed simp

lemma third_network_starved_from_boot:
  "2 \<notin> set (fst (failing_rounds three_nets (six_rounds_again n t) wm_select_init))"
proof -
  have "taking_turns t wm_select_init" by (simp add: taking_turns_def wm_select_init_def memory_live_def numeral_eq_Suc)
  then show ?thesis using third_network_starved [of t wm_select_init n] by auto
qed

text \<open>A network that the scan sees and whose attempts end with "not found" leaves no trace in the
  memory: it is picked again at every reconnect, and the other visible networks are never tried.\<close>

lemma not_found_starves:
  assumes "list_all (\<lambda>(present, now, failed, reason). ssid_present present (ssid (cand ! 0)) \<and> reason = WIFI_REASON_NO_AP_FOUND) rs"
    and "length cand \<ge> 2"
  shows "set (fst (failing_rounds cand rs wm_select_init)) \<subseteq> {0}"
  using assms(1)
proof (induction rs)
  case (Cons r rs)
  obtain present now failed reason where r: "r = (present, now, failed, reason)" by (cases r)
  have "\<not> wm_select_is_deprioritised wm_select_init (int 0) now"
    by (simp add: wm_select_is_deprioritised_def wm_select_fail_count_def wm_index_ok_def wm_select_init_def memory_live_def Let_def)
  then have "pick_candidate cand present now wm_select_init = (wm_select_init, int 0)"
    using Cons.prems assms(2) by (intro pick_clean) (auto simp: r)
  with Cons show ?case by (auto simp: r)
qed simp

section \<open>Attempts close together reach every visible network\<close>

text \<open>How far the rotation is from entry \<open>v\<close>.\<close>

definition dep_dist :: "nat \<Rightarrow> nat \<Rightarrow> wm_select_state \<Rightarrow> nat" where
  "dep_dist n v st = nat ((int v - dep_cursor st - 1) mod int n)"

lemma mod_pred:
  fixes x n :: int
  assumes "x mod n \<noteq> 0" "0 < n"
  shows "(x - 1) mod n = x mod n - 1"
proof -
  have "0 \<le> x mod n" "x mod n < n" using assms(2) by simp_all
  then have "(x mod n - 1) mod n = x mod n - 1" using assms(1) by (intro mod_pos_pos_trivial) linarith+
  then show ?thesis by (simp only: mod_diff_left_eq)
qed

lemma suc_nat_pred: "0 \<le> r \<Longrightarrow> r \<noteq> 0 \<Longrightarrow> Suc (nat (r - 1)) = nat r" for r :: int
  by linarith

lemma cursor_at:
  assumes "v < n"
  shows "(c + 1) mod int n = int v \<longleftrightarrow> (int v - c - 1) mod int n = 0"
proof -
  have "(int v - c - 1) mod int n = 0 \<longleftrightarrow> int v mod int n = (c + 1) mod int n"
    by (metis diff_diff_add mod_eq_dvd_iff dvd_eq_mod_eq_0)
  then show ?thesis using assms by auto
qed

lemma dist_step:
  assumes "v < n" "(dep_cursor st + 1) mod int n \<noteq> int v"
  shows "Suc (dep_dist n v (st\<lparr>dep_cursor := (dep_cursor st + 1) mod int n\<rparr>)) = dep_dist n v st"
proof -
  let ?x = "int v - dep_cursor st - 1"
  have nz: "?x mod int n \<noteq> 0" using assms(2) cursor_at [OF assms(1), of "dep_cursor st"] by simp
  have "(int v - (dep_cursor st + 1) mod int n - 1) mod int n = ((int v - 1) - (dep_cursor st + 1) mod int n) mod int n"
    by (simp only: diff_right_commute)
  also have "\<dots> = (?x - 1) mod int n" unfolding mod_diff_right_eq by (rule arg_cong [where f = "\<lambda>z. z mod int n"]) simp
  also have "\<dots> = ?x mod int n - 1" by (rule mod_pred [OF nz]) (use assms(1) in simp)
  finally have eq: "(int v - (dep_cursor st + 1) mod int n - 1) mod int n = ?x mod int n - 1" .
  have "0 \<le> ?x mod int n" using assms(1) by simp
  from suc_nat_pred [OF this nz] have "Suc (nat ((int v - (dep_cursor st + 1) mod int n - 1) mod int n)) = dep_dist n v st"
    by (simp only: eq dep_dist_def)
  moreover have "dep_cursor (st\<lparr>dep_cursor := c\<rparr>) = c" for c by simp
  ultimately show ?thesis by (simp only: dep_dist_def)
qed

lemma dist_less: "v < n \<Longrightarrow> dep_dist n v st < n"
  by (simp add: dep_dist_def nat_less_iff)

lemma dep_rotate_spec:
  assumes "v < length cand" "ssid_present present (ssid (cand ! v))" "dep_dist (length cand) v st < k"
  shows "\<exists>i < length cand. dep_rotate k cand present st = (st\<lparr>dep_cursor := int i\<rparr>, int i) \<and>
    (i = v \<or> dep_dist (length cand) v (st\<lparr>dep_cursor := int i\<rparr>) < dep_dist (length cand) v st)"
  using assms(3)
proof (induction k arbitrary: st)
  case (Suc k)
  let ?n = "length cand"
  let ?c = "(dep_cursor st + 1) mod int ?n"
  obtain i where i: "?c = int i" "i < ?n" using assms(1) by (metis Euclidean_Rings.pos_mod_bound Euclidean_Rings.pos_mod_sign
        length_greater_0_conv list.size(3) not_less_zero of_nat_0_less_iff of_nat_less_iff zero_le_imp_eq_int)
  show ?case
  proof (cases "i = v")
    case True
    then show ?thesis using assms(1,2) i by (auto simp: Let_def)
  next
    case False
    then have d: "Suc (dep_dist ?n v (st\<lparr>dep_cursor := int i\<rparr>)) = dep_dist ?n v st"
      using dist_step [of v ?n st] assms(1) i(1) by simp
    show ?thesis
    proof (cases "ssid_present present (ssid (cand ! i))")
      case True
      then show ?thesis using i d by (intro exI [of _ i]) (simp add: Let_def)
    next
      case False
      have "dep_dist ?n v (st\<lparr>dep_cursor := int i\<rparr>) < k" using d Suc.prems by simp
      from Suc.IH [OF this] obtain j where j: "j < ?n"
        "dep_rotate k cand present (st\<lparr>dep_cursor := int i\<rparr>) = (st\<lparr>dep_cursor := int j\<rparr>, int j)"
        "j = v \<or> dep_dist ?n v (st\<lparr>dep_cursor := int j\<rparr>) < dep_dist ?n v (st\<lparr>dep_cursor := int i\<rparr>)" by auto
      have "dep_rotate (Suc k) cand present st = (st\<lparr>dep_cursor := int j\<rparr>, int j)" using j(2) i(1) False by (simp add: Let_def)
      then show ?thesis using j(1,3) d by (intro exI [of _ j]) auto
    qed
  qed
qed simp

text \<open>The entries that failed since the start, \<open>c\<close> the time since it; what they can still cost.\<close>

definition failed_since :: "u32 \<Rightarrow> nat \<Rightarrow> nat set \<Rightarrow> wm_select_state \<Rightarrow> bool" where
  "failed_since t0 c S st \<longleftrightarrow> length (fails st) = 6 \<and>
     (\<forall>i \<in> S. i < 6 \<and> 0 < fail_count (fails st ! i) \<and> (\<exists>l \<le> c. last_fail_ms (fails st ! i) = t0 + of_nat l))"

definition tries_left :: "nat set \<Rightarrow> wm_select_state \<Rightarrow> nat \<Rightarrow> nat" where
  "tries_left S st i = (if i \<in> S then 3 - unat (fail_count (fails st ! i)) else 3)"

lemma elapsed:
  assumes "l \<le> a" "a < 120000"
  shows "(t0 + of_nat a) - (t0 + of_nat l) < (120000 :: u32)"
proof -
  have "(t0 + of_nat a) - (t0 + of_nat l) = (of_nat (a - l) :: u32)" using assms by simp
  moreover have "unat (of_nat (a - l) :: u32) = a - l" by (rule unat_of_nat_small) (use assms in simp)
  ultimately show ?thesis using assms by (simp only: word_less_nat_alt) simp
qed

lemma still_live:
  "failed_since t0 c S st \<Longrightarrow> i \<in> S \<Longrightarrow> c \<le> a \<Longrightarrow> a < 120000 \<Longrightarrow> memory_live (fails st ! i) (t0 + of_nat a)"
  using elapsed [of _ a t0] by (fastforce simp: failed_since_def memory_live_def)


lemma depr_in_time:
  assumes "failed_since t0 c S st" "i \<in> S" "c \<le> a" "a < 120000" "\<not> wm_select_is_deprioritised st (int i) (t0 + of_nat a)"
  shows "unat (fail_count (fails st ! i)) < 3"
proof -
  have "wm_index_ok (int i)" using assms(1,2) by (auto simp: failed_since_def wm_index_ok_def)
  then show ?thesis using assms still_live [OF assms(1-4)] by (simp add: depr_iff word_le_nat_alt)
qed

text \<open>A failed attempt of entry \<open>i\<close>: what the entries still can cost gets no more, and less when the entry had
  tries left.\<close>

lemma attempt_costs:
  assumes "failed_since t0 c S st" "c \<le> b" "b < 120000" "i < 6"
  defines "st' \<equiv> wm_select_on_attempt_fail (int i) (t0 + of_nat b) st"
  shows "failed_since t0 b (insert i S) st'" "j \<noteq> i \<Longrightarrow> tries_left (insert i S) st' j = tries_left S st j"
    "tries_left (insert i S) st' i \<le> tries_left S st i"
    "i \<notin> S \<or> unat (fail_count (fails st ! i)) < 3 \<Longrightarrow> tries_left (insert i S) st' i < tries_left S st i"
    "dep_cursor st' = dep_cursor st"
proof -
  let ?e = "fails st ! i" and ?now = "t0 + of_nat b :: u32"
  define c1 where "c1 = (let c = (if memory_live ?e ?now then fail_count ?e else 0) in if c < 255 then c + 1 else c)"
  have len: "length (fails st) = 6" using assms(1) by (simp add: failed_since_def)
  have st': "fails st' = (fails st)[i := \<lparr>fail_count = c1, last_fail_ms = ?now\<rparr>]" "dep_cursor st' = dep_cursor st"
    using on_fail_simps [OF assms(4) len, of ?now] by (simp_all add: st'_def c1_def)
  have c1: "0 < unat c1" "i \<in> S \<Longrightarrow> unat (fail_count ?e) \<le> unat c1" "i \<in> S \<Longrightarrow> unat (fail_count ?e) < 3 \<Longrightarrow> unat (fail_count ?e) < unat c1"
  proof -
    have live: "i \<in> S \<Longrightarrow> memory_live ?e ?now" using still_live [OF assms(1)] assms(2,3) by blast
    have up: "c < 255 \<Longrightarrow> unat (c + 1) = Suc (unat c)" for c :: u8 by (simp add: word_less_nat_alt unat_word_ariths(1))
    have big: "\<not> c < 255 \<Longrightarrow> 3 \<le> unat c" for c :: u8 by (simp add: word_less_nat_alt)
    show "0 < unat c1" using up big [of "fail_count ?e"] by (auto simp: c1_def Let_def)
    show "i \<in> S \<Longrightarrow> unat (fail_count ?e) \<le> unat c1" "i \<in> S \<Longrightarrow> unat (fail_count ?e) < 3 \<Longrightarrow> unat (fail_count ?e) < unat c1"
      using live up big [of "fail_count ?e"] by (auto simp: c1_def Let_def)
  qed
  have "0 < c1" using c1(1) by (simp add: word_less_nat_alt)
  then show "failed_since t0 b (insert i S) st'"
    using assms(1,2,4) len unfolding failed_since_def st'(1) by (auto simp: nth_list_update intro: order_trans)
  show "j \<noteq> i \<Longrightarrow> tries_left (insert i S) st' j = tries_left S st j" by (simp add: tries_left_def st'(1))
  show "tries_left (insert i S) st' i \<le> tries_left S st i"
    "i \<notin> S \<or> unat (fail_count ?e) < 3 \<Longrightarrow> tries_left (insert i S) st' i < tries_left S st i"
    using c1 len assms(4) by (auto simp: tries_left_def st'(1))
  show "dep_cursor st' = dep_cursor st" by (rule st'(2))
qed

definition cost :: "nat \<Rightarrow> nat \<Rightarrow> nat set \<Rightarrow> wm_select_state \<Rightarrow> nat" where
  "cost n v S st = (\<Sum>i \<in> {..<n} - {v}. tries_left S st i) + dep_dist n v st"

lemma cost_bound:
  assumes "v < n"
  shows "cost n v S st \<le> 4 * (n - 1)"
proof -
  have "(\<Sum>i \<in> {..<n} - {v}. tries_left S st i) \<le> (\<Sum>i \<in> {..<n} - {v}. 3)"
    by (rule sum_mono) (simp add: tries_left_def)
  also have "\<dots> = 3 * (n - 1)" using assms by (simp add: card_Diff_singleton)
  finally show ?thesis using dist_less [OF assms, of st] by (simp add: cost_def)
qed

lemma cost_attempt:
  assumes "failed_since t0 c S st" "c \<le> b" "b < 120000" "i < n" "n \<le> 6" "i \<noteq> v"
    and "fails st1 = fails st" "dep_dist n v st1 \<le> dep_dist n v st"
    and "i \<notin> S \<or> unat (fail_count (fails st ! i)) < 3 \<or> dep_dist n v st1 < dep_dist n v st"
  shows "failed_since t0 b (insert i S) (wm_select_on_attempt_fail (int i) (t0 + of_nat b) st1)"
    "cost n v (insert i S) (wm_select_on_attempt_fail (int i) (t0 + of_nat b) st1) < cost n v S st"
proof -
  let ?st' = "wm_select_on_attempt_fail (int i) (t0 + of_nat b) st1"
  have since: "failed_since t0 c S st1" using assms(1,7) by (simp add: failed_since_def)
  have "i < 6" using assms(4,5) by simp
  note step = attempt_costs [OF since assms(2,3) this]
  show "failed_since t0 b (insert i S) ?st'" by (rule step(1))
  have same: "tries_left S st1 = tries_left S st" using assms(7) by (simp add: tries_left_def fun_eq_iff)
  have le: "tries_left (insert i S) ?st' j \<le> tries_left S st j" for j using step(2,3) same by (cases "j = i") simp_all
  have sum_le: "(\<Sum>j \<in> {..<n} - {v}. tries_left (insert i S) ?st' j) \<le> (\<Sum>j \<in> {..<n} - {v}. tries_left S st j)"
    by (rule sum_mono) (rule le)
  have dist: "dep_dist n v ?st' = dep_dist n v st1" using step(5) by (simp add: dep_dist_def)
  show "cost n v (insert i S) ?st' < cost n v S st"
  proof (cases "dep_dist n v st1 < dep_dist n v st")
    case True
    then show ?thesis using sum_le dist by (simp add: cost_def)
  next
    case False
    then have "tries_left (insert i S) ?st' i < tries_left S st i" using step(4) assms(7,9) same by simp
    then have "(\<Sum>j \<in> {..<n} - {v}. tries_left (insert i S) ?st' j) < (\<Sum>j \<in> {..<n} - {v}. tries_left S st j)"
      using le assms(4,6) by (intro sum_strict_mono_ex1) auto
    then show ?thesis using dist assms(8) by (simp add: cost_def)
  qed
qed

lemma round_cost:
  assumes since: "failed_since t0 c S st" and time: "c \<le> a" "a \<le> b" "b < 120000"
    and v: "v < length cand" "length cand \<noteq> 1" "length cand \<le> 6" "ssid_present present (ssid (cand ! v))"
    and pick: "pick_candidate cand present (t0 + of_nat a) st = (st1, p)" "p \<noteq> int v"
  shows "\<exists>S'. failed_since t0 b S' (wm_select_on_attempt_fail p (t0 + of_nat b) st1) \<and>
    cost (length cand) v S' (wm_select_on_attempt_fail p (t0 + of_nat b) st1) < cost (length cand) v S st"
proof -
  let ?now = "t0 + of_nat a :: u32"
  have ne: "present \<noteq> []" using v(4) by (auto simp: ssid_present_def)
  have cb: "c \<le> b" "a < 120000" using time by simp_all
  show ?thesis
  proof (cases "find_idx (\<lambda>i. ssid_present present (ssid (cand ! i)) \<and> \<not> wm_select_is_deprioritised st (int i) ?now) [0..<length cand]")
    case (Some i)
    then have st1: "st1 = st" "p = int i" using pick(1) v(2) ne by (auto simp: pick_candidate_def wm_select_from_scan_def)
    have i: "i < length cand" "\<not> wm_select_is_deprioritised st (int i) ?now"
      using find_idx_SomeD [OF Some] by auto
    have "i \<notin> S \<or> unat (fail_count (fails st ! i)) < 3" using depr_in_time [OF since _ time(1) cb(2) i(2)] by blast
    then show ?thesis using cost_attempt [OF since cb(1) time(3) i(1) v(3), of v st] pick(2) st1 by blast
  next
    case None
    then have rot: "pick_candidate cand present ?now st =
        (case dep_rotate (length cand) cand present st of (st1, pick) \<Rightarrow> if pick < 0 then wm_select_sequential (length cand) ?now st1 else (st1, pick))"
      using v(2) ne by (simp add: pick_candidate_def wm_select_from_scan_def)
    obtain i where i: "i < length cand" "dep_rotate (length cand) cand present st = (st\<lparr>dep_cursor := int i\<rparr>, int i)"
      "i = v \<or> dep_dist (length cand) v (st\<lparr>dep_cursor := int i\<rparr>) < dep_dist (length cand) v st"
      using dep_rotate_spec [OF v(1,4) dist_less [OF v(1)]] by blast
    then have st1: "st1 = st\<lparr>dep_cursor := int i\<rparr>" "p = int i" using rot pick(1) by auto
    then have "i \<noteq> v" "dep_dist (length cand) v st1 < dep_dist (length cand) v st" using i(3) pick(2) by auto
    then show ?thesis using cost_attempt [OF since cb(1) time(3) i(1) v(3), of v st1] st1 by auto
  qed
qed

text \<open>Rounds in the order of time, within the memory of two minutes.\<close>

fun paced :: "nat \<Rightarrow> (string list \<times> nat \<times> nat \<times> wifi_reason) list \<Rightarrow> bool" where
  "paced c [] \<longleftrightarrow> True"
| "paced c ((present, a, b, reason) # rs) \<longleftrightarrow> c \<le> a \<and> a \<le> b \<and> b < 120000 \<and> paced b rs"

definition at_clock :: "u32 \<Rightarrow> (string list \<times> nat \<times> nat \<times> wifi_reason) list \<Rightarrow> wm_round list" where
  "at_clock t0 rs = map (\<lambda>(present, a, b, reason). (present, t0 + of_nat a, t0 + of_nat b, reason)) rs"

lemma tried_in_time:
  assumes "v < length cand" "length cand \<noteq> 1" "length cand \<le> 6" "failed_since t0 c S st" "paced c rs"
    and "list_all (\<lambda>(present, a, b, reason). ssid_present present (ssid (cand ! v)) \<and> attempt_failed_reason reason) rs" "cost (length cand) v S st < length rs"
  shows "int v \<in> set (fst (failing_rounds cand (at_clock t0 rs) st))"
  using assms(4-7)
proof (induction rs arbitrary: c S st)
  case (Cons r rs)
  obtain present a b reason where r: "r = (present, a, b, reason)" by (cases r)
  obtain st1 p where pick: "pick_candidate cand present (t0 + of_nat a) st = (st1, p)" by fastforce
  show ?case
  proof (cases "p = int v")
    case True
    then show ?thesis using pick by (simp add: at_clock_def r)
  next
    case False
    obtain S' where S': "failed_since t0 b S' (wm_select_on_attempt_fail p (t0 + of_nat b) st1)"
      "cost (length cand) v S' (wm_select_on_attempt_fail p (t0 + of_nat b) st1) < cost (length cand) v S st"
      using round_cost [OF Cons.prems(1) _ _ _ assms(1-3) _ pick False, of b] Cons.prems(2,3) by (auto simp: r)
    then show ?thesis using Cons.IH [OF S'(1)] Cons.prems(2-4) pick by (simp add: at_clock_def r)
  qed
qed simp

text \<open>C32. Whatever failed before and whatever networks come and go: a network on the list that
  every scan sees is tried by one of the next 4 n - 3 attempts, n the length of the list,
  when these attempts fail within the two minutes for which a failure is remembered and each
  ends with a disconnect whose reason counts as a failure, that is not with "network not
  found" or a leave of our own (not_found_starves shows that those leave no trace).\<close>

theorem visible_network_tried:
  assumes "v < length cand" "length cand \<le> 6" "length (fails st) = 6" "paced 0 rs" "4 * (length cand - 1) < length rs"
    and "list_all (\<lambda>(present, a, b, reason). ssid_present present (ssid (cand ! v)) \<and> attempt_failed_reason reason) rs"
  shows "int v \<in> set (fst (failing_rounds cand (at_clock t0 rs) st))"
proof (cases "length cand = 1")
  case True
  then obtain r rs' where "rs = r # rs'" using assms(5) by (cases rs) auto
  then show ?thesis using True assms(1)
    by (auto simp: at_clock_def pick_candidate_def split: prod.splits)
next
  case False
  have "failed_since t0 0 {} st" using assms(3) by (simp add: failed_since_def)
  moreover have "cost (length cand) v {} st < length rs" using cost_bound [OF assms(1), of "{}" st] assms(5) by simp
  ultimately show ?thesis using tried_in_time [OF assms(1) False assms(2) _ assms(4,6)] by blast
qed

lemma visible_network_tried_witness:
  "int 2 \<in> set (fst (failing_rounds three_nets (at_clock 4294960000 (map (\<lambda>k. ([''phone'', ''home'', ''work''], k * 13000, k * 13000 + 2000, WIFI_REASON_OTHER 15)) [0..<9])) wm_select_init))"
  by (rule visible_network_tried) (simp_all add: three_nets_def wm_select_init_def upt_rec ssid_present_def)

end
