(* ===== verification/Wifi_Trial.thy ===== *)
theory Wifi_Trial
  imports Prelude
begin

text \<open>
  \<^verbatim>\<open>components/wifi_manager/wifi_manager_trial.c\<close>: the trial of a network with credentials that are not
  saved. The driver's events and a millisecond clock come in, the one action to perform goes out.
\<close>

datatype wm_trial_state = WM_TRIAL_IDLE | WM_TRIAL_LEAVING | WM_TRIAL_CONNECTING | WM_TRIAL_ASSOCIATED | WM_TRIAL_DONE

datatype wm_trial_result = WM_TRIAL_NONE | WM_TRIAL_CONNECTED | WM_TRIAL_PASSWORD | WM_TRIAL_NOT_FOUND | WM_TRIAL_REFUSED
  | WM_TRIAL_NO_IP | WM_TRIAL_TIMEOUT

datatype wm_trial_action = WM_TRIAL_ACT_NONE | WM_TRIAL_ACT_CONNECT | WM_TRIAL_ACT_FINISH

record wm_trial =
  w_state :: wm_trial_state
  w_result :: wm_trial_result
  w_ssid :: string
  w_password :: string
  w_reason :: u8
  w_ip :: string
  w_rssi :: int
  w_channel :: u8
  w_hint :: u8
  w_start :: u32
  w_assoc :: u32
  w_done :: u32

definition wm_trial_init :: wm_trial where
  "wm_trial_init = \<lparr>w_state = WM_TRIAL_IDLE, w_result = WM_TRIAL_NONE, w_ssid = [], w_password = [], w_reason = 0, w_ip = [],
     w_rssi = 0, w_channel = 0, w_hint = 0, w_start = 0, w_assoc = 0, w_done = 0\<rparr>"

definition wm_trial_active :: "wm_trial \<Rightarrow> bool" where
  "wm_trial_active t \<longleftrightarrow> w_state t = WM_TRIAL_LEAVING \<or> w_state t = WM_TRIAL_CONNECTING \<or> w_state t = WM_TRIAL_ASSOCIATED"

definition wm_trial_classify :: "u8 \<Rightarrow> wm_trial_result" where
  "wm_trial_classify reason =
     (if reason = 2 \<or> reason = 15 \<or> reason = 202 \<or> reason = 204 then WM_TRIAL_PASSWORD
      else if reason = 201 then WM_TRIAL_NOT_FOUND
      else WM_TRIAL_REFUSED)"

definition wm_trial_result_name :: "wm_trial_result \<Rightarrow> string" where
  "wm_trial_result_name r =
     (case r of WM_TRIAL_CONNECTED \<Rightarrow> ''connected'' | WM_TRIAL_PASSWORD \<Rightarrow> ''password'' | WM_TRIAL_NOT_FOUND \<Rightarrow> ''not_found''
      | WM_TRIAL_REFUSED \<Rightarrow> ''refused'' | WM_TRIAL_NO_IP \<Rightarrow> ''no_ip'' | WM_TRIAL_TIMEOUT \<Rightarrow> ''timeout'' | WM_TRIAL_NONE \<Rightarrow> ''none'')"

definition wm_trial_state_name :: "wm_trial_state \<Rightarrow> string" where
  "wm_trial_state_name s =
     (case s of WM_TRIAL_LEAVING \<Rightarrow> ''running'' | WM_TRIAL_CONNECTING \<Rightarrow> ''running'' | WM_TRIAL_ASSOCIATED \<Rightarrow> ''running''
      | WM_TRIAL_DONE \<Rightarrow> ''done'' | WM_TRIAL_IDLE \<Rightarrow> ''idle'')"

definition wm_trial_finish :: "wm_trial_result \<Rightarrow> u32 \<Rightarrow> wm_trial \<Rightarrow> wm_trial \<times> wm_trial_action" where
  "wm_trial_finish r now_ms t = (t\<lparr>w_state := WM_TRIAL_DONE, w_result := r, w_done := now_ms\<rparr>, WM_TRIAL_ACT_FINISH)"

definition wm_trial_begin :: "string \<Rightarrow> string \<Rightarrow> u8 \<Rightarrow> bool \<Rightarrow> u32 \<Rightarrow> wm_trial \<Rightarrow> wm_trial \<times> wm_trial_action" where
  "wm_trial_begin ssid password hint sta_busy now_ms t =
     (if wm_trial_active t then (t, WM_TRIAL_ACT_NONE)
      else if length ssid = 0 \<or> length ssid \<ge> 33 \<or> length password \<ge> 65 \<or> (length password \<noteq> 0 \<and> length password < 8)
      then (t, WM_TRIAL_ACT_NONE)
      else
        let t1 = wm_trial_init\<lparr>w_ssid := ssid, w_password := password, w_hint := (if hint \<ge> 1 \<and> hint \<le> 13 then hint else 0),
                               w_start := now_ms\<rparr>
        in if sta_busy then (t1\<lparr>w_state := WM_TRIAL_LEAVING\<rparr>, WM_TRIAL_ACT_NONE)
           else (t1\<lparr>w_state := WM_TRIAL_CONNECTING\<rparr>, WM_TRIAL_ACT_CONNECT))"

definition wm_trial_on_disconnect :: "u8 \<Rightarrow> u32 \<Rightarrow> wm_trial \<Rightarrow> wm_trial \<times> wm_trial_action" where
  "wm_trial_on_disconnect reason now_ms t =
     (case w_state t of
        WM_TRIAL_LEAVING \<Rightarrow> (t\<lparr>w_state := WM_TRIAL_CONNECTING, w_start := now_ms\<rparr>, WM_TRIAL_ACT_CONNECT)
      | WM_TRIAL_CONNECTING \<Rightarrow> wm_trial_finish (wm_trial_classify reason) now_ms (t\<lparr>w_reason := reason\<rparr>)
      | WM_TRIAL_ASSOCIATED \<Rightarrow> wm_trial_finish (wm_trial_classify reason) now_ms (t\<lparr>w_reason := reason\<rparr>)
      | _ \<Rightarrow> (t, WM_TRIAL_ACT_NONE))"

definition wm_trial_on_associated :: "u8 \<Rightarrow> u32 \<Rightarrow> wm_trial \<Rightarrow> wm_trial" where
  "wm_trial_on_associated channel now_ms t =
     (if w_state t = WM_TRIAL_CONNECTING then t\<lparr>w_state := WM_TRIAL_ASSOCIATED, w_channel := channel, w_assoc := now_ms\<rparr> else t)"

definition wm_trial_on_got_ip :: "string \<Rightarrow> int \<Rightarrow> u32 \<Rightarrow> wm_trial \<Rightarrow> wm_trial \<times> wm_trial_action" where
  "wm_trial_on_got_ip ip rssi now_ms t =
     (if w_state t \<noteq> WM_TRIAL_CONNECTING \<and> w_state t \<noteq> WM_TRIAL_ASSOCIATED then (t, WM_TRIAL_ACT_NONE)
      else wm_trial_finish WM_TRIAL_CONNECTED now_ms (t\<lparr>w_ip := take 15 ip, w_rssi := rssi\<rparr>))"

definition wm_trial_tick :: "u32 \<Rightarrow> wm_trial \<Rightarrow> wm_trial \<times> wm_trial_action" where
  "wm_trial_tick now_ms t =
     (case w_state t of
        WM_TRIAL_LEAVING \<Rightarrow>
          if now_ms - w_start t \<ge> 3000 then (t\<lparr>w_state := WM_TRIAL_CONNECTING, w_start := now_ms\<rparr>, WM_TRIAL_ACT_CONNECT)
          else (t, WM_TRIAL_ACT_NONE)
      | WM_TRIAL_DONE \<Rightarrow> (t, WM_TRIAL_ACT_NONE)
      | WM_TRIAL_IDLE \<Rightarrow> (t, WM_TRIAL_ACT_NONE)
      | _ \<Rightarrow>
          if now_ms - w_start t \<ge> 20000 then wm_trial_finish WM_TRIAL_TIMEOUT now_ms t
          else if w_state t = WM_TRIAL_ASSOCIATED \<and> now_ms - w_assoc t \<ge> 8000 then wm_trial_finish WM_TRIAL_NO_IP now_ms t
          else (t, WM_TRIAL_ACT_NONE))"

definition wm_trial_took_ms :: "wm_trial \<Rightarrow> u32" where
  "wm_trial_took_ms t = (if w_state t = WM_TRIAL_DONE then w_done t - w_start t else 0)"

section \<open>A trial ends once\<close>

text \<open>The events of the driver and of the clock, in the order they come in.\<close>

datatype wm_trial_event = WE_Disconnect u8 | WE_Associated u8 | WE_Got_IP string int | WE_Tick

fun wm_trial_step :: "wm_trial_event \<Rightarrow> u32 \<Rightarrow> wm_trial \<Rightarrow> wm_trial \<times> wm_trial_action" where
  "wm_trial_step (WE_Disconnect reason) now t = wm_trial_on_disconnect reason now t"
| "wm_trial_step (WE_Associated channel) now t = (wm_trial_on_associated channel now t, WM_TRIAL_ACT_NONE)"
| "wm_trial_step (WE_Got_IP ip rssi) now t = wm_trial_on_got_ip ip rssi now t"
| "wm_trial_step WE_Tick now t = wm_trial_tick now t"

text \<open>Each event with its time after the begin at \<open>t0\<close>.\<close>

fun wm_trial_run :: "u32 \<Rightarrow> (nat \<times> wm_trial_event) list \<Rightarrow> wm_trial \<Rightarrow> wm_trial \<times> wm_trial_action list" where
  "wm_trial_run t0 [] t = (t, [])"
| "wm_trial_run t0 ((a, e) # es) t =
     (case wm_trial_step e (t0 + of_nat a) t of
        (t1, act) \<Rightarrow> map_prod id (Cons act) (wm_trial_run t0 es t1))"

lemma trial_run_append:
  "wm_trial_run t0 (es @ fs) t =
     (fst (wm_trial_run t0 fs (fst (wm_trial_run t0 es t))),
      snd (wm_trial_run t0 es t) @ snd (wm_trial_run t0 fs (fst (wm_trial_run t0 es t))))"
  by (induction es arbitrary: t) (auto simp: case_prod_unfold map_prod_def)

lemmas trial_ops = wm_trial_on_disconnect_def wm_trial_on_associated_def wm_trial_on_got_ip_def wm_trial_tick_def
  wm_trial_finish_def

text \<open>What an action tells of the states before and after the step.\<close>

definition acts_of :: "wm_trial \<Rightarrow> wm_trial \<Rightarrow> wm_trial_action list" where
  "acts_of t u = (if w_state t = WM_TRIAL_LEAVING \<and> w_state u \<noteq> WM_TRIAL_LEAVING then [WM_TRIAL_ACT_CONNECT] else [])
     @ (if wm_trial_active t \<and> \<not> wm_trial_active u then [WM_TRIAL_ACT_FINISH] else [])"

definition trial_after :: "wm_trial \<Rightarrow> wm_trial \<Rightarrow> bool" where
  "trial_after t u \<longleftrightarrow>
     (if wm_trial_active t then (wm_trial_active u \<or> w_state u = WM_TRIAL_DONE \<and> w_result u \<noteq> WM_TRIAL_NONE)
        \<and> (w_state t \<noteq> WM_TRIAL_LEAVING \<longrightarrow> w_state u \<noteq> WM_TRIAL_LEAVING)
      else u = t)"

lemma classify_not_none [simp]: "wm_trial_classify r \<noteq> WM_TRIAL_NONE" "wm_trial_classify r \<noteq> WM_TRIAL_CONNECTED"
  by (simp_all add: wm_trial_classify_def)

lemma trial_step_acts:
  assumes "wm_trial_step e now t = (u, act)"
  shows "trial_after t u \<and> filter (\<lambda>a. a \<noteq> WM_TRIAL_ACT_NONE) [act] = acts_of t u"
proof -
  have u: "u = fst (wm_trial_step e now t)" and a: "act = snd (wm_trial_step e now t)" using assms by simp_all
  show ?thesis
    unfolding u a
    by (cases e; cases "w_state t"; simp add: trial_ops acts_of_def trial_after_def wm_trial_active_def)
qed

lemma trial_after_refl: "trial_after t t"
  by (simp add: trial_after_def)

lemma acts_of_trans:
  assumes "trial_after t u" "trial_after u v"
  shows "trial_after t v \<and> acts_of t u @ acts_of u v = acts_of t v"
  using assms
  by (cases "w_state t"; cases "w_state u"; simp add: trial_after_def acts_of_def wm_trial_active_def)

lemma trial_run_acts:
  "trial_after t (fst (wm_trial_run t0 es t))
   \<and> filter (\<lambda>a. a \<noteq> WM_TRIAL_ACT_NONE) (snd (wm_trial_run t0 es t)) = acts_of t (fst (wm_trial_run t0 es t))"
proof (induction es arbitrary: t)
  case Nil
  then show ?case by (auto simp: trial_after_refl acts_of_def)
next
  case (Cons x es)
  obtain a e where [simp]: "x = (a, e)" by fastforce
  obtain u act where st: "wm_trial_step e (t0 + of_nat a) t = (u, act)" by fastforce
  have 1: "trial_after t u" "filter (\<lambda>a. a \<noteq> WM_TRIAL_ACT_NONE) [act] = acts_of t u"
    using trial_step_acts [OF st] by auto
  have 2: "filter (\<lambda>a. a \<noteq> WM_TRIAL_ACT_NONE) (act # bs) = acts_of t u @ filter (\<lambda>a. a \<noteq> WM_TRIAL_ACT_NONE) bs" for bs
    unfolding 1(2) [symmetric] by simp
  show ?case
    using acts_of_trans [OF 1(1) Cons.IH [of u, THEN conjunct1]] Cons.IH [of u] 2
    by (simp add: st map_prod_def case_prod_unfold)
qed

text \<open>The attempt counts its time from a point between the begin and now.\<close>

definition trial_clock :: "u32 \<Rightarrow> nat \<Rightarrow> wm_trial \<Rightarrow> bool" where
  "trial_clock t0 a t \<longleftrightarrow>
     (w_state t = WM_TRIAL_LEAVING \<longrightarrow> w_start t = t0) \<and> (\<exists>s\<le>a. w_start t = t0 + of_nat s)"

lemma trial_step_start:
  "w_start (fst (wm_trial_step e now t)) \<in> {w_start t, now}
   \<and> (w_state (fst (wm_trial_step e now t)) = WM_TRIAL_LEAVING \<longrightarrow> fst (wm_trial_step e now t) = t)"
  by (cases e; cases "w_state t"; simp add: trial_ops)

lemma trial_clock_step:
  assumes "trial_clock t0 a t" "a \<le> b"
  shows "trial_clock t0 b (fst (wm_trial_step e (t0 + of_nat b) t))"
proof -
  define now u where "now = t0 + (of_nat b :: u32)" and "u = fst (wm_trial_step e now t)"
  obtain s where s: "s \<le> a" "w_start t = t0 + of_nat s" and l: "w_state t = WM_TRIAL_LEAVING \<Longrightarrow> w_start t = t0"
    using assms(1) unfolding trial_clock_def by blast
  have u: "w_start u = w_start t \<or> w_start u = now" "w_state u = WM_TRIAL_LEAVING \<Longrightarrow> u = t"
    using trial_step_start [of e now t] unfolding u_def by blast+
  have "\<exists>s\<le>b. w_start u = t0 + of_nat s"
  proof (cases "w_start u = now")
    case True
    then show ?thesis unfolding now_def by blast
  next
    case False
    then have "w_start u = t0 + of_nat s" using u(1) s(2) by argo
    then show ?thesis using s(1) assms(2) by (metis le_trans)
  qed
  moreover have "w_state u = WM_TRIAL_LEAVING \<longrightarrow> w_start u = t0" using u(2) l by blast
  ultimately show ?thesis unfolding trial_clock_def u_def now_def by blast
qed

lemma trial_clock_run:
  assumes "trial_clock t0 a t" "sorted (a # map fst es)"
  shows "trial_clock t0 (last (a # map fst es)) (fst (wm_trial_run t0 es t))"
  using assms
proof (induction es arbitrary: a t)
  case (Cons x es)
  obtain b e where [simp]: "x = (b, e)" by fastforce
  have "trial_clock t0 b (fst (wm_trial_step e (t0 + of_nat b) t))"
    using Cons.prems by (auto intro: trial_clock_step)
  from Cons.IH [OF this] Cons.prems show ?case
    by (simp add: case_prod_unfold map_prod_def)
qed simp

lemma offset_reached:
  assumes "s \<le> b" "b < 2 ^ 32" "k \<le> b - s" "k < 2 ^ 32"
  shows "of_nat k \<le> (t0 + of_nat b) - (t0 + of_nat s :: u32)"
proof -
  have "(t0 + of_nat b) - (t0 + of_nat s :: u32) = of_nat (b - s)" using assms(1) by simp
  moreover have "b - s < 2 ^ 32" using assms(2) by simp
  ultimately show ?thesis using assms(3,4) by (simp add: word_le_nat_alt unat_of_nat take_bit_eq_mod)
qed

lemma leave_tick:
  assumes "trial_clock t0 a t" "3000 \<le> b" "b < 2 ^ 32"
  shows "w_state (fst (wm_trial_step WE_Tick (t0 + of_nat b) t)) \<noteq> WM_TRIAL_LEAVING"
proof -
  have "(3000 :: u32) \<le> (t0 + of_nat b) - t0" using offset_reached [of 0 b 3000 t0] assms by simp
  then show ?thesis using assms(1) by (cases "w_state t") (auto simp: trial_ops trial_clock_def)
qed

lemma total_tick:
  assumes "trial_clock t0 a t" "a + 20000 \<le> b" "b < 2 ^ 32" "w_state t \<noteq> WM_TRIAL_LEAVING"
  shows "\<not> wm_trial_active (fst (wm_trial_step WE_Tick (t0 + of_nat b) t))"
proof -
  obtain s where s: "s \<le> a" "w_start t = t0 + of_nat s" using assms(1) by (auto simp: trial_clock_def)
  have "(20000 :: u32) \<le> (t0 + of_nat b) - w_start t" using offset_reached [of s b 20000 t0] assms s by simp
  then show ?thesis using assms(4) by (cases "w_state t") (auto simp: trial_ops wm_trial_active_def)
qed

lemma trial_begun:
  assumes "wm_trial_begin ssid password hint busy t0 t = (u, act)" "\<not> wm_trial_active t" "wm_trial_active u"
  shows "trial_clock t0 0 u" "filter (\<lambda>a. a \<noteq> WM_TRIAL_ACT_NONE) [act] = (if w_state u = WM_TRIAL_LEAVING then [] else [WM_TRIAL_ACT_CONNECT])"
    "w_result u \<noteq> WM_TRIAL_CONNECTED"
  using assms by (auto simp: wm_trial_begin_def wm_trial_init_def trial_clock_def Let_def split: if_splits)

lemma trial_step_kept:
  "w_state t \<noteq> WM_TRIAL_LEAVING \<Longrightarrow>
   w_state (fst (wm_trial_step e now t)) \<noteq> WM_TRIAL_LEAVING \<and> w_start (fst (wm_trial_step e now t)) = w_start t"
  by (cases e; cases "w_state t"; simp add: trial_ops)

lemma trial_run_kept:
  assumes "w_state t \<noteq> WM_TRIAL_LEAVING"
  shows "w_state (fst (wm_trial_run t0 es t)) \<noteq> WM_TRIAL_LEAVING \<and> w_start (fst (wm_trial_run t0 es t)) = w_start t"
  using assms
proof (induction es arbitrary: t)
  case (Cons x es)
  obtain a e where [simp]: "x = (a, e)" by fastforce
  show ?case using trial_step_kept [OF Cons.prems, of e "t0 + of_nat a"] Cons.IH
    by (simp add: case_prod_unfold map_prod_def)
qed simp

lemma trial_run_snoc:
  "fst (wm_trial_run t0 (es @ [(a, e)]) t) = fst (wm_trial_step e (t0 + of_nat a) (fst (wm_trial_run t0 es t)))"
  by (simp add: trial_run_append case_prod_unfold map_prod_def)

text \<open>The first tick after the leave budget finds the trial connecting, the first one after the whole budget ends it.\<close>

lemma trial_past_leaving:
  assumes "trial_clock t0 0 u" "sorted (map fst (es @ [(a, WE_Tick)]))" "3000 \<le> a" "a < 2 ^ 32"
  shows "w_state (fst (wm_trial_run t0 (es @ [(a, WE_Tick)]) u)) \<noteq> WM_TRIAL_LEAVING
    \<and> trial_clock t0 a (fst (wm_trial_run t0 (es @ [(a, WE_Tick)]) u))"
proof -
  have so: "sorted (0 # map fst es)" "sorted (0 # map fst (es @ [(a, WE_Tick)]))"
    using assms(2) by (auto simp: sorted_append)
  show ?thesis
    using leave_tick [OF trial_clock_run [OF assms(1) so(1)] assms(3,4)] trial_clock_run [OF assms(1) so(2)]
    by (simp add: trial_run_snoc)
qed

lemma trial_past_total:
  assumes "trial_clock t0 a v" "w_state v \<noteq> WM_TRIAL_LEAVING" "a + 20000 \<le> b" "b < 2 ^ 32"
  shows "\<not> wm_trial_active (fst (wm_trial_run t0 (es @ [(b, WE_Tick)]) v))"
proof -
  have k: "w_state (fst (wm_trial_run t0 es v)) \<noteq> WM_TRIAL_LEAVING" "w_start (fst (wm_trial_run t0 es v)) = w_start v"
    using trial_run_kept [OF assms(2)] by blast+
  have "trial_clock t0 a (fst (wm_trial_run t0 es v))"
    using assms(1) k by (simp add: trial_clock_def)
  from total_tick [OF this assms(3,4) k(1)] show ?thesis by (simp add: trial_run_snoc)
qed

text \<open>A trial that says connected got the address it reports.\<close>

lemma trial_step_connected:
  assumes "wm_trial_active t" "w_result (fst (wm_trial_step e now t)) = WM_TRIAL_CONNECTED" "w_result t \<noteq> WM_TRIAL_CONNECTED"
  shows "\<not> wm_trial_active (fst (wm_trial_step e now t))
    \<and> (\<exists>ip rssi. e = WE_Got_IP ip rssi \<and> w_ip (fst (wm_trial_step e now t)) = take 15 ip)"
  using assms by (cases e; cases "w_state t"; auto simp: trial_ops wm_trial_active_def split: if_splits)

lemma trial_run_connected:
  assumes "w_result t \<noteq> WM_TRIAL_CONNECTED" "w_result (fst (wm_trial_run t0 es t)) = WM_TRIAL_CONNECTED"
  shows "\<exists>a ip rssi. (a, WE_Got_IP ip rssi) \<in> set es \<and> w_ip (fst (wm_trial_run t0 es t)) = take 15 ip"
  using assms
proof (induction es arbitrary: t)
  case (Cons x es)
  obtain a e where [simp]: "x = (a, e)" by fastforce
  define u where "u = fst (wm_trial_step e (t0 + of_nat a) t)"
  have r: "fst (wm_trial_run t0 (x # es) t) = fst (wm_trial_run t0 es u)"
    by (simp add: u_def case_prod_unfold map_prod_def)
  show ?case
  proof (cases "w_result u = WM_TRIAL_CONNECTED")
    case True
    have "trial_after t u"
      using trial_step_acts [of e "t0 + of_nat a" t] unfolding u_def by (metis prod.collapse)
    then have "wm_trial_active t" using True Cons.prems(1) by (metis trial_after_def)
    from trial_step_connected [OF this, of e "t0 + of_nat a"] True Cons.prems(1)
    obtain ip rssi where "\<not> wm_trial_active u" "e = WE_Got_IP ip rssi" "w_ip u = take 15 ip"
      unfolding u_def by blast
    moreover from this(1) have "fst (wm_trial_run t0 es u) = u"
      using trial_run_acts [of u t0 es] by (simp only: trial_after_def if_False)
    ultimately show ?thesis unfolding r by auto
  next
    case False
    show ?thesis using Cons.IH [OF False] Cons.prems(2) unfolding r by auto
  qed
qed simp

text \<open>C33. A trial that has begun is over once a tick came three seconds after the begin and
  another one twenty seconds after that, whatever the driver reports in between: it
  connected once and finished once, in this order, with a result, and the result is success
  only when an address was given, which it reports.\<close>

theorem trial_ends:
  assumes "wm_trial_begin ssid password hint busy t0 t = (u, act)" "\<not> wm_trial_active t" "wm_trial_active u"
    and "es = es1 @ (\<tau>1, WE_Tick) # es2 @ (\<tau>2, WE_Tick) # es3"
    and "sorted (map fst es)" "\<forall>x\<in>set es. fst x < 2 ^ 32" "3000 \<le> \<tau>1" "\<tau>1 + 20000 \<le> \<tau>2"
  shows "w_state (fst (wm_trial_run t0 es u)) = WM_TRIAL_DONE
    \<and> w_result (fst (wm_trial_run t0 es u)) \<noteq> WM_TRIAL_NONE
    \<and> filter (\<lambda>a. a \<noteq> WM_TRIAL_ACT_NONE) (act # snd (wm_trial_run t0 es u)) = [WM_TRIAL_ACT_CONNECT, WM_TRIAL_ACT_FINISH]
    \<and> (w_result (fst (wm_trial_run t0 es u)) = WM_TRIAL_CONNECTED \<longrightarrow>
         (\<exists>a ip rssi. (a, WE_Got_IP ip rssi) \<in> set es \<and> w_ip (fst (wm_trial_run t0 es u)) = take 15 ip))"
proof -
  let ?v = "fst (wm_trial_run t0 (es1 @ [(\<tau>1, WE_Tick)]) u)"
  let ?x = "fst (wm_trial_run t0 (es2 @ [(\<tau>2, WE_Tick)]) ?v)"
  define z where "z = fst (wm_trial_run t0 es u)"
  have es: "es = (es1 @ [(\<tau>1, WE_Tick)]) @ (es2 @ [(\<tau>2, WE_Tick)]) @ es3" using assms(4) by simp
  have lt: "\<tau>1 < 2 ^ 32" "\<tau>2 < 2 ^ 32" using assms(6) unfolding assms(4) by auto
  have so: "sorted (map fst (es1 @ [(\<tau>1, WE_Tick)]))" using assms(5) unfolding assms(4) by (auto simp: sorted_append)
  have v: "w_state ?v \<noteq> WM_TRIAL_LEAVING" "trial_clock t0 \<tau>1 ?v"
    using trial_past_leaving [OF trial_begun(1) [OF assms(1-3)] so assms(7) lt(1)] by blast+
  have x: "\<not> wm_trial_active ?x" by (rule trial_past_total [OF v(2,1) assms(8) lt(2)])
  have "z = fst (wm_trial_run t0 es3 ?x)" unfolding z_def es by (simp only: trial_run_append fst_conv)
  then have "z = ?x" using x trial_run_acts [of ?x t0 es3] by (simp only: trial_after_def if_False)
  then have nz: "\<not> wm_trial_active z" using x by simp
  have az: "trial_after u z" "filter (\<lambda>a. a \<noteq> WM_TRIAL_ACT_NONE) (snd (wm_trial_run t0 es u)) = acts_of u z"
    using trial_run_acts [of u t0 es] unfolding z_def by blast+
  have fin: "w_state z = WM_TRIAL_DONE" "w_result z \<noteq> WM_TRIAL_NONE"
    using az(1) nz assms(3) by (auto simp: trial_after_def)
  have "filter (\<lambda>a. a \<noteq> WM_TRIAL_ACT_NONE) (act # bs) = filter (\<lambda>a. a \<noteq> WM_TRIAL_ACT_NONE) [act]
      @ filter (\<lambda>a. a \<noteq> WM_TRIAL_ACT_NONE) bs" for bs by simp
  then have "filter (\<lambda>a. a \<noteq> WM_TRIAL_ACT_NONE) (act # snd (wm_trial_run t0 es u))
      = (if w_state u = WM_TRIAL_LEAVING then [] else [WM_TRIAL_ACT_CONNECT]) @ acts_of u z"
    using az(2) trial_begun(2) [OF assms(1-3)] by metis
  also have "\<dots> = [WM_TRIAL_ACT_CONNECT, WM_TRIAL_ACT_FINISH]"
    using fin(1) nz assms(3) by (simp add: acts_of_def)
  finally show ?thesis
    using fin trial_run_connected [of u t0 es, OF trial_begun(3) [OF assms(1-3)]] unfolding z_def by blast
qed

theorem trial_ends_witness:
  "w_state (fst (wm_trial_run 4294967000 [(500, WE_Disconnect 8), (900, WE_Associated 6), (3000, WE_Tick), (23000, WE_Tick)]
     (fst (wm_trial_begin ''Home'' ''secret12'' 6 True 4294967000 wm_trial_init)))) = WM_TRIAL_DONE"
proof -
  let ?b = "wm_trial_begin ''Home'' ''secret12'' 6 True 4294967000 wm_trial_init"
  have "?b = (fst ?b, snd ?b)" by simp
  from trial_ends [OF this, of "[(500, WE_Disconnect 8), (900, WE_Associated 6), (3000, WE_Tick), (23000, WE_Tick)]"
      "[(500, WE_Disconnect 8), (900, WE_Associated 6)]" 3000 "[]" 23000 "[]"]
  show ?thesis by (simp add: wm_trial_begin_def wm_trial_init_def wm_trial_active_def)
qed

end
