(* ===== verification/Multipart_Parser.thy ===== *)
theory Multipart_Parser
  imports Prelude "HOL-Library.Sublist"
begin

text \<open>
  \<^verbatim>\<open>components/multipart_upload/multipart_parser.c\<close>: the parser of a \<^verbatim>\<open>multipart/form-data\<close> body. It takes
  the body in pieces and calls back with the pieces of the names, values and data it finds. The last part
  shows that how a body is cut does not matter, and what a body made of parts gives.
\<close>

section \<open>The parser\<close>

datatype mp_state = s_uninitialized | s_start | s_start_boundary | s_header_field_start | s_header_field | s_headers_almost_done
  | s_header_value_start | s_header_value | s_header_value_almost_done | s_part_data_start | s_part_data
  | s_part_data_almost_boundary | s_part_data_boundary | s_part_data_almost_end | s_part_data_end
  | s_part_data_final_hyphen | s_end

text \<open>The calls of the parser; a callback answers whether it returned 0. An entry of the settings that is
  NULL is one that does nothing and returns 0.\<close>

datatype mp_event = On_part_data_begin | On_header_field bytes | On_header_value bytes | On_headers_complete
  | On_part_data bytes | On_part_data_end | On_body_end

type_synonym 's multipart_parser_settings = "mp_event \<Rightarrow> 's \<Rightarrow> 's \<times> bool"

text \<open>\<open>boundary_length\<close> is the length of the text; the byte after it in memory is its NUL. What an
  empty boundary makes the parser read behind that NUL is left open.\<close>

record multipart_parser =
  mp_index :: nat
  mp_state :: mp_state
  mp_lookbehind :: bytes
  multipart_boundary :: bytes

definition multipart_parser_init :: "bytes \<Rightarrow> multipart_parser" where
  "multipart_parser_init boundary = \<lparr>mp_index = 0, mp_state = s_start, mp_lookbehind = replicate (length boundary + 8) 0,
     multipart_boundary = boundary\<rparr>"

abbreviation (input) LF :: u8 where "LF \<equiv> 10"
abbreviation (input) CR :: u8 where "CR \<equiv> 13"

definition boundary_byte :: "multipart_parser \<Rightarrow> u8" where
  "boundary_byte p = (multipart_boundary p @ [0]) ! mp_index p"

definition slice :: "nat \<Rightarrow> nat \<Rightarrow> bytes \<Rightarrow> bytes" where
  "slice a b buf = take (b - a) (drop a buf)"

text \<open>The rest of an iteration: the loop goes on with another \<open>mark\<close> and \<open>i\<close>, or the function returns.\<close>

datatype 's mp_out = Mp_next multipart_parser 's nat nat | Mp_return multipart_parser 's nat

definition mp_notify :: "'s multipart_parser_settings \<Rightarrow> mp_event \<Rightarrow> multipart_parser \<Rightarrow> 's \<Rightarrow> nat \<Rightarrow> ('s \<Rightarrow> 's mp_out) \<Rightarrow> 's mp_out" where
  "mp_notify cb e p s i k = (case cb e s of (s1, ok) \<Rightarrow> if ok then k s1 else Mp_return p s1 i)"

definition mp_start_boundary :: "'s multipart_parser_settings \<Rightarrow> u8 \<Rightarrow> nat \<Rightarrow> nat \<Rightarrow> multipart_parser \<Rightarrow> 's \<Rightarrow> 's mp_out" where
  "mp_start_boundary cb c mark i p s =
     (if mp_index p = length (multipart_boundary p) then
        if c \<noteq> CR then Mp_return p s i else Mp_next (p\<lparr>mp_index := mp_index p + 1\<rparr>) s mark (i + 1)
      else if mp_index p = length (multipart_boundary p) + 1 then
        if c \<noteq> LF then Mp_return p s i
        else mp_notify cb On_part_data_begin (p\<lparr>mp_index := 0\<rparr>) s i
          (\<lambda>s. Mp_next (p\<lparr>mp_index := 0, mp_state := s_header_field_start\<rparr>) s mark (i + 1))
      else if c \<noteq> boundary_byte p then Mp_return p s i
      else Mp_next (p\<lparr>mp_index := mp_index p + 1\<rparr>) s mark (i + 1))"

definition lower_letter :: "u8 \<Rightarrow> bool" where
  "lower_letter c \<longleftrightarrow> (let cl = (if 65 \<le> c \<and> c \<le> 90 then c + 32 else c) in 97 \<le> cl \<and> cl \<le> 122)"

definition mp_header_field :: "'s multipart_parser_settings \<Rightarrow> bytes \<Rightarrow> u8 \<Rightarrow> nat \<Rightarrow> nat \<Rightarrow> multipart_parser \<Rightarrow> 's \<Rightarrow> 's mp_out" where
  "mp_header_field cb buf c mark i p s =
     (if c = CR then Mp_next (p\<lparr>mp_state := s_headers_almost_done\<rparr>) s mark (i + 1)
      else if c = 58 then
        mp_notify cb (On_header_field (slice mark i buf)) p s i (\<lambda>s. Mp_next (p\<lparr>mp_state := s_header_value_start\<rparr>) s mark (i + 1))
      else if c \<noteq> 45 \<and> \<not> lower_letter c then Mp_return p s i
      else if i = length buf - 1 then
        mp_notify cb (On_header_field (slice mark (i + 1) buf)) p s i (\<lambda>s. Mp_next p s mark (i + 1))
      else Mp_next p s mark (i + 1))"

definition mp_header_value :: "'s multipart_parser_settings \<Rightarrow> bytes \<Rightarrow> u8 \<Rightarrow> nat \<Rightarrow> nat \<Rightarrow> multipart_parser \<Rightarrow> 's \<Rightarrow> 's mp_out" where
  "mp_header_value cb buf c mark i p s =
     (if c = CR then
        mp_notify cb (On_header_value (slice mark i buf)) p s i (\<lambda>s. Mp_next (p\<lparr>mp_state := s_header_value_almost_done\<rparr>) s mark (i + 1))
      else if i = length buf - 1 then
        mp_notify cb (On_header_value (slice mark (i + 1) buf)) p s i (\<lambda>s. Mp_next p s mark (i + 1))
      else Mp_next p s mark (i + 1))"

definition mp_part_data :: "'s multipart_parser_settings \<Rightarrow> bytes \<Rightarrow> u8 \<Rightarrow> nat \<Rightarrow> nat \<Rightarrow> multipart_parser \<Rightarrow> 's \<Rightarrow> 's mp_out" where
  "mp_part_data cb buf c mark i p s =
     (if c = CR then
        mp_notify cb (On_part_data (slice mark i buf)) p s i
          (\<lambda>s. Mp_next (p\<lparr>mp_state := s_part_data_almost_boundary, mp_lookbehind := (mp_lookbehind p)[0 := CR]\<rparr>) s i (i + 1))
      else if i = length buf - 1 then
        mp_notify cb (On_part_data (slice mark (i + 1) buf)) p s i (\<lambda>s. Mp_next p s mark (i + 1))
      else Mp_next p s mark (i + 1))"

text \<open>Where the data goes on after all, the byte is read again as data: \<open>mark = i --\<close> before \<open>++ i\<close>.\<close>

definition mp_almost_boundary :: "'s multipart_parser_settings \<Rightarrow> u8 \<Rightarrow> nat \<Rightarrow> nat \<Rightarrow> multipart_parser \<Rightarrow> 's \<Rightarrow> 's mp_out" where
  "mp_almost_boundary cb c mark i p s =
     (if c = LF then
        Mp_next (p\<lparr>mp_state := s_part_data_boundary, mp_lookbehind := (mp_lookbehind p)[1 := LF], mp_index := 0\<rparr>) s mark (i + 1)
      else mp_notify cb (On_part_data (take 1 (mp_lookbehind p))) p s i (\<lambda>s. Mp_next (p\<lparr>mp_state := s_part_data\<rparr>) s i i))"

definition mp_boundary :: "'s multipart_parser_settings \<Rightarrow> u8 \<Rightarrow> nat \<Rightarrow> nat \<Rightarrow> multipart_parser \<Rightarrow> 's \<Rightarrow> 's mp_out" where
  "mp_boundary cb c mark i p s =
     (if boundary_byte p \<noteq> c then
        mp_notify cb (On_part_data (take (2 + mp_index p) (mp_lookbehind p))) p s i
          (\<lambda>s. Mp_next (p\<lparr>mp_state := s_part_data\<rparr>) s i i)
      else
        let p1 = p\<lparr>mp_lookbehind := (mp_lookbehind p)[2 + mp_index p := c], mp_index := mp_index p + 1\<rparr> in
        if mp_index p1 = length (multipart_boundary p) then
          mp_notify cb On_part_data_end p1 s i (\<lambda>s. Mp_next (p1\<lparr>mp_state := s_part_data_almost_end\<rparr>) s mark (i + 1))
        else Mp_next p1 s mark (i + 1))"

definition mp_byte :: "'s multipart_parser_settings \<Rightarrow> bytes \<Rightarrow> nat \<Rightarrow> nat \<Rightarrow> multipart_parser \<Rightarrow> 's \<Rightarrow> 's mp_out" where
  "mp_byte cb buf mark i p s =
     (let c = buf ! i in
      case mp_state p of
        s_start \<Rightarrow> mp_start_boundary cb c mark i (p\<lparr>mp_index := 0, mp_state := s_start_boundary\<rparr>) s
      | s_start_boundary \<Rightarrow> mp_start_boundary cb c mark i p s
      | s_header_field_start \<Rightarrow> mp_header_field cb buf c i i (p\<lparr>mp_state := s_header_field\<rparr>) s
      | s_header_field \<Rightarrow> mp_header_field cb buf c mark i p s
      | s_headers_almost_done \<Rightarrow>
          if c \<noteq> LF then Mp_return p s i else Mp_next (p\<lparr>mp_state := s_part_data_start\<rparr>) s mark (i + 1)
      | s_header_value_start \<Rightarrow>
          if c = 32 then Mp_next p s mark (i + 1) else mp_header_value cb buf c i i (p\<lparr>mp_state := s_header_value\<rparr>) s
      | s_header_value \<Rightarrow> mp_header_value cb buf c mark i p s
      | s_header_value_almost_done \<Rightarrow>
          if c \<noteq> LF then Mp_return p s i else Mp_next (p\<lparr>mp_state := s_header_field_start\<rparr>) s mark (i + 1)
      | s_part_data_start \<Rightarrow>
          mp_notify cb On_headers_complete p s i (\<lambda>s. mp_part_data cb buf c i i (p\<lparr>mp_state := s_part_data\<rparr>) s)
      | s_part_data \<Rightarrow> mp_part_data cb buf c mark i p s
      | s_part_data_almost_boundary \<Rightarrow> mp_almost_boundary cb c mark i p s
      | s_part_data_boundary \<Rightarrow> mp_boundary cb c mark i p s
      | s_part_data_almost_end \<Rightarrow>
          if c = 45 then Mp_next (p\<lparr>mp_state := s_part_data_final_hyphen\<rparr>) s mark (i + 1)
          else if c = CR then Mp_next (p\<lparr>mp_state := s_part_data_end\<rparr>) s mark (i + 1)
          else Mp_return p s i
      | s_part_data_final_hyphen \<Rightarrow>
          if c = 45 then mp_notify cb On_body_end p s i (\<lambda>s. Mp_next (p\<lparr>mp_state := s_end\<rparr>) s mark (i + 1))
          else Mp_return p s i
      | s_part_data_end \<Rightarrow>
          if c = LF then
            mp_notify cb On_part_data_begin (p\<lparr>mp_state := s_header_field_start\<rparr>) s i
              (\<lambda>s. Mp_next (p\<lparr>mp_state := s_header_field_start\<rparr>) s mark (i + 1))
          else Mp_return p s i
      | s_end \<Rightarrow> Mp_next p s mark (i + 1)
      | s_uninitialized \<Rightarrow> Mp_return p s 0)"

lemmas mp_states = mp_start_boundary_def mp_header_field_def mp_header_value_def mp_part_data_def mp_almost_boundary_def
  mp_boundary_def

text \<open>The loop ends: a byte that is read again is read as data, which moves on.\<close>

definition mp_rest :: "bytes \<Rightarrow> nat \<Rightarrow> multipart_parser \<Rightarrow> nat" where
  "mp_rest buf i p = 2 * (length buf - i) + (if mp_state p = s_part_data_almost_boundary \<or> mp_state p = s_part_data_boundary then 1 else 0)"

lemma notify_next:
  "mp_notify cb e p s i k = Mp_next p1 s1 m1 i1 \<longleftrightarrow> (\<exists>s2. cb e s = (s2, True) \<and> k s2 = Mp_next p1 s1 m1 i1)"
  by (auto simp: mp_notify_def split: prod.splits if_splits)

lemma mp_rest_less:
  assumes "mp_byte cb buf mark i p s = Mp_next p1 s1 mark1 i1" "i < length buf"
  shows "mp_rest buf i1 p1 < mp_rest buf i p"
  using assms by (cases "mp_state p"; auto simp: mp_byte_def mp_states mp_rest_def notify_next Let_def split: if_splits)

function multipart_parser_loop :: "'s multipart_parser_settings \<Rightarrow> bytes \<Rightarrow> nat \<Rightarrow> nat \<Rightarrow> multipart_parser \<Rightarrow> 's \<Rightarrow> (multipart_parser \<times> 's) \<times> nat" where
  "multipart_parser_loop cb buf mark i p s =
     (if i < length buf then
        case mp_byte cb buf mark i p s of
          Mp_next p1 s1 mark1 i1 \<Rightarrow> multipart_parser_loop cb buf mark1 i1 p1 s1
        | Mp_return p1 s1 n \<Rightarrow> ((p1, s1), n)
      else ((p, s), length buf))"
  by pat_completeness auto
termination
  by (relation "measure (\<lambda>(cb, buf, mark, i, p, s). mp_rest buf i p)") (auto dest: mp_rest_less)

declare multipart_parser_loop.simps [simp del]

definition multipart_parser_execute :: "'s multipart_parser_settings \<Rightarrow> bytes \<Rightarrow> multipart_parser \<times> 's \<Rightarrow> (multipart_parser \<times> 's) \<times> nat" where
  "multipart_parser_execute cb buf st = (case st of (p, s) \<Rightarrow> multipart_parser_loop cb buf 0 0 p s)"

section \<open>The calls of a body, whatever the cuts\<close>

text \<open>The calls made, as a list; a handler is run on them.\<close>

definition log_calls :: "mp_event list multipart_parser_settings" where
  "log_calls e l = (l @ [e], True)"

fun replay :: "'s multipart_parser_settings \<Rightarrow> mp_event list \<Rightarrow> 's \<Rightarrow> 's \<times> bool" where
  "replay cb [] s = (s, True)"
| "replay cb (e # es) s = (case cb e s of (s1, ok) \<Rightarrow> if ok then replay cb es s1 else (s1, False))"

lemma replay_append:
  "replay cb (es @ fs) s = (case replay cb es s of (s1, ok) \<Rightarrow> if ok then replay cb fs s1 else (s1, False))"
  by (induction es arbitrary: s) (auto split: prod.splits)

text \<open>Code that goes on when its calls are logged goes on for every handler that answers them with 0.\<close>

definition tracks :: "(mp_event list \<Rightarrow> mp_event list mp_out) \<Rightarrow> ('s multipart_parser_settings \<Rightarrow> 's \<Rightarrow> 's mp_out) \<Rightarrow> bool" where
  "tracks H G \<longleftrightarrow> (\<forall>l p m i l1. H l = Mp_next p l1 m i \<longrightarrow>
     (\<exists>es. l1 = l @ es \<and> (\<forall>cb s s1. replay cb es s = (s1, True) \<longrightarrow> G cb s = Mp_next p s1 m i)))"

lemma tracks_next: "tracks (\<lambda>l. Mp_next p l m i) (\<lambda>cb s. Mp_next p s m i)"
  by (simp add: tracks_def)

lemma tracks_return: "tracks (\<lambda>l. Mp_return p l n) G"
  by (simp add: tracks_def)

lemma tracks_if:
  "(b \<Longrightarrow> tracks A A') \<Longrightarrow> (\<not> b \<Longrightarrow> tracks B B') \<Longrightarrow> tracks (\<lambda>l. if b then A l else B l) (\<lambda>cb s. if b then A' cb s else B' cb s)"
  by (cases b) simp_all

lemma tracks_notify:
  assumes "tracks K G"
  shows "tracks (\<lambda>l. mp_notify log_calls e p l i K) (\<lambda>cb s. mp_notify cb e p s i (G cb))"
  unfolding tracks_def
proof (intro allI impI)
  fix l q m j l1
  assume "mp_notify log_calls e p l i K = Mp_next q l1 m j"
  then have "K (l @ [e]) = Mp_next q l1 m j" by (simp add: mp_notify_def log_calls_def)
  then obtain es where es: "l1 = (l @ [e]) @ es" "\<And>cb s s1. replay cb es s = (s1, True) \<Longrightarrow> G cb s = Mp_next q s1 m j"
    using assms unfolding tracks_def by blast
  have "mp_notify cb e p s i (G cb) = Mp_next q s1 m j" if "replay cb (e # es) s = (s1, True)" for cb s s1
    using that es(2) by (auto simp: mp_notify_def split: prod.splits if_splits)
  then show "\<exists>es. l1 = l @ es \<and> (\<forall>cb s s1. replay cb es s = (s1, True) \<longrightarrow> mp_notify cb e p s i (G cb) = Mp_next q s1 m j)"
    using es(1) by (intro exI [of _ "e # es"]) simp
qed

lemmas tracks_intros = tracks_next tracks_return tracks_if tracks_notify

lemma byte_tracks: "tracks (mp_byte log_calls buf mark i p) (\<lambda>cb. mp_byte cb buf mark i p)"
  unfolding mp_byte_def mp_states Let_def
  by (cases "mp_state p"; simp only: mp_state.case; intro tracks_intros)

lemma byte_replay:
  assumes "mp_byte log_calls buf mark i p l = Mp_next p1 l1 m1 i1"
  shows "\<exists>es. l1 = l @ es \<and> (\<forall>cb (s :: 's) s1. replay cb es s = (s1, True) \<longrightarrow> mp_byte cb buf mark i p s = Mp_next p1 s1 m1 i1)"
  using byte_tracks assms unfolding tracks_def by blast

lemma return_before:
  assumes "mp_byte cb buf mark i p s = Mp_return p1 s1 n"
  shows "n \<le> i"
  using assms
  by (cases "mp_state p"; auto simp: mp_byte_def mp_states mp_notify_def Let_def split: if_splits prod.splits)

lemma loop_replay:
  assumes "multipart_parser_loop log_calls buf mark i p l = ((p1, l1), length buf)"
  shows "\<exists>es. l1 = l @ es \<and>
    (\<forall>cb (s :: 's) s1. replay cb es s = (s1, True) \<longrightarrow> multipart_parser_loop cb buf mark i p s = ((p1, s1), length buf))"
  using assms
proof (induction "log_calls" buf mark i p l rule: multipart_parser_loop.induct)
  case (1 buf mark i p l)
  show ?case
  proof (cases "i < length buf")
    case False
    then show ?thesis using "1.prems" by (intro exI [of _ "[]"]) (simp add: multipart_parser_loop.simps)
  next
    case True
    show ?thesis
    proof (cases "mp_byte log_calls buf mark i p l")
      case (Mp_return q t n)
      then have "n = length buf" using "1.prems" True by (simp add: multipart_parser_loop.simps)
      then show ?thesis using return_before [OF Mp_return] True by simp
    next
      case (Mp_next q l2 m2 i2)
      obtain es where es: "l2 = l @ es"
        "\<And>cb (s :: 's) s1. replay cb es s = (s1, True) \<Longrightarrow> mp_byte cb buf mark i p s = Mp_next q s1 m2 i2"
        using byte_replay [OF Mp_next] by blast
      have "multipart_parser_loop log_calls buf m2 i2 q l2 = ((p1, l1), length buf)"
        using "1.prems" True Mp_next by (simp add: multipart_parser_loop.simps [of _ buf mark])
      from "1.hyps" [OF True Mp_next this] obtain fs where fs: "l1 = l2 @ fs"
        "\<And>cb (s :: 's) s1. replay cb fs s = (s1, True) \<Longrightarrow> multipart_parser_loop cb buf m2 i2 q s = ((p1, s1), length buf)"
        by blast
      have "multipart_parser_loop cb buf mark i p s = ((p1, s1), length buf)" if "replay cb (es @ fs) s = (s1, True)"
        for cb and s s1 :: 's
        using that es(2) fs(2) True
        by (auto simp: replay_append multipart_parser_loop.simps [of _ buf mark] split: prod.splits if_splits)
      then show ?thesis using es(1) fs(1) by (intro exI [of _ "es @ fs"]) simp
    qed
  qed
qed

text \<open>Calls with pieces of one text in a row come to the same as one call with the whole text.\<close>

fun same_call :: "mp_event \<Rightarrow> mp_event \<Rightarrow> mp_event option" where
  "same_call (On_header_field xs) (On_header_field ys) = Some (On_header_field (xs @ ys))"
| "same_call (On_header_value xs) (On_header_value ys) = Some (On_header_value (xs @ ys))"
| "same_call (On_part_data xs) (On_part_data ys) = Some (On_part_data (xs @ ys))"
| "same_call _ _ = None"

definition add_call :: "mp_event \<Rightarrow> mp_event list \<Rightarrow> mp_event list" where
  "add_call e l = (case l of [] \<Rightarrow> [e] | f # fs \<Rightarrow> (case same_call e f of Some g \<Rightarrow> g # fs | None \<Rightarrow> e # f # fs))"

definition merged :: "mp_event list \<Rightarrow> mp_event list" where
  "merged l = foldr add_call l []"

lemma add_call_merge: "same_call e f = Some g \<Longrightarrow> add_call e (add_call f l) = add_call g l"
  by (cases l; cases "hd l"; cases e; cases f; auto simp: add_call_def)

lemma foldr_add_call: "foldr add_call (add_call e l) r = add_call e (foldr add_call l r)"
  by (cases l) (auto simp: add_call_def [of e "_ # _"] add_call_def [of e "[]"] add_call_merge split: option.splits)

lemma merged_append: "merged (a @ b) = foldr add_call (merged a) (merged b)"
  by (induction a) (simp_all add: merged_def foldr_add_call)

lemma merged_cong: "merged a = merged b \<Longrightarrow> merged (a @ c) = merged (b @ c)"
  by (simp add: merged_append)

lemma merged_pair: "same_call e f = Some g \<Longrightarrow> merged (a @ [e, f]) = merged (a @ [g])"
  by (simp add: merged_append) (simp add: merged_def add_call_merge)

text \<open>The parser one byte at a time, with the calls made at once: what it does on bodies that are well formed
  as far as read. \<open>None\<close> is a byte it refuses, or the end of a header line without a colon, where the calls
  depend on the cuts.\<close>

type_synonym mp_pos = "mp_state \<times> nat"

definition data_byte :: "u8 \<Rightarrow> nat \<Rightarrow> mp_pos \<times> mp_event list" where
  "data_byte c k = (if c = CR then ((s_part_data_almost_boundary, k), [On_part_data []]) else ((s_part_data, k), [On_part_data [c]]))"

definition after_calls :: "mp_event list \<Rightarrow> mp_pos \<times> mp_event list \<Rightarrow> mp_pos \<times> mp_event list" where
  "after_calls es r = (fst r, es @ snd r)"

definition field_byte :: "u8 \<Rightarrow> nat \<Rightarrow> (mp_pos \<times> mp_event list) option" where
  "field_byte c k =
     (if c = CR then None
      else if c = 58 then Some ((s_header_value_start, k), [On_header_field []])
      else if c \<noteq> 45 \<and> \<not> lower_letter c then None
      else Some ((s_header_field, k), [On_header_field [c]]))"

definition value_byte :: "u8 \<Rightarrow> nat \<Rightarrow> mp_pos \<times> mp_event list" where
  "value_byte c k =
     (if c = CR then ((s_header_value_almost_done, k), [On_header_value []]) else ((s_header_value, k), [On_header_value [c]]))"

definition start_byte :: "bytes \<Rightarrow> u8 \<Rightarrow> nat \<Rightarrow> (mp_pos \<times> mp_event list) option" where
  "start_byte b c k =
     (if k = length b then if c = CR then Some ((s_start_boundary, k + 1), []) else None
      else if k = length b + 1 then if c = LF then Some ((s_header_field_start, 0), [On_part_data_begin]) else None
      else if c = (b @ [0]) ! k then Some ((s_start_boundary, k + 1), []) else None)"

definition part_byte :: "bytes \<Rightarrow> u8 \<Rightarrow> mp_pos \<Rightarrow> (mp_pos \<times> mp_event list) option" where
  "part_byte b c pos =
     (let st = fst pos; k = snd pos in
      case st of
        s_start \<Rightarrow> start_byte b c 0
      | s_start_boundary \<Rightarrow> start_byte b c k
      | s_header_field_start \<Rightarrow> if c = CR then Some ((s_headers_almost_done, k), []) else field_byte c k
      | s_header_field \<Rightarrow> field_byte c k
      | s_headers_almost_done \<Rightarrow> if c = LF then Some ((s_part_data_start, k), []) else None
      | s_header_value_start \<Rightarrow> if c = 32 then Some ((s_header_value_start, k), []) else Some (value_byte c k)
      | s_header_value \<Rightarrow> Some (value_byte c k)
      | s_header_value_almost_done \<Rightarrow> if c = LF then Some ((s_header_field_start, k), []) else None
      | s_part_data_start \<Rightarrow> Some (after_calls [On_headers_complete] (data_byte c k))
      | s_part_data \<Rightarrow> Some (data_byte c k)
      | s_part_data_almost_boundary \<Rightarrow>
          if c = LF then Some ((s_part_data_boundary, 0), []) else Some (after_calls [On_part_data [CR]] (data_byte c k))
      | s_part_data_boundary \<Rightarrow>
          if b ! k \<noteq> c then Some (after_calls [On_part_data ([CR, LF] @ take k b)] (data_byte c k))
          else if k + 1 = length b then Some ((s_part_data_almost_end, k + 1), [On_part_data_end])
          else Some ((s_part_data_boundary, k + 1), [])
      | s_part_data_almost_end \<Rightarrow>
          if c = 45 then Some ((s_part_data_final_hyphen, k), [])
          else if c = CR then Some ((s_part_data_end, k), [])
          else None
      | s_part_data_final_hyphen \<Rightarrow> if c = 45 then Some ((s_end, k), [On_body_end]) else None
      | s_part_data_end \<Rightarrow> if c = LF then Some ((s_header_field_start, k), [On_part_data_begin]) else None
      | s_end \<Rightarrow> Some ((s_end, k), [])
      | s_uninitialized \<Rightarrow> None)"

text \<open>What the loop has seen and not yet called back with: the text from \<open>mark\<close> on.\<close>

definition pend :: "(bytes \<Rightarrow> mp_event) \<Rightarrow> bytes \<Rightarrow> nat \<Rightarrow> nat \<Rightarrow> mp_event list" where
  "pend K buf mark i = (if mark < i \<and> i < length buf then [K (slice mark i buf)] else [])"

definition pending :: "bytes \<Rightarrow> nat \<Rightarrow> nat \<Rightarrow> mp_state \<Rightarrow> mp_event list" where
  "pending buf mark i st =
     (case st of s_header_field \<Rightarrow> pend On_header_field buf mark i | s_header_value \<Rightarrow> pend On_header_value buf mark i
      | s_part_data \<Rightarrow> pend On_part_data buf mark i | _ \<Rightarrow> [])"

definition mergeable :: "(bytes \<Rightarrow> mp_event) \<Rightarrow> bool" where
  "mergeable K \<longleftrightarrow> (\<forall>xs ys. same_call (K xs) (K ys) = Some (K (xs @ ys)))"

lemma mergeable [simp]: "mergeable On_header_field" "mergeable On_header_value" "mergeable On_part_data"
  by (simp_all add: mergeable_def)

lemma slice_snoc: "mark \<le> i \<Longrightarrow> i < length buf \<Longrightarrow> slice mark (Suc i) buf = slice mark i buf @ [buf ! i]"
  by (simp add: slice_def Suc_diff_le take_Suc_conv_app_nth)

lemma slice_same [simp]: "slice i i buf = []"
  by (simp add: slice_def)

lemma pend_close:
  assumes "mergeable K" "i < length buf" "mark \<le> i" "merged l' = merged (l @ pend K buf mark i)"
  shows "merged (l' @ [K []]) = merged (l @ [K (slice mark i buf)])"
proof (cases "mark < i")
  case True
  have "merged (l' @ [K []]) = merged ((l @ [K (slice mark i buf)]) @ [K []])"
    by (rule merged_cong) (use assms True in \<open>simp add: pend_def\<close>)
  then show ?thesis using merged_pair [of "K (slice mark i buf)" "K []" "K (slice mark i buf)" l] assms(1) by (simp add: mergeable_def)
next
  case False
  then show ?thesis using assms by (auto simp: pend_def intro: merged_cong)
qed

lemma pend_byte:
  assumes "mergeable K" "i < length buf" "mark \<le> i" "merged l' = merged (l @ pend K buf mark i)"
  shows "merged (l' @ [K [buf ! i]]) = merged (l @ [K (slice mark (Suc i) buf)])"
proof (cases "mark < i")
  case True
  have "merged (l' @ [K [buf ! i]]) = merged ((l @ [K (slice mark i buf)]) @ [K [buf ! i]])"
    by (rule merged_cong) (use assms True in \<open>simp add: pend_def\<close>)
  then show ?thesis
    using merged_pair [of "K (slice mark i buf)" "K [buf ! i]" "K (slice mark (Suc i) buf)" l] assms(1-3)
    by (simp add: mergeable_def slice_snoc)
next
  case False
  then show ?thesis using assms by (auto simp: pend_def slice_snoc intro: merged_cong)
qed

definition stands :: "bytes \<Rightarrow> bytes \<Rightarrow> nat \<Rightarrow> nat \<Rightarrow> multipart_parser \<Rightarrow> mp_event list \<Rightarrow> mp_pos \<Rightarrow> mp_event list \<Rightarrow> bool" where
  "stands b buf mark i p l pos l' \<longleftrightarrow>
     (mp_state p, mp_index p) = pos \<and> multipart_boundary p = b \<and> length (mp_lookbehind p) = length b + 8 \<and> mark \<le> i \<and> b \<noteq> []
     \<and> (mp_state p = s_part_data_almost_boundary \<longrightarrow> take 1 (mp_lookbehind p) = [CR])
     \<and> (mp_state p = s_part_data_boundary \<longrightarrow> mp_index p < length b \<and> take (2 + mp_index p) (mp_lookbehind p) = [CR, LF] @ take (mp_index p) b)
     \<and> merged l' = merged (l @ pending buf mark i (mp_state p))"

lemma data_stands:
  assumes "i < length buf" "mark \<le> i" "merged l' = merged (l @ pend On_part_data buf mark i)"
    "mp_state p = s_part_data" "multipart_boundary p = b" "length (mp_lookbehind p) = length b + 8" "b \<noteq> []"
  shows "\<exists>p1 l1 m1. mp_part_data log_calls buf (buf ! i) mark i p l = Mp_next p1 l1 m1 (Suc i)
    \<and> stands b buf m1 (Suc i) p1 l1 (fst (data_byte (buf ! i) (mp_index p))) (l' @ snd (data_byte (buf ! i) (mp_index p)))"
  using assms pend_close [of On_part_data i buf mark l' l] pend_byte [of On_part_data i buf mark l' l]
  by (auto simp: mp_part_data_def data_byte_def mp_notify_def log_calls_def stands_def pending_def pend_def take_Suc_conv_app_nth Suc_lessI)

lemma value_stands:
  assumes "i < length buf" "mark \<le> i" "merged l' = merged (l @ pend On_header_value buf mark i)"
    "mp_state p = s_header_value" "multipart_boundary p = b" "length (mp_lookbehind p) = length b + 8" "b \<noteq> []"
  shows "\<exists>p1 l1 m1. mp_header_value log_calls buf (buf ! i) mark i p l = Mp_next p1 l1 m1 (Suc i)
    \<and> stands b buf m1 (Suc i) p1 l1 (fst (value_byte (buf ! i) (mp_index p))) (l' @ snd (value_byte (buf ! i) (mp_index p)))"
  using assms pend_close [of On_header_value i buf mark l' l] pend_byte [of On_header_value i buf mark l' l]
  by (auto simp: mp_header_value_def value_byte_def mp_notify_def log_calls_def stands_def pending_def pend_def Suc_lessI)

lemma field_stands:
  assumes "i < length buf" "mark \<le> i" "merged l' = merged (l @ pend On_header_field buf mark i)"
    "mp_state p = s_header_field" "multipart_boundary p = b" "length (mp_lookbehind p) = length b + 8" "b \<noteq> []"
    "field_byte (buf ! i) (mp_index p) = Some (pos, es)"
  shows "\<exists>p1 l1 m1. mp_header_field log_calls buf (buf ! i) mark i p l = Mp_next p1 l1 m1 (Suc i)
    \<and> stands b buf m1 (Suc i) p1 l1 pos (l' @ es)"
  using assms pend_close [of On_header_field i buf mark l' l] pend_byte [of On_header_field i buf mark l' l]
  by (auto simp: mp_header_field_def field_byte_def mp_notify_def log_calls_def stands_def pending_def pend_def Suc_lessI
      split: if_splits)

lemma loop_next:
  "mp_byte cb buf mark i p l = Mp_next p1 l1 m1 i1 \<Longrightarrow> i < length buf \<Longrightarrow>
   multipart_parser_loop cb buf mark i p l = multipart_parser_loop cb buf m1 i1 p1 l1"
  by (subst multipart_parser_loop.simps) simp

text \<open>One more byte that the byte-wise parser takes.\<close>

definition moves :: "bytes \<Rightarrow> bytes \<Rightarrow> nat \<Rightarrow> nat \<Rightarrow> multipart_parser \<Rightarrow> mp_event list \<Rightarrow> mp_pos \<Rightarrow> mp_event list \<Rightarrow> bool" where
  "moves b buf mark i p l pos l' \<longleftrightarrow>
     (\<exists>p1 l1 m1. multipart_parser_loop log_calls buf mark i p l = multipart_parser_loop log_calls buf m1 (Suc i) p1 l1
        \<and> stands b buf m1 (Suc i) p1 l1 pos l')"

lemma moves_next:
  "mp_byte log_calls buf mark i p l = Mp_next p1 l1 m1 (Suc i) \<Longrightarrow> i < length buf \<Longrightarrow> stands b buf m1 (Suc i) p1 l1 pos l' \<Longrightarrow>
   moves b buf mark i p l pos l'"
  unfolding moves_def using loop_next by fast

lemma moves_again:
  assumes "mp_byte log_calls buf mark i p l = Mp_next p1 l1 i i" "i < length buf" "merged l' = merged l1"
    "mp_state p1 = s_part_data" "multipart_boundary p1 = b" "length (mp_lookbehind p1) = length b + 8" "b \<noteq> []"
  shows "moves b buf mark i p l (fst (data_byte (buf ! i) (mp_index p1))) (l' @ snd (data_byte (buf ! i) (mp_index p1)))"
proof -
  have "merged l' = merged (l1 @ pend On_part_data buf i i)" using assms(3) by (simp add: pend_def)
  from data_stands [OF assms(2) le_refl this assms(4-7)] obtain p2 l2 m2 where
    2: "mp_part_data log_calls buf (buf ! i) i i p1 l1 = Mp_next p2 l2 m2 (Suc i)"
      "stands b buf m2 (Suc i) p2 l2 (fst (data_byte (buf ! i) (mp_index p1))) (l' @ snd (data_byte (buf ! i) (mp_index p1)))"
    by blast
  have "mp_byte log_calls buf i i p1 l1 = Mp_next p2 l2 m2 (Suc i)" using 2(1) assms(4) by (simp add: mp_byte_def)
  then show ?thesis
    unfolding moves_def using loop_next [OF assms(1,2)] loop_next [OF _ assms(2)] 2(2) by metis
qed

lemma pend_none [simp]: "pend K buf i i = []"
  by (simp add: pend_def)

lemma byte_moves_text:
  assumes "stands b buf mark i p l (st, k) l'" "i < length buf" "part_byte b (buf ! i) (st, k) = Some (pos, es)"
    "st \<in> {s_header_field_start, s_header_field, s_header_value_start, s_header_value, s_part_data}"
  shows "moves b buf mark i p l pos (l' @ es)"
proof -
  note st = assms(1) [unfolded stands_def]
  have here: "mp_state p = st" "mp_index p = k" "multipart_boundary p = b" "length (mp_lookbehind p) = length b + 8" "mark \<le> i" "b \<noteq> []"
    and l': "merged l' = merged (l @ pending buf mark i st)"
    using st by auto
  consider "st = s_header_field_start" "buf ! i = CR" | "st = s_header_field_start" "buf ! i \<noteq> CR" | "st = s_header_field"
    | "st = s_header_value_start" "buf ! i = 32" | "st = s_header_value_start" "buf ! i \<noteq> 32" | "st = s_header_value" | "st = s_part_data"
    using assms(4) by auto
  then show ?thesis
  proof cases
    case 1
    then have "mp_byte log_calls buf mark i p l = Mp_next (p\<lparr>mp_state := s_headers_almost_done\<rparr>) l i (Suc i)"
      using here by (simp add: mp_byte_def mp_header_field_def)
    then show ?thesis
      by (rule moves_next) (use 1 here l' assms(2,3) in \<open>auto simp: stands_def pending_def part_byte_def\<close>)
  next
    case 2
    then have f: "field_byte (buf ! i) k = Some (pos, es)" using assms(3) by (simp add: part_byte_def)
    from field_stands [of i buf i l' l "p\<lparr>mp_state := s_header_field\<rparr>" b pos es] obtain p1 l1 m1 where
      "mp_header_field log_calls buf (buf ! i) i i (p\<lparr>mp_state := s_header_field\<rparr>) l = Mp_next p1 l1 m1 (Suc i)"
      "stands b buf m1 (Suc i) p1 l1 pos (l' @ es)"
      using 2 here l' assms(2) f by (auto simp: pending_def)
    then show ?thesis using moves_next 2 here assms(2) by (simp add: mp_byte_def)
  next
    case 3
    then have f: "field_byte (buf ! i) k = Some (pos, es)" using assms(3) by (simp add: part_byte_def)
    from field_stands [of i buf mark l' l p b pos es] obtain p1 l1 m1 where
      "mp_header_field log_calls buf (buf ! i) mark i p l = Mp_next p1 l1 m1 (Suc i)" "stands b buf m1 (Suc i) p1 l1 pos (l' @ es)"
      using 3 here l' assms(2) f by (auto simp: pending_def)
    then show ?thesis using moves_next 3 here assms(2) by (simp add: mp_byte_def)
  next
    case 4
    then have "mp_byte log_calls buf mark i p l = Mp_next p l mark (Suc i)" using here by (simp add: mp_byte_def)
    then show ?thesis
      by (rule moves_next) (use 4 here l' assms(2,3) in \<open>auto simp: stands_def pending_def part_byte_def\<close>)
  next
    case 5
    then have f: "value_byte (buf ! i) k = (pos, es)" using assms(3) by (simp add: part_byte_def)
    from value_stands [of i buf i l' l "p\<lparr>mp_state := s_header_value\<rparr>" b] obtain p1 l1 m1 where
      "mp_header_value log_calls buf (buf ! i) i i (p\<lparr>mp_state := s_header_value\<rparr>) l = Mp_next p1 l1 m1 (Suc i)"
      "stands b buf m1 (Suc i) p1 l1 pos (l' @ es)"
      using 5 here l' assms(2) f by (auto simp: pending_def)
    then show ?thesis using moves_next 5 here assms(2) by (simp add: mp_byte_def)
  next
    case 6
    then have f: "value_byte (buf ! i) k = (pos, es)" using assms(3) by (simp add: part_byte_def)
    from value_stands [of i buf mark l' l p b] obtain p1 l1 m1 where
      "mp_header_value log_calls buf (buf ! i) mark i p l = Mp_next p1 l1 m1 (Suc i)" "stands b buf m1 (Suc i) p1 l1 pos (l' @ es)"
      using 6 here l' assms(2) f by (auto simp: pending_def)
    then show ?thesis using moves_next 6 here assms(2) by (simp add: mp_byte_def)
  next
    case 7
    then have f: "data_byte (buf ! i) k = (pos, es)" using assms(3) by (simp add: part_byte_def)
    from data_stands [of i buf mark l' l p b] obtain p1 l1 m1 where
      "mp_part_data log_calls buf (buf ! i) mark i p l = Mp_next p1 l1 m1 (Suc i)" "stands b buf m1 (Suc i) p1 l1 pos (l' @ es)"
      using 7 here l' assms(2) f by (auto simp: pending_def)
    then show ?thesis using moves_next 7 here assms(2) by (simp add: mp_byte_def)
  qed
qed

lemma byte_moves_data_start:
  assumes "stands b buf mark i p l (s_part_data_start, k) l'" "i < length buf"
    "part_byte b (buf ! i) (s_part_data_start, k) = Some (pos, es)"
  shows "moves b buf mark i p l pos (l' @ es)"
proof -
  note st = assms(1) [unfolded stands_def]
  have here: "mp_state p = s_part_data_start" "mp_index p = k" "multipart_boundary p = b" "length (mp_lookbehind p) = length b + 8" "mark \<le> i" "b \<noteq> []"
    and l': "merged l' = merged l"
    using st by (auto simp: pending_def)
  obtain ds where f: "data_byte (buf ! i) k = (pos, ds)" "es = On_headers_complete # ds"
    using assms(3) by (cases "data_byte (buf ! i) k") (auto simp: part_byte_def after_calls_def)
  have "merged (l' @ [On_headers_complete]) = merged (l @ [On_headers_complete])" by (rule merged_cong [OF l'])
  with data_stands [of i buf i "l' @ [On_headers_complete]" "l @ [On_headers_complete]" "p\<lparr>mp_state := s_part_data\<rparr>" b]
  obtain p1 l1 m1 where
    "mp_part_data log_calls buf (buf ! i) i i (p\<lparr>mp_state := s_part_data\<rparr>) (l @ [On_headers_complete]) = Mp_next p1 l1 m1 (Suc i)"
    "stands b buf m1 (Suc i) p1 l1 pos (l' @ es)"
    using here assms(2) f by auto
  then show ?thesis using moves_next here assms(2) by (simp add: mp_byte_def mp_notify_def log_calls_def)
qed

lemma byte_moves_fixed:
  assumes "stands b buf mark i p l (st, k) l'" "i < length buf" "part_byte b (buf ! i) (st, k) = Some (pos, es)"
    "st \<in> {s_start, s_start_boundary, s_headers_almost_done, s_header_value_almost_done, s_part_data_almost_end,
           s_part_data_final_hyphen, s_part_data_end, s_end}"
  shows "moves b buf mark i p l pos (l' @ es)"
proof -
  note st = assms(1) [unfolded stands_def]
  have here: "mp_state p = st" "mp_index p = k" "multipart_boundary p = b" "length (mp_lookbehind p) = length b + 8" "mark \<le> i" "b \<noteq> []"
    and l': "merged l' = merged l"
    using st assms(4) by (auto simp: pending_def)
  have l'': "merged (l' @ [e]) = merged (l @ [e])" for e by (rule merged_cong [OF l'])
  have "mp_index (p\<lparr>mp_state := s, mp_index := j\<rparr>) = j" for s j by simp
  have start: "moves b buf mark i p l pos (l' @ es)"
    if st0: "mp_byte log_calls buf mark i p l = mp_start_boundary log_calls (buf ! i) mark i p0 l"
      "start_byte b (buf ! i) (mp_index p0) = Some (pos, es)" "multipart_boundary p0 = b" "length (mp_lookbehind p0) = length b + 8"
      "mp_state p0 = s_start_boundary" for p0
  proof -
    obtain p1 l1 where "mp_start_boundary log_calls (buf ! i) mark i p0 l = Mp_next p1 l1 mark (Suc i)"
      "stands b buf mark (Suc i) p1 l1 pos (l' @ es)"
      using st0(2-5) here(5,6) l' l''
      by (auto simp: start_byte_def mp_start_boundary_def boundary_byte_def mp_notify_def log_calls_def stands_def pending_def split: if_splits)
    then show ?thesis using moves_next assms(2) st0(1) by metis
  qed
  consider "st = s_start" | "st = s_start_boundary" | "st = s_headers_almost_done" | "st = s_header_value_almost_done" | "st = s_part_data_almost_end"
    | "st = s_part_data_final_hyphen" | "st = s_part_data_end" | "st = s_end"
    using assms(4) by auto
  then show ?thesis
  proof cases
    case 1
    show ?thesis
      by (rule start [of "p\<lparr>mp_index := 0, mp_state := s_start_boundary\<rparr>"]) (use 1 here assms(3) in \<open>simp_all add: mp_byte_def part_byte_def\<close>)
  next
    case 2
    show ?thesis by (rule start [of p]) (use 2 here assms(3) in \<open>simp_all add: mp_byte_def part_byte_def\<close>)
  next
    case 3
    show ?thesis
      by (rule moves_next [of _ _ _ _ _ "p\<lparr>mp_state := s_part_data_start\<rparr>" l mark])
         (use 3 here l' assms(2,3) in \<open>auto simp: mp_byte_def part_byte_def stands_def pending_def split: if_splits\<close>)
  next
    case 4
    show ?thesis
      by (rule moves_next [of _ _ _ _ _ "p\<lparr>mp_state := s_header_field_start\<rparr>" l mark])
         (use 4 here l' assms(2,3) in \<open>auto simp: mp_byte_def part_byte_def stands_def pending_def split: if_splits\<close>)
  next
    case 5
    show ?thesis
      by (rule moves_next [of _ _ _ _ _ "p\<lparr>mp_state := fst pos\<rparr>" l mark])
         (use 5 here l' assms(2,3) in \<open>auto simp: mp_byte_def part_byte_def stands_def pending_def split: if_splits\<close>)
  next
    case 6
    show ?thesis
      by (rule moves_next [of _ _ _ _ _ "p\<lparr>mp_state := s_end\<rparr>" "l @ [On_body_end]" mark])
         (use 6 here l'' assms(2,3) in \<open>auto simp: mp_byte_def part_byte_def stands_def pending_def mp_notify_def log_calls_def split: if_splits\<close>)
  next
    case 7
    show ?thesis
      by (rule moves_next [of _ _ _ _ _ "p\<lparr>mp_state := s_header_field_start\<rparr>" "l @ [On_part_data_begin]" mark])
         (use 7 here l'' assms(2,3) in \<open>auto simp: mp_byte_def part_byte_def stands_def pending_def mp_notify_def log_calls_def split: if_splits\<close>)
  next
    case 8
    show ?thesis
      by (rule moves_next [of _ _ _ _ _ p l mark])
         (use 8 here l' assms(2,3) in \<open>auto simp: mp_byte_def part_byte_def stands_def pending_def\<close>)
  qed
qed

lemma byte_moves_boundary:
  assumes "stands b buf mark i p l (st, k) l'" "i < length buf" "part_byte b (buf ! i) (st, k) = Some (pos, es)"
    "st \<in> {s_part_data_almost_boundary, s_part_data_boundary}"
  shows "moves b buf mark i p l pos (l' @ es)"
proof -
  note st = assms(1) [unfolded stands_def]
  have here: "mp_state p = st" "mp_index p = k" "multipart_boundary p = b" "length (mp_lookbehind p) = length b + 8" "mark \<le> i" "b \<noteq> []"
    and l': "merged l' = merged l"
    using st assms(4) by (auto simp: pending_def)
  have l'': "merged (l' @ [e]) = merged (l @ [e])" for e by (rule merged_cong [OF l'])
  have again: "moves b buf mark i p l pos (l' @ es)"
    if "mp_byte log_calls buf mark i p l = Mp_next (p\<lparr>mp_state := s_part_data\<rparr>) (l @ [e]) i i"
      "(pos, es) = after_calls [e] (data_byte (buf ! i) k)" for e
    using moves_again [OF that(1) assms(2) l''] that(2) here by (simp add: after_calls_def)
  consider "st = s_part_data_almost_boundary" "buf ! i = LF" | "st = s_part_data_almost_boundary" "buf ! i \<noteq> LF"
    | "st = s_part_data_boundary" "b ! k \<noteq> buf ! i" | "st = s_part_data_boundary" "b ! k = buf ! i"
    using assms(4) by auto
  then show ?thesis
  proof cases
    case 1
    have "take 2 ((mp_lookbehind p)[1 := LF]) = [CR, LF]"
      using st 1 here(1,4) by (cases "mp_lookbehind p" rule: remdups_adj.cases) auto
    then show ?thesis using 1
      by (intro moves_next [of _ _ _ _ _ "p\<lparr>mp_state := s_part_data_boundary, mp_lookbehind := (mp_lookbehind p)[1 := LF], mp_index := 0\<rparr>" l mark])
         (use here st l' assms(2,3) in \<open>auto simp: mp_byte_def mp_almost_boundary_def part_byte_def stands_def pending_def\<close>)
  next
    case 2
    then show ?thesis
      by (intro again [of "On_part_data [CR]"])
         (use here st assms(3) in \<open>auto simp: mp_byte_def mp_almost_boundary_def part_byte_def mp_notify_def log_calls_def\<close>)
  next
    case 3
    then show ?thesis
      by (intro again [of "On_part_data ([CR, LF] @ take k b)"])
         (use here st assms(3) in \<open>auto simp: mp_byte_def mp_boundary_def boundary_byte_def part_byte_def mp_notify_def log_calls_def nth_append\<close>)
  next
    case 4
    have k: "k < length b" "take (2 + k) (mp_lookbehind p) = [CR, LF] @ take k b" using st 4 here by auto
    let ?lb = "(mp_lookbehind p)[2 + k := buf ! i]"
    have lb: "take (2 + Suc k) ?lb = [CR, LF] @ take (Suc k) b"
      using k here 4 by (simp add: take_Suc_conv_app_nth)
    show ?thesis
    proof (cases "Suc k = length b")
      case True
      show ?thesis
        by (rule moves_next [of _ _ _ _ _ "p\<lparr>mp_lookbehind := ?lb, mp_index := Suc k, mp_state := s_part_data_almost_end\<rparr>" "l @ [On_part_data_end]" mark])
           (use 4 True k here l'' assms(2,3) in \<open>auto simp: mp_byte_def mp_boundary_def boundary_byte_def part_byte_def stands_def pending_def
              mp_notify_def log_calls_def nth_append\<close>)
    next
      case False
      show ?thesis
        by (rule moves_next [of _ _ _ _ _ "p\<lparr>mp_lookbehind := ?lb, mp_index := Suc k\<rparr>" l mark])
           (use 4 False k lb here l' assms(2,3) in \<open>auto simp: mp_byte_def mp_boundary_def boundary_byte_def part_byte_def stands_def pending_def nth_append\<close>)
    qed
  qed
qed

lemma byte_moves:
  assumes "stands b buf mark i p l (st, k) l'" "i < length buf" "part_byte b (buf ! i) (st, k) = Some (pos, es)"
  shows "moves b buf mark i p l pos (l' @ es)"
proof (cases st)
  case s_uninitialized
  then show ?thesis using assms(3) by (simp add: part_byte_def)
next
  case s_part_data_start
  then show ?thesis using byte_moves_data_start assms by metis
qed (rule byte_moves_text [OF assms] byte_moves_fixed [OF assms] byte_moves_boundary [OF assms]; simp)+

fun part_bytes :: "bytes \<Rightarrow> bytes \<Rightarrow> mp_pos \<Rightarrow> (mp_pos \<times> mp_event list) option" where
  "part_bytes b [] pos = Some (pos, [])"
| "part_bytes b (c # cs) pos =
     (case part_byte b c pos of
        None \<Rightarrow> None
      | Some (pos1, es) \<Rightarrow> map_option (\<lambda>(pos2, fs). (pos2, es @ fs)) (part_bytes b cs pos1))"

lemma part_bytes_append:
  "part_bytes b (cs @ ds) pos =
     (case part_bytes b cs pos of None \<Rightarrow> None
      | Some (pos1, es) \<Rightarrow> map_option (\<lambda>(pos2, fs). (pos2, es @ fs)) (part_bytes b ds pos1))"
  by (induction cs arbitrary: pos) (auto split: option.splits simp: option.map_comp comp_def case_prod_unfold option.map_ident)

text \<open>Between two pieces nothing is pending.\<close>

definition rests :: "multipart_parser \<Rightarrow> mp_event list \<Rightarrow> bytes \<Rightarrow> mp_pos \<Rightarrow> mp_event list \<Rightarrow> bool" where
  "rests p l b pos l' \<longleftrightarrow> stands b [] 0 0 p l pos l'"

lemma rests_stands: "rests p l b pos l' \<Longrightarrow> stands b buf 0 0 p l pos l'"
  by (auto simp: rests_def stands_def pending_def pend_def split: mp_state.splits)

lemma stands_rests: "stands b buf mark (length buf) p l pos l' \<Longrightarrow> rests p l b pos l'"
  by (auto simp: rests_def stands_def pending_def pend_def split: mp_state.splits)

lemma loop_stands:
  assumes "stands b buf mark i p l pos l'" "i \<le> length buf" "part_bytes b (drop i buf) pos = Some (pos', es)"
  shows "\<exists>p1 l1. multipart_parser_loop log_calls buf mark i p l = ((p1, l1), length buf) \<and> rests p1 l1 b pos' (l' @ es)"
  using assms
proof (induction "length buf - i" arbitrary: i mark p l pos l' es)
  case 0
  then show ?case by (auto simp: multipart_parser_loop.simps [of _ buf] intro!: stands_rests)
next
  case (Suc n)
  then have i: "i < length buf" by simp
  then have "drop i buf = buf ! i # drop (Suc i) buf" by (simp add: Cons_nth_drop_Suc)
  then obtain pos1 e f where 1: "part_byte b (buf ! i) pos = Some (pos1, e)" "part_bytes b (drop (Suc i) buf) pos1 = Some (pos', f)" "es = e @ f"
    using Suc.prems(3) by (auto split: option.splits)
  from byte_moves [of b buf mark i p l "fst pos" "snd pos" l' pos1 e] Suc.prems(1) i 1(1)
  obtain p2 l2 m2 where 2: "multipart_parser_loop log_calls buf mark i p l = multipart_parser_loop log_calls buf m2 (Suc i) p2 l2"
    "stands b buf m2 (Suc i) p2 l2 pos1 (l' @ e)"
    by (auto simp: moves_def)
  show ?case using Suc.hyps(1) [OF _ 2(2) _ 1(2)] Suc.hyps(2) i 2(1) 1(3) by simp
qed

text \<open>The body as it comes in: the parser is run on one piece after the other, and each must be read to its end.\<close>

definition mp_feed :: "'s multipart_parser_settings \<Rightarrow> bytes \<Rightarrow> multipart_parser \<times> 's \<Rightarrow> (multipart_parser \<times> 's) \<times> bool" where
  "mp_feed cb piece st = (case multipart_parser_execute cb piece st of (st1, n) \<Rightarrow> (st1, n = length piece))"

lemma feed_read:
  "multipart_parser_loop cb x 0 0 p s = ((p1, s1), length x) \<Longrightarrow> mp_feed cb x (p, s) = ((p1, s1), True)"
  by (simp add: mp_feed_def multipart_parser_execute_def)

lemma feed_rests:
  assumes "rests p l b pos l'" "part_bytes b (concat ps) pos = Some (pos', es)"
  shows "\<exists>p1 cs. feed_pieces (mp_feed log_calls) ps (p, l) = ((p1, l @ cs), True) \<and> rests p1 (l @ cs) b pos' (l' @ es)
    \<and> (\<forall>cb (s :: 's) s1. replay cb cs s = (s1, True) \<longrightarrow> feed_pieces (mp_feed cb) ps (p, s) = ((p1, s1), True))"
  using assms
proof (induction ps arbitrary: p l pos l' es)
  case Nil
  then show ?case by (intro exI [of _ p] exI [of _ "[]"]) simp
next
  case (Cons x ps)
  obtain pos1 e f where 1: "part_bytes b x pos = Some (pos1, e)" "part_bytes b (concat ps) pos1 = Some (pos', f)" "es = e @ f"
    using Cons.prems(2) by (auto simp: part_bytes_append split: option.splits)
  obtain p1 l1 where 2: "multipart_parser_loop log_calls x 0 0 p l = ((p1, l1), length x)" "rests p1 l1 b pos1 (l' @ e)"
    using loop_stands [OF rests_stands [OF Cons.prems(1)], of x] 1(1) by auto
  obtain cs where cs: "l1 = l @ cs"
    "\<And>cb (s :: 's) s1. replay cb cs s = (s1, True) \<Longrightarrow> multipart_parser_loop cb x 0 0 p s = ((p1, s1), length x)"
    using loop_replay [OF 2(1)] by blast
  obtain p2 ds where ds: "feed_pieces (mp_feed log_calls) ps (p1, l1) = ((p2, l1 @ ds), True)" "rests p2 (l1 @ ds) b pos' ((l' @ e) @ f)"
    "\<And>cb (s :: 's) s1. replay cb ds s = (s1, True) \<Longrightarrow> feed_pieces (mp_feed cb) ps (p1, s) = ((p2, s1), True)"
    using Cons.IH [OF 2(2) 1(2)] by blast
  have "feed_pieces (mp_feed cb) (x # ps) (p, s) = ((p2, s1), True)" if r: "replay cb (cs @ ds) s = (s1, True)" for cb and s s1 :: 's
  proof -
    obtain s2 where "replay cb cs s = (s2, True)" "replay cb ds s2 = (s1, True)"
      using r by (auto simp: replay_append split: prod.splits if_splits)
    then show ?thesis using feed_read [OF cs(2)] ds(3) by simp
  qed
  then show ?case
    using feed_read [OF 2(1)] ds(1,2) cs(1) 1(3) by (intro exI [of _ p2] exI [of _ "cs @ ds"]) simp
qed

lemma pieces_calls:
  assumes "part_bytes b (concat ps) (s_start, 0) = Some (pos, es)" "b \<noteq> []"
  shows "\<exists>p1 cs. merged cs = merged es \<and> mp_state p1 = fst pos
    \<and> (\<forall>cb (s :: 's) s1. replay cb cs s = (s1, True) \<longrightarrow> feed_pieces (mp_feed cb) ps (multipart_parser_init b, s) = ((p1, s1), True))"
proof -
  have "rests (multipart_parser_init b) [] b (s_start, 0) []"
    using assms(2) by (simp add: rests_def stands_def multipart_parser_init_def pending_def)
  from feed_rests [OF this assms(1), where 's = 's] obtain p1 cs where
    1: "rests p1 cs b pos es" "\<And>cb (s :: 's) s1. replay cb cs s = (s1, True) \<Longrightarrow>
      feed_pieces (mp_feed cb) ps (multipart_parser_init b, s) = ((p1, s1), True)"
    unfolding append_Nil by blast
  have "pending [] 0 0 st = []" for st by (simp add: pending_def pend_def split: mp_state.split)
  then have "merged cs = merged es \<and> mp_state p1 = fst pos" using 1(1) by (auto simp: rests_def stands_def)
  then show ?thesis using 1(2) by blast
qed

section \<open>A body made of parts\<close>

text \<open>A part is its header lines, each a name and a value, and its data.\<close>

type_synonym mp_part = "(bytes \<times> bytes) list \<times> bytes"

definition header_line :: "bytes \<times> bytes \<Rightarrow> bytes" where
  "header_line h = fst h @ [58, 32] @ snd h @ [CR, LF]"

definition part_text :: "bytes \<Rightarrow> mp_part \<Rightarrow> bytes" where
  "part_text b q = [CR, LF] @ concat (map header_line (fst q)) @ [CR, LF] @ snd q @ [CR, LF] @ b"

definition body_text :: "bytes \<Rightarrow> mp_part list \<Rightarrow> bytes \<Rightarrow> bytes" where
  "body_text b parts epilogue = b @ concat (map (part_text b) parts) @ [45, 45] @ epilogue"

definition good_header :: "bytes \<times> bytes \<Rightarrow> bool" where
  "good_header h \<longleftrightarrow> fst h \<noteq> [] \<and> list_all (\<lambda>c. c = 45 \<or> lower_letter c) (fst h)
     \<and> CR \<notin> set (snd h) \<and> (snd h = [] \<or> hd (snd h) \<noteq> 32)"

definition good_part :: "bytes \<Rightarrow> mp_part \<Rightarrow> bool" where
  "good_part b q \<longleftrightarrow> list_all good_header (fst q) \<and> \<not> sublist ([CR, LF] @ b) (snd q)"

definition part_calls :: "mp_part \<Rightarrow> mp_event list" where
  "part_calls q = On_part_data_begin # concat (map (\<lambda>h. [On_header_field (fst h), On_header_value (snd h)]) (fst q))
     @ [On_headers_complete, On_part_data (snd q), On_part_data_end]"

text \<open>Reading a text, up to merging.\<close>

definition reads :: "bytes \<Rightarrow> bytes \<Rightarrow> mp_pos \<Rightarrow> mp_pos \<Rightarrow> mp_event list \<Rightarrow> bool" where
  "reads b cs pos pos' es \<longleftrightarrow> (\<exists>fs. part_bytes b cs pos = Some (pos', fs) \<and> merged fs = merged es)"

lemma reads_Nil: "reads b [] pos pos []"
  by (simp add: reads_def)

lemma reads_append:
  assumes "reads b cs p q es" "reads b ds q r fs"
  shows "reads b (cs @ ds) p r (es @ fs)"
proof -
  obtain es1 fs1 where 1: "part_bytes b cs p = Some (q, es1)" "merged es1 = merged es" "part_bytes b ds q = Some (r, fs1)" "merged fs1 = merged fs"
    using assms by (auto simp: reads_def)
  have "merged (es1 @ fs1) = merged (es @ fs)" unfolding merged_append 1(2,4) ..
  then show ?thesis using 1(1,3) by (auto simp: reads_def part_bytes_append)
qed

lemma reads_byte: "part_byte b c p = Some (q, es) \<Longrightarrow> reads b [c] p q es"
  by (simp add: reads_def)

lemma reads_Cons: "part_byte b c p = Some (q, es) \<Longrightarrow> reads b cs q r fs \<Longrightarrow> reads b (c # cs) p r (es @ fs)"
  using reads_append [OF reads_byte] by fastforce

lemma merged_bytes:
  assumes "mergeable K"
  shows "merged (map (\<lambda>c. K [c]) cs @ [K []]) = [K cs]"
proof (induction cs)
  case (Cons c cs)
  have "merged (map (\<lambda>c. K [c]) (c # cs) @ [K []]) = add_call (K [c]) (merged (map (\<lambda>c. K [c]) cs @ [K []]))"
    by (simp add: merged_def)
  then show ?case using assms Cons by (simp add: add_call_def mergeable_def)
qed (simp add: merged_def add_call_def)

lemma merged_one [simp]: "merged [e] = [e]"
  by (simp add: merged_def add_call_def)

lemma field_run:
  assumes "list_all (\<lambda>c. c = 45 \<or> lower_letter c) n"
  shows "part_bytes b (n @ [58]) (s_header_field, k) = Some ((s_header_value_start, k), map (\<lambda>c. On_header_field [c]) n @ [On_header_field []])"
  using assms
proof (induction n)
  case Nil
  then show ?case by (simp add: part_byte_def field_byte_def)
next
  case (Cons c n)
  then have "c \<noteq> CR \<and> c \<noteq> 58" by (auto simp: lower_letter_def Let_def)
  then show ?case using Cons by (auto simp: part_byte_def field_byte_def)
qed

lemma field_reads:
  assumes "n \<noteq> []" "list_all (\<lambda>c. c = 45 \<or> lower_letter c) n"
  shows "reads b (n @ [58]) (s_header_field_start, k) (s_header_value_start, k) [On_header_field n]"
proof -
  obtain c cs where n: "n = c # cs" using assms(1) by (cases n) auto
  then have "c \<noteq> CR \<and> c \<noteq> 58" using assms(2) by (auto simp: lower_letter_def Let_def)
  then have "part_bytes b (n @ [58]) (s_header_field_start, k) = part_bytes b (n @ [58]) (s_header_field, k)"
    by (simp add: n part_byte_def)
  then show ?thesis
    using field_run [OF assms(2)] merged_bytes [of On_header_field n] by (simp add: reads_def)
qed

lemma value_run:
  assumes "CR \<notin> set v"
  shows "part_bytes b (v @ [CR]) (s_header_value, k) = Some ((s_header_value_almost_done, k), map (\<lambda>c. On_header_value [c]) v @ [On_header_value []])"
  using assms by (induction v) (auto simp: part_byte_def value_byte_def)

lemma value_reads:
  assumes "CR \<notin> set v" "v = [] \<or> hd v \<noteq> 32"
  shows "reads b ([32] @ v @ [CR, LF]) (s_header_value_start, k) (s_header_field_start, k) [On_header_value v]"
proof -
  have "part_bytes b (v @ [CR]) (s_header_value_start, k) = part_bytes b (v @ [CR]) (s_header_value, k)"
    using assms(2) by (cases v) (auto simp: part_byte_def)
  then have "reads b (v @ [CR]) (s_header_value_start, k) (s_header_value_almost_done, k) [On_header_value v]"
    using value_run [OF assms(1)] merged_bytes [of On_header_value v] by (simp add: reads_def)
  from reads_append [OF this, of "[LF]" "(s_header_field_start, k)" "[]"]
  have "reads b (v @ [CR, LF]) (s_header_value_start, k) (s_header_field_start, k) [On_header_value v]"
    using reads_byte [of b LF "(s_header_value_almost_done, k)" "(s_header_field_start, k)" "[]"] by (simp add: part_byte_def)
  from reads_Cons [OF _ this, of 32 "(s_header_value_start, k)" "[]"] show ?thesis by (simp add: part_byte_def)
qed

lemma headers_read:
  assumes "list_all good_header hs"
  shows "reads b (concat (map header_line hs)) (s_header_field_start, k) (s_header_field_start, k)
    (concat (map (\<lambda>h. [On_header_field (fst h), On_header_value (snd h)]) hs))"
  using assms
proof (induction hs)
  case Nil
  then show ?case by (simp add: reads_Nil)
next
  case (Cons h hs)
  then have h: "fst h \<noteq> []" "list_all (\<lambda>c. c = 45 \<or> lower_letter c) (fst h)" "CR \<notin> set (snd h)" "snd h = [] \<or> hd (snd h) \<noteq> 32"
    by (simp_all add: good_header_def)
  have "header_line h = (fst h @ [58]) @ [32] @ snd h @ [CR, LF]" by (simp add: header_line_def)
  then have "reads b (header_line h) (s_header_field_start, k) (s_header_field_start, k) ([On_header_field (fst h)] @ [On_header_value (snd h)])"
    using reads_append [OF field_reads [OF h(1,2)] value_reads [OF h(3,4)]] by simp
  from reads_append [OF this Cons.IH] Cons.prems show ?case by simp
qed

text \<open>The data: what may still be the start of a delimiter is held back.\<close>

definition held_back :: "bytes \<Rightarrow> mp_pos \<Rightarrow> bytes \<Rightarrow> bool" where
  "held_back b pos h \<longleftrightarrow>
     fst pos = s_part_data \<and> h = [] \<or> fst pos = s_part_data_almost_boundary \<and> h = [CR]
     \<or> fst pos = s_part_data_boundary \<and> snd pos < length b \<and> h = [CR, LF] @ take (snd pos) b"

fun data_of :: "mp_event list \<Rightarrow> bytes option" where
  "data_of [] = Some []"
| "data_of (On_part_data x # es) = map_option ((@) x) (data_of es)"
| "data_of (_ # es) = None"

definition given :: "mp_event list \<Rightarrow> bytes \<Rightarrow> bool" where
  "given es d \<longleftrightarrow> data_of es = Some d"

lemma given_Nil [simp]: "given [] d \<longleftrightarrow> d = []"
  by (auto simp: given_def)

lemma given_Cons [simp]: "given (On_part_data x # es) d \<longleftrightarrow> (\<exists>e. d = x @ e \<and> given es e)"
  by (auto simp: given_def)

lemma given_append: "given es d \<Longrightarrow> given fs e \<Longrightarrow> given (es @ fs) (d @ e)"
  by (induction es arbitrary: d rule: data_of.induct) (auto simp: given_def)

lemma given_merged: "given es d \<Longrightarrow> es \<noteq> [] \<Longrightarrow> merged es = [On_part_data d]"
proof (induction es arbitrary: d rule: data_of.induct)
  case (2 x es)
  then obtain e where e: "d = x @ e" "given es e" by auto
  show ?case
  proof (cases "es = []")
    case True
    then show ?thesis using e by simp
  next
    case False
    then show ?thesis using "2.IH" [OF e(2)] e(1) by (simp add: merged_def add_call_def)
  qed
qed (simp_all add: given_def)

lemma data_byte_step:
  assumes "held_back b pos h" "h @ [c] \<noteq> [CR, LF] @ b" "b \<noteq> []"
  shows "\<exists>pos' es h' d. part_byte b c pos = Some (pos', es) \<and> held_back b pos' h' \<and> given es d \<and> d @ h' = h @ [c]"
proof -
  obtain st k where pos: "pos = (st, k)" by fastforce
  have again: ?thesis if "part_byte b c pos = Some (after_calls es (data_byte c k))" "given es h" for es
  proof -
    have "held_back b (fst (data_byte c k)) (if c = CR then [CR] else [])" by (simp add: held_back_def data_byte_def)
    moreover have "given (es @ snd (data_byte c k)) (h @ (if c = CR then [] else [c]))"
      by (rule given_append [OF that(2)]) (simp add: data_byte_def)
    ultimately show ?thesis using that(1) by (fastforce simp: after_calls_def)
  qed
  consider "st = s_part_data" "h = []" | "st = s_part_data_almost_boundary" "h = [CR]" "c = LF"
    | "st = s_part_data_almost_boundary" "h = [CR]" "c \<noteq> LF"
    | "st = s_part_data_boundary" "k < length b" "h = [CR, LF] @ take k b" "c = b ! k"
    | "st = s_part_data_boundary" "k < length b" "h = [CR, LF] @ take k b" "c \<noteq> b ! k"
    using assms(1) by (auto simp: held_back_def pos)
  then show ?thesis
  proof cases
    case 1
    then show ?thesis by (intro again [of "[]"]) (simp_all add: part_byte_def pos after_calls_def)
  next
    case 2
    then have "part_byte b c pos = Some ((s_part_data_boundary, 0), [])" "held_back b (s_part_data_boundary, 0) [CR, LF]"
      using assms(3) by (simp_all add: part_byte_def pos held_back_def)
    then show ?thesis using 2 by fastforce
  next
    case 3
    then show ?thesis by (intro again [of "[On_part_data [CR]]"]) (simp_all add: part_byte_def pos)
  next
    case 4
    then have t: "take (Suc k) b = take k b @ [c]" by (simp add: take_Suc_conv_app_nth)
    then have "Suc k \<noteq> length b" using assms(2) 4 by auto
    then have "part_byte b c pos = Some ((s_part_data_boundary, Suc k), [])" "held_back b (s_part_data_boundary, Suc k) (h @ [c])"
      using 4 t by (simp_all add: part_byte_def pos held_back_def)
    then show ?thesis by fastforce
  next
    case 5
    then show ?thesis by (intro again [of "[On_part_data h]"]) (auto simp add: part_byte_def pos)
  qed
qed

lemma part_data_run:
  assumes "held_back b pos h" "\<not> sublist ([CR, LF] @ b) (h @ d)" "b \<noteq> []"
  shows "\<exists>pos' es h' x. part_bytes b d pos = Some (pos', es) \<and> held_back b pos' h' \<and> given es x \<and> x @ h' = h @ d"
  using assms(1,2)
proof (induction d arbitrary: pos h)
  case Nil
  then show ?case by fastforce
next
  case (Cons c d)
  have "h @ [c] \<noteq> [CR, LF] @ b"
  proof
    assume "h @ [c] = [CR, LF] @ b"
    then have "h @ c # d = ([CR, LF] @ b) @ d" by (metis append.assoc append_Cons append_Nil)
    then show False using Cons.prems(2) by (metis sublist_append_rightI)
  qed
  from data_byte_step [OF Cons.prems(1) this assms(3)] obtain pos1 es h1 x where
    1: "part_byte b c pos = Some (pos1, es)" "held_back b pos1 h1" "given es x" "x @ h1 = h @ [c]" by blast
  have "x @ (h1 @ d) = h @ c # d" using 1(4) by (metis append.assoc append_Cons append_Nil)
  then have "\<not> sublist ([CR, LF] @ b) (h1 @ d)"
    using Cons.prems(2) by (metis sublist_append_leftI sublist_order.order_trans)
  from Cons.IH [OF 1(2) this] obtain pos2 fs h2 y where
    2: "part_bytes b d pos1 = Some (pos2, fs)" "held_back b pos2 h2" "given fs y" "y @ h2 = h1 @ d" by blast
  have "part_bytes b (c # d) pos = Some (pos2, es @ fs)" "given (es @ fs) (x @ y)" "(x @ y) @ h2 = h @ c # d"
    using 1 2 \<open>x @ (h1 @ d) = h @ c # d\<close> by (simp_all add: given_append)
  then show ?case using 2(2) by blast
qed

lemma boundary_run:
  assumes "j < length b"
  shows "part_bytes b (drop j b) (s_part_data_boundary, j) = Some ((s_part_data_almost_end, length b), [On_part_data_end])"
  using assms
proof (induction "length b - j" arbitrary: j)
  case (Suc n)
  then have d: "drop j b = b ! j # drop (Suc j) b" by (simp add: Cons_nth_drop_Suc)
  show ?case
  proof (cases "Suc j = length b")
    case True
    then show ?thesis by (simp add: d part_byte_def)
  next
    case False
    then show ?thesis using Suc by (simp add: d part_byte_def)
  qed
qed simp

lemma delimiter_run:
  assumes "held_back b pos h" "CR \<notin> set b" "b \<noteq> []"
  shows "\<exists>es. part_bytes b ([CR, LF] @ b) pos = Some ((s_part_data_almost_end, length b), es @ [On_part_data_end]) \<and> given es h \<and> es \<noteq> []"
proof -
  obtain st k where pos: "pos = (st, k)" by fastforce
  have "k < length b \<Longrightarrow> b ! k \<noteq> CR" using assms(2) by (metis nth_mem)
  then have "\<exists>es j. part_byte b CR pos = Some ((s_part_data_almost_boundary, j), es) \<and> given es h \<and> es \<noteq> []"
    using assms(1) by (auto simp: held_back_def pos part_byte_def after_calls_def data_byte_def)
  moreover have "part_bytes b b (s_part_data_boundary, 0) = Some ((s_part_data_almost_end, length b), [On_part_data_end])"
    using boundary_run [of 0 b] assms(3) by simp
  ultimately show ?thesis by (auto simp: part_byte_def)
qed

lemma part_data_starts:
  assumes "part_bytes b (c # cs) (s_part_data, k) = Some (pos, es)"
  shows "part_bytes b (c # cs) (s_part_data_start, k) = Some (pos, On_headers_complete # es)"
  using assms by (cases "data_byte c k") (auto simp: part_byte_def after_calls_def split: option.splits)

lemma data_reads:
  assumes "\<not> sublist ([CR, LF] @ b) d" "CR \<notin> set b" "b \<noteq> []"
  shows "reads b (d @ [CR, LF] @ b) (s_part_data_start, k) (s_part_data_almost_end, length b)
    [On_headers_complete, On_part_data d, On_part_data_end]"
proof -
  have "held_back b (s_part_data, k) []" by (simp add: held_back_def)
  from part_data_run [OF this _ assms(3), of d] assms(1) obtain pos es h x where
    1: "part_bytes b d (s_part_data, k) = Some (pos, es)" "held_back b pos h" "given es x" "x @ h = d" by auto
  from delimiter_run [OF 1(2) assms(2,3)] obtain fs where
    2: "part_bytes b ([CR, LF] @ b) pos = Some ((s_part_data_almost_end, length b), fs @ [On_part_data_end])" "given fs h" "fs \<noteq> []" by blast
  have "part_bytes b (d @ [CR, LF] @ b) (s_part_data, k) = Some ((s_part_data_almost_end, length b), (es @ fs) @ [On_part_data_end])"
    using 1(1) 2(1) by (simp add: part_bytes_append del: part_bytes.simps)
  moreover obtain c cs where "d @ [CR, LF] @ b = c # cs" by (metis append_Cons neq_Nil_conv append_is_Nil_conv)
  ultimately have "part_bytes b (d @ [CR, LF] @ b) (s_part_data_start, k)
      = Some ((s_part_data_almost_end, length b), [On_headers_complete] @ (es @ fs) @ [On_part_data_end])"
    using part_data_starts by (metis append_Cons append_Nil)
  moreover have "merged (es @ fs) = merged [On_part_data d]"
    using given_merged [OF given_append [OF 1(3) 2(2)]] 2(3) 1(4) by simp
  then have "merged ([On_headers_complete] @ (es @ fs) @ [On_part_data_end]) = merged ([On_headers_complete] @ [On_part_data d] @ [On_part_data_end])"
    by (metis merged_append)
  ultimately show ?thesis by (simp add: reads_def)
qed

lemma part_reads:
  assumes "good_part b q" "CR \<notin> set b" "b \<noteq> []" "pos = (s_start_boundary, length b) \<or> pos = (s_part_data_almost_end, length b)"
  shows "reads b (part_text b q) pos (s_part_data_almost_end, length b) (part_calls q)"
proof -
  have q: "list_all good_header (fst q)" "\<not> sublist ([CR, LF] @ b) (snd q)" using assms(1) by (simp_all add: good_part_def)
  have 1: "reads b [CR, LF] pos (s_header_field_start, snd (if fst pos = s_start_boundary then (s_start, 0) else pos)) [On_part_data_begin]"
    using assms(4) by (auto simp: reads_def part_byte_def start_byte_def)
  have 2: "reads b [CR, LF] (s_header_field_start, k) (s_part_data_start, k) []" for k
    by (simp add: reads_def part_byte_def)
  from reads_append [OF 1 reads_append [OF headers_read [OF q(1)] reads_append [OF 2 data_reads [OF q(2) assms(2,3)]]]]
  show ?thesis by (simp add: part_text_def part_calls_def)
qed

lemma parts_read:
  assumes "list_all (good_part b) parts" "CR \<notin> set b" "b \<noteq> []"
  shows "reads b (concat (map (part_text b) parts)) (s_part_data_almost_end, length b) (s_part_data_almost_end, length b)
    (concat (map part_calls parts))"
  using assms(1) by (induction parts) (auto intro: reads_Nil reads_append part_reads [OF _ assms(2,3)])

lemma start_run:
  assumes "j \<le> length b"
  shows "part_bytes b (drop j b) (s_start_boundary, j) = Some ((s_start_boundary, length b), [])"
  using assms
proof (induction "length b - j" arbitrary: j)
  case (Suc n)
  then have "drop j b = b ! j # drop (Suc j) b" by (simp add: Cons_nth_drop_Suc)
  then show ?case using Suc by (simp add: part_byte_def start_byte_def nth_append)
qed simp

lemma start_reads:
  assumes "b \<noteq> []"
  shows "reads b b (s_start, 0) (s_start_boundary, length b) []"
proof -
  have "part_bytes b b (s_start, 0) = part_bytes b b (s_start_boundary, 0)"
    using assms by (cases b) (simp_all add: part_byte_def)
  then show ?thesis using start_run [of 0 b] by (simp add: reads_def)
qed

lemma end_run: "part_bytes b cs (s_end, k) = Some ((s_end, k), [])"
  by (induction cs) (simp_all add: part_byte_def)

definition body_calls :: "mp_part list \<Rightarrow> mp_event list" where
  "body_calls parts = concat (map part_calls parts) @ [On_body_end]"

lemma body_reads:
  assumes "list_all (good_part b) parts" "parts \<noteq> []" "CR \<notin> set b" "b \<noteq> []"
  shows "reads b (body_text b parts epilogue) (s_start, 0) (s_end, length b) (body_calls parts)"
proof -
  obtain q qs where parts: "parts = q # qs" using assms(2) by (cases parts) auto
  have 1: "reads b (part_text b q) (s_start_boundary, length b) (s_part_data_almost_end, length b) (part_calls q)"
    by (rule part_reads) (use assms parts in auto)
  have 2: "reads b (concat (map (part_text b) qs)) (s_part_data_almost_end, length b) (s_part_data_almost_end, length b) (concat (map part_calls qs))"
    by (rule parts_read) (use assms parts in auto)
  have 3: "reads b ([45, 45] @ epilogue) (s_part_data_almost_end, length b) (s_end, length b) [On_body_end]"
    by (simp add: reads_def part_byte_def end_run)
  from reads_append [OF start_reads [OF assms(4)] reads_append [OF 1 reads_append [OF 2 3]]]
  show ?thesis by (simp add: body_text_def body_calls_def parts)
qed

text \<open>Calls of which no two in a row belong together are as they are merged.\<close>

fun steady :: "mp_event list \<Rightarrow> bool" where
  "steady (e # f # es) \<longleftrightarrow> same_call e f = None \<and> steady (f # es)"
| "steady _ \<longleftrightarrow> True"

lemma steady_merged: "steady es \<Longrightarrow> merged es = es"
proof (induction es rule: steady.induct)
  case (1 e f es)
  have "merged (e # f # es) = add_call e (merged (f # es))" by (simp add: merged_def)
  then show ?case using 1 by (simp add: add_call_def)
qed (simp_all add: merged_def add_call_def)

lemma headers_steady:
  "steady (concat (map (\<lambda>h. [On_header_field (fst h), On_header_value (snd h)]) hs) @ On_headers_complete # es) = steady (On_headers_complete # es)"
proof (induction hs)
  case (Cons h hs)
  then show ?case by (cases hs) simp_all
qed simp

lemma part_steady: "steady (part_calls q @ es) = steady (On_part_data_end # es)"
proof (cases "fst q")
  case Nil
  then show ?thesis by (cases es) (simp_all add: part_calls_def)
next
  case (Cons h hs)
  then show ?thesis
    using headers_steady [of "fst q" "[On_part_data (snd q), On_part_data_end] @ es"] by (simp add: part_calls_def)
qed

lemma body_steady: "steady (body_calls parts)"
proof -
  have "steady (On_part_data_end # concat (map part_calls qs) @ [On_body_end])" for qs
    by (induction qs) (use part_steady in \<open>auto simp: part_calls_def\<close>)
  then show ?thesis using part_steady by (cases parts) (simp_all add: body_calls_def)
qed

text \<open>Calls that merge to a call and others begin with the pieces of that call.\<close>

definition pieces_of :: "mp_event \<Rightarrow> mp_event list \<Rightarrow> bool" where
  "pieces_of e cs \<longleftrightarrow>
     (case e of
        On_header_field x \<Rightarrow> (\<exists>xs. cs = map On_header_field xs \<and> concat xs = x)
      | On_header_value x \<Rightarrow> (\<exists>xs. cs = map On_header_value xs \<and> concat xs = x)
      | On_part_data x \<Rightarrow> (\<exists>xs. cs = map On_part_data xs \<and> concat xs = x)
      | _ \<Rightarrow> cs = [e]) \<and> cs \<noteq> []"

lemma pieces_single: "pieces_of e [e]"
proof -
  have "\<exists>xs. [K x] = map K xs \<and> concat xs = x" for K :: "bytes \<Rightarrow> mp_event" and x by (intro exI [of _ "[x]"]) simp
  then show ?thesis by (cases e) (simp_all add: pieces_of_def)
qed

lemma pieces_more: "same_call c f = Some g \<Longrightarrow> pieces_of f cs \<Longrightarrow> pieces_of g (c # cs)"
proof -
  have more: "\<exists>ys. K x # map K xs = map K ys \<and> concat ys = x @ concat xs" for K :: "bytes \<Rightarrow> mp_event" and x xs
    by (intro exI [of _ "x # xs"]) simp
  show "same_call c f = Some g \<Longrightarrow> pieces_of f cs \<Longrightarrow> pieces_of g (c # cs)"
    by (cases c; cases f) (auto simp: pieces_of_def more)
qed

lemma merged_empty [simp]: "merged cs = [] \<longleftrightarrow> cs = []"
  by (cases cs) (auto simp: merged_def add_call_def split: list.splits option.splits)

lemma merged_splits:
  assumes "merged cs = e # es"
  shows "\<exists>c1 c2. cs = c1 @ c2 \<and> pieces_of e c1 \<and> merged c2 = es"
  using assms
proof (induction cs arbitrary: e es)
  case (Cons c cs)
  have m: "add_call c (merged cs) = e # es" using Cons.prems by (simp add: merged_def)
  show ?case
  proof (cases "merged cs")
    case Nil
    then show ?thesis using m pieces_single by (intro exI [of _ "[c]"] exI [of _ cs]) (auto simp: add_call_def merged_def)
  next
    case (Cons f fs)
    show ?thesis
    proof (cases "same_call c f")
      case None
      then show ?thesis using m Cons pieces_single by (intro exI [of _ "[c]"] exI [of _ cs]) (auto simp: add_call_def)
    next
      case (Some g)
      then have "e = g" "es = fs" using m Cons by (simp_all add: add_call_def)
      moreover obtain c1 c2 where "cs = c1 @ c2" "pieces_of f c1" "merged c2 = fs" using Cons.IH [OF Cons] by blast
      ultimately show ?thesis using pieces_more [OF Some] by (intro exI [of _ "c # c1"] exI [of _ c2]) simp
    qed
  qed
qed (simp add: merged_def)

text \<open>The body in any pieces: the calls are those of its parts, cut somehow, and the parser is at the end.\<close>

lemma body_in_pieces:
  assumes "concat ps = body_text b parts epilogue" "list_all (good_part b) parts" "parts \<noteq> []" "CR \<notin> set b" "b \<noteq> []"
  shows "\<exists>p1 cs. merged cs = body_calls parts \<and> mp_state p1 = s_end
    \<and> (\<forall>cb (s :: 's) s1. replay cb cs s = (s1, True) \<longrightarrow> feed_pieces (mp_feed cb) ps (multipart_parser_init b, s) = ((p1, s1), True))"
proof -
  obtain es where "part_bytes b (concat ps) (s_start, 0) = Some ((s_end, length b), es)" "merged es = body_calls parts"
    using body_reads [OF assms(2-5), of epilogue] assms(1) steady_merged [OF body_steady] by (auto simp: reads_def)
  then show ?thesis using pieces_calls [OF _ assms(5)] by (metis fst_conv)
qed

end
