(* ===== verification/Multipart_Upload.thy ===== *)
theory Multipart_Upload
  imports Multipart_Parser Hex
begin

text \<open>
  \<^verbatim>\<open>components/multipart_upload/multipart_upload.c\<close>: an upload by a \<^verbatim>\<open>multipart/form-data\<close> request. The body is
  received in pieces, decoded when it comes in chunks, parsed, and the data of a part is handed to the
  handlers of the caller. What the server answers to the receive calls is a list of results; a
  request that still waits for one has no result yet. Allocation does not fail.
\<close>

section \<open>Texts\<close>

definition byte_char :: "u8 \<Rightarrow> char" where
  "byte_char b = char_of (unat b)"

definition char_byte :: "char \<Rightarrow> u8" where
  "char_byte c = of_nat (of_char c)"

text \<open>A buffer read as a C string: up to the first NUL.\<close>

definition c_text :: "bytes \<Rightarrow> string" where
  "c_text bs = map byte_char (takeWhile (\<lambda>b. b \<noteq> 0) bs)"

definition same_prefix :: "string \<Rightarrow> string \<Rightarrow> bool" where
  "same_prefix pat s \<longleftrightarrow> map lower_char (take (length pat) s) = map lower_char pat"

fun ci_strstr :: "string \<Rightarrow> string \<Rightarrow> string option" where
  "ci_strstr [] pat = None"
| "ci_strstr (c # cs) pat =
     (if pat = [] then None else if same_prefix pat (c # cs) then Some (c # cs) else ci_strstr cs pat)"

fun find_bytes :: "bytes \<Rightarrow> bytes \<Rightarrow> nat option" where
  "find_bytes [] pat = None"
| "find_bytes (c # cs) pat =
     (if pat = [] then None else if take (length pat) (c # cs) = pat then Some 0 else map_option Suc (find_bytes cs pat))"

section \<open>The chunked transfer encoding\<close>

datatype dechunk_state = DC_READ_SIZE | DC_READ_DATA | DC_READ_DATA_CRLF | DC_READ_TRAILERS | DC_DONE | DC_ERROR

record dechunker =
  dc_state :: dechunk_state
  chunk_remaining :: nat
  in_ext :: bool
  size_buf :: string
  trailer_line_len :: nat

definition dechunker_init :: dechunker where
  "dechunker_init = \<lparr>dc_state = DC_READ_SIZE, chunk_remaining = 0, in_ext = False, size_buf = [], trailer_line_len = 0\<rparr>"

text \<open>\<open>strtoul\<close> on the collected digits: a value that does not fit is the largest one.\<close>

definition chunk_size :: "string \<Rightarrow> nat" where
  "chunk_size s = min (hex_num s) 0xFFFFFFFF"

text \<open>A byte outside the data of a chunk. \<open>False\<close>: the loop stops before it.\<close>

definition size_byte :: "u8 \<Rightarrow> dechunker \<Rightarrow> dechunker \<times> bool" where
  "size_byte c dc =
     (if c = CR then (dc, True)
      else if c = LF then
        if size_buf dc = [] then (dc\<lparr>dc_state := DC_ERROR\<rparr>, False)
        else
          let n = chunk_size (size_buf dc); dc1 = dc\<lparr>chunk_remaining := n, size_buf := [], in_ext := False\<rparr> in
          if n = 0 then (dc1\<lparr>dc_state := DC_READ_TRAILERS, trailer_line_len := 0\<rparr>, True)
          else (dc1\<lparr>dc_state := DC_READ_DATA\<rparr>, True)
      else if c = 59 then (dc\<lparr>in_ext := True\<rparr>, True)
      else if \<not> in_ext dc then
        if isxdigit (byte_char c) then
          if length (size_buf dc) < 15 then (dc\<lparr>size_buf := size_buf dc @ [byte_char c]\<rparr>, True)
          else (dc\<lparr>dc_state := DC_ERROR\<rparr>, False)
        else if c = 32 \<or> c = 9 then (dc, True)
        else (dc\<lparr>dc_state := DC_ERROR\<rparr>, False)
      else (dc, True))"

definition dc_byte :: "u8 \<Rightarrow> dechunker \<Rightarrow> dechunker \<times> bool" where
  "dc_byte c dc =
     (case dc_state dc of
        DC_READ_SIZE \<Rightarrow> size_byte c dc
      | DC_READ_DATA_CRLF \<Rightarrow>
          if c = CR then (dc, True)
          else if c = LF then (dc\<lparr>dc_state := DC_READ_SIZE, size_buf := [], in_ext := False\<rparr>, True)
          else (dc\<lparr>dc_state := DC_ERROR\<rparr>, False)
      | DC_READ_TRAILERS \<Rightarrow>
          if c = CR then (dc, True)
          else if c = LF then
            if trailer_line_len dc = 0 then (dc\<lparr>dc_state := DC_DONE\<rparr>, True) else (dc\<lparr>trailer_line_len := 0\<rparr>, True)
          else (dc\<lparr>trailer_line_len := trailer_line_len dc + 1\<rparr>, True)
      | _ \<Rightarrow> (dc, False))"

definition take_data :: "nat \<Rightarrow> dechunker \<Rightarrow> dechunker" where
  "take_data n dc =
     (let dc1 = dc\<lparr>chunk_remaining := chunk_remaining dc - n\<rparr> in
      if chunk_remaining dc1 = 0 then dc1\<lparr>dc_state := DC_READ_DATA_CRLF\<rparr> else dc1)"

text \<open>The loop: the state after it, the bytes put out and the rest of the input. \<open>space\<close> is what is left of
  the output buffer.\<close>

fun dc_loop :: "nat \<Rightarrow> bytes \<Rightarrow> dechunker \<Rightarrow> dechunker \<times> bytes \<times> bytes" where
  "dc_loop space [] dc = (dc, [], [])"
| "dc_loop space (c # cs) dc =
     (if dc_state dc = DC_READ_DATA then
        let n = min (min (length (c # cs)) (chunk_remaining dc)) space in
        if n = 0 then (dc, [], c # cs)
        else
          case dc_loop (space - n) (drop n (c # cs)) (take_data n dc) of
            (dc1, out, rest) \<Rightarrow> (dc1, take n (c # cs) @ out, rest)
      else
        case dc_byte c dc of (dc1, ok) \<Rightarrow> if ok then dc_loop space cs dc1 else (dc1, [], c # cs))"

definition dechunker_consume :: "dechunker \<Rightarrow> bytes \<Rightarrow> nat \<Rightarrow> dechunker \<times> bytes \<times> bytes" where
  "dechunker_consume dc bs out_cap = (if out_cap = 0 then (dc, [], bs) else dc_loop out_cap bs dc)"

section \<open>The parts\<close>

datatype header_feed_state = HF_NONE | HF_FIELD | HF_VALUE

record multipart_part_info =
  pi_name :: string
  pi_filename :: string
  pi_content_type :: string

text \<open>The handlers of the caller; \<open>on_part_data\<close> tells whether it returned success. A NULL handler is \<open>None\<close>.\<close>

record 'u multipart_upload_handlers =
  on_part_begin :: "(multipart_part_info \<Rightarrow> 'u \<Rightarrow> 'u \<times> bool) option"
  on_part_data :: "(bytes \<Rightarrow> 'u \<Rightarrow> 'u \<times> bool) option"
  on_part_end :: "('u \<Rightarrow> 'u) option"
  on_finished :: "('u \<Rightarrow> 'u) option"

record 'u mp_ctx =
  feed_state :: header_feed_state
  cur_field :: bytes
  cur_value :: bytes
  part_info :: multipart_part_info
  headers_done_for_part :: bool
  accept_current_part :: bool
  had_error :: bool
  user_ctx :: 'u

definition no_info :: multipart_part_info where
  "no_info = \<lparr>pi_name = [], pi_filename = [], pi_content_type = []\<rparr>"

definition mp_ctx_init :: "'u \<Rightarrow> 'u mp_ctx" where
  "mp_ctx_init u = \<lparr>feed_state = HF_NONE, cur_field = [], cur_value = [], part_info = no_info, headers_done_for_part = False,
     accept_current_part = False, had_error = False, user_ctx = u\<rparr>"

text \<open>The text after \<open>name=\<close>, without its quote, up to a semicolon or a quote.\<close>

definition param_text :: "nat \<Rightarrow> string \<Rightarrow> string" where
  "param_text cap s =
     (let t = (case s of c # cs \<Rightarrow> if c = CHR 0x22 then cs else s | [] \<Rightarrow> [])
      in take (cap - 1) (takeWhile (\<lambda>c. c \<noteq> CHR '';'' \<and> c \<noteq> CHR 0x22) t))"

definition note_header :: "string \<Rightarrow> string \<Rightarrow> multipart_part_info \<Rightarrow> multipart_part_info" where
  "note_header field v p =
     (if same_prefix ''Content-Disposition'' field then
        let p1 = (case ci_strstr v ''name='' of None \<Rightarrow> p | Some n \<Rightarrow> p\<lparr>pi_name := param_text 64 (drop 5 n)\<rparr>)
        in (case ci_strstr v ''filename='' of None \<Rightarrow> p1 | Some f \<Rightarrow> p1\<lparr>pi_filename := param_text 128 (drop 9 f)\<rparr>)
      else if same_prefix ''Content-Type'' field then p\<lparr>pi_content_type := take 63 v\<rparr>
      else p)"

definition mp_commit_header :: "'u mp_ctx \<Rightarrow> 'u mp_ctx" where
  "mp_commit_header x =
     (if cur_field x = [] then x
      else x\<lparr>part_info := note_header (c_text (cur_field x)) (c_text (cur_value x)) (part_info x),
             cur_field := [], cur_value := [], feed_state := HF_NONE\<rparr>)"

definition cb_on_header_field :: "bytes \<Rightarrow> 'u mp_ctx \<Rightarrow> 'u mp_ctx" where
  "cb_on_header_field bs x0 =
     (let x = (if feed_state x0 = HF_VALUE then mp_commit_header x0 else x0)
      in x\<lparr>feed_state := HF_FIELD, cur_field := cur_field x @ take (63 - length (cur_field x)) bs\<rparr>)"

definition cb_on_header_value :: "bytes \<Rightarrow> 'u mp_ctx \<Rightarrow> 'u mp_ctx" where
  "cb_on_header_value bs x = x\<lparr>feed_state := HF_VALUE, cur_value := cur_value x @ take (255 - length (cur_value x)) bs\<rparr>"

definition cb_on_headers_complete :: "'u multipart_upload_handlers \<Rightarrow> 'u mp_ctx \<Rightarrow> 'u mp_ctx" where
  "cb_on_headers_complete h x0 =
     (let x = mp_commit_header x0;
          (u, acc) = (case on_part_begin h of None \<Rightarrow> (user_ctx x, False) | Some f \<Rightarrow> f (part_info x) (user_ctx x))
      in x\<lparr>accept_current_part := acc, user_ctx := u, headers_done_for_part := True\<rparr>)"

definition cb_on_part_data :: "'u multipart_upload_handlers \<Rightarrow> bytes \<Rightarrow> 'u mp_ctx \<Rightarrow> 'u mp_ctx \<times> bool" where
  "cb_on_part_data h bs x =
     (case on_part_data h of
        None \<Rightarrow> (x, True)
      | Some f \<Rightarrow>
          if accept_current_part x then
            (case f bs (user_ctx x) of
               (u, ok) \<Rightarrow> if ok then (x\<lparr>user_ctx := u\<rparr>, True) else (x\<lparr>user_ctx := u, had_error := True\<rparr>, False))
          else (x, True))"

definition cb_on_part_data_end :: "'u multipart_upload_handlers \<Rightarrow> 'u mp_ctx \<Rightarrow> 'u mp_ctx" where
  "cb_on_part_data_end h x =
     x\<lparr>user_ctx := (case on_part_end h of Some f \<Rightarrow> if accept_current_part x then f (user_ctx x) else user_ctx x | None \<Rightarrow> user_ctx x),
       part_info := no_info, headers_done_for_part := False, accept_current_part := False,
       cur_field := [], cur_value := [], feed_state := HF_NONE\<rparr>"

definition cb_on_body_end :: "'u multipart_upload_handlers \<Rightarrow> 'u mp_ctx \<Rightarrow> 'u mp_ctx" where
  "cb_on_body_end h x = x\<lparr>user_ctx := (case on_finished h of Some f \<Rightarrow> f (user_ctx x) | None \<Rightarrow> user_ctx x)\<rparr>"

definition upload_settings :: "'u multipart_upload_handlers \<Rightarrow> 'u mp_ctx multipart_parser_settings" where
  "upload_settings h e x =
     (case e of
        On_part_data_begin \<Rightarrow> (x, True)
      | On_header_field bs \<Rightarrow> (cb_on_header_field bs x, True)
      | On_header_value bs \<Rightarrow> (cb_on_header_value bs x, True)
      | On_headers_complete \<Rightarrow> (cb_on_headers_complete h x, True)
      | On_part_data bs \<Rightarrow> cb_on_part_data h bs x
      | On_part_data_end \<Rightarrow> (cb_on_part_data_end h x, True)
      | On_body_end \<Rightarrow> (cb_on_body_end h x, True))"

section \<open>The boundary\<close>

function boundary_param :: "string \<Rightarrow> string option" where
  "boundary_param ct =
     (let s = dropWhile (\<lambda>c. c = CHR '' '' \<or> c = CHR '';'') ct in
      if s = [] then None
      else
        let token = takeWhile (\<lambda>c. c \<noteq> CHR '';'') s in
        if length token \<ge> 9 \<and> same_prefix ''boundary='' token then
          Some (case drop 9 s of
                  q # v \<Rightarrow>
                    if q = CHR 0x22 then takeWhile (\<lambda>c. c \<noteq> CHR 0x22) v
                    else rev (dropWhile (\<lambda>c. c = CHR '' '') (rev (drop 9 token)))
                | [] \<Rightarrow> [])
        else boundary_param (drop (length token) s))"
  by pat_completeness auto
termination
proof (relation "measure length"; simp)
  fix ct :: string
  let ?s = "dropWhile (\<lambda>c. c = CHR '' '' \<or> c = CHR '';'') ct"
  assume "\<exists>x\<in>set ct. x \<noteq> CHR '' '' \<and> x \<noteq> CHR '';''"
  then have "?s \<noteq> []" by auto
  moreover from this have "hd ?s \<noteq> CHR '';''" using hd_dropWhile by blast
  ultimately have "length (takeWhile (\<lambda>c. c \<noteq> CHR '';'') ?s) > 0" "length ?s > 0" by (cases ?s; auto)+
  moreover have "length ?s \<le> length ct" by (rule length_dropWhile_le)
  ultimately show "length ?s - length (takeWhile (\<lambda>c. c \<noteq> CHR '';'') ?s) < length ct"
    by linarith
qed

declare boundary_param.simps [simp del]

definition parse_boundary_from_content_type :: "string \<Rightarrow> nat \<Rightarrow> bytes option" where
  "parse_boundary_from_content_type ct out_len =
     (case boundary_param ct of
        None \<Rightarrow> None
      | Some v \<Rightarrow> if length v + 2 + 1 > out_len then None else Some ([45, 45] @ map char_byte v))"

definition extract_boundary_from_first_line :: "bytes \<Rightarrow> nat \<Rightarrow> bytes option" where
  "extract_boundary_from_first_line data max_len =
     (let line = (if CR \<in> set data then Some (takeWhile (\<lambda>c. c \<noteq> CR) data)
                  else if LF \<in> set data then Some (takeWhile (\<lambda>c. c \<noteq> LF) data) else None)
      in case line of None \<Rightarrow> None | Some l \<Rightarrow> if length l \<ge> max_len then None else Some l)"

section \<open>The request\<close>

text \<open>The results of \<open>httpd_req_recv\<close>: some bytes, the time-out, or another error or the end.\<close>

datatype recv_result = Recv_data bytes | Recv_timeout | Recv_error

record upload_request =
  hdr_content_type :: "string option"
  hdr_transfer_encoding :: "string option"
  content_len :: u32

definition request_is_chunked :: "upload_request \<Rightarrow> bool" where
  "request_is_chunked r =
     (case hdr_transfer_encoding r of
        None \<Rightarrow> False
      | Some te \<Rightarrow> te \<noteq> [] \<and> length te \<le> 128 \<and> ci_strstr te ''chunked'' \<noteq> None)"

text \<open>The loops over the body. \<open>None\<close>: the request waits for the next bytes.\<close>

type_synonym 'u parse_state = "multipart_parser \<times> 'u mp_ctx"

fun body_loop :: "'u mp_ctx multipart_parser_settings \<Rightarrow> int \<Rightarrow> recv_result list \<Rightarrow> 'u parse_state \<Rightarrow> ('u parse_state \<times> bool) option" where
  "body_loop cb remaining [] st = (if remaining > 0 then None else Some (st, True))"
| "body_loop cb remaining (r # rs) st =
     (if remaining \<le> 0 then Some (st, True)
      else
        case r of
          Recv_timeout \<Rightarrow> body_loop cb remaining rs st
        | Recv_error \<Rightarrow> Some (st, False)
        | Recv_data bs \<Rightarrow>
            (case mp_feed cb bs st of
               (st1, ok) \<Rightarrow> if ok then body_loop cb (remaining - int (length bs)) rs st1 else Some (st1, False)))"

fun open_loop :: "'u mp_ctx multipart_parser_settings \<Rightarrow> recv_result list \<Rightarrow> 'u parse_state \<Rightarrow> ('u parse_state \<times> bool) option" where
  "open_loop cb [] st = None"
| "open_loop cb (Recv_timeout # rs) st = open_loop cb rs st"
| "open_loop cb (Recv_error # rs) st = Some (st, True)"
| "open_loop cb (Recv_data bs # rs) st =
     (case mp_feed cb bs st of (st1, ok) \<Rightarrow> if ok then open_loop cb rs st1 else Some (st1, False))"

lemma dc_loop_rest: "dc_loop space bs dc = (dc1, out, rest) \<Longrightarrow> length rest \<le> length bs"
proof (induction space bs dc arbitrary: dc1 out rest rule: dc_loop.induct)
  case (2 space c cs dc)
  then show ?case by (fastforce simp: Let_def split: if_splits prod.splits)
qed simp

lemma consume_rest: "dechunker_consume dc bs cap = (dc1, out, rest) \<Longrightarrow> length rest \<le> length bs"
  using dc_loop_rest by (auto simp: dechunker_consume_def split: if_splits)

text \<open>The inner loop of the chunked body over what one receive brought.\<close>

function chunk_inner :: "'u mp_ctx multipart_parser_settings \<Rightarrow> nat \<Rightarrow> bytes \<Rightarrow> dechunker \<Rightarrow> 'u parse_state \<Rightarrow> dechunker \<times> 'u parse_state \<times> bool" where
  "chunk_inner cb rx_size raw dc st =
     (if raw = [] then (dc, st, True)
      else
        case dechunker_consume dc raw rx_size of
          (dc1, out, rest) \<Rightarrow>
            if dc_state dc1 = DC_ERROR then (dc1, st, False)
            else
              case (if out \<noteq> [] then mp_feed cb out st else (st, True)) of
                (st1, ok) \<Rightarrow>
                  if \<not> ok then (dc1, st1, False)
                  else if length rest = length raw then (dc1, st1, True)
                  else chunk_inner cb rx_size rest dc1 st1)"
  by pat_completeness auto
termination
  by (relation "measure (\<lambda>(cb, rx_size, raw, dc, st). length raw)") (auto dest!: consume_rest sym [of "(_, _, _)"] simp: le_less)

declare chunk_inner.simps [simp del]

fun chunk_loop :: "'u mp_ctx multipart_parser_settings \<Rightarrow> nat \<Rightarrow> recv_result list \<Rightarrow> dechunker \<Rightarrow> 'u parse_state \<Rightarrow> ('u parse_state \<times> bool) option" where
  "chunk_loop cb rx_size [] dc st = (if dc_state dc \<noteq> DC_DONE then None else Some (st, True))"
| "chunk_loop cb rx_size (r # rs) dc st =
     (if dc_state dc = DC_DONE then Some (st, True)
      else
        case r of
          Recv_timeout \<Rightarrow> chunk_loop cb rx_size rs dc st
        | Recv_error \<Rightarrow> Some (st, False)
        | Recv_data raw \<Rightarrow>
            (case chunk_inner cb rx_size raw dc st of
               (dc1, st1, ok) \<Rightarrow> if ok then chunk_loop cb rx_size rs dc1 st1 else Some (st1, False)))"

text \<open>Without a boundary in the header the first bytes of the body are read for it: the boundary found, the bytes
  read and not yet parsed, the state of the decoder and the receives left; or failure.\<close>

datatype preread = Pre_waits | Pre_fails | Pre_found bytes bytes dechunker "recv_result list"

fun preread_plain :: "nat \<Rightarrow> recv_result list \<Rightarrow> preread" where
  "preread_plain rx_size [] = Pre_waits"
| "preread_plain rx_size (Recv_timeout # rs) = preread_plain rx_size rs"
| "preread_plain rx_size (Recv_error # rs) = Pre_fails"
| "preread_plain rx_size (Recv_data bs # rs) =
     (case extract_boundary_from_first_line bs 256 of
        Some b \<Rightarrow> Pre_found b bs dechunker_init rs
      | None \<Rightarrow> if length bs \<ge> rx_size then Pre_fails else preread_plain rx_size rs)"

function preread_inner :: "nat \<Rightarrow> bytes \<Rightarrow> dechunker \<Rightarrow> bytes \<Rightarrow> dechunker \<times> bytes" where
  "preread_inner rx_size raw dc rx =
     (if raw = [] \<or> length rx \<ge> rx_size then (dc, rx)
      else
        case dechunker_consume dc raw (rx_size - length rx) of
          (dc1, out, rest) \<Rightarrow>
            if dc_state dc1 = DC_ERROR \<or> out \<noteq> [] \<or> length rest = length raw then (dc1, rx @ out)
            else preread_inner rx_size rest dc1 rx)"
  by pat_completeness auto
termination
  by (relation "measure (\<lambda>(rx_size, raw, dc, rx). length raw)") (auto dest!: consume_rest sym [of "(_, _, _)"] simp: le_less)

declare preread_inner.simps [simp del]

fun preread_chunked :: "nat \<Rightarrow> recv_result list \<Rightarrow> dechunker \<Rightarrow> bytes \<Rightarrow> preread" where
  "preread_chunked rx_size [] dc rx = Pre_waits"
| "preread_chunked rx_size (Recv_timeout # rs) dc rx = preread_chunked rx_size rs dc rx"
| "preread_chunked rx_size (Recv_error # rs) dc rx = Pre_fails"
| "preread_chunked rx_size (Recv_data raw # rs) dc rx =
     (case preread_inner rx_size raw dc rx of
        (dc1, rx1) \<Rightarrow>
          if dc_state dc1 = DC_ERROR then Pre_fails
          else
            (case (if rx1 \<noteq> [] then extract_boundary_from_first_line rx1 256 else None) of
               Some b \<Rightarrow> Pre_found b rx1 dc1 rs
             | None \<Rightarrow> if length rx1 \<ge> rx_size then Pre_fails else preread_chunked rx_size rs dc1 rx1))"

definition feed_initial :: "'u mp_ctx multipart_parser_settings \<Rightarrow> bytes \<Rightarrow> bytes \<Rightarrow> 'u parse_state \<Rightarrow> 'u parse_state \<times> bool" where
  "feed_initial cb boundary rx st =
     (if rx = [] then (st, True)
      else
        case mp_feed cb rx st of
          (st1, ok) \<Rightarrow>
            if ok then (st1, True)
            else
              (case find_bytes rx boundary of
                 Some pos \<Rightarrow> if pos > 0 then mp_feed cb (drop pos rx) st1 else (st1, False)
               | None \<Rightarrow> (st1, False)))"

definition header_boundary :: "upload_request \<Rightarrow> bytes option" where
  "header_boundary r =
     (case hdr_content_type r of
        None \<Rightarrow> None
      | Some ct \<Rightarrow> if ct \<noteq> [] \<and> length ct < 256 then parse_boundary_from_content_type ct 256 else None)"

definition receive_body ::
    "'u mp_ctx multipart_parser_settings \<Rightarrow> nat \<Rightarrow> upload_request \<Rightarrow> dechunker \<Rightarrow> recv_result list \<Rightarrow> 'u parse_state
     \<Rightarrow> ('u parse_state \<times> bool) option" where
  "receive_body cb rx_size r dc rs st =
     (if request_is_chunked r then chunk_loop cb rx_size rs dc st
      else if sint (content_len r) > 0 then body_loop cb (sint (content_len r)) rs st
      else open_loop cb rs st)"

definition multipart_upload_handle ::
    "'u multipart_upload_handlers \<Rightarrow> nat \<Rightarrow> upload_request \<Rightarrow> recv_result list \<Rightarrow> 'u \<Rightarrow> ('u \<times> bool) option" where
  "multipart_upload_handle h rx_buf_size r recvs u =
     (let rx_size = (if rx_buf_size \<noteq> 0 then rx_buf_size else 1024);
          cb = upload_settings h
      in case (case header_boundary r of
                 Some b \<Rightarrow> Pre_found b [] dechunker_init recvs
               | None \<Rightarrow> if request_is_chunked r then preread_chunked rx_size recvs dechunker_init [] else preread_plain rx_size recvs) of
           Pre_waits \<Rightarrow> None
         | Pre_fails \<Rightarrow> Some (u, False)
         | Pre_found b rx dc rs \<Rightarrow>
             (case feed_initial cb b rx (multipart_parser_init b, mp_ctx_init u) of
                (st, ok) \<Rightarrow>
                  if \<not> ok then Some (user_ctx (snd st), False)
                  else
                    map_option (\<lambda>(st, ok). (user_ctx (snd st), ok \<and> \<not> had_error (snd st)))
                      (receive_body cb rx_size r dc rs st)))"

section \<open>What the handlers are given\<close>

text \<open>A part as the handlers see it, its data in the pieces \<open>xs\<close>; \<open>None\<close> when a piece is refused.\<close>

definition header_note :: "bytes \<times> bytes \<Rightarrow> multipart_part_info \<Rightarrow> multipart_part_info" where
  "header_note h = note_header (c_text (take 63 (fst h))) (c_text (take 255 (snd h)))"

definition info_of :: "(bytes \<times> bytes) list \<Rightarrow> multipart_part_info" where
  "info_of hs = fold header_note hs no_info"

definition take_part :: "'u multipart_upload_handlers \<Rightarrow> (bytes \<times> bytes) list \<times> bytes list \<Rightarrow> 'u \<Rightarrow> 'u option" where
  "take_part h q u =
     (case (case on_part_begin h of None \<Rightarrow> (u, False) | Some f \<Rightarrow> f (info_of (fst q)) u) of
        (u1, acc) \<Rightarrow>
          if \<not> acc then Some u1
          else
            case (case on_part_data h of None \<Rightarrow> (u1, True) | Some f \<Rightarrow> feed_pieces f (snd q) u1) of
              (u2, ok) \<Rightarrow> if ok then Some (case on_part_end h of None \<Rightarrow> u2 | Some f \<Rightarrow> f u2) else None)"

fun take_parts :: "'u multipart_upload_handlers \<Rightarrow> ((bytes \<times> bytes) list \<times> bytes list) list \<Rightarrow> 'u \<Rightarrow> 'u option" where
  "take_parts h [] u = Some (case on_finished h of None \<Rightarrow> u | Some f \<Rightarrow> f u)"
| "take_parts h (q # qs) u = (case take_part h q u of None \<Rightarrow> None | Some u1 \<Rightarrow> take_parts h qs u1)"

lemma take_twice: "take (n - length (c @ take (n - length c) xs)) ys = take (n - length c - length xs) ys"
  by (cases "length xs \<le> n - length c") simp_all

lemma field_append: "cb_on_header_field (xs @ ys) x = cb_on_header_field ys (cb_on_header_field xs x)"
  using take_twice [of 63 "cur_field (if feed_state x = HF_VALUE then mp_commit_header x else x)" xs ys]
  by (simp add: cb_on_header_field_def Let_def del: length_append)

lemma value_append: "cb_on_header_value (xs @ ys) x = cb_on_header_value ys (cb_on_header_value xs x)"
  using take_twice [of 255 "cur_value x" xs ys] by (simp add: cb_on_header_value_def del: length_append)

lemma replay_field:
  "xs \<noteq> [] \<Longrightarrow> replay (upload_settings h) (map On_header_field xs) x = (cb_on_header_field (concat xs) x, True)"
proof (induction xs arbitrary: x)
  case (Cons a xs)
  then show ?case by (cases xs) (simp_all add: upload_settings_def field_append)
qed simp

lemma replay_value:
  "xs \<noteq> [] \<Longrightarrow> replay (upload_settings h) (map On_header_value xs) x = (cb_on_header_value (concat xs) x, True)"
proof (induction xs arbitrary: x)
  case (Cons a xs)
  then show ?case by (cases xs) (simp_all add: upload_settings_def value_append)
qed simp

definition header_fed :: "bytes \<times> bytes \<Rightarrow> 'u mp_ctx \<Rightarrow> 'u mp_ctx" where
  "header_fed h x = cb_on_header_value (snd h) (cb_on_header_field (fst h) x)"

lemma replay_headers:
  assumes "merged cs = concat (map (\<lambda>h. [On_header_field (fst h), On_header_value (snd h)]) hs) @ es"
  shows "\<exists>c1 c2. cs = c1 @ c2 \<and> merged c2 = es
    \<and> (\<forall>(h :: 'u multipart_upload_handlers) x. replay (upload_settings h) c1 x = (fold header_fed hs x, True))"
  using assms
proof (induction hs arbitrary: cs)
  case Nil
  then show ?case by (intro exI [of _ "[]"] exI [of _ cs]) simp
next
  case (Cons q hs)
  then have "merged cs = On_header_field (fst q) # On_header_value (snd q) # concat (map (\<lambda>h. [On_header_field (fst h), On_header_value (snd h)]) hs) @ es"
    by simp
  then obtain c1 c2 where 1: "cs = c1 @ c2" "pieces_of (On_header_field (fst q)) c1"
    "merged c2 = On_header_value (snd q) # concat (map (\<lambda>h. [On_header_field (fst h), On_header_value (snd h)]) hs) @ es"
    using merged_splits by blast
  obtain c3 c4 where 2: "c2 = c3 @ c4" "pieces_of (On_header_value (snd q)) c3"
    "merged c4 = concat (map (\<lambda>h. [On_header_field (fst h), On_header_value (snd h)]) hs) @ es"
    using merged_splits [OF 1(3)] by blast
  obtain c5 c6 where 3: "c4 = c5 @ c6" "merged c6 = es"
    "\<And>(h :: 'u multipart_upload_handlers) x. replay (upload_settings h) c5 x = (fold header_fed hs x, True)"
    using Cons.IH [OF 2(3)] by blast
  obtain xs ys where xs: "c1 = map On_header_field xs" "concat xs = fst q" "xs \<noteq> []"
    and ys: "c3 = map On_header_value ys" "concat ys = snd q" "ys \<noteq> []"
    using 1(2) 2(2) by (auto simp: pieces_of_def)
  have "replay (upload_settings h) (c1 @ c3 @ c5) x = (fold header_fed (q # hs) x, True)" for h :: "'u multipart_upload_handlers" and x
    using replay_field [OF xs(3), of h x] replay_value [OF ys(3), of h "cb_on_header_field (fst q) x"] 3(3) xs ys by (simp add: replay_append header_fed_def)
  then show ?case using 1(1) 2(1) 3(1,2) by (intro exI [of _ "c1 @ c3 @ c5"] exI [of _ c6]) simp
qed

lemma headers_committed:
  assumes "list_all good_header hs" "cur_field x = []" "cur_value x = []" "feed_state x = HF_NONE"
  shows "(hs = [] \<or> feed_state (fold header_fed hs x) = HF_VALUE)
    \<and> mp_commit_header (fold header_fed hs x) = x\<lparr>part_info := fold header_note hs (part_info x)\<rparr>"
  using assms(1)
proof (induction hs rule: rev_induct)
  case Nil
  then show ?case using assms(2) by (simp add: mp_commit_header_def)
next
  case (snoc q hs)
  let ?y = "fold header_fed hs x" and ?z = "x\<lparr>part_info := fold header_note hs (part_info x)\<rparr>"
  have "cb_on_header_field (fst q) ?y = ?z\<lparr>feed_state := HF_FIELD, cur_field := take 63 (fst q)\<rparr>"
    using snoc assms(2,4) by (cases "hs = []") (auto simp: cb_on_header_field_def)
  then have "fold header_fed (hs @ [q]) x = ?z\<lparr>feed_state := HF_VALUE, cur_field := take 63 (fst q), cur_value := take 255 (snd q)\<rparr>"
    using assms(3) by (simp add: header_fed_def cb_on_header_value_def)
  moreover have "take 63 (fst q) \<noteq> []" using snoc.prems by (simp add: good_header_def)
  ultimately show ?case
    using assms(2-4) by (cases x) (simp add: mp_commit_header_def header_note_def [of q])
qed

lemma replay_data:
  assumes "on_part_data h = Some f" "accept_current_part x" "feed_pieces f xs (user_ctx x) = (u, True)"
  shows "replay (upload_settings h) (map On_part_data xs) x = (x\<lparr>user_ctx := u\<rparr>, True)"
  using assms(2,3)
proof (induction xs arbitrary: x)
  case (Cons a xs)
  then show ?case using assms(1) by (auto simp: upload_settings_def cb_on_part_data_def split: prod.splits if_splits)
qed simp

lemma replay_no_data:
  assumes "on_part_data h = None \<or> \<not> accept_current_part x"
  shows "replay (upload_settings h) (map On_part_data xs) x = (x, True)"
  using assms by (induction xs) (auto simp: upload_settings_def cb_on_part_data_def split: option.splits)

lemma replay_part:
  assumes "merged cs = part_calls q @ es" "list_all good_header (fst q)"
  shows "\<exists>c1 c2 xs. cs = c1 @ c2 \<and> merged c2 = es \<and> concat xs = snd q
    \<and> (\<forall>(h :: 'u multipart_upload_handlers) u u2. take_part h (fst q, xs) u = Some u2 \<longrightarrow>
         replay (upload_settings h) c1 (mp_ctx_init u) = (mp_ctx_init u2, True))"
proof -
  obtain a1 a2 where 1: "cs = a1 @ a2" "pieces_of On_part_data_begin a1"
    "merged a2 = concat (map (\<lambda>h. [On_header_field (fst h), On_header_value (snd h)]) (fst q))
       @ [On_headers_complete, On_part_data (snd q), On_part_data_end] @ es"
    using merged_splits [of cs On_part_data_begin] assms(1) by (auto simp: part_calls_def)
  obtain b1 b2 where 2: "a2 = b1 @ b2" "merged b2 = On_headers_complete # On_part_data (snd q) # On_part_data_end # es"
    "\<And>(h :: 'u multipart_upload_handlers) x. replay (upload_settings h) b1 x = (fold header_fed (fst q) x, True)"
    using replay_headers [OF 1(3)] by auto
  obtain d1 d2 where 3: "b2 = d1 @ d2" "pieces_of On_headers_complete d1" "merged d2 = On_part_data (snd q) # On_part_data_end # es"
    using merged_splits [OF 2(2)] by blast
  obtain e1 e2 where 4: "d2 = e1 @ e2" "pieces_of (On_part_data (snd q)) e1" "merged e2 = On_part_data_end # es"
    using merged_splits [OF 3(3)] by blast
  obtain f1 f2 where 5: "e2 = f1 @ f2" "pieces_of On_part_data_end f1" "merged f2 = es"
    using merged_splits [OF 4(3)] by blast
  obtain xs where xs: "e1 = map On_part_data xs" "concat xs = snd q" using 4(2) by (auto simp: pieces_of_def)
  have one: "a1 = [On_part_data_begin]" "d1 = [On_headers_complete]" "f1 = [On_part_data_end]"
    using 1(2) 3(2) 5(2) by (simp_all add: pieces_of_def)
  have "replay (upload_settings h) (a1 @ b1 @ d1 @ e1 @ f1) (mp_ctx_init u) = (mp_ctx_init u2, True)"
    if t: "take_part h (fst q, xs) u = Some u2" for h :: "'u multipart_upload_handlers" and u u2
  proof -
    obtain u1 acc where b: "(case on_part_begin h of None \<Rightarrow> (u, False) | Some f \<Rightarrow> f (info_of (fst q)) u) = (u1, acc)" by fastforce
    note t' = t [unfolded take_part_def fst_conv snd_conv b prod.case]
    have "mp_commit_header (fold header_fed (fst q) (mp_ctx_init u)) = (mp_ctx_init u)\<lparr>part_info := info_of (fst q)\<rparr>"
      using headers_committed [OF assms(2), of "mp_ctx_init u"] by (simp add: mp_ctx_init_def info_of_def)
    then have c: "cb_on_headers_complete h (fold header_fed (fst q) (mp_ctx_init u))
        = (mp_ctx_init u)\<lparr>part_info := info_of (fst q), accept_current_part := acc, user_ctx := u1, headers_done_for_part := True\<rparr>" (is "_ = ?x")
      using b by (cases "on_part_begin h") (simp_all add: cb_on_headers_complete_def mp_ctx_init_def Let_def)
    have d: "\<exists>u3. replay (upload_settings h) e1 ?x = (?x\<lparr>user_ctx := u3\<rparr>, True)
        \<and> u2 = (if acc then (case on_part_end h of None \<Rightarrow> u3 | Some f \<Rightarrow> f u3) else u3)"
    proof (cases "acc \<and> on_part_data h \<noteq> None")
      case True
      then obtain f where f: "on_part_data h = Some f" by auto
      obtain u3 where "feed_pieces f xs u1 = (u3, True)" "u2 = (case on_part_end h of None \<Rightarrow> u3 | Some f \<Rightarrow> f u3)"
        using t' True f by (auto split: prod.splits if_splits)
      then show ?thesis using replay_data [OF f, of ?x xs u3] True xs(1) by auto
    next
      case False
      then show ?thesis
        using replay_no_data [of h ?x xs] t' xs(1) by (intro exI [of _ u1]) (auto split: prod.splits if_splits)
    qed
    then obtain u3 where u3: "replay (upload_settings h) e1 ?x = (?x\<lparr>user_ctx := u3\<rparr>, True)"
      "u2 = (if acc then (case on_part_end h of None \<Rightarrow> u3 | Some f \<Rightarrow> f u3) else u3)" by blast
    have "replay (upload_settings h) (d1 @ e1 @ f1) (fold header_fed (fst q) (mp_ctx_init u)) = (mp_ctx_init u2, True)"
      using u3 c unfolding one
      by (simp add: replay_append upload_settings_def [of h On_headers_complete] upload_settings_def [of h On_part_data_end]
          cb_on_part_data_end_def mp_ctx_init_def split: option.splits)
    moreover have "upload_settings h On_part_data_begin (mp_ctx_init u) = (mp_ctx_init u, True)" by (simp add: upload_settings_def)
    ultimately show ?thesis using 2(3) [of h "mp_ctx_init u"] unfolding one by (simp add: replay_append)
  qed
  then show ?thesis
    using 1(1) 2(1) 3(1) 4(1) 5(1,3) xs(2) by (intro exI [of _ "a1 @ b1 @ d1 @ e1 @ f1"] exI [of _ f2] exI [of _ xs]) simp
qed

text \<open>The parts of a body, each with its data cut somehow.\<close>

lemma replay_body:
  assumes "merged cs = body_calls parts" "list_all (\<lambda>q. list_all good_header (fst q)) parts"
  shows "\<exists>cuts. map (\<lambda>q. (fst q, concat (snd q))) cuts = parts
    \<and> (\<forall>(h :: 'u multipart_upload_handlers) u u2. take_parts h cuts u = Some u2 \<longrightarrow>
         replay (upload_settings h) cs (mp_ctx_init u) = (mp_ctx_init u2, True))"
  using assms
proof (induction parts arbitrary: cs)
  case Nil
  then obtain c1 c2 where c: "cs = c1 @ c2" "pieces_of On_body_end c1" "merged c2 = []"
    using merged_splits [of cs On_body_end "[]"] by (auto simp: body_calls_def)
  then have "cs = [On_body_end]" by (simp add: pieces_of_def)
  then show ?case
    by (intro exI [of _ "[]"]) (auto simp: upload_settings_def cb_on_body_end_def mp_ctx_init_def split: option.splits)
next
  case (Cons q parts)
  have m: "merged cs = part_calls q @ body_calls parts" using Cons.prems(1) by (simp add: body_calls_def)
  have g: "list_all good_header (fst q)" using Cons.prems(2) by simp
  obtain c1 c2 xs where
    1: "cs = c1 @ c2" "merged c2 = body_calls parts" "concat xs = snd q"
      "\<And>(h :: 'u multipart_upload_handlers) u u2. take_part h (fst q, xs) u = Some u2 \<Longrightarrow>
         replay (upload_settings h) c1 (mp_ctx_init u) = (mp_ctx_init u2, True)"
    using replay_part [where 'u = 'u, OF m g] by blast
  obtain cuts where 2: "map (\<lambda>q. (fst q, concat (snd q))) cuts = parts"
    "\<And>(h :: 'u multipart_upload_handlers) u u2. take_parts h cuts u = Some u2 \<Longrightarrow>
       replay (upload_settings h) c2 (mp_ctx_init u) = (mp_ctx_init u2, True)"
    using Cons.IH [OF 1(2)] Cons.prems(2) by auto
  have "replay (upload_settings h) cs (mp_ctx_init u) = (mp_ctx_init u2, True)"
    if "take_parts h ((fst q, xs) # cuts) u = Some u2" for h :: "'u multipart_upload_handlers" and u u2
    using that 1(1) 1(4) 2(2) by (auto simp: replay_append split: option.splits)
  then show ?case using 1(3) 2(1) by (intro exI [of _ "(fst q, xs) # cuts"]) simp
qed

text \<open>What a parser that is fed a body in pieces makes of the handlers.\<close>

lemma body_taken:
  assumes "concat ps = body_text b parts epilogue" "list_all (good_part b) parts" "parts \<noteq> []" "CR \<notin> set b" "b \<noteq> []"
  shows "\<exists>cuts p1. map (\<lambda>q. (fst q, concat (snd q))) cuts = parts
    \<and> (\<forall>(h :: 'u multipart_upload_handlers) u u2. take_parts h cuts u = Some u2 \<longrightarrow>
         feed_pieces (mp_feed (upload_settings h)) ps (multipart_parser_init b, mp_ctx_init u) = ((p1, mp_ctx_init u2), True))"
proof -
  obtain p1 cs where 1: "merged cs = body_calls parts"
    "\<And>cb (s :: 'u mp_ctx) s1. replay cb cs s = (s1, True) \<Longrightarrow> feed_pieces (mp_feed cb) ps (multipart_parser_init b, s) = ((p1, s1), True)"
    using body_in_pieces [OF assms] by blast
  have "list_all (\<lambda>q. list_all good_header (fst q)) parts"
    using assms(2) by (auto simp: list_all_iff good_part_def)
  from replay_body [where 'u = 'u, OF 1(1) this] obtain cuts where "map (\<lambda>q. (fst q, concat (snd q))) cuts = parts"
    "\<And>(h :: 'u multipart_upload_handlers) u u2. take_parts h cuts u = Some u2 \<Longrightarrow>
       replay (upload_settings h) cs (mp_ctx_init u) = (mp_ctx_init u2, True)" by blast
  then show ?thesis using 1(2) by (intro exI [of _ cuts] exI [of _ p1]) simp
qed

section \<open>The body as it is received\<close>

text \<open>The bytes of a list of receives.\<close>

fun received :: "recv_result list \<Rightarrow> bytes list" where
  "received [] = []"
| "received (Recv_data bs # rs) = bs # received rs"
| "received (_ # rs) = received rs"

lemma body_loop_fed:
  assumes "Recv_error \<notin> set rs" "remaining = int (length (concat (received rs)))" "[] \<notin> set (received rs)"
    "feed_pieces (mp_feed cb) (received rs) st = (st1, True)"
  shows "body_loop cb remaining rs st = Some (st1, True)"
  using assms
proof (induction rs arbitrary: remaining st)
  case (Cons r rs)
  show ?case
  proof (cases r)
    case (Recv_data bs)
    then have "\<not> remaining \<le> 0" using Cons.prems(2,3) by (cases bs) auto
    then show ?thesis using Recv_data Cons by (auto split: prod.splits if_splits)
  next
    case Recv_timeout
    have "remaining \<le> 0 \<Longrightarrow> received rs = []"
      using Cons.prems(2,3) Recv_timeout by (cases "received rs"; cases "hd (received rs)") auto
    then show ?thesis using Cons Recv_timeout by (cases "remaining \<le> 0") auto
  qed (use Cons.prems in auto)
qed simp

text \<open>The decoder, one byte at a time, with room for what it puts out.\<close>

fun dc_bytes :: "bytes \<Rightarrow> dechunker \<Rightarrow> (dechunker \<times> bytes) option" where
  "dc_bytes [] dc = Some (dc, [])"
| "dc_bytes (c # cs) dc =
     (if dc_state dc = DC_READ_DATA then
        if chunk_remaining dc = 0 then None else map_option (\<lambda>(dc1, out). (dc1, c # out)) (dc_bytes cs (take_data 1 dc))
      else case dc_byte c dc of (dc1, ok) \<Rightarrow> if ok then dc_bytes cs dc1 else None)"

lemma dc_bytes_append:
  "dc_bytes (xs @ ys) dc =
     (case dc_bytes xs dc of None \<Rightarrow> None | Some (dc1, o1) \<Rightarrow> map_option (\<lambda>(dc2, o2). (dc2, o1 @ o2)) (dc_bytes ys dc1))"
  by (induction xs arbitrary: dc) (auto split: option.splits prod.splits simp: option.map_comp comp_def case_prod_unfold option.map_ident)

lemma dc_bytes_data:
  assumes "dc_state dc = DC_READ_DATA" "length xs \<le> chunk_remaining dc"
  shows "dc_bytes xs dc = Some (if xs = [] then dc else take_data (length xs) dc, xs)"
  using assms
proof (induction xs arbitrary: dc)
  case (Cons c xs)
  have "dc_bytes xs (take_data 1 dc) = Some (if xs = [] then take_data 1 dc else take_data (length xs) (take_data 1 dc), xs)"
  proof (cases "xs = []")
    case False
    then have "chunk_remaining dc \<noteq> 1" using Cons.prems(2) by (cases xs) auto
    then show ?thesis using Cons.prems Cons.IH [of "take_data 1 dc"] by (auto simp: take_data_def)
  qed simp
  moreover have "xs \<noteq> [] \<Longrightarrow> take_data (length xs) (take_data 1 dc) = take_data (length (c # xs)) dc"
    using Cons.prems by (cases xs) (auto simp: take_data_def)
  moreover have "chunk_remaining dc \<noteq> 0" using Cons.prems(2) by simp
  ultimately show ?case using Cons.prems(1) by (cases "xs = []") simp_all
qed simp

text \<open>The loop of the decoder does the same on what it uses, and stops when its output is full or it is done.\<close>

lemma dc_loop_bytes:
  assumes "dc_bytes bs dc = Some (dc2, out2)" "dc_loop space bs dc = (dc1, out, rest)"
  shows "\<exists>used. bs = used @ rest \<and> dc_bytes used dc = Some (dc1, out) \<and> length out \<le> space \<and> (rest \<noteq> [] \<longrightarrow> length out = space)"
  using assms
proof (induction space bs dc arbitrary: dc1 out rest dc2 out2 rule: dc_loop.induct)
  case (2 space c cs dc)
  show ?case
  proof (cases "dc_state dc = DC_READ_DATA")
    case True
    define n where "n = min (min (length (c # cs)) (chunk_remaining dc)) space"
    have cr: "chunk_remaining dc \<noteq> 0" using "2.prems"(1) True by (auto split: if_splits)
    show ?thesis
    proof (cases "n = 0")
      case n0: True
      then have "space = 0" using cr by (simp add: n_def)
      moreover have "dc1 = dc" "out = []" "rest = c # cs" using "2.prems"(2) True n0 by (simp_all add: n_def Let_def)
      ultimately show ?thesis by simp
    next
      case False
      have "dc_loop space (c # cs) dc = (case dc_loop (space - n) (drop n (c # cs)) (take_data n dc) of
          (dc1, out, rest) \<Rightarrow> (dc1, take n (c # cs) @ out, rest))"
        using True False by (subst dc_loop.simps) (simp only: Let_def n_def [symmetric] if_True if_False simp_thms)
      with "2.prems"(2) obtain out3 where l: "dc_loop (space - n) (drop n (c # cs)) (take_data n dc) = (dc1, out3, rest)" "out = take n (c # cs) @ out3"
        by (auto split: prod.splits)
      have n: "length (take n (c # cs)) = n" "n \<le> space" "take n (c # cs) \<noteq> []" "n \<le> chunk_remaining dc" using False by (auto simp: n_def)
      have t: "dc_bytes (take n (c # cs)) dc = Some (take_data n dc, take n (c # cs))"
        using dc_bytes_data [OF True, of "take n (c # cs)"] n by (simp del: take_Suc_Cons)
      have "dc_bytes (take n (c # cs) @ drop n (c # cs)) dc = Some (dc2, out2)" using "2.prems"(1) by (simp only: append_take_drop_id)
      then obtain out4 where d: "dc_bytes (drop n (c # cs)) (take_data n dc) = Some (dc2, out4)"
        unfolding dc_bytes_append t by auto
      from "2.IH"(1) [OF True n_def _ d l(1)] False obtain used where
        u: "drop n (c # cs) = used @ rest" "dc_bytes used (take_data n dc) = Some (dc1, out3)" "length out3 \<le> space - n"
          "rest \<noteq> [] \<longrightarrow> length out3 = space - n" by blast
      have "c # cs = (take n (c # cs) @ used) @ rest" using u(1) by (metis append.assoc append_take_drop_id)
      moreover have "dc_bytes (take n (c # cs) @ used) dc = Some (dc1, out)" unfolding dc_bytes_append t using u(2) l(2) by simp
      moreover have "length out \<le> space" "rest \<noteq> [] \<longrightarrow> length out = space"
        using l(2) u(3,4) n(1,2) by (simp_all del: take_Suc_Cons)
      ultimately show ?thesis by blast
    qed
  next
    case False
    obtain dc3 where b: "dc_byte c dc = (dc3, True)" "dc_bytes cs dc3 = Some (dc2, out2)"
      using "2.prems"(1) False by (auto split: prod.splits if_splits)
    have "dc_loop space cs dc3 = (dc1, out, rest)" using "2.prems"(2) False b(1) by simp
    from "2.IH"(2) [OF False b(1) [symmetric] TrueI b(2) this] obtain used where
      "cs = used @ rest" "dc_bytes used dc3 = Some (dc1, out)" "length out \<le> space" "rest \<noteq> [] \<longrightarrow> length out = space" by blast
    then show ?thesis using False b(1) by (intro exI [of _ "c # used"]) simp
  qed
qed simp

lemma dc_byte_ok: "dc_byte c dc = (dc1, True) \<Longrightarrow> dc_state dc1 \<noteq> DC_ERROR"
  by (cases "dc_state dc") (auto simp: dc_byte_def size_byte_def Let_def split: if_splits)

lemma dc_bytes_ok: "dc_bytes xs dc = Some (dc1, out) \<Longrightarrow> dc_state dc \<noteq> DC_ERROR \<Longrightarrow> dc_state dc1 \<noteq> DC_ERROR"
proof (induction xs arbitrary: dc out)
  case (Cons c xs)
  have t: "dc_state dc = DC_READ_DATA \<Longrightarrow> dc_state (take_data 1 dc) \<noteq> DC_ERROR" by (simp add: take_data_def Let_def)
  show ?case using Cons.prems Cons.IH t dc_byte_ok by (auto split: if_splits prod.splits)
qed simp

lemma chunk_inner_fed:
  assumes "dc_bytes raw dc = Some (dc2, out)" "0 < rx_size" "dc_state dc \<noteq> DC_ERROR"
  shows "\<exists>outs. concat outs = out \<and> (\<forall>cb (st :: 'u parse_state) st1. feed_pieces (mp_feed cb) outs st = (st1, True) \<longrightarrow>
    chunk_inner cb rx_size raw dc st = (dc2, st1, True))"
  using assms(1,3)
proof (induction "length raw" arbitrary: raw dc out rule: less_induct)
  case less
  show ?case
  proof (cases "raw = []")
    case True
    then show ?thesis using less.prems(1) by (intro exI [of _ "[]"]) (simp add: chunk_inner.simps)
  next
    case False
    obtain dc1 o1 rest where c: "dechunker_consume dc raw rx_size = (dc1, o1, rest)" by (metis surj_pair)
    then obtain used where u: "raw = used @ rest" "dc_bytes used dc = Some (dc1, o1)" "length o1 \<le> rx_size" "rest \<noteq> [] \<longrightarrow> length o1 = rx_size"
      using dc_loop_bytes [OF less.prems(1), of rx_size] assms(2) by (auto simp: dechunker_consume_def)
    obtain o2 where o2: "dc_bytes rest dc1 = Some (dc2, o2)" "out = o1 @ o2"
      using less.prems(1) u(1,2) by (auto simp: dc_bytes_append)
    have "used \<noteq> []" using False u assms(2) by auto
    then have lt: "length rest < length raw" using u(1) by simp
    have ne: "dc_state dc1 \<noteq> DC_ERROR" by (rule dc_bytes_ok [OF u(2) less.prems(2)])
    from less.hyps [OF lt o2(1) ne] obtain outs where outs: "concat outs = o2"
      "\<And>cb (st :: 'u parse_state) st1. feed_pieces (mp_feed cb) outs st = (st1, True) \<Longrightarrow> chunk_inner cb rx_size rest dc1 st = (dc2, st1, True)"
      by blast
    let ?outs = "(if o1 = [] then [] else [o1]) @ outs"
    have "chunk_inner cb rx_size raw dc st = (dc2, st1, True)" if f: "feed_pieces (mp_feed cb) ?outs st = (st1, True)"
      for cb and st st1 :: "'u parse_state"
    proof -
      obtain st2 where 1: "(if o1 \<noteq> [] then mp_feed cb o1 st else (st, True)) = (st2, True)"
        and 2: "feed_pieces (mp_feed cb) outs st2 = (st1, True)"
        using f by (cases "o1 = []") (auto split: prod.splits if_splits)
      have "chunk_inner cb rx_size raw dc st = chunk_inner cb rx_size rest dc1 st2"
        by (subst chunk_inner.simps) (use False c ne lt 1 in simp)
      then show ?thesis using outs(2) [OF 2] by simp
    qed
    then show ?thesis using outs(1) o2(2) by (intro exI [of _ ?outs]) simp
  qed
qed

lemma chunk_loop_fed:
  assumes "dc_bytes (concat (received rs)) dc = Some (dc2, out)" "dc_state dc2 = DC_DONE" "Recv_error \<notin> set rs" "0 < rx_size"
    "dc_state dc \<noteq> DC_ERROR"
  shows "\<exists>outs. concat outs = out \<and> (\<forall>cb (st :: 'u parse_state) st1. feed_pieces (mp_feed cb) outs st = (st1, True) \<longrightarrow>
    chunk_loop cb rx_size rs dc st = Some (st1, True))"
  using assms(1,3,5)
proof (induction rs arbitrary: dc out)
  case Nil
  then show ?case using assms(2) by (intro exI [of _ "[]"]) auto
next
  case (Cons r rs)
  show ?case
  proof (cases "dc_state dc = DC_DONE")
    case True
    then have "out = []" using Cons.prems(1) by (cases "concat (received (r # rs))") (auto simp: dc_byte_def)
    then show ?thesis using True by (intro exI [of _ "[]"]) simp
  next
    case False
    show ?thesis
    proof (cases r)
      case (Recv_data raw)
      obtain dc1 o1 o2 where 1: "dc_bytes raw dc = Some (dc1, o1)" "dc_bytes (concat (received rs)) dc1 = Some (dc2, o2)" "out = o1 @ o2"
        using Cons.prems(1) Recv_data by (auto simp: dc_bytes_append split: option.splits)
      obtain xs where xs: "concat xs = o1"
        "\<And>cb (st :: 'u parse_state) st1. feed_pieces (mp_feed cb) xs st = (st1, True) \<Longrightarrow> chunk_inner cb rx_size raw dc st = (dc1, st1, True)"
        using chunk_inner_fed [OF 1(1) assms(4) Cons.prems(3), where 'u = 'u] by blast
      obtain ys where ys: "concat ys = o2"
        "\<And>cb (st :: 'u parse_state) st1. feed_pieces (mp_feed cb) ys st = (st1, True) \<Longrightarrow> chunk_loop cb rx_size rs dc1 st = Some (st1, True)"
        using Cons.IH [OF 1(2) _ dc_bytes_ok [OF 1(1) Cons.prems(3)]] Cons.prems(2) by auto
      have "feed_pieces f (a @ b) s = (case feed_pieces f a s of (s1, ok) \<Rightarrow> if ok then feed_pieces f b s1 else (s1, False))"
        for f :: "bytes \<Rightarrow> 'u parse_state \<Rightarrow> 'u parse_state \<times> bool" and a b s
        by (induction a arbitrary: s) (auto split: prod.splits)
      note app = this
      have "chunk_loop cb rx_size (r # rs) dc st = Some (st1, True)" if f: "feed_pieces (mp_feed cb) (xs @ ys) st = (st1, True)"
        for cb and st st1 :: "'u parse_state"
      proof -
        obtain st2 where 1: "feed_pieces (mp_feed cb) xs st = (st2, True)" and 2: "feed_pieces (mp_feed cb) ys st2 = (st1, True)"
          using f unfolding app by (auto split: prod.splits if_splits)
        show ?thesis using xs(2) [OF 1] ys(2) [OF 2] False Recv_data by simp
      qed
      then show ?thesis using xs(1) ys(1) 1(3) by (intro exI [of _ "xs @ ys"]) simp
    next
      case Recv_timeout
      then show ?thesis using Cons False by auto
    next
      case Recv_error
      then show ?thesis using Cons.prems(2) by simp
    qed
  qed
qed

text \<open>A body in chunks: the size of each in hexadecimal, perhaps an extension, the data; then a chunk of size
  0, perhaps some trailer lines, and an empty line.\<close>

type_synonym chunk = "string \<times> bytes \<times> bytes"

definition size_line :: "string \<Rightarrow> bytes \<Rightarrow> bytes" where
  "size_line digits ext = map char_byte digits @ ext @ [CR, LF]"

definition chunk_text :: "chunk \<Rightarrow> bytes" where
  "chunk_text c = (case c of (digits, ext, d) \<Rightarrow> size_line digits ext @ d @ [CR, LF])"

definition chunked_text :: "chunk list \<Rightarrow> string \<Rightarrow> bytes \<Rightarrow> bytes list \<Rightarrow> bytes" where
  "chunked_text chunks digits ext trailers =
     concat (map chunk_text chunks) @ size_line digits ext @ concat (map (\<lambda>t. t @ [CR, LF]) trailers) @ [CR, LF]"

definition good_size :: "string \<Rightarrow> bytes \<Rightarrow> nat \<Rightarrow> bool" where
  "good_size digits ext n \<longleftrightarrow> digits \<noteq> [] \<and> length digits \<le> 15 \<and> list_all isxdigit digits \<and> hex_num digits = n
     \<and> (ext = [] \<or> hd ext = 59 \<and> LF \<notin> set ext)"

definition good_chunk :: "chunk \<Rightarrow> bool" where
  "good_chunk c \<longleftrightarrow> (case c of (digits, ext, d) \<Rightarrow> good_size digits ext (length d) \<and> d \<noteq> [] \<and> length d < 2 ^ 32)"

lemma byte_char_byte [simp]: "byte_char (char_byte c) = c"
proof -
  have "(of_char c :: nat) < 256" by simp
  then show ?thesis by (simp add: byte_char_def char_byte_def unat_of_nat)
qed

lemma digit_byte:
  assumes "isxdigit c"
  shows "char_byte c \<noteq> CR \<and> char_byte c \<noteq> LF \<and> char_byte c \<noteq> 59"
proof -
  have "char_byte c = b \<Longrightarrow> c = byte_char b" for b by (metis byte_char_byte)
  moreover have "\<not> isxdigit (byte_char 13)" "\<not> isxdigit (byte_char 10)" "\<not> isxdigit (byte_char 59)" by code_simp+
  ultimately show ?thesis using assms by blast
qed

lemma digits_read:
  assumes "dc_state dc = DC_READ_SIZE" "\<not> in_ext dc" "list_all isxdigit ds" "length (size_buf dc) + length ds \<le> 15"
  shows "dc_bytes (map char_byte ds) dc = Some (dc\<lparr>size_buf := size_buf dc @ ds\<rparr>, [])"
  using assms
proof (induction ds arbitrary: dc)
  case (Cons c ds)
  then have "dc_byte (char_byte c) dc = (dc\<lparr>size_buf := size_buf dc @ [c]\<rparr>, True)"
    using digit_byte [of c] by (simp add: dc_byte_def size_byte_def)
  then show ?case using Cons.prems Cons.IH [of "dc\<lparr>size_buf := size_buf dc @ [c]\<rparr>"] by simp
qed simp

lemma ext_skipped:
  assumes "dc_state dc = DC_READ_SIZE" "in_ext dc" "LF \<notin> set ext"
  shows "dc_bytes ext dc = Some (dc, [])"
proof -
  obtain a n x s k where dc: "dc = \<lparr>dc_state = a, chunk_remaining = n, in_ext = x, size_buf = s, trailer_line_len = k\<rparr>"
    by (cases dc) simp
  show ?thesis using assms unfolding dc by (induction ext) (auto simp: dc_byte_def size_byte_def)
qed

lemma ext_read:
  assumes "dc_state dc = DC_READ_SIZE" "hd ext = 59" "LF \<notin> set ext" "ext \<noteq> []"
  shows "dc_bytes ext dc = Some (dc\<lparr>in_ext := True\<rparr>, [])"
proof -
  obtain cs where ext: "ext = 59 # cs" using assms(2,4) by (cases ext) auto
  have "dc_byte 59 dc = (dc\<lparr>in_ext := True\<rparr>, True)" using assms(1) by (simp add: dc_byte_def size_byte_def)
  moreover have "dc_bytes cs (dc\<lparr>in_ext := True\<rparr>) = Some (dc\<lparr>in_ext := True\<rparr>, [])"
    by (rule ext_skipped) (use assms(1,3) ext in simp_all)
  ultimately show ?thesis using assms(1) by (simp add: ext)
qed

definition at_size :: "dechunker \<Rightarrow> bool" where
  "at_size dc \<longleftrightarrow> dc_state dc = DC_READ_SIZE \<and> size_buf dc = [] \<and> \<not> in_ext dc"

lemma size_read:
  assumes "at_size dc" "good_size digits ext n" "n < 2 ^ 32"
  shows "dc_bytes (size_line digits ext) dc =
    Some (if n = 0 then dc\<lparr>chunk_remaining := 0, dc_state := DC_READ_TRAILERS, trailer_line_len := 0\<rparr>
          else dc\<lparr>chunk_remaining := n, dc_state := DC_READ_DATA\<rparr>, [])"
proof -
  let ?dc = "dc\<lparr>size_buf := digits, in_ext := (ext \<noteq> [])\<rparr>"
  have 1: "dc_bytes (map char_byte digits) dc = Some (dc\<lparr>size_buf := digits\<rparr>, [])"
    using digits_read [of dc digits] assms(1,2) by (simp add: at_size_def good_size_def)
  have 2: "dc_bytes ext (dc\<lparr>size_buf := digits\<rparr>) = Some (?dc, [])"
    using ext_read [of "dc\<lparr>size_buf := digits\<rparr>" ext] assms(1,2) by (cases "ext = []") (auto simp: at_size_def good_size_def)
  have "chunk_size digits = n" using assms(2,3) by (simp add: chunk_size_def good_size_def)
  then have 3: "dc_bytes [CR, LF] ?dc =
      Some (if n = 0 then dc\<lparr>chunk_remaining := 0, dc_state := DC_READ_TRAILERS, trailer_line_len := 0\<rparr>
            else dc\<lparr>chunk_remaining := n, dc_state := DC_READ_DATA\<rparr>, [])"
    using assms(1,2) by (cases dc) (auto simp: at_size_def good_size_def dc_byte_def size_byte_def Let_def)
  show ?thesis unfolding size_line_def dc_bytes_append 1 2 3 option.case prod.case by simp
qed

lemma chunk_read:
  assumes "at_size dc" "good_chunk (digits, ext, d)"
  shows "\<exists>dc1. dc_bytes (chunk_text (digits, ext, d)) dc = Some (dc1, d) \<and> at_size dc1"
proof -
  let ?dc = "dc\<lparr>chunk_remaining := length d, dc_state := DC_READ_DATA\<rparr>"
  have g: "good_size digits ext (length d)" "d \<noteq> []" "length d < 2 ^ 32" using assms(2) by (simp_all add: good_chunk_def)
  have 1: "dc_bytes (size_line digits ext) dc = Some (?dc, [])" using size_read [OF assms(1) g(1,3)] g(2) by simp
  have 2: "dc_bytes d ?dc = Some (take_data (length d) ?dc, d)" using dc_bytes_data [of ?dc d] g(2) by simp
  have "dc_bytes [CR, LF] (take_data (length d) ?dc) = Some ((take_data (length d) ?dc)\<lparr>dc_state := DC_READ_SIZE, size_buf := [], in_ext := False\<rparr>, [])"
    by (simp add: take_data_def dc_byte_def)
  then show ?thesis unfolding chunk_text_def prod.case dc_bytes_append [of "size_line digits ext"] dc_bytes_append [of d] 1 2 option.case by (simp add: at_size_def)
qed

lemma chunks_read:
  assumes "at_size dc" "list_all good_chunk chunks"
  shows "\<exists>dc1. dc_bytes (concat (map chunk_text chunks)) dc = Some (dc1, concat (map (snd \<circ> snd) chunks)) \<and> at_size dc1"
  using assms
proof (induction chunks arbitrary: dc)
  case (Cons c chunks)
  obtain digits ext d where [simp]: "c = (digits, ext, d)" by (metis surj_pair)
  from chunk_read [of dc digits ext d] Cons.prems obtain dc1 where
    1: "dc_bytes (chunk_text c) dc = Some (dc1, d)" "at_size dc1" by auto
  from Cons.IH [OF 1(2)] Cons.prems(2) 1(1) show ?case by (auto simp: dc_bytes_append)
qed simp

lemma line_read:
  assumes "dc_state dc = DC_READ_TRAILERS" "CR \<notin> set t" "LF \<notin> set t"
  shows "dc_bytes t dc = Some (dc\<lparr>trailer_line_len := trailer_line_len dc + length t\<rparr>, [])"
  using assms by (induction t arbitrary: dc) (auto simp: dc_byte_def)

lemma trailers_read:
  assumes "dc_state dc = DC_READ_TRAILERS" "trailer_line_len dc = 0" "list_all (\<lambda>t. t \<noteq> [] \<and> CR \<notin> set t \<and> LF \<notin> set t) trailers"
  shows "dc_bytes (concat (map (\<lambda>t. t @ [CR, LF]) trailers) @ [CR, LF]) dc = Some (dc\<lparr>dc_state := DC_DONE\<rparr>, [])"
  using assms(3)
proof (induction trailers)
  case Nil
  then show ?case using assms(1,2) by (simp add: dc_byte_def)
next
  case (Cons t trailers)
  let ?rest = "concat (map (\<lambda>t. t @ [CR, LF]) trailers) @ [CR, LF]"
  have 1: "dc_bytes t dc = Some (dc\<lparr>trailer_line_len := length t\<rparr>, [])"
    using line_read [OF assms(1), of t] assms(2) Cons.prems by simp
  have 2: "dc_bytes [CR, LF] (dc\<lparr>trailer_line_len := length t\<rparr>) = Some (dc, [])"
    using assms(1,2) Cons.prems by (cases dc) (simp add: dc_byte_def)
  have "dc_bytes (t @ [CR, LF] @ ?rest) dc = Some (dc\<lparr>dc_state := DC_DONE\<rparr>, [])"
    unfolding dc_bytes_append [of t] dc_bytes_append [of "[CR, LF]"] 1 2 option.case prod.case using Cons by simp
  then show ?case by simp
qed

lemma chunked_read:
  assumes "list_all good_chunk chunks" "good_size digits ext 0" "list_all (\<lambda>t. t \<noteq> [] \<and> CR \<notin> set t \<and> LF \<notin> set t) trailers"
  shows "\<exists>dc. dc_bytes (chunked_text chunks digits ext trailers) dechunker_init = Some (dc, concat (map (snd \<circ> snd) chunks)) \<and> dc_state dc = DC_DONE"
proof -
  have "at_size dechunker_init" by (simp add: at_size_def dechunker_init_def)
  from chunks_read [OF this assms(1)] obtain dc1 where
    1: "dc_bytes (concat (map chunk_text chunks)) dechunker_init = Some (dc1, concat (map (snd \<circ> snd) chunks))" "at_size dc1" by blast
  let ?dc = "dc1\<lparr>chunk_remaining := 0, dc_state := DC_READ_TRAILERS, trailer_line_len := 0\<rparr>"
  have 2: "dc_bytes (size_line digits ext) dc1 = Some (?dc, [])" using size_read [OF 1(2) assms(2)] by simp
  have 3: "dc_bytes (concat (map (\<lambda>t. t @ [CR, LF]) trailers) @ [CR, LF]) ?dc = Some (?dc\<lparr>dc_state := DC_DONE\<rparr>, [])"
    by (rule trailers_read [OF _ _ assms(3)]) simp_all
  show ?thesis unfolding chunked_text_def dc_bytes_append [of "concat (map chunk_text chunks)"] dc_bytes_append [of "size_line digits ext"] 1(1) 2 3
      option.case prod.case by simp
qed

text \<open>The body is sent plain, or in chunks.\<close>

definition body_sent :: "upload_request \<Rightarrow> bytes \<Rightarrow> bytes \<Rightarrow> bool" where
  "body_sent r body sent \<longleftrightarrow>
     (if request_is_chunked r then
        (\<exists>chunks digits ext trailers. list_all good_chunk chunks \<and> good_size digits ext 0
           \<and> list_all (\<lambda>t. t \<noteq> [] \<and> CR \<notin> set t \<and> LF \<notin> set t) trailers
           \<and> concat (map (snd \<circ> snd) chunks) = body \<and> sent = chunked_text chunks digits ext trailers)
      else sent = body \<and> sint (content_len r) = int (length body))"

lemma parts_delivered:
  assumes "header_boundary r = Some b" "list_all (good_part b) parts" "parts \<noteq> []" "CR \<notin> set b" "b \<noteq> []"
    and "body_sent r (body_text b parts epilogue) (concat (received rs))" "Recv_error \<notin> set rs" "[] \<notin> set (received rs)"
  shows "\<exists>cuts. map (\<lambda>q. (fst q, concat (snd q))) cuts = parts
    \<and> (\<forall>(h :: 'u multipart_upload_handlers) u u2. take_parts h cuts u = Some u2 \<longrightarrow>
         multipart_upload_handle h rx_size r rs u = Some (u2, True))"
proof -
  let ?body = "body_text b parts epilogue" and ?rx = "if rx_size \<noteq> 0 then rx_size else 1024"
  have len: "length ?body > 0" using assms(5) by (simp add: body_text_def)
  have "\<exists>outs. concat outs = ?body \<and> (\<forall>(h :: 'u multipart_upload_handlers) st st1.
      feed_pieces (mp_feed (upload_settings h)) outs st = (st1, True) \<longrightarrow>
      receive_body (upload_settings h) ?rx r dechunker_init rs st = Some (st1, True))"
  proof (cases "request_is_chunked r")
    case True
    then obtain chunks digits ext trailers where c: "list_all good_chunk chunks" "good_size digits ext 0"
      "list_all (\<lambda>t. t \<noteq> [] \<and> CR \<notin> set t \<and> LF \<notin> set t) trailers" "concat (map (snd \<circ> snd) chunks) = ?body"
      "concat (received rs) = chunked_text chunks digits ext trailers"
      using assms(6) by (auto simp: body_sent_def)
    obtain dc where "dc_bytes (concat (received rs)) dechunker_init = Some (dc, ?body)" "dc_state dc = DC_DONE"
      using chunked_read [OF c(1-3)] c(4,5) by auto
    moreover have "0 < ?rx" "dc_state dechunker_init \<noteq> DC_ERROR" by (simp_all add: dechunker_init_def)
    ultimately obtain outs where "concat outs = ?body"
      "\<And>cb (st :: 'u parse_state) st1. feed_pieces (mp_feed cb) outs st = (st1, True) \<Longrightarrow> chunk_loop cb ?rx rs dechunker_init st = Some (st1, True)"
      using chunk_loop_fed [OF _ _ assms(7), where 'u = 'u] by blast
    then show ?thesis using True by (intro exI [of _ outs]) (simp add: receive_body_def)
  next
    case False
    then have s: "concat (received rs) = ?body" "sint (content_len r) = int (length (concat (received rs)))"
      using assms(6) by (simp_all add: body_sent_def)
    show ?thesis
      using False len s body_loop_fed [OF assms(7) s(2) assms(8)]
      by (intro exI [of _ "received rs"]) (auto simp: receive_body_def)
  qed
  then obtain outs where outs: "concat outs = ?body"
    "\<And>(h :: 'u multipart_upload_handlers) st st1. feed_pieces (mp_feed (upload_settings h)) outs st = (st1, True) \<Longrightarrow>
      receive_body (upload_settings h) ?rx r dechunker_init rs st = Some (st1, True)" by blast
  obtain cuts p1 where cuts: "map (\<lambda>q. (fst q, concat (snd q))) cuts = parts"
    "\<And>(h :: 'u multipart_upload_handlers) u u2. take_parts h cuts u = Some u2 \<Longrightarrow>
       feed_pieces (mp_feed (upload_settings h)) outs (multipart_parser_init b, mp_ctx_init u) = ((p1, mp_ctx_init u2), True)"
    using body_taken [OF outs(1) assms(2-5), where 'u = 'u] by blast
  have "multipart_upload_handle h rx_size r rs u = Some (u2, True)" if t: "take_parts h cuts u = Some u2"
    for h :: "'u multipart_upload_handlers" and u u2
  proof -
    have "feed_initial (upload_settings h) b [] (multipart_parser_init b, mp_ctx_init u) = ((multipart_parser_init b, mp_ctx_init u), True)"
      by (simp add: feed_initial_def)
    then show ?thesis
      using outs(2) [OF cuts(2) [OF t]] by (simp add: multipart_upload_handle_def assms(1) Let_def) (simp add: mp_ctx_init_def)
  qed
  then show ?thesis using cuts(1) by blast
qed

text \<open>C10. A form is handed to its handlers part by part, each with the name its headers give and
  with its data byte for byte, however the body is cut by the receives, whether it comes
  plain or in chunks with any sizes, extensions and trailers, and whatever bytes the data
  holds short of the delimiter.\<close>

theorem upload_gives_parts:
  assumes "header_boundary r = Some b" "list_all (good_part b) parts" "parts \<noteq> []" "CR \<notin> set b" "b \<noteq> []"
    and "body_sent r (body_text b parts epilogue) (concat (received rs))" "Recv_error \<notin> set rs" "[] \<notin> set (received rs)"
    and "on_part_data h = Some f" "stream_reader f" "take_parts h (map (\<lambda>q. (fst q, [snd q])) parts) u = Some u2"
  shows "multipart_upload_handle (h :: 'u multipart_upload_handlers) rx_size r rs u = Some (u2, True)"
proof -
  from parts_delivered [OF assms(1-8), where 'u = 'u and rx_size = rx_size] obtain cuts where
    c: "map (\<lambda>q. (fst q, concat (snd q))) cuts = parts \<and> (\<forall>(h :: 'u multipart_upload_handlers) u u2. take_parts h cuts u = Some u2 \<longrightarrow>
         multipart_upload_handle h rx_size r rs u = Some (u2, True))" by (rule exE)
  note cuts = conjunct1 [OF c] conjunct2 [OF c, rule_format]
  have "feed_pieces f [concat xs] = feed_pieces f xs" for xs
    by (rule ext) (simp only: stream_reader.pieces_concat [OF assms(10)] concat.simps append_Nil2)
  then have one: "take_part h (hs, xs) u = take_part h (hs, [concat xs]) u" for hs xs u
    by (simp only: take_part_def assms(9) option.case fst_conv snd_conv)
  have "take_parts h cuts u = take_parts h (map (\<lambda>q. (fst q, [concat (snd q)])) cuts) u" for u
  proof (induction cuts arbitrary: u)
    case (Cons q cuts)
    then show ?case using one [of "fst q" "snd q"] by (simp split: option.split)
  qed simp
  then have "take_parts h cuts u = Some u2" using assms(11) unfolding cuts(1) [symmetric] by (simp add: comp_def)
  then show ?thesis using cuts(2) by blast
qed

text \<open>A form of two fields, sent in three chunks and received in two pieces with a time-out between; the handlers collect
  the names and the data.\<close>

definition ascii :: "string \<Rightarrow> bytes" where
  "ascii = map char_byte"

definition form_head :: "string \<Rightarrow> (bytes \<times> bytes) list" where
  "form_head nm = [(ascii ''Content-Disposition'', ascii (''name='' @ nm))]"

lemma c_text_ascii:
  assumes "CHR 0x00 \<notin> set s"
  shows "c_text (take n (ascii s)) = take n s"
proof -
  have nul: "byte_char 0 = CHR 0x00" by code_simp
  have "char_byte c = 0 \<Longrightarrow> c = CHR 0x00" for c by (metis nul byte_char_byte)
  then have "\<forall>c\<in>set (take n s). char_byte c \<noteq> 0" using assms by (metis in_set_takeD)
  then have all: "takeWhile (\<lambda>b. b \<noteq> 0) (map char_byte (take n s)) = map char_byte (take n s)"
    by (auto simp: takeWhile_eq_all_conv)
  show ?thesis unfolding c_text_def ascii_def take_map all by (simp add: comp_def)
qed

lemma form_info:
  "CHR 0x00 \<notin> set nm \<Longrightarrow> info_of (form_head nm) = note_header ''Content-Disposition'' (take 255 (''name='' @ nm)) no_info"
  by (simp add: info_of_def form_head_def header_note_def c_text_ascii)

lemmas info_simps = form_info note_header_def same_prefix_def lower_char_def param_text_def no_info_def Let_def

definition collect :: "(string \<times> bytes) list multipart_upload_handlers" where
  "collect = \<lparr>on_part_begin = Some (\<lambda>p u. (u @ [(pi_name p, [])], True)),
     on_part_data = Some (\<lambda>bs u. (case rev u of [] \<Rightarrow> [] | (n, d) # us \<Rightarrow> rev us @ [(n, d @ bs)], True)),
     on_part_end = None, on_finished = None\<rparr>"

lemma collect_reads: "stream_reader (\<lambda>bs (u :: (string \<times> bytes) list). (case rev u of [] \<Rightarrow> [] | (n, d) # us \<Rightarrow> rev us @ [(n, d @ bs)], True))"
proof
  fix u :: "(string \<times> bytes) list"
  show "(case rev u of [] \<Rightarrow> [] | (n, d) # us \<Rightarrow> rev us @ [(n, d @ [])], True) = (u, True)"
    by (cases u rule: rev_cases) auto
next
  fix xs ys and u :: "(string \<times> bytes) list"
  show "(case rev u of [] \<Rightarrow> [] | (n, d) # us \<Rightarrow> rev us @ [(n, d @ xs @ ys)], True) =
    (case (case rev u of [] \<Rightarrow> [] | (n, d) # us \<Rightarrow> rev us @ [(n, d @ xs)], True) of
       (s1, ok) \<Rightarrow> if ok then (case rev s1 of [] \<Rightarrow> [] | (n, d) # us \<Rightarrow> rev us @ [(n, d @ ys)], True) else (s1, False))"
    by (cases u rule: rev_cases) (auto split: prod.splits)
qed

definition two_parts :: "mp_part list" where
  "two_parts = [(form_head ''a'', [1, 13, 10, 45, 45]), (form_head ''b'', [])]"

definition two_request :: upload_request where
  "two_request = \<lparr>hdr_content_type = Some ''multipart/form-data; boundary=x'', hdr_transfer_encoding = Some ''Chunked'', content_len = 0\<rparr>"

definition two_body :: bytes where
  "two_body = body_text (ascii ''--x'') two_parts []"

definition two_text :: bytes where
  "two_text = chunked_text [(''30'', [], take 48 two_body), (''26'', ascii '';q=1'', drop 48 two_body)] ''0'' [] [ascii ''Via: x'']"


lemma two_body_length: "length two_body = 86"
  by (simp add: two_body_def body_text_def part_text_def two_parts_def form_head_def header_line_def ascii_def)

lemma two_good: "list_all (good_part (ascii ''--x'')) two_parts"
  by code_simp

lemma two_sent: "body_sent two_request two_body two_text"
proof -
  have chunked: "request_is_chunked two_request" by code_simp
  have "list_all good_chunk [(''30'', [], take 48 two_body), (''26'', ascii '';q=1'', drop 48 two_body)]" 
     by (simp add: good_chunk_def good_size_def two_body_length) code_simp
  moreover have "good_size ''0'' [] 0" by code_simp
  moreover have "list_all (\<lambda>t. t \<noteq> [] \<and> CR \<notin> set t \<and> LF \<notin> set t) [ascii ''Via: x'']" by code_simp
  moreover have "concat (map (snd \<circ> snd) [(''30'', [], take 48 two_body), (''26'', ascii '';q=1'', drop 48 two_body)]) = two_body" by simp
  ultimately show ?thesis unfolding body_sent_def two_text_def if_P [OF chunked] by blast
qed

lemma upload_gives_parts_witness:
  "multipart_upload_handle collect 16 two_request [Recv_timeout, Recv_data (take 100 two_text), Recv_timeout, Recv_data (drop 100 two_text)] []
   = Some ([(''a'', [1, 13, 10, 45, 45]), (''b'', [])], True)"
proof (rule upload_gives_parts [OF _ two_good _ _ _ _ _ _ _ collect_reads])
  show "header_boundary two_request = Some (ascii ''--x'')" by code_simp
  show "take_parts collect (map (\<lambda>q. (fst q, [snd q])) two_parts) [] = Some [(''a'', [1, 13, 10, 45, 45]), (''b'', [])]"
    by (simp add: two_parts_def take_part_def collect_def info_simps)
  show "body_sent two_request (body_text (ascii ''--x'') two_parts [])
    (concat (received [Recv_timeout, Recv_data (take 100 two_text), Recv_timeout, Recv_data (drop 100 two_text)]))"
    using two_sent by (simp add: two_body_def)
  show "two_parts \<noteq> []" by (simp add: two_parts_def)
  show "CR \<notin> set (ascii ''--x'')" "ascii ''--x'' \<noteq> []" by code_simp+
  have "length two_text > 100" using two_body_length by (simp add: two_text_def chunked_text_def chunk_text_def size_line_def ascii_def)
  then show "[] \<notin> set (received [Recv_timeout, Recv_data (take 100 two_text), Recv_timeout, Recv_data (drop 100 two_text)])" by auto
qed (simp_all add: collect_def)

section \<open>Requests the code does not treat as meant\<close>

text \<open>A body that ends inside a part is taken: here without its delimiter at the end, in the middle of the data
  of the first part.\<close>

definition short_body :: bytes where
  "short_body = ascii ''--x'' @ [CR, LF] @ concat (map header_line (form_head ''a'')) @ [CR, LF, 1, 2]"

definition short_request :: upload_request where
  "short_request = \<lparr>hdr_content_type = Some ''multipart/form-data; boundary=x'', hdr_transfer_encoding = None, content_len = 38\<rparr>"

lemma short_body_length: "length short_body = 38"
  by (simp add: short_body_def form_head_def header_line_def ascii_def)

lemma short_body_taken:
  "multipart_upload_handle collect 64 short_request [Recv_data short_body] [] = Some ([(''a'', [1, 2])], True)"
  by code_simp

text \<open>Without a boundary in the header the bytes read for it are not counted: the request is answered with an error
  although its whole body has come.\<close>

lemma fallback_fails:
  assumes "header_boundary r = None" "\<not> request_is_chunked r" "sint (content_len r) > 0" "extract_boundary_from_first_line body 256 = Some b"
  shows "\<exists>u1. multipart_upload_handle h rx_size r [Recv_data body, Recv_error] u = Some (u1, False)"
  using assms
  by (auto simp: multipart_upload_handle_def receive_body_def Let_def split: prod.splits)

text \<open>The name of a part whose file name comes first is that file name.\<close>

lemma name_from_filename:
  "pi_name (note_header ''Content-Disposition'' ''filename=x; name=y'' no_info) = ''x''"
  by code_simp

end
