(* ===== verification/OTA_Upload.thy ===== *)
theory OTA_Upload
  imports Multipart_Upload OTA_Session
begin

text \<open>
  \<^verbatim>\<open>components/api_http/api_http_ota.c\<close>: the upload of a firmware image over HTTP, as a raw body or as a part of
  a form, with the digest that the request may name. The handlers of \<open>Multipart_Upload\<close> run on the manager of
  \<open>OTA_Session\<close>. The query string of the request and what the server's library finds in it under a key are
  parameters; the reading of the hexadecimal digest is the code's own.
\<close>

section \<open>The handlers of the form\<close>

record ota_upload_ctx =
  up_started :: bool
  up_failed :: bool
  up_busy :: bool

text \<open>The context of the request and the manager, on which the handlers act.\<close>

type_synonym ota_upload = "ota_upload_ctx \<times> ota_manager"

definition ota_part_begin :: "ota_lib \<Rightarrow> multipart_part_info \<Rightarrow> ota_upload \<Rightarrow> ota_upload \<times> bool" where
  "ota_part_begin lib p u =
     (case u of (ctx, m) \<Rightarrow>
       if pi_name p \<noteq> ''firmware'' \<and> pi_name p \<noteq> ''ota_file'' \<and> pi_filename p = [] then (u, False)
       else if up_started ctx then (u, False)
       else
         (case ota_manager_begin lib 0 m of
            (m1, err) \<Rightarrow>
              if err \<noteq> OTA_OK then ((ctx\<lparr>up_failed := True, up_busy := (err = OTA_INVALID_STATE)\<rparr>, m1), False)
              else ((ctx\<lparr>up_started := True\<rparr>, m1), True)))"

definition ota_part_data :: "ota_lib \<Rightarrow> bytes \<Rightarrow> ota_upload \<Rightarrow> ota_upload \<times> bool" where
  "ota_part_data lib bs u =
     (case u of (ctx, m) \<Rightarrow>
       if bs = [] then (u, True)
       else
         (case ota_manager_write lib bs m of
            (m1, err) \<Rightarrow> ((if err \<noteq> OTA_OK then ctx\<lparr>up_failed := True\<rparr> else ctx, m1), err = OTA_OK)))"

definition ota_part_end :: "ota_upload \<Rightarrow> ota_upload" where
  "ota_part_end u = u"

definition ota_finished :: "ota_upload \<Rightarrow> ota_upload" where
  "ota_finished u = u"

definition OTA_HANDLERS :: "ota_lib \<Rightarrow> ota_upload multipart_upload_handlers" where
  "OTA_HANDLERS lib = \<lparr>on_part_begin = Some (ota_part_begin lib), on_part_data = Some (ota_part_data lib),
     on_part_end = Some ota_part_end, on_finished = Some ota_finished\<rparr>"

section \<open>The request\<close>

definition content_type_is_multipart :: "upload_request \<Rightarrow> bool" where
  "content_type_is_multipart r =
     (case hdr_content_type r of None \<Rightarrow> False | Some ct \<Rightarrow> length ct < 96 \<and> same_prefix ''multipart/'' ct)"

datatype ota_reply = Ota_done | Ota_busy | Ota_failed | Ota_bad_digest | Ota_empty

definition ota_respond_fail :: "ota_lib \<Rightarrow> ota_manager \<Rightarrow> ota_manager \<times> ota_reply" where
  "ota_respond_fail lib m = (fst (ota_manager_abort lib m), Ota_failed)"

text \<open>
  \<open>sscanf(s, "%2x", &v)\<close>, with the cast to a byte: white space is skipped, then at most two characters are read,
  a sign and a digit or one or two digits; what follows the number does not matter.
\<close>

definition scan_hex2 :: "string \<Rightarrow> u8 option" where
  "scan_hex2 s =
     (case take 2 (dropWhile isspace s) of
        [] \<Rightarrow> None
      | c # cs \<Rightarrow>
          (case hex_value c of
             None \<Rightarrow>
               if c = CHR ''+'' \<or> c = CHR ''-'' then
                 (case cs of
                    [] \<Rightarrow> None
                  | d # _ \<Rightarrow> map_option (\<lambda>v. if c = CHR ''-'' then - of_nat v else of_nat v) (hex_value d))
               else None
           | Some v \<Rightarrow>
               (case cs of
                  [] \<Rightarrow> Some (of_nat v)
                | d # _ \<Rightarrow>
                    (case hex_value d of
                       Some w \<Rightarrow> Some (of_nat (16 * v + w))
                     | None \<Rightarrow> if v = 0 \<and> (d = CHR ''x'' \<or> d = CHR ''X'') then None else Some (of_nat v)))))"

text \<open>
  \<open>arm_expected_digest\<close>: \<open>query\<close> is the query of the request, \<open>key_value\<close> the library's search for a key in it.
  Both library calls fail when what they find does not fit the buffers of 160 and 65 characters.
\<close>

datatype asked_digest = No_digest | Digest bytes | Malformed

definition ask_digest :: "(string \<Rightarrow> string \<Rightarrow> string option) \<Rightarrow> string option \<Rightarrow> asked_digest" where
  "ask_digest key_value query =
     (case query of
        None \<Rightarrow> No_digest
      | Some qs \<Rightarrow>
          if qs = [] \<or> length qs \<ge> 160 then No_digest
          else
            (case key_value qs ''sha256'' of
               None \<Rightarrow> No_digest
             | Some hex \<Rightarrow>
                 if length hex \<ge> 65 then No_digest
                 else if length hex \<noteq> 64 then Malformed
                 else
                   (case those (map (\<lambda>i. scan_hex2 (drop (2 * i) hex)) [0..<32]) of
                      None \<Rightarrow> Malformed
                    | Some sha \<Rightarrow> Digest sha)))"

definition arm_expected_digest ::
    "(string \<Rightarrow> string \<Rightarrow> string option) \<Rightarrow> string option \<Rightarrow> ota_manager \<Rightarrow> ota_manager \<times> bool" where
  "arm_expected_digest key_value query m =
     (case ask_digest key_value query of
        No_digest \<Rightarrow> (m, True)
      | Malformed \<Rightarrow> (m, False)
      | Digest sha \<Rightarrow> (ota_manager_expect_sha256 (Some sha) m, True))"

text \<open>The loop over a raw body.\<close>

fun raw_body :: "ota_lib \<Rightarrow> nat \<Rightarrow> recv_result list \<Rightarrow> ota_manager \<Rightarrow> (ota_manager \<times> bool) option" where
  "raw_body lib remaining [] m = (if remaining > 0 then None else Some (m, True))"
| "raw_body lib remaining (r # rs) m =
     (if remaining = 0 then Some (m, True)
      else
        case r of
          Recv_timeout \<Rightarrow> raw_body lib remaining rs m
        | Recv_error \<Rightarrow> Some (m, False)
        | Recv_data bs \<Rightarrow>
            (case ota_manager_write lib bs m of
               (m1, err) \<Rightarrow> if err = OTA_OK then raw_body lib (remaining - length bs) rs m1 else Some (m1, False)))"

definition ota_upload_end :: "ota_lib \<Rightarrow> ota_manager \<Rightarrow> ota_manager \<times> ota_reply" where
  "ota_upload_end lib m =
     (case ota_manager_end lib m of (m1, err) \<Rightarrow> if err \<noteq> OTA_OK then ota_respond_fail lib m1 else (m1, Ota_done))"

definition ota_upload_handler ::
    "ota_lib \<Rightarrow> (string \<Rightarrow> string \<Rightarrow> string option) \<Rightarrow> string option \<Rightarrow> upload_request \<Rightarrow> recv_result list \<Rightarrow> ota_manager
     \<Rightarrow> (ota_manager \<times> ota_reply) option" where
  "ota_upload_handler lib key_value query r recvs m0 =
     (case arm_expected_digest key_value query m0 of
        (m, armed) \<Rightarrow>
          if \<not> armed then Some (m, Ota_bad_digest)
          else if content_type_is_multipart r then
            (case multipart_upload_handle (OTA_HANDLERS lib) 4096 r recvs (\<lparr>up_started = False, up_failed = False, up_busy = False\<rparr>, m) of
               None \<Rightarrow> None
             | Some ((ctx, m1), ok) \<Rightarrow>
                 if up_busy ctx then Some (m1, Ota_busy)
                 else if \<not> ok \<or> \<not> up_started ctx \<or> up_failed ctx then Some (ota_respond_fail lib m1)
                 else Some (ota_upload_end lib m1))
          else if content_len r = 0 then Some (ota_manager_expect_sha256 None m, Ota_empty)
          else
            (case ota_manager_begin lib (content_len r) m of
               (m1, err) \<Rightarrow>
                 if err = OTA_INVALID_STATE then Some (m1, Ota_busy)
                 else if err \<noteq> OTA_OK then Some (ota_respond_fail lib m1)
                 else
                   (case raw_body lib (unat (content_len r)) recvs m1 of
                      None \<Rightarrow> None
                    | Some (m2, ok) \<Rightarrow> if ok then Some (ota_upload_end lib m2) else Some (ota_respond_fail lib m2))))"

section \<open>An upload installs its image\<close>


























text \<open>A search for a key in a query with one entry, and a query with the digest of the image.\<close>

definition one_entry :: "string \<Rightarrow> string \<Rightarrow> string option" where
  "one_entry qs k = (if take (Suc (length k)) qs = k @ ''='' then Some (drop (Suc (length k)) qs) else None)"





text \<open>A digest that is asked for by a request which never opens a session stays armed: the next upload, which asks
  for none, is checked against it. Here the connection breaks before the image.\<close>

lemma digest_left_armed:
  assumes "ask_digest key_value query = Digest x"
    and "content_type_is_multipart r" "header_boundary r = Some b" "\<not> request_is_chunked r" "sint (content_len r) > 0"
  shows "\<exists>m'. ota_upload_handler lib key_value query r [Recv_error] m = Some (m', Ota_failed) \<and> m_expect m' = Some x"
  using assms
  by (simp add: ota_upload_handler_def arm_expected_digest_def multipart_upload_handle_def receive_body_def feed_initial_def Let_def
      mp_ctx_init_def ota_respond_fail_def ota_manager_abort_def ota_manager_expect_sha256_def ota_locked_def split: prod.split)

text \<open>A digest of more than 64 characters does not fit the buffer and counts as none asked, so the upload goes
  on unchecked; and of a pair of characters the second need not be a hexadecimal digit.\<close>

lemma long_digest_ignored:
  assumes "key_value qs ''sha256'' = Some hex" "length hex > 64"
  shows "arm_expected_digest key_value (Some qs) m = (m, True)"
  using assms by (simp add: arm_expected_digest_def ask_digest_def)

lemma half_pair_read: "ask_digest one_entry (Some (''sha256='' @ concat (replicate 32 ''2g''))) = Digest (replicate 32 2)"
  by code_simp

end
