(* ===== verification/Spec2Isabelle.thy ===== *)
theory Spec2Isabelle
  imports J1939_TP J1939_Claim J1939_Cache_Spec CAN_Autobaud CAN_Filter CAN_Node SLCAN UDS Sleep Restart Expression_Check Topics IP4_Routes GVRET Autopid_Sched Event_Engine Log_Ring RealDash
    Diag_Hold Flash_Jobs Http_Assets OBD_Resp_Text OTA_Pipe Wifi_Select Wifi_Trial OTA_Upload
begin

text \<open>
  A model of the component cores of the firmware components under \<^verbatim>\<open>src/components\<close>, with the theorems that
  make them correct.

  \<^bold>\<open>The program.\<close> A firmware for vehicle interfaces: a CAN node, an OBD chip behind a serial line, a poller
  that asks the vehicle for parameters, translators between CAN frames and the formats of client programs, a J1939
  stack, rules that act on events, a sleep manager, a tracker of the boots, a firmware update, and the services
  around them (files, routes, topics, logs). The components keep their decisions in cores without hardware,
  called from tasks under a mutex. The cores are modelled whole, and of the tasks around them the steps between two
  points where another task can come in.

  \<^bold>\<open>Theories and sources.\<close> A definition has the name of the C function, type or variable it models; a
  theory opens with the files it models.
  \<^item> \<open>Prelude\<close>: integer types, bytes of words, arrays as lists, and the interfaces: \<open>machine\<close> (a component driven
    by events, with an invariant), \<open>metered_machine\<close> (with a quantity that events use up), \<open>codec\<close> (a format
    that is read back), \<open>stream_reader\<close> (a translator fed in pieces). \<open>Hex\<close>, \<open>Decimal\<close> and \<open>Crc\<close> are what
    the components use of the C library on text, and their checksum.
  \<^item> J1939 (\<^verbatim>\<open>j1939/*_core.c\<close>): \<open>J1939_Ident\<close> (identifiers, evidence for the protocol, VIN), \<open>J1939_TP\<close> (transport
    sessions), \<open>J1939_Claim\<close> (address claim), \<open>J1939_Cache\<close> (message cache as a hash table with linear
    probing) and \<open>J1939_Cache_Spec\<close> (its refinement to a map).
  \<^item> CAN (\<^verbatim>\<open>can_manager/\<close>): \<open>CAN_Autobaud\<close> (bitrate policy and the link that carries it out on the driver, which may refuse), \<open>CAN_Node\<close> (timing, transmit slots, error
    interrupt, bus-off), \<open>CAN_Filter\<close> (identifiers and data as text), \<open>CAN_Wire\<close> (frames on the bridge).
  \<^item> Translators (\<^verbatim>\<open>translator_*/\<close>): \<open>SLCAN\<close>, \<open>GVRET\<close>, \<open>RealDash\<close>.
  \<^item> OBD: \<open>OBD_Gate\<close> and \<open>Diag_Hold\<close> (\<^verbatim>\<open>obd_gate/\<close>, with the poller and \<^verbatim>\<open>autopid/autopid_dtc_job.c\<close>), \<open>OBD_Resp\<close> and \<open>OBD_Resp_Text\<close> (the text of the chip,
    \<^verbatim>\<open>autopid/autopid_resp*.c\<close>), \<open>UDS\<close> (\<^verbatim>\<open>uds_manager/\<close>), \<open>Autopid_Sched\<close> (\<^verbatim>\<open>autopid/autopid_sched.c\<close>, groups and poller).
  \<^item> Rules and values: \<open>Expression\<close>, \<open>Expression_Spec\<close>, \<open>Expression_Check\<close> (\<^verbatim>\<open>expression_parser/\<close>), \<open>Event_Rules\<close>
    and \<open>Event_Engine\<close> (\<^verbatim>\<open>event_manager/\<close>).
  \<^item> System: \<open>Sleep\<close> (\<^verbatim>\<open>sleep_manager/\<close>), \<open>Restart\<close> (\<^verbatim>\<open>restart_tracker/\<close>), \<open>Flash_Jobs\<close> (\<^verbatim>\<open>flash_jobs/\<close>), \<open>Log_Ring\<close>
    (\<^verbatim>\<open>log_manager/\<close>), \<open>OTA_Session\<close> and \<open>OTA_Pipe\<close> (\<^verbatim>\<open>ota_manager/\<close>),
    \<open>OTA_Upload\<close> (\<^verbatim>\<open>api_http/api_http_ota.c\<close>).
  \<^item> Services: \<open>Topics\<close> (\<^verbatim>\<open>mqtt_manager/\<close>), \<open>IP4_Routes\<close> (\<^verbatim>\<open>ip4_routes/\<close>), \<open>FS_Path\<close> (\<^verbatim>\<open>filesystem/\<close>),
    \<open>Http_Assets\<close> (\<^verbatim>\<open>http_server_manager/\<close>), \<open>Wifi_Select\<close> and \<open>Wifi_Trial\<close>
    (\<^verbatim>\<open>wifi_manager/wifi_manager_select.c\<close>, \<^verbatim>\<open>wifi_manager_trial.c\<close>), \<open>Multipart_Parser\<close> and \<open>Multipart_Upload\<close>
    (\<^verbatim>\<open>multipart_upload/\<close>).

  \<^bold>\<open>State and operations.\<close> The static variables of a component are a record, a C function is a definition from
  its arguments and the record to the new record and the result; loops are recursive functions over the array
  or the rest of the text. A mutex makes the code it holds one step. Where tasks interleave (\<open>Flash_Jobs\<close>,
  \<open>OBD_Gate\<close>, \<open>Diag_Hold\<close>, \<open>Event_Engine\<close>, \<open>CAN_Node\<close>, \<open>OTA_Pipe\<close>) every stretch between two queue, lock or semaphore
  operations is a step and the theorems hold for every order of steps: a transmit is interrupted between its
  critical sections, two workers overlap each other and the dispatcher, requesters of the chip take it by force
  when their time is over, a scan of the trouble codes runs beside the poller that started it.

  \<^bold>\<open>How the parts meet.\<close> \<open>Diag_Hold\<close> puts the hold of the gate, the loop of the poller and the jobs of the chip together;
  \<open>Http_Assets\<close> rests on the paths of \<open>FS_Path\<close>; the translators share the frames of \<open>CAN_Wire\<close>;
  \<open>OTA_Pipe\<close> runs on the manager of \<open>OTA_Session\<close>, which runs on any backend that meets the
  locale \<open>ota_backend\<close>; \<open>OTA_Upload\<close> hands the
  parts of \<open>Multipart_Upload\<close> to the same manager; \<open>Restart\<close> and \<open>Log_Ring\<close> share the checksum of \<open>Crc\<close>.

  \<^bold>\<open>What the lemmas show.\<close> Each theory has its invariant, that every operation keeps it, the behaviour of the
  operations branch by branch, and one or two properties of whole runs, which are numbered C1 to C40. Properties of
  formats are round trips and stream theorems (any cut of the stream, noise, damaged records); properties of
  state machines hold after any sequence of events; liveness is stated with a bound on steps or time.

  \<^bold>\<open>Bounds and fuel.\<close> The removal loop of the cache (\<open>slot_remove\<close>) has fuel for the 512 slots, of which one is
  always free; the prefix of a mask has 32 steps. A loop that can fail to end is a partial function, and that it ends
  is proved where it does (\<open>checked_expression\<close>). Expressions are nested at most nine parentheses deep, for the 64
  entries of the two stacks. A ring is smaller than \<open>2 ^ 31\<close> bytes, an update image too. The loop of \<open>Multipart_Parser\<close> reads a
  byte at most twice. A flash job returns within 44 steps when the new worker is recorded before its first idle period is over. Times in microseconds are
  unbounded integers; millisecond counters are words and wrap.

  \<^bold>\<open>Parameters.\<close> Arithmetic of \<open>double\<close> (records of operations), the sinks of the bridge, the interfaces of lwIP, the
  table of actions, the resolver of live values and the JSON parser of the rules, the flash and digest
  libraries of the update, the results of receiving a request body and the query string with its library, the
  answers of the driver to a start of the CAN node.

  \<^bold>\<open>Not modelled.\<close> Vendored libraries, drivers, radio and USB stacks, transports, JSON trees of cJSON and the
  settings made of them, consoles and log lines, tables of vehicles, the data logger, the J2534 server and the ISO-TP
  node. NULL pointers are modelled where the code tests them and a caller can pass them.
\<close>

end
